(* ===== verification/Jos_Prelude.thy ===== *)
theory Jos_Prelude
  imports Main "HOL-Library.Word"
begin

text \<open>
  Shared vocabulary of the development: the C integer types as words, the two proof
  collections \<open>mmu_defs\<close> and \<open>kstate_defs\<close>, lemmas that turn the bit masks of the
  source into \<open>take_bit\<close>/\<open>drop_bit\<close> (so that bit-level goals are closed by
  \<open>bit_simps\<close>), and the theory of intrusive singly linked lists that both free lists
  of the kernel (\<open>page_free_list\<close> of \<open>kern/pmap.c\<close> and \<open>env_free_list\<close> of
  \<open>kern/env.c\<close>) are instances of.
\<close>

unbundle bit_operations_syntax

type_synonym u8 = "8 word"
type_synonym u16 = "16 word"
type_synonym u32 = "32 word"
type_synonym u64 = "64 word"

named_theorems mmu_defs \<open>constants and address macros of inc/mmu.h and inc/memlayout.h\<close>
named_theorems kstate_defs \<open>primitive accessors of the kernel state\<close>

section \<open>Masks and fields of 64-bit words\<close>

lemma and_FFF: "(x :: u64) AND 0xFFF = take_bit 12 x"
  by (simp add: take_bit_eq_mask mask_eq_exp_minus_1)

lemma and_1FF: "(x :: u64) AND 0x1FF = take_bit 9 x"
  by (simp add: take_bit_eq_mask mask_eq_exp_minus_1)

lemma and_not_FFF: "(x :: u64) AND NOT 0xFFF = x AND NOT (mask 12)"
  by (simp add: mask_eq_exp_minus_1)

lemma take_bit_less: "(a :: u64) < 2 ^ n \<Longrightarrow> take_bit n a = a"
  by (metis less_mask_eq take_bit_eq_mask)

lemma unat_take_bit: "unat (take_bit n (x :: 'a::len word)) = unat x mod 2 ^ n"
  by (metis unsigned_take_bit_eq take_bit_eq_mod)

lemma unat_drop_bit: "unat (drop_bit n (x :: 'a::len word)) = unat x div 2 ^ n"
  by (metis unat_drop_bit_eq drop_bit_eq_div)

lemma unat_push_bit_12: "pp < 2 ^ 52 \<Longrightarrow> unat (push_bit 12 (of_nat pp) :: u64) = pp * 4096"
  by (simp add: push_bit_eq_mult unat_word_ariths unat_of_nat)

lemma and_1_eq_0_iff: "(x :: 'a::len word) AND 1 = 0 \<longleftrightarrow> \<not> bit x 0"
  by (simp add: and_one_eq mod_2_eq_odd bit_0)

section \<open>Intrusive singly linked lists\<close>

text \<open>
  \<open>chain lk h xs\<close>: following the link field \<open>lk\<close> from the head pointer \<open>h\<close>
  visits exactly the cells \<open>xs\<close>, in this order, and then meets \<open>NULL\<close>.
\<close>

fun chain :: "(nat \<Rightarrow> nat option) \<Rightarrow> nat option \<Rightarrow> nat list \<Rightarrow> bool" where
  "chain lk h [] \<longleftrightarrow> h = None"
| "chain lk h (x # xs) \<longleftrightarrow> h = Some x \<and> chain lk (lk x) xs"

lemma chain_None [simp]: "chain lk None xs \<longleftrightarrow> xs = []"
  by (cases xs) auto

lemma chain_Some: "chain lk (Some x) xs \<longleftrightarrow> (\<exists>ys. xs = x # ys \<and> chain lk (lk x) ys)"
  by (cases xs) auto

lemma chain_unique: "chain lk h xs \<Longrightarrow> chain lk h ys \<Longrightarrow> xs = ys"
proof (induction xs arbitrary: h ys)
  case Nil
  then show ?case by simp
next
  case (Cons x xs)
  then show ?case by (auto simp: chain_Some)
qed

lemma chain_append: "chain lk h (xs @ ys) \<Longrightarrow> \<exists>h'. chain lk h' ys"
  by (induction xs arbitrary: h) auto

lemma chain_notin_tail: "chain lk (lk x) xs \<Longrightarrow> x \<notin> set xs"
proof
  assume c: "chain lk (lk x) xs" and "x \<in> set xs"
  then obtain us vs where xs: "xs = us @ x # vs" by (auto dest: split_list)
  with c obtain h' where "chain lk h' (x # vs)" by (auto dest: chain_append)
  then have "chain lk (lk x) vs" by simp
  with c have "xs = vs" by (rule chain_unique)
  with xs show False by simp
qed

lemma chain_distinct: "chain lk h xs \<Longrightarrow> distinct xs"
  by (induction xs arbitrary: h) (auto dest: chain_notin_tail)

lemma chain_cong: "(\<And>x. x \<in> set xs \<Longrightarrow> lk x = lk' x) \<Longrightarrow> chain lk h xs = chain lk' h xs"
  by (induction xs arbitrary: h) auto

lemma chain_upd [simp]: "p \<notin> set xs \<Longrightarrow> chain (lk(p := l)) h xs = chain lk h xs"
  by (rule chain_cong) auto

lemma chain_last_None: "chain lk h (xs @ [x]) \<Longrightarrow> lk x = None"
  by (induction xs arbitrary: h) auto

lemma chain_snoc:
  "chain lk h (xs @ [x]) \<Longrightarrow> y \<notin> set (xs @ [x]) \<Longrightarrow> lk y = None \<Longrightarrow>
   chain (lk(x := Some y)) h (xs @ [x, y])"
proof (induction xs arbitrary: h)
  case Nil
  then show ?case by auto
next
  case (Cons a xs)
  from Cons.prems(1) have "a \<noteq> x"
    using chain_distinct by fastforce
  with Cons show ?case by auto
qed

text \<open>
  The interface of a free list: a head variable and a link field, each with a getter and
  a setter. The laws are the independence of the two fields; the lemmas say what the two
  list operations of the source (push at the head, pop at the head) do to the chain.
\<close>

locale intrusive_list =
  fixes head :: "'s \<Rightarrow> nat option"
    and link :: "'s \<Rightarrow> nat \<Rightarrow> nat option"
    and set_head :: "nat option \<Rightarrow> 's \<Rightarrow> 's"
    and set_link :: "nat \<Rightarrow> nat option \<Rightarrow> 's \<Rightarrow> 's"
  assumes head_set_head: "head (set_head h s) = h"
    and head_set_link: "head (set_link p l s) = head s"
    and link_set_head: "link (set_head h s) = link s"
    and link_set_link: "link (set_link p l s) = (link s)(p := l)"
begin

lemmas list_laws = head_set_head head_set_link link_set_head link_set_link

lemma push_chain:
  assumes "chain (link s) (head s) xs" and "p \<notin> set xs"
  shows "chain (link (set_head (Some p) (set_link p (head s) s)))
               (head (set_head (Some p) (set_link p (head s) s))) (p # xs)"
  using assms by (simp add: list_laws)

lemma pop_chain:
  assumes "chain (link s) (head s) (x # xs)"
  shows "chain (link (set_link x None (set_head (link s x) s)))
               (head (set_link x None (set_head (link s x) s))) xs"
  using assms chain_notin_tail [of "link s" x xs] by (simp add: list_laws)

lemma pop_push_chain:
  assumes "chain (link s) (head s) (x # xs)"
    and "s' = set_link x None (set_head (link s x) s)"
  shows "chain (link (set_head (Some x) (set_link x (head s') s')))
               (head (set_head (Some x) (set_link x (head s') s'))) (x # xs)"
proof -
  from assms have "chain (link s') (head s') xs" by (simp add: pop_chain)
  moreover from assms(1) have "x \<notin> set xs" by (auto dest: chain_notin_tail)
  ultimately show ?thesis by (rule push_chain)
qed

end

end
