(* ===== verification/Mmu.thy ===== *)
theory Mmu
  imports Jos_Prelude
begin

text \<open>
  The address arithmetic of the kernel: the index macros and page-table flags of
  \<open>inc/mmu.h\<close>, the memory layout of \<open>inc/memlayout.h\<close>, and the rounding macros of
  \<open>inc/types.h\<close>. A linear address is a 64-bit word. The lemmas give the arithmetic
  value of every index, the round trip between an address and its indices, and the
  arithmetic of rounding, including the addresses where \<open>ROUNDUP\<close> wraps around.
\<close>

section \<open>inc/mmu.h: decomposition of linear addresses\<close>

definition PPN :: "u64 \<Rightarrow> u64" where
  "PPN pa = drop_bit 12 pa"

definition PML4 :: "u64 \<Rightarrow> u64" where
  "PML4 la = drop_bit 39 la AND 0x1FF"

definition PDPE :: "u64 \<Rightarrow> u64" where
  "PDPE la = drop_bit 30 la AND 0x1FF"

definition PDX :: "u64 \<Rightarrow> u64" where
  "PDX la = drop_bit 21 la AND 0x1FF"

definition PTX :: "u64 \<Rightarrow> u64" where
  "PTX la = drop_bit 12 la AND 0x1FF"

definition PGOFF :: "u64 \<Rightarrow> u64" where
  "PGOFF la = la AND 0xFFF"

definition PGADDR :: "u64 \<Rightarrow> u64 \<Rightarrow> u64 \<Rightarrow> u64 \<Rightarrow> u64 \<Rightarrow> u64" where
  "PGADDR m p d t off =
     push_bit 39 m OR push_bit 30 p OR push_bit 21 d OR push_bit 12 t OR off"

definition VPD :: "u64 \<Rightarrow> u64" where
  "VPD la = drop_bit 21 la"

definition VPDPE :: "u64 \<Rightarrow> u64" where
  "VPDPE la = drop_bit 30 la"

definition VPML4E :: "u64 \<Rightarrow> u64" where
  "VPML4E la = drop_bit 39 la"

definition PTE_ADDR :: "u64 \<Rightarrow> u64" where
  "PTE_ADDR pte = pte AND NOT 0xFFF"

definition PGSIZE :: u64 where [mmu_defs]: "PGSIZE = 4096"
definition NPTENTRIES :: u64 where [mmu_defs]: "NPTENTRIES = 512"
definition PTSIZE :: u64 where [mmu_defs]: "PTSIZE = PGSIZE * NPTENTRIES"

definition PTE_P :: u64 where [mmu_defs]: "PTE_P = 0x001"
definition PTE_W :: u64 where [mmu_defs]: "PTE_W = 0x002"
definition PTE_U :: u64 where [mmu_defs]: "PTE_U = 0x004"
definition PTE_PWT :: u64 where [mmu_defs]: "PTE_PWT = 0x008"
definition PTE_PCD :: u64 where [mmu_defs]: "PTE_PCD = 0x010"
definition PTE_AVAIL :: u64 where [mmu_defs]: "PTE_AVAIL = 0xE00"
definition PTE_SYSCALL :: u64 where
  [mmu_defs]: "PTE_SYSCALL = PTE_AVAIL OR PTE_P OR PTE_W OR PTE_U"
definition FEC_WR :: u64 where [mmu_defs]: "FEC_WR = 0x2"
definition FL_IF :: u64 where [mmu_defs]: "FL_IF = 0x200"

section \<open>inc/memlayout.h: the virtual memory map\<close>

definition KERNBASE :: u64 where [mmu_defs]: "KERNBASE = 0x8004000000"
definition IOPHYSMEM :: u64 where [mmu_defs]: "IOPHYSMEM = 0x0A0000"
definition EXTPHYSMEM :: u64 where [mmu_defs]: "EXTPHYSMEM = 0x100000"
definition KSTACKTOP :: u64 where [mmu_defs]: "KSTACKTOP = KERNBASE"
definition KSTKSIZE :: u64 where [mmu_defs]: "KSTKSIZE = 16 * PGSIZE"
definition KSTKGAP :: u64 where [mmu_defs]: "KSTKGAP = 8 * PGSIZE"
definition MMIOLIM :: u64 where [mmu_defs]: "MMIOLIM = KSTACKTOP - PTSIZE"
definition MMIOBASE :: u64 where [mmu_defs]: "MMIOBASE = MMIOLIM - PTSIZE"
definition ULIM :: u64 where [mmu_defs]: "ULIM = MMIOBASE"
definition UVPT :: u64 where [mmu_defs]: "UVPT = 0x10000000000"
definition UPAGES :: u64 where [mmu_defs]: "UPAGES = ULIM - 25 * PTSIZE"
definition UENVS :: u64 where [mmu_defs]: "UENVS = UPAGES - PTSIZE"
definition UTOP :: u64 where [mmu_defs]: "UTOP = UENVS"
definition UXSTACKTOP :: u64 where [mmu_defs]: "UXSTACKTOP = 0xef800000"
definition USTACKTOP :: u64 where [mmu_defs]: "USTACKTOP = UXSTACKTOP - 2 * PGSIZE"
definition UTEXT :: u64 where [mmu_defs]: "UTEXT = 4 * PTSIZE"
definition UTEMP :: u64 where [mmu_defs]: "UTEMP = 2 * PTSIZE"
definition PFTEMP :: u64 where [mmu_defs]: "PFTEMP = UTEMP + PTSIZE - PGSIZE"
definition MPENTRY_PADDR :: u64 where [mmu_defs]: "MPENTRY_PADDR = 0x7000"

definition GD_KT :: u16 where [mmu_defs]: "GD_KT = 0x08"
definition GD_KD :: u16 where [mmu_defs]: "GD_KD = 0x10"
definition GD_UT :: u16 where [mmu_defs]: "GD_UT = 0x18"
definition GD_UD :: u16 where [mmu_defs]: "GD_UD = 0x20"
definition GD_TSS0 :: u16 where [mmu_defs]: "GD_TSS0 = 0x28"

section \<open>inc/types.h: rounding\<close>

definition ROUNDDOWN :: "u64 \<Rightarrow> u64 \<Rightarrow> u64" where
  "ROUNDDOWN a n = a - a mod n"

definition ROUNDUP :: "u64 \<Rightarrow> u64 \<Rightarrow> u64" where
  "ROUNDUP a n = ROUNDDOWN (a + n - 1) n"

section \<open>Arithmetic of the index macros\<close>

lemma PGSIZE_exp: "PGSIZE = 2 ^ 12"
  by (simp add: mmu_defs)

lemma unat_PPN: "unat (PPN pa) = unat pa div 4096"
  by (simp add: PPN_def unat_drop_bit)

lemma unat_PML4: "unat (PML4 la) = unat la div 2 ^ 39 mod 512"
  unfolding PML4_def and_1FF unat_take_bit unat_drop_bit by simp

lemma unat_PDPE: "unat (PDPE la) = unat la div 2 ^ 30 mod 512"
  unfolding PDPE_def and_1FF unat_take_bit unat_drop_bit by simp

lemma unat_PDX: "unat (PDX la) = unat la div 2 ^ 21 mod 512"
  unfolding PDX_def and_1FF unat_take_bit unat_drop_bit by simp

lemma unat_PTX: "unat (PTX la) = unat la div 2 ^ 12 mod 512"
  unfolding PTX_def and_1FF unat_take_bit unat_drop_bit by simp

lemma unat_PGOFF: "unat (PGOFF la) = unat la mod 4096"
  unfolding PGOFF_def and_FFF unat_take_bit by simp

lemma index_less_512 [simp]:
  "unat (PML4 la) < 512" "unat (PDPE la) < 512" "unat (PDX la) < 512" "unat (PTX la) < 512"
  by (simp_all add: unat_PML4 unat_PDPE unat_PDX unat_PTX)

lemmas index_macro_defs = PML4_def PDPE_def PDX_def PTX_def PGOFF_def and_FFF and_1FF

text \<open>An address below \<open>2 ^ 48\<close> is rebuilt by \<open>PGADDR\<close> from its five fields.\<close>

lemma PGADDR_fields_take:
  "PGADDR (PML4 la) (PDPE la) (PDX la) (PTX la) (PGOFF la) = take_bit 48 la"
proof (rule bit_word_eqI)
  fix n assume "n < LENGTH(64)"
  then consider "n < 12" | "12 \<le> n \<and> n < 21" | "21 \<le> n \<and> n < 30"
    | "30 \<le> n \<and> n < 39" | "39 \<le> n" by linarith
  then show "bit (PGADDR (PML4 la) (PDPE la) (PDX la) (PTX la) (PGOFF la)) n =
      bit (take_bit 48 la) n"
    by cases (auto simp: PGADDR_def index_macro_defs bit_simps)
qed

text \<open>Two addresses with the same four indices lie in the same page.\<close>

lemma same_indices_same_page:
  assumes "PML4 a = PML4 b" "PDPE a = PDPE b" "PDX a = PDX b" "PTX a = PTX b"
    and "a < 2 ^ 48" "b < 2 ^ 48"
  shows "PPN a = PPN b"
proof -
  have fields: "PPN c = drop_bit 12 (PGADDR (PML4 c) (PDPE c) (PDX c) (PTX c) (PGOFF c))"
    if "c < 2 ^ 48" for c
    using that by (simp add: PGADDR_fields_take take_bit_less PPN_def)
  have drop: "drop_bit 12 (PGADDR m p d t (PGOFF c)) = drop_bit 12 (PGADDR m p d t 0)"
    for m p d t c
    unfolding PGADDR_def PGOFF_def and_FFF
    by (rule bit_word_eqI) (auto simp: bit_simps)
  show ?thesis using assms by (simp add: fields drop)
qed

section \<open>Page-table entries\<close>

text \<open>\<open>page_addr p\<close> is the physical address of page frame \<open>p\<close>.\<close>

definition page_addr :: "nat \<Rightarrow> u64" where
  "page_addr p = push_bit 12 (of_nat p)"

lemma PTE_ADDR_PPN: "PTE_ADDR pte = push_bit 12 (PPN pte)"
  unfolding PTE_ADDR_def PPN_def and_not_FFF
  by (rule bit_word_eqI) (auto simp: bit_simps)

lemma PPN_PTE_ADDR [simp]: "PPN (PTE_ADDR pte) = PPN pte"
  unfolding PTE_ADDR_def PPN_def and_not_FFF
  by (rule bit_word_eqI) (auto simp: bit_simps dest: bit_imp_le_length)

lemma PTE_ADDR_PTE_ADDR [simp]: "PTE_ADDR (PTE_ADDR pte) = PTE_ADDR pte"
  by (simp add: PTE_ADDR_def word_bw_assocs)

lemma unat_PPN_page_addr [simp]: "p < 2 ^ 52 \<Longrightarrow> unat (PPN (page_addr p)) = p"
  by (simp add: unat_PPN page_addr_def unat_push_bit_12)

lemma PPN_page_addr_flags:
  "take_bit 12 flags = flags \<Longrightarrow> PPN (page_addr p OR flags) = PPN (page_addr p)"
  unfolding PPN_def page_addr_def
  by (rule bit_word_eqI) (auto simp: bit_simps, (metis bit_take_bit_iff not_add_less1)+)

lemma PTE_ADDR_page_addr_flags:
  "take_bit 12 flags = flags \<Longrightarrow> PTE_ADDR (page_addr p OR flags) = page_addr p"
  unfolding PTE_ADDR_def page_addr_def and_not_FFF
  by (rule bit_word_eqI) (auto simp: bit_simps, (metis bit_take_bit_iff not_le)+)

lemma PTE_ADDR_page_addr [simp]: "PTE_ADDR (page_addr p) = page_addr p"
  using PTE_ADDR_page_addr_flags [of 0] by simp

lemma page_addr_and_not_FFF [simp]: "page_addr p AND NOT 0xFFF = page_addr p"
  using PTE_ADDR_page_addr [of p] by (simp add: PTE_ADDR_def)

text \<open>The entry the walkers write for a fresh table page, and its present bit.\<close>

lemma PTE_P_bit: "e AND PTE_P \<noteq> 0 \<longleftrightarrow> bit e 0"
  by (simp add: PTE_P_def and_1_eq_0_iff)

lemma table_flags_small: "take_bit 12 (PTE_U OR PTE_P OR PTE_W) = PTE_U OR PTE_P OR PTE_W"
  by (simp add: mmu_defs)

lemma page_addr_not_bit0 [simp]: "\<not> bit (page_addr p) 0"
  by (simp add: page_addr_def bit_simps)

section \<open>Rounding\<close>

lemma mod_PGSIZE: "(a :: u64) mod PGSIZE = take_bit 12 a"
  by (simp add: PGSIZE_exp take_bit_eq_mod)

lemma ROUNDDOWN_PTE_ADDR: "ROUNDDOWN a PGSIZE = PTE_ADDR a"
proof -
  have "a = PTE_ADDR a + take_bit 12 a"
  proof -
    have "PTE_ADDR a AND take_bit 12 a = 0"
      unfolding PTE_ADDR_def and_not_FFF
      by (rule bit_word_eqI) (auto simp: bit_simps)
    moreover have "PTE_ADDR a OR take_bit 12 a = a"
      unfolding PTE_ADDR_def and_not_FFF
      by (rule bit_word_eqI) (auto simp: bit_simps)
    ultimately show ?thesis
      by (metis add_0 word_plus_and_or)
  qed
  then show ?thesis
    unfolding ROUNDDOWN_def mod_PGSIZE by (metis add_diff_cancel_right')
qed

lemma unat_ROUNDDOWN: "unat (ROUNDDOWN a PGSIZE) = unat a - unat a mod 4096"
proof -
  have "unat a mod 4096 \<le> unat a" by simp
  moreover have "unat (a mod PGSIZE) = unat a mod 4096"
    by (simp add: PGSIZE_def unat_mod)
  ultimately show ?thesis
    unfolding ROUNDDOWN_def by (simp add: unat_sub word_le_nat_alt)
qed

lemma unat_ROUNDUP:
  assumes "unat a + 4095 < 2 ^ 64"
  shows "unat (ROUNDUP a PGSIZE) = (unat a + 4095) div 4096 * 4096"
proof -
  have "unat (a + PGSIZE - 1) = unat a + 4095"
    using assms by (simp add: PGSIZE_def unat_word_ariths flip: add.assoc diff_conv_add_uminus)
  then have "unat (ROUNDUP a PGSIZE) = (unat a + 4095) - (unat a + 4095) mod 4096"
    by (simp add: ROUNDUP_def unat_ROUNDDOWN)
  then show ?thesis by (simp add: minus_mod_eq_div_mult)
qed

end
