(* ===== verification/Segments.thy ===== *)
theory Segments
  imports Mmu
begin

text \<open>
  Segment and gate descriptors, parts 2 and 3 of \<open>inc/mmu.h\<close>. A bit field of the source of
  width \<open>n\<close> is an \<open>n\<close>-bit word, so storing into it truncates as in C.
\<close>

record Segdesc =
  sd_lim_15_0 :: u16
  sd_base_15_0 :: u16
  sd_base_23_16 :: u8
  sd_type :: "4 word"
  sd_s :: "1 word"
  sd_dpl :: "2 word"
  sd_p :: "1 word"
  sd_lim_19_16 :: "4 word"
  sd_avl :: "1 word"
  sd_l :: "1 word"
  sd_db :: "1 word"
  sd_g :: "1 word"
  sd_base_31_24 :: u8

record SystemSegdesc64 =
  ss_lim_15_0 :: u16
  ss_base_15_0 :: u16
  ss_base_23_16 :: u8
  ss_type :: "4 word"
  ss_s :: "1 word"
  ss_dpl :: "2 word"
  ss_p :: "1 word"
  ss_lim_19_16 :: "4 word"
  ss_avl :: "1 word"
  ss_rsv1 :: "2 word"
  ss_g :: "1 word"
  ss_base_31_24 :: u8
  ss_base_63_32 :: u32
  ss_res1 :: u8
  ss_clear :: u8
  ss_res2 :: u16

record Gatedesc =
  gd_off_15_0 :: u16
  gd_ss :: u16
  gd_ist :: "3 word"
  gd_rsv1 :: "5 word"
  gd_type :: "4 word"
  gd_s :: "1 word"
  gd_dpl :: "2 word"
  gd_p :: "1 word"
  gd_off_31_16 :: u16
  gd_off_32_63 :: u32
  gd_rsv2 :: u32

record Pseudodesc =
  pd_lim :: u16
  pd_base :: u64

definition STA_X :: u8 where "STA_X = 0x8"
definition STA_W :: u8 where "STA_W = 0x2"
definition STA_R :: u8 where "STA_R = 0x2"
definition STS_T64A :: u8 where "STS_T64A = 0x9"
definition STS_IG64 :: u8 where "STS_IG64 = 0xE"
definition STS_TG64 :: u8 where "STS_TG64 = 0xF"

definition SEG_NULL :: Segdesc where
  "SEG_NULL = \<lparr>sd_lim_15_0 = 0, sd_base_15_0 = 0, sd_base_23_16 = 0, sd_type = 0, sd_s = 0,
     sd_dpl = 0, sd_p = 0, sd_lim_19_16 = 0, sd_avl = 0, sd_l = 0, sd_db = 0, sd_g = 0,
     sd_base_31_24 = 0\<rparr>"

definition SEG64 :: "u8 \<Rightarrow> u32 \<Rightarrow> u32 \<Rightarrow> u8 \<Rightarrow> Segdesc" where
  "SEG64 ty base lim dpl =
     \<lparr>sd_lim_15_0 = ucast (drop_bit 12 lim AND 0xffff), sd_base_15_0 = ucast (base AND 0xffff),
      sd_base_23_16 = ucast (drop_bit 16 base AND 0xff), sd_type = ucast ty, sd_s = 1,
      sd_dpl = ucast dpl, sd_p = 1, sd_lim_19_16 = ucast (drop_bit 28 lim), sd_avl = 0, sd_l = 1,
      sd_db = 0, sd_g = 1, sd_base_31_24 = ucast (drop_bit 24 base)\<rparr>"

text \<open>\<open>SETTSS\<close> assigns every field of the descriptor.\<close>

definition SETTSS :: "u8 \<Rightarrow> u64 \<Rightarrow> u64 \<Rightarrow> SystemSegdesc64" where
  "SETTSS ty base lim =
     \<lparr>ss_lim_15_0 = ucast (lim AND 0xffff), ss_base_15_0 = ucast (base AND 0xffff),
      ss_base_23_16 = ucast (drop_bit 16 base AND 0xff), ss_type = ucast ty, ss_s = 0, ss_dpl = 0,
      ss_p = 1, ss_lim_19_16 = ucast (drop_bit 16 lim AND 0xf), ss_avl = 0, ss_rsv1 = 0, ss_g = 0,
      ss_base_31_24 = ucast (drop_bit 24 base AND 0xff),
      ss_base_63_32 = ucast (drop_bit 32 base AND 0xffffffff), ss_res1 = 0, ss_clear = 0,
      ss_res2 = 0\<rparr>"

text \<open>
  The GDT is an array of 8-byte entries; a system descriptor takes two. These are the two
  entries that hold its bytes.
\<close>

definition system_low :: "SystemSegdesc64 \<Rightarrow> Segdesc" where
  "system_low d =
     \<lparr>sd_lim_15_0 = ss_lim_15_0 d, sd_base_15_0 = ss_base_15_0 d, sd_base_23_16 = ss_base_23_16 d,
      sd_type = ss_type d, sd_s = ss_s d, sd_dpl = ss_dpl d, sd_p = ss_p d,
      sd_lim_19_16 = ss_lim_19_16 d, sd_avl = ss_avl d, sd_l = ucast (ss_rsv1 d),
      sd_db = ucast (drop_bit 1 (ss_rsv1 d)), sd_g = ss_g d, sd_base_31_24 = ss_base_31_24 d\<rparr>"

definition system_high :: "SystemSegdesc64 \<Rightarrow> Segdesc" where
  "system_high d = SEG_NULL\<lparr>sd_lim_15_0 := ucast (ss_base_63_32 d),
     sd_base_15_0 := ucast (drop_bit 16 (ss_base_63_32 d)), sd_base_23_16 := ss_res1 d\<rparr>"

definition system_base :: "Segdesc \<Rightarrow> Segdesc \<Rightarrow> u64" where
  "system_base lo hi =
     ucast (sd_base_15_0 lo) OR push_bit 16 (ucast (sd_base_23_16 lo)) OR
     push_bit 24 (ucast (sd_base_31_24 lo)) OR push_bit 32 (ucast (sd_lim_15_0 hi)) OR
     push_bit 48 (ucast (sd_base_15_0 hi))"

definition SETGATE :: "bool \<Rightarrow> u16 \<Rightarrow> u64 \<Rightarrow> u8 \<Rightarrow> Gatedesc" where
  "SETGATE istrap sel off dpl =
     \<lparr>gd_off_15_0 = ucast (off AND 0xffff), gd_ss = sel, gd_ist = 0, gd_rsv1 = 0,
      gd_type = ucast (if istrap then STS_TG64 else STS_IG64), gd_s = 0, gd_dpl = ucast dpl,
      gd_p = 1, gd_off_31_16 = ucast (drop_bit 16 off AND 0xffff),
      gd_off_32_63 = ucast (drop_bit 32 off AND 0xffffffff), gd_rsv2 = 0\<rparr>"

text \<open>The address at which the processor continues when it goes through a gate.\<close>

definition gate_offset :: "Gatedesc \<Rightarrow> u64" where
  "gate_offset g = ucast (gd_off_15_0 g) OR push_bit 16 (ucast (gd_off_31_16 g)) OR
     push_bit 32 (ucast (gd_off_32_63 g))"

lemma byte_masks:
  "(0xff :: u64) = mask 8" "(0xffff :: u64) = mask 16" "(0xffffffff :: u64) = mask 32"
  by (simp_all add: mask_eq_exp_minus_1)

lemma gate_offset_SETGATE [simp]: "gate_offset (SETGATE t sel off dpl) = off"
proof (rule bit_word_eqI)
  fix n assume "n < LENGTH(64)"
  then show "bit (gate_offset (SETGATE t sel off dpl)) n = bit off n"
    by (cases "n < 16"; cases "n < 32")
       (simp add: gate_offset_def SETGATE_def byte_masks bit_simps; linarith?)+
qed

lemma system_base_SETTSS [simp]:
  "system_base (system_low (SETTSS ty base lim)) (system_high (SETTSS ty base lim)) = base"
proof (rule bit_word_eqI)
  fix n assume "n < LENGTH(64)"
  then show "bit (system_base (system_low (SETTSS ty base lim)) (system_high (SETTSS ty base lim))) n = bit base n"
    by (cases "n < 16"; cases "n < 24"; cases "n < 32"; cases "n < 48")
       (simp add: system_base_def system_low_def system_high_def SETTSS_def byte_masks bit_simps;
        linarith?)+
qed

text \<open>The initial value of \<open>gdt\<close> in \<open>kern/env.c\<close>: kernel and user code and data.\<close>

definition boot_gdt :: "nat \<Rightarrow> Segdesc" where
  "boot_gdt i =
     (if i = unat (drop_bit 3 GD_KT) then SEG64 (STA_X OR STA_R) 0 0xffffffff 0
      else if i = unat (drop_bit 3 GD_KD) then SEG64 STA_W 0 0xffffffff 0
      else if i = unat (drop_bit 3 GD_UT) then SEG64 (STA_X OR STA_R) 0 0xffffffff 3
      else if i = unat (drop_bit 3 GD_UD) then SEG64 STA_W 0 0xffffffff 3
      else SEG_NULL)"

definition zero_gate :: Gatedesc where
  "zero_gate = \<lparr>gd_off_15_0 = 0, gd_ss = 0, gd_ist = 0, gd_rsv1 = 0, gd_type = 0, gd_s = 0,
     gd_dpl = 0, gd_p = 0, gd_off_31_16 = 0, gd_off_32_63 = 0, gd_rsv2 = 0\<rparr>"

end
