(* ===== verification/Console.thy ===== *)
theory Console
  imports Jos_Prelude
begin

text \<open>
  The console driver (\<open>kern/console.c\<close>) with the interrupt-mask code it uses
  (\<open>kern/picirq.c\<close>). The record \<open>cons_state\<close> holds the driver's static variables under
  their names and the devices behind the I/O ports: the receive queue of the serial port,
  the scan codes waiting in the keyboard controller, the registers of the 6845 display
  controller, the two text buffers, the registers of the real-time clock, and the log \<open>outs\<close> of all \<open>outb\<close> instructions with
  the latest one first. \<open>inb\<close> and \<open>outb\<close> say how the devices answer.

  Shown: the loop that drains a device ends; the input side is a FIFO queue as long as
  fewer than \<open>CONSBUFSIZE\<close> characters wait, and a full round of the ring loses them all;
  the output side implements an abstract 25x80 terminal and never writes outside the
  text buffer.
\<close>

section \<open>The devices\<close>

record cons_state =
  com_present :: bool
  com_txrdy :: bool
  com_rx :: "u8 list"
  lpt_ready :: bool
  kbd_in :: "u8 list"
  video_ram :: "u64 \<Rightarrow> bool"
  video :: "u64 \<Rightarrow> nat \<Rightarrow> u16"
  crtc_index :: u8
  crtc :: "u8 \<Rightarrow> u8"
  rtc_index :: u8
  rtc :: "u8 \<Rightarrow> u8"
  imcr :: u8
  outs :: "(u32 \<times> u8) list"
  irq_mask_8259A :: u16
  didinit :: bool
  serial_exists :: bool
  addr_6845 :: u32
  crt_buf :: u64
  crt_pos :: u16
  shift :: u32
  buf :: "nat \<Rightarrow> u8"
  rpos :: u32
  wpos :: u32

definition COM1 :: u32 where "COM1 = 0x3F8"
definition COM_LSR :: u32 where "COM_LSR = 5"
definition COM_LSR_DATA :: u8 where "COM_LSR_DATA = 0x01"
definition COM_LSR_TXRDY :: u8 where "COM_LSR_TXRDY = 0x20"
definition KBSTATP :: u32 where "KBSTATP = 0x64"
definition KBS_DIB :: u8 where "KBS_DIB = 0x01"
definition KBDATAP :: u32 where "KBDATAP = 0x60"
definition MONO_BASE :: u32 where "MONO_BASE = 0x3B4"
definition MONO_BUF :: u64 where "MONO_BUF = 0xB0000"
definition CGA_BASE :: u32 where "CGA_BASE = 0x3D4"
definition CGA_BUF :: u64 where "CGA_BUF = 0xB8000"
definition CRT_ROWS :: nat where "CRT_ROWS = 25"
definition CRT_COLS :: nat where "CRT_COLS = 80"
definition CRT_SIZE :: nat where "CRT_SIZE = CRT_ROWS * CRT_COLS"
definition CONSBUFSIZE :: nat where "CONSBUFSIZE = 512"
definition IO_PIC1 :: u32 where "IO_PIC1 = 0x20"
definition IO_PIC2 :: u32 where "IO_PIC2 = 0xA0"
definition IRQ_SLAVE :: nat where "IRQ_SLAVE = 2"
definition IRQ_OFFSET :: nat where "IRQ_OFFSET = 32"
definition IO_RTC :: u32 where "IO_RTC = 0x70"

lemmas console_consts = COM1_def COM_LSR_def COM_LSR_DATA_def COM_LSR_TXRDY_def KBSTATP_def
  KBS_DIB_def KBDATAP_def MONO_BASE_def MONO_BUF_def CGA_BASE_def CGA_BUF_def CRT_ROWS_def
  CRT_COLS_def CRT_SIZE_def CONSBUFSIZE_def IO_PIC1_def IO_PIC2_def IRQ_SLAVE_def IRQ_OFFSET_def IO_RTC_def

text \<open>
  Reading a port. A missing serial port reads as \<open>0xFF\<close>; otherwise the line status says
  whether a received byte waits and whether the transmitter is ready. Reading the data
  ports of the serial line and of the keyboard controller takes the byte away.
\<close>

definition com_status :: "cons_state \<Rightarrow> u8" where
  "com_status c =
     (if \<not> com_present c then 0xFF
      else (if com_rx c = [] then 0 else COM_LSR_DATA) OR
           (if com_txrdy c then COM_LSR_TXRDY else 0))"

definition inb :: "u32 \<Rightarrow> cons_state \<Rightarrow> u8 \<times> cons_state" where
  "inb port c =
     (if port = COM1 + COM_LSR then (com_status c, c)
      else if port = COM1 then
        (if com_present c then
           (case com_rx c of [] \<Rightarrow> (0, c) | b # bs \<Rightarrow> (b, c\<lparr>com_rx := bs\<rparr>))
         else (0xFF, c))
      else if port = KBSTATP then (if kbd_in c = [] then 0 else KBS_DIB, c)
      else if port = KBDATAP then
        (case kbd_in c of [] \<Rightarrow> (0, c) | b # bs \<Rightarrow> (b, c\<lparr>kbd_in := bs\<rparr>))
      else if port = 0x379 then (if lpt_ready c then 0x80 else 0, c)
      else if port = MONO_BASE + 1 \<or> port = CGA_BASE + 1 then (crtc c (crtc_index c), c)
      else if port = IO_RTC + 1 then (rtc c (rtc_index c), c)
      else if port = 0x23 then (imcr c, c)
      else (0, c))"

definition outb :: "u32 \<Rightarrow> u8 \<Rightarrow> cons_state \<Rightarrow> cons_state" where
  "outb port v c =
     (let c' = c\<lparr>outs := (port, v) # outs c\<rparr> in
      if port = MONO_BASE \<or> port = CGA_BASE then c'\<lparr>crtc_index := v\<rparr>
      else if port = MONO_BASE + 1 \<or> port = CGA_BASE + 1 then
        c'\<lparr>crtc := (crtc c)(crtc_index c := v)\<rparr>
      else if port = IO_RTC then c'\<lparr>rtc_index := v\<rparr>
      else if port = IO_RTC + 1 then c'\<lparr>rtc := (rtc c)(rtc_index c := v)\<rparr>
      else if port = 0x23 then c'\<lparr>imcr := v\<rparr>
      else c')"

text \<open>A store to the text buffer at \<open>base\<close>; without memory behind it nothing changes.\<close>

definition video_put :: "u64 \<Rightarrow> nat \<Rightarrow> u16 \<Rightarrow> cons_state \<Rightarrow> cons_state" where
  "video_put base i v c =
     (if video_ram c base then c\<lparr>video := (video c)(base := (video c base)(i := v))\<rparr> else c)"

section \<open>Output\<close>

fun serial_wait :: "nat \<Rightarrow> cons_state \<Rightarrow> cons_state" where
  "serial_wait 0 c = c"
| "serial_wait (Suc i) c =
     (let (lsr, c1) = inb (COM1 + COM_LSR) c in
      if lsr AND COM_LSR_TXRDY \<noteq> 0 then c1 else serial_wait i c1)"

definition serial_putc :: "u32 \<Rightarrow> cons_state \<Rightarrow> cons_state" where
  "serial_putc ch c = outb COM1 (ucast ch) (serial_wait 12800 c)"

fun lpt_wait :: "nat \<Rightarrow> cons_state \<Rightarrow> cons_state" where
  "lpt_wait 0 c = c"
| "lpt_wait (Suc i) c =
     (let (status, c1) = inb 0x379 c in
      if status AND 0x80 \<noteq> 0 then c1 else lpt_wait i c1)"

definition lpt_putc :: "u32 \<Rightarrow> cons_state \<Rightarrow> cons_state" where
  "lpt_putc ch c =
     outb 0x37A 0x08 (outb 0x37A (0x08 OR 0x04 OR 0x01) (outb 0x378 (ucast ch) (lpt_wait 12800 c)))"

definition cga_backspace :: "u32 \<Rightarrow> cons_state \<Rightarrow> cons_state" where
  "cga_backspace ch c =
     (if 0 < crt_pos c then
        let c1 = c\<lparr>crt_pos := crt_pos c - 1\<rparr> in
        video_put (crt_buf c1) (unat (crt_pos c1)) (ucast (ch AND NOT 0xff OR 32)) c1
      else c)"

definition cga_return :: "cons_state \<Rightarrow> cons_state" where
  "cga_return c = c\<lparr>crt_pos := crt_pos c - crt_pos c mod of_nat CRT_COLS\<rparr>"

definition cga_scroll :: "cons_state \<Rightarrow> cons_state" where
  "cga_scroll c =
     (if CRT_SIZE \<le> unat (crt_pos c) then
        let old = video c (crt_buf c);
            new = (\<lambda>i. if i < CRT_SIZE - CRT_COLS then old (i + CRT_COLS)
                       else if i < CRT_SIZE then 0x0700 OR 32 else old i)
        in c\<lparr>video := (if video_ram c (crt_buf c) then (video c)(crt_buf c := new) else video c),
             crt_pos := crt_pos c - of_nat CRT_COLS\<rparr>
      else c)"

definition cga_cursor :: "cons_state \<Rightarrow> cons_state" where
  "cga_cursor c =
     outb (addr_6845 c + 1) (ucast (crt_pos c)) (outb (addr_6845 c) 15
       (outb (addr_6845 c + 1) (ucast (drop_bit 8 (crt_pos c))) (outb (addr_6845 c) 14 c)))"

definition cga_attr :: "u32 \<Rightarrow> u32" where
  "cga_attr ch = (if ch AND NOT 0xFF = 0 then ch OR 0x0700 else ch)"

lemma cga_attr_32: "cga_attr 32 AND 0xff = 32"
  by (simp add: cga_attr_def)

function (sequential) cons_putc :: "u32 \<Rightarrow> cons_state \<Rightarrow> cons_state"
  and cga_putc :: "u32 \<Rightarrow> cons_state \<Rightarrow> cons_state" where
  "cons_putc ch c = cga_putc ch (lpt_putc ch (serial_putc ch c))"
| "cga_putc ch c =
     (let k = cga_attr ch AND 0xff in
      cga_cursor (cga_scroll
        (if k = 8 then cga_backspace (cga_attr ch) c
         else if k = 10 then cga_return (c\<lparr>crt_pos := crt_pos c + of_nat CRT_COLS\<rparr>)
         else if k = 13 then cga_return c
         else if k = 9 then
           cons_putc 32 (cons_putc 32 (cons_putc 32 (cons_putc 32 (cons_putc 32 c))))
         else (video_put (crt_buf c) (unat (crt_pos c)) (ucast (cga_attr ch)) c)
                \<lparr>crt_pos := crt_pos c + 1\<rparr>)))"
  by pat_completeness auto

termination
  by (relation "measure (case_sum (\<lambda>(ch, c). if cga_attr ch AND 0xff = 9 then 3 else 1)
        (\<lambda>(ch, c). if cga_attr ch AND 0xff = 9 then 2 else 0))")
     (auto simp: cga_attr_32)

declare cons_putc.simps [simp del] cga_putc.simps [simp del]

definition cputchar :: "u32 \<Rightarrow> cons_state \<Rightarrow> cons_state" where
  "cputchar ch c = cons_putc ch c"

text \<open>\<open>cprintf\<close> of a text without directives puts its characters one after the other.\<close>

definition cons_puts :: "string \<Rightarrow> cons_state \<Rightarrow> cons_state" where
  "cons_puts str c = fold (\<lambda>ch. cons_putc (of_char ch)) str c"

definition cga_init :: "cons_state \<Rightarrow> cons_state" where
  "cga_init c =
     (let was = video c CGA_BUF 0;
          c1 = video_put CGA_BUF 0 0xA55A c;
          (cp, c2) = (if video c1 CGA_BUF 0 \<noteq> 0xA55A
                      then (MONO_BUF, c1\<lparr>addr_6845 := MONO_BASE\<rparr>)
                      else (CGA_BUF, (video_put CGA_BUF 0 was c1)\<lparr>addr_6845 := CGA_BASE\<rparr>));
          (hi, c3) = inb (addr_6845 c2 + 1) (outb (addr_6845 c2) 14 c2);
          (lo, c4) = inb (addr_6845 c3 + 1) (outb (addr_6845 c3) 15 c3)
      in c4\<lparr>crt_buf := cp, crt_pos := push_bit 8 (ucast hi) OR ucast lo\<rparr>)"

definition serial_init :: "cons_state \<Rightarrow> cons_state" where
  "serial_init c =
     (let c1 = outb (COM1 + 1) 0x01 (outb (COM1 + 4) 0 (outb (COM1 + 3) (0x03 AND NOT 0x80)
                 (outb (COM1 + 1) 0 (outb COM1 12 (outb (COM1 + 3) 0x80 (outb (COM1 + 2) 0 c))))));
          (lsr, c2) = inb (COM1 + COM_LSR) c1;
          c3 = c2\<lparr>serial_exists := (lsr \<noteq> 0xFF)\<rparr>
      in snd (inb COM1 (snd (inb (COM1 + 2) c3))))"

section \<open>kern/picirq.c\<close>

fun dec_digits :: "nat \<Rightarrow> string" where
  "dec_digits n = (if n < 10 then [char_of (48 + n)] else dec_digits (n div 10) @ [char_of (48 + n mod 10)])"

declare dec_digits.simps [simp del]

definition irq_setmask_8259A :: "u16 \<Rightarrow> cons_state \<Rightarrow> cons_state" where
  "irq_setmask_8259A msk c =
     (let c1 = c\<lparr>irq_mask_8259A := msk\<rparr> in
      if \<not> didinit c1 then c1
      else
        let c2 = outb (IO_PIC2 + 1) (ucast (drop_bit 8 msk)) (outb (IO_PIC1 + 1) (ucast msk) c1);
            c3 = cons_puts ''enabled interrupts:'' c2;
            c4 = fold (\<lambda>i c. if bit msk i then c else cons_puts ('' '' @ dec_digits i) c) [0..<16] c3
        in cons_puts [char_of (10 :: nat)] c4)"

definition pic_init :: "cons_state \<Rightarrow> cons_state" where
  "pic_init c =
     (let c1 = fold (\<lambda>(port, v) c. outb port v c)
           [(IO_PIC1 + 1, 0xFF), (IO_PIC2 + 1, 0xFF),
            (IO_PIC1, 0x11), (IO_PIC1 + 1, of_nat IRQ_OFFSET),
            (IO_PIC1 + 1, push_bit IRQ_SLAVE 1), (IO_PIC1 + 1, 0x3),
            (IO_PIC2, 0x11), (IO_PIC2 + 1, of_nat IRQ_OFFSET + 8),
            (IO_PIC2 + 1, of_nat IRQ_SLAVE), (IO_PIC2 + 1, 0x01),
            (IO_PIC1, 0x68), (IO_PIC1, 0x0a), (IO_PIC2, 0x68), (IO_PIC2, 0x0a)]
           (c\<lparr>didinit := True\<rparr>)
      in if irq_mask_8259A c1 \<noteq> 0xFFFF then irq_setmask_8259A (irq_mask_8259A c1) c1 else c1)"

section \<open>Keyboard tables\<close>

definition NO :: u8 where "NO = 0"
definition SHIFT :: u32 where "SHIFT = 1"
definition CTL :: u32 where "CTL = 2"
definition ALT :: u32 where "ALT = 4"
definition CAPSLOCK :: u32 where "CAPSLOCK = 8"
definition NUMLOCK :: u32 where "NUMLOCK = 16"
definition SCROLLLOCK :: u32 where "SCROLLLOCK = 32"
definition E0ESC :: u32 where "E0ESC = 64"
definition KEY_DEL :: u8 where "KEY_DEL = 0xE9"

text \<open>An initialised array of 256 bytes: positional values, designated values, zero elsewhere.\<close>

definition table :: "u8 list \<Rightarrow> (nat \<times> u8) list \<Rightarrow> u8 \<Rightarrow> u8" where
  "table xs ds i =
     (case map_of ds (unat i) of Some v \<Rightarrow> v
      | None \<Rightarrow> if unat i < length xs then xs ! unat i else 0)"

definition bytes_of :: "string \<Rightarrow> u8 list" where
  "bytes_of str = map of_char str"

definition shiftcode :: "u8 \<Rightarrow> u8" where
  "shiftcode = table []
     [(0x1D, 2), (0x2A, 1), (0x36, 1), (0x38, 4), (0x9D, 2), (0xB8, 4)]"

definition togglecode :: "u8 \<Rightarrow> u8" where
  "togglecode = table [] [(0x3A, 8), (0x45, 16), (0x46, 32)]"

definition special_keys :: "(nat \<times> u8) list" where
  "special_keys = [(0xC7, 0xE0), (0x9C, 10), (0xB5, 47), (0xC8, 0xE2), (0xC9, 0xE6), (0xCB, 0xE4),
     (0xCD, 0xE5), (0xCF, 0xE1), (0xD0, 0xE3), (0xD1, 0xE7), (0xD2, 0xE8), (0xD3, 0xE9)]"

definition normalmap :: "u8 \<Rightarrow> u8" where
  "normalmap = table
     ([NO, 0x1B] @ bytes_of ''1234567890-='' @ [8, 9] @
      bytes_of ''qwertyuiop[]'' @ [10, NO] @ bytes_of ''as'' @
      bytes_of ''dfghjkl;'' @ [39, 96, NO, 92] @ bytes_of ''zxcv'' @
      bytes_of ''bnm,./'' @ [NO] @ bytes_of ''*'' @
      [NO] @ bytes_of '' '' @ [NO, NO, NO, NO, NO, NO] @
      [NO, NO, NO, NO, NO, NO, NO] @ bytes_of ''7'' @
      bytes_of ''89-456+1'' @
      bytes_of ''230.'' @ [NO, NO, NO, NO]) special_keys"

definition shiftmap :: "u8 \<Rightarrow> u8" where
  "shiftmap = table
     ([NO, 27] @ bytes_of ''!@#$%^&*()_+'' @ [8, 9] @
      bytes_of ''QWERTYUIOP{}'' @ [10, NO] @ bytes_of ''AS'' @
      bytes_of ''DFGHJKL:'' @ [34, 126, NO, 124] @ bytes_of ''ZXCV'' @
      bytes_of ''BNM<>?'' @ [NO] @ bytes_of ''*'' @
      [NO] @ bytes_of '' '' @ [NO, NO, NO, NO, NO, NO] @
      [NO, NO, NO, NO, NO, NO, NO] @ bytes_of ''7'' @
      bytes_of ''89-456+1'' @
      bytes_of ''230.'' @ [NO, NO, NO, NO]) special_keys"

definition ctl :: "string \<Rightarrow> u8 list" where
  "ctl str = map (\<lambda>ch. of_char ch - 64) str"

definition ctlmap :: "u8 \<Rightarrow> u8" where
  "ctlmap = table
     ([NO, NO, NO, NO, NO, NO, NO, NO] @
      [NO, NO, NO, NO, NO, NO, NO, NO] @
      ctl ''QWERTYUI'' @
      ctl ''OP'' @ [NO, NO, 13, NO] @ ctl ''AS'' @
      ctl ''DFGHJKL'' @ [NO] @
      [NO, NO, NO, 92 - 64] @ ctl ''ZXCV'' @
      ctl ''BNM'' @ [NO, NO] @ ctl ''/'' @ [NO, NO])
     [(0x97, 0xE0), (0xB5, 47 - 64), (0xC8, 0xE2), (0xC9, 0xE6), (0xCB, 0xE4),
      (0xCD, 0xE5), (0xCF, 0xE1), (0xD0, 0xE3), (0xD1, 0xE7), (0xD2, 0xE8), (0xD3, 0xE9)]"

definition charcode :: "u32 \<Rightarrow> u8 \<Rightarrow> u8" where
  "charcode i = (if i = 0 then normalmap else if i = 1 then shiftmap else ctlmap)"

section \<open>Input\<close>

definition serial_proc_data :: "cons_state \<Rightarrow> int \<times> cons_state" where
  "serial_proc_data c =
     (let (lsr, c1) = inb (COM1 + COM_LSR) c in
      if lsr AND COM_LSR_DATA = 0 then (-1, c1)
      else let (b, c2) = inb COM1 c1 in (uint b, c2))"

text \<open>
  What \<open>kbd_proc_data\<close> makes of one scan code under the modifier state \<open>sh\<close>: the character
  (0 for none), the new modifier state, and whether Ctrl-Alt-Del was pressed.
\<close>

definition kbd_key :: "u8 \<Rightarrow> u32 \<Rightarrow> u8 \<times> u32 \<times> bool" where
  "kbd_key data sh =
     (let sh1 = sh OR ucast (shiftcode data);
          sh2 = sh1 XOR ucast (togglecode data);
          c0 = charcode (sh2 AND (CTL OR SHIFT)) data;
          c1 = (if sh2 AND CAPSLOCK = 0 then c0
                else if 97 \<le> c0 \<and> c0 \<le> 122 then c0 - 32
                else if 65 \<le> c0 \<and> c0 \<le> 90 then c0 + 32 else c0)
      in (c1, sh2, NOT sh2 AND (CTL OR ALT) = 0 \<and> c1 = KEY_DEL))"

definition kbd_scan :: "u8 \<Rightarrow> u32 \<Rightarrow> u8 \<times> u32 \<times> bool" where
  "kbd_scan data sh =
     (if data = 0xE0 then (0, sh OR E0ESC, False)
      else if data AND 0x80 \<noteq> 0 then
        let d = (if sh AND E0ESC \<noteq> 0 then data else data AND 0x7F)
        in (0, sh AND NOT (ucast (shiftcode d) OR E0ESC), False)
      else if sh AND E0ESC \<noteq> 0 then kbd_key (data OR 0x80) (sh AND NOT E0ESC)
      else kbd_key data sh)"

definition kbd_proc_data :: "cons_state \<Rightarrow> int \<times> cons_state" where
  "kbd_proc_data c =
     (let (status, c1) = inb KBSTATP c in
      if status AND KBS_DIB = 0 then (-1, c1)
      else
        let (data, c2) = inb KBDATAP c1;
            (ch, sh, reboot) = kbd_scan data (shift c2);
            c3 = c2\<lparr>shift := sh\<rparr>;
            c4 = (if reboot then outb 0x92 0x3 (cons_puts (''Rebooting!'' @ [char_of (10 :: nat)]) c3)
                  else c3)
        in (uint ch, c4))"

definition ring_put :: "int \<Rightarrow> cons_state \<Rightarrow> cons_state" where
  "ring_put ch c =
     (let w = wpos c + 1 in
      c\<lparr>buf := (buf c)(unat (wpos c) := word_of_int ch),
        wpos := (if unat w = CONSBUFSIZE then 0 else w)\<rparr>)"

partial_function (option) cons_intr ::
  "(cons_state \<Rightarrow> int \<times> cons_state) \<Rightarrow> cons_state \<Rightarrow> cons_state option" where
  "cons_intr prc c =
     (let (ch, c1) = prc c in
      if ch = -1 then Some c1
      else if ch = 0 then cons_intr prc c1
      else cons_intr prc (ring_put ch c1))"

definition serial_intr :: "cons_state \<Rightarrow> cons_state option" where
  "serial_intr c = (if serial_exists c then cons_intr serial_proc_data c else Some c)"

definition kbd_intr :: "cons_state \<Rightarrow> cons_state option" where
  "kbd_intr c = cons_intr kbd_proc_data c"

definition kbd_init :: "cons_state \<Rightarrow> cons_state option" where
  "kbd_init c =
     Option.bind (kbd_intr c) (\<lambda>c1.
       Some (irq_setmask_8259A (irq_mask_8259A c1 AND NOT (push_bit 1 1)) c1))"

definition cons_getc :: "cons_state \<Rightarrow> (int \<times> cons_state) option" where
  "cons_getc c =
     Option.bind (serial_intr c) (\<lambda>c1. Option.bind (kbd_intr c1) (\<lambda>c2.
       if rpos c2 \<noteq> wpos c2 then
         let ch = buf c2 (unat (rpos c2)); r = rpos c2 + 1
         in Some (uint ch, c2\<lparr>rpos := (if unat r = CONSBUFSIZE then 0 else r)\<rparr>)
       else Some (0, c2)))"

definition cons_init :: "cons_state \<Rightarrow> cons_state option" where
  "cons_init c =
     Option.bind (kbd_init (cga_init c)) (\<lambda>c1.
       let c2 = serial_init c1 in
       Some (if serial_exists c2 then c2
             else cons_puts (''Serial port does not exist!'' @ [char_of (10 :: nat)]) c2))"

text \<open>
  \<open>getchar\<close> polls until a character comes. The argument lists what arrives at the serial
  port and at the keyboard before each poll; \<open>None\<close>: still polling after all of them.
\<close>

fun getchar :: "(u8 list \<times> u8 list) list \<Rightarrow> cons_state \<Rightarrow> (int \<times> cons_state) option" where
  "getchar [] c = None"
| "getchar ((rx, kb) # later) c =
     Option.bind (cons_getc (c\<lparr>com_rx := com_rx c @ rx, kbd_in := kbd_in c @ kb\<rparr>)) (\<lambda>(ch, c1).
       if ch = 0 then getchar later c1 else Some (ch, c1))"

definition iscons :: "int \<Rightarrow> int" where
  "iscons fdnum = 1"

section \<open>The output side: an abstract terminal\<close>

text \<open>The two wait loops only read status registers.\<close>

lemma serial_wait_id [simp]: "serial_wait n c = c"
  by (induction n) (auto simp: inb_def)

lemma lpt_wait_id [simp]: "lpt_wait n c = c"
  by (induction n) (auto simp: inb_def console_consts)

lemma outb_frame [simp]:
  "video (outb p v c) = video c" "video_ram (outb p v c) = video_ram c"
  "crt_buf (outb p v c) = crt_buf c" "crt_pos (outb p v c) = crt_pos c"
  "addr_6845 (outb p v c) = addr_6845 c"
  by (simp_all add: outb_def Let_def)

lemma putc_frame [simp]:
  "video (serial_putc ch c) = video c" "video_ram (serial_putc ch c) = video_ram c"
  "crt_buf (serial_putc ch c) = crt_buf c" "crt_pos (serial_putc ch c) = crt_pos c"
  "addr_6845 (serial_putc ch c) = addr_6845 c"
  "video (lpt_putc ch c) = video c" "video_ram (lpt_putc ch c) = video_ram c"
  "crt_buf (lpt_putc ch c) = crt_buf c" "crt_pos (lpt_putc ch c) = crt_pos c"
  "addr_6845 (lpt_putc ch c) = addr_6845 c"
  by (simp_all add: serial_putc_def lpt_putc_def)

text \<open>
  The terminal: the cells of the screen, row by row, and the cursor. Reaching the end
  of the last row scrolls by one row.
\<close>

type_synonym term_state = "u16 list \<times> nat"

definition screen :: "cons_state \<Rightarrow> u16 list" where
  "screen c = map (video c (crt_buf c)) [0..<CRT_SIZE]"

definition term_of :: "cons_state \<Rightarrow> term_state" where
  "term_of c = (screen c, unat (crt_pos c))"

definition term_scroll :: "term_state \<Rightarrow> term_state" where
  "term_scroll t =
     (if CRT_SIZE \<le> snd t then (drop CRT_COLS (fst t) @ replicate CRT_COLS 0x0720, snd t - CRT_COLS)
      else t)"

definition term_key :: "u32 \<Rightarrow> term_state \<Rightarrow> term_state" where
  "term_key a t =
     (let k = a AND 0xff; scr = fst t; p = snd t in term_scroll
       (if k = 8 then (if 0 < p then (scr[p - 1 := ucast (a AND NOT 0xff OR 32)], p - 1) else t)
        else if k = 10 then (scr, (p div CRT_COLS + 1) * CRT_COLS)
        else if k = 13 then (scr, p div CRT_COLS * CRT_COLS)
        else (scr[p := ucast a], p + 1)))"

definition term_putc :: "u32 \<Rightarrow> term_state \<Rightarrow> term_state" where
  "term_putc ch t =
     (if cga_attr ch AND 0xff = 9 then term_scroll ((term_key (cga_attr 32) ^^ 5) t)
      else term_key (cga_attr ch) t)"

text \<open>The cursor is on the screen, the text buffer is memory, the 6845 is addressed.\<close>

definition crt_ok :: "cons_state \<Rightarrow> bool" where
  "crt_ok c \<longleftrightarrow> unat (crt_pos c) < CRT_SIZE \<and> video_ram c (crt_buf c) \<and>
     (addr_6845 c = MONO_BASE \<or> addr_6845 c = CGA_BASE)"

definition outside_kept :: "cons_state \<Rightarrow> cons_state \<Rightarrow> bool" where
  "outside_kept c c' \<longleftrightarrow>
     crt_buf c' = crt_buf c \<and> video_ram c' = video_ram c \<and> addr_6845 c' = addr_6845 c \<and>
     (\<forall>b i. b \<noteq> crt_buf c \<or> CRT_SIZE \<le> i \<longrightarrow> video c' b i = video c b i)"

lemma outside_kept_refl [simp]: "outside_kept c c"
  by (simp add: outside_kept_def)

lemma outside_kept_trans: "outside_kept c d \<Longrightarrow> outside_kept d e \<Longrightarrow> outside_kept c e"
  by (simp add: outside_kept_def)

lemma length_screen [simp]: "length (screen c) = CRT_SIZE"
  by (simp add: screen_def)

lemma nth_screen [simp]: "i < CRT_SIZE \<Longrightarrow> screen c ! i = video c (crt_buf c) i"
  by (simp add: screen_def)

lemma screen_eqI: "length xs = CRT_SIZE \<Longrightarrow>
    (\<And>i. i < CRT_SIZE \<Longrightarrow> video c (crt_buf c) i = xs ! i) \<Longrightarrow> screen c = xs"
  by (rule nth_equalityI) auto

lemma screen_video_put:
  "video_ram c (crt_buf c) \<Longrightarrow> screen (video_put (crt_buf c) i v c) = (screen c)[i := v]"
  by (rule screen_eqI) (auto simp: video_put_def nth_list_update)

lemma screen_cong: "video c' = video c \<Longrightarrow> crt_buf c' = crt_buf c \<Longrightarrow> screen c' = screen c"
  by (simp add: screen_def)

lemma screen_crt_pos [simp]: "screen (c\<lparr>crt_pos := x\<rparr>) = screen c"
  by (rule screen_cong) simp_all

lemma video_put_frame [simp]:
  "crt_pos (video_put b i v c) = crt_pos c" "crt_buf (video_put b i v c) = crt_buf c"
  "video_ram (video_put b i v c) = video_ram c" "addr_6845 (video_put b i v c) = addr_6845 c"
  by (simp_all add: video_put_def)

lemma outside_video_put:
  "i < CRT_SIZE \<Longrightarrow> outside_kept c (video_put (crt_buf c) i v c)"
  by (auto simp: outside_kept_def video_put_def)

lemma cga_cursor_term [simp]:
  "term_of (cga_cursor c) = term_of c" "crt_ok (cga_cursor c) = crt_ok c"
  "outside_kept d (cga_cursor c) = outside_kept d c"
  by (simp_all add: cga_cursor_def term_of_def crt_ok_def outside_kept_def screen_def)

lemma cga_cursor_regs:
  "crt_ok c \<Longrightarrow> crtc (cga_cursor c) 14 = ucast (drop_bit 8 (crt_pos c)) \<and>
                crtc (cga_cursor c) 15 = ucast (crt_pos c)"
  by (auto simp: crt_ok_def cga_cursor_def outb_def console_consts Let_def)

lemma cga_scroll_term:
  assumes "unat (crt_pos c) < CRT_SIZE + CRT_COLS" "video_ram c (crt_buf c)"
    "addr_6845 c = MONO_BASE \<or> addr_6845 c = CGA_BASE"
  shows "term_of (cga_scroll c) = term_scroll (term_of c)"
    "crt_ok (cga_scroll c)" "outside_kept c (cga_scroll c)"
proof -
  have sub: "unat (crt_pos c - of_nat CRT_COLS) = unat (crt_pos c) - CRT_COLS"
    if "CRT_SIZE \<le> unat (crt_pos c)"
  proof -
    have "of_nat CRT_COLS \<le> crt_pos c" using that by (simp add: word_le_nat_alt console_consts)
    then show ?thesis by (simp add: unat_sub console_consts)
  qed
  show "crt_ok (cga_scroll c)" "outside_kept c (cga_scroll c)"
    using assms sub by (auto simp: crt_ok_def cga_scroll_def Let_def outside_kept_def console_consts)
  show "term_of (cga_scroll c) = term_scroll (term_of c)"
  proof (cases "CRT_SIZE \<le> unat (crt_pos c)")
    case True
    have "screen (cga_scroll c) = drop CRT_COLS (screen c) @ replicate CRT_COLS 0x0720"
      using True assms(2)
      by (intro screen_eqI) (auto simp: cga_scroll_def Let_def nth_append console_consts
          nth_screen [unfolded console_consts] add.commute)
    then show ?thesis using True sub
      by (simp add: term_of_def term_scroll_def) (simp add: cga_scroll_def Let_def)
  next
    case False
    then show ?thesis by (simp add: term_of_def term_scroll_def cga_scroll_def)
  qed
qed

definition cga_key :: "u32 \<Rightarrow> cons_state \<Rightarrow> cons_state" where
  "cga_key a c =
     (let k = a AND 0xff in
      if k = 8 then cga_backspace a c
      else if k = 10 then cga_return (c\<lparr>crt_pos := crt_pos c + of_nat CRT_COLS\<rparr>)
      else if k = 13 then cga_return c
      else (video_put (crt_buf c) (unat (crt_pos c)) (ucast a) c)\<lparr>crt_pos := crt_pos c + 1\<rparr>)"

lemma cga_return_pos:
  "unat (crt_pos (cga_return c)) = unat (crt_pos c) div CRT_COLS * CRT_COLS"
proof -
  let ?p = "crt_pos c"
  have "unat (?p - ?p mod of_nat CRT_COLS) = unat ?p - unat (?p mod of_nat CRT_COLS)"
    by (rule unat_sub) (simp add: word_le_nat_alt unat_mod)
  also have "\<dots> = unat ?p - unat ?p mod CRT_COLS"
    by (simp add: unat_mod console_consts)
  finally show ?thesis by (simp add: cga_return_def minus_mod_eq_div_mult)
qed

lemma cga_key_step:
  assumes ok: "crt_ok c"
  shows "(let d = cga_key a c in
      unat (crt_pos d) < CRT_SIZE + CRT_COLS \<and> outside_kept c d \<and>
      term_scroll (term_of d) = term_key a (term_of c))"
proof -
  let ?p = "unat (crt_pos c)"
  from ok have p: "?p < CRT_SIZE" and r: "video_ram c (crt_buf c)" by (auto simp: crt_ok_def)
  have plus: "unat (crt_pos c + of_nat n) = ?p + n" if "n \<le> 80" for n
    using p that by (subst unat_add_lem [THEN iffD1]) (simp_all add: console_consts unat_of_nat)
  note plus1 = plus [of 1, simplified]
  have minus1: "unat (crt_pos c - 1) = ?p - 1" if "0 < crt_pos c"
    using that by (simp add: unat_minus_one)
  consider "a AND 0xff = 8" | "a AND 0xff = 10" | "a AND 0xff = 13"
    | "a AND 0xff \<noteq> 8" "a AND 0xff \<noteq> 10" "a AND 0xff \<noteq> 13" by blast
  then show ?thesis
  proof cases
    case 1
    show ?thesis
    proof (cases "0 < crt_pos c")
      case True
      let ?c = "c\<lparr>crt_pos := crt_pos c - 1\<rparr>"
      let ?v = "ucast (a AND NOT 0xff OR 32) :: u16"
      have key: "cga_key a c = video_put (crt_buf ?c) (?p - 1) ?v ?c"
        using 1 True by (simp add: cga_key_def cga_backspace_def Let_def minus1)
      have "screen (video_put (crt_buf ?c) (?p - 1) ?v ?c) = (screen ?c)[?p - 1 := ?v]"
        by (rule screen_video_put) (simp add: r)
      then have "term_of (cga_key a c) = ((screen c)[?p - 1 := ?v], ?p - 1)"
        unfolding key by (simp add: term_of_def minus1 True)
      moreover have "outside_kept c (cga_key a c)"
        unfolding key using p by (auto simp: outside_kept_def video_put_def)
      moreover have "0 < ?p" using True by (simp add: word_less_nat_alt)
      ultimately show ?thesis using 1 p
        by (simp add: term_key_def Let_def) (simp add: term_of_def)
    next
      case False
      then have "?p = 0" by (simp add: word_less_nat_alt)
      with 1 False p show ?thesis
        by (simp add: cga_key_def cga_backspace_def term_key_def term_of_def)
    qed
  next
    case 2
    let ?d = "cga_return (c\<lparr>crt_pos := crt_pos c + of_nat CRT_COLS\<rparr>)"
    have pos: "unat (crt_pos ?d) = (?p div CRT_COLS + 1) * CRT_COLS"
      using plus [of CRT_COLS] by (simp add: cga_return_pos) (simp add: console_consts div_add_self2)
    have "screen ?d = screen c" by (rule screen_cong) (simp_all add: cga_return_def)
    moreover have "unat (crt_pos ?d) < CRT_SIZE + CRT_COLS"
      unfolding pos using p by (simp add: console_consts)
    moreover have "outside_kept c ?d" by (simp add: outside_kept_def cga_return_def)
    ultimately show ?thesis using 2 pos
      by (simp add: cga_key_def Let_def term_key_def term_of_def)
  next
    case 3
    have "screen (cga_return c) = screen c" by (rule screen_cong) (simp_all add: cga_return_def)
    moreover have "unat (crt_pos (cga_return c)) < CRT_SIZE + CRT_COLS"
      unfolding cga_return_pos using p by (simp add: console_consts)
    moreover have "outside_kept c (cga_return c)" by (simp add: outside_kept_def cga_return_def)
    ultimately show ?thesis using 3
      by (simp add: cga_key_def Let_def term_key_def term_of_def cga_return_pos)
  next
    case 4
    let ?d = "(video_put (crt_buf c) ?p (ucast a) c)\<lparr>crt_pos := crt_pos c + 1\<rparr>"
    have "screen ?d = (screen c)[?p := ucast a]"
      using screen_video_put [OF r] by (subst screen_cong [of _ "video_put (crt_buf c) ?p (ucast a) c"]) simp_all
    moreover have "outside_kept c ?d"
      using outside_video_put [OF p] by (simp add: outside_kept_def)
    ultimately show ?thesis using 4 p
      by (simp add: cga_key_def Let_def term_key_def term_of_def plus1 console_consts)
  qed
qed

definition putc_post :: "(term_state \<Rightarrow> term_state) \<Rightarrow> cons_state \<Rightarrow> cons_state \<Rightarrow> bool" where
  "putc_post f c c' \<longleftrightarrow>
     crt_ok c' \<and> outside_kept c c' \<and> term_of c' = f (term_of c)"

lemma finish_post:
  assumes "unat (crt_pos d) < CRT_SIZE + CRT_COLS" "crt_ok c" "outside_kept c d"
    "term_scroll (term_of d) = f (term_of c)"
  shows "putc_post f c (cga_cursor (cga_scroll d))"
proof -
  from assms have d: "video_ram d (crt_buf d)" "addr_6845 d = MONO_BASE \<or> addr_6845 d = CGA_BASE"
    by (auto simp: crt_ok_def outside_kept_def)
  note scr = cga_scroll_term [OF assms(1) d]
  show ?thesis
    using scr assms(4) outside_kept_trans [OF assms(3) scr(3)] by (simp add: putc_post_def)
qed

lemma crt_ok_device [simp]:
  "crt_ok (lpt_putc ch c) = crt_ok c" "crt_ok (serial_putc ch c) = crt_ok c"
  "term_of (lpt_putc ch c) = term_of c" "term_of (serial_putc ch c) = term_of c"
  "outside_kept (lpt_putc ch c) d = outside_kept c d"
  "outside_kept (serial_putc ch c) d = outside_kept c d"
  by (simp_all add: crt_ok_def term_of_def screen_def outside_kept_def)

lemma putc_post_device [simp]:
  "putc_post f (lpt_putc ch c) d = putc_post f c d"
  "putc_post f (serial_putc ch c) d = putc_post f c d"
  by (simp_all add: putc_post_def)

lemma putc_post_comp:
  "putc_post f c d \<Longrightarrow> putc_post g d e \<Longrightarrow> putc_post (\<lambda>t. g (f t)) c e"
  using outside_kept_trans by (auto simp: putc_post_def)

lemma cons_putc_plain:
  assumes ok: "crt_ok c" and tab: "cga_attr ch AND 0xff \<noteq> 9"
  shows "putc_post (term_key (cga_attr ch)) c (cons_putc ch c)"
proof -
  let ?c = "lpt_putc ch (serial_putc ch c)"
  have "cons_putc ch c = cga_cursor (cga_scroll (cga_key (cga_attr ch) ?c))"
    using tab by (simp add: cons_putc.simps cga_putc.simps cga_key_def Let_def)
  moreover have ok': "crt_ok ?c" using ok by simp
  ultimately show ?thesis
    using cga_key_step [OF ok', of "cga_attr ch"] finish_post [OF _ ok'] by (simp add: Let_def)
qed

lemma cons_putc_spaces:
  "crt_ok c \<Longrightarrow> putc_post (term_key (cga_attr 32) ^^ n) c ((cons_putc 32 ^^ n) c)"
proof (induction n)
  case 0
  then show ?case by (simp add: putc_post_def)
next
  case (Suc n)
  then have IH: "putc_post (term_key (cga_attr 32) ^^ n) c ((cons_putc 32 ^^ n) c)" by simp
  then have "crt_ok ((cons_putc 32 ^^ n) c)" by (simp add: putc_post_def)
  from putc_post_comp [OF IH cons_putc_plain [OF this]] show ?case
    by (simp add: cga_attr_32 o_def)
qed

lemma funpow_5: "(f ^^ 5) x = f (f (f (f (f x))))"
  by (simp add: numeral_eq_Suc)

lemma cons_putc_tab:
  assumes ok: "crt_ok c" and tab: "cga_attr ch AND 0xff = 9"
  shows "putc_post (\<lambda>t. term_scroll ((term_key (cga_attr 32) ^^ 5) t)) c (cons_putc ch c)"
proof -
  let ?c = "lpt_putc ch (serial_putc ch c)"
  let ?d = "(cons_putc 32 ^^ 5) ?c"
  have eq: "cons_putc ch c = cga_cursor (cga_scroll ?d)"
    using tab by (simp add: cons_putc.simps [of ch] cga_putc.simps [of ch] Let_def funpow_5)
  have post: "putc_post (term_key (cga_attr 32) ^^ 5) ?c ?d"
    by (rule cons_putc_spaces) (simp add: ok)
  then have "crt_ok ?d" and kept: "outside_kept ?c ?d"
    and t: "term_of ?d = (term_key (cga_attr 32) ^^ 5) (term_of ?c)"
    by (simp_all add: putc_post_def)
  then have "unat (crt_pos ?d) < CRT_SIZE + CRT_COLS" by (simp add: crt_ok_def)
  then show ?thesis
    unfolding eq using finish_post [of ?d ?c] kept ok t by simp
qed

lemma cons_putc_cursor: "\<exists>d. cons_putc ch c = cga_cursor d"
  by (simp add: cons_putc.simps [of ch] cga_putc.simps [of ch] Let_def) blast

text \<open>C18: Putting a character on the console implements the abstract terminal: with the
  cursor on the screen, \<open>cons_putc\<close> changes the 25x80 cells and the cursor as the terminal
  does for every character (printable ones, backspace, newline, carriage return, and tab,
  which calls \<open>cons_putc\<close> again), keeps the cursor on the screen, writes nothing outside
  the text buffer, and leaves the cursor position in registers 14 and 15 of the 6845.\<close>

theorem cons_putc_terminal:
  assumes "crt_ok c"
  shows "term_of (cons_putc ch c) = term_putc ch (term_of c) \<and>
    crt_ok (cons_putc ch c) \<and> outside_kept c (cons_putc ch c) \<and>
    crtc (cons_putc ch c) 14 = ucast (drop_bit 8 (crt_pos (cons_putc ch c))) \<and>
    crtc (cons_putc ch c) 15 = ucast (crt_pos (cons_putc ch c))"
proof -
  have post: "putc_post (term_putc ch) c (cons_putc ch c)"
    using cons_putc_plain [OF assms, of ch] cons_putc_tab [OF assms, of ch]
    by (cases "cga_attr ch AND 0xff = 9") (simp_all add: putc_post_def term_putc_def)
  obtain d where d: "cons_putc ch c = cga_cursor d" using cons_putc_cursor by blast
  with post have "crt_ok d" by (simp add: putc_post_def)
  from cga_cursor_regs [OF this] have regs:
    "crtc (cons_putc ch c) 14 = ucast (drop_bit 8 (crt_pos (cons_putc ch c)))"
    "crtc (cons_putc ch c) 15 = ucast (crt_pos (cons_putc ch c))"
    by (simp_all add: d cga_cursor_def)
  show ?thesis using post regs by (simp add: putc_post_def)
qed

definition cons_zero :: cons_state where
  "cons_zero = \<lparr>com_present = True, com_txrdy = True, com_rx = [], lpt_ready = True, kbd_in = [],
     video_ram = (\<lambda>_. True), video = (\<lambda>_ _. 0), crtc_index = 0, crtc = (\<lambda>_. 0), rtc_index = 0,
     rtc = (\<lambda>_. 0), imcr = 0, outs = [],
     irq_mask_8259A = 0xFFFB, didinit = False, serial_exists = False, addr_6845 = 0, crt_buf = 0,
     crt_pos = 0, shift = 0, buf = (\<lambda>_. 0), rpos = 0, wpos = 0\<rparr>"

theorem cons_putc_terminal_witness:
  "(let c = cons_zero\<lparr>addr_6845 := CGA_BASE, crt_buf := CGA_BUF, crt_pos := 1999\<rparr> in
    crt_ok c \<and> snd (term_of (cons_putc 65 c)) = 1920 \<and>
    fst (term_of (cons_putc 65 c)) ! 1919 = 0x0741)"
proof -
  let ?c = "cons_zero\<lparr>addr_6845 := CGA_BASE, crt_buf := CGA_BUF, crt_pos := 1999\<rparr>"
  have ok: "crt_ok ?c" by (simp add: crt_ok_def console_consts cons_zero_def)
  have "term_of (cons_putc 65 ?c) = term_putc 65 (term_of ?c)"
    using cons_putc_terminal [OF ok] by blast
  also have "\<dots> = (drop 80 ((screen ?c)[1999 := 0x0741]) @ replicate 80 0x0720, 1920)"
    by (simp add: term_putc_def term_key_def term_scroll_def cga_attr_def term_of_def console_consts)
  finally have t: "term_of (cons_putc 65 ?c) = \<dots>" .
  have len: "length (screen ?c) = 2000" by (simp add: console_consts)
  show ?thesis unfolding Let_def t using ok len by (simp add: nth_append)
qed

section \<open>The input side: a queue in a ring\<close>

text \<open>
  \<open>pending\<close> is the queue the ring holds: the bytes from \<open>rpos\<close> up to, not including,
  \<open>wpos\<close>. It depends on the three ring variables only.
\<close>

definition ring_inv :: "cons_state \<Rightarrow> bool" where
  "ring_inv c \<longleftrightarrow> unat (rpos c) < CONSBUFSIZE \<and> unat (wpos c) < CONSBUFSIZE"

definition ring_len :: "nat \<Rightarrow> nat \<Rightarrow> nat" where
  "ring_len r w = (if r \<le> w then w - r else w + CONSBUFSIZE - r)"

definition pending :: "cons_state \<Rightarrow> u8 list" where
  "pending c = map (\<lambda>i. buf c ((unat (rpos c) + i) mod CONSBUFSIZE))
     [0..<ring_len (unat (rpos c)) (unat (wpos c))]"

definition ring_of :: "cons_state \<Rightarrow> (nat \<Rightarrow> u8) \<times> u32 \<times> u32" where
  "ring_of c = (buf c, rpos c, wpos c)"

lemma ring_cong: "ring_of c = ring_of d \<Longrightarrow> pending c = pending d \<and> ring_inv c = ring_inv d"
  by (simp add: ring_of_def pending_def ring_inv_def)

lemma length_pending [simp]: "length (pending c) = ring_len (unat (rpos c)) (unat (wpos c))"
  by (simp add: pending_def)

lemma ring_put_pos:
  assumes "unat (x :: u32) < CONSBUFSIZE"
  shows "unat (if unat (x + 1) = CONSBUFSIZE then 0 else x + 1) =
         (if Suc (unat x) = CONSBUFSIZE then 0 else Suc (unat x))"
proof -
  have "unat (x + 1) = unat x + 1"
    using assms by (subst unat_add_lem [THEN iffD1]) (simp_all add: console_consts)
  then show ?thesis by simp
qed

lemma ring_put_inv: "ring_inv c \<Longrightarrow> ring_inv (ring_put ch c)"
  by (simp add: ring_inv_def ring_put_def Let_def ring_put_pos)

lemma ring_slot:
  assumes "r < CONSBUFSIZE" "w < CONSBUFSIZE" "i \<le> ring_len r w" "ring_len r w < CONSBUFSIZE"
  shows "(r + i) mod CONSBUFSIZE = w \<longleftrightarrow> i = ring_len r w"
proof (cases "r + i < CONSBUFSIZE")
  case True
  with assms show ?thesis by (auto simp: ring_len_def split: if_splits)
next
  case False
  with assms have "(r + i) mod CONSBUFSIZE = r + i - CONSBUFSIZE"
    by (auto simp: mod_if ring_len_def split: if_splits)
  with False assms show ?thesis by (auto simp: ring_len_def split: if_splits)
qed

lemma ring_len_step:
  assumes "r < CONSBUFSIZE" "w < CONSBUFSIZE"
  shows "ring_len r (if Suc w = CONSBUFSIZE then 0 else Suc w) =
         (if Suc (ring_len r w) = CONSBUFSIZE then 0 else Suc (ring_len r w))"
  using assms by (auto simp: ring_len_def console_consts)

lemma ring_len_less: "r < CONSBUFSIZE \<Longrightarrow> w < CONSBUFSIZE \<Longrightarrow> ring_len r w < CONSBUFSIZE"
  by (auto simp: ring_len_def)

lemma pending_put:
  assumes inv: "ring_inv c" and room: "Suc (length (pending c)) < CONSBUFSIZE"
  shows "pending (ring_put (uint b) c) = pending c @ [b]"
proof -
  let ?r = "unat (rpos c)" and ?w = "unat (wpos c)"
  let ?n = "ring_len ?r ?w"
  from inv have r: "?r < CONSBUFSIZE" and w: "?w < CONSBUFSIZE" by (auto simp: ring_inv_def)
  have n: "ring_len ?r (unat (wpos (ring_put (uint b) c))) = Suc ?n"
    using room w ring_len_step [OF r w]
    by (simp add: ring_put_def Let_def ring_put_pos)
  have slot: "(?r + i) mod CONSBUFSIZE = ?w \<longleftrightarrow> i = ?n" if "i \<le> ?n" for i
    using ring_slot [OF r w that] ring_len_less [OF r w] by simp
  have "pending (ring_put (uint b) c) =
      map (\<lambda>i. ((buf c)(?w := b)) ((?r + i) mod CONSBUFSIZE)) [0..<Suc ?n]"
    using n by (simp add: pending_def ring_put_def Let_def)
  also have "\<dots> = pending c @ [b]" by (simp add: pending_def slot)
  finally show ?thesis .
qed

lemma pending_put_full:
  assumes inv: "ring_inv c" and full: "Suc (length (pending c)) = CONSBUFSIZE"
  shows "pending (ring_put ch c) = []"
proof -
  from inv have r: "unat (rpos c) < CONSBUFSIZE" and w: "unat (wpos c) < CONSBUFSIZE"
    by (auto simp: ring_inv_def)
  have "ring_len (unat (rpos c)) (unat (wpos (ring_put ch c))) = 0"
    using full w ring_len_step [OF r w]
    by (simp add: ring_put_def Let_def ring_put_pos)
  then show ?thesis by (simp add: pending_def ring_put_def Let_def)
qed

text \<open>What a device delivers goes into the ring, zero bytes left out.\<close>

definition feed :: "u8 list \<Rightarrow> cons_state \<Rightarrow> cons_state" where
  "feed bs c = fold (\<lambda>b. ring_put (uint b)) (filter (\<lambda>b. b \<noteq> 0) bs) c"

lemma feed_simps [simp]:
  "feed [] c = c" "feed (b # bs) c = (if b = 0 then feed bs c else feed bs (ring_put (uint b) c))"
  by (simp_all add: feed_def)

lemma ring_put_frame [simp]:
  "com_rx (ring_put x c) = com_rx c" "kbd_in (ring_put x c) = kbd_in c"
  "shift (ring_put x c) = shift c" "com_present (ring_put x c) = com_present c"
  "serial_exists (ring_put x c) = serial_exists c"
  by (simp_all add: ring_put_def Let_def)

lemma feed_inv: "ring_inv c \<Longrightarrow> ring_inv (feed bs c)"
  by (induction bs arbitrary: c) (auto simp: ring_put_inv)

lemma feed_pending:
  "ring_inv c \<Longrightarrow> length (pending c) + length (filter (\<lambda>b. b \<noteq> 0) bs) < CONSBUFSIZE \<Longrightarrow>
   pending (feed bs c) = pending c @ filter (\<lambda>b. b \<noteq> 0) bs"
proof (induction bs arbitrary: c)
  case Nil
  then show ?case by simp
next
  case (Cons b bs)
  show ?case
  proof (cases "b = 0")
    case True
    with Cons show ?thesis by simp
  next
    case False
    with Cons.prems have "Suc (length (pending c)) < CONSBUFSIZE" by simp
    from pending_put [OF Cons.prems(1) this] have p: "pending (ring_put (uint b) c) = pending c @ [b]" .
    then have "length (pending (ring_put (uint b) c)) = Suc (length (pending c))" by simp
    with Cons.IH [OF ring_put_inv [OF Cons.prems(1)], of "uint b"] Cons.prems False p
    show ?thesis by simp
  qed
qed

lemma ring_put_cong: "ring_of c = ring_of d \<Longrightarrow> ring_of (ring_put x c) = ring_of (ring_put x d)"
  by (simp add: ring_put_def ring_of_def Let_def)

lemma feed_ring_cong: "ring_of c = ring_of d \<Longrightarrow> ring_of (feed bs c) = ring_of (feed bs d)"
proof (induction bs arbitrary: c d)
  case (Cons b bs)
  note here = Cons.IH [OF Cons.prems]
    and next_one = Cons.IH [OF ring_put_cong [OF Cons.prems, of "uint b"]]
  show ?case by (cases "b = 0") (simp_all add: here next_one del: Cons.IH)
qed simp

text \<open>Output never touches the input side.\<close>

definition input_of :: "cons_state \<Rightarrow> _" where
  "input_of c = (ring_of c, com_rx c, kbd_in c, shift c, com_present c, serial_exists c)"

lemma input_of_steps [simp]:
  "input_of (outb p v c) = input_of c" "input_of (video_put b i w c) = input_of c"
  "input_of (c\<lparr>crt_pos := x\<rparr>) = input_of c" "input_of (cga_return c) = input_of c"
  "input_of (cga_scroll c) = input_of c"
  by (simp_all add: input_of_def ring_of_def outb_def video_put_def cga_return_def cga_scroll_def Let_def)

lemma input_of_putc_steps [simp]:
  "input_of (cga_backspace ch c) = input_of c" "input_of (cga_cursor c) = input_of c"
  "input_of (serial_putc ch c) = input_of c" "input_of (lpt_putc ch c) = input_of c"
  by (simp_all add: cga_backspace_def Let_def cga_cursor_def serial_putc_def lpt_putc_def)

lemma input_of_cons_putc [simp]:
  "input_of (cons_putc ch c) = input_of c" "input_of (cga_putc ch c) = input_of c"
proof (induction ch c rule: cons_putc_cga_putc.induct)
  case (1 ch c)
  then show ?case by (simp add: cons_putc.simps [of ch])
next
  case (2 ch c)
  then show ?case by (simp add: cga_putc.simps [of ch] Let_def)
qed

lemma input_of_cons_puts [simp]: "input_of (cons_puts str c) = input_of c"
  by (induction str arbitrary: c) (simp_all add: cons_puts_def)

lemma input_ofD:
  assumes "input_of c = input_of d"
  shows "ring_of c = ring_of d" "com_rx c = com_rx d" "kbd_in c = kbd_in d" "shift c = shift d"
    "com_present c = com_present d" "serial_exists c = serial_exists d"
  using assms by (simp_all add: input_of_def)

text \<open>Draining the serial port.\<close>

lemma data_and_status: "(COM_LSR_DATA OR (if b then COM_LSR_TXRDY else 0)) AND COM_LSR_DATA \<noteq> 0"
  "(0 OR (if b then COM_LSR_TXRDY else 0)) AND COM_LSR_DATA = 0"
  by (cases b; simp add: console_consts)+

lemma serial_proc_data_eq:
  "com_present c \<Longrightarrow> serial_proc_data c =
     (case com_rx c of [] \<Rightarrow> (-1, c) | b # bs \<Rightarrow> (uint b, c\<lparr>com_rx := bs\<rparr>))"
  using data_and_status [of "com_txrdy c"]
  by (cases "com_rx c")
     (simp_all add: serial_proc_data_def inb_def com_status_def Let_def COM_LSR_def)

lemma uint_not_minus [simp]: "uint (b :: u8) \<noteq> -1"
  using uint_ge_0 [of b] by linarith

lemma cons_intr_serial:
  assumes "com_present c"
  shows "cons_intr serial_proc_data c = Some ((feed (com_rx c) c)\<lparr>com_rx := []\<rparr>)"
  using assms
proof (induction "com_rx c" arbitrary: c)
  case Nil
  then show ?case by (simp add: cons_intr.simps [of _ c] serial_proc_data_eq)
next
  case (Cons b bs)
  from Cons(2) have rx: "com_rx c = b # bs" by simp
  have upd: "ring_put x (d\<lparr>com_rx := ys\<rparr>) = (ring_put x d)\<lparr>com_rx := ys\<rparr>" for x d ys
    by (simp add: ring_put_def Let_def)
  have feed_upd: "feed ds (d\<lparr>com_rx := ys\<rparr>) = (feed ds d)\<lparr>com_rx := ys\<rparr>" for ds d ys
    by (induction ds arbitrary: d) (simp_all add: upd)
  show ?case
    using Cons(1) [of "c\<lparr>com_rx := bs\<rparr>"] Cons(1) [of "ring_put (uint b) (c\<lparr>com_rx := bs\<rparr>)"] Cons(3) rx
    by (simp add: cons_intr.simps [of _ c] serial_proc_data_eq feed_upd upd uint_0_iff)
qed

text \<open>Draining the keyboard: the characters a sequence of scan codes stands for.\<close>

fun kbd_chars :: "u32 \<Rightarrow> u8 list \<Rightarrow> u8 list" where
  "kbd_chars sh [] = []"
| "kbd_chars sh (d # ds) = fst (kbd_scan d sh) # kbd_chars (fst (snd (kbd_scan d sh))) ds"

lemma kbd_proc_data_eq:
  "\<exists>d. kbd_proc_data c =
     (case kbd_in c of [] \<Rightarrow> (-1, c) | k # ks \<Rightarrow> (uint (fst (kbd_scan k (shift c))), d)) \<and>
     (\<forall>k ks. kbd_in c = k # ks \<longrightarrow>
        input_of d = input_of (c\<lparr>kbd_in := ks, shift := fst (snd (kbd_scan k (shift c)))\<rparr>))"
proof (cases "kbd_in c")
  case Nil
  then show ?thesis by (simp add: kbd_proc_data_def inb_def console_consts)
next
  case (Cons k ks)
  obtain ch sh reboot where scan: "kbd_scan k (shift c) = (ch, sh, reboot)"
    by (metis prod.exhaust)
  show ?thesis using Cons scan
    by (simp add: kbd_proc_data_def inb_def console_consts Let_def)
qed

lemma cons_intr_kbd:
  "\<exists>d. cons_intr kbd_proc_data c = Some d \<and>
     ring_of d = ring_of (feed (kbd_chars (shift c) (kbd_in c)) c) \<and> kbd_in d = [] \<and>
     com_rx d = com_rx c \<and> com_present d = com_present c \<and> serial_exists d = serial_exists c"
proof (induction "kbd_in c" arbitrary: c)
  case Nil
  then show ?case
    by (simp add: cons_intr.simps [of _ c] kbd_proc_data_def inb_def console_consts)
next
  case (Cons k ks)
  let ?ch = "fst (kbd_scan k (shift c))" and ?sh = "fst (snd (kbd_scan k (shift c)))"
  from kbd_proc_data_eq [of c] Cons(2) [symmetric] obtain e where
    e: "kbd_proc_data c = (uint ?ch, e)" and i: "input_of e = input_of (c\<lparr>kbd_in := ks, shift := ?sh\<rparr>)"
    by auto
  define f where "f = (if ?ch = 0 then e else ring_put (uint ?ch) e)"
  have re: "ring_of e = ring_of c" using input_ofD(1) [OF i] by (simp add: ring_of_def)
  have fin: "kbd_in f = ks" "shift f = ?sh" "com_rx f = com_rx c"
      "com_present f = com_present c" "serial_exists f = serial_exists c"
    using input_ofD(2-) [OF i] by (simp_all add: f_def)
  have rf: "ring_of f = ring_of (if ?ch = 0 then c else ring_put (uint ?ch) c)"
    using re ring_put_cong [OF re] by (simp add: f_def)
  have run: "cons_intr kbd_proc_data c = cons_intr kbd_proc_data f"
    using e by (simp add: cons_intr.simps [of _ c] f_def uint_0_iff)
  from Cons(1) [of f] fin obtain d where d: "cons_intr kbd_proc_data f = Some d"
      "ring_of d = ring_of (feed (kbd_chars ?sh ks) f)" "kbd_in d = []"
      "com_rx d = com_rx c" "com_present d = com_present c" "serial_exists d = serial_exists c"
    by auto
  have "ring_of (feed (kbd_chars ?sh ks) f) = ring_of (feed (kbd_chars (shift c) (kbd_in c)) c)"
    using feed_ring_cong [OF rf] Cons(2) [symmetric] by (auto split: if_splits)
  with run d show ?case by auto
qed

text \<open>All that waits when \<open>cons_getc\<close> is called: the ring, then the serial port, then the keyboard.\<close>

definition waiting :: "cons_state \<Rightarrow> u8 list" where
  "waiting c = pending c @
     filter (\<lambda>b. b \<noteq> 0) ((if serial_exists c then com_rx c else []) @ kbd_chars (shift c) (kbd_in c))"

definition polled :: "cons_state \<Rightarrow> cons_state \<Rightarrow> bool" where
  "polled c d \<longleftrightarrow> Option.bind (serial_intr c) kbd_intr = Some d \<and>
     ring_of d = ring_of (feed ((if serial_exists c then com_rx c else []) @ kbd_chars (shift c) (kbd_in c)) c)"

lemma feed_append: "feed (xs @ ys) c = feed ys (feed xs c)"
  by (simp add: feed_def)

lemma feed_frame [simp]:
  "shift (feed bs c) = shift c" "kbd_in (feed bs c) = kbd_in c"
  by (induction bs arbitrary: c) simp_all

lemma poll_exists:
  assumes "serial_exists c \<Longrightarrow> com_present c"
  shows "\<exists>d. polled c d"
proof -
  define c1 where "c1 = (if serial_exists c then (feed (com_rx c) c)\<lparr>com_rx := []\<rparr> else c)"
  have s: "serial_intr c = Some c1"
    using assms by (simp add: serial_intr_def c1_def cons_intr_serial)
  have r: "ring_of c1 = ring_of (feed (if serial_exists c then com_rx c else []) c)"
    by (simp add: c1_def ring_of_def)
  have k: "shift c1 = shift c" "kbd_in c1 = kbd_in c" by (simp_all add: c1_def)
  from cons_intr_kbd [of c1] obtain d where "cons_intr kbd_proc_data c1 = Some d"
    "ring_of d = ring_of (feed (kbd_chars (shift c) (kbd_in c)) c1)"
    by (auto simp: k)
  with s feed_ring_cong [OF r, of "kbd_chars (shift c) (kbd_in c)"]
  have "polled c d" by (simp add: polled_def kbd_intr_def feed_append)
  then show ?thesis ..
qed

lemma cons_getc_polled:
  assumes "polled c d"
  shows "cons_getc c = Some
     (if rpos d = wpos d then (0, d)
      else (uint (buf d (unat (rpos d))),
            d\<lparr>rpos := (if unat (rpos d + 1) = CONSBUFSIZE then 0 else rpos d + 1)\<rparr>))"
  using assms by (auto simp: polled_def cons_getc_def Let_def bind_eq_Some_conv)

lemma ring_len_0: "r < CONSBUFSIZE \<Longrightarrow> w < CONSBUFSIZE \<Longrightarrow> ring_len r w = 0 \<longleftrightarrow> r = w"
  by (auto simp: ring_len_def)

lemma ring_len_tl:
  assumes "r < CONSBUFSIZE" "w < CONSBUFSIZE" "r \<noteq> w"
  shows "ring_len r w = Suc (ring_len (if Suc r = CONSBUFSIZE then 0 else Suc r) w)"
  using assms by (auto simp: ring_len_def)

lemma pending_pop:
  assumes inv: "ring_inv d" and ne: "rpos d \<noteq> wpos d"
  shows "pending d = buf d (unat (rpos d)) #
     pending (d\<lparr>rpos := (if unat (rpos d + 1) = CONSBUFSIZE then 0 else rpos d + 1)\<rparr>)"
proof -
  let ?r = "unat (rpos d)" and ?w = "unat (wpos d)"
  let ?r' = "if Suc ?r = CONSBUFSIZE then 0 else Suc ?r"
  from inv have r: "?r < CONSBUFSIZE" and w: "?w < CONSBUFSIZE" by (auto simp: ring_inv_def)
  have n: "ring_len ?r ?w = Suc (ring_len ?r' ?w)"
    using ring_len_tl [OF r w] ne by (simp add: word_unat_eq_iff)
  have shift: "(?r + Suc i) mod CONSBUFSIZE = (?r' + i) mod CONSBUFSIZE" for i
    by (cases "Suc ?r = CONSBUFSIZE") (simp_all flip: add_Suc)
  have "pending d = map (\<lambda>i. buf d ((?r + i) mod CONSBUFSIZE)) [0..<Suc (ring_len ?r' ?w)]"
    by (simp only: pending_def n)
  also have "\<dots> = buf d (?r mod CONSBUFSIZE) #
      map (\<lambda>i. buf d ((?r + Suc i) mod CONSBUFSIZE)) [0..<ring_len ?r' ?w]"
    by (subst map_upt_Suc) simp
  finally show ?thesis
    using r by (simp only: shift) (simp add: pending_def ring_put_pos)
qed

lemma cons_getc_oldest:
  assumes inv: "ring_inv c" and com: "serial_exists c \<Longrightarrow> com_present c"
    and room: "length (waiting c) < CONSBUFSIZE"
  shows "\<exists>d c' r. polled c d \<and> (c' = d \<or> c' = d\<lparr>rpos := r\<rparr>) \<and>
     cons_getc c = Some (case waiting c of [] \<Rightarrow> 0 | b # _ \<Rightarrow> uint b, c') \<and>
     ring_inv c' \<and> pending c' = tl (waiting c)"
proof -
  from poll_exists [OF com] obtain d where d: "polled c d" by auto
  let ?in = "(if serial_exists c then com_rx c else []) @ kbd_chars (shift c) (kbd_in c)"
  have "ring_of d = ring_of (feed ?in c)" using d by (simp add: polled_def)
  from ring_cong [OF this] have pd: "pending d = waiting c" and inv_d: "ring_inv d"
    using feed_pending [OF inv, of ?in] feed_inv [OF inv] room
    by (simp_all add: waiting_def)
  let ?d = "d\<lparr>rpos := (if unat (rpos d + 1) = CONSBUFSIZE then 0 else rpos d + 1)\<rparr>"
  show ?thesis
  proof (cases "rpos d = wpos d")
    case True
    then have "pending d = []" by (simp add: pending_def ring_len_def)
    with True inv_d pd d show ?thesis
      by (intro exI [of _ d] exI [of _ d]) (simp add: cons_getc_polled [OF d])
  next
    case False
    have "ring_inv ?d" using inv_d ring_put_pos [of "rpos d"] by (auto simp: ring_inv_def)
    with False pending_pop [OF inv_d False] pd d show ?thesis
      by (intro exI [of _ d] exI [of _ ?d]) (auto simp: cons_getc_polled [OF d])
  qed
qed

text \<open>C19: The console input is a first-in first-out queue: as long as fewer than
  \<open>CONSBUFSIZE\<close> characters wait (in the ring, in the serial port, in the keyboard, which
  is the order in which they are taken), \<open>cons_getc\<close> returns, with the oldest one or with 0
  if there is none, and leaves the others waiting in their order; the ring indices stay
  inside the buffer.\<close>

theorem cons_getc_fifo:
  assumes inv: "ring_inv c" and com: "serial_exists c \<Longrightarrow> com_present c"
    and room: "length (waiting c) < CONSBUFSIZE"
  shows "\<exists>c'. cons_getc c = Some (case waiting c of [] \<Rightarrow> 0 | b # _ \<Rightarrow> uint b, c') \<and>
     ring_inv c' \<and> pending c' = tl (waiting c)"
  using cons_getc_oldest [OF assms] by blast

theorem cons_getc_fifo_witness:
  "let c = cons_zero\<lparr>serial_exists := True, com_rx := [0x68, 0, 0x69], kbd_in := [0x2A, 0x1E]\<rparr> in
   \<exists>c'. cons_getc c = Some (0x68, c') \<and> pending c' = [0x69, 0x41]"
proof -
  let ?c = "cons_zero\<lparr>serial_exists := True, com_rx := [0x68, 0, 0x69], kbd_in := [0x2A, 0x1E]\<rparr>"
  have keys: "kbd_chars 0 [0x2A, 0x1E] = [0, 0x41]"
    by (simp add: kbd_scan_def kbd_key_def Let_def shiftcode_def togglecode_def table_def charcode_def
        normalmap_def shiftmap_def bytes_of_def NO_def CTL_def SHIFT_def CAPSLOCK_def E0ESC_def special_keys_def)
  have w: "waiting ?c = [0x68, 0x69, 0x41]"
    by (simp add: waiting_def cons_zero_def pending_def ring_len_def keys del: kbd_chars.simps)
  have "ring_inv ?c" "com_present ?c" by (simp_all add: ring_inv_def cons_zero_def console_consts)
  with cons_getc_fifo [of ?c] w show ?thesis by (auto simp: console_consts)
qed

text \<open>A full round of the ring loses everything: when \<open>CONSBUFSIZE\<close> characters wait,
  \<open>cons_getc\<close> reports that there is no input at all.\<close>

theorem cons_getc_overflow:
  assumes inv: "ring_inv c" and com: "serial_exists c \<Longrightarrow> com_present c"
    and full: "length (waiting c) = CONSBUFSIZE"
  shows "\<exists>c'. cons_getc c = Some (0, c') \<and> pending c' = []"
proof -
  from poll_exists [OF com] obtain d where d: "polled c d" by auto
  let ?in = "filter (\<lambda>b. b \<noteq> 0) ((if serial_exists c then com_rx c else []) @ kbd_chars (shift c) (kbd_in c))"
  have filt: "filter (\<lambda>b. b \<noteq> 0) ?in = ?in" by simp
  have fd: "ring_of d = ring_of (feed ?in c)" using d by (simp add: polled_def feed_def filter_filter)
  have "pending c \<noteq> waiting c"
    using ring_len_less inv full unfolding ring_inv_def
    by (metis length_pending less_irrefl)
  then have "?in \<noteq> []" by (auto simp: waiting_def)
  then obtain xs x where xs: "?in = xs @ [x]" by (metis rev_exhaust)
  have "0 \<notin> set ?in" by simp
  then have nz: "x \<noteq> 0" "filter (\<lambda>b. b \<noteq> 0) xs = xs" unfolding xs
    by (auto simp: filter_id_conv)
  have "Suc (length (pending c) + length xs) = CONSBUFSIZE"
    using full unfolding waiting_def xs by simp
  then have p: "pending (feed xs c) = pending c @ xs"
    using feed_pending [OF inv, of xs] nz(2) by simp
  then have "Suc (length (pending (feed xs c))) = CONSBUFSIZE"
    using \<open>Suc (length (pending c) + length xs) = CONSBUFSIZE\<close> by (metis length_append)
  from pending_put_full [OF feed_inv [OF inv] this, of "uint x"]
  have "pending (feed ?in c) = []" using nz(1) unfolding xs by (simp add: feed_append)
  moreover have "ring_inv (feed ?in c)" by (rule feed_inv [OF inv])
  ultimately have pd: "pending d = []" and inv_d: "ring_inv d" using ring_cong [OF fd] by simp_all
  then have "ring_len (unat (rpos d)) (unat (wpos d)) = 0" by (metis length_pending list.size(3))
  with inv_d have "rpos d = wpos d" by (auto simp: ring_inv_def ring_len_0 word_unat_eq_iff)
  with pd show ?thesis by (simp add: cons_getc_polled [OF d])
qed

theorem cons_getc_overflow_witness:
  "\<exists>c'. cons_getc (cons_zero\<lparr>serial_exists := True, com_rx := replicate 512 0x41\<rparr>) = Some (0, c') \<and>
     pending c' = []"
proof -
  let ?c = "cons_zero\<lparr>serial_exists := True, com_rx := replicate 512 0x41\<rparr>"
  have "pending ?c = []" by (simp add: pending_def cons_zero_def ring_len_def)
  then have "length (waiting ?c) = CONSBUFSIZE"
    by (simp add: waiting_def cons_zero_def filter_replicate console_consts)
  moreover have "ring_inv ?c" "com_present ?c" by (simp_all add: ring_inv_def cons_zero_def console_consts)
  ultimately show ?thesis using cons_getc_overflow [of ?c] by simp
qed

end
