(* ===== verification/Kstate.thy ===== *)
theory Kstate
  imports Segments Console
begin

text \<open>
  The state of the kernel and the way its C functions are rendered. Every global variable
  of \<open>kern/*.c\<close> that the modelled functions read or write is a field of the record
  \<open>kstate\<close>; the structs of \<open>inc/\<close> and \<open>kern/\<close> are records with the source's
  field names (padding fields and the debugging pointer \<open>elf\<close> of \<open>struct Env\<close> left
  out), the enums are datatypes. A C function that may
  not return normally yields either \<open>Inl (why, s)\<close> (a panic, a dereference of
  \<open>NULL\<close>, a page fault in kernel mode, the return to user mode, the idle loop, a loop
  that never ends) or \<open>Inr (value, s)\<close>;
  \<open>bindK\<close> is sequencing.

  Physical memory is addressed by page frame and 64-bit word inside the frame, the
  granularity at which page tables are accessed; a byte is a field of its word. A pointer
  into the region above \<open>KERNBASE\<close>, where physical memory is mapped, is a pair of
  frame and word index (\<open>kptr\<close>). The arrays \<open>pages\<close>, \<open>envs\<close> and
  \<open>cpus\<close> are fields of their own, a pointer to an element is its index, and
  \<open>NULL\<close> is \<open>None\<close>.
\<close>

section \<open>Structs and enums\<close>

record PageInfo =
  pp_link :: "nat option"
  pp_ref :: u16

record PushRegs =
  reg_r15 :: u64
  reg_r14 :: u64
  reg_r13 :: u64
  reg_r12 :: u64
  reg_r11 :: u64
  reg_r10 :: u64
  reg_r9 :: u64
  reg_r8 :: u64
  reg_rsi :: u64
  reg_rdi :: u64
  reg_rbp :: u64
  reg_rdx :: u64
  reg_rcx :: u64
  reg_rbx :: u64
  reg_rax :: u64

record Trapframe =
  tf_regs :: PushRegs
  tf_es :: u16
  tf_ds :: u16
  tf_trapno :: u64
  tf_err :: u64
  tf_rip :: u64
  tf_cs :: u16
  tf_eflags :: u64
  tf_rsp :: u64
  tf_ss :: u16

type_synonym kptr = "nat \<times> nat"

datatype env_status_t =
  ENV_FREE | ENV_DYING | ENV_RUNNABLE | ENV_RUNNING | ENV_NOT_RUNNABLE

datatype EnvType = ENV_TYPE_USER

record Env =
  env_tf :: Trapframe
  env_link :: "nat option"
  env_id :: u32
  env_parent_id :: u32
  env_type :: EnvType
  env_status :: env_status_t
  env_runs :: u32
  env_cpunum :: int
  env_pml4e :: "kptr option"
  env_cr3 :: u64
  env_pgfault_upcall :: u64
  env_ipc_recving :: bool
  env_ipc_dstva :: u64
  env_ipc_value :: u32
  env_ipc_from :: u32
  env_ipc_perm :: u32

datatype cpu_status_t = CPU_UNUSED | CPU_STARTED | CPU_HALTED

record CpuInfo =
  cpu_id :: u8
  cpu_status :: cpu_status_t
  cpu_env :: "nat option"
  cpu_ts_esp0 :: u64

record spinlock =
  locked :: u32
  lk_name :: string
  lk_cpu :: "nat option"
  pcs :: "u64 list"

definition LOG2NENV :: nat where "LOG2NENV = 10"
definition NENV :: nat where "NENV = 2 ^ LOG2NENV"
definition NCPU :: nat where "NCPU = 8"

definition E_UNSPECIFIED :: int where [kstate_defs]: "E_UNSPECIFIED = 1"
definition E_BAD_ENV :: int where [kstate_defs]: "E_BAD_ENV = 2"
definition E_INVAL :: int where [kstate_defs]: "E_INVAL = 3"
definition E_NO_MEM :: int where [kstate_defs]: "E_NO_MEM = 4"
definition E_NO_FREE_ENV :: int where [kstate_defs]: "E_NO_FREE_ENV = 5"
definition E_FAULT :: int where [kstate_defs]: "E_FAULT = 6"
definition E_NO_SYS :: int where [kstate_defs]: "E_NO_SYS = 7"
definition E_IPC_NOT_RECV :: int where [kstate_defs]: "E_IPC_NOT_RECV = 8"

section \<open>Global variables\<close>

text \<open>
  \<open>kend\<close> is the linker symbol \<open>end\<close>; \<open>bootstack\<close> and \<open>percpu_kstacks\<close> are the
  addresses of the kernel stacks. \<open>cpu\<close> is the index \<open>cpunum()\<close> of the processor
  executing the code, \<open>cr2\<close> and \<open>cr3\<close> are the control registers per processor,
  \<open>invlpgs\<close> is the log of executed \<open>invlpg\<close> instructions and \<open>klog\<close> the log of
  \<open>cprintf\<close> calls (format string and integer arguments), both with the latest entry
  first. \<open>console\<close> is the state of the console driver and of the I/O ports. A trapframe pointer
  is either the frame on the kernel stack (\<open>stack_tf\<close>) or the saved frame of an environment.
  \<open>tr\<close> and \<open>idtr\<close> are the task and interrupt-table registers per processor, \<open>lapic\<close> is
  the address at which the local APIC is mapped, \<open>lapic_ver\<close> its version register and
  \<open>lapicws\<close> the log of writes to it (processor, register index, value).
\<close>

datatype tfptr = TfStack | TfEnv nat

record kstate =
  npages :: nat
  npages_basemem :: nat
  pages :: "nat \<Rightarrow> PageInfo"
  page_free_list :: "nat option"
  mem :: "nat \<Rightarrow> nat \<Rightarrow> u64"
  boot_pml4e :: kptr
  boot_cr3 :: u64
  nextfree :: u64
  kend :: u64
  bootstack :: u64
  percpu_kstacks :: "nat \<Rightarrow> u64"
  mmio_base :: u64
  user_mem_check_addr :: u64
  envs :: "nat \<Rightarrow> Env"
  env_free_list :: "nat option"
  cpus :: "nat \<Rightarrow> CpuInfo"
  ncpu :: nat
  cpu :: nat
  cr2 :: "nat \<Rightarrow> u64"
  cr3 :: "nat \<Rightarrow> u64"
  kernel_lock :: spinlock
  invlpgs :: "(nat \<times> u64) list"
  klog :: "(string \<times> u64 list) list"
  console :: cons_state
  panicstr :: bool
  stack_tf :: Trapframe
  last_tf :: "tfptr option"
  idt :: "nat \<Rightarrow> Gatedesc"
  idt_pd :: Pseudodesc
  gdt :: "nat \<Rightarrow> Segdesc"
  tr :: "nat \<Rightarrow> u16"
  idtr :: "nat \<Rightarrow> Pseudodesc"
  lapicaddr :: u64
  lapic :: "u64 option"
  lapic_ver :: u32
  lapicws :: "(nat \<times> u32 \<times> u32) list"
  bootcpu :: nat
  ismp :: bool

section \<open>Results and sequencing\<close>

datatype stop =
    Panic string
  | NullDeref
  | KernelFault u64
  | EnvRun nat
  | Idle
  | Monitor
  | Hang

type_synonym 'a res = "(stop \<times> kstate) + ('a \<times> kstate)"

definition bindK :: "'a res \<Rightarrow> ('a \<Rightarrow> kstate \<Rightarrow> 'b res) \<Rightarrow> 'b res" where
  "bindK r f = (case r of Inl e \<Rightarrow> Inl e | Inr (x, s) \<Rightarrow> f x s)"

lemma bindK_simps [simp]:
  "bindK (Inl e) f = Inl e"
  "bindK (Inr (x, s)) f = f x s"
  by (simp_all add: bindK_def)

lemma bindK_Inr_iff:
  "bindK r f = Inr q \<longleftrightarrow> (\<exists>x s. r = Inr (x, s) \<and> f x s = Inr q)"
  by (cases r) (auto simp: bindK_def)

lemma bindK_Inl_iff:
  "bindK r f = Inl e \<longleftrightarrow> r = Inl e \<or> (\<exists>x s. r = Inr (x, s) \<and> f x s = Inl e)"
  by (cases r) (auto simp: bindK_def)

lemma bindK_assoc: "bindK (bindK r f) g = bindK r (\<lambda>x s. bindK (f x s) g)"
  by (cases r) (auto simp: bindK_def)

definition panic :: "string \<Rightarrow> kstate \<Rightarrow> 'a res" where
  "panic msg s = Inl (Panic msg, s)"

text \<open>Using a pointer that may be \<open>NULL\<close>.\<close>

definition deref :: "'a option \<Rightarrow> kstate \<Rightarrow> 'a res" where
  "deref p s = (case p of None \<Rightarrow> Inl (NullDeref, s) | Some a \<Rightarrow> Inr (a, s))"

lemma deref_simps [simp]:
  "deref None s = Inl (NullDeref, s)"
  "deref (Some a) s = Inr (a, s)"
  by (simp_all add: deref_def)

definition cprintf :: "string \<Rightarrow> u64 list \<Rightarrow> kstate \<Rightarrow> kstate" where
  "cprintf fmt args s = s\<lparr>klog := (fmt, args) # klog s\<rparr>"

section \<open>Accessors\<close>

definition ld :: "kstate \<Rightarrow> kptr \<Rightarrow> u64" where
  [kstate_defs]: "ld s a = mem s (fst a) (snd a)"

definition st :: "kptr \<Rightarrow> u64 \<Rightarrow> kstate \<Rightarrow> kstate" where
  [kstate_defs]: "st a v s = s\<lparr>mem := (mem s)(fst a := (mem s (fst a))(snd a := v))\<rparr>"

text \<open>The element \<open>a[i]\<close> of an array of 64-bit words.\<close>

definition elem_ptr :: "kptr \<Rightarrow> u64 \<Rightarrow> kptr" where
  [kstate_defs]: "elem_ptr a i = (fst a, snd a + unat i)"

definition set_pp_link :: "nat \<Rightarrow> nat option \<Rightarrow> kstate \<Rightarrow> kstate" where
  [kstate_defs]: "set_pp_link p l s = s\<lparr>pages := (pages s)(p := (pages s p)\<lparr>pp_link := l\<rparr>)\<rparr>"

definition set_pp_ref :: "nat \<Rightarrow> u16 \<Rightarrow> kstate \<Rightarrow> kstate" where
  [kstate_defs]: "set_pp_ref p r s = s\<lparr>pages := (pages s)(p := (pages s p)\<lparr>pp_ref := r\<rparr>)\<rparr>"

definition set_page_free_list :: "nat option \<Rightarrow> kstate \<Rightarrow> kstate" where
  [kstate_defs]: "set_page_free_list h s = s\<lparr>page_free_list := h\<rparr>"

definition upd_env :: "nat \<Rightarrow> (Env \<Rightarrow> Env) \<Rightarrow> kstate \<Rightarrow> kstate" where
  [kstate_defs]: "upd_env e f s = s\<lparr>envs := (envs s)(e := f (envs s e))\<rparr>"

definition curenv :: "kstate \<Rightarrow> nat option" where
  [kstate_defs]: "curenv s = cpu_env (cpus s (cpu s))"

definition set_curenv :: "nat option \<Rightarrow> kstate \<Rightarrow> kstate" where
  [kstate_defs]: "set_curenv e s =
     s\<lparr>cpus := (cpus s)(cpu s := (cpus s (cpu s))\<lparr>cpu_env := e\<rparr>)\<rparr>"

definition lcr3 :: "u64 \<Rightarrow> kstate \<Rightarrow> kstate" where
  [kstate_defs]: "lcr3 v s = s\<lparr>cr3 := (cr3 s)(cpu s := v)\<rparr>"

definition invlpg :: "u64 \<Rightarrow> kstate \<Rightarrow> kstate" where
  [kstate_defs]: "invlpg va s = s\<lparr>invlpgs := (cpu s, va) # invlpgs s\<rparr>"

section \<open>The state the loader leaves\<close>

text \<open>
  Uninitialised globals are zero. The memory size (set by \<open>i386_detect_memory\<close>) and the
  linker symbol \<open>end\<close> are arguments.
\<close>

definition zero_regs :: PushRegs where
  "zero_regs = \<lparr>reg_r15 = 0, reg_r14 = 0, reg_r13 = 0, reg_r12 = 0, reg_r11 = 0, reg_r10 = 0,
     reg_r9 = 0, reg_r8 = 0, reg_rsi = 0, reg_rdi = 0, reg_rbp = 0, reg_rdx = 0, reg_rcx = 0,
     reg_rbx = 0, reg_rax = 0\<rparr>"

definition zero_tf :: Trapframe where
  "zero_tf = \<lparr>tf_regs = zero_regs, tf_es = 0, tf_ds = 0, tf_trapno = 0, tf_err = 0, tf_rip = 0,
     tf_cs = 0, tf_eflags = 0, tf_rsp = 0, tf_ss = 0\<rparr>"

definition zero_env :: Env where
  "zero_env = \<lparr>env_tf = zero_tf, env_link = None, env_id = 0, env_parent_id = 0,
     env_type = ENV_TYPE_USER, env_status = ENV_FREE, env_runs = 0, env_cpunum = 0,
     env_pml4e = None, env_cr3 = 0, env_pgfault_upcall = 0, env_ipc_recving = False,
     env_ipc_dstva = 0, env_ipc_value = 0, env_ipc_from = 0, env_ipc_perm = 0\<rparr>"

definition zero_cpu :: CpuInfo where
  "zero_cpu = \<lparr>cpu_id = 0, cpu_status = CPU_UNUSED, cpu_env = None, cpu_ts_esp0 = 0\<rparr>"

definition zero_lock :: spinlock where
  "zero_lock = \<lparr>locked = 0, lk_name = ''kernel_lock'', lk_cpu = None, pcs = []\<rparr>"

definition bss_state :: "nat \<Rightarrow> nat \<Rightarrow> u64 \<Rightarrow> kstate" where
  "bss_state np basemem kernel_end =
     \<lparr>npages = np, npages_basemem = basemem, pages = (\<lambda>_. \<lparr>pp_link = None, pp_ref = 0\<rparr>),
      page_free_list = None, mem = (\<lambda>_ _. 0), boot_pml4e = (0, 0), boot_cr3 = 0,
      nextfree = 0, kend = kernel_end, bootstack = 0, percpu_kstacks = (\<lambda>_. 0),
      mmio_base = MMIOBASE, user_mem_check_addr = 0, envs = (\<lambda>_. zero_env),
      env_free_list = None, cpus = (\<lambda>_. zero_cpu), ncpu = 0, cpu = 0, cr2 = (\<lambda>_. 0),
      cr3 = (\<lambda>_. 0), kernel_lock = zero_lock, invlpgs = [], klog = [],
      console = cons_zero, panicstr = False, stack_tf = zero_tf, last_tf = None,
      idt = (\<lambda>_. zero_gate), idt_pd = \<lparr>pd_lim = 0, pd_base = 0\<rparr>, gdt = boot_gdt,
      tr = (\<lambda>_. 0), idtr = (\<lambda>_. \<lparr>pd_lim = 0, pd_base = 0\<rparr>), lapicaddr = 0, lapic = None,
      lapic_ver = 0, lapicws = [], bootcpu = 0, ismp = False\<rparr>"

lemma bss_state_simps [simp]:
  "npages (bss_state np b k) = np" "npages_basemem (bss_state np b k) = b"
  "pages (bss_state np b k) = (\<lambda>_. \<lparr>pp_link = None, pp_ref = 0\<rparr>)"
  "page_free_list (bss_state np b k) = None" "mem (bss_state np b k) = (\<lambda>_ _. 0)"
  "nextfree (bss_state np b k) = 0" "kend (bss_state np b k) = k"
  "envs (bss_state np b k) = (\<lambda>_. zero_env)" "env_free_list (bss_state np b k) = None"
  "cpus (bss_state np b k) = (\<lambda>_. zero_cpu)" "cpu (bss_state np b k) = 0"
  "boot_pml4e (bss_state np b k) = (0, 0)"
  by (simp_all add: bss_state_def)

end
