(* ===== verification/Spinlock.thy ===== *)
theory Spinlock
  imports Kstate
begin

text \<open>
  \<open>kern/spinlock.c\<close> and the inline functions of \<open>kern/spinlock.h\<close>. The operations on the
  lock record are functions; the interleaving of several processors on one lock is the step
  relation \<open>lstep\<close>, with one step per shared-memory access of the source. Mutual exclusion
  and the absence of the two panics are proved by induction over its runs.
\<close>

section \<open>The lock operations\<close>

text \<open>
  \<open>rd\<close> reads the 64-bit word at a kernel address; \<open>get_caller_pcs\<close> follows the chain of
  frame pointers, at most \<open>n\<close> of them, and fills up with zeros.
\<close>

fun get_caller_pcs :: "(u64 \<Rightarrow> u64) \<Rightarrow> u64 \<Rightarrow> nat \<Rightarrow> u64 list" where
  "get_caller_pcs rd rbp 0 = []"
| "get_caller_pcs rd rbp (Suc n) =
     (if rbp = 0 \<or> rbp < ULIM then replicate (Suc n) 0
      else rd (rbp + 8) # get_caller_pcs rd (rd rbp) n)"

definition holding :: "nat \<Rightarrow> spinlock \<Rightarrow> bool" where
  "holding c lk \<longleftrightarrow> locked lk \<noteq> 0 \<and> lk_cpu lk = Some c"

definition spin_initlock :: "string \<Rightarrow> spinlock \<Rightarrow> spinlock" where
  "spin_initlock name lk = lk\<lparr>locked := 0, lk_name := name, lk_cpu := None\<rparr>"

text \<open>\<open>xchg(&lk->locked, v)\<close>: the old value and the new lock.\<close>

definition xchg_locked :: "u32 \<Rightarrow> spinlock \<Rightarrow> u32 \<times> spinlock" where
  "xchg_locked v lk = (locked lk, lk\<lparr>locked := v\<rparr>)"

text \<open>The parts of \<open>spin_lock\<close>: one turn of the loop, and the record made after it.\<close>

definition try_lock :: "spinlock \<Rightarrow> bool \<times> spinlock" where
  "try_lock lk = (let (old, lk) = xchg_locked 1 lk in (old = 0, lk))"

definition record_holder :: "nat \<Rightarrow> u64 list \<Rightarrow> spinlock \<Rightarrow> spinlock" where
  "record_holder c bt lk = lk\<lparr>lk_cpu := Some c, pcs := bt\<rparr>"

text \<open>The parts of \<open>spin_unlock\<close> after its check.\<close>

definition forget_holder :: "spinlock \<Rightarrow> spinlock" where
  "forget_holder lk = lk\<lparr>pcs := (pcs lk)[0 := 0], lk_cpu := None\<rparr>"

text \<open>
  \<open>spin_lock\<close> as one processor sees it when no other one interferes: \<open>None\<close> is the loop that
  spins forever on a lock someone else holds. \<open>rd\<close> and \<open>rbp\<close> are the stack at the call.
\<close>

definition spin_lock :: "nat \<Rightarrow> (u64 \<Rightarrow> u64) \<Rightarrow> u64 \<Rightarrow> spinlock \<Rightarrow> (string + spinlock) option" where
  "spin_lock c rd rbp lk =
     (if holding c lk then Some (Inl ''CPU %d cannot acquire %s: already holding'')
      else let (got, lk) = try_lock lk in
        if got then Some (Inr (record_holder c (get_caller_pcs rd rbp 10) lk)) else None)"

definition spin_unlock :: "nat \<Rightarrow> spinlock \<Rightarrow> string + spinlock" where
  "spin_unlock c lk =
     (if \<not> holding c lk then Inl ''spin_unlock''
      else Inr (snd (xchg_locked 0 (forget_holder lk))))"

section \<open>The big kernel lock\<close>

text \<open>
  The message printed before the panic of \<open>spin_unlock\<close> names the holder, if any; the dump
  of the recorded call chain that follows it is not modelled.
\<close>

definition lock_kernel :: "(u64 \<Rightarrow> u64) \<Rightarrow> u64 \<Rightarrow> kstate \<Rightarrow> unit res option" where
  "lock_kernel rd rbp s =
     (case spin_lock (cpu s) rd rbp (kernel_lock s) of
        None \<Rightarrow> None
      | Some (Inl msg) \<Rightarrow> Some (panic msg s)
      | Some (Inr lk) \<Rightarrow> Some (Inr ((), s\<lparr>kernel_lock := lk\<rparr>)))"

definition unlock_kernel :: "kstate \<Rightarrow> unit res" where
  "unlock_kernel s =
     (case spin_unlock (cpu s) (kernel_lock s) of
        Inl msg \<Rightarrow>
          panic msg (case lk_cpu (kernel_lock s) of
              None \<Rightarrow> cprintf ''CPU %d cannot release %s: not held by any CPU'' [of_nat (cpu s)] s
            | Some c \<Rightarrow> cprintf ''CPU %d cannot release %s: held by CPU %d''
                [of_nat (cpu s), ucast (cpu_id (cpus s c))] s)
      | Inr lk \<Rightarrow> Inr ((), s\<lparr>kernel_lock := lk\<rparr>))"

lemma length_get_caller_pcs [simp]: "length (get_caller_pcs rd rbp n) = n"
  by (induction n arbitrary: rbp) auto

lemma unlock_kernel_held:
  "holding (cpu s) (kernel_lock s) \<Longrightarrow>
   unlock_kernel s = Inr ((), s\<lparr>kernel_lock := (forget_holder (kernel_lock s))\<lparr>locked := 0\<rparr>\<rparr>)"
  by (simp add: unlock_kernel_def spin_unlock_def xchg_locked_def)

section \<open>The lock as an interface\<close>

text \<open>
  What users of a lock rely on: acquiring a free lock makes the caller the owner, a second
  caller does not get it, and the owner's release frees it.
\<close>

locale lock_iface =
  fixes acquire :: "nat \<Rightarrow> 'l \<Rightarrow> 'l option"
    and release :: "nat \<Rightarrow> 'l \<Rightarrow> 'l option"
    and owner :: "'l \<Rightarrow> nat option"
    and free :: "'l \<Rightarrow> bool"
  assumes acquire_free: "free l \<Longrightarrow> \<exists>l'. acquire c l = Some l' \<and> owner l' = Some c \<and> \<not> free l'"
    and acquire_held: "\<not> free l \<Longrightarrow> acquire c l = None"
    and release_owner: "\<not> free l \<Longrightarrow> owner l = Some c \<Longrightarrow> \<exists>l'. release c l = Some l' \<and> free l'"
    and release_other: "owner l \<noteq> Some c \<Longrightarrow> release c l = None"
begin

lemma acquire_excludes:
  assumes "free l" "acquire c l = Some l'"
  shows "acquire c' l' = None" "c' \<noteq> c \<Longrightarrow> release c' l' = None"
  using assms acquire_free [of l c] acquire_held release_other by auto

lemma acquire_release_acquire:
  assumes "free l"
  shows "\<exists>l' l''. acquire c l = Some l' \<and> release c l' = Some l'' \<and> free l'' \<and>
    (\<exists>l3. acquire c' l'' = Some l3 \<and> owner l3 = Some c')"
  using acquire_free [OF assms] release_owner acquire_free by metis

end

definition acquire_opt :: "(u64 \<Rightarrow> u64) \<Rightarrow> u64 \<Rightarrow> nat \<Rightarrow> spinlock \<Rightarrow> spinlock option" where
  "acquire_opt rd rbp c lk =
     (case spin_lock c rd rbp lk of Some (Inr lk') \<Rightarrow> Some lk' | _ \<Rightarrow> None)"

definition release_opt :: "nat \<Rightarrow> spinlock \<Rightarrow> spinlock option" where
  "release_opt c lk = (case spin_unlock c lk of Inr lk' \<Rightarrow> Some lk' | _ \<Rightarrow> None)"

lemmas lock_defs = acquire_opt_def release_opt_def spin_lock_def spin_unlock_def holding_def
  try_lock_def xchg_locked_def record_holder_def forget_holder_def

interpretation kl: lock_iface "acquire_opt rd rbp" release_opt lk_cpu "\<lambda>lk. locked lk = 0" for rd rbp
  by unfold_locales (auto simp: lock_defs)

section \<open>Several processors\<close>

datatype lock_pc = Out | Spinning | Acquired | Critical | Releasing | Forgotten | Panicked

record lock_sys =
  the_lock :: spinlock
  lpc :: "nat \<Rightarrow> lock_pc"

inductive lstep :: "lock_sys \<Rightarrow> lock_sys \<Rightarrow> bool" where
  lock_panic: "lpc S c = Out \<Longrightarrow> holding c (the_lock S) \<Longrightarrow>
    lstep S (S\<lparr>lpc := (lpc S)(c := Panicked)\<rparr>)"
| lock_enter: "lpc S c = Out \<Longrightarrow> \<not> holding c (the_lock S) \<Longrightarrow>
    lstep S (S\<lparr>lpc := (lpc S)(c := Spinning)\<rparr>)"
| lock_spin: "lpc S c = Spinning \<Longrightarrow> try_lock (the_lock S) = (False, lk) \<Longrightarrow>
    lstep S (S\<lparr>the_lock := lk\<rparr>)"
| lock_win: "lpc S c = Spinning \<Longrightarrow> try_lock (the_lock S) = (True, lk) \<Longrightarrow>
    lstep S (S\<lparr>the_lock := lk, lpc := (lpc S)(c := Acquired)\<rparr>)"
| lock_record: "lpc S c = Acquired \<Longrightarrow>
    lstep S (S\<lparr>the_lock := record_holder c bt (the_lock S), lpc := (lpc S)(c := Critical)\<rparr>)"
| unlock_panic: "lpc S c = Critical \<Longrightarrow> \<not> holding c (the_lock S) \<Longrightarrow>
    lstep S (S\<lparr>lpc := (lpc S)(c := Panicked)\<rparr>)"
| unlock_check: "lpc S c = Critical \<Longrightarrow> holding c (the_lock S) \<Longrightarrow>
    lstep S (S\<lparr>lpc := (lpc S)(c := Releasing)\<rparr>)"
| unlock_forget: "lpc S c = Releasing \<Longrightarrow>
    lstep S (S\<lparr>the_lock := forget_holder (the_lock S), lpc := (lpc S)(c := Forgotten)\<rparr>)"
| unlock_free: "lpc S c = Forgotten \<Longrightarrow>
    lstep S (S\<lparr>the_lock := snd (xchg_locked 0 (the_lock S)), lpc := (lpc S)(c := Out)\<rparr>)"

definition lock_init :: "lock_sys" where
  "lock_init = \<lparr>the_lock = spin_initlock ''kernel_lock'' zero_lock, lpc = (\<lambda>_. Out)\<rparr>"

definition inside :: "lock_pc \<Rightarrow> bool" where
  "inside p \<longleftrightarrow> p \<in> {Acquired, Critical, Releasing, Forgotten}"

text \<open>
  The invariant, with the processor \<open>own\<close> that is inside, if any: the lock word is set
  exactly while there is one, and the recorded holder is right whenever it is set.
\<close>

definition lock_owner :: "nat option \<Rightarrow> lock_sys \<Rightarrow> bool" where
  "lock_owner own S \<longleftrightarrow>
     (\<forall>c. inside (lpc S c) \<longleftrightarrow> own = Some c) \<and>
     (locked (the_lock S) \<noteq> 0 \<longleftrightarrow> own \<noteq> None) \<and>
     (\<forall>c. lpc S c \<in> {Critical, Releasing} \<longleftrightarrow> lk_cpu (the_lock S) = Some c) \<and>
     (\<forall>c. lpc S c \<noteq> Panicked)"

lemma lock_ownerD:
  assumes "lock_owner own S"
  shows "inside (lpc S c) \<longleftrightarrow> own = Some c" "locked (the_lock S) \<noteq> 0 \<longleftrightarrow> own \<noteq> None"
    "lpc S c = Critical \<or> lpc S c = Releasing \<longleftrightarrow> lk_cpu (the_lock S) = Some c"
    "lpc S c \<noteq> Panicked"
  using assms unfolding lock_owner_def by auto

lemma lock_owner_init: "lock_owner None lock_init"
  by (simp add: lock_owner_def lock_init_def spin_initlock_def inside_def)

lemma lock_owner_step:
  assumes "lstep S S'" "lock_owner own S"
  shows "\<exists>own'. lock_owner own' S'"
proof -
  note D = lock_ownerD [OF assms(2)]
  from assms(1) show ?thesis
  proof (cases rule: lstep.cases)
    case (lock_panic c)
    then show ?thesis using D(3) [of c] by (simp add: holding_def)
  next
    case (lock_enter c)
    then have "own \<noteq> Some c" "lk_cpu (the_lock S) \<noteq> Some c"
      using D(1) [of c] D(3) [of c] by (auto simp: inside_def)
    with lock_enter have "lock_owner own S'" unfolding lock_owner_def
      using D by (auto simp: inside_def)
    then show ?thesis ..
  next
    case (lock_spin c lk)
    then have "locked (the_lock S) \<noteq> 0" "lk = (the_lock S)\<lparr>locked := 1\<rparr>"
      by (auto simp: try_lock_def xchg_locked_def)
    with lock_spin have "lock_owner own S'" unfolding lock_owner_def
      using D by simp
    then show ?thesis ..
  next
    case (lock_win c lk)
    then have "own = None" "lk = (the_lock S)\<lparr>locked := 1\<rparr>"
      using D(2) by (auto simp: try_lock_def xchg_locked_def)
    with lock_win have "lock_owner (Some c) S'" unfolding lock_owner_def
      using D(1,4) D(3) by (auto simp: inside_def)
    then show ?thesis ..
  next
    case (lock_record c bt)
    then have own: "own = Some c" using D(1) [of c] by (simp add: inside_def)
    have "lpc S d \<noteq> Critical \<and> lpc S d \<noteq> Releasing" for d
      using D(1) [of d] own lock_record by (auto simp: inside_def)
    with lock_record own have "lock_owner (Some c) S'" unfolding lock_owner_def
      using D(1,2,4) by (auto simp: inside_def record_holder_def)
    then show ?thesis ..
  next
    case (unlock_panic c)
    then show ?thesis using D(1) [of c] D(2) D(3) [of c] by (simp add: holding_def inside_def)
  next
    case (unlock_check c)
    then have "lock_owner own S'" unfolding lock_owner_def
      using D(1,2,4) D(3) [of c] D(3) by (auto simp: inside_def)
    then show ?thesis ..
  next
    case (unlock_forget c)
    then have own: "own = Some c" using D(1) [of c] by (simp add: inside_def)
    have out: "d \<noteq> c \<Longrightarrow> \<not> inside (lpc S d)" for d using D(1) [of d] own by auto
    with unlock_forget own have "lock_owner (Some c) S'" unfolding lock_owner_def
      using D(2,4) by (auto simp: inside_def forget_holder_def)
    then show ?thesis ..
  next
    case (unlock_free c)
    then have own: "own = Some c" using D(1) [of c] by (simp add: inside_def)
    have out: "d \<noteq> c \<Longrightarrow> \<not> inside (lpc S d)" for d using D(1) [of d] own by auto
    have "lk_cpu (the_lock S) \<noteq> Some d" for d
      using D(3) [of d] unlock_free out [of d] by (cases "d = c") (auto simp: inside_def)
    then have "lk_cpu (the_lock S) = None" by (cases "lk_cpu (the_lock S)") auto
    with unlock_free out have "lock_owner None S'" unfolding lock_owner_def
      using D(4) by (auto simp: inside_def xchg_locked_def)
    then show ?thesis ..
  qed
qed

lemma lock_owner_reach: "lstep\<^sup>*\<^sup>* S S' \<Longrightarrow> lock_owner own S \<Longrightarrow> \<exists>own'. lock_owner own' S'"
  by (induction rule: rtranclp_induct) (auto dest: lock_owner_step)

section \<open>Properties\<close>

text \<open>C13: mutual exclusion. However the processors interleave, never two of them are between
  the exchange that wins the lock and the exchange that releases it, and neither panic of
  the spinlock code is ever reached.\<close>

theorem spinlock_mutual_exclusion:
  assumes "lstep\<^sup>*\<^sup>* lock_init S"
  shows "(\<forall>c c'. inside (lpc S c) \<and> inside (lpc S c') \<longrightarrow> c = c') \<and> (\<forall>c. lpc S c \<noteq> Panicked)"
proof -
  obtain own where "lock_owner own S" using lock_owner_reach [OF assms lock_owner_init] by blast
  from lock_ownerD(1,4) [OF this] show ?thesis by (metis option.inject)
qed

lemma sample_lock_run: "lstep\<^sup>*\<^sup>* lock_init (lock_init\<lparr>lpc := ((\<lambda>_. Out)(3 := Spinning))\<rparr>)"
  using lock_enter [of lock_init 3]
  by (intro r_into_rtranclp) (simp add: lock_init_def holding_def spin_initlock_def)

theorem spinlock_mutual_exclusion_witness:
  "(\<forall>c. lpc (lock_init\<lparr>lpc := ((\<lambda>_. Out)(3 := Spinning))\<rparr>) c \<noteq> Panicked)"
  using spinlock_mutual_exclusion [OF sample_lock_run] by blast

text \<open>The lock cannot be stuck. Whenever a processor spins, either its next exchange
  wins the lock, or another processor holds it and can take its next step towards the
  release.\<close>

theorem spinlock_progress:
  assumes "lstep\<^sup>*\<^sup>* lock_init S" and "lpc S c = Spinning"
  shows "(\<exists>S'. lstep S S' \<and> lpc S' c = Acquired) \<or>
    (\<exists>d S'. d \<noteq> c \<and> inside (lpc S d) \<and> lstep S S' \<and>
       (lpc S d, lpc S' d) \<in> {(Acquired, Critical), (Critical, Releasing), (Releasing, Forgotten), (Forgotten, Out)})"
proof -
  obtain own where inv: "lock_owner own S" using lock_owner_reach [OF assms(1) lock_owner_init] by blast
  show ?thesis
  proof (cases "locked (the_lock S) = 0")
    case True
    then have "try_lock (the_lock S) = (True, (the_lock S)\<lparr>locked := 1\<rparr>)"
      by (simp add: try_lock_def xchg_locked_def)
    from lock_win [OF assms(2) this] show ?thesis by force
  next
    case False
    with lock_ownerD(1,2) [OF inv] obtain d where d: "inside (lpc S d)" by blast
    with assms(2) have "d \<noteq> c" by (auto simp: inside_def)
    have hold: "lpc S d = Critical \<Longrightarrow> holding d (the_lock S)"
      using lock_ownerD(3) [OF inv] False unfolding holding_def by blast
    from d consider "lpc S d = Acquired" | "lpc S d = Critical" | "lpc S d = Releasing" | "lpc S d = Forgotten"
      by (auto simp: inside_def)
    then have "\<exists>S'. lstep S S' \<and> (lpc S d, lpc S' d) \<in>
      {(Acquired, Critical), (Critical, Releasing), (Releasing, Forgotten), (Forgotten, Out)}"
    proof cases
      case 1
      with lock_record [of S d] show ?thesis by (intro exI conjI) auto
    next
      case 2
      with unlock_check [of S d] hold show ?thesis by (intro exI conjI) auto
    next
      case 3
      with unlock_forget [of S d] show ?thesis by (intro exI conjI) auto
    next
      case 4
      with unlock_free [of S d] show ?thesis by (intro exI conjI) auto
    qed
    with d \<open>d \<noteq> c\<close> show ?thesis by blast
  qed
qed

theorem spinlock_progress_witness:
  "\<exists>S'. lstep (lock_init\<lparr>lpc := ((\<lambda>_. Out)(3 := Spinning))\<rparr>) S' \<and> lpc S' 3 = Acquired"
proof -
  have "\<not> inside (lpc (lock_init\<lparr>lpc := ((\<lambda>_. Out)(3 := Spinning))\<rparr>) d)" for d
    by (simp add: inside_def)
  with spinlock_progress [OF sample_lock_run, of 3] show ?thesis by auto
qed

end
