(* ===== verification/Pmap.thy ===== *)
theory Pmap
  imports Kstate
begin

text \<open>
  The physical page allocator of \<open>kern/pmap.c\<close> and the address conversions of
  \<open>kern/pmap.h\<close>: \<open>boot_alloc\<close>, \<open>page_init\<close>, \<open>page_alloc\<close>, \<open>page_free\<close>,
  \<open>page_decref\<close>. The invariant \<open>alloc_inv s xs\<close> says that the free list visits
  exactly the pages \<open>xs\<close>, all of them in range and unreferenced, and that no other page
  has a link. \<open>page_init\<close> establishes it with an explicit list, and every operation
  keeps it.
\<close>

section \<open>kern/pmap.h: address conversions\<close>

text \<open>The kernel virtual address a kernel pointer stands for.\<close>

definition kva :: "kptr \<Rightarrow> u64" where
  "kva a = KERNBASE + of_nat (fst a * 4096 + snd a * 8)"

definition PADDR :: "u64 \<Rightarrow> kstate \<Rightarrow> u64 res" where
  "PADDR va s = (if va < KERNBASE then panic ''PADDR called with invalid kva'' s
                 else Inr (va - KERNBASE, s))"

text \<open>The page number is truncated to 32 bits before it is compared, as in the macro.\<close>

definition KADDR :: "u64 \<Rightarrow> kstate \<Rightarrow> kptr res" where
  "KADDR pa s =
     (let ppn = (ucast (PPN pa) :: u32) in
      if npages s \<le> unat ppn then panic ''KADDR called with invalid pa'' s
      else Inr ((unat (PPN pa), unat (PGOFF pa) div 8), s))"

definition page2pa :: "nat \<Rightarrow> u64" where
  "page2pa pp = push_bit 12 (of_nat pp)"

definition pa2page :: "u64 \<Rightarrow> kstate \<Rightarrow> nat res" where
  "pa2page pa s = (if npages s \<le> unat (PPN pa) then panic ''pa2page called with invalid pa'' s
                   else Inr (unat (PPN pa), s))"

definition page2kva :: "nat \<Rightarrow> kstate \<Rightarrow> kptr res" where
  "page2kva pp s = KADDR (page2pa pp) s"

section \<open>kern/pmap.c: boot-time allocation\<close>

definition boot_alloc :: "u32 \<Rightarrow> kstate \<Rightarrow> u64 \<times> kstate" where
  "boot_alloc n s =
     (let s = (if nextfree s = 0 then s\<lparr>nextfree := ROUNDUP (kend s) PGSIZE\<rparr> else s);
          result = nextfree s
      in if n > 0 then (result, s\<lparr>nextfree := ROUNDUP (nextfree s + ucast n) PGSIZE\<rparr>)
         else (result, s))"

section \<open>kern/pmap.c: the page allocator\<close>

text \<open>The loop body of \<open>page_init\<close>, over the pages still to be visited.\<close>

fun page_init_loop :: "u64 \<Rightarrow> u64 \<Rightarrow> nat list \<Rightarrow> nat option \<Rightarrow> kstate \<Rightarrow> kstate" where
  "page_init_loop kern_end_mem mpentry [] lst s = s"
| "page_init_loop kern_end_mem mpentry (i # is) lst s =
    (if i = 0 \<or> i = unat mpentry then
       page_init_loop kern_end_mem mpentry is lst
         (s\<lparr>pages := (pages s)(i := \<lparr>pp_link = None, pp_ref = 1\<rparr>)\<rparr>)
     else if i < npages_basemem s \<or> unat kern_end_mem < i then
       (let s = s\<lparr>pages := (pages s)(i := \<lparr>pp_link = None, pp_ref = 0\<rparr>)\<rparr>;
            s = (case lst of
                   Some l \<Rightarrow> set_pp_link l (Some i) s
                 | None \<Rightarrow> set_page_free_list (Some i) s)
        in page_init_loop kern_end_mem mpentry is (Some i) s)
     else
       page_init_loop kern_end_mem mpentry is lst
         (s\<lparr>pages := (pages s)(i := \<lparr>pp_link = None, pp_ref = 1\<rparr>)\<rparr>))"

definition page_init :: "kstate \<Rightarrow> kstate" where
  "page_init s =
     (let (va, s) = boot_alloc 0 s;
          kern_end_mem = (va - KERNBASE) div PGSIZE;
          mpentry = MPENTRY_PADDR div PGSIZE
      in page_init_loop kern_end_mem mpentry [0..<npages s] None s)"

definition ALLOC_ZERO :: u32 where [kstate_defs]: "ALLOC_ZERO = 1"

text \<open>\<open>memset(page, 0, PGSIZE)\<close> on a kernel pointer to the start of a page.\<close>

definition memset_page0 :: "kptr \<Rightarrow> kstate \<Rightarrow> kstate" where
  [kstate_defs]: "memset_page0 a s = s\<lparr>mem := (mem s)(fst a := (\<lambda>_. 0))\<rparr>"

definition page_alloc :: "u32 \<Rightarrow> kstate \<Rightarrow> nat option res" where
  "page_alloc alloc_flags s =
     (case page_free_list s of
        None \<Rightarrow> Inr (None, s)
      | Some p \<Rightarrow>
          bindK (if alloc_flags AND ALLOC_ZERO \<noteq> 0
                 then bindK (page2kva p s) (\<lambda>a s. Inr ((), memset_page0 a s))
                 else Inr ((), s)) (\<lambda>_ s.
          let s = set_page_free_list (pp_link (pages s p)) s;
              s = set_pp_link p None s
          in bindK (if alloc_flags AND ALLOC_ZERO \<noteq> 0
                    then bindK (page2kva p s) (\<lambda>a s. Inr ((), memset_page0 a s))
                    else Inr ((), s)) (\<lambda>_ s.
             Inr (Some p, s))))"

definition page_initpp :: "nat \<Rightarrow> kstate \<Rightarrow> kstate" where
  "page_initpp pp s = s\<lparr>pages := (pages s)(pp := \<lparr>pp_link = None, pp_ref = 0\<rparr>)\<rparr>"

definition page_free :: "nat \<Rightarrow> kstate \<Rightarrow> unit res" where
  "page_free pp s =
     (if pp_ref (pages s pp) \<noteq> 0 \<or> pp_link (pages s pp) \<noteq> None
      then panic ''cannot free page with non-zero ref or link'' s
      else Inr ((), set_page_free_list (Some pp) (set_pp_link pp (page_free_list s) s)))"

definition page_decref :: "nat \<Rightarrow> kstate \<Rightarrow> unit res" where
  "page_decref pp s =
     (let s = set_pp_ref pp (pp_ref (pages s pp) - 1) s in
      if pp_ref (pages s pp) = 0 then page_free pp s else Inr ((), s))"

text \<open>\<open>pp->pp_ref++\<close>, on the 16-bit field.\<close>

definition incref :: "nat \<Rightarrow> kstate \<Rightarrow> kstate" where
  [kstate_defs]: "incref pp s = set_pp_ref pp (pp_ref (pages s pp) + 1) s"

section \<open>Laws of the conversions\<close>

lemma unat_page2pa: "pp < 2 ^ 52 \<Longrightarrow> unat (page2pa pp) = pp * 4096"
  by (simp add: page2pa_def unat_push_bit_12)

lemma unat_ucast32: "unat (x :: u64) < 2 ^ 32 \<Longrightarrow> unat (ucast x :: u32) = unat x"
  by (simp add: unsigned_ucast_eq unat_take_bit take_bit_eq_mod)

lemma page_number_bound:
  assumes "npages s \<le> 2 ^ 32" and "pp < npages s"
  shows "pp < 2 ^ 32" "pp < 2 ^ 52"
  using assms by simp_all

lemma unat_PPN_page2pa: "pp < 2 ^ 52 \<Longrightarrow> unat (PPN (page2pa pp)) = pp"
  by (simp add: unat_PPN unat_page2pa)

lemma PGOFF_page2pa: "pp < 2 ^ 52 \<Longrightarrow> PGOFF (page2pa pp) = 0"
  by (simp add: unat_PGOFF unat_page2pa unat_eq_zero [symmetric])

text \<open>In range, \<open>KADDR\<close> and \<open>pa2page\<close> invert \<open>page2pa\<close>.\<close>

lemma KADDR_in_range:
  assumes "npages s \<le> 2 ^ 32" and "unat (PPN pa) < npages s"
  shows "KADDR pa s = Inr ((unat (PPN pa), unat (PGOFF pa) div 8), s)"
proof -
  from assms have "unat (PPN pa) < 2 ^ 32" by simp
  with assms show ?thesis by (simp add: KADDR_def unat_ucast32)
qed

lemma page2kva_in_range:
  "npages s \<le> 2 ^ 32 \<Longrightarrow> pp < npages s \<Longrightarrow> page2kva pp s = Inr ((pp, 0), s)"
  by (simp add: page2kva_def KADDR_in_range unat_PPN_page2pa PGOFF_page2pa page_number_bound)

lemma pa2page_page2pa:
  "npages s \<le> 2 ^ 32 \<Longrightarrow> pp < npages s \<Longrightarrow> pa2page (page2pa pp) s = Inr (pp, s)"
  by (simp add: pa2page_def unat_PPN_page2pa page_number_bound)

section \<open>The free list\<close>

interpretation pfl: intrusive_list page_free_list "\<lambda>s p. pp_link (pages s p)"
    set_page_free_list set_pp_link
  by unfold_locales (auto simp: set_page_free_list_def set_pp_link_def)

definition freelist :: "kstate \<Rightarrow> nat list \<Rightarrow> bool" where
  "freelist s xs \<longleftrightarrow> chain (\<lambda>p. pp_link (pages s p)) (page_free_list s) xs"

definition alloc_inv :: "kstate \<Rightarrow> nat list \<Rightarrow> bool" where
  "alloc_inv s xs \<longleftrightarrow>
     freelist s xs \<and> npages s \<le> 2 ^ 32 \<and>
     (\<forall>p \<in> set xs. p < npages s \<and> pp_ref (pages s p) = 0) \<and>
     (\<forall>p < npages s. p \<notin> set xs \<longrightarrow> pp_link (pages s p) = None)"

lemma alloc_invD:
  assumes "alloc_inv s xs"
  shows "freelist s xs" "npages s \<le> 2 ^ 32" "distinct xs"
    "\<And>p. p \<in> set xs \<Longrightarrow> p < npages s" "\<And>p. p \<in> set xs \<Longrightarrow> pp_ref (pages s p) = 0"
    "\<And>p. p < npages s \<Longrightarrow> p \<notin> set xs \<Longrightarrow> pp_link (pages s p) = None"
  using assms by (auto simp: alloc_inv_def freelist_def dest: chain_distinct)

lemma alloc_inv_unique: "alloc_inv s xs \<Longrightarrow> alloc_inv s ys \<Longrightarrow> xs = ys"
  by (auto simp: alloc_inv_def freelist_def dest: chain_unique)

lemma alloc_inv_cong:
  assumes "pages s' = pages s" "page_free_list s' = page_free_list s" "npages s' = npages s"
  shows "alloc_inv s' xs = alloc_inv s xs"
  using assms by (simp add: alloc_inv_def freelist_def)

lemma alloc_inv_st [simp]: "alloc_inv (st a v s) xs = alloc_inv s xs"
  by (rule alloc_inv_cong) (simp_all add: st_def)

lemma alloc_inv_set_pp_ref:
  "p \<notin> set xs \<Longrightarrow> alloc_inv (set_pp_ref p r s) xs = alloc_inv s xs"
  by (auto simp: alloc_inv_def freelist_def set_pp_ref_def intro!: chain_cong
      elim!: chain_cong [THEN iffD1, rotated])

section \<open>page\_init builds the free list\<close>

text \<open>The pages that \<open>page_init\<close> releases, by their number.\<close>

definition boot_free :: "nat \<Rightarrow> u64 \<Rightarrow> u64 \<Rightarrow> nat \<Rightarrow> bool" where
  "boot_free basemem kern_end mpentry i \<longleftrightarrow>
     i \<noteq> 0 \<and> i \<noteq> unat mpentry \<and> (i < basemem \<or> unat kern_end < i)"

lemma page_init_loop_frame:
  "npages (page_init_loop ke mp is lst s) = npages s \<and>
   npages_basemem (page_init_loop ke mp is lst s) = npages_basemem s \<and>
   mem (page_init_loop ke mp is lst s) = mem s"
  by (induction ke mp "is" lst s rule: page_init_loop.induct)
     (auto simp: Let_def set_pp_link_def set_page_free_list_def split: option.splits)

lemma page_init_loop_ref:
  "pp_ref (pages (page_init_loop ke mp is lst s) p) =
     (if p \<in> set is then if boot_free (npages_basemem s) ke mp p then 0 else 1
      else pp_ref (pages s p))"
proof (induction "is" arbitrary: lst s)
  case Nil
  then show ?case by simp
next
  case (Cons i "is")
  show ?case
  proof (cases "boot_free (npages_basemem s) ke mp i")
    case True
    with Cons show ?thesis
      by (cases lst) (simp_all add: boot_free_def Let_def set_pp_link_def set_page_free_list_def)
  next
    case False
    then have "page_init_loop ke mp (i # is) lst s = page_init_loop ke mp is lst
        (s\<lparr>pages := (pages s)(i := \<lparr>pp_link = None, pp_ref = 1\<rparr>)\<rparr>)"
      by (auto simp: boot_free_def)
    with Cons False show ?thesis by auto
  qed
qed

lemma page_init_loop_link:
  assumes "lst \<noteq> Some p" "\<not> boot_free (npages_basemem s) ke mp p"
  shows "pp_link (pages (page_init_loop ke mp is lst s) p) =
     (if p \<in> set is then None else pp_link (pages s p))"
  using assms
proof (induction "is" arbitrary: lst s)
  case Nil
  then show ?case by simp
next
  case (Cons i "is")
  have ne: "boot_free (npages_basemem s) ke mp i \<Longrightarrow> i \<noteq> p" using Cons.prems by blast
  show ?case
  proof (cases "boot_free (npages_basemem s) ke mp i")
    case True
    with ne Cons show ?thesis
      by (cases lst) (simp_all add: boot_free_def Let_def set_pp_link_def set_page_free_list_def)
  next
    case False
    with Cons show ?thesis by (auto simp: boot_free_def)
  qed
qed

lemma freelist_page_upd:
  "i \<notin> set xs \<Longrightarrow> freelist (s\<lparr>pages := (pages s)(i := v)\<rparr>) xs = freelist s xs"
  unfolding freelist_def by (auto intro!: chain_cong)

lemma freelist_append_last:
  assumes "freelist s xs" "i \<notin> set xs" "pp_link (pages s i) = None"
  shows "freelist (case if xs = [] then None else Some (last xs) of
            Some l \<Rightarrow> set_pp_link l (Some i) s
          | None \<Rightarrow> set_page_free_list (Some i) s) (xs @ [i])"
proof (cases xs rule: rev_cases)
  case Nil
  with assms show ?thesis by (simp add: freelist_def set_page_free_list_def)
next
  case (snoc ys y)
  from snoc assms show ?thesis
    using chain_snoc [of "\<lambda>p. pp_link (pages s p)" "page_free_list s" ys y i]
    by (simp add: freelist_def pfl.list_laws)
qed

lemma page_init_loop_freelist:
  assumes "freelist s xs" "distinct (xs @ is)"
  shows "freelist (page_init_loop ke mp is (if xs = [] then None else Some (last xs)) s)
           (xs @ filter (boot_free (npages_basemem s) ke mp) is)"
  using assms
proof (induction "is" arbitrary: s xs)
  case Nil
  then show ?case by simp
next
  case (Cons i "is")
  let ?s1 = "s\<lparr>pages := (pages s)(i := \<lparr>pp_link = None, pp_ref = 1\<rparr>)\<rparr>"
  let ?s0 = "s\<lparr>pages := (pages s)(i := \<lparr>pp_link = None, pp_ref = 0\<rparr>)\<rparr>"
  let ?lst = "if xs = [] then None else Some (last xs)"
  let ?s2 = "case ?lst of Some l \<Rightarrow> set_pp_link l (Some i) ?s0
                        | None \<Rightarrow> set_page_free_list (Some i) ?s0"
  have base: "npages_basemem ?s2 = npages_basemem s"
    by (simp add: set_pp_link_def set_page_free_list_def)
  show ?case
  proof (cases "boot_free (npages_basemem s) ke mp i")
    case True
    have fl: "freelist ?s2 (xs @ [i])"
      using Cons.prems by (intro freelist_append_last) (auto simp: freelist_page_upd)
    have loop: "page_init_loop ke mp (i # is) ?lst s = page_init_loop ke mp is (Some i) ?s2"
      using True by (auto simp: boot_free_def Let_def)
    from Cons.IH [OF fl] Cons.prems(2) base True show ?thesis
      unfolding loop by simp
  next
    case False
    have fl: "freelist ?s1 xs" using Cons.prems by (auto simp: freelist_page_upd)
    have loop: "page_init_loop ke mp (i # is) ?lst s = page_init_loop ke mp is ?lst ?s1"
      using False by (auto simp: boot_free_def)
    from Cons.IH [OF fl] Cons.prems(2) False show ?thesis
      unfolding loop by simp
  qed
qed

section \<open>page\_alloc, page\_free and page\_decref on the invariant\<close>

lemma page_alloc_empty: "alloc_inv s [] \<Longrightarrow> page_alloc fl s = Inr (None, s)"
  by (simp add: alloc_inv_def freelist_def page_alloc_def)

text \<open>The state after a page was taken from the list.\<close>

definition taken :: "bool \<Rightarrow> nat \<Rightarrow> kstate \<Rightarrow> kstate" where
  "taken zero p s =
     s\<lparr>page_free_list := pp_link (pages s p),
       pages := (pages s)(p := (pages s p)\<lparr>pp_link := None\<rparr>),
       mem := (if zero then (mem s)(p := (\<lambda>_. 0)) else mem s)\<rparr>"

lemma taken_simps [simp]:
  "npages (taken z p s) = npages s"
  "pp_ref (pages (taken z p s) q) = pp_ref (pages s q)"
  "mem (taken True p s) = (mem s)(p := (\<lambda>_. 0))"
  "mem (taken False p s) = mem s"
  "boot_pml4e (taken z p s) = boot_pml4e s"
  "envs (taken z p s) = envs s"
  by (simp_all add: taken_def)

lemma page_alloc_cons:
  assumes "alloc_inv s (x # xs)"
  shows "page_alloc fl s = Inr (Some x, taken (fl AND ALLOC_ZERO \<noteq> 0) x s)"
proof -
  from assms have x: "x < npages s" "npages s \<le> 2 ^ 32" "page_free_list s = Some x"
    by (auto simp: alloc_inv_def freelist_def)
  have "memset_page0 (x, 0) (set_pp_link x None (set_page_free_list h (memset_page0 (x, 0) s))) =
      s\<lparr>page_free_list := h, pages := (pages s)(x := (pages s x)\<lparr>pp_link := None\<rparr>),
        mem := (mem s)(x := (\<lambda>_. 0))\<rparr>" for h
    by (simp add: kstate_defs)
  with x show ?thesis
    by (simp add: page_alloc_def page2kva_in_range taken_def kstate_defs)
qed

lemma alloc_inv_taken:
  assumes "alloc_inv s (x # xs)"
  shows "alloc_inv (taken z x s) xs" and "x \<notin> set xs"
proof -
  have "freelist (taken z x s) xs"
    using pfl.pop_chain [of s x xs] assms
    by (simp add: alloc_inv_def freelist_def taken_def set_pp_link_def set_page_free_list_def)
  then show "alloc_inv (taken z x s) xs"
    using assms by (auto simp: alloc_inv_def taken_def)
  show "x \<notin> set xs" using alloc_invD(3) [OF assms] by simp
qed

lemma page_free_ok:
  assumes "alloc_inv s xs" "p < npages s" "p \<notin> set xs" "pp_ref (pages s p) = 0"
  shows "page_free p s =
      Inr ((), set_page_free_list (Some p) (set_pp_link p (page_free_list s) s))"
    and "alloc_inv (set_page_free_list (Some p) (set_pp_link p (page_free_list s) s)) (p # xs)"
proof -
  show "page_free p s =
      Inr ((), set_page_free_list (Some p) (set_pp_link p (page_free_list s) s))"
    using assms by (simp add: page_free_def alloc_invD(6))
  have "freelist (set_page_free_list (Some p) (set_pp_link p (page_free_list s) s)) (p # xs)"
    using pfl.push_chain [of s xs p] assms by (simp add: alloc_inv_def freelist_def)
  then show "alloc_inv (set_page_free_list (Some p) (set_pp_link p (page_free_list s) s)) (p # xs)"
    using assms by (auto simp: alloc_inv_def kstate_defs)
qed

lemma page_decref_keep:
  assumes "pp_ref (pages s p) \<noteq> 1"
  shows "page_decref p s = Inr ((), set_pp_ref p (pp_ref (pages s p) - 1) s)"
  using assms by (simp add: page_decref_def Let_def set_pp_ref_def)

lemma page_decref_last:
  assumes "alloc_inv s xs" "p < npages s" "p \<notin> set xs" "pp_ref (pages s p) = 1"
  defines "s0 \<equiv> set_pp_ref p 0 s"
  shows "page_decref p s =
      Inr ((), set_page_free_list (Some p) (set_pp_link p (page_free_list s) s0))"
    and "alloc_inv (set_page_free_list (Some p) (set_pp_link p (page_free_list s) s0)) (p # xs)"
proof -
  have inv0: "alloc_inv s0 xs" using assms by (simp add: s0_def alloc_inv_set_pp_ref)
  have s0: "page_free_list s0 = page_free_list s" "npages s0 = npages s"
    "pp_ref (pages s0 p) = 0"
    by (simp_all add: s0_def set_pp_ref_def)
  note free = page_free_ok [OF inv0, of p, unfolded s0, OF assms(2) assms(3)]
  have "page_decref p s = page_free p s0"
    using assms(4) by (simp add: page_decref_def Let_def s0_def set_pp_ref_def)
  then show "page_decref p s =
      Inr ((), set_page_free_list (Some p) (set_pp_link p (page_free_list s) s0))"
    using free(1) by simp
  show "alloc_inv (set_page_free_list (Some p) (set_pp_link p (page_free_list s) s0)) (p # xs)"
    using free(2) by simp
qed

section \<open>The allocator as an interface\<close>

text \<open>
  What the callers of the allocator rely on: \<open>inv s xs\<close> says the free pages are \<open>xs\<close>,
  \<open>unref s p\<close> that \<open>p\<close> is a page that may be returned.
\<close>

fun alloc_n :: "('s \<Rightarrow> (stop \<times> 's) + (nat option \<times> 's)) \<Rightarrow> nat \<Rightarrow> 's \<Rightarrow>
    (stop \<times> 's) + (nat list \<times> 's)" where
  "alloc_n al 0 s = Inr ([], s)"
| "alloc_n al (Suc n) s =
    (case al s of
       Inl e \<Rightarrow> Inl e
     | Inr (None, s') \<Rightarrow> Inr ([], s')
     | Inr (Some p, s') \<Rightarrow>
         (case alloc_n al n s' of Inl e \<Rightarrow> Inl e | Inr (ps, s'') \<Rightarrow> Inr (p # ps, s'')))"

locale page_allocator =
  fixes alloc :: "'s \<Rightarrow> (stop \<times> 's) + (nat option \<times> 's)"
    and free :: "nat \<Rightarrow> 's \<Rightarrow> (stop \<times> 's) + (unit \<times> 's)"
    and inv :: "'s \<Rightarrow> nat list \<Rightarrow> bool"
    and unref :: "'s \<Rightarrow> nat \<Rightarrow> bool"
  assumes alloc_nil: "inv s [] \<Longrightarrow> alloc s = Inr (None, s)"
    and alloc_cons:
      "inv s (x # xs) \<Longrightarrow> \<exists>s'. alloc s = Inr (Some x, s') \<and> inv s' xs \<and> unref s' x"
    and free_push:
      "inv s xs \<Longrightarrow> unref s p \<Longrightarrow> p \<notin> set xs \<Longrightarrow> \<exists>s'. free p s = Inr ((), s') \<and> inv s' (p # xs)"
    and inv_distinct: "inv s xs \<Longrightarrow> distinct xs"
begin

lemma alloc_free_restores:
  assumes "inv s (x # xs)"
  shows "\<exists>s' s''. alloc s = Inr (Some x, s') \<and> inv s' xs \<and> free x s' = Inr ((), s'') \<and>
           inv s'' (x # xs)"
proof -
  obtain s' where s': "alloc s = Inr (Some x, s')" "inv s' xs" "unref s' x"
    using alloc_cons [OF assms] by blast
  moreover have "x \<notin> set xs" using inv_distinct [OF assms] by simp
  ultimately show ?thesis using free_push by blast
qed

lemma alloc_n_takes:
  assumes "inv s xs"
  shows "\<exists>s'. alloc_n alloc n s = Inr (take n xs, s') \<and> inv s' (drop n xs)"
  using assms
proof (induction n arbitrary: s xs)
  case 0
  then show ?case by simp
next
  case (Suc n)
  show ?case
  proof (cases xs)
    case Nil
    with Suc.prems show ?thesis by (simp add: alloc_nil)
  next
    case (Cons y ys)
    with Suc.prems obtain s1 where "alloc s = Inr (Some y, s1)" "inv s1 ys"
      using alloc_cons by blast
    with Suc.IH [of s1 ys] Cons show ?thesis by auto
  qed
qed

end

definition unref :: "kstate \<Rightarrow> nat \<Rightarrow> bool" where
  "unref s p \<longleftrightarrow> p < npages s \<and> pp_ref (pages s p) = 0"

interpretation pal: page_allocator "page_alloc fl" page_free alloc_inv unref for fl
proof unfold_locales
  show "alloc_inv s [] \<Longrightarrow> page_alloc fl s = Inr (None, s)" for s
    by (rule page_alloc_empty)
next
  fix s x xs assume inv: "alloc_inv s (x # xs)"
  then have "unref (taken z x s) x" for z by (auto simp: alloc_inv_def unref_def)
  with inv show "\<exists>s'. page_alloc fl s = Inr (Some x, s') \<and> alloc_inv s' xs \<and> unref s' x"
    using page_alloc_cons [OF inv] alloc_inv_taken(1) [OF inv] by blast
next
  fix s xs p assume "alloc_inv s xs" "unref s p" "p \<notin> set xs"
  then show "\<exists>s'. page_free p s = Inr ((), s') \<and> alloc_inv s' (p # xs)"
    using page_free_ok [of s xs p] by (auto simp: unref_def)
next
  show "alloc_inv s xs \<Longrightarrow> distinct xs" for s xs by (rule alloc_invD)
qed

section \<open>Properties of the allocator\<close>

lemma boot_alloc_frame [simp]:
  "npages (snd (boot_alloc n s)) = npages s"
  "npages_basemem (snd (boot_alloc n s)) = npages_basemem s"
  "page_free_list (snd (boot_alloc n s)) = page_free_list s"
  "pages (snd (boot_alloc n s)) = pages s"
  by (simp_all add: boot_alloc_def Let_def)

lemma page_init_inv:
  assumes "page_free_list s = None" and "npages s \<le> 2 ^ 32"
  defines "P \<equiv> boot_free (npages_basemem s) ((fst (boot_alloc 0 s) - KERNBASE) div PGSIZE)
                 (MPENTRY_PADDR div PGSIZE)"
  shows "alloc_inv (page_init s) (filter P [0..<npages s]) \<and>
         (\<forall>p < npages s. pp_ref (pages (page_init s) p) = (if P p then 0 else 1))"
proof -
  let ?ke = "(fst (boot_alloc 0 s) - KERNBASE) div PGSIZE"
  let ?mp = "MPENTRY_PADDR div PGSIZE"
  let ?s = "snd (boot_alloc 0 s)"
  have init: "page_init s = page_init_loop ?ke ?mp [0..<npages s] None ?s"
    by (simp add: page_init_def case_prod_beta Let_def)
  have "freelist ?s []" using assms by (simp add: freelist_def)
  from page_init_loop_freelist [OF this, of "[0..<npages s]" ?ke ?mp]
  have fl: "freelist (page_init s) (filter P [0..<npages s])"
    unfolding init P_def by simp
  have ref: "pp_ref (pages (page_init s) p) = (if P p then 0 else 1)" if "p < npages s" for p
    using that unfolding init P_def by (simp add: page_init_loop_ref)
  have link: "pp_link (pages (page_init s) p) = None" if "p < npages s" "\<not> P p" for p
    using that unfolding init P_def by (simp add: page_init_loop_link)
  have np: "npages (page_init s) = npages s"
    unfolding init by (simp add: page_init_loop_frame)
  show ?thesis
    using fl ref link assms(2) by (auto simp: alloc_inv_def np)
qed

text \<open>C9: \<open>page_init\<close> builds the free list. After it, the list visits, in ascending order
  and without repetition, exactly the pages other than page 0 and the AP entry page that
  lie in base memory or strictly above the page \<open>boot_alloc(0)\<close> points to; these have
  reference count 0, every other page has reference count 1, and the allocator's
  invariant holds.\<close>

theorem page_init_free_list:
  assumes "page_free_list s = None" and "npages s \<le> 2 ^ 32"
  defines "P \<equiv> boot_free (npages_basemem s) ((fst (boot_alloc 0 s) - KERNBASE) div PGSIZE)
                 (MPENTRY_PADDR div PGSIZE)"
  shows "alloc_inv (page_init s) (filter P [0..<npages s]) \<and>
         (\<forall>p < npages s. pp_ref (pages (page_init s) p) = (if P p then 0 else 1))"
  unfolding P_def by (rule page_init_inv [OF assms(1,2)])

theorem page_init_free_list_witness:
  "alloc_inv (page_init (bss_state 12 4 (KERNBASE + 0x8800))) [1, 2, 3, 10, 11] \<and>
   map (\<lambda>p. pp_ref (pages (page_init (bss_state 12 4 (KERNBASE + 0x8800))) p)) [0..<12] =
     [1, 0, 0, 0, 1, 1, 1, 1, 1, 1, 0, 0]"
proof -
  let ?s = "bss_state 12 4 (KERNBASE + 0x8800)"
  let ?P = "boot_free (npages_basemem ?s) ((fst (boot_alloc 0 ?s) - KERNBASE) div PGSIZE)
                 (MPENTRY_PADDR div PGSIZE)"
  have ke: "(fst (boot_alloc 0 ?s) - KERNBASE) div PGSIZE = 9"
    by (simp add: boot_alloc_def Let_def mmu_defs ROUNDUP_def ROUNDDOWN_def)
  have mp: "MPENTRY_PADDR div PGSIZE = 7" by (simp add: mmu_defs)
  have P: "?P p \<longleftrightarrow> p \<in> {1, 2, 3, 10, 11}" if "p < 12" for p
  proof -
    have "?P p \<longleftrightarrow> p \<noteq> 0 \<and> p \<noteq> 7 \<and> (p < 4 \<or> 9 < p)"
      unfolding boot_free_def ke mp by simp
    with that show ?thesis by simp arith
  qed
  have "filter ?P [0..<12] = [1, 2, 3, 10, 11]"
    unfolding ke mp boot_free_def by (simp add: upt_rec)
  moreover have "map (\<lambda>p. pp_ref (pages (page_init ?s) p)) [0..<12] =
      map (\<lambda>p. if ?P p then 0 else 1) [0..<12]"
    using page_init_free_list [of ?s] by (intro map_cong) simp_all
  then have "map (\<lambda>p. pp_ref (pages (page_init ?s) p)) [0..<12] =
      map (\<lambda>p. if p \<in> {1, 2, 3, 10, 11} then 0 else 1) [0..<12]"
    using P by simp
  ultimately show ?thesis
    using page_init_free_list [of ?s] by (simp add: upt_rec)
qed

text \<open>\<open>page_alloc\<close>. With an empty list it returns \<open>NULL\<close> and changes nothing; else it
  returns the head of the list, which leaves the list; with \<open>ALLOC_ZERO\<close> the frame
  reads 0 everywhere, without it memory is unchanged, no other frame is touched in either
  case, and no reference count changes.\<close>

theorem page_alloc_correct:
  assumes "alloc_inv s xs"
  shows "case xs of
      [] \<Rightarrow> page_alloc fl s = Inr (None, s)
    | x # ys \<Rightarrow> \<exists>s'. page_alloc fl s = Inr (Some x, s') \<and> alloc_inv s' ys \<and>
        x \<notin> set ys \<and> x < npages s \<and>
        mem s' = (if fl AND ALLOC_ZERO \<noteq> 0 then (mem s)(x := (\<lambda>_. 0)) else mem s) \<and>
        (\<forall>p. pp_ref (pages s' p) = pp_ref (pages s p)) \<and> pp_ref (pages s' x) = 0"
proof (cases xs)
  case Nil
  with assms show ?thesis by (simp add: page_alloc_empty)
next
  case (Cons x ys)
  note inv = assms [unfolded Cons]
  let ?s' = "taken (fl AND ALLOC_ZERO \<noteq> 0) x s"
  have "mem ?s' = (if fl AND ALLOC_ZERO \<noteq> 0 then (mem s)(x := (\<lambda>_. 0)) else mem s)"
    by (simp add: taken_def)
  with Cons show ?thesis
    using page_alloc_cons [OF inv, of fl] alloc_inv_taken [OF inv] alloc_invD(4,5) [OF inv]
    by (auto simp: taken_def)
qed

lemma sample_alloc_inv:
  "alloc_inv ((bss_state 4 0 0)\<lparr>page_free_list := Some 2,
     pages := (\<lambda>_. \<lparr>pp_link = None, pp_ref = 0\<rparr>)(2 := \<lparr>pp_link = Some 3, pp_ref = 0\<rparr>)\<rparr>) [2, 3]"
  by (simp add: alloc_inv_def freelist_def)

theorem page_alloc_correct_witness:
  "\<exists>s'. page_alloc 1 ((bss_state 4 0 0)\<lparr>page_free_list := Some 2,
     pages := (\<lambda>_. \<lparr>pp_link = None, pp_ref = 0\<rparr>)(2 := \<lparr>pp_link = Some 3, pp_ref = 0\<rparr>)\<rparr>) =
     Inr (Some 2, s') \<and> alloc_inv s' [3]"
  using page_alloc_correct [OF sample_alloc_inv, of 1] by auto

text \<open>A page taken by \<open>page_alloc\<close> and given back by \<open>page_free\<close> is again the head of
  the same free list; neither call panics.\<close>

theorem page_alloc_free_round_trip:
  assumes "alloc_inv s (x # xs)"
  shows "\<exists>s' s''. page_alloc fl s = Inr (Some x, s') \<and> alloc_inv s' xs \<and>
           page_free x s' = Inr ((), s'') \<and> alloc_inv s'' (x # xs)"
  by (rule pal.alloc_free_restores [OF assms])

theorem page_alloc_free_round_trip_witness:
  "\<exists>s' s''. page_alloc 0 ((bss_state 4 0 0)\<lparr>page_free_list := Some 2,
     pages := (\<lambda>_. \<lparr>pp_link = None, pp_ref = 0\<rparr>)(2 := \<lparr>pp_link = Some 3, pp_ref = 0\<rparr>)\<rparr>) =
     Inr (Some 2, s') \<and> alloc_inv s' [3] \<and>
           page_free 2 s' = Inr ((), s'') \<and> alloc_inv s'' [2, 3]"
  by (rule page_alloc_free_round_trip [OF sample_alloc_inv])

text \<open>The double-free check of \<open>page_free\<close>. Freeing a page that is on the free list
  panics, unless it is the last one: its link is \<open>NULL\<close> like that of an allocated page,
  so the call succeeds, and afterwards the list is cyclic: no finite list of pages ends in
  \<open>NULL\<close>.\<close>

theorem page_free_double_free:
  assumes "alloc_inv s (xs @ [p])"
  shows "(\<forall>q \<in> set xs. \<exists>msg. page_free q s = Inl (Panic msg, s)) \<and>
         (\<exists>s'. page_free p s = Inr ((), s') \<and> (\<forall>ys. \<not> freelist s' ys))"
proof (intro conjI ballI)
  fix q assume "q \<in> set xs"
  have "chain (\<lambda>p. pp_link (pages s p)) h (us @ q # u # vs) \<Longrightarrow> pp_link (pages s q) = Some u"
    for h us u vs by (induction us arbitrary: h) auto
  moreover obtain us u vs where "xs @ [p] = us @ q # u # vs"
    using \<open>q \<in> set xs\<close> by (metis append_Cons append_assoc list.exhaust snoc_eq_iff_butlast
        split_list append_Nil)
  ultimately have "pp_link (pages s q) = Some u"
    using alloc_invD(1) [OF assms] by (simp add: freelist_def)
  then show "\<exists>msg. page_free q s = Inl (Panic msg, s)"
    by (simp add: page_free_def panic_def)
next
  let ?s' = "set_page_free_list (Some p) (set_pp_link p (page_free_list s) s)"
  have fl: "freelist s (xs @ [p])" using assms by (rule alloc_invD)
  then have "pp_link (pages s p) = None"
    by (auto simp: freelist_def dest: chain_last_None)
  moreover have "pp_ref (pages s p) = 0" using alloc_invD(5) [OF assms] by simp
  ultimately have ok: "page_free p s = Inr ((), ?s')" by (simp add: page_free_def)
  have "\<not> freelist ?s' ys" for ys
  proof
    assume cyc: "freelist ?s' ys"
    define lk where "lk = (\<lambda>q. pp_link (pages s q))"
    from cyc obtain zs where "ys = p # zs" and zs: "chain (lk(p := page_free_list s)) (page_free_list s) zs"
      by (auto simp: freelist_def pfl.list_laws chain_Some lk_def)
    then have pz: "p \<notin> set zs"
      using chain_notin_tail [of "lk(p := page_free_list s)" p zs] by simp
    then have "chain lk (page_free_list s) zs" using zs by simp
    moreover have "chain lk (page_free_list s) (xs @ [p])" using fl by (simp add: freelist_def lk_def)
    ultimately have "zs = xs @ [p]" by (rule chain_unique)
    with pz show False by simp
  qed
  with ok show "\<exists>s'. page_free p s = Inr ((), s') \<and> (\<forall>ys. \<not> freelist s' ys)" by blast
qed

theorem page_free_double_free_witness:
  "\<exists>s'. page_free 3 ((bss_state 4 0 0)\<lparr>page_free_list := Some 2,
     pages := (\<lambda>_. \<lparr>pp_link = None, pp_ref = 0\<rparr>)(2 := \<lparr>pp_link = Some 3, pp_ref = 0\<rparr>)\<rparr>) =
     Inr ((), s') \<and> (\<forall>ys. \<not> freelist s' ys)"
  using page_free_double_free [of _ "[2]" 3] sample_alloc_inv by auto

end
