(* ===== verification/Sched.thy ===== *)
theory Sched
  imports Spinlock Pmap
begin

text \<open>
  Running an environment and choosing the next one: \<open>env_run\<close> and \<open>env_pop_tf\<close> of
  \<open>kern/env.c\<close>, \<open>sched_yield\<close> and \<open>sched_halt\<close> of \<open>kern/sched.c\<close>. None of them
  returns: the result is always a stop, \<open>EnvRun e\<close> for the return to user mode of
  environment \<open>e\<close>, \<open>Idle\<close> for the halted processor, \<open>Monitor\<close> for the kernel monitor,
  or a panic.
\<close>

section \<open>Operations\<close>

definition ENVX :: "u32 \<Rightarrow> nat" where
  "ENVX envid = unat (envid AND (of_nat NENV - 1))"

text \<open>
  \<open>PADDR\<close> of a pointer that may be \<open>NULL\<close>; a null pointer is below \<open>KERNBASE\<close>.
\<close>

definition PADDR_ptr :: "kptr option \<Rightarrow> kstate \<Rightarrow> u64 res" where
  "PADDR_ptr p s = PADDR (case p of None \<Rightarrow> 0 | Some a \<Rightarrow> kva a) s"

text \<open>
  The registers are restored from the trap frame by the \<open>iretq\<close> sequence; from here the
  environment runs in user mode.
\<close>

definition env_pop_tf :: "nat \<Rightarrow> kstate \<Rightarrow> unit res" where
  "env_pop_tf e s =
     bindK (deref (curenv s) s) (\<lambda>c s.
       Inl (EnvRun e, upd_env c (\<lambda>x. x\<lparr>env_cpunum := int (cpu s)\<rparr>) s))"

definition env_run :: "nat \<Rightarrow> kstate \<Rightarrow> unit res" where
  "env_run e s =
     (let s = (case curenv s of
                 Some c \<Rightarrow> if env_status (envs s c) = ENV_RUNNING
                   then upd_env c (\<lambda>x. x\<lparr>env_status := ENV_RUNNABLE\<rparr>) s else s
               | None \<Rightarrow> s);
          s = set_curenv (Some e) s;
          s = upd_env e (\<lambda>x. x\<lparr>env_status := ENV_RUNNING, env_runs := env_runs x + 1\<rparr>) s
      in bindK (PADDR_ptr (env_pml4e (envs s e)) s) (\<lambda>pa s.
         bindK (unlock_kernel (lcr3 pa s)) (\<lambda>_ s.
         env_pop_tf e s)))"

text \<open>The test of the loop in \<open>sched_halt\<close>.\<close>

definition env_alive :: "env_status_t \<Rightarrow> bool" where
  "env_alive x \<longleftrightarrow> x = ENV_RUNNABLE \<or> x = ENV_RUNNING \<or> x = ENV_DYING"

definition sched_halt :: "kstate \<Rightarrow> unit res" where
  "sched_halt s =
     (if \<not> (\<exists>i \<in> set [0..<NENV]. env_alive (env_status (envs s i))) then
        Inl (Monitor, cprintf ''No runnable environments in the system!'' [] s)
      else
        let s = set_curenv None s in
        bindK (PADDR (kva (boot_pml4e s)) s) (\<lambda>pa s.
          let s = lcr3 pa s;
              s = s\<lparr>cpus := (cpus s)(cpu s := (cpus s (cpu s))\<lparr>cpu_status := CPU_HALTED\<rparr>)\<rparr>
          in bindK (unlock_kernel s) (\<lambda>_ s. Inl (Idle, s))))"

text \<open>The slots in the order of the loop \<open>for (i = cur_id; i <= NENV + cur_id; i++)\<close>.\<close>

definition sched_order :: "nat \<Rightarrow> nat list" where
  "sched_order cur_id = map (\<lambda>i. i mod NENV) [cur_id..<NENV + cur_id + 1]"

definition sched_yield :: "kstate \<Rightarrow> unit res" where
  "sched_yield s =
     (let cur_id = (case curenv s of None \<Rightarrow> 0 | Some c \<Rightarrow> ENVX (env_id (envs s c)));
          cur_id = cur_id + 1
      in case find (\<lambda>i. env_status (envs s i) = ENV_RUNNABLE) (sched_order cur_id) of
           Some i \<Rightarrow> env_run i s
         | None \<Rightarrow>
             (case curenv s of
                Some c \<Rightarrow> if env_status (envs s c) = ENV_RUNNING then env_run c s else sched_halt s
              | None \<Rightarrow> sched_halt s))"

section \<open>Effects\<close>

lemma NENV_pos [simp]: "0 < NENV" "NENV \<noteq> 0"
  by (simp_all add: NENV_def)

lemma ENVX_mod: "ENVX e = unat e mod NENV"
proof -
  have "(of_nat NENV - 1 :: u32) = mask 10"
    by (simp add: NENV_def LOG2NENV_def mask_eq_exp_minus_1)
  then have "ENVX e = unat (take_bit 10 e)" unfolding ENVX_def by (simp only: take_bit_eq_mask)
  then show ?thesis by (simp add: NENV_def LOG2NENV_def unat_take_bit)
qed

lemma ENVX_less [simp]: "ENVX e < NENV"
  by (simp add: ENVX_mod)

lemma PADDR_kva:
  assumes "fst a < 2 ^ 32" "snd a < 512"
  shows "PADDR (kva a) s = Inr (of_nat (fst a * 4096 + snd a * 8), s)"
proof -
  let ?n = "fst a * 4096 + snd a * 8"
  have n: "?n < 2 ^ 45" using assms by simp
  then have "unat (of_nat ?n :: u64) = ?n" by (simp only: unat_of_nat) simp
  then have "unat (kva a) = 0x8004000000 + ?n"
    using n unfolding kva_def KERNBASE_def by (simp only: unat_word_ariths) simp
  then have "\<not> kva a < KERNBASE" by (simp add: word_less_nat_alt KERNBASE_def)
  then show ?thesis by (simp add: PADDR_def kva_def)
qed

text \<open>
  The state in which \<open>env_run e\<close> enters user mode, when this processor holds the kernel lock.
\<close>

definition switched :: "nat \<Rightarrow> kptr \<Rightarrow> kstate \<Rightarrow> kstate \<Rightarrow> bool" where
  "switched e a s s' \<longleftrightarrow>
     curenv s' = Some e \<and> env_status (envs s' e) = ENV_RUNNING \<and>
     env_runs (envs s' e) = env_runs (envs s e) + 1 \<and> env_cpunum (envs s' e) = int (cpu s) \<and>
     env_tf (envs s' e) = env_tf (envs s e) \<and>
     cr3 s' (cpu s) = of_nat (fst a * 4096 + snd a * 8) \<and> locked (kernel_lock s') = 0 \<and>
     (\<forall>c. c \<noteq> e \<longrightarrow> envs s' c = (envs s c)\<lparr>env_status :=
        (if curenv s = Some c \<and> env_status (envs s c) = ENV_RUNNING then ENV_RUNNABLE
         else env_status (envs s c))\<rparr>) \<and>
     mem s' = mem s \<and> pages s' = pages s \<and> page_free_list s' = page_free_list s"

lemma env_run_switches:
  assumes "holding (cpu s) (kernel_lock s)" "env_pml4e (envs s e) = Some a"
    and "fst a < 2 ^ 32" "snd a < 512"
  shows "\<exists>s'. env_run e s = Inl (EnvRun e, s') \<and> switched e a s s'"
proof -
  define s1 where "s1 = (case curenv s of
                 Some c \<Rightarrow> if env_status (envs s c) = ENV_RUNNING
                   then upd_env c (\<lambda>x. x\<lparr>env_status := ENV_RUNNABLE\<rparr>) s else s
               | None \<Rightarrow> s)"
  define s2 where "s2 = upd_env e (\<lambda>x. x\<lparr>env_status := ENV_RUNNING, env_runs := env_runs x + 1\<rparr>)
      (set_curenv (Some e) s1)"
  have s1: "cpu s1 = cpu s" "kernel_lock s1 = kernel_lock s" "mem s1 = mem s" "pages s1 = pages s"
    "page_free_list s1 = page_free_list s" "cpus s1 = cpus s"
    by (auto simp: s1_def upd_env_def split: option.splits)
  have e1: "envs s1 c = (envs s c)\<lparr>env_status :=
        (if curenv s = Some c \<and> env_status (envs s c) = ENV_RUNNING then ENV_RUNNABLE
         else env_status (envs s c))\<rparr>" for c
    by (auto simp: s1_def upd_env_def split: option.splits)
  have s2: "cpu s2 = cpu s" "kernel_lock s2 = kernel_lock s" "mem s2 = mem s" "pages s2 = pages s"
    "page_free_list s2 = page_free_list s" "curenv s2 = Some e"
    using s1 by (simp_all add: s2_def upd_env_def set_curenv_def curenv_def)
  have e2: "envs s2 c = (if c = e then (envs s1 e)\<lparr>env_status := ENV_RUNNING, env_runs := env_runs (envs s1 e) + 1\<rparr>
       else envs s1 c)" for c
    by (simp add: s2_def upd_env_def set_curenv_def)
  have run: "env_run e s = bindK (PADDR_ptr (env_pml4e (envs s2 e)) s2) (\<lambda>pa s.
         bindK (unlock_kernel (lcr3 pa s)) (\<lambda>_ s. env_pop_tf e s))"
    by (simp add: env_run_def s1_def s2_def Let_def)
  have pml: "env_pml4e (envs s2 e) = Some a" using e1 e2 assms(2) by simp
  let ?s3 = "lcr3 (of_nat (fst a * 4096 + snd a * 8)) s2"
  have "unlock_kernel ?s3 =
      Inr ((), ?s3\<lparr>kernel_lock := (forget_holder (kernel_lock s))\<lparr>locked := 0\<rparr>\<rparr>)"
    using unlock_kernel_held [of ?s3] assms(1) s2 by (simp add: lcr3_def)
  then have "env_run e s = Inl (EnvRun e, upd_env e (\<lambda>x. x\<lparr>env_cpunum := int (cpu s)\<rparr>)
      (?s3\<lparr>kernel_lock := (forget_holder (kernel_lock s))\<lparr>locked := 0\<rparr>\<rparr>))"
    using run pml PADDR_kva [OF assms(3,4)] s2
    by (simp add: PADDR_ptr_def env_pop_tf_def curenv_def lcr3_def)
  then show ?thesis
    using s2 e1 e2 by (auto simp: switched_def upd_env_def lcr3_def curenv_def)
qed

lemma env_run_stops: "\<exists>e. env_run i s = Inl e"
  by (simp add: env_run_def env_pop_tf_def PADDR_ptr_def PADDR_def panic_def unlock_kernel_def
      deref_def Let_def split: sum.splits option.splits)

lemma sched_halt_stops: "\<exists>e. sched_halt s = Inl e"
  by (simp add: sched_halt_def PADDR_def panic_def unlock_kernel_def Let_def split: sum.splits)

lemma sched_yield_stops: "\<exists>e. sched_yield s = Inl e"
  using env_run_stops sched_halt_stops by (simp add: sched_yield_def Let_def split: option.split)

section \<open>Round robin\<close>

definition runnable :: "kstate \<Rightarrow> nat \<Rightarrow> bool" where
  "runnable s i \<longleftrightarrow> env_status (envs s i) = ENV_RUNNABLE"

definition cur_slot :: "kstate \<Rightarrow> nat" where
  "cur_slot s = (case curenv s of None \<Rightarrow> 0 | Some c \<Rightarrow> ENVX (env_id (envs s c)))"

lemma cur_slot_less: "cur_slot s < NENV"
  by (simp add: cur_slot_def split: option.splits)

definition vm_ok :: "kstate \<Rightarrow> nat \<Rightarrow> bool" where
  "vm_ok s i \<longleftrightarrow> (case env_pml4e (envs s i) of None \<Rightarrow> False | Some a \<Rightarrow> fst a < 2 ^ 32 \<and> snd a < 512)"

lemma find_upt_first:
  assumes "a \<le> i" "i < b" "P (f i)" "\<And>j. a \<le> j \<Longrightarrow> j < i \<Longrightarrow> \<not> P (f j)"
  shows "find P (map f [a..<b]) = Some (f i)"
  using assms
proof (induction "i - a" arbitrary: a)
  case 0
  then have "a = i" "a < b" by simp_all
  with 0 show ?case by (simp add: upt_conv_Cons)
next
  case (Suc n)
  then have "a < b" "\<not> P (f a)" by simp_all
  then have "find P (map f [a..<b]) = find P (map f [Suc a..<b])" by (simp add: upt_conv_Cons)
  also have "\<dots> = Some (f i)" using Suc.hyps(2) Suc.prems by (intro Suc.hyps(1)) auto
  finally show ?case .
qed

text \<open>
  How many slots the scan that starts after slot \<open>b\<close> passes before it reaches slot \<open>k\<close>.
\<close>

definition sched_dist :: "nat \<Rightarrow> nat \<Rightarrow> nat" where
  "sched_dist b k = (if b < k then k - b - 1 else k + NENV - b - 1)"

lemma sched_dist_reaches:
  "b < NENV \<Longrightarrow> k < NENV \<Longrightarrow> (b + 1 + sched_dist b k) mod NENV = k"
  by (auto simp: sched_dist_def)

lemma sched_dist_less:
  assumes "b < NENV" "k < NENV" "d < sched_dist b k"
  shows "sched_dist ((b + 1 + d) mod NENV) k < sched_dist b k"
proof (cases "b + 1 + d < NENV")
  case True
  with assms show ?thesis by (auto simp: sched_dist_def split: if_splits)
next
  case False
  then have "(b + 1 + d) mod NENV = b + 1 + d - NENV"
    using assms by (subst mod_if) (auto simp: sched_dist_def split: if_splits)
  with False assms show ?thesis by (auto simp: sched_dist_def split: if_splits)
qed

lemma yield_first:
  assumes "holding (cpu s) (kernel_lock s)" and "k < NENV" "runnable s k"
    and "\<forall>i < NENV. runnable s i \<longrightarrow> vm_ok s i"
  shows "\<exists>d s'. d < NENV \<and> runnable s ((cur_slot s + 1 + d) mod NENV) \<and>
     (\<forall>d' < d. \<not> runnable s ((cur_slot s + 1 + d') mod NENV)) \<and>
     sched_yield s = Inl (EnvRun ((cur_slot s + 1 + d) mod NENV), s') \<and>
     switched ((cur_slot s + 1 + d) mod NENV) (the (env_pml4e (envs s ((cur_slot s + 1 + d) mod NENV)))) s s'"
proof -
  let ?b = "cur_slot s"
  let ?P = "\<lambda>i. runnable s i" and ?f = "\<lambda>i. i mod NENV"
  have reach: "?P (?f (?b + 1 + sched_dist ?b k))"
    using sched_dist_reaches [OF cur_slot_less assms(2)] assms(3) by simp
  define i where "i = (LEAST i. ?b + 1 \<le> i \<and> ?P (?f i))"
  have i: "?b + 1 \<le> i" "?P (?f i)"
    using LeastI [of "\<lambda>i. ?b + 1 \<le> i \<and> ?P (?f i)" "?b + 1 + sched_dist ?b k"] reach
    unfolding i_def by auto
  have min: "\<not> ?P (?f j)" if "?b + 1 \<le> j" "j < i" for j
    using that not_less_Least [of j "\<lambda>i. ?b + 1 \<le> i \<and> ?P (?f i)"] unfolding i_def by blast
  have "i \<le> ?b + 1 + sched_dist ?b k"
    using reach unfolding i_def by (intro Least_le) simp
  moreover have "sched_dist ?b k < NENV"
    using cur_slot_less [of s] assms(2) by (auto simp: sched_dist_def)
  ultimately have hi: "i < NENV + (?b + 1) + 1" "i - (?b + 1) < NENV" using i(1) by auto
  have "find (\<lambda>i. env_status (envs s i) = ENV_RUNNABLE) (sched_order (?b + 1)) = Some (?f i)"
    unfolding sched_order_def using i min hi(1)
    by (intro find_upt_first) (auto simp: runnable_def)
  then have run: "sched_yield s = env_run (?f i) s"
    by (simp add: sched_yield_def cur_slot_def Let_def)
  have "vm_ok s (?f i)" using assms(4) i(2) by simp
  then obtain a where a: "env_pml4e (envs s (?f i)) = Some a" "fst a < 2 ^ 32" "snd a < 512"
    by (auto simp: vm_ok_def split: option.splits)
  obtain s' where s': "env_run (?f i) s = Inl (EnvRun (?f i), s')" "switched (?f i) a s s'"
    using env_run_switches [OF assms(1) a] by blast
  have "?b + 1 + (i - (?b + 1)) = i" using i(1) by simp
  moreover have "\<forall>d' < i - (?b + 1). \<not> ?P (?f (?b + 1 + d'))" using min by auto
  ultimately show ?thesis
    using run s' a(1) i(2) hi(2) by (intro exI [of _ "i - (?b + 1)"] exI [of _ s']) (simp add: Let_def)
qed

text \<open>
  The state of a processor that found nothing to run: no current environment, the
  kernel's own address space, the processor marked halted, the lock released and
  everything else as it was.
\<close>

definition halted :: "kstate \<Rightarrow> kstate \<Rightarrow> bool" where
  "halted s s' \<longleftrightarrow>
     curenv s' = None \<and> cpu_status (cpus s' (cpu s)) = CPU_HALTED \<and>
     (\<forall>c. c \<noteq> cpu s \<longrightarrow> cpus s' c = cpus s c \<and> cr3 s' c = cr3 s c) \<and>
     cr3 s' (cpu s) = of_nat (fst (boot_pml4e s) * 4096 + snd (boot_pml4e s) * 8) \<and>
     locked (kernel_lock s') = 0 \<and> envs s' = envs s \<and>
     mem s' = mem s \<and> pages s' = pages s \<and> page_free_list s' = page_free_list s"

lemma sched_halt_halts:
  assumes "holding (cpu s) (kernel_lock s)" "fst (boot_pml4e s) < 2 ^ 32" "snd (boot_pml4e s) < 512"
    and "i < NENV" "env_alive (env_status (envs s i))"
  shows "\<exists>s'. sched_halt s = Inl (Idle, s') \<and> halted s s'"
proof -
  define s1 where "s1 = set_curenv None s"
  have s1: "cpu s1 = cpu s" "boot_pml4e s1 = boot_pml4e s" "kernel_lock s1 = kernel_lock s"
    by (simp_all add: s1_def set_curenv_def)
  let ?pa = "of_nat (fst (boot_pml4e s) * 4096 + snd (boot_pml4e s) * 8)"
  define s2 where "s2 = (let s = lcr3 ?pa s1
     in s\<lparr>cpus := (cpus s)(cpu s := (cpus s (cpu s))\<lparr>cpu_status := CPU_HALTED\<rparr>)\<rparr>)"
  have s2: "cpu s2 = cpu s" "kernel_lock s2 = kernel_lock s"
    using s1 by (simp_all add: s2_def lcr3_def Let_def)
  have "\<exists>i \<in> set [0..<NENV]. env_alive (env_status (envs s i))" using assms(4,5) by auto
  then have "sched_halt s = bindK (PADDR (kva (boot_pml4e s1)) s1) (\<lambda>pa s.
          let s = lcr3 pa s;
              s = s\<lparr>cpus := (cpus s)(cpu s := (cpus s (cpu s))\<lparr>cpu_status := CPU_HALTED\<rparr>)\<rparr>
          in bindK (unlock_kernel s) (\<lambda>_ s. Inl (Idle, s)))"
    unfolding sched_halt_def s1_def Let_def by (simp only: not_not if_False simp_thms)
  also have "\<dots> = bindK (unlock_kernel s2) (\<lambda>_ s. Inl (Idle, s))"
    using PADDR_kva [of "boot_pml4e s" s1] assms(2,3) s1 by (simp add: s2_def Let_def)
  also have "\<dots> = Inl (Idle, s2\<lparr>kernel_lock := (forget_holder (kernel_lock s))\<lparr>locked := 0\<rparr>\<rparr>)"
    using unlock_kernel_held [of s2] assms(1) s2 by simp
  finally show ?thesis
    by (simp add: halted_def s2_def s1_def lcr3_def set_curenv_def curenv_def Let_def)
qed

lemma yield_none:
  assumes "\<not> (\<exists>k < NENV. runnable s k)"
  shows "sched_yield s = (case curenv s of
     Some c \<Rightarrow> if env_status (envs s c) = ENV_RUNNING then env_run c s else sched_halt s
   | None \<Rightarrow> sched_halt s)"
proof -
  have "find (\<lambda>i. env_status (envs s i) = ENV_RUNNABLE) (sched_order b) = None" for b
    using assms by (auto simp: find_None_iff sched_order_def runnable_def)
  then show ?thesis by (simp add: sched_yield_def Let_def)
qed

text \<open>C14: \<open>sched_yield\<close>, on every branch. If some environment is runnable, it switches to the
  first runnable one after the current slot, in circular order: that one becomes the
  current and running environment with its address space loaded and one more run counted,
  the environment that was running becomes runnable, and the kernel lock is released. If
  none is runnable and the current environment is still running, that one runs on, its
  run counted as well. Otherwise the processor halts when some environment of the table
  is running elsewhere or dying, and enters the monitor with a message when none is.\<close>

theorem sched_yield_round_robin:
  assumes "holding (cpu s) (kernel_lock s)"
    and "fst (boot_pml4e s) < 2 ^ 32" "snd (boot_pml4e s) < 512"
    and "\<forall>i < NENV. runnable s i \<longrightarrow> vm_ok s i" "\<forall>c. curenv s = Some c \<longrightarrow> vm_ok s c"
  shows "if \<exists>k < NENV. runnable s k then
       \<exists>d s'. d < NENV \<and> (let j = (cur_slot s + 1 + d) mod NENV in
         runnable s j \<and> (\<forall>d' < d. \<not> runnable s ((cur_slot s + 1 + d') mod NENV)) \<and>
         sched_yield s = Inl (EnvRun j, s') \<and> switched j (the (env_pml4e (envs s j))) s s')
     else if \<exists>c. curenv s = Some c \<and> env_status (envs s c) = ENV_RUNNING then
       \<exists>s'. let c = the (curenv s) in
         sched_yield s = Inl (EnvRun c, s') \<and> switched c (the (env_pml4e (envs s c))) s s'
     else if \<exists>i < NENV. env_status (envs s i) \<in> {ENV_RUNNING, ENV_DYING} then
       \<exists>s'. sched_yield s = Inl (Idle, s') \<and> halted s s'
     else sched_yield s = Inl (Monitor, cprintf ''No runnable environments in the system!'' [] s)"
proof (cases "\<exists>k < NENV. runnable s k")
  case True
  then obtain k where "k < NENV" "runnable s k" by blast
  then show ?thesis using True yield_first [OF assms(1) _ _ assms(4)] unfolding Let_def by simp
next
  case none: False
  show ?thesis
  proof (cases "\<exists>c. curenv s = Some c \<and> env_status (envs s c) = ENV_RUNNING")
    case True
    then obtain c where c: "curenv s = Some c" "env_status (envs s c) = ENV_RUNNING" by blast
    moreover obtain a where "env_pml4e (envs s c) = Some a" "fst a < 2 ^ 32" "snd a < 512"
      using assms(5) c(1) by (auto simp: vm_ok_def split: option.splits)
    ultimately show ?thesis
      using none yield_none [OF none] env_run_switches [OF assms(1), of c a] by simp
  next
    case False
    then have halt: "sched_yield s = sched_halt s"
      using yield_none [OF none] by (auto split: option.split)
    have alive: "i < NENV \<Longrightarrow> env_alive (env_status (envs s i)) \<longleftrightarrow>
        env_status (envs s i) \<in> {ENV_RUNNING, ENV_DYING}" for i
      using none by (auto simp: env_alive_def runnable_def)
    show ?thesis
    proof (cases "\<exists>i < NENV. env_status (envs s i) \<in> {ENV_RUNNING, ENV_DYING}")
      case True
      then show ?thesis
        using none False halt alive sched_halt_halts [OF assms(1-3)] by (simp only: if_False if_True) blast
    next
      case idle: False
      then have "\<not> (\<exists>i \<in> set [0..<NENV]. env_alive (env_status (envs s i)))" using alive by auto
      then show ?thesis using none False idle halt by (simp only: if_False sched_halt_def) simp
    qed
  qed
qed

text \<open>Two runnable environments in slots 5 and 7.\<close>

definition sched_sample :: kstate where
  "sched_sample =
     (let e = \<lambda>i. zero_env\<lparr>env_id := of_nat i, env_pml4e := Some (2, 0), env_status := ENV_RUNNABLE\<rparr>
      in (bss_state 8 0 0)\<lparr>envs := (\<lambda>i. if i = 5 \<or> i = 7 then e i else zero_env),
           kernel_lock := zero_lock\<lparr>locked := 1, lk_cpu := Some 0\<rparr>\<rparr>)"

lemma sample_sched:
  "holding (cpu sched_sample) (kernel_lock sched_sample)"
  "runnable sched_sample i \<longleftrightarrow> i = 5 \<or> i = 7" "runnable sched_sample i \<Longrightarrow> vm_ok sched_sample i"
  "cur_slot sched_sample = 0" "curenv sched_sample = None"
  "fst (boot_pml4e sched_sample) < 2 ^ 32" "snd (boot_pml4e sched_sample) < 512"
  by (simp_all add: sched_sample_def Let_def holding_def runnable_def vm_ok_def cur_slot_def curenv_def
      zero_env_def zero_cpu_def split: if_splits)

lemma NENV_val: "NENV = 1024"
  by (simp add: NENV_def LOG2NENV_def)

theorem sched_yield_round_robin_witness:
  "\<exists>s'. sched_yield sched_sample = Inl (EnvRun 5, s')"
proof -
  have "7 < NENV \<and> runnable sched_sample 7" using sample_sched(2) [of 7] by (simp add: NENV_val)
  then have "\<exists>k < NENV. runnable sched_sample k" by blast
  then obtain d s' where d: "d < NENV" "runnable sched_sample ((0 + 1 + d) mod NENV)"
      "\<forall>d' < d. \<not> runnable sched_sample ((0 + 1 + d') mod NENV)"
      "sched_yield sched_sample = Inl (EnvRun ((0 + 1 + d) mod NENV), s')"
    using sched_yield_round_robin [OF sample_sched(1,6,7)] sample_sched(3,5) unfolding sample_sched(4) Let_def
    by auto
  have "(1 + d) mod NENV = 5 \<or> (1 + d) mod NENV = 7" using d(2) sample_sched(2) by simp
  moreover have "\<not> 4 < d" using d(3) [rule_format, of 4] sample_sched(2) [of 5] by (auto simp: NENV_val)
  ultimately have "(1 + d) mod NENV = 5"
    using d(1) by (simp add: NENV_val)
  with d(4) show ?thesis by auto
qed

section \<open>No starvation\<close>

lemma yield_closer:
  assumes "holding (cpu s) (kernel_lock s)" and "k < NENV" "runnable s k"
    and "\<forall>i < NENV. runnable s i \<longrightarrow> vm_ok s i"
  shows "\<exists>j s'. sched_yield s = Inl (EnvRun j, s') \<and> j < NENV \<and> runnable s j \<and> curenv s' = Some j \<and>
     (j = k \<or> sched_dist j k < sched_dist (cur_slot s) k)"
proof -
  let ?b = "cur_slot s"
  obtain d s' where d: "runnable s ((?b + 1 + d) mod NENV)"
    "\<forall>d' < d. \<not> runnable s ((?b + 1 + d') mod NENV)"
    "sched_yield s = Inl (EnvRun ((?b + 1 + d) mod NENV), s')"
    "switched ((?b + 1 + d) mod NENV) (the (env_pml4e (envs s ((?b + 1 + d) mod NENV)))) s s'"
    using yield_first [OF assms] by blast
  have dk: "d \<le> sched_dist ?b k"
    using d(2) [rule_format, of "sched_dist ?b k"] sched_dist_reaches [OF cur_slot_less [of s] assms(2)] assms(3)
    by (metis not_le)
  have "(?b + 1 + d) mod NENV = k \<or> sched_dist ((?b + 1 + d) mod NENV) k < sched_dist ?b k"
  proof (cases "d = sched_dist ?b k")
    case True
    then show ?thesis using sched_dist_reaches [OF cur_slot_less assms(2)] by simp
  next
    case False
    then show ?thesis using dk sched_dist_less [OF cur_slot_less assms(2)] by simp
  qed
  then show ?thesis using d(1,3,4) by (auto simp: switched_def)
qed

text \<open>
  The next time this processor comes to \<open>sched_yield\<close>, after the one that ended in \<open>t\<close>: the
  environment that ran is still the current one, its id names its slot, and \<open>k\<close> is
  runnable. Whatever else user mode, the system calls and the other processors changed in
  between is left open.
\<close>

definition next_yield :: "nat \<Rightarrow> kstate \<Rightarrow> kstate \<Rightarrow> bool" where
  "next_yield k t s \<longleftrightarrow> holding (cpu s) (kernel_lock s) \<and> curenv s = curenv t \<and>
     (\<forall>c. curenv s = Some c \<longrightarrow> ENVX (env_id (envs s c)) = c) \<and> runnable s k"

lemma next_yield_slot: "next_yield k t s \<Longrightarrow> curenv t = Some j \<Longrightarrow> cur_slot s = j"
  by (simp add: next_yield_def cur_slot_def)

lemma runs_within:
  assumes "k < NENV"
    and "\<And>n i. i < NENV \<Longrightarrow> runnable (run n) i \<Longrightarrow> vm_ok (run n) i"
    and "\<And>n j t. sched_yield (run n) = Inl (EnvRun j, t) \<Longrightarrow> j \<noteq> k \<Longrightarrow> next_yield k t (run (Suc n))"
    and "holding (cpu (run m)) (kernel_lock (run m))" "runnable (run m) k"
  shows "\<exists>n \<le> sched_dist (cur_slot (run m)) k. \<exists>t. sched_yield (run (m + n)) = Inl (EnvRun k, t)"
  using assms(4,5)
proof (induction "sched_dist (cur_slot (run m)) k" arbitrary: m rule: less_induct)
  case less
  obtain j t where j: "sched_yield (run m) = Inl (EnvRun j, t)" "curenv t = Some j"
      "j = k \<or> sched_dist j k < sched_dist (cur_slot (run m)) k"
    using yield_closer [OF less.prems(1) assms(1) less.prems(2)] assms(2) by blast
  show ?case
  proof (cases "j = k")
    case True
    then show ?thesis using j(1) by (intro exI [of _ 0]) auto
  next
    case False
    then have nx: "next_yield k t (run (Suc m))" using assms(3) j(1) by blast
    then have "cur_slot (run (Suc m)) = j" using next_yield_slot j(2) by blast
    moreover have "holding (cpu (run (Suc m))) (kernel_lock (run (Suc m)))" "runnable (run (Suc m)) k"
      using nx by (simp_all add: next_yield_def)
    ultimately obtain n t' where "n \<le> sched_dist j k" "sched_yield (run (Suc m + n)) = Inl (EnvRun k, t')"
      using less.hyps [of "Suc m"] j(3) False by auto
    then show ?thesis using j(3) False by (intro exI [of _ "Suc n"]) auto
  qed
qed

text \<open>C15: no starvation. Take the states \<open>run 0\<close>, \<open>run 1\<close>, ... in which one processor calls
  \<open>sched_yield\<close>, each at the point where the previous call left this processor: the
  environment it switched to is still its current one when it yields or is preempted. If
  environment \<open>k\<close> stays runnable until this processor picks it, one of the first
  \<open>NENV\<close> of these calls runs \<open>k\<close>, whatever the other environments and processors do.\<close>

theorem sched_yield_no_starvation:
  assumes "k < NENV"
    and "holding (cpu (run 0)) (kernel_lock (run 0))" "runnable (run 0) k"
    and "\<And>n i. i < NENV \<Longrightarrow> runnable (run n) i \<Longrightarrow> vm_ok (run n) i"
    and "\<And>n j t. sched_yield (run n) = Inl (EnvRun j, t) \<Longrightarrow> j \<noteq> k \<Longrightarrow> next_yield k t (run (Suc n))"
  shows "\<exists>n < NENV. \<exists>t. sched_yield (run n) = Inl (EnvRun k, t)"
proof -
  have "sched_dist (cur_slot (run 0)) k < NENV"
    using cur_slot_less [of "run 0"] assms(1) by (auto simp: sched_dist_def)
  then show ?thesis using runs_within [of k run 0] assms by (simp) (metis le_less_trans)
qed

text \<open>The state of the sample when environment 5, picked first, yields again.\<close>

definition sched_sample2 :: kstate where
  "sched_sample2 = set_curenv (Some 5) (upd_env 5 (\<lambda>e. e\<lparr>env_status := ENV_RUNNING\<rparr>) sched_sample)"

lemma sample_sched2:
  "holding (cpu sched_sample2) (kernel_lock sched_sample2)"
  "runnable sched_sample2 i \<longleftrightarrow> i = 7" "runnable sched_sample2 i \<Longrightarrow> vm_ok sched_sample2 i"
  "curenv sched_sample2 = Some 5" "ENVX (env_id (envs sched_sample2 5)) = 5"
  "boot_pml4e sched_sample2 = boot_pml4e sched_sample"
  by (simp_all add: sched_sample2_def sched_sample_def Let_def holding_def runnable_def vm_ok_def upd_env_def
      set_curenv_def curenv_def ENVX_mod NENV_val zero_env_def zero_cpu_def split: if_splits)

theorem sched_yield_no_starvation_witness:
  "\<exists>n < NENV. \<exists>t. sched_yield (if n = 0 then sched_sample else sched_sample2) = Inl (EnvRun 7, t)"
proof (rule sched_yield_no_starvation
    [of 7 "\<lambda>n. if n = 0 then sched_sample else sched_sample2"])
  show "7 < NENV" by (simp add: NENV_val)
next
  fix n :: nat and j t
  assume y: "sched_yield (if n = 0 then sched_sample else sched_sample2) = Inl (EnvRun j, t)" and "j \<noteq> 7"
  let ?s = "if n = 0 then sched_sample else sched_sample2"
  have "holding (cpu ?s) (kernel_lock ?s)" "runnable ?s 7" "7 < NENV" "\<forall>i < NENV. runnable ?s i \<longrightarrow> vm_ok ?s i"
    using sample_sched(1-3) sample_sched2(1-3) by (simp_all add: NENV_val)
  then obtain j' t' where "sched_yield ?s = Inl (EnvRun j', t')" "runnable ?s j'" "curenv t' = Some j'"
    using yield_closer [of ?s 7] by blast
  with y \<open>j \<noteq> 7\<close> have "n = 0 \<and> j = 5 \<and> curenv t = Some 5"
    using sample_sched(2) sample_sched2(2) by (auto split: if_splits)
  then show "next_yield 7 t (if Suc n = 0 then sched_sample else sched_sample2)"
    using sample_sched2 by (simp add: next_yield_def)
qed (use sample_sched sample_sched2 in \<open>auto split: if_splits\<close>)

end
