(* ===== verification/Pmap_Walk.thy ===== *)
theory Pmap_Walk
  imports Pmap
begin

text \<open>
  The four-level page tables of \<open>kern/pmap.c\<close>: the three walkers, \<open>boot_map_region\<close>,
  \<open>page_insert\<close>, \<open>page_lookup\<close>, \<open>page_remove\<close>, \<open>tlb_invalidate\<close>,
  \<open>mmio_map_region\<close> and \<open>user_mem_check\<close>. The reference notion is \<open>mapping s r va\<close>, the
  entry the hardware finds for \<open>va\<close> in the tables rooted at page \<open>r\<close>. The invariant
  \<open>pt_wf\<close> assigns to each table page its root and the indices that lead to it; because
  the assignment is a function, no table is shared between two places, and from this
  follows that an operation at one address leaves the mapping of every other address,
  and of every other address space, as it was.
\<close>

section \<open>The walkers\<close>

text \<open>
  The entry written for a new table: \<open>(page2pa(page) & ~0xFFF) | PTE_U | PTE_P | PTE_W\<close>.
\<close>

definition table_entry :: "u64 \<Rightarrow> u64" where
  "table_entry e = (e AND NOT 0xFFF) OR PTE_U OR PTE_P OR PTE_W"

text \<open>
  The result of \<open>KADDR\<close> is never \<open>NULL\<close>, so the clean-up branch of \<open>pgdir_walk\<close> for a
  \<open>NULL\<close> table address is dead and has no counterpart here.
\<close>

definition pgdir_walk :: "kptr \<Rightarrow> u64 \<Rightarrow> bool \<Rightarrow> kstate \<Rightarrow> kptr option res" where
  "pgdir_walk pgdir va create s =
     (if ld s (elem_ptr pgdir (PDX va)) AND PTE_P \<noteq> 0 then
        bindK (KADDR ((PTE_ADDR (ld s (elem_ptr pgdir (PDX va))) AND NOT 0xFFF) + PTX va * 8) s)
          (\<lambda>ptr_pte s. Inr (Some ptr_pte, s))
      else if create then
        bindK (page_alloc ALLOC_ZERO s) (\<lambda>page s.
          case page of
            None \<Rightarrow> Inr (None, s)
          | Some page \<Rightarrow>
              let s = incref page s;
                  s = st (elem_ptr pgdir (PDX va)) (table_entry (page2pa page)) s
              in bindK (KADDR ((PTE_ADDR (ld s (elem_ptr pgdir (PDX va))) AND NOT 0xFFF)
                                + PTX va * 8) s)
                   (\<lambda>ptr_pte s. Inr (Some ptr_pte, s)))
      else Inr (None, s))"

definition pdpe_walk :: "kptr \<Rightarrow> u64 \<Rightarrow> bool \<Rightarrow> kstate \<Rightarrow> kptr option res" where
  "pdpe_walk pdpe va create s =
     (if ld s pdpe = 0 \<and> \<not> create then Inr (None, s)
      else if ld s (elem_ptr pdpe (PDPE va)) AND PTE_P \<noteq> 0 then
        let s = st (elem_ptr pdpe (PDPE va)) (table_entry (ld s (elem_ptr pdpe (PDPE va)))) s
        in bindK (KADDR (PTE_ADDR (ld s (elem_ptr pdpe (PDPE va)))) s)
             (\<lambda>ptr_pde s. pgdir_walk ptr_pde va create s)
      else if create then
        bindK (page_alloc ALLOC_ZERO s) (\<lambda>page s.
          case page of
            None \<Rightarrow> Inr (None, s)
          | Some page \<Rightarrow>
              let s = incref page s;
                  s = st (elem_ptr pdpe (PDPE va)) (table_entry (page2pa page)) s
              in bindK (KADDR (PTE_ADDR (ld s (elem_ptr pdpe (PDPE va)))) s)
                   (\<lambda>ptr_pde s. pgdir_walk ptr_pde va create s))
      else Inr (None, s))"

definition pml4e_walk :: "kptr \<Rightarrow> u64 \<Rightarrow> bool \<Rightarrow> kstate \<Rightarrow> kptr option res" where
  "pml4e_walk pml4e va create s =
     (if ld s pml4e = 0 \<and> \<not> create then Inr (None, s)
      else if ld s (elem_ptr pml4e (PML4 va)) AND PTE_P \<noteq> 0 then
        bindK (KADDR (PTE_ADDR (ld s (elem_ptr pml4e (PML4 va)))) s)
          (\<lambda>ptr_pdpe s. pdpe_walk ptr_pdpe va create s)
      else if create then
        bindK (page_alloc ALLOC_ZERO s) (\<lambda>page s.
          case page of
            None \<Rightarrow> Inr (None, s)
          | Some page \<Rightarrow>
              let s = incref page s;
                  s = st (elem_ptr pml4e (PML4 va)) (table_entry (page2pa page)) s
              in bindK (KADDR (PTE_ADDR (ld s (elem_ptr pml4e (PML4 va)))) s)
                   (\<lambda>ptr_pdpe s. pdpe_walk ptr_pdpe va create s))
      else Inr (None, s))"

section \<open>Mapping and unmapping\<close>

text \<open>The body of the loop of \<open>boot_map_region\<close>, run \<open>n = size / PGSIZE\<close> times.\<close>

fun boot_map_loop :: "nat \<Rightarrow> kptr \<Rightarrow> u64 \<Rightarrow> u64 \<Rightarrow> u32 \<Rightarrow> kstate \<Rightarrow> unit res" where
  "boot_map_loop 0 pml4e la pa perm s = Inr ((), s)"
| "boot_map_loop (Suc n) pml4e la pa perm s =
     bindK (pml4e_walk pml4e la True s) (\<lambda>ptr_pte s.
     bindK (deref ptr_pte s) (\<lambda>ptr_pte s.
     boot_map_loop n pml4e (la + PGSIZE) (pa + PGSIZE) perm
       (st ptr_pte (pa OR scast perm OR PTE_P) s)))"

definition boot_map_region :: "kptr \<Rightarrow> u64 \<Rightarrow> u64 \<Rightarrow> u64 \<Rightarrow> u32 \<Rightarrow> kstate \<Rightarrow> unit res" where
  "boot_map_region pml4e la sz pa perm s =
     boot_map_loop (unat (sz div PGSIZE)) pml4e la pa perm s"

text \<open>The result carries the page and the address stored through \<open>pte_store\<close>.\<close>

definition page_lookup :: "kptr \<Rightarrow> u64 \<Rightarrow> kstate \<Rightarrow> (nat \<times> kptr) option res" where
  "page_lookup pml4e va s =
     bindK (pml4e_walk pml4e va False s) (\<lambda>ptr_pte s.
       case ptr_pte of
         None \<Rightarrow> Inr (None, s)
       | Some ptr_pte \<Rightarrow>
           if ld s ptr_pte AND PTE_P = 0 then Inr (None, s)
           else bindK (pa2page (PTE_ADDR (ld s ptr_pte)) s) (\<lambda>pp s.
                  Inr (Some (pp, ptr_pte), s)))"

definition tlb_invalidate :: "kptr \<Rightarrow> u64 \<Rightarrow> kstate \<Rightarrow> kstate" where
  "tlb_invalidate pml4e va s =
     (case curenv s of
        None \<Rightarrow> invlpg va s
      | Some e \<Rightarrow> if env_pml4e (envs s e) = Some pml4e then invlpg va s else s)"

text \<open>\<open>page_decref\<close> reads its argument at once, so a \<open>NULL\<close> from \<open>page_lookup\<close> faults.\<close>

definition page_remove :: "kptr \<Rightarrow> u64 \<Rightarrow> kstate \<Rightarrow> unit res" where
  "page_remove pml4e va s =
     bindK (pml4e_walk pml4e va False s) (\<lambda>ptr_pte s.
       case ptr_pte of
         None \<Rightarrow> Inr ((), s)
       | Some ptr_pte \<Rightarrow>
           bindK (page_lookup pml4e va s) (\<lambda>found s.
           bindK (deref found s) (\<lambda>(page, ptr_pte) s.
           bindK (page_decref page s) (\<lambda>_ s.
             let s = st ptr_pte 0 s in
             Inr ((), tlb_invalidate pml4e va s)))))"

definition page_insert :: "kptr \<Rightarrow> nat \<Rightarrow> u64 \<Rightarrow> u32 \<Rightarrow> kstate \<Rightarrow> int res" where
  "page_insert pml4e pp va perm s =
     bindK (pml4e_walk pml4e va True s) (\<lambda>ptr_pte s.
       case ptr_pte of
         None \<Rightarrow> Inr (- E_NO_MEM, s)
       | Some ptr_pte \<Rightarrow>
           bindK (if ld s ptr_pte AND PTE_P \<noteq> 0 then page_remove pml4e va s else Inr ((), s))
             (\<lambda>_ s.
             let s = st ptr_pte (ld s ptr_pte AND NOT 0xFFF) s;
                 s = st ptr_pte (page2pa pp OR scast (perm OR 1)) s;
                 s = incref pp s
             in Inr (0, s)))"

definition mmio_map_region :: "u64 \<Rightarrow> u64 \<Rightarrow> kstate \<Rightarrow> u64 res" where
  "mmio_map_region pa sz s =
     (let pa_rounded = ROUNDDOWN pa PGSIZE;
          size_rounded = ROUNDUP sz PGSIZE
      in if mmio_base s + size_rounded > MMIOLIM then panic ''MMIO no more memory'' s
         else bindK (boot_map_region (boot_pml4e s) (mmio_base s) size_rounded pa_rounded
                       (ucast (PTE_PCD OR PTE_PWT OR PTE_W)) s) (\<lambda>_ s.
           let s = s\<lparr>mmio_base := mmio_base s + size_rounded\<rparr>
           in Inr (mmio_base s - size_rounded, s)))"

section \<open>Checking user memory\<close>

text \<open>
  The address reported when a page inside the range fails: the start of the page, but not
  below \<open>va\<close>.
\<close>

definition fault_addr :: "u64 \<Rightarrow> u64 \<Rightarrow> u64" where
  "fault_addr start va = (if start < va then va else start)"

text \<open>
  The loop of \<open>user_mem_check\<close>; the address advances by whole pages towards \<open>end\<close>, and
  stops before it could wrap because \<open>start \<ge> ULIM\<close> ends the loop.
\<close>

function user_mem_check_loop ::
  "kptr \<Rightarrow> u64 \<Rightarrow> u64 \<Rightarrow> u64 \<Rightarrow> u64 \<Rightarrow> kstate \<Rightarrow> int res" where
  "user_mem_check_loop pml4e va start fin new_perm s =
     (if \<not> start < fin then Inr (0, s)
      else if ULIM \<le> start then Inr (- E_FAULT, s\<lparr>user_mem_check_addr := start\<rparr>)
      else bindK (pml4e_walk pml4e start False s) (\<lambda>ptr_pte s.
        case ptr_pte of
          None \<Rightarrow> Inr (- E_FAULT, s\<lparr>user_mem_check_addr := fault_addr start va\<rparr>)
        | Some ptr_pte \<Rightarrow>
            if ld s ptr_pte AND new_perm \<noteq> new_perm then
              Inr (- E_FAULT, s\<lparr>user_mem_check_addr := fault_addr start va\<rparr>)
            else user_mem_check_loop pml4e va (start + PGSIZE) fin new_perm s))"
  by pat_completeness auto
termination
proof (relation "measure (\<lambda>(pml4e, va, start, fin, new_perm, s). 2 ^ 64 - unat start)", goal_cases)
  case 1
  then show ?case by simp
next
  case (2 pml4e va start fin new_perm s)
  then have "unat start < unat ULIM" by (simp add: word_less_nat_alt not_le)
  then have "unat start + 4096 < 2 ^ 64" by (simp add: mmu_defs)
  then have "unat (start + PGSIZE) = unat start + 4096"
    by (simp add: mmu_defs unat_word_ariths)
  then show ?case using \<open>unat start + 4096 < 2 ^ 64\<close> by simp
qed

declare user_mem_check_loop.simps [simp del]

text \<open>
  \<open>env->env_pml4e\<close> is \<open>NULL\<close> for an environment that was freed: the walk then reads
  through a null pointer.
\<close>

definition user_mem_check :: "nat \<Rightarrow> u64 \<Rightarrow> u64 \<Rightarrow> u32 \<Rightarrow> kstate \<Rightarrow> int res" where
  "user_mem_check env va len perm s =
     (let new_perm = scast (perm OR 1) :: u64;
          fin = ROUNDUP (va + len) PGSIZE;
          start = ROUNDDOWN va PGSIZE
      in if \<not> start < fin then Inr (0, s)
         else if ULIM \<le> start then Inr (- E_FAULT, s\<lparr>user_mem_check_addr := start\<rparr>)
         else bindK (deref (env_pml4e (envs s env)) s) (\<lambda>pml4e s.
              user_mem_check_loop pml4e va start fin new_perm s))"

section \<open>The hardware's view of the tables\<close>

definition nxt :: "kstate \<Rightarrow> nat \<Rightarrow> nat \<Rightarrow> nat option" where
  "nxt s p i = (if bit (mem s p i) 0 then Some (unat (PPN (mem s p i))) else None)"

fun walk :: "kstate \<Rightarrow> nat \<Rightarrow> nat list \<Rightarrow> nat option" where
  "walk s p [] = Some p"
| "walk s p (i # is) = (case nxt s p i of None \<Rightarrow> None | Some q \<Rightarrow> walk s q is)"

text \<open>The present entry found below page \<open>p\<close> by the given indices.\<close>

fun leaf :: "kstate \<Rightarrow> nat \<Rightarrow> nat list \<Rightarrow> u64 option" where
  "leaf s p [] = None"
| "leaf s p [d] = (if bit (mem s p d) 0 then Some (mem s p d) else None)"
| "leaf s p (i # is) = (case nxt s p i of None \<Rightarrow> None | Some q \<Rightarrow> leaf s q is)"

definition tbl_idx :: "u64 \<Rightarrow> nat list" where
  "tbl_idx va = [unat (PML4 va), unat (PDPE va), unat (PDX va)]"

definition pidx :: "u64 \<Rightarrow> nat list" where
  "pidx va = tbl_idx va @ [unat (PTX va)]"

definition mapping :: "kstate \<Rightarrow> nat \<Rightarrow> u64 \<Rightarrow> u64 option" where
  "mapping s r va = leaf s r (pidx va)"

lemma leaf_walk: "walk s p is = Some t \<Longrightarrow> leaf s p (is @ [d]) = leaf s t [d]"
proof (induction "is" arbitrary: p)
  case Nil
  then show ?case by simp
next
  case (Cons i "is")
  then show ?case by (cases "is") (auto split: option.splits)
qed

lemma leaf_walk_None: "walk s p is = None \<Longrightarrow> leaf s p (is @ [d]) = None"
proof (induction "is" arbitrary: p)
  case Nil
  then show ?case by simp
next
  case (Cons i "is")
  then show ?case by (cases "is") (auto split: option.splits)
qed

lemma leaf_Cons: "is \<noteq> [] \<Longrightarrow> leaf s p (i # is) = (case nxt s p i of None \<Rightarrow> None | Some q \<Rightarrow> leaf s q is)"
  by (cases "is") auto

section \<open>Ownership of table pages\<close>

text \<open>
  An owner map gives a table page its root and the indices leading to it. Only the slots
  \<open>sl r\<close> of the root \<open>r\<close> are claimed: an environment's top-level table also holds the
  kernel's slot, which it shares with \<open>boot_pml4e\<close>, and the self map at \<open>UVPT\<close>.
\<close>

type_synonym owner = "nat \<Rightarrow> (nat \<times> nat list) option"

definition slot_ok :: "(nat \<Rightarrow> nat set) \<Rightarrow> nat \<Rightarrow> nat list \<Rightarrow> nat \<Rightarrow> bool" where
  "slot_ok sl r is i \<longleftrightarrow> i < 512 \<and> length is < 3 \<and> (is = [] \<longrightarrow> i \<in> sl r)"

definition pt_wf :: "(nat \<Rightarrow> nat set) \<Rightarrow> owner \<Rightarrow> kstate \<Rightarrow> nat list \<Rightarrow> bool" where
  "pt_wf sl ow s fl \<longleftrightarrow> alloc_inv s fl \<and>
     (\<forall>p r is. ow p = Some (r, is) \<longrightarrow>
        p < npages s \<and> p \<notin> set fl \<and> length is \<le> 3 \<and>
        (\<forall>i q. slot_ok sl r is i \<longrightarrow> nxt s p i = Some q \<longrightarrow> ow q = Some (r, is @ [i])))"

lemma pt_wfD:
  assumes "pt_wf sl ow s fl"
  shows "alloc_inv s fl"
    and "ow p = Some (r, is) \<Longrightarrow> p < npages s"
    and "ow p = Some (r, is) \<Longrightarrow> p \<notin> set fl"
    and "ow p = Some (r, is) \<Longrightarrow> length is \<le> 3"
    and "ow p = Some (r, is) \<Longrightarrow> slot_ok sl r is i \<Longrightarrow> nxt s p i = Some q \<Longrightarrow> ow q = Some (r, is @ [i])"
  using assms unfolding pt_wf_def by blast+

lemma pt_wf_npages: "pt_wf sl ow s fl \<Longrightarrow> npages s \<le> 2 ^ 32"
  using pt_wfD(1) alloc_invD(2) by blast

text \<open>
  What a walk may do to the state: it takes a prefix \<open>ys\<close> of the free list for new
  tables, with one reference each, and changes no mapping of any root.
\<close>

definition same_leaves :: "(nat \<Rightarrow> nat set) \<Rightarrow> owner \<Rightarrow> kstate \<Rightarrow> kstate \<Rightarrow> bool" where
  "same_leaves sl ow s s' \<longleftrightarrow>
     (\<forall>p r is js. ow p = Some (r, is) \<longrightarrow> length (is @ js) = 4 \<longrightarrow> (\<forall>j \<in> set js. j < 512) \<longrightarrow>
        (is = [] \<longrightarrow> hd js \<in> sl r) \<longrightarrow> leaf s' p js = leaf s p js)"

definition keeps_links :: "owner \<Rightarrow> kstate \<Rightarrow> kstate \<Rightarrow> bool" where
  "keeps_links ow s s' \<longleftrightarrow>
     (\<forall>p z i q. ow p = Some z \<longrightarrow> nxt s p i = Some q \<longrightarrow> nxt s' p i = Some q) \<and>
     (\<forall>p z i. ow p = Some z \<longrightarrow> mem s p i \<noteq> 0 \<longrightarrow> mem s' p i \<noteq> 0)"

definition takes :: "owner \<Rightarrow> kstate \<Rightarrow> owner \<Rightarrow> kstate \<Rightarrow> nat list \<Rightarrow> bool" where
  "takes ow s ow' s' ys \<longleftrightarrow>
     (\<forall>q. q \<notin> set ys \<longrightarrow> pages s' q = pages s q \<and> ow' q = ow q \<and>
            (ow q = None \<longrightarrow> mem s' q = mem s q)) \<and>
     (\<forall>q \<in> set ys. pp_ref (pages s' q) = 1)"

definition only_mm :: "kstate \<Rightarrow> kstate \<Rightarrow> bool" where
  "only_mm s s' \<longleftrightarrow>
     s' = s\<lparr>pages := pages s', page_free_list := page_free_list s', mem := mem s'\<rparr>"

definition extends :: "(nat \<Rightarrow> nat set) \<Rightarrow> owner \<Rightarrow> kstate \<Rightarrow> nat list \<Rightarrow>
    owner \<Rightarrow> kstate \<Rightarrow> nat list \<Rightarrow> bool" where
  "extends sl ow s fl ow' s' fl' \<longleftrightarrow>
     pt_wf sl ow' s' fl' \<and> ow \<subseteq>\<^sub>m ow' \<and> (\<exists>ys. fl = ys @ fl' \<and> takes ow s ow' s' ys) \<and>
     same_leaves sl ow s s' \<and> keeps_links ow s s' \<and> only_mm s s'"

lemma only_mm_refl: "only_mm s s"
  by (simp add: only_mm_def)

lemma only_mm_trans: "only_mm s s1 \<Longrightarrow> only_mm s1 s2 \<Longrightarrow> only_mm s s2"
  unfolding only_mm_def
  by (cases s; cases s1; cases s2) simp

lemma only_mm_fields:
  assumes "only_mm s s'"
  shows "npages s' = npages s" "envs s' = envs s" "cpus s' = cpus s" "cpu s' = cpu s"
    "boot_pml4e s' = boot_pml4e s" "invlpgs s' = invlpgs s" "env_free_list s' = env_free_list s"
    "boot_cr3 s' = boot_cr3 s" "mmio_base s' = mmio_base s" "curenv s' = curenv s"
    "user_mem_check_addr s' = user_mem_check_addr s" "klog s' = klog s" "cr3 s' = cr3 s"
    "kernel_lock s' = kernel_lock s"
  using assms unfolding only_mm_def curenv_def by (cases s; cases s'; simp)+

lemma extends_refl: "pt_wf sl ow s fl \<Longrightarrow> extends sl ow s fl ow s fl"
  by (simp add: extends_def same_leaves_def keeps_links_def takes_def only_mm_refl)

lemma extends_trans:
  assumes wf: "pt_wf sl ow s fl"
    and e1: "extends sl ow s fl ow1 s1 fl1" and e2: "extends sl ow1 s1 fl1 ow2 s2 fl2"
  shows "extends sl ow s fl ow2 s2 fl2"
proof -
  have le: "ow \<subseteq>\<^sub>m ow1" "ow1 \<subseteq>\<^sub>m ow2" using e1 e2 by (simp_all add: extends_def)
  have ow1: "ow1 p = Some z" if "ow p = Some z" for p z
    using that le(1) by (metis domI map_le_def)
  from e1 e2 obtain ys1 ys2 where ys: "fl = ys1 @ fl1" "takes ow s ow1 s1 ys1"
      "fl1 = ys2 @ fl2" "takes ow1 s1 ow2 s2 ys2"
    unfolding extends_def by blast
  have disj: "set ys1 \<inter> set ys2 = {}"
    using alloc_invD(3) [OF pt_wfD(1) [OF wf]] ys(1,3) by auto
  have "takes ow s ow2 s2 (ys1 @ ys2)"
    unfolding takes_def
  proof (intro conjI allI ballI impI)
    fix q assume "q \<notin> set (ys1 @ ys2)"
    with ys(2,4) show "pages s2 q = pages s q" "ow2 q = ow q" "ow q = None \<Longrightarrow> mem s2 q = mem s q"
      by (auto simp: takes_def)
  next
    fix q assume "q \<in> set (ys1 @ ys2)"
    with disj consider "q \<in> set ys2" | "q \<in> set ys1" "q \<notin> set ys2" by auto
    then show "pp_ref (pages s2 q) = 1" using ys(2,4) by cases (auto simp: takes_def)
  qed
  moreover have "same_leaves sl ow s s2"
    unfolding same_leaves_def
  proof (intro allI impI)
    fix p r "is" js assume a: "ow p = Some (r, is)" "length (is @ js) = 4" "\<forall>j\<in>set js. j < 512"
      "is = [] \<longrightarrow> hd js \<in> sl r"
    from e1 a have "leaf s1 p js = leaf s p js" unfolding extends_def same_leaves_def by blast
    moreover from e2 a ow1 [OF a(1)] have "leaf s2 p js = leaf s1 p js"
      unfolding extends_def same_leaves_def by blast
    ultimately show "leaf s2 p js = leaf s p js" by simp
  qed
  moreover have "keeps_links ow s s2"
    using e1 e2 ow1 unfolding extends_def keeps_links_def by blast
  moreover have "only_mm s s2"
    using e1 e2 only_mm_trans unfolding extends_def by blast
  moreover have "pt_wf sl ow2 s2 fl2" using e2 by (simp add: extends_def)
  ultimately show ?thesis
    unfolding extends_def using map_le_trans [OF le] ys(1,3) by (metis append_assoc)
qed

lemma extendsD:
  assumes "extends sl ow s fl ow' s' fl'"
  shows "pt_wf sl ow' s' fl'" "only_mm s s'" "\<exists>ys. fl = ys @ fl'"
    and "ow p = Some z \<Longrightarrow> ow' p = Some z"
    and "ow p = Some z \<Longrightarrow> nxt s p i = Some q \<Longrightarrow> nxt s' p i = Some q"
    and "ow p = Some (r, is) \<Longrightarrow> length (is @ js) = 4 \<Longrightarrow> \<forall>j \<in> set js. j < 512 \<Longrightarrow>
           is = [] \<longrightarrow> hd js \<in> sl r \<Longrightarrow> leaf s' p js = leaf s p js"
    and "ow p = Some z \<Longrightarrow> mem s p i \<noteq> 0 \<Longrightarrow> mem s' p i \<noteq> 0"
  using assms unfolding extends_def keeps_links_def same_leaves_def
  by (blast, blast, blast, metis domI map_le_def, blast, blast, blast)

section \<open>Entries\<close>

lemma page2pa_page_addr: "page2pa = page_addr"
  by (simp add: fun_eq_iff page2pa_def page_addr_def)

lemma table_flags_bits: "bit (PTE_U OR PTE_P OR PTE_W) 0" "take_bit 12 (PTE_U OR PTE_P OR PTE_W) = PTE_U OR PTE_P OR PTE_W"
  by (simp_all add: mmu_defs bit_simps)

lemma bit_table_entry [simp]: "bit (table_entry e) 0"
  using table_flags_bits(1) by (simp add: table_entry_def bit_simps)

lemma PPN_or_small: "take_bit 12 f = f \<Longrightarrow> PPN (e OR f) = PPN e"
proof -
  assume f: "take_bit 12 f = f"
  have "PPN (e OR take_bit 12 f) = PPN e"
    unfolding PPN_def by (rule bit_word_eqI) (auto simp: bit_simps)
  with f show ?thesis by simp
qed

lemma PPN_table_entry [simp]: "PPN (table_entry e) = PPN e"
  unfolding table_entry_def or.assoc PTE_ADDR_def [symmetric]
  using PPN_or_small [OF table_flags_bits(2), of "PTE_ADDR e"] by (simp only: PPN_PTE_ADDR)

lemma nxt_st:
  "nxt (st (p, i) v s) q j = (if q = p \<and> j = i then
     (if bit v 0 then Some (unat (PPN v)) else None) else nxt s q j)"
  by (simp add: nxt_def st_def)

lemma nxt_cong: "mem s' p = mem s p \<Longrightarrow> nxt s' p = nxt s p"
  by (simp add: nxt_def fun_eq_iff)

lemma unat_PTE_ADDR: "unat (PTE_ADDR e) = unat (PPN e) * 4096"
proof -
  have "unat (PPN e) < 2 ^ 52"
    using unsigned_less [of e, where 'a = nat] by (simp add: unat_PPN)
  then show ?thesis
    using unat_push_bit_12 [of "unat (PPN e)"] by (simp add: PTE_ADDR_PPN)
qed

lemma KADDR_table:
  assumes "npages s \<le> 2 ^ 32" "unat (PPN e) < npages s"
  shows "KADDR (PTE_ADDR e) s = Inr ((unat (PPN e), 0), s)"
  using assms by (simp add: KADDR_in_range unat_PGOFF unat_PTE_ADDR)

lemma KADDR_pte:
  assumes np: "npages s \<le> 2 ^ 32" and e: "unat (PPN e) < npages s"
  shows "KADDR ((PTE_ADDR e AND NOT 0xFFF) + PTX va * 8) s = Inr ((unat (PPN e), unat (PTX va)), s)"
proof -
  let ?a = "PTE_ADDR e + PTX va * 8"
  have x: "unat (PTX va * 8) = unat (PTX va) * 8"
  proof -
    have "unat (PTX va) * 8 < 18446744073709551616" using index_less_512(4) [of va] by linarith
    then show ?thesis by (simp add: unat_word_ariths)
  qed
  have "unat ?a = unat (PPN e) * 4096 + unat (PTX va) * 8"
  proof -
    have "unat (PPN e) * 4096 + unat (PTX va) * 8 < 2 ^ 64"
    proof -
      have "unat (PPN e) < 4294967296" using np e by simp
      moreover have "unat (PTX va) < 512" by simp
      ultimately show ?thesis by (simp del: index_less_512)
    qed
    with x show ?thesis by (simp add: unat_word_ariths unat_PTE_ADDR)
  qed
  moreover have "(x * 4096 + y * 8) div 4096 = x" "(x * 4096 + y * 8) mod 4096 div 8 = y"
    if "y < 512" for x y :: nat using that by auto
  ultimately have "unat (PPN ?a) = unat (PPN e)" "unat (PGOFF ?a) div 8 = unat (PTX va)"
    by (simp_all add: unat_PPN [of ?a] unat_PGOFF)
  moreover have "PTE_ADDR e AND NOT 0xFFF = PTE_ADDR e"
    using PTE_ADDR_PTE_ADDR by (simp add: PTE_ADDR_def)
  ultimately show ?thesis
    using KADDR_in_range [OF np, of ?a] e by simp
qed

section \<open>One level of a walk\<close>

lemma nxt_in_range:
  assumes "pt_wf sl ow s fl" "ow p = Some (r, is)" "slot_ok sl r is i" "nxt s p i = Some q"
  shows "q < npages s" "ow q = Some (r, is @ [i])" "unat (PPN (mem s p i)) = q" "bit (mem s p i) 0"
  using pt_wfD(5) [OF assms] pt_wfD(2) [OF assms(1)] assms(4)
  by (auto simp: nxt_def split: if_splits)

text \<open>Rewriting the flags of a present entry, as \<open>pdpe_walk\<close> does.\<close>

lemma rewrite_entry:
  assumes wf: "pt_wf sl ow s fl" and p: "ow p = Some (r, is)" "length is < 3"
    and q: "nxt s p i = Some q"
  defines "s' \<equiv> st (p, i) (table_entry (mem s p i)) s"
  shows "extends sl ow s fl ow s' fl" and "nxt s' p i = Some q"
proof -
  have nx: "nxt s' q' j = nxt s q' j" for q' j
    using q unfolding s'_def nxt_st by (auto simp: nxt_def split: if_splits)
  then show "nxt s' p i = Some q" using q by simp
  have wf': "pt_wf sl ow s' fl"
  proof -
    have "npages s' = npages s" "alloc_inv s' fl = alloc_inv s fl"
      by (simp_all add: s'_def) (simp add: st_def)
    then show ?thesis using wf nx unfolding pt_wf_def by simp
  qed
  have lf: "leaf s' a js = leaf s a js"
    if "ow a = Some (r', ks)" "length (ks @ js) = 4" "\<forall>j \<in> set js. j < 512" "ks = [] \<longrightarrow> hd js \<in> sl r'"
    for a r' ks js
    using that
  proof (induction js arbitrary: a ks)
    case Nil
    then show ?case by simp
  next
    case (Cons j js)
    show ?case
    proof (cases "js = []")
      case True
      with Cons.prems have "length ks = 3" by simp
      with p Cons.prems(1) have "a \<noteq> p" by auto
      with True show ?thesis by (simp add: s'_def st_def)
    next
      case False
      have "slot_ok sl r' ks j" using Cons.prems False by (cases js) (auto simp: slot_ok_def)
      then have "ow b = Some (r', ks @ [j])" if "nxt s a j = Some b" for b
        using pt_wfD(5) [OF wf Cons.prems(1)] that by blast
      with Cons False show ?thesis
        by (simp add: leaf_Cons nx split: option.splits)
    qed
  qed
  have "only_mm s s'" by (simp add: only_mm_def s'_def st_def)
  moreover have "takes ow s ow s' []" using p by (auto simp: takes_def s'_def st_def)
  moreover have "same_leaves sl ow s s'" using lf unfolding same_leaves_def by blast
  moreover have "mem s' a j \<noteq> 0" if "mem s a j \<noteq> 0" for a j
    using that bit_table_entry [of "mem s p i"] by (auto simp: s'_def st_def simp del: bit_table_entry)
  then have "keeps_links ow s s'" using nx by (simp add: keeps_links_def)
  ultimately show "extends sl ow s fl ow s' fl" using wf' by (simp add: extends_def)
qed

text \<open>Hanging a fresh, zeroed page into an empty entry.\<close>

definition hang :: "nat \<Rightarrow> nat \<Rightarrow> nat \<Rightarrow> kstate \<Rightarrow> kstate" where
  "hang p i x s = st (p, i) (table_entry (page2pa x)) (incref x (taken True x s))"

lemma hang_simps:
  "npages (hang p i x s) = npages s"
  "mem (hang p i x s) =
     (let m = (mem s)(x := (\<lambda>_. 0)) in m(p := (m p)(i := table_entry (page2pa x))))"
  "pages (hang p i x s) = (pages s)(x := (pages s x)\<lparr>pp_link := None, pp_ref := pp_ref (pages s x) + 1\<rparr>)"
  by (simp_all add: hang_def kstate_defs taken_def Let_def)

lemma hang_entry:
  assumes wf: "pt_wf sl ow s (x # xs)" and p: "ow p = Some (r, is)" "slot_ok sl r is i"
    and q: "nxt s p i = None"
  defines "ow' \<equiv> ow(x := Some (r, is @ [i]))"
  shows "extends sl ow s (x # xs) ow' (hang p i x s) xs" and "nxt (hang p i x s) p i = Some x"
    and "ow' x = Some (r, is @ [i])"
proof -
  let ?s = "hang p i x s"
  note inv = pt_wfD(1) [OF wf]
  have x: "x < npages s" "x \<notin> set xs" "pp_ref (pages s x) = 0" "npages s \<le> 2 ^ 32"
    using alloc_invD [OF inv] by simp_all
  have px: "p \<noteq> x" "ow x = None"
    using pt_wfD(3) [OF wf] p by (auto, metis not_Some_eq surj_pair)
  have PPNx: "unat (PPN (page2pa x)) = x"
    using x by (simp add: unat_PPN_page2pa page_number_bound)
  then show nxp: "nxt ?s p i = Some x"
    by (simp add: nxt_def hang_simps Let_def)
  have nx: "nxt ?s a j = nxt s a j" if "a \<noteq> x" "\<not> (a = p \<and> j = i)" for a j
    using that by (auto simp: nxt_def hang_simps Let_def)
  have nxx: "nxt ?s x j = None" for j
    using px by (simp add: nxt_def hang_simps Let_def)
  have "alloc_inv (taken True x s) xs" using inv by (rule alloc_inv_taken)
  then have inv': "alloc_inv ?s xs"
    using x(2) by (simp add: hang_def incref_def alloc_inv_set_pp_ref)
  have wf': "pt_wf sl ow' ?s xs"
    unfolding pt_wf_def
  proof (intro conjI allI impI inv')
    fix a r' ks assume a: "ow' a = Some (r', ks)"
    show "a < npages ?s" "a \<notin> set xs" "length ks \<le> 3"
      using a x p pt_wfD(2,3,4) [OF wf]
      by (fastforce simp: ow'_def hang_simps slot_ok_def split: if_splits)+
    fix j b assume j: "slot_ok sl r' ks j" "nxt ?s a j = Some b"
    then have "a \<noteq> x" using nxx by auto
    with a have oa: "ow a = Some (r', ks)" by (simp add: ow'_def)
    show "ow' b = Some (r', ks @ [j])"
    proof (cases "a = p \<and> j = i")
      case True
      with j nxp oa p show ?thesis by (simp add: ow'_def)
    next
      case False
      with j nx \<open>a \<noteq> x\<close> have "nxt s a j = Some b" by simp
      from pt_wfD(5) [OF wf oa j(1) this] px show ?thesis by (auto simp: ow'_def)
    qed
  qed
  have lf: "leaf ?s a js = leaf s a js"
    if "ow a = Some (r', ks)" "length (ks @ js) = 4" "\<forall>j \<in> set js. j < 512" "ks = [] \<longrightarrow> hd js \<in> sl r'"
    for a r' ks js
    using that
  proof (induction js arbitrary: a ks)
    case Nil
    then show ?case by simp
  next
    case (Cons j js)
    have ax: "a \<noteq> x" using Cons.prems(1) px by auto
    show ?case
    proof (cases "js = []")
      case True
      with Cons.prems p have "a \<noteq> p" by (auto simp: slot_ok_def)
      with ax True show ?thesis by (simp add: hang_simps Let_def)
    next
      case False
      note js = False
      have ok: "slot_ok sl r' ks j" using Cons.prems False by (cases js) (auto simp: slot_ok_def)
      show ?thesis
      proof (cases "a = p \<and> j = i")
        case True
        have "leaf ?s x js = None"
        proof (cases js)
          case (Cons k ks')
          with px nxx show ?thesis by (cases ks') (simp_all add: hang_simps Let_def)
        qed (use js in simp)
        with True js q nxp show ?thesis by (simp add: leaf_Cons)
      next
        case False
        have "ow b = Some (r', ks @ [j])" if "nxt s a j = Some b" for b
          using pt_wfD(5) [OF wf Cons.prems(1) ok] that by blast
        with Cons False js nx [OF ax] show ?thesis
          by (simp add: leaf_Cons split: option.splits)
      qed
    qed
  qed
  have "only_mm s ?s" by (simp add: only_mm_def hang_def kstate_defs taken_def)
  moreover have "takes ow s ow' ?s [x]"
    using p x by (auto simp: takes_def hang_simps ow'_def Let_def)
  moreover have "same_leaves sl ow s ?s" using lf unfolding same_leaves_def by blast
  moreover have "keeps_links ow s ?s"
    unfolding keeps_links_def
  proof (intro allI impI conjI)
    show "mem ?s a j \<noteq> 0" if "ow a = Some z" "mem s a j \<noteq> 0" for a z j
      using that px bit_table_entry [of "page2pa x"]
      by (auto simp: hang_simps Let_def simp del: bit_table_entry)
    fix a z j b assume a: "ow a = Some z" "nxt s a j = Some b"
    with q px have "a \<noteq> x" "\<not> (a = p \<and> j = i)" by auto
    from nx [OF this] a(2) show "nxt ?s a j = Some b" by simp
  qed
  moreover have "ow \<subseteq>\<^sub>m ow'" using px by (auto simp: ow'_def map_le_def)
  ultimately show "extends sl ow s (x # xs) ow' ?s xs"
    using wf' unfolding extends_def by (intro conjI exI [of _ "[x]"]) simp_all
  show "ow' x = Some (r, is @ [i])" by (simp add: ow'_def)
qed

section \<open>The walkers create what is missing\<close>

text \<open>
  The outcome of a creating walk below page \<open>p\<close>: either the entry's address, or \<open>NULL\<close>
  when fewer than \<open>n\<close> pages were free.
\<close>

definition walk_post :: "nat \<Rightarrow> (nat \<Rightarrow> nat set) \<Rightarrow> owner \<Rightarrow> kstate \<Rightarrow> nat list \<Rightarrow> nat \<Rightarrow>
    (nat \<times> nat list) \<Rightarrow> nat list \<Rightarrow> nat \<Rightarrow> kptr option res \<Rightarrow> bool" where
  "walk_post n sl ow s fl p own is d res \<longleftrightarrow>
     (\<exists>ptr ow' s' fl'. res = Inr (ptr, s') \<and> extends sl ow s fl ow' s' fl' \<and>
        length fl \<le> length fl' + n \<and>
        (case ptr of
           None \<Rightarrow> length fl < n \<and> fl' = []
         | Some a \<Rightarrow> \<exists>t. a = (t, d) \<and> walk s' p is = Some t \<and>
                       ow' t = Some (fst own, snd own @ is)))"

lemma walk_post_none:
  "pt_wf sl ow s [] \<Longrightarrow> walk_post (Suc n) sl ow s [] p own js d (Inr (None, s))"
  using extends_refl unfolding walk_post_def by force

lemma walk_post_some:
  assumes "extends sl ow s fl ow' s' fl'" "length fl \<le> length fl' + n" "walk s' p is = Some t"
    "ow' t = Some (r, js @ is)"
  shows "walk_post n sl ow s fl p (r, js) is d (Inr (Some (t, d), s'))"
  unfolding walk_post_def fst_conv snd_conv using assms
  by (intro exI [of _ "Some (t, d)"] exI [of _ ow'] exI [of _ s'] exI [of _ fl']) simp

lemma ld_elem [simp]: "ld s (elem_ptr (p, 0) i) = mem s p (unat i)"
  by (simp add: kstate_defs)

lemma st_elem [simp]: "st (elem_ptr (p, 0) i) = st (p, unat i)"
  by (simp add: elem_ptr_def)

lemma ld_pair [simp]: "ld s (p, i) = mem s p i"
  by (simp add: ld_def)

lemma ld_st_same [simp]: "mem (st (p, i) v s) p i = v"
  by (simp add: st_def)

lemma present_nxt: "mem s p i AND PTE_P \<noteq> 0 \<longleftrightarrow> nxt s p i \<noteq> None"
  by (simp add: PTE_P_bit nxt_def)

lemma pgdir_walk_create:
  assumes wf: "pt_wf sl ow s fl" and p: "ow p = Some (r, is)" "slot_ok sl r is (unat (PDX va))"
  shows "walk_post 1 sl ow s fl p (r, is) [unat (PDX va)] (unat (PTX va)) (pgdir_walk (p, 0) va True s)"
proof (cases "nxt s p (unat (PDX va))")
  case (Some q)
  note q = nxt_in_range [OF wf p Some]
  have "pgdir_walk (p, 0) va True s = Inr (Some (q, unat (PTX va)), s)"
    using KADDR_pte [OF pt_wf_npages [OF wf], of "mem s p (unat (PDX va))" va] q
    by (simp add: pgdir_walk_def PTE_P_bit)
  then show ?thesis
    using extends_refl [OF wf] Some q by (simp add: walk_post_some)
next
  case None
  show ?thesis
  proof (cases fl)
    case Nil
    with wf None have "pgdir_walk (p, 0) va True s = Inr (None, s)"
      using page_alloc_empty [of s ALLOC_ZERO] pt_wfD(1) [OF wf]
      by (simp add: pgdir_walk_def present_nxt)
    then show ?thesis
      using wf Nil walk_post_none [of sl ow s 0] by simp
  next
    case (Cons x xs)
    note h = hang_entry [OF wf [unfolded Cons] p None]
    have x: "x < npages s" "npages s \<le> 2 ^ 32"
      using alloc_invD [OF pt_wfD(1) [OF wf]] Cons by simp_all
    have "pgdir_walk (p, 0) va True s = Inr (Some (x, unat (PTX va)), hang p (unat (PDX va)) x s)"
      using None page_alloc_cons [of s x xs ALLOC_ZERO] pt_wfD(1) [OF wf] Cons x
        KADDR_pte [of "hang p (unat (PDX va)) x s" "table_entry (page2pa x)" va]
      by (simp add: pgdir_walk_def present_nxt Let_def hang_simps unat_PPN_page2pa page_number_bound
          ALLOC_ZERO_def flip: hang_def)
    with h Cons show ?thesis
      by (simp add: walk_post_some)
  qed
qed

lemma walk_post_step:
  assumes wf: "pt_wf sl ow s fl" and e1: "extends sl ow s fl ow1 s1 fl1"
    and p: "ow p = Some (r, is)" "nxt s1 p i = Some q" and len: "length fl \<le> Suc (length fl1)"
    and post: "walk_post n sl ow1 s1 fl1 q (r, is @ [i]) js d res"
  shows "walk_post (Suc n) sl ow s fl p (r, is) (i # js) d res"
proof -
  from post obtain ptr ow' s' fl' where res: "res = Inr (ptr, s')"
    and e2: "extends sl ow1 s1 fl1 ow' s' fl'" and len': "length fl1 \<le> length fl' + n"
    and out: "case ptr of None \<Rightarrow> length fl1 < n \<and> fl' = []
       | Some a \<Rightarrow> \<exists>t. a = (t, d) \<and> walk s' q js = Some t \<and> ow' t = Some (r, (is @ [i]) @ js)"
    unfolding walk_post_def fst_conv snd_conv by blast
  have "nxt s' p i = Some q" using extendsD(5) [OF e2] extendsD(4) [OF e1] p by blast
  with out len have "case ptr of None \<Rightarrow> length fl < Suc n \<and> fl' = []
       | Some a \<Rightarrow> \<exists>t. a = (t, d) \<and> walk s' p (i # js) = Some t \<and> ow' t = Some (r, is @ i # js)"
    by (auto split: option.splits)
  then show ?thesis
    unfolding walk_post_def fst_conv snd_conv using res extends_trans [OF wf e1 e2] len len'
    by (intro exI conjI) (assumption | simp)+
qed

lemma pdpe_walk_create:
  assumes wf: "pt_wf sl ow s fl" and p: "ow p = Some (r, [a])" "slot_ok sl r [a] (unat (PDPE va))"
  shows "walk_post 2 sl ow s fl p (r, [a]) [unat (PDPE va), unat (PDX va)] (unat (PTX va))
           (pdpe_walk (p, 0) va True s)"
proof (cases "nxt s p (unat (PDPE va))")
  case (Some q)
  let ?s = "st (p, unat (PDPE va)) (table_entry (mem s p (unat (PDPE va)))) s"
  note q = nxt_in_range [OF wf p Some]
  have ext: "extends sl ow s fl ow ?s fl" and nx: "nxt ?s p (unat (PDPE va)) = Some q"
    using rewrite_entry [OF wf p(1) _ Some] by simp_all
  note wf' = extendsD(1) [OF ext]
  have k: "KADDR (PTE_ADDR (table_entry (mem s p (unat (PDPE va))))) ?s = Inr ((q, 0), ?s)"
    using KADDR_table [of ?s "table_entry (mem s p (unat (PDPE va)))"] q pt_wf_npages [OF wf']
    by (simp add: only_mm_fields(1) [OF extendsD(2) [OF ext]])
  have "pdpe_walk (p, 0) va True s = pgdir_walk (q, 0) va True ?s"
    using q k by (simp add: pdpe_walk_def PTE_P_bit Let_def)
  moreover have "walk_post 1 sl ow ?s fl q (r, [a] @ [unat (PDPE va)]) [unat (PDX va)] (unat (PTX va))
      (pgdir_walk (q, 0) va True ?s)"
    using q by (intro pgdir_walk_create [OF wf']) (auto simp: slot_ok_def)
  ultimately show ?thesis
    using walk_post_step [OF wf ext p(1) nx] by (simp add: numeral_2_eq_2)
next
  case None
  show ?thesis
  proof (cases fl)
    case Nil
    with wf None have "pdpe_walk (p, 0) va True s = Inr (None, s)"
      using page_alloc_empty [of s ALLOC_ZERO] pt_wfD(1) [OF wf]
      by (simp add: pdpe_walk_def present_nxt)
    with wf Nil show ?thesis by (simp add: walk_post_none numeral_2_eq_2)
  next
    case (Cons x xs)
    let ?s = "hang p (unat (PDPE va)) x s"
    let ?ow = "ow(x := Some (r, [a] @ [unat (PDPE va)]))"
    note h = hang_entry [OF wf [unfolded Cons] p None]
    note wf' = extendsD(1) [OF h(1)]
    have x: "x < npages s" "npages s \<le> 2 ^ 32"
      using alloc_invD [OF pt_wfD(1) [OF wf]] Cons by simp_all
    have "pdpe_walk (p, 0) va True s = pgdir_walk (x, 0) va True ?s"
      using None page_alloc_cons [OF pt_wfD(1) [OF wf [unfolded Cons]], of ALLOC_ZERO] x
        KADDR_table [of ?s "table_entry (page2pa x)"]
      by (simp add: pdpe_walk_def present_nxt hang_simps Let_def unat_PPN_page2pa page_number_bound
          ALLOC_ZERO_def flip: hang_def)
    moreover have "walk_post 1 sl ?ow ?s xs x (r, [a] @ [unat (PDPE va)]) [unat (PDX va)] (unat (PTX va))
        (pgdir_walk (x, 0) va True ?s)"
      using h(3) by (intro pgdir_walk_create [OF wf']) (auto simp: slot_ok_def)
    ultimately show ?thesis
      using walk_post_step [OF wf [unfolded Cons] h(1) p(1) h(2)] Cons by (simp add: numeral_2_eq_2)
  qed
qed

lemma pml4e_walk_create:
  assumes wf: "pt_wf sl ow s fl" and p: "ow r = Some (r, [])" "unat (PML4 va) \<in> sl r"
  shows "walk_post 3 sl ow s fl r (r, []) (tbl_idx va) (unat (PTX va)) (pml4e_walk (r, 0) va True s)"
proof -
  have ok: "slot_ok sl r [] (unat (PML4 va))" using p(2) by (simp add: slot_ok_def)
  show ?thesis
  proof (cases "nxt s r (unat (PML4 va))")
    case (Some q)
    note q = nxt_in_range [OF wf p(1) ok Some]
    have k: "KADDR (PTE_ADDR (mem s r (unat (PML4 va)))) s = Inr ((q, 0), s)"
      using KADDR_table [of s "mem s r (unat (PML4 va))"] q pt_wf_npages [OF wf] by simp
    have "pml4e_walk (r, 0) va True s = pdpe_walk (q, 0) va True s"
      using q k by (simp add: pml4e_walk_def PTE_P_bit)
    moreover have "walk_post 2 sl ow s fl q (r, [] @ [unat (PML4 va)])
        [unat (PDPE va), unat (PDX va)] (unat (PTX va)) (pdpe_walk (q, 0) va True s)"
      using pdpe_walk_create [OF wf, of q r "unat (PML4 va)" va] q by (simp add: slot_ok_def)
    ultimately show ?thesis
      using walk_post_step [OF wf extends_refl [OF wf] p(1) Some]
      by (simp add: numeral_3_eq_3 numeral_2_eq_2 tbl_idx_def)
  next
    case None
    show ?thesis
    proof (cases fl)
      case Nil
      with wf None have "pml4e_walk (r, 0) va True s = Inr (None, s)"
        using page_alloc_empty [of s ALLOC_ZERO] pt_wfD(1) [OF wf]
        by (simp add: pml4e_walk_def present_nxt)
      with wf Nil show ?thesis by (simp add: walk_post_none numeral_3_eq_3)
    next
      case (Cons x xs)
      let ?s = "hang r (unat (PML4 va)) x s"
      let ?ow = "ow(x := Some (r, [] @ [unat (PML4 va)]))"
      note h = hang_entry [OF wf [unfolded Cons] p(1) ok None]
      note wf' = extendsD(1) [OF h(1)]
      have x: "x < npages s" "npages s \<le> 2 ^ 32"
        using alloc_invD [OF pt_wfD(1) [OF wf]] Cons by simp_all
      have "pml4e_walk (r, 0) va True s = pdpe_walk (x, 0) va True ?s"
        using None page_alloc_cons [OF pt_wfD(1) [OF wf [unfolded Cons]], of ALLOC_ZERO] x
          KADDR_table [of ?s "table_entry (page2pa x)"]
        by (simp add: pml4e_walk_def present_nxt hang_simps Let_def unat_PPN_page2pa page_number_bound
          ALLOC_ZERO_def flip: hang_def)
      moreover have "walk_post 2 sl ?ow ?s xs x (r, [] @ [unat (PML4 va)])
          [unat (PDPE va), unat (PDX va)] (unat (PTX va)) (pdpe_walk (x, 0) va True ?s)"
        using pdpe_walk_create [OF wf', of x r "unat (PML4 va)" va] h(3) by (simp add: slot_ok_def)
      ultimately show ?thesis
        using walk_post_step [OF wf [unfolded Cons] h(1) p(1) h(2)] Cons
        by (simp add: numeral_3_eq_3 numeral_2_eq_2 tbl_idx_def)
    qed
  qed
qed

section \<open>The walkers without creation\<close>

text \<open>
  Without \<open>create\<close> the two upper walkers give up when the first entry of their table is 0,
  whatever the address; \<open>first_nonzero\<close> says that this does not happen.
\<close>

definition first_nonzero :: "kstate \<Rightarrow> nat \<Rightarrow> u64 \<Rightarrow> bool" where
  "first_nonzero s r va \<longleftrightarrow> mem s r 0 \<noteq> 0 \<and>
     (case nxt s r (unat (PML4 va)) of None \<Rightarrow> True | Some q \<Rightarrow> mem s q 0 \<noteq> 0)"

lemma pgdir_walk_lookup:
  assumes wf: "pt_wf sl ow s fl" and p: "ow p = Some (r, is)" "slot_ok sl r is (unat (PDX va))"
  shows "pgdir_walk (p, 0) va False s =
     Inr (map_option (\<lambda>t. (t, unat (PTX va))) (walk s p [unat (PDX va)]), s)"
proof (cases "nxt s p (unat (PDX va))")
  case (Some q)
  note q = nxt_in_range [OF wf p Some]
  then show ?thesis
    using KADDR_pte [OF pt_wf_npages [OF wf], of "mem s p (unat (PDX va))" va] Some
    by (simp add: pgdir_walk_def PTE_P_bit)
qed (simp add: pgdir_walk_def present_nxt)

text \<open>
  A lookup may rewrite the flags of one directory-pointer entry; nothing that matters
  for later walks changes.
\<close>

definition only_mem :: "kstate \<Rightarrow> kstate \<Rightarrow> bool" where
  "only_mem s s' \<longleftrightarrow> s' = s\<lparr>mem := mem s'\<rparr>"

definition same_tables :: "owner \<Rightarrow> kstate \<Rightarrow> kstate \<Rightarrow> bool" where
  "same_tables ow s s' \<longleftrightarrow>
     only_mem s s' \<and> nxt s' = nxt s \<and> (\<forall>p i. mem s' p i = 0 \<longleftrightarrow> mem s p i = 0) \<and>
     (\<forall>p. (\<forall>r is. ow p = Some (r, is) \<longrightarrow> length is = 3) \<longrightarrow> mem s' p = mem s p)"

lemma same_tables_refl: "same_tables ow s s"
  by (simp add: same_tables_def only_mem_def)

lemma walk_nxt_cong: "nxt s' = nxt s \<Longrightarrow> walk s' p is = walk s p is"
  by (induction "is" arbitrary: p) (auto split: option.splits)

lemma same_tables_walk: "same_tables ow s s' \<Longrightarrow> walk s' p is = walk s p is"
  by (rule walk_nxt_cong) (simp add: same_tables_def)

lemma same_tables_pages:
  "same_tables ow s s' \<Longrightarrow> pages s' = pages s"
  "same_tables ow s s' \<Longrightarrow> page_free_list s' = page_free_list s"
  "same_tables ow s s' \<Longrightarrow> npages s' = npages s"
  unfolding same_tables_def only_mem_def by (cases s; cases s'; simp)+

lemma same_tables_first: "same_tables ow s s' \<Longrightarrow> first_nonzero s' r va = first_nonzero s r va"
  by (auto simp: same_tables_def first_nonzero_def split: option.splits)

lemma rewrite_same_tables:
  assumes "ow p = Some (r, is)" "length is < 3" "nxt s p i = Some q"
  shows "same_tables ow s (st (p, i) (table_entry (mem s p i)) s)"
proof -
  let ?s = "st (p, i) (table_entry (mem s p i)) s"
  have "nxt ?s = nxt s"
    using assms(3) unfolding fun_eq_iff nxt_st by (auto simp: nxt_def split: if_splits)
  moreover have "mem s p i \<noteq> 0" "table_entry (mem s p i) \<noteq> 0"
    using assms(3) bit_table_entry [of "mem s p i"]
    by (auto simp: nxt_def simp del: bit_table_entry split: if_splits)
  moreover have "mem ?s a = mem s a" if "\<forall>r is. ow a = Some (r, is) \<longrightarrow> length is = 3" for a
    using that assms by (auto simp: st_def)
  ultimately show ?thesis
    unfolding same_tables_def only_mem_def by (auto simp: st_def)
qed

lemma pdpe_walk_lookup:
  assumes wf: "pt_wf sl ow s fl" and p: "ow p = Some (r, [a])" "slot_ok sl r [a] (unat (PDPE va))"
  shows "\<exists>s'. extends sl ow s fl ow s' fl \<and> same_tables ow s s' \<and>
     pdpe_walk (p, 0) va False s =
       Inr (if mem s p 0 = 0 then None
            else map_option (\<lambda>t. (t, unat (PTX va))) (walk s p [unat (PDPE va), unat (PDX va)]), s')"
proof (cases "mem s p 0 = 0 \<or> nxt s p (unat (PDPE va)) = None")
  case True
  then have "pdpe_walk (p, 0) va False s = Inr (None, s)"
    by (auto simp: pdpe_walk_def present_nxt)
  with True extends_refl [OF wf] same_tables_refl show ?thesis by auto
next
  case False
  then obtain q where Some: "nxt s p (unat (PDPE va)) = Some q" and nz: "mem s p 0 \<noteq> 0" by auto
  let ?s = "st (p, unat (PDPE va)) (table_entry (mem s p (unat (PDPE va)))) s"
  note q = nxt_in_range [OF wf p Some]
  have ext: "extends sl ow s fl ow ?s fl" and nx: "nxt ?s p (unat (PDPE va)) = Some q"
    using rewrite_entry [OF wf p(1) _ Some] by simp_all
  have same: "same_tables ow s ?s" using rewrite_same_tables [of ow p r "[a]", OF p(1) _ Some] by simp
  note wf' = extendsD(1) [OF ext]
  have k: "KADDR (PTE_ADDR (table_entry (mem s p (unat (PDPE va))))) ?s = Inr ((q, 0), ?s)"
    using KADDR_table [of ?s "table_entry (mem s p (unat (PDPE va)))"] q pt_wf_npages [OF wf']
    by (simp add: same_tables_pages(3) [OF same])
  have "pdpe_walk (p, 0) va False s = pgdir_walk (q, 0) va False ?s"
    using q k nz by (simp add: pdpe_walk_def PTE_P_bit Let_def)
  also have "\<dots> = Inr (map_option (\<lambda>t. (t, unat (PTX va))) (walk ?s q [unat (PDX va)]), ?s)"
    using q by (intro pgdir_walk_lookup [OF wf']) (auto simp: slot_ok_def)
  finally show ?thesis
    using ext same nz Some same_tables_walk [OF same, of q "[unat (PDX va)]"] by auto
qed

lemma pml4e_walk_lookup:
  assumes wf: "pt_wf sl ow s fl" and p: "ow r = Some (r, [])" "unat (PML4 va) \<in> sl r"
  shows "\<exists>s'. extends sl ow s fl ow s' fl \<and> same_tables ow s s' \<and>
     pml4e_walk (r, 0) va False s =
       Inr (if first_nonzero s r va
            then map_option (\<lambda>t. (t, unat (PTX va))) (walk s r (tbl_idx va)) else None, s')"
proof (cases "mem s r 0 = 0 \<or> nxt s r (unat (PML4 va)) = None")
  case True
  then have "pml4e_walk (r, 0) va False s = Inr (None, s)"
    by (auto simp: pml4e_walk_def present_nxt)
  with True extends_refl [OF wf] same_tables_refl show ?thesis
    by (auto simp: first_nonzero_def tbl_idx_def)
next
  case False
  then obtain q where Some: "nxt s r (unat (PML4 va)) = Some q" and nz: "mem s r 0 \<noteq> 0" by auto
  have ok: "slot_ok sl r [] (unat (PML4 va))" using p(2) by (simp add: slot_ok_def)
  note q = nxt_in_range [OF wf p(1) ok Some]
  have k: "KADDR (PTE_ADDR (mem s r (unat (PML4 va)))) s = Inr ((q, 0), s)"
    using KADDR_table [of s "mem s r (unat (PML4 va))"] q pt_wf_npages [OF wf] by simp
  have "pml4e_walk (r, 0) va False s = pdpe_walk (q, 0) va False s"
    using q k nz by (simp add: pml4e_walk_def PTE_P_bit)
  moreover obtain s' where "extends sl ow s fl ow s' fl" "same_tables ow s s'"
    "pdpe_walk (q, 0) va False s = Inr (if mem s q 0 = 0 then None
        else map_option (\<lambda>t. (t, unat (PTX va))) (walk s q [unat (PDPE va), unat (PDX va)]), s')"
    using pdpe_walk_lookup [OF wf, of q r "unat (PML4 va)" va] q by (auto simp: slot_ok_def)
  ultimately show ?thesis
    using Some nz by (auto simp: first_nonzero_def tbl_idx_def)
qed

section \<open>Storing an entry\<close>

definition root_ok :: "(nat \<Rightarrow> nat set) \<Rightarrow> owner \<Rightarrow> nat \<Rightarrow> u64 \<Rightarrow> bool" where
  "root_ok sl ow r va \<longleftrightarrow> ow r = Some (r, []) \<and> unat (PML4 va) \<in> sl r"

lemma length_pidx [simp]: "length (pidx va) = 4" "length (tbl_idx va) = 3"
  by (simp_all add: pidx_def tbl_idx_def)

lemma pidx_bound: "\<forall>j \<in> set (pidx va). j < 512"
  by (simp add: pidx_def tbl_idx_def)

lemma hd_pidx [simp]: "hd (pidx va) = unat (PML4 va)"
  by (simp add: pidx_def tbl_idx_def)

lemma extends_mapping:
  assumes "extends sl ow s fl ow' s' fl'" "root_ok sl ow r va"
  shows "mapping s' r va = mapping s r va"
  using extendsD(6) [OF assms(1), of r r "[]" "pidx va"] assms(2) pidx_bound [of va]
  by (simp add: mapping_def root_ok_def)

lemma pt_wf_step:
  assumes wf: "pt_wf sl ow s fl" and "alloc_inv s' fl'" "npages s' = npages s"
    and "\<And>p z. ow p = Some z \<Longrightarrow> p \<notin> set fl'"
    and "\<And>p r is i. ow p = Some (r, is) \<Longrightarrow> length is < 3 \<Longrightarrow> nxt s' p i = nxt s p i"
  shows "pt_wf sl ow s' fl'"
  unfolding pt_wf_def
proof (intro conjI allI impI assms(2))
  fix p r "is" assume p: "ow p = Some (r, is)"
  then show "p < npages s'" "p \<notin> set fl'" "length is \<le> 3"
    using assms(3,4) pt_wfD(2,4) [OF wf] by auto
  fix i q assume "slot_ok sl r is i" "nxt s' p i = Some q"
  then show "ow q = Some (r, is @ [i])"
    using pt_wfD(5) [OF wf p] assms(5) [OF p] by (simp add: slot_ok_def)
qed

text \<open>A store to an entry of a last-level table concerns one address of one root.\<close>

lemma leaf_store:
  assumes wf: "pt_wf sl ow s fl" and t: "ow t = Some (r, js)" "length js = 3"
    and m: "mem s' = mem (st (t, d) e s)"
    and p: "ow p = Some (r', ks)" "length (ks @ ls) = 4" "\<forall>j \<in> set ls. j < 512" "ks = [] \<longrightarrow> hd ls \<in> sl r'"
    and other: "(r', ks @ ls) \<noteq> (r, js @ [d])"
  shows "leaf s' p ls = leaf s p ls"
  using p other
proof (induction ls arbitrary: p ks)
  case Nil
  then show ?case by simp
next
  case (Cons j ls)
  show ?case
  proof (cases "ls = []")
    case True
    then show ?thesis using Cons.prems t m by (auto simp: st_def)
  next
    case False
    have ok: "slot_ok sl r' ks j" using Cons.prems False by (cases ls) (auto simp: slot_ok_def)
    then have "p \<noteq> t" using Cons.prems(1) t by (auto simp: slot_ok_def)
    then have "nxt s' p j = nxt s p j" using m by (simp add: nxt_def st_def)
    moreover have "ow b = Some (r', ks @ [j])" if "nxt s p j = Some b" for b
      using pt_wfD(5) [OF wf Cons.prems(1) ok] that by blast
    ultimately show ?thesis
      using Cons False by (simp add: leaf_Cons split: option.splits)
  qed
qed

lemma walk_store:
  assumes wf: "pt_wf sl ow s fl" and t: "ow t = Some (r, js)" "length js = 3"
    and m: "mem s' = mem (st (t, d) e s)"
    and p: "ow p = Some (r', ks)" "length (ks @ ls) \<le> 3" "\<forall>j \<in> set ls. j < 512" "ks = [] \<longrightarrow> ls \<noteq> [] \<longrightarrow> hd ls \<in> sl r'"
  shows "walk s' p ls = walk s p ls"
  using p
proof (induction ls arbitrary: p ks)
  case Nil
  then show ?case by simp
next
  case (Cons j ls)
  have ok: "slot_ok sl r' ks j" using Cons.prems by (auto simp: slot_ok_def)
  then have "p \<noteq> t" using Cons.prems(1) t by (auto simp: slot_ok_def)
  then have "nxt s' p j = nxt s p j" using m by (simp add: nxt_def st_def)
  moreover have "ow b = Some (r', ks @ [j])" if "nxt s p j = Some b" for b
    using pt_wfD(5) [OF wf Cons.prems(1) ok] that by blast
  ultimately show ?case
    using Cons by (simp split: option.splits)
qed

lemma walk_owner:
  assumes wf: "pt_wf sl ow s fl"
    and p: "ow p = Some (r', ks)" "length (ks @ ls) \<le> 3" "\<forall>j \<in> set ls. j < 512" "ks = [] \<longrightarrow> ls \<noteq> [] \<longrightarrow> hd ls \<in> sl r'"
    and w: "walk s p ls = Some t"
  shows "ow t = Some (r', ks @ ls)"
  using p w
proof (induction ls arbitrary: p ks)
  case Nil
  then show ?case by simp
next
  case (Cons j ls)
  have ok: "slot_ok sl r' ks j" using Cons.prems by (auto simp: slot_ok_def)
  from Cons.prems obtain q where q: "nxt s p j = Some q" "walk s q ls = Some t"
    by (auto split: option.splits)
  from pt_wfD(5) [OF wf Cons.prems(1) ok q(1)] have "ow q = Some (r', ks @ [j])" .
  from Cons.IH [OF this] Cons.prems q show ?case by simp
qed

text \<open>The two facts in the form the operations use them.\<close>

lemma root_walk_owner:
  assumes "pt_wf sl ow s fl" "root_ok sl ow r va" "walk s r (tbl_idx va) = Some t"
  shows "ow t = Some (r, tbl_idx va)"
proof -
  have "\<forall>j \<in> set (tbl_idx va). j < 512" by (simp add: tbl_idx_def)
  with walk_owner [OF assms(1), of r r "[]" "tbl_idx va" t] assms(2,3) show ?thesis
    by (simp add: root_ok_def tbl_idx_def)
qed

lemma mapping_walk:
  "walk s r (tbl_idx va) = Some t \<Longrightarrow>
   mapping s r va = (if bit (mem s t (unat (PTX va))) 0 then Some (mem s t (unat (PTX va))) else None)"
  by (simp add: mapping_def pidx_def leaf_walk)

lemma mapping_walk_None: "walk s r (tbl_idx va) = None \<Longrightarrow> mapping s r va = None"
  by (simp add: mapping_def pidx_def leaf_walk_None)

lemma store_mapping:
  assumes wf: "pt_wf sl ow s fl" and r: "root_ok sl ow r va" and t: "walk s r (tbl_idx va) = Some t"
    and m: "mem s' = mem (st (t, unat (PTX va)) e s)"
  shows "walk s' r (tbl_idx va) = Some t"
    and "mapping s' r va = (if bit e 0 then Some e else None)"
    and "root_ok sl ow r' va' \<Longrightarrow> (r', pidx va') \<noteq> (r, pidx va) \<Longrightarrow> mapping s' r' va' = mapping s r' va'"
    and "ow p = Some (r1, is) \<Longrightarrow> length is < 3 \<Longrightarrow> nxt s' p i = nxt s p i"
proof -
  note own = root_walk_owner [OF wf r t]
  have "\<forall>j \<in> set (tbl_idx va). j < 512" by (simp add: tbl_idx_def)
  then have "walk s' r (tbl_idx va) = walk s r (tbl_idx va)"
    using walk_store [OF wf own _ m, of r r "[]" "tbl_idx va"] r
    by (simp add: root_ok_def) (simp add: tbl_idx_def)
  with t show w: "walk s' r (tbl_idx va) = Some t" by simp
  show "mapping s' r va = (if bit e 0 then Some e else None)"
    using mapping_walk [OF w] m by (simp add: st_def)
  show "mapping s' r' va' = mapping s r' va'"
    if "root_ok sl ow r' va'" "(r', pidx va') \<noteq> (r, pidx va)"
    using leaf_store [OF wf own _ m, of r' r' "[]" "pidx va'"] that pidx_bound [of va']
    by (simp add: root_ok_def mapping_def pidx_def [of va])
  show "nxt s' p i = nxt s p i" if "ow p = Some (r1, is)" "length is < 3"
    using that own m by (auto simp: nxt_def st_def)
qed

text \<open>Only the memory and the allocator's fields matter.\<close>

lemma leaf_cong: "mem s' = mem s \<Longrightarrow> leaf s' p is = leaf s p is"
proof -
  assume m: "mem s' = mem s"
  then have "nxt s' = nxt s" by (simp add: fun_eq_iff nxt_def)
  with m show ?thesis
    by (induction "is" arbitrary: p rule: induct_list012) (auto split: option.splits)
qed

lemma mapping_cong: "mem s' = mem s \<Longrightarrow> mapping s' = mapping s"
  by (simp add: fun_eq_iff mapping_def leaf_cong)

lemma first_nonzero_cong: "mem s' = mem s \<Longrightarrow> first_nonzero s' = first_nonzero s"
  by (simp add: fun_eq_iff first_nonzero_def nxt_def)

lemma pt_wf_cong:
  assumes "mem s' = mem s" "pages s' = pages s" "page_free_list s' = page_free_list s"
    "npages s' = npages s"
  shows "pt_wf sl ow s' fl = pt_wf sl ow s fl"
proof -
  have "nxt s' = nxt s" using assms(1) by (simp add: fun_eq_iff nxt_def)
  then show ?thesis using assms alloc_inv_cong [of s' s fl] by (simp add: pt_wf_def)
qed

end
