(* ===== verification/Pmap_Insert.thy ===== *)
theory Pmap_Insert
  imports Pmap_Walk
begin

text \<open>
  The contracts of \<open>page_lookup\<close>, \<open>page_remove\<close>, \<open>page_insert\<close> and
  \<open>boot_map_region\<close> over the page-table invariant: what each does to the mapping of its
  own address, that it leaves every other mapping of every root alone, what it does to the
  reference counts and to the free list, and the cases in which the code departs from the
  comments above the functions.
\<close>

section \<open>page\_lookup\<close>

definition found_at :: "kstate \<Rightarrow> nat \<Rightarrow> u64 \<Rightarrow> (nat \<times> kptr) option" where
  "found_at s r va = map_option (\<lambda>e. (unat (PPN e), (the (walk s r (tbl_idx va)), unat (PTX va))))
     (mapping s r va)"

definition in_range :: "kstate \<Rightarrow> nat \<Rightarrow> u64 \<Rightarrow> bool" where
  "in_range s r va \<longleftrightarrow> (case mapping s r va of None \<Rightarrow> True | Some e \<Rightarrow> unat (PPN e) < npages s)"

lemma page_lookup_lemma:
  assumes wf: "pt_wf sl ow s fl" and r: "root_ok sl ow r va" and rng: "in_range s r va"
  shows "\<exists>s'. extends sl ow s fl ow s' fl \<and> same_tables ow s s' \<and>
    page_lookup (r, 0) va s = Inr (if first_nonzero s r va then found_at s r va else None, s')"
proof -
  from r have r': "ow r = Some (r, [])" "unat (PML4 va) \<in> sl r" by (simp_all add: root_ok_def)
  obtain s' where s': "extends sl ow s fl ow s' fl" "same_tables ow s s'"
    "pml4e_walk (r, 0) va False s =
       Inr (if first_nonzero s r va
            then map_option (\<lambda>t. (t, unat (PTX va))) (walk s r (tbl_idx va)) else None, s')"
    using pml4e_walk_lookup [OF wf r'] by blast
  have "page_lookup (r, 0) va s = Inr (if first_nonzero s r va then found_at s r va else None, s')"
  proof (cases "first_nonzero s r va \<and> walk s r (tbl_idx va) \<noteq> None")
    case True
    then obtain t where t: "walk s r (tbl_idx va) = Some t" "first_nonzero s r va" by auto
    have "ow t = Some (r, tbl_idx va)" by (rule root_walk_owner [OF wf r t(1)])
    then have "mem s' t = mem s t" using s'(2) by (simp add: same_tables_def)
    moreover note mapping_walk [OF t(1)]
    ultimately show ?thesis
      using t s'(3) rng same_tables_pages(3) [OF s'(2)]
      by (auto simp: page_lookup_def found_at_def in_range_def pa2page_def PTE_P_bit not_le
          dest: PTE_P_bit [THEN iffD2])
  next
    case False
    then show ?thesis
      using s'(3) mapping_walk_None [of s r va] by (auto simp: page_lookup_def found_at_def)
  qed
  with s' show ?thesis by blast
qed

section \<open>page\_remove\<close>

text \<open>The state after the reference to \<open>q\<close> is dropped.\<close>

definition dropped :: "nat \<Rightarrow> kstate \<Rightarrow> kstate" where
  "dropped q s =
     (if pp_ref (pages s q) = 1
      then set_page_free_list (Some q) (set_pp_link q (page_free_list s) (set_pp_ref q 0 s))
      else set_pp_ref q (pp_ref (pages s q) - 1) s)"

lemma dropped_simps [simp]:
  "mem (dropped q s) = mem s" "npages (dropped q s) = npages s"
  "curenv (dropped q s) = curenv s" "envs (dropped q s) = envs s" "cpu (dropped q s) = cpu s"
  "invlpgs (dropped q s) = invlpgs s" "cpus (dropped q s) = cpus s"
  "boot_pml4e (dropped q s) = boot_pml4e s"
  "pp_ref (pages (dropped q s) p) = pp_ref (pages s p) - (if p = q then 1 else 0)"
  by (simp_all add: dropped_def kstate_defs)

lemma page_decref_dropped:
  assumes "alloc_inv s fl" "q < npages s" "q \<notin> set fl"
  shows "page_decref q s = Inr ((), dropped q s)"
    and "alloc_inv (dropped q s) (if pp_ref (pages s q) = 1 then q # fl else fl)"
  using page_decref_last [OF assms] page_decref_keep [of s q] alloc_inv_set_pp_ref [OF assms(3)]
    assms(1) by (auto simp: dropped_def)

lemma tlb_invalidate_simps [simp]:
  "mem (tlb_invalidate p va s) = mem s" "pages (tlb_invalidate p va s) = pages s"
  "npages (tlb_invalidate p va s) = npages s" "envs (tlb_invalidate p va s) = envs s"
  "page_free_list (tlb_invalidate p va s) = page_free_list s"
  "cpus (tlb_invalidate p va s) = cpus s" "cpu (tlb_invalidate p va s) = cpu s"
  "alloc_inv (tlb_invalidate p va s) fl = alloc_inv s fl"
  "boot_pml4e (tlb_invalidate p va s) = boot_pml4e s"
  by (auto simp: tlb_invalidate_def invlpg_def alloc_inv_def freelist_def split: option.splits)

text \<open>A walk without creation can be repeated: it finds the same.\<close>

lemma removal_finds:
  assumes wf: "pt_wf sl ow s fl" and r: "root_ok sl ow r va" and rng: "in_range s r va"
    and f: "first_nonzero s r va" and t: "walk s r (tbl_idx va) = Some t"
  shows "\<exists>s'. extends sl ow s fl ow s' fl \<and> same_tables ow s s' \<and>
    page_remove (r, 0) va s =
      bindK (deref (found_at s r va) s') (\<lambda>(page, ptr_pte) s.
      bindK (page_decref page s) (\<lambda>_ s. Inr ((), tlb_invalidate (r, 0) va (st ptr_pte 0 s))))"
proof -
  from r have r': "ow r = Some (r, [])" "unat (PML4 va) \<in> sl r" by (simp_all add: root_ok_def)
  obtain s1 where s1: "extends sl ow s fl ow s1 fl" "same_tables ow s s1"
    "pml4e_walk (r, 0) va False s = Inr (Some (t, unat (PTX va)), s1)"
    using pml4e_walk_lookup [OF wf r'] f t by auto
  note wf1 = extendsD(1) [OF s1(1)]
  have same: "mapping s1 r va = mapping s r va" "walk s1 r (tbl_idx va) = Some t" "first_nonzero s1 r va"
    using extends_mapping [OF s1(1) r] same_tables_walk [OF s1(2)] same_tables_first [OF s1(2)] f t
    by auto
  then have fa: "found_at s1 r va = found_at s r va" "in_range s1 r va"
    using rng t same_tables_pages(3) [OF s1(2)]
    by (auto simp: found_at_def in_range_def split: option.splits)
  obtain s2 where s2: "extends sl ow s1 fl ow s2 fl" "same_tables ow s1 s2"
    "page_lookup (r, 0) va s1 = Inr (found_at s r va, s2)"
    using page_lookup_lemma [OF wf1 r fa(2)] same(3) fa(1) by auto
  have "same_tables ow s s2"
    using s1(2) s2(2) unfolding same_tables_def only_mem_def by (cases s; cases s1; cases s2) auto
  moreover have "page_remove (r, 0) va s =
      bindK (deref (found_at s r va) s2) (\<lambda>(page, ptr_pte) s.
      bindK (page_decref page s) (\<lambda>_ s. Inr ((), tlb_invalidate (r, 0) va (st ptr_pte 0 s))))"
    using s1(3) s2(3) by (simp add: page_remove_def Let_def)
  ultimately show ?thesis using extends_trans [OF wf s1(1) s2(1)] by blast
qed

text \<open>
  The fields an unmapping leaves alone: everything but the page tables, the page structures,
  the free list and the record of flushed TLB entries.
\<close>

definition only_mm_tlb :: "kstate \<Rightarrow> kstate \<Rightarrow> bool" where
  "only_mm_tlb s s' \<longleftrightarrow> s' = s\<lparr>pages := pages s', page_free_list := page_free_list s',
     mem := mem s', invlpgs := invlpgs s'\<rparr>"

lemma only_mm_tlb_fields:
  assumes "only_mm_tlb s s'"
  shows "npages s' = npages s" "envs s' = envs s" "cpus s' = cpus s" "cpu s' = cpu s"
    "boot_pml4e s' = boot_pml4e s" "env_free_list s' = env_free_list s" "curenv s' = curenv s"
    "boot_cr3 s' = boot_cr3 s" "klog s' = klog s" "cr3 s' = cr3 s" "kernel_lock s' = kernel_lock s"
  using assms unfolding only_mm_tlb_def curenv_def by (cases s; cases s'; simp)+

lemma only_mm_tlbI: "only_mm s s' \<Longrightarrow> only_mm_tlb s s'"
  unfolding only_mm_def only_mm_tlb_def by (cases s; cases s') simp

lemma only_mm_tlb_trans: "only_mm_tlb s s1 \<Longrightarrow> only_mm_tlb s1 s2 \<Longrightarrow> only_mm_tlb s s2"
  unfolding only_mm_tlb_def by (cases s; cases s1; cases s2) simp

lemma only_mm_tlb_ops [simp]:
  "only_mm_tlb s (st a v s)" "only_mm_tlb s (dropped q s)" "only_mm_tlb s (tlb_invalidate a va s)"
  "only_mm_tlb s (incref q s)"
  by (auto simp: only_mm_tlb_def kstate_defs dropped_def tlb_invalidate_def split: option.splits)

definition unmaps :: "(nat \<Rightarrow> nat set) \<Rightarrow> owner \<Rightarrow> kstate \<Rightarrow> nat list \<Rightarrow> nat \<Rightarrow> u64 \<Rightarrow> nat \<Rightarrow>
    kstate \<Rightarrow> bool" where
  "unmaps sl ow s fl r va q s' \<longleftrightarrow>
     pt_wf sl ow s' (if pp_ref (pages s q) = 1 then q # fl else fl) \<and>
     mapping s' r va = None \<and> walk s' r (tbl_idx va) = walk s r (tbl_idx va) \<and>
     (\<forall>r' va'. root_ok sl ow r' va' \<longrightarrow> (r', pidx va') \<noteq> (r, pidx va) \<longrightarrow>
        mapping s' r' va' = mapping s r' va') \<and>
     (\<forall>p. pp_ref (pages s' p) = pp_ref (pages s p) - (if p = q then 1 else 0)) \<and>
     (\<forall>p. ow p = None \<longrightarrow> mem s' p = mem s p) \<and> only_mm_tlb s s'"

lemma page_remove_unmaps:
  assumes wf: "pt_wf sl ow s fl" and r: "root_ok sl ow r va" and f: "first_nonzero s r va"
    and map: "mapping s r va = Some e"
    and q: "q = unat (PPN e)" "q < npages s" "q \<notin> set fl" "ow q = None"
  shows "\<exists>s'. page_remove (r, 0) va s = Inr ((), s') \<and> unmaps sl ow s fl r va q s' \<and>
     invlpgs s' = (if curenv s = None \<or> env_pml4e (envs s (the (curenv s))) = Some (r, 0)
                   then (cpu s, va) # invlpgs s else invlpgs s)"
proof -
  obtain t where t: "walk s r (tbl_idx va) = Some t"
    using map mapping_walk_None by fastforce
  have rng: "in_range s r va" using map q by (simp add: in_range_def)
  obtain s2 where s2: "extends sl ow s fl ow s2 fl" "same_tables ow s s2"
    "page_remove (r, 0) va s = bindK (deref (found_at s r va) s2) (\<lambda>(page, ptr_pte) s.
      bindK (page_decref page s) (\<lambda>_ s. Inr ((), tlb_invalidate (r, 0) va (st ptr_pte 0 s))))"
    using removal_finds [OF wf r rng f t] by blast
  note wf2 = extendsD(1) [OF s2(1)]
  have pg: "pages s2 = pages s" "npages s2 = npages s" using same_tables_pages [OF s2(2)] by auto
  note fld = only_mm_fields [OF extendsD(2) [OF s2(1)]]
  note dec = page_decref_dropped [OF pt_wfD(1) [OF wf2], of q]
  let ?s3 = "st (t, unat (PTX va)) 0 (dropped q s2)"
  let ?s' = "tlb_invalidate (r, 0) va ?s3"
  have run: "page_remove (r, 0) va s = Inr ((), ?s')"
    using s2(3) t map q dec pg by (simp add: found_at_def)
  have t2: "walk s2 r (tbl_idx va) = Some t" using t same_tables_walk [OF s2(2)] by simp
  have m: "mem ?s' = mem (st (t, unat (PTX va)) 0 s2)" by (simp add: st_def)
  note sm = store_mapping [OF wf2 r t2 m]
  have "alloc_inv ?s' (if pp_ref (pages s q) = 1 then q # fl else fl)"
    using dec(2) q pg by simp
  then have wf': "pt_wf sl ow ?s' (if pp_ref (pages s q) = 1 then q # fl else fl)"
    using pt_wfD(3) [OF wf] q(4) sm(4)
    by (intro pt_wf_step [OF wf2]) (auto simp: st_def)
  have oth: "\<forall>r' va'. root_ok sl ow r' va' \<longrightarrow> (r', pidx va') \<noteq> (r, pidx va) \<longrightarrow>
      mapping ?s' r' va' = mapping s r' va'"
    using sm(3) extends_mapping [OF s2(1)] by simp
  have fr: "only_mm_tlb s ?s'"
    by (meson only_mm_tlb_ops only_mm_tlb_trans only_mm_tlbI extendsD(2) [OF s2(1)])
  have ref: "\<forall>p. pp_ref (pages ?s' p) = pp_ref (pages s p) - (if p = q then 1 else 0)"
    using pg by (simp add: st_def)
  have inv: "invlpgs ?s' = (if curenv s = None \<or> env_pml4e (envs s (the (curenv s))) = Some (r, 0)
                   then (cpu s, va) # invlpgs s else invlpgs s)"
    using fld by (auto simp: tlb_invalidate_def invlpg_def st_def curenv_def split: option.splits)
  have cont: "\<forall>p. ow p = None \<longrightarrow> mem ?s' p = mem s p"
    using root_walk_owner [OF wf2 r t2] s2(2) unfolding m by (auto simp: st_def same_tables_def)
  show ?thesis
    using run wf' sm(1,2) oth ref fr inv t cont unfolding unmaps_def by auto
qed

section \<open>page\_insert\<close>

text \<open>
  The situations in which \<open>page_insert\<close> does what its comment says. The page is allocated.
  If something is mapped at \<open>va\<close>, the lookup of \<open>page_remove\<close> can see it, the frame is
  an allocated one that is not used as a table, and it is not the page to be inserted
  with that mapping as its only reference.
\<close>

definition insertable :: "owner \<Rightarrow> kstate \<Rightarrow> nat list \<Rightarrow> nat \<Rightarrow> u64 \<Rightarrow> nat \<Rightarrow> bool" where
  "insertable ow s fl r va pp \<longleftrightarrow> pp < npages s \<and> pp \<notin> set fl \<and>
     (case mapping s r va of
        None \<Rightarrow> True
      | Some e \<Rightarrow> first_nonzero s r va \<and> unat (PPN e) < npages s \<and> unat (PPN e) \<notin> set fl \<and>
          ow (unat (PPN e)) = None \<and> (unat (PPN e) = pp \<longrightarrow> pp_ref (pages s pp) \<noteq> 1))"

definition old_page :: "kstate \<Rightarrow> nat \<Rightarrow> u64 \<Rightarrow> nat option" where
  "old_page s r va = map_option (\<lambda>e. unat (PPN e)) (mapping s r va)"

definition others_kept :: "(nat \<Rightarrow> nat set) \<Rightarrow> owner \<Rightarrow> kstate \<Rightarrow> nat \<Rightarrow> u64 \<Rightarrow> kstate \<Rightarrow> bool" where
  "others_kept sl ow s r va s' \<longleftrightarrow>
     (\<forall>r' va'. root_ok sl ow r' va' \<longrightarrow> (r', pidx va') \<noteq> (r, pidx va) \<longrightarrow>
        mapping s' r' va' = mapping s r' va')"

text \<open>The entry is cleared, if it was present, before the new one is stored.\<close>

lemma clear_entry:
  assumes wf: "pt_wf sl ow s fl" and r: "root_ok sl ow r va" and ins: "insertable ow s fl r va pp"
    and t: "walk s r (tbl_idx va) = Some t"
  shows "\<exists>s' fl'. (if mem s t (unat (PTX va)) AND PTE_P \<noteq> 0 then page_remove (r, 0) va s
                   else Inr ((), s)) = Inr ((), s') \<and>
     pt_wf sl ow s' fl' \<and> pp \<notin> set fl' \<and> walk s' r (tbl_idx va) = Some t \<and>
     others_kept sl ow s r va s' \<and> only_mm_tlb s s' \<and>
     (\<forall>p. pp_ref (pages s' p) = pp_ref (pages s p) - (if old_page s r va = Some p then 1 else 0)) \<and>
     (\<forall>p. ow p = None \<longrightarrow> mem s' p = mem s p) \<and>
     fl' = (case old_page s r va of None \<Rightarrow> fl
            | Some q \<Rightarrow> if pp_ref (pages s q) = 1 then q # fl else fl)"
proof (cases "mapping s r va")
  case None
  then have "\<not> bit (mem s t (unat (PTX va))) 0" using mapping_walk [OF t] by (simp split: if_splits)
  then have "mem s t (unat (PTX va)) AND PTE_P = 0" using PTE_P_bit by blast
  moreover have "others_kept sl ow s r va s" "only_mm_tlb s s"
    by (simp_all add: others_kept_def only_mm_tlb_def)
  ultimately show ?thesis
    using None wf ins t by (simp add: old_page_def insertable_def)
next
  case (Some e)
  then have "bit (mem s t (unat (PTX va))) 0" using mapping_walk [OF t] by (simp split: if_splits)
  then have pr: "mem s t (unat (PTX va)) AND PTE_P \<noteq> 0" using PTE_P_bit by blast
  let ?q = "unat (PPN e)"
  let ?fl' = "if pp_ref (pages s ?q) = 1 then ?q # fl else fl"
  obtain s' where s': "page_remove (r, 0) va s = Inr ((), s')" "unmaps sl ow s fl r va ?q s'"
    using page_remove_unmaps [OF wf r _ Some] Some ins by (auto simp: insertable_def)
  have "pp \<notin> set ?fl'" using Some ins by (auto simp: insertable_def)
  with s' pr t Some show ?thesis
    by (auto simp: unmaps_def others_kept_def old_page_def)
qed

definition inserted :: "(nat \<Rightarrow> nat set) \<Rightarrow> owner \<Rightarrow> kstate \<Rightarrow> nat list \<Rightarrow> nat \<Rightarrow> u64 \<Rightarrow> nat \<Rightarrow> u64 \<Rightarrow>
    kstate \<Rightarrow> bool" where
  "inserted sl ow s fl r va pp e s' \<longleftrightarrow>
     mapping s' r va = Some e \<and> others_kept sl ow s r va s' \<and>
     (\<forall>p. p \<notin> set fl \<longrightarrow> pp_ref (pages s' p) =
        pp_ref (pages s p) - (if old_page s r va = Some p then 1 else 0) + (if p = pp then 1 else 0)) \<and>
     (\<forall>p. p \<notin> set fl \<longrightarrow> ow p = None \<longrightarrow> mem s' p = mem s p) \<and> only_mm_tlb s s'"

lemma pml4e_walk_existing:
  assumes wf: "pt_wf sl ow s fl" and r: "root_ok sl ow r va" and t: "walk s r (tbl_idx va) = Some t"
  shows "\<exists>s'. pml4e_walk (r, 0) va True s = Inr (Some (t, unat (PTX va)), s') \<and>
    extends sl ow s fl ow s' fl \<and> same_tables ow s s'"
proof -
  from r have r': "ow r = Some (r, [])" "slot_ok sl r [] (unat (PML4 va))"
    by (simp_all add: root_ok_def slot_ok_def)
  from t obtain q q2 where nx: "nxt s r (unat (PML4 va)) = Some q" "nxt s q (unat (PDPE va)) = Some q2"
      "nxt s q2 (unat (PDX va)) = Some t"
    by (auto simp: tbl_idx_def split: option.splits)
  note n1 = nxt_in_range [OF wf r' nx(1)]
  have own: "ow q = Some (r, [unat (PML4 va)])" using n1(2) by simp
  have ok2: "slot_ok sl r [unat (PML4 va)] (unat (PDPE va))" by (simp add: slot_ok_def)
  note n2 = nxt_in_range [OF wf own ok2 nx(2)]
  let ?s = "st (q, unat (PDPE va)) (table_entry (mem s q (unat (PDPE va)))) s"
  have same: "same_tables ow s ?s"
    using rewrite_same_tables [of ow q r "[unat (PML4 va)]", OF own _ nx(2)] by simp
  have ext: "extends sl ow s fl ow ?s fl" using rewrite_entry(1) [OF wf own _ nx(2)] by simp
  note wf' = extendsD(1) [OF ext]
  have np: "npages ?s = npages s" "npages s \<le> 2 ^ 32"
    using same_tables_pages(3) [OF same] pt_wf_npages [OF wf] by simp_all
  have "nxt ?s q2 (unat (PDX va)) = Some t" using nx(3) same by (simp add: same_tables_def)
  moreover have "slot_ok sl r ([unat (PML4 va)] @ [unat (PDPE va)]) (unat (PDX va))"
    by (simp add: slot_ok_def)
  ultimately have n3: "t < npages s" "unat (PPN (mem ?s q2 (unat (PDX va)))) = t"
      "bit (mem ?s q2 (unat (PDX va))) 0"
    using nxt_in_range [OF wf' n2(2)] np by auto
  have "pgdir_walk (q2, 0) va True ?s = Inr (Some (t, unat (PTX va)), ?s)"
    using KADDR_pte [of ?s "mem ?s q2 (unat (PDX va))" va] n3 np
    by (simp add: pgdir_walk_def PTE_P_bit)
  moreover have "pdpe_walk (q, 0) va True s = pgdir_walk (q2, 0) va True ?s"
    using n2 np KADDR_table [of ?s "table_entry (mem s q (unat (PDPE va)))"]
    by (simp add: pdpe_walk_def PTE_P_bit Let_def)
  moreover have "pml4e_walk (r, 0) va True s = pdpe_walk (q, 0) va True s"
    using n1 np KADDR_table [of s "mem s r (unat (PML4 va))"]
    by (simp add: pml4e_walk_def PTE_P_bit)
  ultimately show ?thesis using ext same by auto
qed

lemma extends_first_nonzero:
  assumes wf: "pt_wf sl ow s fl" and r: "root_ok sl ow r va" and ext: "extends sl ow s fl ow1 s1 fl1"
    and fm: "first_nonzero s r va" "mapping s r va = Some e"
  shows "first_nonzero s1 r va"
proof -
  obtain q where q: "nxt s r (unat (PML4 va)) = Some q"
    using fm(2) by (auto simp: mapping_def pidx_def tbl_idx_def split: option.splits)
  have "ow q = Some (r, [unat (PML4 va)])"
    using pt_wfD(5) [OF wf _ _ q] r by (simp add: slot_ok_def root_ok_def)
  then show ?thesis
    using fm(1) q extendsD(5,7) [OF ext] r by (auto simp: first_nonzero_def root_ok_def)
qed

lemma page_insert_lemma:
  fixes perm :: u32
  assumes wf: "pt_wf sl ow s fl" and r: "root_ok sl ow r va" and ins: "insertable ow s fl r va pp"
  defines "e \<equiv> page2pa pp OR scast (perm OR 1)"
  shows "\<exists>rc s' ow' fl'. page_insert (r, 0) pp va perm s = Inr (rc, s') \<and>
     pt_wf sl ow' s' fl' \<and> ow \<subseteq>\<^sub>m ow' \<and>
     (rc = 0 \<and> inserted sl ow s fl r va pp e s' \<and>
        set fl' \<subseteq> set fl \<union> set_option (old_page s r va) \<and>
        (\<forall>p. p \<notin> set fl \<longrightarrow> ow' p = ow p) \<and>
        length fl \<le> length fl' + 3 \<or>
      rc = - E_NO_MEM \<and> length fl < 3 \<and> extends sl ow s fl ow' s' fl')"
proof -
  from r have r': "ow r = Some (r, [])" "unat (PML4 va) \<in> sl r" by (simp_all add: root_ok_def)
  obtain ptr ow1 s1 fl1 where s1: "pml4e_walk (r, 0) va True s = Inr (ptr, s1)"
      "extends sl ow s fl ow1 s1 fl1"
    and len1: "length fl \<le> length fl1 + 3"
    and out: "case ptr of None \<Rightarrow> length fl < 3 \<and> fl1 = []
       | Some a \<Rightarrow> \<exists>t. a = (t, unat (PTX va)) \<and> walk s1 r (tbl_idx va) = Some t \<and>
           ow1 t = Some (fst (r, [] :: nat list), snd (r, []) @ tbl_idx va)"
    using pml4e_walk_create [OF wf r'] unfolding walk_post_def by blast
  note wf1 = extendsD(1) [OF s1(2)]
  have le: "ow \<subseteq>\<^sub>m ow1" using s1(2) by (simp add: extends_def)
  show ?thesis
  proof (cases ptr)
    case None
    then have "page_insert (r, 0) pp va perm s = Inr (- E_NO_MEM, s1)"
      using s1(1) by (simp add: page_insert_def)
    with None out wf1 le s1(2) show ?thesis by auto
  next
    case (Some a)
    with out obtain t where t: "a = (t, unat (PTX va))" "walk s1 r (tbl_idx va) = Some t" by auto
    obtain ys where ys: "fl = ys @ fl1" "takes ow s ow1 s1 ys"
      using s1(2) unfolding extends_def by blast
    have r1: "root_ok sl ow1 r va" using r extendsD(4) [OF s1(2)] by (simp add: root_ok_def)
    have map1: "mapping s1 r va = mapping s r va" by (rule extends_mapping [OF s1(2) r])
    then have old1: "old_page s1 r va = old_page s r va" by (simp add: old_page_def)
    have ins1: "insertable ow1 s1 fl1 r va pp"
    proof -
      have "first_nonzero s1 r va" if "first_nonzero s r va" "mapping s r va = Some e'" for e'
        by (rule extends_first_nonzero [OF wf r s1(2) that])
      moreover have "ow1 p = ow p" "pages s1 p = pages s p" if "p \<notin> set fl" for p
        using ys that by (auto simp: takes_def)
      ultimately show ?thesis
        using ins map1 ys(1) only_mm_fields(1) [OF extendsD(2) [OF s1(2)]]
        by (auto simp: insertable_def split: option.splits)
    qed
    from clear_entry [OF wf1 r1 ins1 t(2)] obtain s2 fl2 where
      s2: "(if mem s1 t (unat (PTX va)) AND PTE_P \<noteq> 0 then page_remove (r, 0) va s1
                   else Inr ((), s1)) = Inr ((), s2)"
      and wf2: "pt_wf sl ow1 s2 fl2" "pp \<notin> set fl2" "walk s2 r (tbl_idx va) = Some t"
      and k2: "others_kept sl ow1 s1 r va s2" "only_mm_tlb s1 s2"
      and ref2: "\<forall>p. pp_ref (pages s2 p) = pp_ref (pages s1 p) - (if old_page s r va = Some p then 1 else 0)"
      and mem2: "\<forall>p. ow1 p = None \<longrightarrow> mem s2 p = mem s1 p"
      and fl2: "fl2 = (case old_page s r va of None \<Rightarrow> fl1
            | Some q \<Rightarrow> if pp_ref (pages s1 q) = 1 then q # fl1 else fl1)"
      unfolding old1 by blast
    let ?v = "mem s2 t (unat (PTX va)) AND NOT 0xFFF"
    let ?s' = "incref pp (st a e (st a ?v s2))"
    have run: "page_insert (r, 0) pp va perm s = Inr (0, ?s')"
      using s1(1) s2 Some t(1) by (simp add: page_insert_def e_def Let_def)
    have m: "mem ?s' = mem (st (t, unat (PTX va)) e s2)"
      using t(1) by (simp add: st_def incref_def set_pp_ref_def)
    note sm = store_mapping [OF wf2(1) r1 wf2(3) m]
    have "alloc_inv ?s' fl2"
      using pt_wfD(1) [OF wf2(1)] wf2(2) by (simp add: incref_def alloc_inv_set_pp_ref)
    then have wf': "pt_wf sl ow1 ?s' fl2"
      using pt_wfD(3) [OF wf2(1)] sm(4)
      by (intro pt_wf_step [OF wf2(1)]) (auto simp: st_def incref_def set_pp_ref_def)
    have "bit e 0"
    proof -
      have "bit (scast (perm OR 1 :: u32) :: u64) 0" by (simp add: bit_simps)
      then show ?thesis by (simp add: e_def bit_simps)
    qed
    then have "mapping ?s' r va = Some e" using sm(2) by simp
    moreover have "others_kept sl ow s r va ?s'"
      unfolding others_kept_def
    proof (intro allI impI)
      fix r2 va2 assume a: "root_ok sl ow r2 va2" "(r2, pidx va2) \<noteq> (r, pidx va)"
      then have "root_ok sl ow1 r2 va2" using extendsD(4) [OF s1(2)] by (simp add: root_ok_def)
      then show "mapping ?s' r2 va2 = mapping s r2 va2"
        using sm(3) k2(1) extends_mapping [OF s1(2) a(1)] a(2) by (simp add: others_kept_def)
    qed
    moreover have "\<forall>p. p \<notin> set fl \<longrightarrow> pp_ref (pages ?s' p) =
        pp_ref (pages s p) - (if old_page s r va = Some p then 1 else 0) + (if p = pp then 1 else 0)"
      using ref2 ys by (auto simp: st_def incref_def set_pp_ref_def takes_def)
    moreover have "\<forall>p. p \<notin> set fl \<longrightarrow> ow p = None \<longrightarrow> mem ?s' p = mem s p"
      using mem2 ys root_walk_owner [OF wf2(1) r1 wf2(3)] unfolding m by (auto simp: st_def takes_def)
    moreover have "only_mm_tlb s ?s'"
      by (meson only_mm_tlb_ops only_mm_tlb_trans only_mm_tlbI extendsD(2) [OF s1(2)] k2(2))
    ultimately have "inserted sl ow s fl r va pp e ?s'" by (simp add: inserted_def)
    moreover have "set fl2 \<subseteq> set fl \<union> set_option (old_page s r va)"
      using ys(1) by (auto simp: fl2 split: option.splits)
    moreover have "\<forall>p. p \<notin> set fl \<longrightarrow> ow1 p = ow p" using ys by (auto simp: takes_def)
    moreover have "length fl \<le> length fl2 + 3" using len1 by (simp add: fl2 split: option.splits)
    ultimately show ?thesis using run wf' le by blast
  qed
qed

section \<open>A sample address space\<close>

text \<open>
  Ten pages; page 2 is a root whose slot 0 leads through the tables 3, 4 and 5 to page 6
  mapped at address 0x2000; pages 7, 8 and 9 are free. The reference count of page 6 is an
  argument.
\<close>

definition sample_mem :: "nat \<Rightarrow> nat \<Rightarrow> u64" where
  "sample_mem p i =
     (if p = 2 \<and> i = 0 then 0x3007 else if p = 3 \<and> i = 0 then 0x4007
      else if p = 4 \<and> i = 0 then 0x5007 else if p = 5 \<and> i = 2 then 0x6007 else 0)"

definition sample_pages :: "u16 \<Rightarrow> nat \<Rightarrow> PageInfo" where
  "sample_pages n p =
     (if p = 7 then \<lparr>pp_link = Some 8, pp_ref = 0\<rparr>
      else if p = 8 then \<lparr>pp_link = Some 9, pp_ref = 0\<rparr>
      else if p = 9 then \<lparr>pp_link = None, pp_ref = 0\<rparr>
      else if p = 6 then \<lparr>pp_link = None, pp_ref = n\<rparr> else \<lparr>pp_link = None, pp_ref = 1\<rparr>)"

definition sample :: "u16 \<Rightarrow> kstate" where
  "sample n = (bss_state 10 0 0)\<lparr>mem := sample_mem, pages := sample_pages n,
                 page_free_list := Some 7\<rparr>"

definition sample_ow :: owner where
  "sample_ow = [2 \<mapsto> (2, []), 3 \<mapsto> (2, [0]), 4 \<mapsto> (2, [0, 0]), 5 \<mapsto> (2, [0, 0, 0])]"

lemma sample_simps [simp]:
  "npages (sample n) = 10" "mem (sample n) = sample_mem" "pages (sample n) = sample_pages n"
  "page_free_list (sample n) = Some 7" "envs (sample n) = (\<lambda>_. zero_env)"
  "cpus (sample n) = (\<lambda>_. zero_cpu)" "cpu (sample n) = 0"
  by (simp_all add: sample_def)

lemma PPN_numeral: "PPN 0x3007 = 3" "PPN 0x4007 = 4" "PPN 0x5007 = 5" "PPN 0x6007 = 6"
  by (simp_all add: PPN_def)

lemma odd_entries: "bit (0x3007 :: u64) 0" "bit (0x4007 :: u64) 0" "bit (0x5007 :: u64) 0"
    "bit (0x6007 :: u64) 0"
  by (simp_all add: bit_0)

lemma nxt_sample:
  "nxt (sample n) p i = (if p = 2 \<and> i = 0 then Some 3 else if p = 3 \<and> i = 0 then Some 4
      else if p = 4 \<and> i = 0 then Some 5 else if p = 5 \<and> i = 2 then Some 6 else None)"
  by (simp add: nxt_def sample_mem_def odd_entries PPN_numeral)

lemma sample_wf: "pt_wf (\<lambda>_. {0}) sample_ow (sample n) [7, 8, 9]"
proof -
  have "alloc_inv (sample n) [7, 8, 9]"
    by (auto simp: alloc_inv_def freelist_def sample_pages_def)
  then show ?thesis
    by (auto simp: pt_wf_def sample_ow_def nxt_sample slot_ok_def split: if_splits)
qed

lemma sample_va [simp]: "tbl_idx 0x2000 = [0, 0, 0]" "unat (PTX 0x2000) = 2" "unat (PML4 0x2000) = 0"
  "unat (PDPE 0x2000) = 0"
  by (simp_all add: tbl_idx_def unat_PML4 unat_PDPE unat_PDX unat_PTX)

lemma sample_root: "root_ok (\<lambda>_. {0}) sample_ow 2 0x2000"
  by (simp add: root_ok_def sample_ow_def)

lemma sample_mapping: "mapping (sample n) 2 0x2000 = Some 0x6007"
  by (simp add: mapping_def pidx_def nxt_sample) (simp add: sample_mem_def odd_entries)

lemma sample_first: "first_nonzero (sample n) 2 0x2000"
  by (simp add: first_nonzero_def nxt_sample) (simp add: sample_mem_def)

lemma sample_insertable:
  "n \<noteq> 1 \<or> pp \<noteq> 6 \<Longrightarrow> pp < 7 \<Longrightarrow> insertable sample_ow (sample n) [7, 8, 9] 2 0x2000 pp"
  by (auto simp: insertable_def sample_mapping sample_first PPN_numeral sample_ow_def sample_pages_def)

section \<open>Properties\<close>

text \<open>C1: \<open>page_insert\<close>. It never panics. On success the hardware finds at \<open>va\<close> the entry
  \<open>page2pa(pp) | perm | PTE_P\<close>, every other address of every address space is mapped as
  before, the reference count of \<open>pp\<close> went up by one and that of the page formerly
  mapped at \<open>va\<close> down by one, no other allocated page's count changed and no allocated
  page other than a table changed its contents. Its
  only error is \<open>-E_NO_MEM\<close>, possible only with fewer than three free pages, and then no
  mapping and no allocated page's count changed. The page-table invariant is kept.\<close>

theorem page_insert_correct:
  assumes "pt_wf sl ow s fl" and "root_ok sl ow r va" and "insertable ow s fl r va pp"
  shows "\<exists>rc s' ow' fl'. page_insert (r, 0) pp va perm s = Inr (rc, s') \<and>
     pt_wf sl ow' s' fl' \<and> ow \<subseteq>\<^sub>m ow' \<and>
     (\<forall>r' va'. root_ok sl ow r' va' \<longrightarrow> (r', pidx va') \<noteq> (r, pidx va) \<longrightarrow>
        mapping s' r' va' = mapping s r' va') \<and>
     (\<forall>p. p \<notin> set fl \<longrightarrow> ow p = None \<longrightarrow> mem s' p = mem s p) \<and>
     (if rc = 0 then
        mapping s' r va = Some (page2pa pp OR scast (perm OR 1)) \<and>
        (\<forall>p. p \<notin> set fl \<longrightarrow> pp_ref (pages s' p) = pp_ref (pages s p)
           - (if old_page s r va = Some p then 1 else 0) + (if p = pp then 1 else 0))
      else rc = - E_NO_MEM \<and> length fl < 3 \<and> mapping s' r va = mapping s r va \<and>
        (\<forall>p. p \<notin> set fl \<longrightarrow> pp_ref (pages s' p) = pp_ref (pages s p)))"
proof -
  obtain rc s' ow' fl' where run: "page_insert (r, 0) pp va perm s = Inr (rc, s')"
    and wf': "pt_wf sl ow' s' fl'" "ow \<subseteq>\<^sub>m ow'"
    and out: "rc = 0 \<and> inserted sl ow s fl r va pp (page2pa pp OR scast (perm OR 1)) s' \<or>
      rc = - E_NO_MEM \<and> length fl < 3 \<and> extends sl ow s fl ow' s' fl'"
    using page_insert_lemma [OF assms, of perm] by blast
  from out show ?thesis
  proof
    assume "rc = 0 \<and> inserted sl ow s fl r va pp (page2pa pp OR scast (perm OR 1)) s'"
    with run wf' show ?thesis unfolding inserted_def others_kept_def by auto
  next
    assume fail: "rc = - E_NO_MEM \<and> length fl < 3 \<and> extends sl ow s fl ow' s' fl'"
    then have ext: "extends sl ow s fl ow' s' fl'" by simp
    then obtain ys where "fl = ys @ fl'" "takes ow s ow' s' ys" unfolding extends_def by blast
    then have "pp_ref (pages s' p) = pp_ref (pages s p)" "ow p = None \<Longrightarrow> mem s' p = mem s p"
      if "p \<notin> set fl" for p
      using that by (auto simp: takes_def)
    with fail run wf' extends_mapping [OF ext] assms(2) show ?thesis
      by (auto simp: E_NO_MEM_def)
  qed
qed

theorem page_insert_correct_witness:
  "\<exists>s'. page_insert (2, 0) 1 0x2000 7 (sample 1) = Inr (0, s') \<and>
     mapping s' 2 0x2000 = Some (page2pa 1 OR scast ((7 :: u32) OR 1))"
  using page_insert_correct [OF sample_wf sample_root sample_insertable, of 1 1 7]
  by (auto split: if_splits)

text \<open>C2: \<open>page_remove\<close> of a mapped page. Afterwards nothing is mapped at \<open>va\<close>, every
  other mapping of every address space is unchanged, the page's count is one lower and
  no other count changed; a page whose count was 1 is now the head of the free list, else
  the free list is as before; the TLB entry is flushed when the tables are those of the
  current environment or there is none.\<close>

theorem page_remove_correct:
  assumes "pt_wf sl ow s fl" and "root_ok sl ow r va" and "first_nonzero s r va"
    and "mapping s r va = Some e"
    and "q = unat (PPN e)" "q < npages s" "q \<notin> set fl" "ow q = None"
  shows "\<exists>s'. page_remove (r, 0) va s = Inr ((), s') \<and>
     pt_wf sl ow s' (if pp_ref (pages s q) = 1 then q # fl else fl) \<and>
     mapping s' r va = None \<and>
     (\<forall>r' va'. root_ok sl ow r' va' \<longrightarrow> (r', pidx va') \<noteq> (r, pidx va) \<longrightarrow>
        mapping s' r' va' = mapping s r' va') \<and>
     (\<forall>p. pp_ref (pages s' p) = pp_ref (pages s p) - (if p = q then 1 else 0)) \<and>
     invlpgs s' = (if curenv s = None \<or> env_pml4e (envs s (the (curenv s))) = Some (r, 0)
                   then (cpu s, va) # invlpgs s else invlpgs s)"
  using page_remove_unmaps [OF assms] unfolding unmaps_def by blast

theorem page_remove_correct_witness:
  "\<exists>s'. page_remove (2, 0) 0x2000 (sample 1) = Inr ((), s') \<and> mapping s' 2 0x2000 = None \<and>
     pt_wf (\<lambda>_. {0}) sample_ow s' [6, 7, 8, 9]"
  using page_remove_correct [OF sample_wf sample_root sample_first sample_mapping, of 6 1]
  by (auto simp: PPN_numeral sample_ow_def sample_pages_def)

lemma mapping_first_nonzero:
  assumes "mapping s r va = Some e" "PML4 va = 0" "PDPE va = 0"
  shows "first_nonzero s r va"
proof -
  from assms obtain q q' where "nxt s r 0 = Some q" "nxt s q 0 = Some q'"
    by (auto simp: mapping_def pidx_def tbl_idx_def split: option.splits)
  moreover from this have "mem s r 0 \<noteq> 0" "mem s q 0 \<noteq> 0" by (auto simp: nxt_def split: if_splits)
  ultimately show ?thesis using assms(2) by (simp add: first_nonzero_def)
qed

lemma scast_perm_small:
  fixes perm :: u32
  assumes "perm < 4096"
  shows "take_bit 12 (scast (perm OR 1) :: u64) = scast (perm OR 1)"
proof -
  have "unat perm < 4096" using assms by (simp add: word_less_nat_alt)
  then have p: "take_bit 12 perm = perm"
    by (simp add: word_unat_eq_iff unat_take_bit)
  have "take_bit 12 (scast (take_bit 12 perm OR 1) :: u64) = scast (take_bit 12 perm OR 1)"
    by (rule bit_word_eqI) (auto simp: bit_simps)
  with p show ?thesis by simp
qed

text \<open>After a successful \<open>page_insert\<close> with legal permission bits in the first gigabyte,
  \<open>page_lookup\<close> returns the inserted page.\<close>

theorem page_insert_then_lookup:
  assumes "pt_wf sl ow s fl" and "root_ok sl ow r va" and "insertable ow s fl r va pp"
    and "PML4 va = 0" "PDPE va = 0" and "perm < 4096"
    and "page_insert (r, 0) pp va perm s = Inr (0, s')"
  shows "\<exists>s'' ptr. page_lookup (r, 0) va s' = Inr (Some (pp, ptr), s'')"
proof -
  let ?e = "page2pa pp OR scast (perm OR 1)"
  obtain ow' fl' where wf': "pt_wf sl ow' s' fl'" "ow \<subseteq>\<^sub>m ow'"
    and ins: "inserted sl ow s fl r va pp ?e s'"
    using page_insert_lemma [OF assms(1-3), of perm] assms(7) by (auto simp: E_NO_MEM_def)
  have map: "mapping s' r va = Some ?e" using ins by (simp add: inserted_def)
  have pp: "pp < npages s" "npages s' = npages s" "npages s \<le> 2 ^ 32"
    using assms(3) pt_wf_npages [OF assms(1)] only_mm_tlb_fields(1) ins
    by (auto simp: insertable_def inserted_def)
  have e: "unat (PPN ?e) = pp"
    using PPN_or_small [OF scast_perm_small [OF assms(6)]] pp
    by (simp add: unat_PPN_page2pa page_number_bound)
  have "root_ok sl ow' r va" using assms(2) wf'(2) by (auto simp: root_ok_def map_le_def dom_def)
  moreover have "in_range s' r va" using map e pp by (simp add: in_range_def)
  moreover have "first_nonzero s' r va" by (rule mapping_first_nonzero [OF map assms(4,5)])
  ultimately show ?thesis
    using page_lookup_lemma [OF wf'(1), of r va] map e by (auto simp: found_at_def)
qed

theorem page_insert_then_lookup_witness:
  "\<exists>s' s'' ptr. page_insert (2, 0) 1 0x2000 7 (sample 1) = Inr (0, s') \<and>
     page_lookup (2, 0) 0x2000 s' = Inr (Some (1, ptr), s'')"
proof -
  obtain rc s' ow' fl' where ins: "page_insert (2, 0) 1 0x2000 7 (sample 1) = Inr (rc, s')"
      "rc = 0 \<or> length [7, 8, 9 :: nat] < 3"
    using page_insert_lemma [OF sample_wf sample_root sample_insertable, of 1 1 7] by auto
  moreover have "PML4 0x2000 = 0" "PDPE 0x2000 = 0" by (simp_all add: PML4_def PDPE_def)
  ultimately show ?thesis
    using page_insert_then_lookup [OF sample_wf sample_root sample_insertable, of 1 1 7 s'] by auto
qed

text \<open>The lookup is blind when the first entry of the top-level table is 0. Although an
  address is mapped, \<open>page_lookup\<close> returns \<open>NULL\<close> and \<open>page_remove\<close> leaves the mapping
  in place: the walkers test \<open>*pml4e\<close> where the entry of the address is meant.\<close>

theorem lookup_blind_without_slot0:
  assumes "mem s r 0 = 0" and "mapping s r va = Some e"
  shows "page_lookup (r, 0) va s = Inr (None, s) \<and>
     (\<exists>s'. page_remove (r, 0) va s = Inr ((), s') \<and> mapping s' r va = Some e)"
  using assms by (simp add: page_lookup_def page_remove_def pml4e_walk_def)

theorem lookup_blind_without_slot0_witness:
  "mapping ((bss_state 10 0 0)\<lparr>mem := (\<lambda>p i. if p = 2 \<and> i = 1 then 0x3007 else
     if 3 \<le> p \<and> p < 6 \<and> i = 0 then push_bit 12 (of_nat p + 1) OR 7 else 0)\<rparr>) 2 0x8000000000
     = Some 0x6007 \<and>
   page_lookup (2, 0) 0x8000000000
     ((bss_state 10 0 0)\<lparr>mem := (\<lambda>p i. if p = 2 \<and> i = 1 then 0x3007 else
     if 3 \<le> p \<and> p < 6 \<and> i = 0 then push_bit 12 (of_nat p + 1) OR 7 else 0)\<rparr>) =
     Inr (None, (bss_state 10 0 0)\<lparr>mem := (\<lambda>p i. if p = 2 \<and> i = 1 then 0x3007 else
     if 3 \<le> p \<and> p < 6 \<and> i = 0 then push_bit 12 (of_nat p + 1) OR 7 else 0)\<rparr>)"
proof -
  let ?s = "(bss_state 10 0 0)\<lparr>mem := (\<lambda>p i. if p = 2 \<and> i = 1 then 0x3007 else
     if 3 \<le> p \<and> p < 6 \<and> i = 0 then push_bit 12 (of_nat p + 1) OR 7 else 0)\<rparr>"
  have va: "pidx 0x8000000000 = [1, 0, 0, 0]"
    by (simp add: pidx_def tbl_idx_def unat_PML4 unat_PDPE unat_PDX unat_PTX)
  have "mapping ?s 2 0x8000000000 = Some 0x6007"
    unfolding mapping_def va by (simp add: nxt_def PPN_numeral bit_0)
  with lookup_blind_without_slot0 [of ?s 2 "0x8000000000" "0x6007"] show ?thesis by simp
qed

text \<open>\<open>page_remove\<close> of an unmapped address. Without a page table for the address it
  does nothing, as its comment says; with one, the null result of \<open>page_lookup\<close> is
  handed to \<open>page_decref\<close>, which dereferences it.\<close>

theorem page_remove_unmapped:
  assumes "pt_wf sl ow s fl" and "root_ok sl ow r va" and "first_nonzero s r va"
    and "mapping s r va = None"
  shows "\<exists>s'. page_remove (r, 0) va s =
     (if walk s r (tbl_idx va) = None then Inr ((), s') else Inl (NullDeref, s')) \<and>
     extends sl ow s fl ow s' fl"
proof (cases "walk s r (tbl_idx va)")
  case None
  from assms(2) have r': "ow r = Some (r, [])" "unat (PML4 va) \<in> sl r" by (simp_all add: root_ok_def)
  obtain s' where "extends sl ow s fl ow s' fl" "pml4e_walk (r, 0) va False s = Inr (None, s')"
    using pml4e_walk_lookup [OF assms(1) r'] None by auto
  with None show ?thesis by (auto simp: page_remove_def)
next
  case (Some t)
  have "in_range s r va" using assms(4) by (simp add: in_range_def)
  from removal_finds [OF assms(1,2) this assms(3) Some] assms(4) Some show ?thesis
    by (auto simp: found_at_def)
qed

theorem page_remove_unmapped_witness:
  "\<exists>s'. page_remove (2, 0) 0x3000 (sample 1) = Inl (NullDeref, s')"
proof -
  have va: "tbl_idx 0x3000 = [0, 0, 0]" "unat (PTX 0x3000) = 3" "unat (PML4 0x3000) = 0"
    by (simp_all add: tbl_idx_def unat_PML4 unat_PDPE unat_PDX unat_PTX)
  have "root_ok (\<lambda>_. {0}) sample_ow 2 0x3000" "mapping (sample 1) 2 0x3000 = None"
    "first_nonzero (sample 1) 2 0x3000" "walk (sample 1) 2 (tbl_idx 0x3000) = Some 5"
    using va by (simp_all add: root_ok_def sample_ow_def mapping_def pidx_def nxt_sample
        first_nonzero_def) (simp_all add: sample_mem_def)
  with page_remove_unmapped [OF sample_wf [of 1], of 2 "0x3000"] show ?thesis by auto
qed

text \<open>The corner case of the comment above \<open>page_insert\<close>. Inserting a page again at the
  address where it is mapped, when that mapping is its only reference, succeeds and leaves
  the page mapped with count 1, but also at the head of the free list: the next
  \<open>page_alloc\<close> hands it out again.\<close>

theorem page_insert_again_frees:
  assumes wf: "pt_wf sl ow s fl" and r: "root_ok sl ow r va" and f: "first_nonzero s r va"
    and map: "mapping s r va = Some e0" "unat (PPN e0) = pp"
    and pp: "pp < npages s" "pp \<notin> set fl" "ow pp = None" "pp_ref (pages s pp) = 1"
  shows "\<exists>s' s''. page_insert (r, 0) pp va perm s = Inr (0, s') \<and>
     mapping s' r va = Some (page2pa pp OR scast (perm OR 1)) \<and> pp_ref (pages s' pp) = 1 \<and>
     page_alloc 0 s' = Inr (Some pp, s'')"
proof -
  obtain t where t: "walk s r (tbl_idx va) = Some t"
    using map(1) mapping_walk_None by fastforce
  obtain s1 where s1: "pml4e_walk (r, 0) va True s = Inr (Some (t, unat (PTX va)), s1)"
      "extends sl ow s fl ow s1 fl" "same_tables ow s s1"
    using pml4e_walk_existing [OF wf r t] by blast
  note wf1 = extendsD(1) [OF s1(2)]
  have map1: "mapping s1 r va = Some e0" using extends_mapping [OF s1(2) r] map(1) by simp
  have t1: "walk s1 r (tbl_idx va) = Some t" using same_tables_walk [OF s1(3)] t by simp
  have pg: "pages s1 = pages s" "npages s1 = npages s" using same_tables_pages [OF s1(3)] by auto
  obtain s2 where s2: "page_remove (r, 0) va s1 = Inr ((), s2)" "unmaps sl ow s1 fl r va pp s2"
    using page_remove_unmaps [OF wf1 r extends_first_nonzero [OF wf r s1(2) f map(1)] map1, of pp]
      map(2) pp pg by auto
  have wf2: "pt_wf sl ow s2 (pp # fl)" "walk s2 r (tbl_idx va) = Some t" "pp_ref (pages s2 pp) = 0"
    using s2(2) pp(4) pg t1 by (simp_all add: unmaps_def)
  have "bit (mem s1 t (unat (PTX va))) 0"
    using mapping_walk [OF t1] map1 by (simp split: if_splits)
  then have present: "mem s1 t (unat (PTX va)) AND PTE_P \<noteq> 0" using PTE_P_bit by blast
  let ?e = "page2pa pp OR scast (perm OR 1)"
  let ?s' = "incref pp (st (t, unat (PTX va)) ?e (st (t, unat (PTX va))
               (mem s2 t (unat (PTX va)) AND NOT 0xFFF) s2))"
  have "page_insert (r, 0) pp va perm s = Inr (0, ?s')"
    using s1(1) s2(1) present by (simp add: page_insert_def Let_def)
  moreover have "mapping ?s' r va = Some ?e"
  proof -
    have "bit (scast (perm OR 1 :: u32) :: u64) 0" by (simp add: bit_simps)
    then show ?thesis
      using store_mapping(2) [OF wf2(1) r wf2(2), of ?s' ?e]
      by (simp add: st_def incref_def set_pp_ref_def bit_simps)
  qed
  moreover have "pp_ref (pages ?s' pp) = 1"
    using wf2(3) by (simp add: st_def incref_def set_pp_ref_def)
  moreover have "page_free_list ?s' = Some pp"
    using pt_wfD(1) [OF wf2(1)]
    by (simp add: alloc_inv_def freelist_def st_def incref_def set_pp_ref_def)
  ultimately show ?thesis by (auto simp: page_alloc_def)
qed

theorem page_insert_again_frees_witness:
  "\<exists>s' s''. page_insert (2, 0) 6 0x2000 7 (sample 1) = Inr (0, s') \<and>
     mapping s' 2 0x2000 = Some (page2pa 6 OR scast ((7 :: u32) OR 1)) \<and>
     page_alloc 0 s' = Inr (Some 6, s'')"
  using page_insert_again_frees [OF sample_wf [of 1] sample_root sample_first sample_mapping, of 6 7]
  by (auto simp: PPN_numeral sample_ow_def sample_pages_def)

end
