(* ===== verification/Pmap_Region.thy ===== *)
theory Pmap_Region
  imports Pmap_Insert
begin

text \<open>
  The operations of \<open>kern/pmap.c\<close> that work on a range of addresses:
  \<open>boot_map_region\<close> and \<open>mmio_map_region\<close> map consecutive pages, \<open>user_mem_check\<close>
  tests them.
\<close>

section \<open>Consecutive pages have different indices\<close>

definition nth_page :: "u64 \<Rightarrow> nat \<Rightarrow> u64" where
  "nth_page la i = la + of_nat i * PGSIZE"

lemma nth_page_0 [simp]: "nth_page la 0 = la"
  by (simp add: nth_page_def)

lemma nth_page_Suc: "nth_page (la + PGSIZE) i = nth_page la (Suc i)"
  by (simp add: nth_page_def algebra_simps)

lemma unat_nth_page:
  assumes "unat la + i * 4096 < 2 ^ 64"
  shows "unat (nth_page la i) = unat la + i * 4096"
proof -
  have i: "i * 4096 < 2 ^ 64" using assms by simp
  then have "unat (of_nat i * PGSIZE :: u64) = i * 4096"
    by (simp add: PGSIZE_def unat_word_ariths unat_of_nat)
  with assms show ?thesis by (simp add: nth_page_def unat_word_ariths)
qed

lemma pidx_PPN:
  assumes "pidx a = pidx b" "unat a < 2 ^ 48" "unat b < 2 ^ 48"
  shows "unat a div 4096 = unat b div 4096"
proof -
  from assms(1) have "PML4 a = PML4 b" "PDPE a = PDPE b" "PDX a = PDX b" "PTX a = PTX b"
    by (simp_all add: pidx_def tbl_idx_def word_unat_eq_iff)
  moreover have "a < 2 ^ 48" "b < 2 ^ 48" using assms(2,3) by (simp_all add: word_less_nat_alt)
  ultimately have "PPN a = PPN b" by (rule same_indices_same_page)
  then show ?thesis by (metis unat_PPN)
qed

lemma pidx_nth_page:
  assumes "pidx (nth_page la i) = pidx (nth_page la j)" "unat la + n * 4096 \<le> 2 ^ 48" "i < n" "j < n"
  shows "i = j"
proof -
  have u: "unat (nth_page la k) = unat la + k * 4096" "unat la + k * 4096 < 2 ^ 48" if "k < n" for k
  proof -
    from that have "k * 4096 < n * 4096" by simp
    with assms(2) show "unat la + k * 4096 < 2 ^ 48" by linarith
    then show "unat (nth_page la k) = unat la + k * 4096" by (simp add: unat_nth_page)
  qed
  from pidx_PPN [OF assms(1)] u [OF assms(3)] u [OF assms(4)]
  have "(unat la + i * 4096) div 4096 = (unat la + j * 4096) div 4096" by simp
  then show ?thesis by simp
qed

section \<open>boot\_map\_region\<close>

text \<open>
  The number of page tables that the \<open>n\<close> pages from \<open>la\<close> use: the two-megabyte blocks touched.
\<close>

definition pt_blocks :: "u64 \<Rightarrow> nat \<Rightarrow> nat" where
  "pt_blocks la n = (if n = 0 then 0 else (unat la + (n - 1) * 4096) div 2 ^ 21 - unat la div 2 ^ 21 + 1)"

text \<open>The free pages that a walk to \<open>la\<close> may need.\<close>

definition walk_cost :: "kstate \<Rightarrow> nat \<Rightarrow> u64 \<Rightarrow> nat" where
  "walk_cost s r la = (if walk s r (tbl_idx la) = None then 3 else 0)"

lemma tbl_idx_cong: "unat a div 2 ^ 21 = unat b div 2 ^ 21 \<Longrightarrow> tbl_idx a = tbl_idx b"
proof -
  assume a: "unat a div 2 ^ 21 = unat b div 2 ^ 21"
  have d: "x div 1073741824 = x div 2 ^ 21 div 512" "x div 549755813888 = x div 2 ^ 21 div 262144" for x :: nat
    using div_mult2_eq [of x "2 ^ 21" 512] div_mult2_eq [of x "2 ^ 21" 262144] by simp_all
  show ?thesis using a by (simp add: tbl_idx_def unat_PML4 unat_PDPE unat_PDX d)
qed

lemma pt_blocks_Suc:
  assumes "unat la + Suc n * 4096 \<le> 2 ^ 48" "0 < n"
  shows "pt_blocks la (Suc n) = pt_blocks (la + PGSIZE) n +
    (if unat (la + PGSIZE) div 2 ^ 21 = unat la div 2 ^ 21 then 0 else 1)"
proof -
  have u: "unat (la + PGSIZE) = unat la + 4096"
    using unat_nth_page [of la 1] assms(1) by (simp add: nth_page_def)
  obtain m where m: "n = Suc m" using assms(2) by (cases n) auto
  have "unat la div 2 ^ 21 \<le> (unat la + 4096) div 2 ^ 21"
    "(unat la + 4096) div 2 ^ 21 \<le> unat la div 2 ^ 21 + 1"
    "(unat la + 4096) div 2 ^ 21 \<le> (unat la + 4096 + m * 4096) div 2 ^ 21"
    by (simp_all add: div_le_mono)
  moreover have "unat la + (Suc n - 1) * 4096 = unat la + 4096 + m * 4096" by (simp add: m)
  ultimately show ?thesis using assms(2) by (simp add: pt_blocks_def u m add.assoc) linarith
qed

lemma pgdir_walk_known:
  assumes wf: "pt_wf sl ow s fl" and p: "ow p = Some (r, is)" "slot_ok sl r is (unat (PDX va))"
    and q: "nxt s p (unat (PDX va)) = Some q"
  shows "pgdir_walk (p, 0) va True s = Inr (Some (q, unat (PTX va)), s)"
  using KADDR_pte [OF pt_wf_npages [OF wf], of "mem s p (unat (PDX va))" va] nxt_in_range [OF wf p q]
  by (simp add: pgdir_walk_def PTE_P_bit)

text \<open>A creating walk along existing tables takes no free page.\<close>

lemma pml4e_walk_known:
  assumes wf: "pt_wf sl ow s fl" and r: "root_ok sl ow r va" and t: "walk s r (tbl_idx va) = Some t"
  shows "\<exists>s1. pml4e_walk (r, 0) va True s = Inr (Some (t, unat (PTX va)), s1) \<and>
     extends sl ow s fl ow s1 fl \<and> walk s1 r (tbl_idx va) = Some t"
proof -
  from t obtain p q where p: "nxt s r (unat (PML4 va)) = Some p" "nxt s p (unat (PDPE va)) = Some q"
      "nxt s q (unat (PDX va)) = Some t"
    by (auto simp: tbl_idx_def split: option.splits)
  have ok: "ow r = Some (r, [])" "slot_ok sl r [] (unat (PML4 va))"
    using r by (simp_all add: root_ok_def slot_ok_def)
  note p' = nxt_in_range [OF wf ok p(1)]
  have okp: "slot_ok sl r [unat (PML4 va)] (unat (PDPE va))" by (simp add: slot_ok_def)
  have op: "ow p = Some (r, [unat (PML4 va)])" using p' by simp
  note q' = nxt_in_range [OF wf op okp p(2)]
  let ?s = "st (p, unat (PDPE va)) (table_entry (mem s p (unat (PDPE va)))) s"
  have ext: "extends sl ow s fl ow ?s fl" and nx: "nxt ?s p (unat (PDPE va)) = Some q"
    using rewrite_entry [OF wf op _ p(2)] by simp_all
  note wf' = extendsD(1) [OF ext]
  have nq: "nxt ?s q (unat (PDX va)) = Some t" "nxt ?s r (unat (PML4 va)) = Some p"
    using extendsD(5) [OF ext] p q' ok by blast+
  have k1: "KADDR (PTE_ADDR (mem s r (unat (PML4 va)))) s = Inr ((p, 0), s)"
    using KADDR_table [of s "mem s r (unat (PML4 va))"] p' pt_wf_npages [OF wf] by simp
  have k2: "KADDR (PTE_ADDR (table_entry (mem s p (unat (PDPE va))))) ?s = Inr ((q, 0), ?s)"
    using KADDR_table [of ?s "table_entry (mem s p (unat (PDPE va)))"] q' pt_wf_npages [OF wf']
    by (simp add: only_mm_fields(1) [OF extendsD(2) [OF ext]])
  have "pml4e_walk (r, 0) va True s = pdpe_walk (p, 0) va True s"
    using p' k1 by (simp add: pml4e_walk_def PTE_P_bit)
  also have "\<dots> = pgdir_walk (q, 0) va True ?s"
    using q' k2 by (simp add: pdpe_walk_def PTE_P_bit Let_def)
  also have "\<dots> = Inr (Some (t, unat (PTX va)), ?s)"
    using q' by (intro pgdir_walk_known [OF wf' _ _ nq(1)]) (auto simp: slot_ok_def)
  finally show ?thesis
    using ext nx nq by (intro exI [of _ ?s]) (simp add: tbl_idx_def)
qed

lemma pml4e_walk_cost:
  assumes wf: "pt_wf sl ow s fl" and r: "root_ok sl ow r la"
  obtains ptr ow1 s1 fl1 where "pml4e_walk (r, 0) la True s = Inr (ptr, s1)"
      "extends sl ow s fl ow1 s1 fl1" "length fl \<le> length fl1 + walk_cost s r la"
      "case ptr of None \<Rightarrow> length fl < walk_cost s r la
       | Some a \<Rightarrow> \<exists>t. a = (t, unat (PTX la)) \<and> walk s1 r (tbl_idx la) = Some t"
proof (cases "walk s r (tbl_idx la)")
  case None
  from r have r': "ow r = Some (r, [])" "unat (PML4 la) \<in> sl r" by (simp_all add: root_ok_def)
  obtain ptr ow1 s1 fl1 where "pml4e_walk (r, 0) la True s = Inr (ptr, s1)"
      "extends sl ow s fl ow1 s1 fl1" "length fl \<le> length fl1 + 3"
      "case ptr of None \<Rightarrow> length fl < 3 \<and> fl1 = []
       | Some a \<Rightarrow> \<exists>t. a = (t, unat (PTX la)) \<and> walk s1 r (tbl_idx la) = Some t \<and>
           ow1 t = Some (fst (r, [] :: nat list), snd (r, []) @ tbl_idx la)"
    using pml4e_walk_create [OF wf r'] unfolding walk_post_def by blast
  moreover have "walk_cost s r la = 3" using None by (simp add: walk_cost_def)
  ultimately show thesis by (intro that [of ptr s1 ow1 fl1]) (auto split: option.splits)
next
  case (Some t)
  then obtain s1 where "pml4e_walk (r, 0) la True s = Inr (Some (t, unat (PTX la)), s1)"
      "extends sl ow s fl ow s1 fl" "walk s1 r (tbl_idx la) = Some t"
    using pml4e_walk_known [OF wf r] by blast
  then show thesis by (intro that [of "Some (t, unat (PTX la))" s1 ow fl]) simp_all
qed

definition region_mapped :: "nat \<Rightarrow> nat \<Rightarrow> u64 \<Rightarrow> u64 \<Rightarrow> u32 \<Rightarrow> kstate \<Rightarrow> bool" where
  "region_mapped n r la pa perm s \<longleftrightarrow>
     (\<forall>i < n. mapping s r (nth_page la i) = Some (nth_page pa i OR scast perm OR PTE_P))"

definition outside_kept :: "(nat \<Rightarrow> nat set) \<Rightarrow> owner \<Rightarrow> nat \<Rightarrow> nat \<Rightarrow> u64 \<Rightarrow> kstate \<Rightarrow> kstate \<Rightarrow> bool" where
  "outside_kept sl ow n r la s s' \<longleftrightarrow>
     (\<forall>r' va'. root_ok sl ow r' va' \<longrightarrow> (\<forall>i < n. (r', pidx va') \<noteq> (r, pidx (nth_page la i))) \<longrightarrow>
        mapping s' r' va' = mapping s r' va')"

definition refs_kept :: "nat list \<Rightarrow> kstate \<Rightarrow> kstate \<Rightarrow> bool" where
  "refs_kept fl s s' \<longleftrightarrow> (\<forall>p. p \<notin> set fl \<longrightarrow> pp_ref (pages s' p) = pp_ref (pages s p))"

lemma npages_st [simp]: "npages (st a v s) = npages s"
  by (simp add: st_def)

text \<open>One turn of the loop.\<close>

lemma boot_map_step:
  assumes wf: "pt_wf sl ow s fl" and r: "root_ok sl ow r la" and e: "bit e 0"
  shows "(\<exists>s1. pml4e_walk (r, 0) la True s = Inr (None, s1) \<and> length fl < walk_cost s r la \<and> only_mm s s1) \<or>
    (\<exists>t s1 ow1 fl1. pml4e_walk (r, 0) la True s = Inr (Some (t, unat (PTX la)), s1) \<and>
       (let s' = st (t, unat (PTX la)) e s1 in
        pt_wf sl ow1 s' fl1 \<and> ow \<subseteq>\<^sub>m ow1 \<and> length fl \<le> length fl1 + walk_cost s r la \<and> set fl1 \<subseteq> set fl \<and>
        mapping s' r la = Some e \<and> others_kept sl ow s r la s' \<and> refs_kept fl s s' \<and> only_mm s s' \<and>
        walk s' r (tbl_idx la) = Some t))"
proof -
  obtain ptr ow1 s1 fl1 where s1: "pml4e_walk (r, 0) la True s = Inr (ptr, s1)"
      "extends sl ow s fl ow1 s1 fl1" and len: "length fl \<le> length fl1 + walk_cost s r la"
    and out: "case ptr of None \<Rightarrow> length fl < walk_cost s r la
       | Some a \<Rightarrow> \<exists>t. a = (t, unat (PTX la)) \<and> walk s1 r (tbl_idx la) = Some t"
    by (rule pml4e_walk_cost [OF wf r]) (rule that)
  note wf1 = extendsD(1) [OF s1(2)] and mm = extendsD(2) [OF s1(2)]
  show ?thesis
  proof (cases ptr)
    case None
    with s1 out mm show ?thesis by auto
  next
    case (Some a)
    with out obtain t where t: "a = (t, unat (PTX la))" "walk s1 r (tbl_idx la) = Some t" by auto
    let ?s' = "st (t, unat (PTX la)) e s1"
    have le: "ow \<subseteq>\<^sub>m ow1" using s1(2) by (simp add: extends_def)
    have r1: "root_ok sl ow1 r la" using r extendsD(4) [OF s1(2)] by (simp add: root_ok_def)
    note sm = store_mapping [OF wf1 r1 t(2), of ?s' e]
    obtain ys where ys: "fl = ys @ fl1" "takes ow s ow1 s1 ys" using s1(2) unfolding extends_def by blast
    have "pt_wf sl ow1 ?s' fl1"
      using pt_wfD(1,3) [OF wf1] sm(4) by (intro pt_wf_step [OF wf1]) auto
    moreover have "others_kept sl ow s r la ?s'"
      using sm(3) extends_mapping [OF s1(2)] extendsD(4) [OF s1(2)]
      by (simp add: others_kept_def root_ok_def)
    moreover have "refs_kept fl s ?s'" using ys by (auto simp: refs_kept_def takes_def st_def)
    moreover have "only_mm s ?s'"
      using mm by (rule only_mm_trans) (simp add: only_mm_def st_def)
    moreover have "set fl1 \<subseteq> set fl" using ys(1) by simp
    moreover have "mapping ?s' r la = Some e" using sm(2) e by simp
    moreover have "walk ?s' r (tbl_idx la) = Some t"
      using sm(1) t(2) by simp
    ultimately show ?thesis
      using s1(1) Some t(1) le len unfolding Let_def
      by (intro disjI2 exI [of _ t] exI [of _ s1] exI [of _ ow1] exI [of _ fl1]) blast
  qed
qed

definition region_done :: "nat \<Rightarrow> (nat \<Rightarrow> nat set) \<Rightarrow> owner \<Rightarrow> nat list \<Rightarrow> nat \<Rightarrow> nat \<Rightarrow> u64 \<Rightarrow> u64 \<Rightarrow> u32 \<Rightarrow>
    kstate \<Rightarrow> kstate \<Rightarrow> bool" where
  "region_done k sl ow fl n r la pa perm s s' \<longleftrightarrow>
     (\<exists>ow' fl'. pt_wf sl ow' s' fl' \<and> ow \<subseteq>\<^sub>m ow' \<and> set fl' \<subseteq> set fl \<and> length fl \<le> length fl' + k) \<and>
     region_mapped n r la pa perm s' \<and> outside_kept sl ow n r la s s' \<and>
     refs_kept fl s s' \<and> only_mm s s'"

lemma region_done_step:
  assumes one: "ow \<subseteq>\<^sub>m ow1" "set fl1 \<subseteq> set fl" "mapping s1 r la = Some (pa OR scast perm OR PTE_P)"
      "others_kept sl ow s r la s1" "refs_kept fl s s1" "only_mm s s1"
    and r: "ow r = Some (r, [])" "\<forall>i < Suc n. unat (PML4 (nth_page la i)) \<in> sl r"
    and la: "unat la + Suc n * 4096 \<le> 2 ^ 48"
    and rest: "region_done k sl ow1 fl1 n r (la + PGSIZE) (pa + PGSIZE) perm s1 s'"
    and k: "length fl \<le> length fl1 + c" "c + k \<le> k'"
  shows "region_done k' sl ow fl (Suc n) r la pa perm s s'"
proof -
  have ow1: "ow1 p = Some z" if "ow p = Some z" for p z
    using one(1) that by (metis domI map_le_def)
  have ok1: "root_ok sl ow1 r' va'" if "root_ok sl ow r' va'" for r' va'
    using that ow1 by (simp add: root_ok_def)
  have la0: "mapping s' r la = mapping s1 r la"
  proof -
    have "pidx la \<noteq> pidx (nth_page la (Suc i))" if "i < n" for i
      using pidx_nth_page [OF _ la, of 0 "Suc i"] that by auto
    moreover have "root_ok sl ow1 r la" using ok1 r by (force simp: root_ok_def)
    ultimately show ?thesis
      using rest by (simp add: region_done_def outside_kept_def nth_page_Suc)
  qed
  have "region_mapped (Suc n) r la pa perm s'"
    unfolding region_mapped_def
  proof (intro allI impI)
    fix i assume "i < Suc n"
    then show "mapping s' r (nth_page la i) = Some (nth_page pa i OR scast perm OR PTE_P)"
      using rest la0 one(3) by (cases i) (simp_all add: region_done_def region_mapped_def nth_page_Suc)
  qed
  moreover have "outside_kept sl ow (Suc n) r la s s'"
    unfolding outside_kept_def
  proof (intro allI impI)
    fix r' va' assume a: "root_ok sl ow r' va'"
      "\<forall>i < Suc n. (r', pidx va') \<noteq> (r, pidx (nth_page la i))"
    then have "mapping s' r' va' = mapping s1 r' va'"
      using rest ok1 [OF a(1)] by (auto simp: region_done_def outside_kept_def nth_page_Suc)
    also have "\<dots> = mapping s r' va'"
      using one(4) a(1) a(2) [rule_format, of 0] by (simp add: others_kept_def)
    finally show "mapping s' r' va' = mapping s r' va'" .
  qed
  moreover have "refs_kept fl s s'"
    using one(2,5) rest by (auto simp: refs_kept_def region_done_def)
  moreover have "only_mm s s'" using one(6) rest only_mm_trans by (auto simp: region_done_def)
  moreover have "\<exists>ow' fl'. pt_wf sl ow' s' fl' \<and> ow \<subseteq>\<^sub>m ow' \<and> set fl' \<subseteq> set fl \<and> length fl \<le> length fl' + k'"
  proof -
    from rest obtain ow' fl' where "pt_wf sl ow' s' fl'" "ow1 \<subseteq>\<^sub>m ow'" "set fl' \<subseteq> set fl1"
        "length fl1 \<le> length fl' + k"
      unfolding region_done_def by blast
    with one(1,2) k show ?thesis
      by (intro exI [of _ ow'] exI [of _ fl']) (auto intro: map_le_trans)
  qed
  ultimately show ?thesis by (simp add: region_done_def)
qed

text \<open>The free pages that mapping \<open>n\<close> pages from \<open>la\<close> may need, with the first table known or not.\<close>

definition region_cost :: "kstate \<Rightarrow> nat \<Rightarrow> u64 \<Rightarrow> nat \<Rightarrow> nat" where
  "region_cost s r la n =
     (if n = 0 then 0 else 3 * pt_blocks la n - (if walk s r (tbl_idx la) = None then 0 else 3))"

lemma region_cost_le: "region_cost s r la n \<le> 3 * pt_blocks la n"
  by (simp add: region_cost_def pt_blocks_def)

lemma region_cost_Suc:
  assumes "unat la + Suc n * 4096 \<le> 2 ^ 48" and w: "walk s1 r (tbl_idx la) = Some t"
  shows "walk_cost s r la + region_cost s1 r (la + PGSIZE) n \<le> region_cost s r la (Suc n)"
proof (cases "n = 0")
  case True
  then show ?thesis by (simp add: region_cost_def walk_cost_def pt_blocks_def)
next
  case False
  have pos: "0 < pt_blocks (la + PGSIZE) n" using False by (simp add: pt_blocks_def)
  show ?thesis
  proof (cases "unat (la + PGSIZE) div 2 ^ 21 = unat la div 2 ^ 21")
    case True
    then have "walk s1 r (tbl_idx (la + PGSIZE)) = Some t" using w tbl_idx_cong by metis
    moreover have "pt_blocks la (Suc n) = pt_blocks (la + PGSIZE) n"
      using pt_blocks_Suc [OF assms(1)] False True by simp
    ultimately show ?thesis using False pos by (simp add: region_cost_def walk_cost_def)
  next
    case diff: False
    then have "pt_blocks la (Suc n) = pt_blocks (la + PGSIZE) n + 1"
      using pt_blocks_Suc [OF assms(1)] False by simp
    with False pos show ?thesis by (simp add: region_cost_def walk_cost_def)
  qed
qed

lemma boot_map_loop_lemma:
  assumes "pt_wf sl ow s fl" "ow r = Some (r, [])" "\<forall>i < n. unat (PML4 (nth_page la i)) \<in> sl r"
    and "unat la + n * 4096 \<le> 2 ^ 48"
  shows "(\<exists>s'. boot_map_loop n (r, 0) la pa perm s = Inr ((), s') \<and>
       region_done (region_cost s r la n) sl ow fl n r la pa perm s s') \<or>
     (\<exists>s'. boot_map_loop n (r, 0) la pa perm s = Inl (NullDeref, s') \<and> length fl < region_cost s r la n)"
  using assms
proof (induction n arbitrary: s ow fl la pa)
  case 0
  then have "region_done (region_cost s r la 0) sl ow fl 0 r la pa perm s s"
    unfolding region_done_def region_mapped_def outside_kept_def refs_kept_def only_mm_def
    by (auto intro!: exI [of _ ow] exI [of _ fl])
  then show ?case by simp
next
  case (Suc n)
  let ?e = "pa OR scast perm OR PTE_P"
  have e: "bit ?e 0" by (simp add: bit_simps PTE_P_def)
  have r: "root_ok sl ow r la" using Suc.prems(2,3) by (auto simp: root_ok_def)
  from boot_map_step [OF Suc.prems(1) r e] show ?case
  proof (elim disjE exE conjE)
    fix s1 assume "pml4e_walk (r, 0) la True s = Inr (None, s1)" "length fl < walk_cost s r la"
    moreover have "walk_cost s r la \<le> region_cost s r la (Suc n)"
      by (simp add: walk_cost_def region_cost_def pt_blocks_def)
    ultimately show ?thesis by simp
  next
    fix t s1 ow1 fl1 assume w: "pml4e_walk (r, 0) la True s = Inr (Some (t, unat (PTX la)), s1)"
    let ?s1 = "st (t, unat (PTX la)) ?e s1"
    assume "let s' = ?s1 in
        pt_wf sl ow1 s' fl1 \<and> ow \<subseteq>\<^sub>m ow1 \<and> length fl \<le> length fl1 + walk_cost s r la \<and> set fl1 \<subseteq> set fl \<and>
        mapping s' r la = Some ?e \<and> others_kept sl ow s r la s' \<and> refs_kept fl s s' \<and> only_mm s s' \<and>
        walk s' r (tbl_idx la) = Some t"
    then have one: "pt_wf sl ow1 ?s1 fl1" "ow \<subseteq>\<^sub>m ow1" "length fl \<le> length fl1 + walk_cost s r la"
        "set fl1 \<subseteq> set fl" "mapping ?s1 r la = Some ?e" "others_kept sl ow s r la ?s1"
        "refs_kept fl s ?s1" "only_mm s ?s1" "walk ?s1 r (tbl_idx la) = Some t"
      unfolding Let_def by blast+
    have run: "boot_map_loop (Suc n) (r, 0) la pa perm s =
        boot_map_loop n (r, 0) (la + PGSIZE) (pa + PGSIZE) perm ?s1"
      using w by simp
    note cost = region_cost_Suc [OF Suc.prems(4) one(9), of s]
    have "ow1 r = Some (r, [])" using one(2) Suc.prems(2) by (metis domI map_le_def)
    moreover have "unat (la + PGSIZE) + n * 4096 \<le> 2 ^ 48"
      using unat_nth_page [of la 1] Suc.prems(4) by (simp add: nth_page_def)
    moreover have "\<forall>i < n. unat (PML4 (nth_page (la + PGSIZE) i)) \<in> sl r"
      using Suc.prems(3) by (simp add: nth_page_Suc)
    ultimately have "(\<exists>s'. boot_map_loop n (r, 0) (la + PGSIZE) (pa + PGSIZE) perm ?s1 = Inr ((), s') \<and>
         region_done (region_cost ?s1 r (la + PGSIZE) n) sl ow1 fl1 n r (la + PGSIZE) (pa + PGSIZE) perm ?s1 s') \<or>
       (\<exists>s'. boot_map_loop n (r, 0) (la + PGSIZE) (pa + PGSIZE) perm ?s1 = Inl (NullDeref, s') \<and>
         length fl1 < region_cost ?s1 r (la + PGSIZE) n)"
      using Suc.IH [OF one(1)] by blast
    then show ?thesis
    proof (elim disjE exE conjE)
      fix s' assume "boot_map_loop n (r, 0) (la + PGSIZE) (pa + PGSIZE) perm ?s1 = Inr ((), s')"
        "region_done (region_cost ?s1 r (la + PGSIZE) n) sl ow1 fl1 n r (la + PGSIZE) (pa + PGSIZE) perm ?s1 s'"
      with region_done_step [OF one(2,4-8) Suc.prems(2,3,4) _ one(3) cost] run show ?thesis by auto
    next
      fix s' assume "boot_map_loop n (r, 0) (la + PGSIZE) (pa + PGSIZE) perm ?s1 = Inl (NullDeref, s')"
        "length fl1 < region_cost ?s1 r (la + PGSIZE) n"
      with run one(3) cost show ?thesis by auto
    qed
  qed
qed

lemma region_done_le: "region_done k sl ow fl n r la pa perm s s' \<Longrightarrow> k \<le> k' \<Longrightarrow>
    region_done k' sl ow fl n r la pa perm s s'"
  unfolding region_done_def by (fastforce intro: order_trans)

lemma boot_map_region_lemma:
  assumes "pt_wf sl ow s fl" "ow r = Some (r, [])" "\<forall>i < n. unat (PML4 (nth_page la i)) \<in> sl r"
    and "unat la + n * 4096 \<le> 2 ^ 48"
  shows "(\<exists>s'. boot_map_loop n (r, 0) la pa perm s = Inr ((), s') \<and>
       region_done (3 * pt_blocks la n) sl ow fl n r la pa perm s s') \<or>
     (\<exists>s'. boot_map_loop n (r, 0) la pa perm s = Inl (NullDeref, s') \<and> length fl < 3 * pt_blocks la n)"
  using boot_map_loop_lemma [OF assms, of pa perm] region_done_le [OF _ region_cost_le]
    region_cost_le [of s r la n]
  by (meson less_le_trans)

text \<open>C10: \<open>boot_map_region\<close>. With enough free pages (three for every two-megabyte block that the
  region touches always suffice) it maps every page of \<open>[la, la + size)\<close> to the corresponding page
  of \<open>[pa, pa + size)\<close> with \<open>perm | PTE_P\<close>, takes at most that many free pages, changes no mapping
  outside the region in any address space, no reference count of an allocated page, and nothing
  but the page tables and the allocator; the only other outcome is a fault on the null pointer the
  walk returns when memory runs out.\<close>

theorem boot_map_region_correct:
  assumes "pt_wf sl ow s fl" and "ow r = Some (r, [])"
    and "n = unat (sz div PGSIZE)" and "unat la + n * 4096 \<le> 2 ^ 48"
    and "\<forall>i < n. unat (PML4 (nth_page la i)) \<in> sl r"
  shows "(\<exists>s'. boot_map_region (r, 0) la sz pa perm s = Inr ((), s') \<and>
       (\<exists>ow' fl'. pt_wf sl ow' s' fl' \<and> ow \<subseteq>\<^sub>m ow' \<and> set fl' \<subseteq> set fl \<and>
          length fl \<le> length fl' + 3 * pt_blocks la n) \<and>
       (\<forall>i < n. mapping s' r (nth_page la i) = Some (nth_page pa i OR scast perm OR PTE_P)) \<and>
       (\<forall>r' va'. root_ok sl ow r' va' \<longrightarrow> (\<forall>i < n. (r', pidx va') \<noteq> (r, pidx (nth_page la i))) \<longrightarrow>
          mapping s' r' va' = mapping s r' va') \<and>
       (\<forall>p. p \<notin> set fl \<longrightarrow> pp_ref (pages s' p) = pp_ref (pages s p)) \<and> only_mm s s') \<or>
     (\<exists>s'. boot_map_region (r, 0) la sz pa perm s = Inl (NullDeref, s') \<and> length fl < 3 * pt_blocks la n)"
  using boot_map_region_lemma [OF assms(1,2,5,4), of pa perm] assms(3)
  unfolding boot_map_region_def region_done_def region_mapped_def outside_kept_def refs_kept_def
  by blast

theorem boot_map_region_correct_witness:
  "\<exists>s'. boot_map_region (2, 0) 0x2000 0x1000 0x1000 2 (sample 1) = Inr ((), s') \<and>
     mapping s' 2 0x2000 = Some (0x1000 OR scast (2 :: u32) OR PTE_P)"
proof -
  have n: "unat (0x1000 div PGSIZE) = 1" by (simp add: PGSIZE_def)
  have "\<forall>i < 1. unat (PML4 (nth_page 0x2000 i)) \<in> {0}" by simp
  with boot_map_region_correct [OF sample_wf [of 1], of 2 1 "0x1000" "0x2000" "0x1000" 2] n
  show ?thesis by (auto simp: sample_ow_def pt_blocks_def)
qed

section \<open>mmio\_map\_region\<close>

text \<open>C11: \<open>mmio_map_region\<close>. A reservation that does not fit below \<open>MMIOLIM\<close> panics before
  anything changes. Otherwise it returns the old base, moves the base up by the size
  rounded to pages, and the pages of the reservation are mapped uncached to the rounded
  physical address.\<close>

theorem mmio_map_region_correct:
  assumes "pt_wf sl ow s fl" and "boot_pml4e s = (r, 0)" "ow r = Some (r, [])"
    and "rsz = ROUNDUP sz PGSIZE" "n = unat (rsz div PGSIZE)"
    and "unat (mmio_base s) + n * 4096 \<le> 2 ^ 48"
    and "\<forall>i < n. unat (PML4 (nth_page (mmio_base s) i)) \<in> sl r"
    and "3 * pt_blocks (mmio_base s) n \<le> length fl"
  shows "if MMIOLIM < mmio_base s + rsz then \<exists>msg. mmio_map_region pa sz s = Inl (Panic msg, s)
     else \<exists>s'. mmio_map_region pa sz s = Inr (mmio_base s, s') \<and> mmio_base s' = mmio_base s + rsz \<and>
       (\<forall>i < n. mapping s' r (nth_page (mmio_base s) i) =
          Some (nth_page (PTE_ADDR pa) i OR PTE_PCD OR PTE_PWT OR PTE_W OR PTE_P))"
proof -
  let ?perm = "ucast (PTE_PCD OR PTE_PWT OR PTE_W) :: u32"
  have perm: "scast ?perm = PTE_PCD OR PTE_PWT OR PTE_W" by (simp add: mmu_defs)
  obtain s1 where s1: "boot_map_loop n (r, 0) (mmio_base s) (ROUNDDOWN pa PGSIZE) ?perm s = Inr ((), s1)"
      "region_done (3 * pt_blocks (mmio_base s) n) sl ow fl n r (mmio_base s) (ROUNDDOWN pa PGSIZE) ?perm s s1"
    using boot_map_region_lemma [OF assms(1,3,7,6)] assms(8) by (meson not_le)
  then have mb: "mmio_base s1 = mmio_base s" using only_mm_fields by (auto simp: region_done_def)
  have map: "mapping s1 r (nth_page (mmio_base s) i) =
      Some (nth_page (PTE_ADDR pa) i OR PTE_PCD OR PTE_PWT OR PTE_W OR PTE_P)" if "i < n" for i
    using s1(2) that perm by (simp add: region_done_def region_mapped_def ROUNDDOWN_PTE_ADDR or.assoc)
  have cong: "mapping (s1\<lparr>mmio_base := b\<rparr>) = mapping s1" for b
    by (rule mapping_cong) simp
  show ?thesis
    using s1(1) assms(2,4,5) mb map
    by (auto simp: mmio_map_region_def Let_def boot_map_region_def panic_def cong)
qed

theorem mmio_map_region_correct_witness:
  "\<exists>s'. mmio_map_region 0xFEE00000 0x800 ((sample 1)\<lparr>boot_pml4e := (2, 0)\<rparr>) = Inr (MMIOBASE, s') \<and>
     mapping s' 2 MMIOBASE = Some (0xFEE00000 OR PTE_PCD OR PTE_PWT OR PTE_W OR PTE_P)"
proof -
  let ?s = "(sample 1)\<lparr>boot_pml4e := (2, 0)\<rparr>"
  have mb: "mmio_base ?s = MMIOBASE" by (simp add: sample_def bss_state_def)
  have r: "ROUNDUP 0x800 PGSIZE = 0x1000" "unat (0x1000 div PGSIZE) = 1"
    by (simp_all add: ROUNDUP_def ROUNDDOWN_def PGSIZE_def)
  have nx: "nxt ?s = nxt (sample 1)" by (simp add: fun_eq_iff nxt_def)
  have "alloc_inv ?s [7, 8, 9]"
    using sample_wf [of 1] by (simp add: pt_wf_def alloc_inv_def freelist_def)
  then have wf: "pt_wf (\<lambda>_. {0, 1}) sample_ow ?s [7, 8, 9]"
    unfolding pt_wf_def nx by (auto simp: sample_ow_def nxt_sample slot_ok_def split: if_splits)
  have "unat (PML4 (nth_page MMIOBASE 0)) \<in> {0, 1}" by (simp add: unat_PML4 mmu_defs)
  moreover have "unat MMIOBASE + 1 * 4096 \<le> 2 ^ 48" by (simp add: mmu_defs)
  moreover have "\<not> MMIOLIM < MMIOBASE + 0x1000" by (simp add: mmu_defs)
  moreover have "sample_ow 2 = Some (2, [])" by (simp add: sample_ow_def)
  moreover have "PTE_ADDR 0xFEE00000 = 0xFEE00000" by (simp add: PTE_ADDR_def)
  ultimately show ?thesis
    using mmio_map_region_correct [OF wf, of 2 "0x1000" "0x800" 1 "0xFEE00000"] r mb
    by (auto simp: pt_blocks_def)
qed

section \<open>user\_mem\_check\<close>

text \<open>
  The documented condition: an address below \<open>ULIM\<close> to which the page tables of the root \<open>r\<close>
  give \<open>perm | PTE_P\<close>.
\<close>

definition user_accessible :: "kstate \<Rightarrow> nat \<Rightarrow> u32 \<Rightarrow> u64 \<Rightarrow> bool" where
  "user_accessible s r perm a \<longleftrightarrow> a < ULIM \<and>
     (case mapping s r a of None \<Rightarrow> False
      | Some e \<Rightarrow> e AND scast (perm OR 1) = scast (perm OR 1))"

text \<open>
  What one round of the loop tests. It is the documented condition except where the walk
  gives up on account of an empty first entry.
\<close>

definition round_passes :: "kstate \<Rightarrow> nat \<Rightarrow> u64 \<Rightarrow> u64 \<Rightarrow> bool" where
  "round_passes s r np va \<longleftrightarrow> va < ULIM \<and> first_nonzero s r va \<and>
     (case mapping s r va of None \<Rightarrow> False | Some e \<Rightarrow> e AND np = np)"

lemma round_passes_accessible:
  assumes "mapping s r a \<noteq> None \<Longrightarrow> first_nonzero s r a"
  shows "round_passes s r (scast (perm OR 1)) a = user_accessible s r perm a"
  using assms by (auto simp: round_passes_def user_accessible_def split: option.splits)

lemma round_passes_extends:
  assumes "extends sl ow s fl ow s' fl" "same_tables ow s s'" "va < ULIM \<Longrightarrow> root_ok sl ow r va"
  shows "round_passes s' r np va = round_passes s r np va"
  using extends_mapping [OF assms(1,3)] same_tables_first [OF assms(2)] by (auto simp: round_passes_def)

lemma next_page:
  assumes "unat start + Suc n * 4096 < 2 ^ 64"
  shows "unat (start + PGSIZE) = unat start + 4096" "start < nth_page start (Suc n)"
proof -
  show "unat (start + PGSIZE) = unat start + 4096"
    using unat_nth_page [of start 1] assms by (simp add: nth_page_def)
  show "start < nth_page start (Suc n)"
    using assms by (simp add: word_less_nat_alt unat_nth_page)
qed

lemma find_map_upt_Suc:
  "find P (map f [0..<Suc n]) = (if P (f 0) then Some (f 0) else find P (map (\<lambda>i. f (Suc i)) [0..<n]))"
proof -
  have "map f [0..<Suc n] = f 0 # map (\<lambda>i. f (Suc i)) [0..<n]"
    by (simp only: upt_conv_Cons zero_less_Suc map_Suc_upt [symmetric] list.map map_map comp_def)
  then show ?thesis by simp
qed

text \<open>The loop reports the first page of the range that is not accessible.\<close>

lemma user_mem_check_loop_lemma:
  assumes "pt_wf sl ow s fl" "ow r = Some (r, [])" "bit np 0" "va < ULIM"
    and "unat start + n * 4096 < 2 ^ 64"
    and "\<And>i. i < n \<Longrightarrow> nth_page start i < ULIM \<Longrightarrow> unat (PML4 (nth_page start i)) \<in> sl r"
  shows "\<exists>s'. extends sl ow s fl ow (s'\<lparr>user_mem_check_addr := user_mem_check_addr s\<rparr>) fl \<and>
     (case find (\<lambda>a. \<not> round_passes s r np a) (map (nth_page start) [0..<n]) of
        None \<Rightarrow> user_mem_check_loop (r, 0) va start (nth_page start n) np s = Inr (0, s')
      | Some a \<Rightarrow> user_mem_check_loop (r, 0) va start (nth_page start n) np s = Inr (- E_FAULT, s') \<and>
          user_mem_check_addr s' = fault_addr a va)"
  using assms
proof (induction n arbitrary: s start)
  case 0
  then show ?case
    using extends_refl [OF 0(1)] by (intro exI [of _ s]) (simp add: user_mem_check_loop.simps)
next
  case (Suc n)
  note low = next_page [OF Suc.prems(5)]
  show ?case
  proof (cases "ULIM \<le> start")
    case True
    then have "user_mem_check_loop (r, 0) va start (nth_page start (Suc n)) np s =
        Inr (- E_FAULT, s\<lparr>user_mem_check_addr := start\<rparr>)"
      using low by (subst user_mem_check_loop.simps) simp
    moreover have "fault_addr start va = start"
      using True Suc.prems(4) by (simp add: fault_addr_def word_less_nat_alt word_le_nat_alt)
    moreover have "find (\<lambda>a. \<not> round_passes s r np a) (map (nth_page start) [0..<Suc n]) = Some start"
      unfolding find_map_upt_Suc using True by (simp add: round_passes_def not_less)
    ultimately show ?thesis
      using extends_refl [OF Suc.prems(1)] by (intro exI [of _ "s\<lparr>user_mem_check_addr := start\<rparr>"]) simp
  next
  case lim: False
  have r: "root_ok sl ow r start"
    using Suc.prems(2) Suc.prems(6) [of 0] lim by (simp add: root_ok_def not_le)
  then have r': "ow r = Some (r, [])" "unat (PML4 start) \<in> sl r" by (simp_all add: root_ok_def)
  obtain s1 where s1: "extends sl ow s fl ow s1 fl" "same_tables ow s s1"
    "pml4e_walk (r, 0) start False s =
       Inr (if first_nonzero s r start
            then map_option (\<lambda>t. (t, unat (PTX start))) (walk s r (tbl_idx start)) else None, s1)"
    using pml4e_walk_lookup [OF Suc.prems(1) r'] by blast
  have addr1: "user_mem_check_addr s1 = user_mem_check_addr s"
    using only_mm_fields [OF extendsD(2) [OF s1(1)]] by simp
  show ?thesis
  proof (cases "round_passes s r np start")
    case True
    then obtain t where t: "walk s r (tbl_idx start) = Some t"
      using mapping_walk_None by (fastforce simp: round_passes_def split: option.splits)
    have "mem s1 t = mem s t"
      using s1(2) root_walk_owner [OF Suc.prems(1) r t] by (simp add: same_tables_def)
    then have "mem s1 t (unat (PTX start)) AND np = np"
      using True mapping_walk [OF t] by (simp add: round_passes_def split: if_splits)
    then have run: "user_mem_check_loop (r, 0) va start (nth_page start (Suc n)) np s =
        user_mem_check_loop (r, 0) va (start + PGSIZE) (nth_page (start + PGSIZE) n) np s1"
      using s1(3) t True low lim by (subst user_mem_check_loop.simps) (simp add: round_passes_def nth_page_Suc)
    have same: "round_passes s1 r np (nth_page (start + PGSIZE) i) = round_passes s r np (nth_page start (Suc i))" if "i < n" for i
    proof -
      have "nth_page start (Suc i) < ULIM \<Longrightarrow> root_ok sl ow r (nth_page start (Suc i))"
        using Suc.prems(2) Suc.prems(6) [of "Suc i"] that by (simp add: root_ok_def)
      then show ?thesis using round_passes_extends [OF s1(1,2)] by (simp add: nth_page_Suc)
    qed
    have feq: "find (\<lambda>a. \<not> round_passes s r np a) (map (nth_page start) [0..<Suc n]) =
        find (\<lambda>a. \<not> round_passes s1 r np a) (map (nth_page (start + PGSIZE)) [0..<n])"
    proof -
      have eq: "map (nth_page (start + PGSIZE)) [0..<n] = map (\<lambda>i. nth_page start (Suc i)) [0..<n]"
        by (simp add: nth_page_Suc)
      have "find (\<lambda>a. \<not> round_passes s r np a) xs = find (\<lambda>a. \<not> round_passes s1 r np a) xs"
        if "\<forall>a \<in> set xs. round_passes s1 r np a = round_passes s r np a" for xs
        using that by (induction xs) auto
      then show ?thesis using True same unfolding find_map_upt_Suc eq by (simp add: nth_page_Suc)
    qed
    have owned: "unat (PML4 (nth_page (start + PGSIZE) i)) \<in> sl r"
      if "i < n" "nth_page (start + PGSIZE) i < ULIM" for i
      using Suc.prems(6) [of "Suc i"] that by (simp add: nth_page_Suc)
    have "unat (start + PGSIZE) + n * 4096 < 2 ^ 64" using Suc.prems(5) low(1) by simp
    then obtain s' where "extends sl ow s1 fl ow (s'\<lparr>user_mem_check_addr := user_mem_check_addr s1\<rparr>) fl"
      "case find (\<lambda>a. \<not> round_passes s1 r np a) (map (nth_page (start + PGSIZE)) [0..<n]) of
        None \<Rightarrow> user_mem_check_loop (r, 0) va (start + PGSIZE) (nth_page (start + PGSIZE) n) np s1 = Inr (0, s')
      | Some a \<Rightarrow> user_mem_check_loop (r, 0) va (start + PGSIZE) (nth_page (start + PGSIZE) n) np s1 = Inr (- E_FAULT, s') \<and>
          user_mem_check_addr s' = fault_addr a va"
      using Suc.IH [OF extendsD(1) [OF s1(1)] Suc.prems(2-4) _ owned] by blast
    then show ?thesis
      unfolding feq run addr1 using extends_trans [OF Suc.prems(1) s1(1)] by blast
  next
    case False
    let ?s' = "s1\<lparr>user_mem_check_addr := fault_addr start va\<rparr>"
    have "user_mem_check_loop (r, 0) va start (nth_page start (Suc n)) np s = Inr (- E_FAULT, ?s')"
    proof (cases "first_nonzero s r start \<and> walk s r (tbl_idx start) \<noteq> None")
      case True
      then obtain t where t: "walk s r (tbl_idx start) = Some t" "first_nonzero s r start" by auto
      have "mem s1 t = mem s t"
        using s1(2) root_walk_owner [OF Suc.prems(1) r t(1)] by (simp add: same_tables_def)
      moreover have "mem s t (unat (PTX start)) AND np \<noteq> np"
      proof
        assume eq: "mem s t (unat (PTX start)) AND np = np"
        then have "bit (mem s t (unat (PTX start))) 0" using Suc.prems(3) by (metis bit_and_iff)
        with eq False lim mapping_walk [OF t(1)] t(2) show False by (simp add: round_passes_def)
      qed
      ultimately show ?thesis
        using s1(3) t low lim by (subst user_mem_check_loop.simps) simp
    next
      case False
      then show ?thesis
        using s1(3) low lim by (subst user_mem_check_loop.simps) auto
    qed
    moreover have "?s'\<lparr>user_mem_check_addr := user_mem_check_addr s\<rparr> = s1"
      using addr1 by simp
    moreover have "find (\<lambda>a. \<not> round_passes s r np a) (map (nth_page start) [0..<Suc n]) = Some start"
      unfolding find_map_upt_Suc using False by simp
    ultimately show ?thesis
      using s1(1) by (intro exI [of _ ?s']) simp
  qed
  qed
qed

text \<open>Addresses of the same page agree on \<open>round_passes\<close>.\<close>

lemma pidx_cong: "unat a div 4096 = unat b div 4096 \<Longrightarrow> pidx a = pidx b"
proof -
  assume eq: "unat a div 4096 = unat b div 4096"
  have "x div 2 ^ 39 = x div 4096 div 2 ^ 27" "x div 2 ^ 30 = x div 4096 div 2 ^ 18"
    "x div 2 ^ 21 = x div 4096 div 2 ^ 9" for x :: nat
    by (simp_all add: div_mult2_eq [symmetric])
  with eq show ?thesis
    by (simp only: pidx_def tbl_idx_def unat_PML4 unat_PDPE unat_PDX unat_PTX) simp
qed

lemma round_passes_cong:
  assumes "unat a div 4096 = unat b div 4096"
  shows "round_passes s r np a = round_passes s r np b"
proof -
  have "unat a < unat ULIM \<longleftrightarrow> unat a div 4096 < unat ULIM div 4096" for a :: u64
    by (simp add: mmu_defs div_less_iff_less_mult)
  then have "a < ULIM \<longleftrightarrow> b < ULIM" using assms by (simp add: word_less_nat_alt)
  moreover have "pidx a = pidx b" by (rule pidx_cong [OF assms])
  moreover from this have "unat (PML4 a) = unat (PML4 b)" by (metis hd_pidx)
  ultimately show ?thesis
    by (simp add: round_passes_def mapping_def first_nonzero_def)
qed

lemma find_first:
  assumes "find P (map f [0..<n]) = Some a"
  obtains k where "k < n" "a = f k" "P (f k)" "\<forall>j < k. \<not> P (f j)"
  using assms
proof (induction n arbitrary: f thesis)
  case 0
  then show ?case by simp
next
  case (Suc n)
  show ?case
  proof (cases "P (f 0)")
    case True
    with Suc.prems show ?thesis unfolding find_map_upt_Suc by (auto intro: Suc.prems(1) [of 0])
  next
    case False
    with Suc.prems(2) have "find P (map (\<lambda>i. f (Suc i)) [0..<n]) = Some a"
      unfolding find_map_upt_Suc by simp
    then obtain k where k: "k < n" "a = f (Suc k)" "P (f (Suc k))" "\<forall>j < k. \<not> P (f (Suc j))"
      using Suc.IH [of "\<lambda>i. f (Suc i)"] by blast
    have "\<forall>j < Suc k. \<not> P (f j)" using k(4) False by (auto simp: less_Suc_eq_0_disj)
    with k show ?thesis using Suc.prems(1) [of "Suc k"] by auto
  qed
qed

lemma find_none: "find P (map f [0..<n]) = None \<longleftrightarrow> (\<forall>k < n. \<not> P (f k))"
  by (auto simp: find_None_iff)

text \<open>The pages of a range that does not wrap around, between its rounded ends.\<close>

lemma range_pages:
  fixes va len :: u64
  assumes len: "0 < len" and hi: "unat va + unat len + 4095 < 2 ^ 64"
  defines "start \<equiv> ROUNDDOWN va PGSIZE" and "fin \<equiv> ROUNDUP (va + len) PGSIZE"
  obtains n where "fin = nth_page start n" "unat start + n * 4096 < 2 ^ 64" "unat start = unat va div 4096 * 4096"
    "unat va + unat len \<le> unat start + n * 4096" "start < fin" "unat start \<le> unat va"
    "unat start + n * 4096 < unat va + unat len + 4096"
proof -
  have l: "0 < unat len" using len by (simp add: word_less_nat_alt)
  have st: "unat start = unat va div 4096 * 4096"
    by (simp add: start_def unat_ROUNDDOWN minus_mod_eq_div_mult)
  have "unat (va + len) = unat va + unat len" using hi by (simp add: unat_word_ariths)
  then have fin: "unat fin = (unat va + unat len + 4095) div 4096 * 4096"
    using hi by (simp add: fin_def unat_ROUNDUP)
  define n where "n = (unat va + unat len + 4095) div 4096 - unat va div 4096"
  have le: "unat va div 4096 < (unat va + unat len + 4095) div 4096"
    using l div_le_mono [of "unat va + 4096" "unat va + unat len + 4095" 4096] by simp
  then have sum: "unat start + n * 4096 = (unat va + unat len + 4095) div 4096 * 4096"
    by (simp add: st n_def diff_mult_distrib)
  have top: "(unat va + unat len + 4095) div 4096 * 4096 < 2 ^ 64"
    using hi div_times_less_eq_dividend [of "unat va + unat len + 4095" 4096] by linarith
  have "unat (nth_page start n) = unat fin"
    using sum top fin by (simp add: unat_nth_page)
  then have "fin = nth_page start n" by (simp add: word_unat_eq_iff)
  moreover have "start < fin" using le st fin by (simp add: word_less_nat_alt)
  moreover have "unat start \<le> unat va" using st by simp
  moreover have "unat va + unat len \<le> unat start + n * 4096" "unat start + n * 4096 < unat va + unat len + 4096"
    unfolding sum by simp_all
  ultimately show ?thesis using st sum top by (intro that [of n]) auto
qed

lemma page_div: "b mod 4096 = 0 \<Longrightarrow> b \<le> x \<Longrightarrow> x < b + 4096 \<Longrightarrow> x div 4096 = b div (4096 :: nat)"
  by (intro div_nat_eqI) auto

text \<open>Every address of the range lies in one of the \<open>n\<close> pages.\<close>

lemma range_page:
  assumes "unat start = unat va div 4096 * 4096" "unat va + unat len \<le> unat start + n * 4096"
    and "unat start + n * 4096 < 2 ^ 64" "unat va \<le> unat a" "unat a < unat va + unat len"
  obtains k where "k < n" "unat (nth_page start k) = unat start + k * 4096"
    "unat start + k * 4096 \<le> unat a" "unat a div 4096 = unat (nth_page start k) div 4096"
proof -
  let ?k = "(unat a - unat start) div 4096"
  have le: "unat start \<le> unat a" using assms(1,4) by linarith
  have "unat a - unat start < n * 4096" using assms by linarith
  then have k: "?k < n" by (simp add: less_mult_imp_div_less)
  then have "?k * 4096 \<le> n * 4096" by simp
  then have u: "unat (nth_page start ?k) = unat start + ?k * 4096"
    using assms(3) by (intro unat_nth_page) simp
  have "?k * 4096 \<le> unat a - unat start" "unat a - unat start < Suc ?k * 4096" by simp_all
  then have "unat start + ?k * 4096 \<le> unat a" "unat a < unat start + ?k * 4096 + 4096" using le by linarith+
  moreover from this have "unat a div 4096 = unat (nth_page start ?k) div 4096"
    using u assms(1) by (intro page_div) simp_all
  ultimately show ?thesis using that k u by blast
qed

text \<open>The first page that is not accessible holds the first byte that is not.\<close>

lemma first_bad:
  assumes "unat start = unat va div 4096 * 4096" "unat va + unat len \<le> unat start + n * 4096"
    and "unat start + n * 4096 < 2 ^ 64" "unat start + n * 4096 < unat va + unat len + 4096" "0 < unat len"
    and cong: "\<And>a b. unat a div 4096 = unat b div 4096 \<Longrightarrow> ok a = ok b"
    and found: "find (\<lambda>a. \<not> ok a) (map (nth_page start) [0..<n]) = Some b"
  defines "bad \<equiv> fault_addr b va"
  shows "unat va \<le> unat bad \<and> unat bad < unat va + unat len \<and> \<not> ok bad \<and>
    (\<forall>a. unat va \<le> unat a \<longrightarrow> unat a < unat bad \<longrightarrow> ok a)"
proof -
  obtain k where k: "k < n" "b = nth_page start k" "\<not> ok b" "\<forall>j < k. ok (nth_page start j)"
    using find_first [OF found] by blast
  have le: "Suc k * 4096 \<le> n * 4096" using k(1) by simp
  then have ub: "unat b = unat start + k * 4096" using assms(3) k(2) by (simp add: unat_nth_page)
  have bad: "unat bad = max (unat b) (unat va)" by (auto simp: bad_def fault_addr_def word_less_nat_alt)
  then have lo: "unat va \<le> unat bad" by simp
  have len: "unat bad < unat va + unat len" using bad ub le assms(4,5) by simp
  have "unat bad < unat b + 4096" "unat b \<le> unat bad" using bad ub assms(1) by linarith+
  then have "unat bad div 4096 = unat b div 4096" using ub assms(1) by (intro page_div) simp_all
  then have nok: "\<not> ok bad" using cong k(3) by blast
  have before: "ok a" if a: "unat va \<le> unat a" "unat a < unat bad" for a
  proof -
    obtain j where j: "j < n" "unat start + j * 4096 \<le> unat a" "unat a div 4096 = unat (nth_page start j) div 4096"
      using range_page [OF assms(1-3) a(1)] a(2) len by (metis order_less_trans)
    have "j < k"
    proof (rule ccontr)
      assume "\<not> j < k"
      then have "k * 4096 \<le> j * 4096" by simp
      then have "unat b \<le> unat a" using ub j(2) by linarith
      with a bad show False by simp
    qed
    with k(4) cong [OF j(3)] show ?thesis by simp
  qed
  with lo len nok show ?thesis by blast
qed

text \<open>
  The slots of the root that the walks for the range go through are owned by it. An
  environment shares the tables below its second slot with the kernel and the other
  environments; for the checked one they are counted as its own.
\<close>

definition range_owned :: "(nat \<Rightarrow> nat set) \<Rightarrow> nat \<Rightarrow> u64 \<Rightarrow> u64 \<Rightarrow> bool" where
  "range_owned sl r va len \<longleftrightarrow>
     (\<forall>a. unat va \<le> unat a \<longrightarrow> unat a < unat va + unat len \<longrightarrow> a < ULIM \<longrightarrow> unat (PML4 a) \<in> sl r)"

lemma range_owned_low:
  assumes "0 \<in> sl r" "unat va + unat len \<le> 2 ^ 39"
  shows "range_owned sl r va len"
  using assms by (auto simp: range_owned_def unat_PML4)

lemma range_owned_page:
  assumes "range_owned sl r va len" "va < ULIM" "unat start = unat va div 4096 * 4096"
    and "unat start + n * 4096 < unat va + unat len + 4096" "unat start + n * 4096 < 2 ^ 64" "0 < unat len"
    and "i < n" "nth_page start i < ULIM"
  shows "unat (PML4 (nth_page start i)) \<in> sl r"
proof (cases i)
  case 0
  have "unat start div 4096 = unat va div 4096" using assms(3) by simp
  then have "unat (PML4 start) = unat (PML4 va)" using pidx_cong hd_pidx by metis
  then show ?thesis using 0 assms(1,2,6) by (simp add: range_owned_def)
next
  case (Suc j)
  have le: "Suc i * 4096 \<le> n * 4096" using assms(7) by simp
  then have "unat (nth_page start i) = unat start + i * 4096" using assms(5) by (simp add: unat_nth_page)
  moreover from this have "unat va \<le> unat (nth_page start i)" using assms(3) Suc by simp
  ultimately show ?thesis using assms(1,4,8) le by (simp add: range_owned_def)
qed

lemma user_mem_check_lemma:
  fixes perm :: u32
  assumes wf: "pt_wf sl ow s fl" and "env_pml4e (envs s env) = Some (r, 0)" "ow r = Some (r, [])"
    and "0 < len" and "unat va + unat len + 4095 < 2 ^ 64" "va < ULIM" "range_owned sl r va len"
  defines "ok \<equiv> round_passes s r (scast (perm OR 1))"
  shows "\<exists>rc s'. user_mem_check env va len perm s = Inr (rc, s') \<and>
     extends sl ow s fl ow (s'\<lparr>user_mem_check_addr := user_mem_check_addr s\<rparr>) fl \<and>
     (if \<forall>a. unat va \<le> unat a \<longrightarrow> unat a < unat va + unat len \<longrightarrow> ok a then rc = 0
      else rc = - E_FAULT \<and>
        (let bad = user_mem_check_addr s' in
         unat va \<le> unat bad \<and> unat bad < unat va + unat len \<and> \<not> ok bad \<and>
         (\<forall>a. unat va \<le> unat a \<longrightarrow> unat a < unat bad \<longrightarrow> ok a)))"
proof -
  let ?np = "scast (perm OR 1) :: u64" and ?start = "ROUNDDOWN va PGSIZE"
  let ?find = "\<lambda>n. find (\<lambda>a. \<not> ok a) (map (nth_page ?start) [0..<n])"
  obtain n where n: "ROUNDUP (va + len) PGSIZE = nth_page ?start n" "unat ?start + n * 4096 < 2 ^ 64"
      "unat ?start = unat va div 4096 * 4096" "unat va + unat len \<le> unat ?start + n * 4096"
      "?start < ROUNDUP (va + len) PGSIZE" "unat ?start \<le> unat va"
      "unat ?start + n * 4096 < unat va + unat len + 4096"
    using range_pages [OF assms(4,5)] by blast
  have pos: "0 < unat len" using assms(4) by (simp add: word_less_nat_alt)
  have "\<not> ULIM \<le> ?start" using n(6) assms(6) by (simp add: word_le_nat_alt word_less_nat_alt)
  then have run: "user_mem_check env va len perm s =
      user_mem_check_loop (r, 0) va ?start (nth_page ?start n) ?np s"
    using n(1,5) assms(2) by (simp add: user_mem_check_def Let_def)
  have "bit ?np 0" by (simp add: bit_simps)
  then obtain s' where ext: "extends sl ow s fl ow (s'\<lparr>user_mem_check_addr := user_mem_check_addr s\<rparr>) fl"
    and res: "case ?find n of
        None \<Rightarrow> user_mem_check_loop (r, 0) va ?start (nth_page ?start n) ?np s = Inr (0, s')
      | Some a \<Rightarrow> user_mem_check_loop (r, 0) va ?start (nth_page ?start n) ?np s = Inr (- E_FAULT, s') \<and>
          user_mem_check_addr s' = fault_addr a va"
    using user_mem_check_loop_lemma [OF assms(1,3) _ assms(6) n(2)]
      range_owned_page [OF assms(7,6) n(3,7,2) pos] unfolding ok_def by blast
  have cong: "ok a = ok b" if "unat a div 4096 = unat b div 4096" for a b
    unfolding ok_def using that by (rule round_passes_cong)
  show ?thesis
  proof (cases "?find n")
    case None
    then have "\<forall>k < n. ok (nth_page ?start k)" unfolding find_none by simp
    then have "\<forall>a. unat va \<le> unat a \<longrightarrow> unat a < unat va + unat len \<longrightarrow> ok a"
      using range_page [OF n(3,4,2)] cong by metis
    with None res run ext show ?thesis by auto
  next
    case (Some b)
    note bad = first_bad [OF n(3,4,2,7) pos cong Some]
    then have "\<not> (\<forall>a. unat va \<le> unat a \<longrightarrow> unat a < unat va + unat len \<longrightarrow> ok a)" by blast
    with Some res run ext bad show ?thesis by (auto simp: Let_def)
  qed
qed

lemma user_mem_check_high:
  assumes "ULIM \<le> va" "0 < len" "unat va + unat len + 4095 < 2 ^ 64"
  shows "user_mem_check env va len perm s = Inr (- E_FAULT, s\<lparr>user_mem_check_addr := ROUNDDOWN va PGSIZE\<rparr>)"
proof -
  let ?start = "ROUNDDOWN va PGSIZE"
  have "?start < ROUNDUP (va + len) PGSIZE" "unat ?start = unat va div 4096 * 4096"
    using range_pages [OF assms(2,3)] by blast+
  moreover from this(2) have "ULIM \<le> ?start"
    using assms(1) div_le_mono [of "unat ULIM" "unat va" 4096] by (simp add: word_le_nat_alt mmu_defs)
  ultimately show ?thesis by (simp add: user_mem_check_def Let_def)
qed

text \<open>C12: \<open>user_mem_check\<close> on a non-empty range that does not wrap around decides whether every
  byte of the range is accessible as documented: below \<open>ULIM\<close>, in a page that is mapped with
  \<open>perm | PTE_P\<close>. It returns 0 exactly in that case, and otherwise \<open>-E_FAULT\<close> with
  \<open>user_mem_check_addr\<close> set to the first byte of the range that is not accessible; for a
  range that starts at \<open>ULIM\<close> or above it is the start of the page of \<open>va\<close>. The walk must
  not give up on a mapped page of the range on account of an empty first entry.\<close>

theorem user_mem_check_correct:
  fixes perm :: u32
  assumes "pt_wf sl ow s fl" and "env_pml4e (envs s env) = Some (r, 0)" "ow r = Some (r, [])"
    and "0 < len" and "unat va + unat len + 4095 < 2 ^ 64" and "range_owned sl r va len"
    and "\<forall>a. unat va \<le> unat a \<longrightarrow> unat a < unat va + unat len \<longrightarrow> mapping s r a \<noteq> None \<longrightarrow>
       first_nonzero s r a"
  defines "ok \<equiv> user_accessible s r perm"
  shows "\<exists>rc s'. user_mem_check env va len perm s = Inr (rc, s') \<and>
     (if \<forall>a. unat va \<le> unat a \<longrightarrow> unat a < unat va + unat len \<longrightarrow> ok a then rc = 0
      else rc = - E_FAULT \<and>
        (let bad = user_mem_check_addr s' in
         if ULIM \<le> va then bad = ROUNDDOWN va PGSIZE
         else unat va \<le> unat bad \<and> unat bad < unat va + unat len \<and> \<not> ok bad \<and>
           (\<forall>a. unat va \<le> unat a \<longrightarrow> unat a < unat bad \<longrightarrow> ok a)))"
proof (cases "ULIM \<le> va")
  case True
  have "\<not> ok va" using True by (simp add: ok_def user_accessible_def not_less)
  moreover have "0 < unat len" using assms(4) by (simp add: word_less_nat_alt)
  ultimately have "\<not> (\<forall>a. unat va \<le> unat a \<longrightarrow> unat a < unat va + unat len \<longrightarrow> ok a)" by auto
  then show ?thesis using user_mem_check_high [OF True assms(4,5)] True by (simp only: if_False if_True Let_def) auto
next
  case False
  let ?p = "round_passes s r (scast (perm OR 1))"
  have eq: "?p a = ok a" if "unat va \<le> unat a" "unat a < unat va + unat len" for a
    unfolding ok_def using assms(7) that by (intro round_passes_accessible) blast
  obtain rc s' where run: "user_mem_check env va len perm s = Inr (rc, s')"
      "if \<forall>a. unat va \<le> unat a \<longrightarrow> unat a < unat va + unat len \<longrightarrow> ?p a then rc = 0
      else rc = - E_FAULT \<and>
        (let bad = user_mem_check_addr s' in
         unat va \<le> unat bad \<and> unat bad < unat va + unat len \<and> \<not> ?p bad \<and>
         (\<forall>a. unat va \<le> unat a \<longrightarrow> unat a < unat bad \<longrightarrow> ?p a))"
    using user_mem_check_lemma [OF assms(1-5) _ assms(6), of perm] False by (auto simp: not_le)
  have all: "(\<forall>a. unat va \<le> unat a \<longrightarrow> unat a < unat va + unat len \<longrightarrow> ?p a) \<longleftrightarrow>
      (\<forall>a. unat va \<le> unat a \<longrightarrow> unat a < unat va + unat len \<longrightarrow> ok a)"
    using eq by blast
  have before: "unat b < unat va + unat len \<Longrightarrow> (\<forall>a. unat va \<le> unat a \<longrightarrow> unat a < unat b \<longrightarrow> ?p a) \<Longrightarrow>
      (\<forall>a. unat va \<le> unat a \<longrightarrow> unat a < unat b \<longrightarrow> ok a)" for b :: u64
    using eq by (meson order_less_trans)
  show ?thesis
  proof (cases "\<forall>a. unat va \<le> unat a \<longrightarrow> unat a < unat va + unat len \<longrightarrow> ok a")
    case True
    then have "rc = 0" using run(2) unfolding all by (simp only: if_True)
    with True run(1) show ?thesis by (intro exI [of _ rc] exI [of _ s'] conjI) (assumption, metis (no_types, lifting))
  next
    case bad: False
    have "rc = - E_FAULT \<and> unat va \<le> unat (user_mem_check_addr s') \<and>
        unat (user_mem_check_addr s') < unat va + unat len \<and> \<not> ?p (user_mem_check_addr s') \<and>
        (\<forall>a. unat va \<le> unat a \<longrightarrow> unat a < unat (user_mem_check_addr s') \<longrightarrow> ?p a)"
      using run(2) unfolding all if_not_P [OF bad] Let_def .
    moreover from this have "\<not> ok (user_mem_check_addr s')"
        "\<forall>a. unat va \<le> unat a \<longrightarrow> unat a < unat (user_mem_check_addr s') \<longrightarrow> ok a"
      using eq before by blast+
    ultimately show ?thesis
      using run(1) bad False unfolding Let_def
      by (intro exI [of _ rc] exI [of _ s'] conjI) (assumption, simp only: if_False simp_thms)
  qed
qed

theorem user_mem_check_correct_witness:
  "\<exists>rc s'. user_mem_check 0 0x2010 8 4 ((sample 1)\<lparr>envs := (\<lambda>_. zero_env\<lparr>env_pml4e := Some (2, 0)\<rparr>)\<rparr>) =
     Inr (rc, s') \<and> rc = 0"
proof -
  let ?s = "(sample 1)\<lparr>envs := (\<lambda>_. zero_env\<lparr>env_pml4e := Some (2, 0)\<rparr>)\<rparr>"
  have wf: "pt_wf (\<lambda>_. {0}) sample_ow ?s [7, 8, 9]"
    using sample_wf [of 1] by (subst pt_wf_cong [of _ "sample 1"]) simp_all
  have m: "mapping ?s = mapping (sample 1)" "first_nonzero ?s = first_nonzero (sample 1)"
    by (rule mapping_cong first_nonzero_cong, simp)+
  have page: "round_passes ?s 2 (scast ((4 :: u32) OR 1)) a"
    if "unat (0x2010 :: u64) \<le> unat a" "unat a < unat (0x2010 :: u64) + unat (8 :: u64)" for a
  proof -
    have "unat a div 4096 = unat (0x2000 :: u64) div 4096" using that by (simp add: div_nat_eqI)
    moreover have "round_passes ?s 2 (scast ((4 :: u32) OR 1)) 0x2000"
      by (simp add: round_passes_def m sample_first sample_mapping mmu_defs)
    ultimately show ?thesis using round_passes_cong by blast
  qed
  then have ok: "first_nonzero ?s 2 a" "user_accessible ?s 2 4 a"
    if "unat (0x2010 :: u64) \<le> unat a" "unat a < unat (0x2010 :: u64) + unat (8 :: u64)" for a
    using page [OF that] round_passes_accessible [of ?s 2 a 4] by (simp_all add: round_passes_def)
  have "sample_ow 2 = Some (2, [])" by (simp add: sample_ow_def)
  moreover have "range_owned (\<lambda>_. {0}) 2 0x2010 8" by (rule range_owned_low) simp_all
  ultimately show ?thesis
    using user_mem_check_correct [OF wf, of 0 2 8 "0x2010" 4] ok by simp
qed

text \<open>The range check is defeated by wrap-around: the range from \<open>KERNBASE\<close> to the end
  of the address space passes for every environment and every permission, because
  \<open>va + len\<close> is 0 and the loop ends before its first test.\<close>

theorem user_mem_check_wraps:
  "user_mem_check env KERNBASE (- KERNBASE) perm s = Inr (0, s)"
  by (simp add: user_mem_check_def Let_def ROUNDUP_def ROUNDDOWN_def PGSIZE_def)

end
