(* ===== verification/Env.thy ===== *)
theory Env
  imports Sched Pmap_Region
begin

text \<open>
  Environments, \<open>kern/env.c\<close>: the id scheme, the free list, the set-up of an address
  space, the loader, and the tear-down.
\<close>

section \<open>Lookup and initialisation\<close>

text \<open>
  The result is the return code and what is stored through \<open>env_store\<close>. With
  \<open>checkperm\<close> set and no current environment, \<open>curenv->env_id\<close> faults.
\<close>

definition envid2env :: "u32 \<Rightarrow> bool \<Rightarrow> kstate \<Rightarrow> (int \<times> nat option) res" where
  "envid2env envid checkperm s =
     (if envid = 0 then Inr ((0, curenv s), s)
      else let e = ENVX envid in
        if env_status (envs s e) = ENV_FREE \<or> env_id (envs s e) \<noteq> envid then
          Inr ((- E_BAD_ENV, None), s)
        else if checkperm \<and> curenv s \<noteq> Some e then
          bindK (deref (curenv s) s) (\<lambda>c s.
            if env_parent_id (envs s e) \<noteq> env_id (envs s c) then Inr ((- E_BAD_ENV, None), s)
            else Inr ((0, Some e), s))
        else Inr ((0, Some e), s))"

text \<open>The loop of \<open>env_init\<close>, with \<open>n\<close> slots left, visited downwards.\<close>

fun env_init_loop :: "nat \<Rightarrow> kstate \<Rightarrow> kstate" where
  "env_init_loop 0 s = s"
| "env_init_loop (Suc i) s =
     env_init_loop i
       ((upd_env i (\<lambda>x. x\<lparr>env_link := env_free_list s, env_id := 0, env_status := ENV_FREE\<rparr>) s)
          \<lparr>env_free_list := Some i\<rparr>)"

definition env_init :: "kstate \<Rightarrow> kstate" where
  "env_init s = env_init_loop NENV (s\<lparr>env_free_list := None\<rparr>)"

section \<open>Allocation\<close>

definition env_setup_vm :: "nat \<Rightarrow> kstate \<Rightarrow> int res" where
  "env_setup_vm e s =
     bindK (page_alloc ALLOC_ZERO s) (\<lambda>p s.
       case p of
         None \<Rightarrow> Inr (- E_NO_MEM, s)
       | Some p \<Rightarrow>
           bindK (page2kva p (incref p s)) (\<lambda>pml4e s.
             let s = upd_env e (\<lambda>x. x\<lparr>env_pml4e := Some pml4e, env_cr3 := page2pa p\<rparr>) s;
                 s = st (elem_ptr pml4e 1) (ld s (elem_ptr (boot_pml4e s) 1)) s;
                 s = st (elem_ptr pml4e (PML4 UVPT)) (env_cr3 (envs s e) OR PTE_P OR PTE_U) s
             in Inr (0, s)))"

definition ENVGENSHIFT :: nat where "ENVGENSHIFT = 12"

text \<open>The id of the next environment in slot \<open>e\<close> whose previous id was \<open>old\<close>.\<close>

definition next_id :: "u32 \<Rightarrow> nat \<Rightarrow> u32" where
  "next_id old e =
     (let generation = (old + push_bit ENVGENSHIFT 1) AND NOT (of_nat NENV - 1);
          generation = (if sint generation \<le> 0 then push_bit ENVGENSHIFT 1 else generation)
      in generation OR of_nat e)"

definition new_tf :: Trapframe where
  "new_tf = zero_tf\<lparr>tf_ds := GD_UD OR 3, tf_es := GD_UD OR 3, tf_ss := GD_UD OR 3,
     tf_rsp := USTACKTOP, tf_cs := GD_UT OR 3, tf_eflags := tf_eflags zero_tf OR FL_IF\<rparr>"

definition env_alloc :: "u32 \<Rightarrow> kstate \<Rightarrow> (int \<times> nat option) res" where
  "env_alloc parent_id s =
     (case env_free_list s of
        None \<Rightarrow> Inr ((- E_NO_FREE_ENV, None), s)
      | Some e \<Rightarrow>
          bindK (env_setup_vm e s) (\<lambda>r s.
            if r < 0 then Inr ((r, None), s)
            else
              let s = upd_env e (\<lambda>x. x\<lparr>env_id := next_id (env_id x) e, env_parent_id := parent_id,
                        env_type := ENV_TYPE_USER, env_status := ENV_RUNNABLE, env_runs := 0,
                        env_tf := new_tf, env_pgfault_upcall := 0, env_ipc_recving := False\<rparr>) s;
                  s = s\<lparr>env_free_list := env_link (envs s e)\<rparr>;
                  s = cprintf ''[%08x] new env %08x''
                        [ucast (case curenv s of Some c \<Rightarrow> env_id (envs s c) | None \<Rightarrow> 0),
                         ucast (env_id (envs s e))] s
              in Inr ((0, Some e), s)))"

section \<open>Loading a program\<close>

text \<open>The body of the loop of \<open>region_alloc\<close>, run once for each of \<open>n\<close> pages.\<close>

fun region_alloc_loop :: "nat \<Rightarrow> nat \<Rightarrow> u64 \<Rightarrow> kstate \<Rightarrow> unit res" where
  "region_alloc_loop 0 e start s = Inr ((), s)"
| "region_alloc_loop (Suc n) e start s =
     bindK (page_alloc ALLOC_ZERO s) (\<lambda>pp s.
       case pp of
         None \<Rightarrow> panic ''Page Allocation failed!'' s
       | Some pp \<Rightarrow>
           bindK (deref (env_pml4e (envs s e)) (incref pp s)) (\<lambda>pml4e s.
           bindK (page_insert pml4e pp start (ucast (PTE_U OR PTE_W OR PTE_P)) s) (\<lambda>flag s.
             if flag \<noteq> 0 then panic ''Page insertion failed!'' s
             else region_alloc_loop n e (start + PGSIZE) s)))"

text \<open>
  Both ends are multiples of the page size, so the loop \<open>for (; start < end; start += PGSIZE)\<close>
  takes \<open>(end - start) / PGSIZE\<close> turns, or none.
\<close>

definition region_alloc :: "nat \<Rightarrow> u64 \<Rightarrow> u64 \<Rightarrow> kstate \<Rightarrow> unit res" where
  "region_alloc e va len s =
     (let fin = ROUNDUP (va + len) PGSIZE;
          start = ROUNDDOWN va PGSIZE
      in region_alloc_loop ((unat fin - unat start) div unat PGSIZE) e start s)"

text \<open>
  A store by the kernel to a virtual address under the page tables that \<open>cr3\<close> points to. The
  kernel runs with \<open>CR0_WP\<close> set: a page that is not mapped writable faults.
\<close>

definition put_byte :: "u64 \<Rightarrow> nat \<Rightarrow> u8 \<Rightarrow> u64" where
  "put_byte w i b = (w AND NOT (push_bit (8 * i) 0xFF)) OR push_bit (8 * i) (ucast b)"

definition get_byte :: "u64 \<Rightarrow> nat \<Rightarrow> u8" where
  "get_byte w i = ucast (drop_bit (8 * i) w)"

definition vstore8 :: "u64 \<Rightarrow> u8 \<Rightarrow> kstate \<Rightarrow> unit res" where
  "vstore8 va b s =
     (case mapping s (unat (PPN (cr3 s (cpu s)))) va of
        None \<Rightarrow> Inl (KernelFault va, s)
      | Some e \<Rightarrow>
          if e AND PTE_W = 0 then Inl (KernelFault va, s)
          else let a = (unat (PPN e), unat (PGOFF va) div 8)
               in Inr ((), st a (put_byte (ld s a) (unat (PGOFF va) mod 8) b) s))"

fun vcopy :: "u64 \<Rightarrow> u8 list \<Rightarrow> kstate \<Rightarrow> unit res" where
  "vcopy va [] s = Inr ((), s)"
| "vcopy va (b # bs) s = bindK (vstore8 va b s) (\<lambda>_ s. vcopy (va + 1) bs s)"

text \<open>
  The ELF image as the bytes found from the address \<open>binary\<close> on; fields are little endian.
\<close>

definition rd_le :: "(nat \<Rightarrow> u8) \<Rightarrow> nat \<Rightarrow> nat \<Rightarrow> u64" where
  "rd_le bin off n = (\<Sum>i \<leftarrow> [0..<n]. push_bit (8 * i) (ucast (bin (off + i))))"

record Proghdr =
  p_type :: u32
  p_offset :: u64
  p_va :: u64
  p_filesz :: u64
  p_memsz :: u64

definition ELF_MAGIC :: u32 where "ELF_MAGIC = 0x464C457F"
definition ELF_PROG_LOAD :: u32 where "ELF_PROG_LOAD = 1"

definition e_magic :: "(nat \<Rightarrow> u8) \<Rightarrow> u32" where "e_magic bin = ucast (rd_le bin 0 4)"
definition e_entry :: "(nat \<Rightarrow> u8) \<Rightarrow> u64" where "e_entry bin = rd_le bin 24 8"
definition e_phoff :: "(nat \<Rightarrow> u8) \<Rightarrow> u64" where "e_phoff bin = rd_le bin 32 8"
definition e_phnum :: "(nat \<Rightarrow> u8) \<Rightarrow> u16" where "e_phnum bin = ucast (rd_le bin 56 2)"

definition proghdr :: "(nat \<Rightarrow> u8) \<Rightarrow> nat \<Rightarrow> Proghdr" where
  "proghdr bin i =
     (let off = unat (e_phoff bin) + 56 * i
      in \<lparr>p_type = ucast (rd_le bin off 4), p_offset = rd_le bin (off + 8) 8,
          p_va = rd_le bin (off + 16) 8, p_filesz = rd_le bin (off + 32) 8,
          p_memsz = rd_le bin (off + 40) 8\<rparr>)"

definition load_segment :: "nat \<Rightarrow> (nat \<Rightarrow> u8) \<Rightarrow> Proghdr \<Rightarrow> kstate \<Rightarrow> unit res" where
  "load_segment e bin ph s =
     bindK (region_alloc e (p_va ph) (p_memsz ph) s) (\<lambda>_ s.
     bindK (vcopy (p_va ph) (map (\<lambda>i. bin (unat (p_offset ph) + i)) [0..<unat (p_filesz ph)]) s) (\<lambda>_ s.
       vcopy (p_va ph + p_filesz ph) (replicate (unat (p_memsz ph - p_filesz ph)) 0) s))"

fun load_segments :: "nat \<Rightarrow> (nat \<Rightarrow> u8) \<Rightarrow> Proghdr list \<Rightarrow> kstate \<Rightarrow> unit res" where
  "load_segments e bin [] s = Inr ((), s)"
| "load_segments e bin (ph # phs) s =
     bindK (if p_type ph = ELF_PROG_LOAD then load_segment e bin ph s else Inr ((), s)) (\<lambda>_ s.
       load_segments e bin phs s)"

definition load_icode :: "nat \<Rightarrow> (nat \<Rightarrow> u8) \<Rightarrow> kstate \<Rightarrow> unit res" where
  "load_icode e bin s =
     (if e_magic bin \<noteq> ELF_MAGIC then panic ''Elf loading failed'' s
      else
        bindK (load_segments e bin (map (proghdr bin) [0..<unat (e_phnum bin)])
                 (lcr3 (env_cr3 (envs s e)) s)) (\<lambda>_ s.
          let s = lcr3 (boot_cr3 s) s;
              s = upd_env e (\<lambda>x. x\<lparr>env_tf := (env_tf x)\<lparr>tf_rip := e_entry bin\<rparr>\<rparr>) s
          in region_alloc e (USTACKTOP - PGSIZE) PGSIZE s))"

definition env_create :: "(nat \<Rightarrow> u8) \<Rightarrow> EnvType \<Rightarrow> kstate \<Rightarrow> unit res" where
  "env_create bin type s =
     bindK (env_alloc 0 s) (\<lambda>(r, e) s.
       if r = - E_NO_FREE_ENV then panic ''no free environment'' s
       else if r = - E_NO_MEM then panic ''no free mem'' s
       else
         bindK (deref e s) (\<lambda>e s.
         bindK (load_icode e bin s) (\<lambda>_ s.
           Inr ((), upd_env e (\<lambda>x. x\<lparr>env_type := type, env_parent_id := 0\<rparr>) s))))"

section \<open>Freeing\<close>

text \<open>The innermost loop of \<open>env_free\<close>: unmap the present entries of one page table.\<close>

fun env_free_ptes :: "kptr \<Rightarrow> u64 \<Rightarrow> u64 \<Rightarrow> kptr \<Rightarrow> nat list \<Rightarrow> kstate \<Rightarrow> unit res" where
  "env_free_ptes pml4e pdpe_index pdeno pt [] s = Inr ((), s)"
| "env_free_ptes pml4e pdpe_index pdeno pt (pteno # ptenos) s =
     bindK (if ld s (elem_ptr pt (of_nat pteno)) AND PTE_P \<noteq> 0
            then page_remove pml4e (PGADDR 0 pdpe_index pdeno (of_nat pteno) 0) s
            else Inr ((), s)) (\<lambda>_ s.
       env_free_ptes pml4e pdpe_index pdeno pt ptenos s)"

fun env_free_pdes :: "kptr \<Rightarrow> u64 \<Rightarrow> kptr \<Rightarrow> nat list \<Rightarrow> kstate \<Rightarrow> unit res" where
  "env_free_pdes pml4e pdpe_index env_pgdir [] s = Inr ((), s)"
| "env_free_pdes pml4e pdpe_index env_pgdir (pdeno # pdenos) s =
     (if ld s (elem_ptr env_pgdir (of_nat pdeno)) AND PTE_P = 0
      then env_free_pdes pml4e pdpe_index env_pgdir pdenos s
      else
        let pa = PTE_ADDR (ld s (elem_ptr env_pgdir (of_nat pdeno))) in
        bindK (KADDR pa s) (\<lambda>pt s.
        bindK (env_free_ptes pml4e pdpe_index (of_nat pdeno) pt [0..<unat (PTX (- 1))] s) (\<lambda>_ s.
        bindK (pa2page pa (st (elem_ptr env_pgdir (of_nat pdeno)) 0 s)) (\<lambda>pp s.
        bindK (page_decref pp s) (\<lambda>_ s.
          env_free_pdes pml4e pdpe_index env_pgdir pdenos s)))))"

fun env_free_pdpes :: "kptr \<Rightarrow> kptr \<Rightarrow> nat list \<Rightarrow> kstate \<Rightarrow> unit res" where
  "env_free_pdpes pml4e env_pdpe [] s = Inr ((), s)"
| "env_free_pdpes pml4e env_pdpe (i # is) s =
     (if ld s (elem_ptr env_pdpe (of_nat i)) AND PTE_P = 0
      then env_free_pdpes pml4e env_pdpe is s
      else
        bindK (KADDR (PTE_ADDR (ld s (elem_ptr env_pdpe (of_nat i)))) s) (\<lambda>env_pgdir s.
          let pdeno_limit = unat (if i = 3 then PDX UTOP else PDX 0xFFFFFFFF) in
          bindK (env_free_pdes pml4e (of_nat i) env_pgdir [0..<pdeno_limit] s) (\<lambda>_ s.
            let pa = PTE_ADDR (ld s (elem_ptr env_pdpe (of_nat i)));
                s = st (elem_ptr env_pdpe (of_nat i)) 0 s
            in bindK (pa2page pa s) (\<lambda>pp s.
               bindK (page_decref pp s) (\<lambda>_ s.
                 env_free_pdpes pml4e env_pdpe is s)))))"

text \<open>The body of \<open>env_free\<close> after the demise was noted.\<close>

definition env_release :: "nat \<Rightarrow> kstate \<Rightarrow> unit res" where
  "env_release e s =
         bindK (deref (env_pml4e (envs s e)) s) (\<lambda>pml4e s.
         bindK (KADDR (PTE_ADDR (ld s pml4e)) s) (\<lambda>env_pdpe s.
         bindK (env_free_pdpes pml4e env_pdpe [0..<4] s) (\<lambda>_ s.
         bindK (pa2page (PTE_ADDR (ld s pml4e)) s) (\<lambda>pp s.
         bindK (page_decref pp s) (\<lambda>_ s.
           let s = st pml4e 0 s;
               pa = env_cr3 (envs s e);
               s = upd_env e (\<lambda>x. x\<lparr>env_pml4e := None, env_cr3 := 0\<rparr>) s
           in bindK (pa2page pa s) (\<lambda>pp s.
              bindK (page_decref pp s) (\<lambda>_ s.
                let s = upd_env e (\<lambda>x. x\<lparr>env_status := ENV_FREE, env_link := env_free_list s\<rparr>) s
                in Inr ((), s\<lparr>env_free_list := Some e\<rparr>))))))))"

definition env_free :: "nat \<Rightarrow> kstate \<Rightarrow> unit res" where
  "env_free e s =
     (let s = (if curenv s = Some e then lcr3 (boot_cr3 s) s else s);
          s = cprintf ''[%08x] free env %08x''
                [ucast (case curenv s of Some c \<Rightarrow> env_id (envs s c) | None \<Rightarrow> 0),
                 ucast (env_id (envs s e))] s
      in env_release e s)"

definition env_destroy :: "nat \<Rightarrow> kstate \<Rightarrow> unit res" where
  "env_destroy e s =
     (if env_status (envs s e) = ENV_RUNNING \<and> curenv s \<noteq> Some e then
        Inr ((), upd_env e (\<lambda>x. x\<lparr>env_status := ENV_DYING\<rparr>) s)
      else
        bindK (env_free e s) (\<lambda>_ s.
          if curenv s = Some e then sched_yield (set_curenv None s) else Inr ((), s)))"

definition user_mem_assert :: "nat \<Rightarrow> u64 \<Rightarrow> u64 \<Rightarrow> u32 \<Rightarrow> kstate \<Rightarrow> unit res" where
  "user_mem_assert env va len perm s =
     bindK (user_mem_check env va len (perm OR ucast PTE_U) s) (\<lambda>r s.
       if r < 0 then
         env_destroy env (cprintf ''[%08x] user_mem_check assertion failure for va %08x''
           [ucast (env_id (envs s env)), user_mem_check_addr s] s)
       else Inr ((), s))"

section \<open>Environment ids\<close>

text \<open>An id of generation \<open>g\<close> in slot \<open>e\<close>.\<close>

definition gen_id :: "nat \<Rightarrow> nat \<Rightarrow> u32" where
  "gen_id g e = of_nat (g * 4096 + e)"

lemma unat_gen_id: "g < 2 ^ 20 \<Longrightarrow> e < NENV \<Longrightarrow> unat (gen_id g e) = g * 4096 + e"
  unfolding gen_id_def NENV_val by (simp only: unat_of_nat) simp

lemma NOT_NENV: "(x :: u32) AND NOT (of_nat NENV - 1) = x AND NOT (mask 10)"
  by (simp add: NENV_val mask_eq_exp_minus_1)

lemma or_disjoint: "unat a mod 1024 = 0 \<Longrightarrow> e < 1024 \<Longrightarrow> a OR of_nat e = a + of_nat e" for a :: u32
proof -
  assume a: "unat a mod 1024 = 0" and e: "e < 1024"
  have ea: "take_bit 10 (of_nat e :: u32) = of_nat e"
    using e by (simp add: word_unat_eq_iff unat_take_bit unat_of_nat)
  have ta: "take_bit 10 a = 0"
    using a by (simp add: word_unat_eq_iff unat_take_bit)
  have "a AND take_bit 10 (of_nat e) = 0"
  proof (rule bit_word_eqI)
    fix n
    have "\<not> bit (take_bit 10 a) n" unfolding ta by simp
    then show "bit (a AND take_bit 10 (of_nat e)) n = bit (0 :: u32) n"
      by (auto simp: bit_simps)
  qed
  then have "a AND of_nat e = 0" using ea by simp
  then show ?thesis by (metis word_plus_and_or add_0)
qed

lemma and_not_mask10: "unat ((x :: u32) AND NOT (mask 10)) = unat x div 1024 * 1024"
proof -
  have eq: "x AND NOT (mask 10) = push_bit 10 (drop_bit 10 x)"
    by (rule bit_word_eqI) (auto simp: bit_simps)
  have "unat x div 1024 * 1024 < 2 ^ 32"
    using unsigned_less [of x, where 'a = nat] div_times_less_eq_dividend [of "unat x" 1024]
    by simp
  then show ?thesis
    unfolding eq by (simp add: push_bit_eq_mult unat_word_ariths unat_drop_bit)
qed

lemma signed_of_unsigned:
  fixes u :: int
  assumes "0 \<le> u" "u < 2 ^ 32"
  shows "(u + 2 ^ 31) mod 2 ^ 32 - 2 ^ 31 = (if u < 2 ^ 31 then u else u - 2 ^ 32)"
proof (cases "u < 2 ^ 31")
  case True
  with assms have "(u + 2 ^ 31) mod 2 ^ 32 = u + 2 ^ 31" by (intro mod_pos_pos_trivial) auto
  with True show ?thesis by simp
next
  case False
  have "(u + 2 ^ 31) mod 2 ^ 32 = (u + 2 ^ 31 - 2 ^ 32) mod 2 ^ 32" by (simp only: minus_mod_self2)
  also have "\<dots> = u + 2 ^ 31 - 2 ^ 32" using assms False by (intro mod_pos_pos_trivial) auto
  finally show ?thesis using False by simp
qed

lemma sint_u32:
  "sint (x :: u32) = (if unat x < 2 ^ 31 then int (unat x) else int (unat x) - 2 ^ 32)"
proof -
  have u: "0 \<le> uint x" "uint x < 2 ^ 32" using unsigned_less [of x, where 'a = int] by simp_all
  have "sint x = (uint x + 2 ^ 31) mod 2 ^ 32 - 2 ^ 31"
    by (simp add: sint_uint signed_take_bit_eq_take_bit_shift take_bit_eq_mod)
  also have "\<dots> = (if uint x < 2 ^ 31 then uint x else uint x - 2 ^ 32)"
    by (rule signed_of_unsigned [OF u])
  finally have eq: "sint x = (if uint x < 2 ^ 31 then uint x else uint x - 2 ^ 32)" .
  have "int (unat x) < int (2 ^ 31) \<longleftrightarrow> unat x < 2 ^ 31" by (rule of_nat_less_iff)
  then have "uint x < 2 ^ 31 \<longleftrightarrow> unat x < 2 ^ 31" by simp
  then show ?thesis unfolding eq by simp
qed

lemma next_id_gen:
  assumes "g < 2 ^ 19" "e < NENV"
  shows "next_id (gen_id g e) e = gen_id (if g + 1 < 2 ^ 19 then g + 1 else 1) e"
proof -
  let ?x = "gen_id g e + push_bit ENVGENSHIFT 1"
  have e: "e < 1024" using assms(2) by (simp add: NENV_val)
  have x: "unat ?x = (g + 1) * 4096 + e"
    using unat_gen_id [of g e] assms e by (simp add: ENVGENSHIFT_def unat_word_ariths)
  let ?g = "?x AND NOT (of_nat NENV - 1)"
  have "((g + 1) * 4096 + e) div 1024 = (g + 1) * 4"
    using e by (simp add: div_nat_eqI)
  then have g: "unat ?g = (g + 1) * 4096"
    unfolding NOT_NENV and_not_mask10 x by simp
  have pos: "sint ?g \<le> 0 \<longleftrightarrow> \<not> g + 1 < 2 ^ 19"
    using g assms by (simp add: sint_u32)
  show ?thesis
  proof (cases "g + 1 < 2 ^ 19")
    case True
    then have "next_id (gen_id g e) e = ?g + of_nat e"
      using pos or_disjoint [of ?g e] g e by (simp add: next_id_def Let_def)
    also have "\<dots> = gen_id (g + 1) e"
      using g e True assms(2) unat_gen_id [of "g + 1" e]
      by (simp add: word_unat_eq_iff unat_word_ariths unat_of_nat)
    finally show ?thesis using True by simp
  next
    case False
    then have "next_id (gen_id g e) e = 4096 + of_nat e"
      using pos or_disjoint [of 4096 e] e by (simp add: next_id_def Let_def ENVGENSHIFT_def)
    with False show ?thesis by (simp add: gen_id_def)
  qed
qed

lemma next_id_zero: "e < NENV \<Longrightarrow> next_id 0 e = gen_id 1 e"
proof -
  assume "e < NENV"
  then have e: "e < 1024" by (simp add: NENV_val)
  have "unat ((4096 :: u32) AND NOT (mask 10)) = 4096" by (simp add: and_not_mask10)
  then have g: "(4096 :: u32) AND NOT (of_nat NENV - 1) = 4096"
    unfolding NOT_NENV by (simp add: word_unat_eq_iff)
  have "(4096 :: u32) OR of_nat e = 4096 + of_nat e" using e by (intro or_disjoint) simp_all
  then show ?thesis
    using g by (simp add: next_id_def Let_def ENVGENSHIFT_def gen_id_def sint_u32)
qed

lemma iterate_next_id:
  assumes "e < NENV" "1 \<le> g" "g < 2 ^ 19"
  shows "((\<lambda>i. next_id i e) ^^ k) (gen_id g e) = gen_id ((g - 1 + k) mod (2 ^ 19 - 1) + 1) e"
proof (induction k)
  case 0
  from assms have "(g - 1) mod (2 ^ 19 - 1) = g - 1" by (intro mod_less) simp
  with assms show ?case by simp
next
  case (Suc k)
  let ?m = "(g - 1 + k) mod (2 ^ 19 - 1)"
  have m: "?m < 2 ^ 19 - 1" by simp
  have "(g - 1 + Suc k) mod (2 ^ 19 - 1) + 1 = (if ?m + 1 + 1 < 2 ^ 19 then ?m + 1 + 1 else 1)"
    using m by (auto simp: mod_Suc)
  moreover have "next_id (gen_id (?m + 1) e) e = gen_id (if ?m + 1 + 1 < 2 ^ 19 then ?m + 1 + 1 else 1) e"
    using m assms(1) by (intro next_id_gen) simp_all
  ultimately show ?case using Suc by simp
qed

lemma gen_id_inj:
  assumes "g < 2 ^ 20" "g' < 2 ^ 20" "e < NENV" "gen_id g e = gen_id g' e"
  shows "g = g'"
proof -
  have "g * 4096 + e = g' * 4096 + e"
    using unat_gen_id [OF assms(1,3)] unat_gen_id [OF assms(2,3)] assms(4) by metis
  then show ?thesis by simp
qed

lemma gen_id_facts:
  assumes "1 \<le> g" "g < 2 ^ 19" "e < NENV"
  shows "ENVX (gen_id g e) = e" "0 < sint (gen_id g e)" "gen_id g e \<noteq> 0"
proof -
  have u: "unat (gen_id g e) = g * 4096 + e" using assms by (intro unat_gen_id) simp_all
  have split: "g * 4096 + e = (4 * g) * 1024 + e" by simp
  have "((4 * g) * 1024 + e) mod 1024 = e mod 1024" by (rule mod_mult_self3)
  then show "ENVX (gen_id g e) = e" using assms(3) by (simp only: ENVX_mod u NENV_val split) simp
  show "0 < sint (gen_id g e)" using assms u by (simp add: sint_u32 NENV_val)
  then show "gen_id g e \<noteq> 0" by auto
qed

text \<open>Environment ids. Starting from a valid id of slot \<open>e\<close>, the ids of the next
  \<open>2 ^ 19 - 2\<close> environments created in that slot are all different from it, each is
  positive as a 32-bit signed integer, and each has \<open>e\<close> as its index part.\<close>

theorem env_ids_fresh:
  assumes "e < NENV" "1 \<le> g" "g < 2 ^ 19" and "0 < k" "k < 2 ^ 19 - 1"
  shows "let i = ((\<lambda>i. next_id i e) ^^ k) (gen_id g e) in
     i \<noteq> gen_id g e \<and> 0 < sint i \<and> ENVX i = e"
proof -
  let ?h = "(g - 1 + k) mod (2 ^ 19 - 1) + 1"
  have "?h - 1 < 2 ^ 19 - 1" by simp
  then have h: "1 \<le> ?h" "?h < 2 ^ 19" by simp_all
  have "?h \<noteq> g"
  proof
    assume "?h = g"
    then have "(g - 1 + k) mod (2 ^ 19 - 1) = (g - 1) mod (2 ^ 19 - 1)"
      using assms(2,3) by simp
    moreover define N where "N = (2 :: nat) ^ 19 - 1"
    moreover have "g - 1 < N" "k < N" using assms by (simp_all add: N_def)
    ultimately have "(g - 1 + k) mod N = g - 1" "g - 1 < N" "k < N" by simp_all
    with assms(4) show False by (auto simp: mod_if split: if_splits)
  qed
  moreover have two: "(2 :: nat) ^ 19 < 2 ^ 20" by simp
  have "?h < 2 ^ 20" "g < 2 ^ 20" by (rule less_trans [OF h(2) two] less_trans [OF assms(3) two])+
  ultimately have "gen_id ?h e \<noteq> gen_id g e"
    using gen_id_inj [of ?h g e] assms(1) by metis
  then show ?thesis
    unfolding iterate_next_id [OF assms(1-3)] Let_def using gen_id_facts [OF h assms(1)] by simp
qed

theorem env_ids_fresh_witness:
  "(let i = ((\<lambda>i. next_id i 3) ^^ 7) (gen_id 1 3) in i \<noteq> gen_id 1 3 \<and> 0 < sint i \<and> ENVX i = 3)"
proof -
  have "3 < NENV" by (simp add: NENV_val)
  from env_ids_fresh [OF this, of 1 7] show ?thesis by simp
qed

section \<open>The list of free environments\<close>

interpretation efl: intrusive_list env_free_list "\<lambda>s e. env_link (envs s e)"
    "\<lambda>h s. s\<lparr>env_free_list := h\<rparr>" "\<lambda>e l s. upd_env e (\<lambda>x. x\<lparr>env_link := l\<rparr>) s"
  by unfold_locales (auto simp: upd_env_def)

definition efreelist :: "kstate \<Rightarrow> nat list \<Rightarrow> bool" where
  "efreelist s es \<longleftrightarrow> chain (\<lambda>e. env_link (envs s e)) (env_free_list s) es"

text \<open>
  The invariant of the environment table: the free list holds exactly the slots with status
  \<open>ENV_FREE\<close>, and a slot's id is 0 or an id of that slot; the id of a slot in use is not 0.
\<close>

definition slot_id :: "nat \<Rightarrow> u32 \<Rightarrow> bool" where
  "slot_id e i \<longleftrightarrow> (\<exists>g. 1 \<le> g \<and> g < 2 ^ 19 \<and> i = gen_id g e)"

definition env_inv :: "kstate \<Rightarrow> nat list \<Rightarrow> bool" where
  "env_inv s es \<longleftrightarrow> efreelist s es \<and> set es \<subseteq> {..<NENV} \<and>
     (\<forall>e < NENV. (env_status (envs s e) = ENV_FREE \<longleftrightarrow> e \<in> set es) \<and>
        (slot_id e (env_id (envs s e)) \<or> env_id (envs s e) = 0 \<and> e \<in> set es))"

lemma slot_id_facts:
  assumes "slot_id e i" "e < NENV"
  shows "ENVX i = e" "i \<noteq> 0" "0 < sint i"
proof -
  from assms(1) obtain g where g: "1 \<le> g" "g < 2 ^ 19" "i = gen_id g e" by (auto simp: slot_id_def)
  show "ENVX i = e" "i \<noteq> 0" "0 < sint i" using gen_id_facts [OF g(1,2) assms(2)] g(3) by auto
qed

lemma slot_id_next:
  assumes "slot_id e i \<or> i = 0" "e < NENV"
  shows "slot_id e (next_id i e)"
proof -
  have "slot_id e (next_id (gen_id g e) e)" if "1 \<le> g" "g < 2 ^ 19" for g
    using next_id_gen [OF that(2) assms(2)] that unfolding slot_id_def
    by (intro exI [of _ "if g + 1 < 2 ^ 19 then g + 1 else 1"]) simp
  moreover have "slot_id e (next_id 0 e)"
    using next_id_zero [OF assms(2)] unfolding slot_id_def by (intro exI [of _ 1]) simp
  ultimately show ?thesis using assms(1) by (auto simp: slot_id_def)
qed

lemma env_init_loop_frame:
  "e \<ge> n \<Longrightarrow> envs (env_init_loop n s) e = envs s e"
  "pages (env_init_loop n s) = pages s" "mem (env_init_loop n s) = mem s"
  "page_free_list (env_init_loop n s) = page_free_list s"
  by (induction n arbitrary: s) (auto simp: upd_env_def)

lemma env_init_loop_slots:
  "e < n \<Longrightarrow> env_status (envs (env_init_loop n s) e) = ENV_FREE \<and> env_id (envs (env_init_loop n s) e) = 0"
proof (induction n arbitrary: s)
  case 0
  then show ?case by simp
next
  case (Suc n)
  then show ?case by (cases "e = n") (auto simp: env_init_loop_frame upd_env_def)
qed

lemma env_init_loop_list:
  assumes "efreelist s [n..<m]" "n \<le> m"
  shows "efreelist (env_init_loop n s) [0..<m]"
  using assms
proof (induction n arbitrary: s)
  case 0
  then show ?case by simp
next
  case (Suc n)
  let ?s = "(upd_env n (\<lambda>x. x\<lparr>env_link := env_free_list s, env_id := 0, env_status := ENV_FREE\<rparr>) s)
          \<lparr>env_free_list := Some n\<rparr>"
  have "chain (\<lambda>e. env_link (envs ?s e)) (env_free_list s) [Suc n..<m]"
    using Suc.prems by (auto simp: efreelist_def upd_env_def cong: chain_cong elim!: chain_cong [THEN iffD1, rotated])
  then have "efreelist ?s [n..<m]"
    using Suc.prems(2) by (simp add: efreelist_def upt_conv_Cons) (simp add: upd_env_def)
  with Suc show ?case by simp
qed

lemma env_init_inv: "env_inv (env_init s) [0..<NENV]"
proof -
  have "efreelist (s\<lparr>env_free_list := None\<rparr>) [NENV..<NENV]" by (simp add: efreelist_def)
  from env_init_loop_list [OF this] show ?thesis
    unfolding env_inv_def env_init_def using env_init_loop_slots by auto
qed

text \<open>\<open>env_init\<close> puts all \<open>NENV\<close> environments on the free list in the order of the
  array, with status \<open>ENV_FREE\<close> and id 0, so that the first allocation takes slot 0.\<close>

theorem env_init_correct:
  "efreelist (env_init s) [0..<NENV] \<and> env_free_list (env_init s) = Some 0 \<and>
   (\<forall>e < NENV. env_status (envs (env_init s) e) = ENV_FREE \<and> env_id (envs (env_init s) e) = 0)"
proof -
  have "efreelist (env_init s) [0..<NENV]" using env_init_inv by (simp add: env_inv_def)
  moreover from this have "env_free_list (env_init s) = Some 0"
    by (simp add: efreelist_def upt_conv_Cons)
  ultimately show ?thesis
    using env_init_loop_slots by (simp add: env_init_def)
qed

theorem env_init_correct_witness:
  "env_status (envs (env_init (bss_state 8 0 0)) 1023) = ENV_FREE \<and>
   env_free_list (env_init (bss_state 8 0 0)) = Some 0"
proof -
  have "1023 < NENV" by (simp add: NENV_val)
  with env_init_correct [of "bss_state 8 0 0"] show ?thesis by blast
qed

text \<open>\<open>envid2env\<close> without permission check finds, for a nonzero id, the environment that
  is in use under exactly this id, if there is one, and no other; else it returns
  \<open>-E_BAD_ENV\<close>. A stale id of a reused slot is refused.\<close>

theorem envid2env_finds:
  assumes "env_inv s es" and "envid \<noteq> 0"
  shows "(\<forall>e < NENV. envid2env envid False s = Inr ((0, Some e), s) \<longleftrightarrow>
            env_status (envs s e) \<noteq> ENV_FREE \<and> env_id (envs s e) = envid) \<and>
    ((\<forall>e < NENV. env_status (envs s e) = ENV_FREE \<or> env_id (envs s e) \<noteq> envid) \<longleftrightarrow>
      envid2env envid False s = Inr ((- E_BAD_ENV, None), s))"
proof -
  have slot: "ENVX (env_id (envs s e)) = e" if "e < NENV" "env_status (envs s e) \<noteq> ENV_FREE" for e
  proof -
    have "slot_id e (env_id (envs s e))" using assms(1) that by (auto simp: env_inv_def)
    then show ?thesis using slot_id_facts(1) that(1) by blast
  qed
  have "ENVX envid < NENV" by simp
  with slot assms(2) show ?thesis
    by (auto simp: envid2env_def Let_def E_BAD_ENV_def intro!: exI [of _ "ENVX envid"])
qed

text \<open>\<open>envid2env\<close> with permission check, called for a current environment in use, grants
  access only to that environment itself and to its immediate children.\<close>

theorem envid2env_permission:
  assumes "curenv s = Some c" and "envid2env envid True s = Inr ((0, Some e), s)"
  shows "e = c \<or> env_parent_id (envs s e) = env_id (envs s c)"
  using assms by (auto simp: envid2env_def Let_def E_BAD_ENV_def split: if_splits)

text \<open>A parent with id \<open>gen_id 1 0\<close> in slot 0, its child in slot 1, a stranger in slot 2.\<close>

definition env_sample :: kstate where
  "env_sample = (bss_state 8 0 0)\<lparr>
     envs := (\<lambda>i. if i = 0 then zero_env\<lparr>env_id := gen_id 1 0, env_status := ENV_RUNNING\<rparr>
        else if i = 1 then zero_env\<lparr>env_id := gen_id 1 1, env_parent_id := gen_id 1 0, env_status := ENV_RUNNABLE\<rparr>
        else if i = 2 then zero_env\<lparr>env_id := gen_id 1 2, env_status := ENV_RUNNABLE\<rparr>
        else zero_env\<lparr>env_link := if i + 1 < NENV then Some (i + 1) else None\<rparr>),
     env_free_list := Some 3, cpus := (\<lambda>_. zero_cpu\<lparr>cpu_env := Some 0\<rparr>)\<rparr>"

lemma env_sample_inv: "env_inv env_sample [3..<NENV]"
proof -
  have "chain (\<lambda>e. env_link (envs env_sample e)) (if i < NENV then Some i else None) [i..<NENV]"
    if "3 \<le> i" for i
    using that
  proof (induction "NENV - i" arbitrary: i)
    case 0
    then show ?case by simp
  next
    case (Suc n)
    then have "i < NENV" by simp
    moreover have "env_link (envs env_sample i) = (if i + 1 < NENV then Some (i + 1) else None)"
      using Suc.prems by (simp add: env_sample_def)
    moreover have "chain (\<lambda>e. env_link (envs env_sample e)) (if i + 1 < NENV then Some (i + 1) else None) [i + 1..<NENV]"
      using Suc.hyps(2) Suc.prems by (intro Suc.hyps(1)) simp_all
    ultimately show ?case by (simp add: upt_conv_Cons)
  qed
  moreover have "3 < NENV" by (simp add: NENV_val)
  moreover have "env_free_list env_sample = Some 3" by (simp add: env_sample_def)
  ultimately have "efreelist env_sample [3..<NENV]" unfolding efreelist_def by fastforce
  moreover have "slot_id e (gen_id 1 e)" for e unfolding slot_id_def by (intro exI [of _ 1]) simp
  ultimately show ?thesis
    unfolding env_inv_def by (auto simp: env_sample_def zero_env_def)
qed

theorem envid2env_finds_witness:
  "envid2env (gen_id 1 2) False env_sample = Inr ((0, Some 2), env_sample)"
proof -
  have n: "2 < NENV" by (simp add: NENV_val)
  have "gen_id 1 2 \<noteq> 0" using gen_id_facts(3) [of 1 2] n by simp
  with envid2env_finds [OF env_sample_inv] n show ?thesis by (auto simp: env_sample_def)
qed

theorem envid2env_permission_witness:
  "envid2env (gen_id 1 1) True env_sample = Inr ((0, Some 1), env_sample) \<and>
   (1 = (0 :: nat) \<or> env_parent_id (envs env_sample 1) = env_id (envs env_sample 0))"
proof -
  have "1 < NENV" by (simp add: NENV_val)
  then have "ENVX (gen_id 1 1) = 1" "gen_id 1 1 \<noteq> 0" using gen_id_facts [of 1 1] by simp_all
  then have "envid2env (gen_id 1 1) True env_sample = Inr ((0, Some 1), env_sample)"
    by (simp add: envid2env_def Let_def env_sample_def curenv_def)
  moreover have "curenv env_sample = Some 0" by (simp add: env_sample_def curenv_def)
  ultimately show ?thesis using envid2env_permission by blast
qed

end
