(* ===== verification/Env_Life.thy ===== *)
theory Env_Life
  imports Env
begin

text \<open>
  The life of an environment: what \<open>env_alloc\<close> builds, what \<open>region_alloc\<close> maps into it,
  what \<open>env_free\<close> and \<open>env_destroy\<close> do at its end.
\<close>

section \<open>env\_alloc\<close>

lemma PML4_UVPT: "PML4 UVPT = 2"
  by (simp add: PML4_def UVPT_def)

text \<open>The top-level table of a new environment in page \<open>x\<close>.\<close>

definition new_pml4 :: "kstate \<Rightarrow> nat \<Rightarrow> nat \<Rightarrow> u64" where
  "new_pml4 s x i =
     (if i = 1 then mem s (fst (boot_pml4e s)) 1
      else if i = 2 then page2pa x OR PTE_P OR PTE_U else 0)"

lemma env_setup_vm_ok:
  assumes "alloc_inv s (x # fl)" "boot_pml4e s = (b, 0)" "b \<noteq> x"
  shows "env_setup_vm e s = Inr (0, upd_env e (\<lambda>v. v\<lparr>env_pml4e := Some (x, 0), env_cr3 := page2pa x\<rparr>)
     ((incref x (taken True x s))\<lparr>mem := (mem s)(x := new_pml4 s x)\<rparr>))"
proof -
  have x: "x < npages s" "npages s \<le> 2 ^ 32" using alloc_invD [OF assms(1)] by simp_all
  have kva: "page2kva x (incref x (taken True x s)) = Inr ((x, 0), incref x (taken True x s))"
    using x by (simp add: page2kva_in_range incref_def set_pp_ref_def)
  show ?thesis
    using page_alloc_cons [OF assms(1), of ALLOC_ZERO] kva assms(2,3)
    by (simp add: env_setup_vm_def Let_def ALLOC_ZERO_def PML4_UVPT kstate_defs taken_def
        new_pml4_def [abs_def] fun_upd_def fun_eq_iff cong: if_cong)
qed

text \<open>A page that is no table can be overwritten.\<close>

lemma pt_wf_untouched:
  assumes wf: "pt_wf sl ow s fl" and ox: "ow x = None" and m: "mem s' = (mem s)(x := row)"
    and "ow p = Some (r, is)" "length (is @ js) = 4" "\<forall>j \<in> set js. j < 512" "is = [] \<longrightarrow> hd js \<in> sl r"
  shows "leaf s' p js = leaf s p js"
  using assms(4-)
proof (induction js arbitrary: p "is")
  case Nil
  then show ?case by simp
next
  case (Cons j js)
  have px: "p \<noteq> x" using Cons.prems(1) ox by auto
  then have nx: "nxt s' p i = nxt s p i" for i using m by (simp add: nxt_def)
  show ?case
  proof (cases "js = []")
    case True
    with px m show ?thesis by simp
  next
    case False
    have ok: "slot_ok sl r is j" using Cons.prems False by (cases js) (auto simp: slot_ok_def)
    have "ow b = Some (r, is @ [j])" if "nxt s p j = Some b" for b
      using pt_wfD(5) [OF wf Cons.prems(1) ok] that by blast
    with Cons False nx show ?thesis by (simp add: leaf_Cons split: option.splits)
  qed
qed

text \<open>A fresh top-level table is the root of an address space of its own.\<close>

lemma pt_wf_new_root:
  assumes wf: "pt_wf sl ow s (x # fl)" and sl: "sl x \<subseteq> {0}" and inv: "alloc_inv s' fl"
    and m: "mem s' = (mem s)(x := row)" "row 0 = 0" and np: "npages s' = npages s"
  shows "pt_wf sl (ow(x := Some (x, []))) s' fl"
    and "root_ok sl ow r va \<Longrightarrow> mapping s' r va = mapping s r va"
proof -
  have x: "x < npages s" "x \<notin> set fl" using alloc_invD [OF pt_wfD(1) [OF wf]] by simp_all
  have ox: "ow x = None" using pt_wfD(3) [OF wf, of x] by (cases "ow x") auto
  have nx: "nxt s' p i = nxt s p i" if "p \<noteq> x" for p i using that m by (simp add: nxt_def)
  have nx0: "nxt s' x 0 = None" using m by (simp add: nxt_def)
  show "pt_wf sl (ow(x := Some (x, []))) s' fl"
    unfolding pt_wf_def
  proof (intro conjI allI impI inv)
    fix p r "is" assume p: "(ow(x := Some (x, []))) p = Some (r, is)"
    then show "p < npages s'" "p \<notin> set fl" "length is \<le> 3"
      using x np pt_wfD(2,3,4) [OF wf, of p] by (auto split: if_splits)
    fix i q assume ok: "slot_ok sl r is i" and q: "nxt s' p i = Some q"
    show "(ow(x := Some (x, []))) q = Some (r, is @ [i])"
    proof (cases "p = x")
      case True
      with p ok sl have "i = 0" by (auto simp: slot_ok_def)
      with True q nx0 show ?thesis by simp
    next
      case False
      with p q nx have "ow q = Some (r, is @ [i])" using pt_wfD(5) [OF wf _ ok] by simp
      with ox show ?thesis by auto
    qed
  qed
  have lf: "leaf s' p js = leaf s p js"
    if "ow p = Some (r, is)" "length (is @ js) = 4" "\<forall>j \<in> set js. j < 512" "is = [] \<longrightarrow> hd js \<in> sl r" for p r "is" js
    by (rule pt_wf_untouched [OF wf ox m(1) that])
  show "mapping s' r va = mapping s r va" if "root_ok sl ow r va"
    using lf [of r r "[]" "pidx va"] that pidx_bound [of va] by (simp add: mapping_def root_ok_def)
qed

lemma pt_wf_zeroed:
  assumes "pt_wf sl ow s (x # fl)" "mem s' = (mem s)(x := row)" "root_ok sl ow r va"
  shows "mapping s' r va = mapping s r va"
proof -
  have ox: "ow x = None" using pt_wfD(3) [OF assms(1), of x] by (cases "ow x") auto
  have "leaf s' r (pidx va) = leaf s r (pidx va)"
    using assms(3) pidx_bound [of va]
    by (intro pt_wf_untouched [OF assms(1) ox assms(2), of r r "[]"]) (auto simp: root_ok_def)
  then show ?thesis by (simp add: mapping_def)
qed

definition alloced :: "u32 \<Rightarrow> nat \<Rightarrow> nat \<Rightarrow> Env \<Rightarrow> Env" where
  "alloced parent_id e x v = v\<lparr>env_pml4e := Some (x, 0), env_cr3 := page2pa x,
     env_id := next_id (env_id v) e, env_parent_id := parent_id,
     env_type := ENV_TYPE_USER, env_status := ENV_RUNNABLE, env_runs := 0,
     env_tf := new_tf, env_pgfault_upcall := 0, env_ipc_recving := False\<rparr>"

lemma env_alloc_ok:
  assumes "env_free_list s = Some e" "alloc_inv s (x # fl)" "boot_pml4e s = (b, 0)" "b \<noteq> x"
  shows "\<exists>s'. env_alloc parent_id s = Inr ((0, Some e), s') \<and>
     envs s' = (envs s)(e := alloced parent_id e x (envs s e)) \<and>
     env_free_list s' = env_link (envs s e) \<and> alloc_inv s' fl \<and>
     mem s' = (mem s)(x := new_pml4 s x) \<and> npages s' = npages s \<and>
     pages s' = (pages s)(x := (pages s x)\<lparr>pp_link := None, pp_ref := pp_ref (pages s x) + 1\<rparr>) \<and>
     cpus s' = cpus s \<and> cpu s' = cpu s"
proof -
  let ?s1 = "upd_env e (\<lambda>v. v\<lparr>env_pml4e := Some (x, 0), env_cr3 := page2pa x\<rparr>)
     ((incref x (taken True x s))\<lparr>mem := (mem s)(x := new_pml4 s x)\<rparr>)"
  have "alloc_inv (taken True x s) fl" "x \<notin> set fl" using alloc_inv_taken [OF assms(2)] by auto
  then have "alloc_inv (incref x (taken True x s)) fl" by (simp add: incref_def alloc_inv_set_pp_ref)
  then have inv: "alloc_inv s' fl"
    if "pages s' = pages ?s1" "page_free_list s' = page_free_list ?s1" "npages s' = npages ?s1" for s'
    using that by (subst alloc_inv_cong [of _ "incref x (taken True x s)"]) (simp_all add: upd_env_def)
  let ?s' = "cprintf ''[%08x] new env %08x''
      [ucast (case curenv s of Some c \<Rightarrow> env_id (((envs s)(e := alloced parent_id e x (envs s e))) c) | None \<Rightarrow> 0),
       ucast (next_id (env_id (envs s e)) e)]
      (?s1\<lparr>envs := (envs s)(e := alloced parent_id e x (envs s e)), env_free_list := env_link (envs s e)\<rparr>)"
  have "env_alloc parent_id s = Inr ((0, Some e), ?s')"
    using env_setup_vm_ok [OF assms(2-4), of e] assms(1)
    by (simp add: env_alloc_def Let_def upd_env_def alloced_def kstate_defs taken_def cprintf_def
        cong: option.case_cong if_cong)
  moreover have "alloc_inv ?s' fl" by (rule inv) (simp_all add: cprintf_def upd_env_def)
  ultimately show ?thesis
    by (auto simp: cprintf_def upd_env_def kstate_defs taken_def intro!: exI [of _ ?s'])
qed

text \<open>C16: \<open>env_alloc\<close>. With a free slot and a free page it takes the first of each: the slot
  becomes a runnable environment with a new id of that slot, interrupts enabled, user
  segments and an empty stack; its top-level table is a fresh page that maps the kernel
  slot of \<open>boot_pml4e\<close> and itself read-only at \<open>UVPT\<close> and nothing else. No other
  environment changes, no mapping of any existing address space changes, and the
  invariants of the environment table, of the allocator and of the page tables hold
  again, with the new table as a further root.\<close>

theorem env_alloc_correct:
  assumes "env_inv s (e # es)" and "pt_wf sl ow s (x # fl)" "sl x \<subseteq> {0}"
    and "boot_pml4e s = (b, 0)" "b \<noteq> x"
  shows "\<exists>s'. env_alloc parent_id s = Inr ((0, Some e), s') \<and>
     env_inv s' es \<and> pt_wf sl (ow(x := Some (x, []))) s' fl \<and>
     envs s' = (envs s)(e := alloced parent_id e x (envs s e)) \<and>
     slot_id e (env_id (envs s' e)) \<and> env_id (envs s' e) \<noteq> env_id (envs s e) \<and>
     mem s' = (mem s)(x := new_pml4 s x) \<and> pp_ref (pages s' x) = 1 \<and>
     (\<forall>r va. root_ok sl ow r va \<longrightarrow> mapping s' r va = mapping s r va)"
proof -
  have ef: "env_free_list s = Some e" and fl: "efreelist s (e # es)" and e: "e < NENV"
    using assms(1) by (auto simp: env_inv_def efreelist_def)
  note ainv = pt_wfD(1) [OF assms(2)]
  obtain s' where s': "env_alloc parent_id s = Inr ((0, Some e), s')"
     "envs s' = (envs s)(e := alloced parent_id e x (envs s e))"
     "env_free_list s' = env_link (envs s e)" "alloc_inv s' fl"
     "mem s' = (mem s)(x := new_pml4 s x)" "npages s' = npages s"
     "pages s' = (pages s)(x := (pages s x)\<lparr>pp_link := None, pp_ref := pp_ref (pages s x) + 1\<rparr>)"
    using env_alloc_ok [OF ef ainv assms(4,5)] by blast
  have old: "slot_id e (env_id (envs s e)) \<or> env_id (envs s e) = 0"
    using assms(1) e by (auto simp: env_inv_def)
  then have id: "slot_id e (next_id (env_id (envs s e)) e)" by (rule slot_id_next [OF _ e])
  have new: "next_id (env_id (envs s e)) e \<noteq> env_id (envs s e)"
  proof (cases "env_id (envs s e) = 0")
    case True
    then show ?thesis using slot_id_facts(2) [OF id e] by simp
  next
    case False
    with old obtain g where g: "1 \<le> g" "g < 2 ^ 19" "env_id (envs s e) = gen_id g e"
      by (auto simp: slot_id_def)
    have "(if g + 1 < 2 ^ 19 then g + 1 else 1) \<noteq> g" "(if g + 1 < 2 ^ 19 then g + 1 else 1) < 2 ^ 20" "g < 2 ^ 20"
      using g by auto
    then show ?thesis
      using gen_id_inj [OF _ _ e] next_id_gen [OF g(2) e] g(3) by metis
  qed
  have "distinct (e # es)" using fl unfolding efreelist_def by (rule chain_distinct)
  then have "e \<notin> set es" by simp
  have links: "env_link (envs s' i) = env_link (envs s i)" for i
    using s'(2) by (simp add: alloced_def)
  then have "efreelist s' es" using fl s'(3) by (simp add: efreelist_def)
  then have einv: "env_inv s' es"
    using assms(1) \<open>e \<notin> set es\<close> id s'(2) unfolding env_inv_def by (auto simp: alloced_def)
  have "new_pml4 s x 0 = 0" by (simp add: new_pml4_def)
  note pt = pt_wf_new_root [OF assms(2,3) s'(4,5) this s'(6)]
  have "pp_ref (pages s' x) = 1" using s'(7) alloc_invD(5) [OF ainv] by simp
  with s'(1,2,5) einv pt id new show ?thesis by (auto simp: alloced_def)
qed

text \<open>The failures of \<open>env_alloc\<close>: \<open>-E_NO_FREE_ENV\<close> when no slot is free and
  \<open>-E_NO_MEM\<close> when no page is free; in both cases nothing changed.\<close>

theorem env_alloc_fails:
  assumes "alloc_inv s fl" "efreelist s es" and "es = [] \<or> fl = []"
  shows "env_alloc parent_id s = Inr ((if es = [] then - E_NO_FREE_ENV else - E_NO_MEM, None), s)"
proof (cases es)
  case Nil
  then show ?thesis using assms(2) by (simp add: env_alloc_def efreelist_def)
next
  case (Cons e es')
  then have "env_free_list s = Some e" "fl = []" using assms(2,3) by (simp_all add: efreelist_def)
  then show ?thesis
    using assms(1) page_alloc_empty [of s ALLOC_ZERO] Cons
    by (simp add: env_alloc_def env_setup_vm_def E_NO_MEM_def)
qed

lemma env_inv_cong:
  "envs s' = envs s \<Longrightarrow> env_free_list s' = env_free_list s \<Longrightarrow> env_inv s' es = env_inv s es"
  by (simp add: env_inv_def efreelist_def)

text \<open>The sample address space together with the sample environments.\<close>

definition life_sample :: kstate where
  "life_sample = (sample 1)\<lparr>envs := envs env_sample, env_free_list := Some 3, boot_pml4e := (2, 0)\<rparr>"

lemma life_sample_wf: "pt_wf (\<lambda>_. {0}) sample_ow life_sample [7, 8, 9]"
  using sample_wf [of 1] by (subst pt_wf_cong [of _ "sample 1"]) (simp_all add: life_sample_def)

lemma life_sample_inv: "env_inv life_sample (3 # [4..<NENV])"
proof -
  have "[3..<NENV] = 3 # [4..<NENV]" by (simp add: upt_conv_Cons NENV_val del: upt_rec_numeral)
  moreover have "env_inv life_sample [3..<NENV]"
    using env_sample_inv by (subst env_inv_cong [of _ env_sample]) (simp_all add: life_sample_def env_sample_def)
  ultimately show ?thesis by simp
qed

theorem env_alloc_correct_witness:
  "\<exists>s'. env_alloc (gen_id 1 0) life_sample = Inr ((0, Some 3), s') \<and> env_inv s' [4..<NENV] \<and>
     mapping s' 2 0x2000 = Some 0x6007"
proof -
  have "mapping life_sample = mapping (sample 1)" by (rule mapping_cong) (simp add: life_sample_def)
  then have "mapping life_sample 2 0x2000 = Some 0x6007" by (simp add: sample_mapping)
  with env_alloc_correct [OF life_sample_inv life_sample_wf, of 2 "gen_id 1 0"] sample_root
  show ?thesis by (fastforce simp: life_sample_def)
qed

theorem env_alloc_fails_witness:
  "env_alloc 0 (bss_state 8 0 0) = Inr ((- E_NO_FREE_ENV, None), bss_state 8 0 0)"
  using env_alloc_fails [of "bss_state 8 0 0" "[]" "[]" 0]
  by (simp add: alloc_inv_def freelist_def efreelist_def)

text \<open>The sample address space with one more free page.\<close>

definition four_free :: kstate where
  "four_free = (sample 1)\<lparr>npages := 11,
     pages := (sample_pages 1)(9 := \<lparr>pp_link = Some 10, pp_ref = 0\<rparr>, 10 := \<lparr>pp_link = None, pp_ref = 0\<rparr>)\<rparr>"

lemma four_free_wf: "pt_wf (\<lambda>_. {0}) sample_ow four_free [7, 8, 9, 10]"
proof -
  have "alloc_inv four_free [7, 8, 9, 10]"
    by (auto simp: alloc_inv_def freelist_def four_free_def sample_pages_def)
  moreover have "nxt four_free p i = nxt (sample 1) p i" for p i by (simp add: nxt_def four_free_def)
  ultimately show ?thesis
    by (auto simp: pt_wf_def sample_ow_def nxt_sample slot_ok_def four_free_def split: if_splits)
qed

section \<open>region\_alloc\<close>

text \<open>\<open>region_alloc\<close> of one page maps a zeroed page writable for the user, but counts it
  twice: it increments the reference count itself and \<open>page_insert\<close> does so again, so
  the page is never freed when the mapping is removed.\<close>

theorem region_alloc_counts_twice:
  assumes "pt_wf sl ow s (x # fl)" "env_pml4e (envs s e) = Some (r, 0)" "root_ok sl ow r va"
    and "mapping s r va = None" "3 \<le> length fl" and "unat va mod 4096 = 0" "unat va + 8192 \<le> 2 ^ 64"
  shows "\<exists>s'. region_alloc e va PGSIZE s = Inr ((), s') \<and>
     mapping s' r va = Some (page2pa x OR PTE_U OR PTE_W OR PTE_P) \<and> pp_ref (pages s' x) = 2"
proof -
  note ainv = pt_wfD(1) [OF assms(1)]
  let ?s = "incref x (taken True x s)"
  have x: "x \<notin> set fl" "x < npages s" "pp_ref (pages s x) = 0"
    using alloc_invD [OF ainv] by simp_all
  have ox: "ow x = None" using pt_wfD(3) [OF assms(1), of x] by (cases "ow x") auto
  have alloc: "page_alloc ALLOC_ZERO s = Inr (Some x, taken True x s)"
    using page_alloc_cons [OF ainv, of ALLOC_ZERO] by (simp add: ALLOC_ZERO_def)
  have inv1: "alloc_inv ?s fl"
    using alloc_inv_taken [OF ainv] by (simp add: incref_def alloc_inv_set_pp_ref)
  have m1: "mem ?s = (mem s)(x := (\<lambda>_. 0))" "npages ?s = npages s" by (simp_all add: kstate_defs)
  have "nxt ?s p i = nxt s p i" if "ow p = Some z" for p z i
    using that ox m1 by (auto simp: nxt_def)
  then have wf1: "pt_wf sl ow ?s fl"
    using pt_wfD(3) [OF assms(1)] inv1 m1 by (intro pt_wf_step [OF assms(1)]) auto
  have map1: "mapping ?s r va = None"
    using pt_wf_zeroed [OF assms(1) m1(1) assms(3)] assms(4) by simp
  have ins: "insertable ow ?s fl r va x" using x map1 m1 by (simp add: insertable_def)
  let ?perm = "ucast (PTE_U OR PTE_W OR PTE_P) :: u32"
  obtain s' where s': "page_insert (r, 0) x va ?perm ?s = Inr (0, s')"
      "inserted sl ow ?s fl r va x (page2pa x OR scast (?perm OR 1)) s'"
    using page_insert_lemma [OF wf1 assms(3) ins, of ?perm] assms(5) by (auto simp: E_NO_MEM_def)
  have perm: "scast (?perm OR 1) = PTE_U OR PTE_W OR PTE_P" by (simp add: mmu_defs)
  have n: "(unat (ROUNDUP (va + PGSIZE) PGSIZE) - unat (ROUNDDOWN va PGSIZE)) div unat PGSIZE = 1"
  proof -
    have "unat (va + PGSIZE) = unat va + 4096" using assms(7) by (simp add: PGSIZE_def unat_word_ariths)
    then have "unat (ROUNDUP (va + PGSIZE) PGSIZE) = (unat va + 4096 + 4095) div 4096 * 4096"
      using assms(7) by (subst unat_ROUNDUP) simp_all
    moreover have "(v + 4096 + 4095) div 4096 * 4096 = v + 4096" if "v mod 4096 = 0" for v :: nat
      using that by (auto simp: mod_eq_0_iff_dvd elim!: dvdE)
    moreover have "unat (ROUNDDOWN va PGSIZE) = unat va" using assms(6) by (simp add: unat_ROUNDDOWN)
    ultimately show ?thesis using assms(6) by simp (simp add: PGSIZE_def)
  qed
  have start: "ROUNDDOWN va PGSIZE = va"
    using assms(6) by (simp add: word_unat_eq_iff unat_ROUNDDOWN)
  have "region_alloc e va PGSIZE s = Inr ((), s')"
    using n start alloc s'(1) assms(2) by (simp add: region_alloc_def Let_def)
  moreover have "pp_ref (pages s' x) = 2"
    using s'(2) x map1 by (simp add: inserted_def old_page_def kstate_defs)
  moreover have "mapping s' r va = Some (page2pa x OR PTE_U OR PTE_W OR PTE_P)"
    using s'(2) perm by (simp add: inserted_def)
  ultimately show ?thesis by blast
qed

theorem region_alloc_counts_twice_witness:
  "\<exists>s'. region_alloc 0 0x200000 PGSIZE
       (four_free\<lparr>envs := (\<lambda>_. zero_env\<lparr>env_pml4e := Some (2, 0)\<rparr>)\<rparr>) = Inr ((), s') \<and>
     pp_ref (pages s' 7) = 2"
proof -
  let ?s = "four_free\<lparr>envs := (\<lambda>_. zero_env\<lparr>env_pml4e := Some (2, 0)\<rparr>)\<rparr>"
  have wf: "pt_wf (\<lambda>_. {0}) sample_ow ?s [7, 8, 9, 10]"
    using four_free_wf by (subst pt_wf_cong [of _ four_free]) simp_all
  have va: "tbl_idx 0x200000 = [0, 0, 1]" "unat (PTX 0x200000) = 0" "PML4 0x200000 = 0"
    by (simp_all add: tbl_idx_def unat_PML4 unat_PDPE unat_PDX unat_PTX PML4_def)
  have "nxt ?s p i = nxt (sample 1) p i" for p i by (simp add: nxt_def four_free_def)
  then have "mapping ?s 2 0x200000 = None" by (simp add: mapping_def pidx_def va nxt_sample)
  moreover have "root_ok (\<lambda>_. {0}) sample_ow 2 0x200000" by (simp add: root_ok_def va sample_ow_def)
  ultimately show ?thesis
    using region_alloc_counts_twice [OF wf, of 0 2 "0x200000"] by auto
qed

section \<open>env\_free\<close>

lemma env_free_pdpes_skip:
  "\<forall>i \<in> set is. i < 512 \<and> mem s p i AND PTE_P = 0 \<Longrightarrow> env_free_pdpes a (p, 0) is s = Inr ((), s)"
  by (induction "is") (auto simp: unat_of_nat)

lemma env_release_empty:
  assumes inv: "alloc_inv s fl" and "env_pml4e (envs s e) = Some (r, 0)" "env_cr3 (envs s e) = page2pa r"
    and "mem s r 0 = 0" and "r < npages s" "r \<noteq> 0" "r \<notin> set fl" "pp_ref (pages s r) = 1"
    and "0 \<notin> set fl" "pp_ref (pages s 0) = 1"
    and ent: "\<forall>i \<in> {0, 1, 2, 3}. mem s 0 i AND PTE_P = 0"
  shows "\<exists>s'. env_release e s = Inr ((), s') \<and> alloc_inv s' (r # 0 # fl) \<and>
     env_status (envs s' e) = ENV_FREE \<and> env_free_list s' = Some e"
proof -
  have np: "npages s \<le> 2 ^ 32" "0 < npages s" using alloc_invD(2) [OF inv] assms(5) by simp_all
  have k0: "KADDR (PTE_ADDR 0) s = Inr ((0, 0), s)"
    using np by (simp add: KADDR_def PTE_ADDR_def PPN_def PGOFF_def)
  have loop: "env_free_pdpes (r, 0) (0, 0) [0..<4] s = Inr ((), s)"
  proof (rule env_free_pdpes_skip)
    have "{0..<4} = {0, 1, 2, 3 :: nat}" by auto
    then show "\<forall>i \<in> set [0..<4]. i < 512 \<and> mem s 0 i AND PTE_P = 0" using ent by auto
  qed
  have p0: "pa2page (PTE_ADDR 0) s = Inr (0, s)"
    using np by (simp add: pa2page_def PTE_ADDR_def PPN_def)
  have d0: "page_decref 0 s = Inr ((), dropped 0 s)" "alloc_inv (dropped 0 s) (0 # fl)"
    using page_decref_dropped [OF inv, of 0] np assms(9,10) by simp_all
  let ?s1 = "upd_env e (\<lambda>x. x\<lparr>env_pml4e := None, env_cr3 := 0\<rparr>) (st (r, 0) 0 (dropped 0 s))"
  have inv1: "alloc_inv ?s1 (0 # fl)"
    using d0(2) by (subst alloc_inv_cong [of _ "dropped 0 s"]) (simp_all add: upd_env_def st_def)
  have pr: "pa2page (page2pa r) ?s1 = Inr (r, ?s1)"
    using np assms(5) by (intro pa2page_page2pa) (simp_all add: upd_env_def st_def)
  have ref1: "pp_ref (pages ?s1 r) = 1" using assms(6,8) by (simp add: upd_env_def st_def)
  have d1: "page_decref r ?s1 = Inr ((), dropped r ?s1)" "alloc_inv (dropped r ?s1) (r # 0 # fl)"
    using page_decref_dropped [OF inv1, of r] ref1 assms(5-7) by (simp_all add: upd_env_def st_def)
  have cr3: "env_cr3 (envs (st (r, 0) 0 (dropped 0 s)) e) = page2pa r" using assms(3) by (simp add: st_def)
  let ?s' = "(upd_env e (\<lambda>x. x\<lparr>env_status := ENV_FREE, env_link := env_free_list (dropped r ?s1)\<rparr>)
      (dropped r ?s1))\<lparr>env_free_list := Some e\<rparr>"
  have "env_release e s = Inr ((), ?s')"
    using assms(2,4) k0 loop p0 d0(1) pr d1(1) cr3 by (simp add: env_release_def Let_def)
  moreover have "alloc_inv ?s' (r # 0 # fl)"
    using d1(2) by (subst alloc_inv_cong [of _ "dropped r ?s1"]) (simp_all add: upd_env_def)
  ultimately show ?thesis by (auto simp: upd_env_def)
qed

text \<open>C17: destroying an environment that never mapped a user page (a child right after
  \<open>sys_exofork\<close>, say) frees physical page 0. Its \<open>env_pml4e[0]\<close> is 0, so \<open>env_free\<close>
  takes page 0 for its page directory pointer table and drops the reference that
  \<open>page_init\<close> gave page 0 to keep it out of use.\<close>

theorem env_free_releases_page_0:
  assumes "alloc_inv s fl" and "env_pml4e (envs s e) = Some (r, 0)" "env_cr3 (envs s e) = page2pa r"
    and "mem s r 0 = 0" and "r < npages s" "r \<noteq> 0" "r \<notin> set fl" "pp_ref (pages s r) = 1"
    and "0 \<notin> set fl" "pp_ref (pages s 0) = 1"
    and "\<forall>i \<in> {0, 1, 2, 3}. mem s 0 i AND PTE_P = 0"
  shows "\<exists>s'. env_free e s = Inr ((), s') \<and> alloc_inv s' (r # 0 # fl) \<and>
     env_status (envs s' e) = ENV_FREE \<and> env_free_list s' = Some e"
proof -
  define s0 where "s0 = cprintf ''[%08x] free env %08x''
      [ucast (case curenv s of Some c \<Rightarrow> env_id (envs s c) | None \<Rightarrow> 0), ucast (env_id (envs s e))]
      (if curenv s = Some e then lcr3 (boot_cr3 s) s else s)"
  have s0: "mem s0 = mem s" "pages s0 = pages s" "npages s0 = npages s" "envs s0 = envs s"
    "page_free_list s0 = page_free_list s"
    by (simp_all add: s0_def cprintf_def lcr3_def)
  have "curenv (lcr3 v s) = curenv s" "envs (lcr3 v s) = envs s" for v
    by (simp_all add: curenv_def lcr3_def)
  then have "env_free e s = env_release e s0" by (simp add: env_free_def Let_def s0_def)
  moreover have "alloc_inv s0 fl" using assms(1) by (subst alloc_inv_cong [OF s0(2,5,3)])
  ultimately show ?thesis
    using env_release_empty [of s0 fl e r] assms s0 by simp
qed

theorem env_free_releases_page_0_witness:
  "\<exists>s'. env_free 0 ((bss_state 4 0 0)\<lparr>pages := (\<lambda>_. \<lparr>pp_link = None, pp_ref = 1\<rparr>),
       envs := (\<lambda>_. zero_env\<lparr>env_pml4e := Some (2, 0), env_cr3 := page2pa 2, env_status := ENV_RUNNABLE\<rparr>)\<rparr>) =
       Inr ((), s') \<and> alloc_inv s' [2, 0]"
  using env_free_releases_page_0 [of "(bss_state 4 0 0)\<lparr>pages := (\<lambda>_. \<lparr>pp_link = None, pp_ref = 1\<rparr>),
       envs := (\<lambda>_. zero_env\<lparr>env_pml4e := Some (2, 0), env_cr3 := page2pa 2, env_status := ENV_RUNNABLE\<rparr>)\<rparr>" "[]" 0 2]
  by (auto simp: alloc_inv_def freelist_def)

end
