(* ===== verification/Syscall.thy ===== *)
theory Syscall
  imports Env_Life
begin

text \<open>
  The system calls of \<open>kern/syscall.c\<close>, one function each, and the dispatcher. A call returns
  the C result as an integer; a call that gives up the processor ends with
  \<open>Inl\<close>, as \<open>sched_yield\<close> does. The expression \<open>perm & !PTE_SYSCALL\<close> of the source uses the
  logical negation and is kept.
\<close>

section \<open>The calls\<close>

definition SYS_cputs :: u64 where "SYS_cputs = 0"
definition SYS_cgetc :: u64 where "SYS_cgetc = 1"
definition SYS_getenvid :: u64 where "SYS_getenvid = 2"
definition SYS_env_destroy :: u64 where "SYS_env_destroy = 3"
definition SYS_page_alloc :: u64 where "SYS_page_alloc = 4"
definition SYS_page_map :: u64 where "SYS_page_map = 5"
definition SYS_page_unmap :: u64 where "SYS_page_unmap = 6"
definition SYS_exofork :: u64 where "SYS_exofork = 7"
definition SYS_env_set_status :: u64 where "SYS_env_set_status = 8"
definition SYS_env_set_pgfault_upcall :: u64 where "SYS_env_set_pgfault_upcall = 9"
definition SYS_yield :: u64 where "SYS_yield = 10"
definition SYS_ipc_try_send :: u64 where "SYS_ipc_try_send = 11"
definition SYS_ipc_recv :: u64 where "SYS_ipc_recv = 12"

lemmas syscall_numbers = SYS_cputs_def SYS_cgetc_def SYS_getenvid_def SYS_env_destroy_def
  SYS_page_alloc_def SYS_page_map_def SYS_page_unmap_def SYS_exofork_def SYS_env_set_status_def
  SYS_env_set_pgfault_upcall_def SYS_yield_def SYS_ipc_try_send_def SYS_ipc_recv_def

definition sys_cputs :: "u64 \<Rightarrow> u64 \<Rightarrow> kstate \<Rightarrow> unit res" where
  "sys_cputs str len s =
     bindK (deref (curenv s) s) (\<lambda>c s.
     bindK (user_mem_assert c str len (ucast PTE_U) s) (\<lambda>_ s.
       Inr ((), cprintf ''%.*s'' [len, str] s)))"

definition sys_cgetc :: "kstate \<Rightarrow> int res" where
  "sys_cgetc s =
     (case cons_getc (console s) of
        None \<Rightarrow> Inl (Hang, s)
      | Some (ch, c) \<Rightarrow> Inr (ch, s\<lparr>console := c\<rparr>))"

definition sys_getenvid :: "kstate \<Rightarrow> u32 res" where
  "sys_getenvid s = bindK (deref (curenv s) s) (\<lambda>c s. Inr (env_id (envs s c), s))"

definition sys_env_destroy :: "u32 \<Rightarrow> kstate \<Rightarrow> int res" where
  "sys_env_destroy envid s =
     bindK (envid2env envid True s) (\<lambda>(r, e) s.
       if r < 0 then Inr (r, s)
       else
         bindK (sys_getenvid s) (\<lambda>cid s.
         bindK (deref e s) (\<lambda>e s.
           let s = (if curenv s = Some e then cprintf ''[%08x] exiting gracefully'' [ucast cid] s
                    else cprintf ''[%08x] destroying %08x'' [ucast cid, ucast (env_id (envs s e))] s)
           in bindK (env_destroy e s) (\<lambda>_ s. Inr (0, s)))))"

definition sys_yield :: "kstate \<Rightarrow> unit res" where
  "sys_yield s = sched_yield s"

definition sys_exofork :: "kstate \<Rightarrow> int res" where
  "sys_exofork s =
     bindK (deref (curenv s) s) (\<lambda>c s.
     bindK (env_alloc (env_id (envs s c)) s) (\<lambda>(result, new_env) s.
       if result < 0 then Inr (result, s)
       else
         bindK (deref new_env s) (\<lambda>e s.
           let s = upd_env e (\<lambda>x. x\<lparr>env_status := ENV_NOT_RUNNABLE\<rparr>) s;
               s = upd_env e (\<lambda>x. x\<lparr>env_tf := env_tf (envs s c)\<rparr>) s;
               s = upd_env e (\<lambda>x. x\<lparr>env_tf := (env_tf x)
                     \<lparr>tf_regs := (tf_regs (env_tf x))\<lparr>reg_rax := 0\<rparr>\<rparr>\<rparr>) s
           in Inr (sint (env_id (envs s e)), s))))"

definition status_of_int :: "u32 \<Rightarrow> env_status_t option" where
  "status_of_int n =
     (if n = 0 then Some ENV_FREE else if n = 1 then Some ENV_DYING
      else if n = 2 then Some ENV_RUNNABLE else if n = 3 then Some ENV_RUNNING
      else if n = 4 then Some ENV_NOT_RUNNABLE else None)"

definition sys_env_set_status :: "u32 \<Rightarrow> u32 \<Rightarrow> kstate \<Rightarrow> int res" where
  "sys_env_set_status envid status s =
     bindK (envid2env envid True s) (\<lambda>(result, e) s.
       if result < 0 then Inr (- E_BAD_ENV, s)
       else case status_of_int status of
           Some ENV_RUNNABLE \<Rightarrow>
             bindK (deref e s) (\<lambda>e s. Inr (0, upd_env e (\<lambda>x. x\<lparr>env_status := ENV_RUNNABLE\<rparr>) s))
         | Some ENV_NOT_RUNNABLE \<Rightarrow>
             bindK (deref e s) (\<lambda>e s. Inr (0, upd_env e (\<lambda>x. x\<lparr>env_status := ENV_NOT_RUNNABLE\<rparr>) s))
         | _ \<Rightarrow> Inr (- E_INVAL, s))"

definition sys_env_set_pgfault_upcall :: "u32 \<Rightarrow> u64 \<Rightarrow> kstate \<Rightarrow> int res" where
  "sys_env_set_pgfault_upcall envid func s =
     bindK (envid2env envid True s) (\<lambda>(result, e) s.
       if result < 0 then Inr (- E_BAD_ENV, s)
       else bindK (deref e s) (\<lambda>e s. Inr (0, upd_env e (\<lambda>x. x\<lparr>env_pgfault_upcall := func\<rparr>) s)))"

text \<open>The test \<open>!(perm & PTE_U) || !(perm & PTE_P) || (perm & !PTE_SYSCALL)\<close>.\<close>

definition perm_bad :: "u32 \<Rightarrow> bool" where
  "perm_bad perm \<longleftrightarrow>
     perm AND ucast PTE_U = 0 \<or> perm AND ucast PTE_P = 0 \<or>
     perm AND (if PTE_SYSCALL = 0 then 1 else 0) \<noteq> 0"

definition va_bad :: "u64 \<Rightarrow> bool" where
  "va_bad va \<longleftrightarrow> UTOP \<le> va \<or> va mod PGSIZE \<noteq> 0"

definition sys_page_alloc :: "u32 \<Rightarrow> u64 \<Rightarrow> u32 \<Rightarrow> kstate \<Rightarrow> int res" where
  "sys_page_alloc envid va perm s =
     bindK (envid2env envid True s) (\<lambda>(result, e) s.
       if result < 0 then Inr (- E_BAD_ENV, s)
       else if va_bad va then Inr (- E_INVAL, s)
       else if perm_bad perm then Inr (- E_INVAL, s)
       else
         bindK (page_alloc ALLOC_ZERO s) (\<lambda>new_page s.
           case new_page of
             None \<Rightarrow> Inr (- E_NO_MEM, s)
           | Some new_page \<Rightarrow>
               bindK (deref e s) (\<lambda>e s.
               bindK (deref (env_pml4e (envs s e)) s) (\<lambda>pml4e s.
               bindK (page_insert pml4e new_page va perm s) (\<lambda>result s.
                 if result < 0 then bindK (page_free new_page s) (\<lambda>_ s. Inr (- E_NO_MEM, s))
                 else Inr (0, s))))))"

definition sys_page_map :: "u32 \<Rightarrow> u64 \<Rightarrow> u32 \<Rightarrow> u64 \<Rightarrow> u32 \<Rightarrow> kstate \<Rightarrow> int res" where
  "sys_page_map srcenvid srcva dstenvid dstva perm s =
     bindK (envid2env srcenvid True s) (\<lambda>(result, src_env) s.
       if result < 0 then Inr (- E_BAD_ENV, s)
       else bindK (envid2env dstenvid True s) (\<lambda>(result, dst_env) s.
         if result < 0 then Inr (- E_BAD_ENV, s)
         else if va_bad srcva then Inr (- E_INVAL, s)
         else if va_bad dstva then Inr (- E_INVAL, s)
         else
           bindK (deref src_env s) (\<lambda>src s.
           bindK (deref (env_pml4e (envs s src)) s) (\<lambda>src_pml4e s.
           bindK (page_lookup src_pml4e srcva s) (\<lambda>found s.
             case found of
               None \<Rightarrow> Inr (- E_INVAL, s)
             | Some (found_page, ptr_pte) \<Rightarrow>
                 if perm AND ucast (PTE_U OR PTE_P) = 0 \<or>
                    perm AND (if PTE_SYSCALL = 0 then 1 else 0) \<noteq> 0 then Inr (- E_INVAL, s)
                 else if perm_bad perm then Inr (- E_INVAL, s)
                 else
                   bindK (deref dst_env s) (\<lambda>dst s.
                   bindK (deref (env_pml4e (envs s dst)) s) (\<lambda>dst_pml4e s.
                   bindK (page_insert dst_pml4e found_page dstva perm s) (\<lambda>result s.
                     if result < 0 then Inr (- E_NO_MEM, s) else Inr (0, s)))))))))"

definition sys_page_unmap :: "u32 \<Rightarrow> u64 \<Rightarrow> kstate \<Rightarrow> int res" where
  "sys_page_unmap envid va s =
     bindK (envid2env envid True s) (\<lambda>(result, e) s.
       if result < 0 then Inr (- E_BAD_ENV, s)
       else if va_bad va then Inr (- E_INVAL, s)
       else
         bindK (deref e s) (\<lambda>e s.
         bindK (deref (env_pml4e (envs s e)) s) (\<lambda>pml4e s.
         bindK (page_remove pml4e va s) (\<lambda>_ s. Inr (0, s)))))"

text \<open>
  The page transfer of \<open>sys_ipc_try_send\<close> for \<open>srcva < UTOP\<close>: an error code, or 0 with
  the page mapped in the target if the target asked for one.
\<close>

definition ipc_send_page :: "nat \<Rightarrow> u64 \<Rightarrow> u32 \<Rightarrow> kstate \<Rightarrow> int res" where
  "ipc_send_page target srcva perm s =
     (if srcva mod PGSIZE \<noteq> 0 then Inr (- E_INVAL, s)
      else if perm_bad perm then Inr (- E_INVAL, s)
      else
        bindK (deref (curenv s) s) (\<lambda>c s.
        bindK (deref (env_pml4e (envs s c)) s) (\<lambda>pml4e s.
        bindK (page_lookup pml4e srcva s) (\<lambda>found s.
          case found of
            None \<Rightarrow> Inr (- E_INVAL, s)
          | Some (page, pte) \<Rightarrow>
              if perm AND ucast PTE_W \<noteq> 0 \<and> ld s pte AND PTE_W = 0 then Inr (- E_INVAL, s)
              else if env_ipc_dstva (envs s target) < UTOP then
                if env_ipc_dstva (envs s target) mod PGSIZE \<noteq> 0 then Inr (- E_INVAL, s)
                else
                  bindK (deref (env_pml4e (envs s target)) s) (\<lambda>dst_pml4e s.
                  bindK (page_insert dst_pml4e page (env_ipc_dstva (envs s target)) perm s)
                    (\<lambda>result s.
                      if result < 0 then Inr (- E_NO_MEM, s)
                      else Inr (0, upd_env target (\<lambda>x. x\<lparr>env_ipc_perm := perm\<rparr>) s)))
              else Inr (0, s)))))"

definition sys_ipc_try_send :: "u32 \<Rightarrow> u32 \<Rightarrow> u64 \<Rightarrow> u32 \<Rightarrow> kstate \<Rightarrow> int res" where
  "sys_ipc_try_send envid value srcva perm s =
     bindK (envid2env envid False s) (\<lambda>(result, target) s.
       if result < 0 then Inr (- E_BAD_ENV, s)
       else
         bindK (deref target s) (\<lambda>t s.
           if \<not> env_ipc_recving (envs s t) then Inr (- E_IPC_NOT_RECV, s)
           else
             bindK (if srcva < UTOP then ipc_send_page t srcva perm s else Inr (0, s)) (\<lambda>result s.
               if result < 0 then Inr (result, s)
               else
                 bindK (sys_getenvid (upd_env t (\<lambda>x. x\<lparr>env_ipc_recving := False\<rparr>) s)) (\<lambda>from s.
                   Inr (0, upd_env t (\<lambda>x. x\<lparr>env_ipc_from := from, env_ipc_value := value,
                     env_status := ENV_RUNNABLE,
                     env_tf := (env_tf x)\<lparr>tf_regs := (tf_regs (env_tf x))\<lparr>reg_rax := 0\<rparr>\<rparr>\<rparr>) s)))))"

definition sys_ipc_recv :: "u64 \<Rightarrow> kstate \<Rightarrow> int res" where
  "sys_ipc_recv dstva s =
     (if dstva < UTOP \<and> dstva mod PGSIZE \<noteq> 0 then Inr (- E_INVAL, s)
      else
        bindK (deref (curenv s) s) (\<lambda>c s.
          let s = upd_env c (\<lambda>x. x\<lparr>env_ipc_recving := True, env_status := ENV_NOT_RUNNABLE,
                    env_ipc_dstva := dstva\<rparr>) s
          in bindK (sys_yield s) (\<lambda>_ s. Inr (0, s))))"

definition syscall :: "u64 \<Rightarrow> u64 \<Rightarrow> u64 \<Rightarrow> u64 \<Rightarrow> u64 \<Rightarrow> u64 \<Rightarrow> kstate \<Rightarrow> int res" where
  "syscall syscallno a1 a2 a3 a4 a5 s =
     (if syscallno = SYS_cputs then bindK (sys_cputs a1 a2 s) (\<lambda>_ s. Inr (0, s))
      else if syscallno = SYS_cgetc then sys_cgetc s
      else if syscallno = SYS_getenvid then bindK (sys_getenvid s) (\<lambda>i s. Inr (sint i, s))
      else if syscallno = SYS_env_destroy then sys_env_destroy (ucast a1) s
      else if syscallno = SYS_yield then bindK (sys_yield s) (\<lambda>_ s. Inr (0, s))
      else if syscallno = SYS_exofork then sys_exofork s
      else if syscallno = SYS_env_set_status then sys_env_set_status (ucast a1) (ucast a2) s
      else if syscallno = SYS_page_alloc then sys_page_alloc (ucast a1) a2 (ucast a3) s
      else if syscallno = SYS_page_map then sys_page_map (ucast a1) a2 (ucast a3) a4 (ucast a5) s
      else if syscallno = SYS_page_unmap then sys_page_unmap (ucast a1) a2 s
      else if syscallno = SYS_env_set_pgfault_upcall then
        sys_env_set_pgfault_upcall (ucast a1) a2 s
      else if syscallno = SYS_ipc_try_send then
        sys_ipc_try_send (ucast a1) (ucast a2) a3 (ucast a4) s
      else if syscallno = SYS_ipc_recv then sys_ipc_recv a1 s
      else Inr (- E_NO_SYS, s))"

section \<open>Memory calls\<close>

text \<open>
  A mapping that \<open>page_insert\<close> may replace: the lookup sees it and its frame is allocated
  and not a table.
\<close>

definition replaceable :: "owner \<Rightarrow> kstate \<Rightarrow> nat list \<Rightarrow> nat \<Rightarrow> u64 \<Rightarrow> bool" where
  "replaceable ow s fl r va \<longleftrightarrow>
     (case mapping s r va of
        None \<Rightarrow> True
      | Some m \<Rightarrow> first_nonzero s r va \<and> unat (PPN m) < npages s \<and> unat (PPN m) \<notin> set fl \<and>
          ow (unat (PPN m)) = None)"

lemma taken_step:
  assumes wf: "pt_wf sl ow s (x # fl)" and r: "root_ok sl ow r va"
  shows "page_alloc ALLOC_ZERO s = Inr (Some x, taken True x s)"
    and "pt_wf sl ow (taken True x s) fl"
    and "mapping (taken True x s) r va = mapping s r va"
    and "replaceable ow s (x # fl) r va \<Longrightarrow> insertable ow (taken True x s) fl r va x"
    and "root_ok sl ow r' va' \<Longrightarrow> mapping (taken True x s) r' va' = mapping s r' va'"
    and "ow x = None" "x \<notin> set fl" "x < npages s" "pp_ref (pages s x) = 0"
proof -
  note inv = pt_wfD(1) [OF wf]
  show ox: "ow x = None" using pt_wfD(3) [OF wf, of x] by (cases "ow x") auto
  show x: "x \<notin> set fl" "x < npages s" "pp_ref (pages s x) = 0" using alloc_invD [OF inv] by simp_all
  show "page_alloc ALLOC_ZERO s = Inr (Some x, taken True x s)"
    using page_alloc_cons [OF inv, of ALLOC_ZERO] by (simp add: ALLOC_ZERO_def)
  have nx: "nxt (taken True x s) p i = nxt s p i" if "p \<noteq> x" for p i using that by (simp add: nxt_def)
  have "nxt (taken True x s) p i = nxt s p i" if "ow p = Some z" for p z i
    using nx [of p] that ox by (cases "p = x") auto
  then show wf1: "pt_wf sl ow (taken True x s) fl"
    using pt_wfD(3) [OF wf] alloc_inv_taken(1) [OF inv] by (intro pt_wf_step [OF wf]) auto
  show map: "mapping (taken True x s) r' va' = mapping s r' va'" if "root_ok sl ow r' va'" for r' va'
    by (rule pt_wf_zeroed [OF wf _ that, of _ "\<lambda>_. 0"]) simp
  then show map1: "mapping (taken True x s) r va = mapping s r va" using r .
  show "insertable ow (taken True x s) fl r va x" if rep: "replaceable ow s (x # fl) r va"
  proof (cases "mapping s r va")
    case None
    then show ?thesis using x map1 by (simp add: insertable_def)
  next
    case (Some m)
    have "r \<noteq> x" using r ox by (auto simp: root_ok_def)
    have "q \<noteq> x" if "nxt s r (unat (PML4 va)) = Some q" for q
      using pt_wfD(5) [OF wf _ _ that] r ox unfolding root_ok_def slot_ok_def
      by (metis index_less_512(1) length_greater_0_conv less_numeral_extra(3) list.size(3) option.distinct(1) zero_less_numeral)
    then have "first_nonzero (taken True x s) r va" if "first_nonzero s r va"
      using that \<open>r \<noteq> x\<close> nx [OF \<open>r \<noteq> x\<close>] by (auto simp: first_nonzero_def split: option.splits)
    then show ?thesis using Some rep x map1 by (auto simp: replaceable_def insertable_def)
  qed
qed

text \<open>
  What the memory calls do when they succeed: the entry of one address, no other mapping and the
  contents of no page in use; and when they fail for want of memory: nothing that can be seen.
\<close>

definition puts :: "(nat \<Rightarrow> nat set) \<Rightarrow> owner \<Rightarrow> kstate \<Rightarrow> nat list \<Rightarrow> nat \<Rightarrow> u64 \<Rightarrow> u64 \<Rightarrow>
    owner \<Rightarrow> kstate \<Rightarrow> nat list \<Rightarrow> bool" where
  "puts sl ow s fl r va e ow' s' fl' \<longleftrightarrow>
     pt_wf sl ow' s' fl' \<and> ow \<subseteq>\<^sub>m ow' \<and> mapping s' r va = Some e \<and> others_kept sl ow s r va s' \<and>
     set fl' \<subseteq> set fl \<union> set_option (old_page s r va) \<and> length fl \<le> length fl' + 4 \<and>
     (\<forall>p. p \<notin> set fl \<longrightarrow> ow' p = ow p) \<and>
     (\<forall>p. p \<notin> set fl \<longrightarrow> ow p = None \<longrightarrow> mem s' p = mem s p)"

definition refused :: "(nat \<Rightarrow> nat set) \<Rightarrow> owner \<Rightarrow> kstate \<Rightarrow> nat list \<Rightarrow> owner \<Rightarrow> kstate \<Rightarrow> nat list \<Rightarrow> bool" where
  "refused sl ow s fl ow' s' fl' \<longleftrightarrow>
     pt_wf sl ow' s' fl' \<and> ow \<subseteq>\<^sub>m ow' \<and>
     (\<forall>q va. root_ok sl ow q va \<longrightarrow> mapping s' q va = mapping s q va) \<and>
     (\<forall>p. p \<notin> set fl \<longrightarrow> ow p = None \<longrightarrow> mem s' p = mem s p)"

lemma sys_page_alloc_lemma:
  assumes wf: "pt_wf sl ow s (x # rest)" and env: "envid2env envid True s = Inr ((0, Some e), s)"
    and pml: "env_pml4e (envs s e) = Some (r, 0)" and r: "root_ok sl ow r va"
    and rep: "replaceable ow s (x # rest) r va" and args: "\<not> va_bad va" "\<not> perm_bad perm"
  shows "\<exists>rc s' ow' fl'. sys_page_alloc envid va perm s = Inr (rc, s') \<and> only_mm_tlb s s' \<and>
     (rc = 0 \<and> puts sl ow s (x # rest) r va (page2pa x OR scast (perm OR 1)) ow' s' fl' \<and>
        pp_ref (pages s' x) = 1 \<and> mem s' x = (\<lambda>_. 0) \<and> ow' x = None \<and> x \<notin> set fl' \<and>
        (\<forall>p. p \<notin> set (x # rest) \<longrightarrow> pp_ref (pages s' p) =
          pp_ref (pages s p) - (if old_page s r va = Some p then 1 else 0)) \<or>
      rc = - E_NO_MEM \<and> length rest < 3 \<and> refused sl ow s (x # rest) ow' s' fl' \<and> hd fl' = x)"
proof -
  let ?s = "taken True x s"
  note tk = taken_step [OF wf r]
  have ins: "insertable ow ?s rest r va x" using tk(4) rep by simp
  have old: "old_page ?s r va = old_page s r va" "old_page ?s r va \<noteq> Some x"
    using rep tk(3) by (auto simp: old_page_def replaceable_def split: option.splits)
  have fr0: "only_mm_tlb s ?s" by (simp add: only_mm_tlb_def taken_def kstate_defs)
  obtain rc s' ow' fl' where run: "page_insert (r, 0) x va perm ?s = Inr (rc, s')"
    and wf': "pt_wf sl ow' s' fl'" "ow \<subseteq>\<^sub>m ow'"
    and out: "rc = 0 \<and> inserted sl ow ?s rest r va x (page2pa x OR scast (perm OR 1)) s' \<and>
        set fl' \<subseteq> set rest \<union> set_option (old_page ?s r va) \<and> (\<forall>p. p \<notin> set rest \<longrightarrow> ow' p = ow p) \<and>
        length rest \<le> length fl' + 3 \<or>
      rc = - E_NO_MEM \<and> length rest < 3 \<and> extends sl ow ?s rest ow' s' fl'"
    using page_insert_lemma [OF tk(2) r ins, of perm] by blast
  have call: "sys_page_alloc envid va perm s =
      (if rc < 0 then bindK (page_free x s') (\<lambda>_ s. Inr (- E_NO_MEM, s)) else Inr (0, s'))"
    using env args pml tk(1) run by (simp add: sys_page_alloc_def)
  from out show ?thesis
  proof
    assume ok: "rc = 0 \<and> inserted sl ow ?s rest r va x (page2pa x OR scast (perm OR 1)) s' \<and>
        set fl' \<subseteq> set rest \<union> set_option (old_page ?s r va) \<and> (\<forall>p. p \<notin> set rest \<longrightarrow> ow' p = ow p) \<and>
        length rest \<le> length fl' + 3"
    have "puts sl ow s (x # rest) r va (page2pa x OR scast (perm OR 1)) ow' s' fl'"
      using ok wf' old tk(5) by (auto simp: puts_def inserted_def others_kept_def)
    moreover have "only_mm_tlb s s'" using only_mm_tlb_trans [OF fr0] ok by (simp add: inserted_def)
    moreover have "pp_ref (pages s' x) = 1" "mem s' x = (\<lambda>_. 0)" "ow' x = None" "x \<notin> set fl'"
      using ok tk(6,7,9) old by (auto simp: inserted_def)
    moreover have "pp_ref (pages s' p) = pp_ref (pages s p) - (if old_page s r va = Some p then 1 else 0)"
      if "p \<notin> set (x # rest)" for p
      using ok old that by (auto simp: inserted_def)
    ultimately show ?thesis using ok call by auto
  next
    assume fail: "rc = - E_NO_MEM \<and> length rest < 3 \<and> extends sl ow ?s rest ow' s' fl'"
    then have ext: "extends sl ow ?s rest ow' s' fl'" by simp
    then obtain ys where ys: "rest = ys @ fl'" "takes ow ?s ow' s' ys" unfolding extends_def by blast
    have x': "x \<notin> set ys" "x \<notin> set fl'" using tk(7) ys(1) by auto
    then have px: "pages s' x = pages ?s x" "ow' x = None" using ys(2) tk(6) by (auto simp: takes_def)
    have np: "npages s' = npages s" using only_mm_fields(1) [OF extendsD(2) [OF ext]] by simp
    have ref0: "pp_ref (pages s' x) = 0" using px tk(9) by simp
    let ?s' = "set_page_free_list (Some x) (set_pp_link x (page_free_list s') s')"
    have "x < npages s'" using tk(8) np by simp
    note fr = page_free_ok [OF pt_wfD(1) [OF wf'(1)] this x'(2) ref0]
    have m: "mem ?s' = mem s'" by (simp add: set_page_free_list_def set_pp_link_def)
    have wf2: "pt_wf sl ow' ?s' (x # fl')"
      using px(2) pt_wfD(3) [OF wf'(1)]
      by (intro pt_wf_step [OF wf'(1) fr(2)])
         (auto simp: set_page_free_list_def set_pp_link_def nxt_def)
    have maps: "mapping ?s' q va' = mapping s q va'" if "root_ok sl ow q va'" for q va'
      using extends_mapping [OF ext that] tk(5) [OF that] mapping_cong [OF m] by simp
    have "mem ?s' p = mem s p" if "p \<notin> set (x # rest)" "ow p = None" for p
      using ys that m by (auto simp: takes_def)
    with wf2 wf'(2) maps have "refused sl ow s (x # rest) ow' ?s' (x # fl')" by (simp add: refused_def)
    moreover have "only_mm_tlb s ?s'"
      using only_mm_tlb_trans [OF fr0 only_mm_tlb_trans [OF only_mm_tlbI [OF extendsD(2) [OF ext]]], of ?s']
      by (simp add: only_mm_tlb_def set_page_free_list_def set_pp_link_def)
    moreover have "sys_page_alloc envid va perm s = Inr (- E_NO_MEM, ?s')"
      using fail call fr(1) by (simp add: E_NO_MEM_def)
    ultimately show ?thesis using fail by (intro exI) (auto intro: refl)
  qed
qed

text \<open>
  The permissions the comments above the memory calls allow have no bit outside
  \<open>PTE_SYSCALL\<close>; such a permission leaves the frame in the entry alone. The calls do not
  refuse the others (see \<open>sys_page_alloc_takes_other_bits\<close>).
\<close>

lemma perm_bad_bits: "perm_bad perm \<longleftrightarrow> perm AND ucast PTE_U = 0 \<or> perm AND ucast PTE_P = 0"
  by (simp add: perm_bad_def mmu_defs)

lemma legal_perm:
  fixes perm :: u32
  assumes bits: "perm AND NOT (ucast PTE_SYSCALL) = 0" and p: "perm AND ucast PTE_P \<noteq> 0"
  shows "scast (perm OR 1) = (ucast perm :: u64)" and "take_bit 12 (ucast perm :: u64) = ucast perm"
proof -
  have off: "\<not> bit perm n" if "12 \<le> n" for n
  proof
    assume b: "bit perm n"
    have "\<not> bit (0xE07 :: u32) n"
      using bit_take_bit_iff [of 12 "0xE07 :: u32" n] that by simp
    have "bit (perm AND NOT 0xE07) n"
      unfolding bit_and_iff bit_not_iff using b \<open>\<not> bit 0xE07 n\<close> bit_imp_le_length [OF b] by simp
    moreover have "perm AND NOT 0xE07 = 0" using bits by (simp add: mmu_defs)
    ultimately show False by (metis bit_0_eq bot_apply bot_bool_def)
  qed
  have "bit perm 0"
    using p by (simp add: mmu_defs and_one_eq bit_0 odd_iff_mod_2_eq_one split: if_splits)
  then have "perm OR 1 = perm" by (intro bit_word_eqI) (auto simp: bit_simps)
  then show "scast (perm OR 1) = (ucast perm :: u64)"
    using off off [of 31] by (intro bit_word_eqI) (auto simp: bit_simps min_def split: if_splits)
  show "take_bit 12 (ucast perm :: u64) = ucast perm"
    using off by (intro bit_word_eqI) (auto simp: bit_simps, meson not_le)
qed

lemma legal_entry:
  fixes perm :: u32
  assumes "perm AND NOT (ucast PTE_SYSCALL) = 0" "perm AND ucast PTE_P \<noteq> 0" "pp < 2 ^ 32"
  shows "page2pa pp OR scast (perm OR 1) = page2pa pp OR ucast perm"
    and "unat (PPN (page2pa pp OR ucast perm)) = pp"
  using legal_perm [OF assms(1,2)] assms(3) by (simp_all add: PPN_or_small unat_PPN_page2pa)

lemma envid2env_code: "envid2env i c s = Inr ((ec, oe), s') \<Longrightarrow> 0 \<le> ec \<Longrightarrow> ec = 0"
  by (auto simp: envid2env_def Let_def bindK_Inr_iff deref_def E_BAD_ENV_def split: if_splits option.splits)


text \<open>The sample address space of two environments: the current one owns the root table.\<close>

definition call_sample :: kstate where
  "call_sample = four_free\<lparr>
     envs := (\<lambda>_. zero_env)(0 := zero_env\<lparr>env_pml4e := Some (2, 0), env_id := 0x1000,
                  env_status := ENV_RUNNING\<rparr>,
               1 := zero_env\<lparr>env_pml4e := Some (2, 0), env_id := 0x1001, env_parent_id := 0x1000,
                  env_status := ENV_NOT_RUNNABLE, env_ipc_recving := True,
                  env_ipc_dstva := 0x200000\<rparr>),
     cpus := (\<lambda>_. zero_cpu\<lparr>cpu_env := Some 0\<rparr>)\<rparr>"

lemma call_sample_simps [simp]:
  "mem call_sample = sample_mem" "npages call_sample = 11" "curenv call_sample = Some 0"
  "envs call_sample 0 = zero_env\<lparr>env_pml4e := Some (2, 0), env_id := 0x1000, env_status := ENV_RUNNING\<rparr>"
  "envs call_sample (Suc 0) = zero_env\<lparr>env_pml4e := Some (2, 0), env_id := 0x1001,
     env_parent_id := 0x1000, env_status := ENV_NOT_RUNNABLE, env_ipc_recving := True,
     env_ipc_dstva := 0x200000\<rparr>"
  by (simp_all add: call_sample_def four_free_def curenv_def)

lemma call_sample_wf: "pt_wf (\<lambda>_. {0}) sample_ow call_sample [7, 8, 9, 10]"
  using four_free_wf by (subst pt_wf_cong [of _ four_free]) (simp_all add: call_sample_def)

lemma call_sample_va:
  "tbl_idx 0x200000 = [0, 0, 1]" "unat (PTX 0x200000) = 0" "unat (PML4 0x200000) = 0"
  "root_ok (\<lambda>_. {0}) sample_ow 2 0x200000" "mapping call_sample 2 0x200000 = None"
  "mapping call_sample 2 0x2000 = Some 0x6007" "first_nonzero call_sample 2 0x2000"
proof -
  show va: "tbl_idx 0x200000 = [0, 0, 1]" "unat (PTX 0x200000) = 0" "unat (PML4 0x200000) = 0"
    by (simp_all add: tbl_idx_def unat_PML4 unat_PDPE unat_PDX unat_PTX)
  then show "root_ok (\<lambda>_. {0}) sample_ow 2 0x200000" by (simp add: root_ok_def sample_ow_def)
  have m: "mem call_sample = mem (sample 1)" by simp
  have n: "nxt call_sample = nxt (sample 1)" by (simp add: nxt_def fun_eq_iff)
  show "mapping call_sample 2 0x200000 = None" by (simp add: mapping_def pidx_def va n nxt_sample)
  show "mapping call_sample 2 0x2000 = Some 0x6007"
    using sample_mapping [of 1] mapping_cong [OF m] by simp
  show "first_nonzero call_sample 2 0x2000"
    using sample_first [of 1] first_nonzero_cong [OF m] by simp
qed

lemma call_sample_env:
  "envid2env 0 b call_sample = Inr ((0, Some 0), call_sample)"
  "envid2env 0x1001 b call_sample = Inr ((0, Some 1), call_sample)"
  by (simp_all add: envid2env_def ENVX_def NENV_def LOG2NENV_def)

lemma args_ok: "\<not> va_bad 0x200000" "\<not> va_bad 0x2000" "\<not> perm_bad 7"
  by (simp_all add: va_bad_def perm_bad_def mmu_defs)


text \<open>
  The test \<open>perm & !PTE_SYSCALL\<close> refuses nothing: a permission with bit 12 set passes, and
  changes the frame that is mapped.
\<close>

lemma sys_page_alloc_takes_other_bits:
  "\<exists>s'. sys_page_alloc 0 0x200000 0x1007 call_sample = Inr (0, s') \<and>
     mapping s' 2 0x200000 = Some (page2pa 7 OR 0x1007) \<and> (0x1007 :: u32) AND NOT (ucast PTE_SYSCALL) \<noteq> 0"
proof -
  have "replaceable sample_ow call_sample [7, 8, 9, 10] 2 0x200000"
    by (simp add: replaceable_def call_sample_va)
  moreover have "\<not> perm_bad 0x1007" by (simp add: perm_bad_bits mmu_defs)
  ultimately show ?thesis
    using sys_page_alloc_lemma [OF call_sample_wf call_sample_env(1) _ call_sample_va(4) _ args_ok(1), of "0x1007"]
    by (auto simp: puts_def mmu_defs)
qed

text \<open>What \<open>page_lookup\<close> finds in a well-formed address space.\<close>

lemma lookup_found:
  assumes wf: "pt_wf sl ow s fl" and r: "root_ok sl ow r va"
    and m: "mapping s r va = Some m" "first_nonzero s r va" "unat (PPN m) < npages s"
  shows "\<exists>s1 ptr. page_lookup (r, 0) va s = Inr (Some (unat (PPN m), ptr), s1) \<and>
    extends sl ow s fl ow s1 fl \<and> same_tables ow s s1 \<and> ld s1 ptr = m"
proof -
  obtain t where t: "walk s r (tbl_idx va) = Some t"
    using m(1) mapping_walk_None by fastforce
  have rng: "in_range s r va" using m by (simp add: in_range_def)
  obtain s1 where s1: "extends sl ow s fl ow s1 fl" "same_tables ow s s1"
      "page_lookup (r, 0) va s = Inr (found_at s r va, s1)"
    using page_lookup_lemma [OF wf r rng] m(2) by auto
  have "found_at s r va = Some (unat (PPN m), (t, unat (PTX va)))"
    using t m(1) by (simp add: found_at_def)
  moreover have "ld s1 (t, unat (PTX va)) = m"
  proof -
    have "walk s1 r (tbl_idx va) = Some t" using t same_tables_walk [OF s1(2)] by simp
    moreover have "mapping s1 r va = Some m" using extends_mapping [OF s1(1) r] m(1) by simp
    ultimately show ?thesis using mapping_walk [of s1 r va t] by (simp split: if_splits)
  qed
  ultimately show ?thesis using s1 by auto
qed

text \<open>A page found by a lookup is inserted, in terms of the state before the lookup.\<close>

lemma insert_found:
  assumes wf: "pt_wf sl ow s fl" and ext: "extends sl ow s fl ow s1 fl" and same: "same_tables ow s s1"
    and root: "root_ok sl ow r' dstva" and pp: "pp < npages s" "pp \<notin> set fl"
    and rep: "replaceable ow s fl r' dstva" "old_page s r' dstva = Some pp \<Longrightarrow> pp_ref (pages s pp) \<noteq> 1"
  shows "\<exists>rc s' ow' fl'. page_insert (r', 0) pp dstva perm s1 = Inr (rc, s') \<and> only_mm_tlb s s' \<and>
     (rc = 0 \<and> puts sl ow s fl r' dstva (page2pa pp OR scast (perm OR 1)) ow' s' fl' \<and>
        (\<forall>p. p \<notin> set fl \<longrightarrow> pp_ref (pages s' p) =
          pp_ref (pages s p) - (if old_page s r' dstva = Some p then 1 else 0) + (if p = pp then 1 else 0)) \<or>
      rc = - E_NO_MEM \<and> length fl < 3 \<and> refused sl ow s fl ow' s' fl')"
proof -
  have map1: "mapping s1 q va = mapping s q va" if "root_ok sl ow q va" for q va
    by (rule extends_mapping [OF ext that])
  have mem1: "mem s1 p = mem s p" if "ow p = None" for p
    using same that by (simp add: same_tables_def)
  have old1: "old_page s1 r' dstva = old_page s r' dstva" using map1 [OF root] by (simp add: old_page_def)
  have pg1: "pages s1 = pages s" using same_tables_pages(1) [OF same] .
  have ins: "insertable ow s1 fl r' dstva pp"
  proof -
    have "npages s1 = npages s" using only_mm_fields(1) [OF extendsD(2) [OF ext]] .
    then show ?thesis
      using rep pp same_tables_first [OF same, of r' dstva] map1 [OF root] pg1
      by (auto simp: insertable_def replaceable_def old_page_def split: option.splits)
  qed
  obtain rc s' ow' fl' where run: "page_insert (r', 0) pp dstva perm s1 = Inr (rc, s')"
    and wf': "pt_wf sl ow' s' fl'" "ow \<subseteq>\<^sub>m ow'"
    and out: "rc = 0 \<and> inserted sl ow s1 fl r' dstva pp (page2pa pp OR scast (perm OR 1)) s' \<and>
        set fl' \<subseteq> set fl \<union> set_option (old_page s1 r' dstva) \<and> (\<forall>p. p \<notin> set fl \<longrightarrow> ow' p = ow p) \<and>
        length fl \<le> length fl' + 3 \<or>
      rc = - E_NO_MEM \<and> length fl < 3 \<and> extends sl ow s1 fl ow' s' fl'"
    using page_insert_lemma [OF extendsD(1) [OF ext] root ins, of perm] by blast
  note fr1 = only_mm_tlbI [OF extendsD(2) [OF ext]]
  from out show ?thesis
  proof
    assume ok: "rc = 0 \<and> inserted sl ow s1 fl r' dstva pp (page2pa pp OR scast (perm OR 1)) s' \<and>
        set fl' \<subseteq> set fl \<union> set_option (old_page s1 r' dstva) \<and> (\<forall>p. p \<notin> set fl \<longrightarrow> ow' p = ow p) \<and>
        length fl \<le> length fl' + 3"
    then have "puts sl ow s fl r' dstva (page2pa pp OR scast (perm OR 1)) ow' s' fl'"
      using wf' map1 mem1 old1 by (auto simp: puts_def inserted_def others_kept_def)
    moreover have "only_mm_tlb s s'"
      using only_mm_tlb_trans [OF fr1] ok by (simp add: inserted_def)
    ultimately show ?thesis
      using ok run pg1 old1 by (auto simp: inserted_def)
  next
    assume fail: "rc = - E_NO_MEM \<and> length fl < 3 \<and> extends sl ow s1 fl ow' s' fl'"
    then have ext2: "extends sl ow s1 fl ow' s' fl'" by simp
    have maps: "mapping s' q va = mapping s q va" if "root_ok sl ow q va" for q va
      using extends_mapping [OF ext2 that] map1 [OF that] by simp
    have "mem s' p = mem s p" if "p \<notin> set fl" "ow p = None" for p
    proof -
      from ext2 obtain ys where "fl = ys @ fl'" "takes ow s1 ow' s' ys" unfolding extends_def by blast
      with that mem1 show ?thesis by (auto simp: takes_def)
    qed
    then have "refused sl ow s fl ow' s' fl'" using maps wf' by (simp add: refused_def)
    moreover have "only_mm_tlb s s'"
      using only_mm_tlb_trans [OF fr1 only_mm_tlbI [OF extendsD(2) [OF ext2]]] .
    ultimately show ?thesis using fail run by auto
  qed
qed

lemma sys_page_map_lemma:
  assumes wf: "pt_wf sl ow s fl"
    and src: "envid2env srcid True s = Inr ((0, Some e), s)" "env_pml4e (envs s e) = Some (r, 0)"
    and dst: "envid2env dstid True s = Inr ((0, Some e'), s)" "env_pml4e (envs s e') = Some (r', 0)"
    and roots: "root_ok sl ow r srcva" "root_ok sl ow r' dstva"
    and args: "\<not> va_bad srcva" "\<not> va_bad dstva" "\<not> perm_bad perm"
    and m: "mapping s r srcva = Some m" "first_nonzero s r srcva"
      "pp = unat (PPN m)" "pp < npages s" "pp \<notin> set fl"
    and rep: "replaceable ow s fl r' dstva" "old_page s r' dstva = Some pp \<Longrightarrow> pp_ref (pages s pp) \<noteq> 1"
  shows "\<exists>rc s' ow' fl'. sys_page_map srcid srcva dstid dstva perm s = Inr (rc, s') \<and> only_mm_tlb s s' \<and>
     (rc = 0 \<and> puts sl ow s fl r' dstva (page2pa pp OR scast (perm OR 1)) ow' s' fl' \<and>
        (\<forall>p. p \<notin> set fl \<longrightarrow> pp_ref (pages s' p) =
          pp_ref (pages s p) - (if old_page s r' dstva = Some p then 1 else 0) + (if p = pp then 1 else 0)) \<or>
      rc = - E_NO_MEM \<and> length fl < 3 \<and> refused sl ow s fl ow' s' fl')"
proof -
  obtain s1 ptr where s1: "page_lookup (r, 0) srcva s = Inr (Some (pp, ptr), s1)"
      "extends sl ow s fl ow s1 fl" "same_tables ow s s1"
    using lookup_found [OF wf roots(1) m(1,2)] m(3,4) by auto
  have envs1: "envs s1 = envs s" using only_mm_fields(2) [OF extendsD(2) [OF s1(2)]] .
  obtain rc s' ow' fl' where run: "page_insert (r', 0) pp dstva perm s1 = Inr (rc, s')" "only_mm_tlb s s'"
    and out: "rc = 0 \<and> puts sl ow s fl r' dstva (page2pa pp OR scast (perm OR 1)) ow' s' fl' \<and>
        (\<forall>p. p \<notin> set fl \<longrightarrow> pp_ref (pages s' p) =
          pp_ref (pages s p) - (if old_page s r' dstva = Some p then 1 else 0) + (if p = pp then 1 else 0)) \<or>
      rc = - E_NO_MEM \<and> length fl < 3 \<and> refused sl ow s fl ow' s' fl'"
    using insert_found [OF wf s1(2,3) roots(2) m(4,5) rep, of perm] by blast
  have perm: "\<not> (perm AND ucast (PTE_U OR PTE_P) = 0 \<or>
                 perm AND (if PTE_SYSCALL = 0 then 1 else 0) \<noteq> 0)"
  proof -
    have "perm AND 4 = (perm AND 5) AND 4" by (simp add: and.assoc)
    then show ?thesis using args(3) by (auto simp: perm_bad_def mmu_defs)
  qed
  have "sys_page_map srcid srcva dstid dstva perm s = Inr (if rc < 0 then - E_NO_MEM else 0, s')"
    using src dst args perm s1(1) run(1) envs1 by (simp add: sys_page_map_def)
  then show ?thesis using run(2) out by (auto simp: E_NO_MEM_def)
qed

lemma sys_page_unmap_lemma:
  assumes wf: "pt_wf sl ow s fl" and r: "root_ok sl ow r va" and f: "first_nonzero s r va"
    and env: "envid2env envid True s = Inr ((0, Some e), s)" "env_pml4e (envs s e) = Some (r, 0)" "\<not> va_bad va"
    and m: "mapping s r va = Some m" "q = unat (PPN m)" "q < npages s" "q \<notin> set fl" "ow q = None"
  shows "\<exists>s'. sys_page_unmap envid va s = Inr (0, s') \<and> unmaps sl ow s fl r va q s'"
  using page_remove_unmaps [OF wf r f m] env by (auto simp: sys_page_unmap_def)

lemma extends_refused:
  assumes "extends sl ow s fl ow s' fl" "same_tables ow s s'"
  shows "refused sl ow s fl ow s' fl"
  using extendsD(1) [OF assms(1)] extends_mapping [OF assms(1)] assms(2)
  by (auto simp: refused_def same_tables_def)

lemma lookup_unmapped:
  assumes "pt_wf sl ow s fl" "root_ok sl ow r va" "mapping s r va = None"
  shows "\<exists>s1. page_lookup (r, 0) va s = Inr (None, s1) \<and> refused sl ow s fl ow s1 fl"
proof -
  have "in_range s r va" "found_at s r va = None" using assms(3) by (simp_all add: in_range_def found_at_def)
  then show ?thesis using page_lookup_lemma [OF assms(1,2)] extends_refused by fastforce
qed

text \<open>The refusals of \<open>sys_page_map\<close> that come after the lookup in the source.\<close>

lemma sys_page_map_refuses:
  assumes wf: "pt_wf sl ow s fl"
    and src: "envid2env srcid True s = Inr ((0, Some e), s)" "env_pml4e (envs s e) = Some (r, 0)"
    and dst: "envid2env dstid True s = Inr ((0, Some e'), s)"
    and root: "root_ok sl ow r srcva" and args: "\<not> va_bad srcva" "\<not> va_bad dstva"
    and m: "\<And>m. mapping s r srcva = Some m \<Longrightarrow> first_nonzero s r srcva \<and> unat (PPN m) < npages s"
    and bad: "mapping s r srcva = None \<or> perm_bad perm"
  shows "\<exists>s'. sys_page_map srcid srcva dstid dstva perm s = Inr (- E_INVAL, s') \<and> refused sl ow s fl ow s' fl"
proof (cases "mapping s r srcva")
  case None
  then obtain s1 where "page_lookup (r, 0) srcva s = Inr (None, s1)" "refused sl ow s fl ow s1 fl"
    using lookup_unmapped [OF wf root] by blast
  then show ?thesis using src dst args by (simp add: sys_page_map_def)
next
  case (Some m)
  obtain s1 ptr where s1: "page_lookup (r, 0) srcva s = Inr (Some (unat (PPN m), ptr), s1)"
      "extends sl ow s fl ow s1 fl" "same_tables ow s s1"
    using lookup_found [OF wf root Some] m [OF Some] by blast
  then have "sys_page_map srcid srcva dstid dstva perm s = Inr (- E_INVAL, s1)"
    using src dst args bad Some by (simp add: sys_page_map_def)
  then show ?thesis using extends_refused [OF s1(2,3)] by blast
qed

text \<open>C21: \<open>sys_page_map\<close> on every branch, for permissions without bits outside \<open>PTE_SYSCALL\<close> that
  grant write access only if the source mapping does. A bad environment id gives
  \<open>-E_BAD_ENV\<close>; a bad address, an unmapped source or a permission without \<open>PTE_U\<close> or \<open>PTE_P\<close>
  gives \<open>-E_INVAL\<close>, and no mapping changes. Otherwise the page mapped at \<open>srcva\<close> in the source is
  mapped at \<open>dstva\<close> in the destination with the given bits and one more reference, and the page
  mapped there before loses one; or, with fewer than three free pages, \<open>-E_NO_MEM\<close> is
  possible and nothing is mapped. All other mappings of all address spaces stay, and so do
  the contents of all pages in use.\<close>

theorem sys_page_map_correct:
  assumes wf: "pt_wf sl ow s fl"
    and src: "envid2env srcid True s = Inr ((ec, oe), s)"
      "0 \<le> ec \<Longrightarrow> oe = Some e \<and> env_pml4e (envs s e) = Some (r, 0)"
    and dst: "envid2env dstid True s = Inr ((ec', oe'), s)"
      "0 \<le> ec' \<Longrightarrow> oe' = Some e' \<and> env_pml4e (envs s e') = Some (r', 0)"
    and roots: "srcva < UTOP \<Longrightarrow> root_ok sl ow r srcva" "dstva < UTOP \<Longrightarrow> root_ok sl ow r' dstva"
    and m: "\<And>m. mapping s r srcva = Some m \<Longrightarrow> first_nonzero s r srcva \<and>
      unat (PPN m) < npages s \<and> unat (PPN m) \<notin> set fl \<and> (perm AND ucast PTE_W \<noteq> 0 \<longrightarrow> m AND PTE_W \<noteq> 0)"
    and rep: "replaceable ow s fl r' dstva"
      "\<And>p. old_page s r srcva = Some p \<Longrightarrow> old_page s r' dstva = Some p \<Longrightarrow> pp_ref (pages s p) \<noteq> 1"
    and bits: "perm AND NOT (ucast PTE_SYSCALL) = 0"
  shows "if ec < 0 \<or> ec' < 0 then sys_page_map srcid srcva dstid dstva perm s = Inr (- E_BAD_ENV, s)
    else if UTOP \<le> srcva \<or> srcva mod PGSIZE \<noteq> 0 \<or> UTOP \<le> dstva \<or> dstva mod PGSIZE \<noteq> 0 then
      sys_page_map srcid srcva dstid dstva perm s = Inr (- E_INVAL, s)
    else \<exists>rc s' ow' fl'. sys_page_map srcid srcva dstid dstva perm s = Inr (rc, s') \<and>
     pt_wf sl ow' s' fl' \<and> ow \<subseteq>\<^sub>m ow' \<and>
     (\<forall>q va. root_ok sl ow q va \<longrightarrow> (q, pidx va) \<noteq> (r', pidx dstva) \<longrightarrow>
        mapping s' q va = mapping s q va) \<and>
     (\<forall>p. p \<notin> set fl \<longrightarrow> ow p = None \<longrightarrow> mem s' p = mem s p) \<and>
     (if mapping s r srcva = None \<or> perm AND ucast PTE_U = 0 \<or> perm AND ucast PTE_P = 0 then
        rc = - E_INVAL \<and> mapping s' r' dstva = mapping s r' dstva
      else let pp = the (old_page s r srcva) in
        if rc = 0 then
          (\<exists>m. mapping s' r' dstva = Some m \<and> unat (PPN m) = pp \<and> m = page2pa pp OR ucast perm) \<and>
          (\<forall>p. p \<notin> set fl \<longrightarrow> pp_ref (pages s' p) =
             pp_ref (pages s p) - (if old_page s r' dstva = Some p then 1 else 0) + (if p = pp then 1 else 0))
        else rc = - E_NO_MEM \<and> length fl < 3 \<and> mapping s' r' dstva = mapping s r' dstva)"
proof -
  note ec = envid2env_code [OF src(1)] envid2env_code [OF dst(1)]
  consider "ec < 0 \<or> ec' < 0" | "\<not> (ec < 0 \<or> ec' < 0)" "va_bad srcva \<or> va_bad dstva"
    | "\<not> (ec < 0 \<or> ec' < 0)" "\<not> (va_bad srcva \<or> va_bad dstva)" by blast
  then show ?thesis
  proof cases
    case 1
    then have "sys_page_map srcid srcva dstid dstva perm s = Inr (- E_BAD_ENV, s)"
      using src(1) dst(1) by (auto simp: sys_page_map_def)
    then show ?thesis unfolding if_P [OF 1] .
  next
    case 2
    then have "sys_page_map srcid srcva dstid dstva perm s = Inr (- E_INVAL, s)"
      using src(1) dst(1) by (auto simp: sys_page_map_def)
    then show ?thesis
      unfolding if_not_P [OF 2(1)] if_P [OF 2(2) [unfolded va_bad_def disj_assoc]] .
  next
    case 3
    have e: "envid2env srcid True s = Inr ((0, Some e), s)" "env_pml4e (envs s e) = Some (r, 0)"
      "envid2env dstid True s = Inr ((0, Some e'), s)" "env_pml4e (envs s e') = Some (r', 0)"
      using src dst ec 3(1) by auto
    have va: "\<not> va_bad srcva" "\<not> va_bad dstva" using 3(2) by simp_all
    then have r: "root_ok sl ow r srcva" "root_ok sl ow r' dstva" using roots by (auto simp: va_bad_def not_le)
    have goal: "\<exists>rc s' ow' fl'. sys_page_map srcid srcva dstid dstva perm s = Inr (rc, s') \<and>
       pt_wf sl ow' s' fl' \<and> ow \<subseteq>\<^sub>m ow' \<and>
       (\<forall>q va. root_ok sl ow q va \<longrightarrow> (q, pidx va) \<noteq> (r', pidx dstva) \<longrightarrow>
          mapping s' q va = mapping s q va) \<and>
       (\<forall>p. p \<notin> set fl \<longrightarrow> ow p = None \<longrightarrow> mem s' p = mem s p) \<and>
       (if mapping s r srcva = None \<or> perm AND ucast PTE_U = 0 \<or> perm AND ucast PTE_P = 0 then
          rc = - E_INVAL \<and> mapping s' r' dstva = mapping s r' dstva
        else let pp = the (old_page s r srcva) in
          if rc = 0 then
            (\<exists>m. mapping s' r' dstva = Some m \<and> unat (PPN m) = pp \<and> m = page2pa pp OR ucast perm) \<and>
            (\<forall>p. p \<notin> set fl \<longrightarrow> pp_ref (pages s' p) =
               pp_ref (pages s p) - (if old_page s r' dstva = Some p then 1 else 0) + (if p = pp then 1 else 0))
          else rc = - E_NO_MEM \<and> length fl < 3 \<and> mapping s' r' dstva = mapping s r' dstva)"
    proof (cases "mapping s r srcva = None \<or> perm_bad perm")
      case True
      obtain s' where "sys_page_map srcid srcva dstid dstva perm s = Inr (- E_INVAL, s')"
          "refused sl ow s fl ow s' fl"
        using sys_page_map_refuses [OF wf e(1,2,3) r(1) va _ True] m by blast
      then show ?thesis
        using True [unfolded perm_bad_bits] r(2)
        by (intro exI [of _ "- E_INVAL"] exI [of _ s'] exI [of _ ow] exI [of _ fl]) (simp add: refused_def)
    next
      case False
      then obtain x where x: "mapping s r srcva = Some x" by auto
      let ?pp = "unat (PPN x)"
      have pp: "old_page s r srcva = Some ?pp" using x by (simp add: old_page_def)
      have ok: "first_nonzero s r srcva" "?pp < npages s" "?pp \<notin> set fl" using m [OF x] by simp_all
      have "perm AND ucast PTE_P \<noteq> 0" "?pp < 2 ^ 32"
        using False ok(2) pt_wf_npages [OF wf] by (simp_all add: perm_bad_bits)
      note entry = legal_entry [OF bits this]
      have "old_page s r' dstva = Some ?pp \<Longrightarrow> pp_ref (pages s ?pp) \<noteq> 1" using rep(2) pp by blast
      then obtain rc s' ow' fl' where run: "sys_page_map srcid srcva dstid dstva perm s = Inr (rc, s')"
        and out: "rc = 0 \<and> puts sl ow s fl r' dstva (page2pa ?pp OR scast (perm OR 1)) ow' s' fl' \<and>
            (\<forall>p. p \<notin> set fl \<longrightarrow> pp_ref (pages s' p) =
               pp_ref (pages s p) - (if old_page s r' dstva = Some p then 1 else 0) + (if p = ?pp then 1 else 0)) \<or>
          rc = - E_NO_MEM \<and> length fl < 3 \<and> refused sl ow s fl ow' s' fl'"
        using sys_page_map_lemma [OF wf e r va _ x ok(1) refl ok(2,3) rep(1)] False by blast
      have cond: "\<not> (mapping s r srcva = None \<or> perm AND ucast PTE_U = 0 \<or> perm AND ucast PTE_P = 0)"
        using False by (simp add: perm_bad_bits)
      show ?thesis
        unfolding if_not_P [OF cond] pp option.sel Let_def
        by (rule exI [of _ rc], rule exI [of _ s'], rule exI [of _ ow'], rule exI [of _ fl'])
          (use run out r(2) entry in \<open>auto simp: puts_def refused_def others_kept_def E_NO_MEM_def\<close>)
    qed
    have ok: "\<not> (UTOP \<le> srcva \<or> srcva mod PGSIZE \<noteq> 0 \<or> UTOP \<le> dstva \<or> dstva mod PGSIZE \<noteq> 0)"
      using va by (simp add: va_bad_def)
    show ?thesis unfolding if_not_P [OF 3(1)] if_not_P [OF ok] by (fact goal)
  qed
qed

theorem sys_page_map_correct_witness:
  "\<exists>s'. sys_page_map 0 0x2000 0x1001 0x200000 7 call_sample = Inr (0, s') \<and>
      mapping s' 2 0x200000 = Some (page2pa 6 OR 7)"
proof -
  have rep: "replaceable sample_ow call_sample [7, 8, 9, 10] 2 0x200000" "old_page call_sample 2 0x200000 = None"
    by (simp_all add: replaceable_def old_page_def call_sample_va)
  have old: "old_page call_sample 2 0x2000 = Some 6"
    by (simp add: old_page_def call_sample_va PPN_numeral)
  have perm: "(7 :: u32) AND NOT (ucast PTE_SYSCALL) = 0"
    "(7 :: u32) AND ucast PTE_U \<noteq> 0" "(7 :: u32) AND ucast PTE_P \<noteq> 0" by (simp_all add: mmu_defs)
  have va: "(0x200000 :: u64) < UTOP" "(0x200000 :: u64) mod PGSIZE = 0"
    "(0x2000 :: u64) < UTOP" "(0x2000 :: u64) mod PGSIZE = 0" by (simp_all add: mmu_defs)
  have src: "first_nonzero call_sample 2 0x2000 \<and> unat (PPN m) < npages call_sample \<and>
      unat (PPN m) \<notin> set [7, 8, 9, 10] \<and> ((7 :: u32) AND ucast PTE_W \<noteq> 0 \<longrightarrow> m AND PTE_W \<noteq> 0)"
    if "mapping call_sample 2 0x2000 = Some m" for m
    using that call_sample_va by (auto simp: PPN_numeral mmu_defs)
  have no: "\<not> ((0 :: int) < 0 \<or> (0 :: int) < 0)"
    "\<not> (UTOP \<le> (0x2000 :: u64) \<or> (0x2000 :: u64) mod PGSIZE \<noteq> 0 \<or>
        UTOP \<le> (0x200000 :: u64) \<or> (0x200000 :: u64) mod PGSIZE \<noteq> 0)"
    "\<not> (mapping call_sample 2 0x2000 = None \<or> (7 :: u32) AND ucast PTE_U = 0 \<or> (7 :: u32) AND ucast PTE_P = 0)"
    using va perm by (simp_all add: not_le call_sample_va)
  note correct = sys_page_map_correct [OF call_sample_wf call_sample_env(1) _ call_sample_env(2) _ sample_root
        call_sample_va(4) src rep(1) _ perm(1), of 0 1, unfolded if_not_P [OF no(1)] if_not_P [OF no(2)]
        if_not_P [OF no(3)] old rep(2) Let_def option.sel]
  obtain rc s' where out: "sys_page_map 0 0x2000 0x1001 0x200000 7 call_sample = Inr (rc, s')"
      "if rc = 0 then (\<exists>m. mapping s' 2 0x200000 = Some m \<and> unat (PPN m) = 6 \<and> m = page2pa 6 OR ucast (7 :: u32))
       else length [7, 8, 9, 10 :: nat] < 3"
    using correct by (auto split: if_splits)
  then have "rc = 0" by (cases "rc = 0") simp_all
  with out show ?thesis by simp
qed

text \<open>Against the comment above the function, a read-only page can be mapped writable.\<close>

lemma sys_page_map_grants_write:
  "let s = call_sample\<lparr>mem := sample_mem(5 := (sample_mem 5)(2 := 0x6005))\<rparr> in
   mapping s 2 0x2000 = Some 0x6005 \<and> 0x6005 AND PTE_W = 0 \<and>
   (\<exists>s'. sys_page_map 0 0x2000 0x1001 0x200000 7 s = Inr (0, s') \<and>
      mapping s' 2 0x200000 = Some (page2pa 6 OR scast ((7 :: u32) OR 1)))"
proof -
  let ?s = "call_sample\<lparr>mem := sample_mem(5 := (sample_mem 5)(2 := 0x6005))\<rparr>"
  have odd: "bit (0x6005 :: u64) 0" "PPN 0x6005 = 6" by (simp_all add: bit_0 PPN_def)
  have n: "nxt ?s = nxt call_sample"
    by (rule ext)+ (auto simp: nxt_def odd odd_entries sample_mem_def PPN_numeral)
  have n1: "nxt call_sample = nxt (sample 1)" by (simp add: nxt_def fun_eq_iff)
  have "alloc_inv ?s [7, 8, 9, 10]"
    using pt_wfD(1) [OF call_sample_wf] by (subst alloc_inv_cong [of _ call_sample]) simp_all
  then have wf: "pt_wf (\<lambda>_. {0}) sample_ow ?s [7, 8, 9, 10]"
  proof (rule pt_wf_step [OF call_sample_wf])
    show "p \<notin> set [7, 8, 9, 10]" if "sample_ow p = Some z" for p z
      using pt_wfD(3) [OF call_sample_wf, of p] that by (cases z) blast
  qed (simp_all only: n, simp)
  have env: "envid2env 0 True ?s = Inr ((0, Some 0), ?s)"
    "envid2env 0x1001 True ?s = Inr ((0, Some 1), ?s)"
    by (simp_all add: envid2env_def ENVX_def NENV_def LOG2NENV_def curenv_def) (simp_all add: call_sample_def)
  have map: "mapping ?s 2 0x2000 = Some 0x6005" "mapping ?s 2 0x200000 = None"
    by (simp_all add: mapping_def pidx_def n n1 nxt_sample call_sample_va odd)
  have first: "first_nonzero ?s 2 0x2000"
    by (simp add: first_nonzero_def n n1 nxt_sample) (simp add: sample_mem_def)
  have rep: "replaceable sample_ow ?s [7, 8, 9, 10] 2 0x200000" "old_page ?s 2 0x200000 \<noteq> Some 6"
    by (simp_all add: replaceable_def old_page_def map)
  have "\<exists>s'. sys_page_map 0 0x2000 0x1001 0x200000 7 ?s = Inr (0, s') \<and>
      mapping s' 2 0x200000 = Some (page2pa 6 OR scast ((7 :: u32) OR 1))"
    using sys_page_map_lemma [OF wf env(1) _ env(2) _ sample_root call_sample_va(4) args_ok(2,1,3)
        map(1) first _ _ _ rep(1)] rep(2) odd(2) by (auto simp: puts_def)
  with map(1) show ?thesis by (simp add: Let_def mmu_defs)
qed

end
