(* ===== verification/Syscall_Ipc.thy ===== *)
theory Syscall_Ipc
  imports Syscall
begin

text \<open>
  The calls that concern other environments: message passing and \<open>sys_exofork\<close>. The first
  part is a small calculus, \<open>envs_safe\<close>, that reads off from the text of a memory operation
  that it leaves the environment table and the per-processor data alone, whatever the state.
\<close>

section \<open>Operations that leave the environments alone\<close>

named_theorems envs_safe_rules \<open>operations that keep the environment table\<close>

definition same_envs :: "kstate \<Rightarrow> kstate \<Rightarrow> bool" where
  "same_envs s s' \<longleftrightarrow> envs s' = envs s \<and> cpus s' = cpus s \<and> cpu s' = cpu s"

definition envs_safe :: "kstate \<Rightarrow> 'a res \<Rightarrow> bool" where
  "envs_safe s r \<longleftrightarrow> (case r of Inl _ \<Rightarrow> True | Inr (x, s') \<Rightarrow> same_envs s s')"

lemma envs_safe_Inl [envs_safe_rules]: "envs_safe s (Inl e)"
  by (simp add: envs_safe_def)

lemma envs_safe_Inr [envs_safe_rules]: "same_envs s s' \<Longrightarrow> envs_safe s (Inr (x, s'))"
  by (simp add: envs_safe_def)

lemma envs_safe_bindK [envs_safe_rules]:
  "envs_safe s r \<Longrightarrow> (\<And>x s'. same_envs s s' \<Longrightarrow> envs_safe s (f x s')) \<Longrightarrow> envs_safe s (bindK r f)"
  by (cases r) (auto simp: envs_safe_def bindK_def)

lemma envs_safeD: "envs_safe s r \<Longrightarrow> r = Inr (x, s') \<Longrightarrow> same_envs s s'"
  by (simp add: envs_safe_def)

lemma envs_safe_if [envs_safe_rules]:
  "(b \<Longrightarrow> envs_safe s x) \<Longrightarrow> (\<not> b \<Longrightarrow> envs_safe s y) \<Longrightarrow> envs_safe s (if b then x else y)"
  by simp

lemma envs_safe_option [envs_safe_rules]:
  "envs_safe s x \<Longrightarrow> (\<And>a. p = Some a \<Longrightarrow> envs_safe s (f a)) \<Longrightarrow>
   envs_safe s (case p of None \<Rightarrow> x | Some a \<Rightarrow> f a)"
  by (cases p) simp_all

lemma envs_safe_prod [envs_safe_rules]:
  "(\<And>a b. p = (a, b) \<Longrightarrow> envs_safe s (f a b)) \<Longrightarrow> envs_safe s (case p of (a, b) \<Rightarrow> f a b)"
  by (cases p) simp_all

lemma envs_safe_prod_state [envs_safe_rules]:
  "(\<And>a b. p = (a, b) \<Longrightarrow> envs_safe s (f a b t)) \<Longrightarrow> envs_safe s ((case p of (a, b) \<Rightarrow> f a b) t)"
  by (cases p) simp_all

lemma same_envs_refl [simp]: "same_envs s s"
  by (simp add: same_envs_def)

lemma same_envs_upd [simp]:
  "same_envs s (st a v t) = same_envs s t" "same_envs s (set_pp_ref p x t) = same_envs s t"
  "same_envs s (set_pp_link p l t) = same_envs s t" "same_envs s (incref p t) = same_envs s t"
  "same_envs s (set_page_free_list h t) = same_envs s t" "same_envs s (memset_page0 a t) = same_envs s t"
  "same_envs s (tlb_invalidate q va t) = same_envs s t"
  by (simp_all add: same_envs_def kstate_defs tlb_invalidate_def split: option.splits)

lemma envs_safe_basic [envs_safe_rules]:
  "same_envs s t \<Longrightarrow> envs_safe s (panic msg t)"
  "same_envs s t \<Longrightarrow> envs_safe s (deref p t)"
  "same_envs s t \<Longrightarrow> envs_safe s (KADDR pa t)"
  "same_envs s t \<Longrightarrow> envs_safe s (pa2page pa t)"
  "same_envs s t \<Longrightarrow> envs_safe s (page2kva pp t)"
  by (auto simp: envs_safe_def panic_def deref_def KADDR_def pa2page_def page2kva_def Let_def
      split: option.splits)

lemma envs_safe_page_alloc [envs_safe_rules]: "same_envs s t \<Longrightarrow> envs_safe s (page_alloc fl t)"
  unfolding page_alloc_def Let_def by (intro envs_safe_rules) simp_all

lemma envs_safe_page_free [envs_safe_rules]:
  "same_envs s t \<Longrightarrow> envs_safe s (page_free p t)"
  "same_envs s t \<Longrightarrow> envs_safe s (page_decref p t)"
  unfolding page_decref_def page_free_def Let_def by (intro envs_safe_rules; simp)+

lemma envs_safe_walks [envs_safe_rules]:
  "same_envs s t \<Longrightarrow> envs_safe s (pgdir_walk a va c t)"
  "same_envs s t \<Longrightarrow> envs_safe s (pdpe_walk a va c t)"
  "same_envs s t \<Longrightarrow> envs_safe s (pml4e_walk a va c t)"
proof -
  show 1: "same_envs s t \<Longrightarrow> envs_safe s (pgdir_walk a va c t)" for a t
    unfolding pgdir_walk_def Let_def by (intro envs_safe_rules) simp_all
  show 2: "same_envs s t \<Longrightarrow> envs_safe s (pdpe_walk a va c t)" for a t
    unfolding pdpe_walk_def Let_def by (intro envs_safe_rules 1) simp_all
  show "same_envs s t \<Longrightarrow> envs_safe s (pml4e_walk a va c t)"
    unfolding pml4e_walk_def Let_def by (intro envs_safe_rules 2) simp_all
qed

lemma envs_safe_page_lookup [envs_safe_rules]: "same_envs s t \<Longrightarrow> envs_safe s (page_lookup a va t)"
  unfolding page_lookup_def Let_def by (intro envs_safe_rules) simp_all

lemma envs_safe_page_remove [envs_safe_rules]: "same_envs s t \<Longrightarrow> envs_safe s (page_remove a va t)"
  unfolding page_remove_def Let_def by (intro envs_safe_rules) simp_all

lemma envs_safe_page_insert [envs_safe_rules]:
  "same_envs s t \<Longrightarrow> envs_safe s (page_insert a p va perm t)"
  unfolding page_insert_def Let_def by (intro envs_safe_rules) simp_all

section \<open>Sending\<close>

text \<open>What a successful send makes of the target.\<close>

definition delivered :: "bool \<Rightarrow> u32 \<Rightarrow> u32 \<Rightarrow> u32 \<Rightarrow> Env \<Rightarrow> Env" where
  "delivered page perm value sender x = x\<lparr>
     env_ipc_perm := (if page then perm else env_ipc_perm x),
     env_ipc_recving := False, env_ipc_from := sender, env_ipc_value := value,
     env_status := ENV_RUNNABLE,
     env_tf := (env_tf x)\<lparr>tf_regs := (tf_regs (env_tf x))\<lparr>reg_rax := 0\<rparr>\<rparr>\<rparr>"

lemma envid2env_state: "envid2env i c s = Inr (z, s') \<Longrightarrow> s' = s"
  by (auto simp: envid2env_def Let_def bindK_Inr_iff deref_def split: if_splits option.splits)

lemma error_codes [simp]:
  "0 < E_INVAL" "0 < E_NO_MEM" "0 < E_BAD_ENV" "0 < E_IPC_NOT_RECV" "0 < E_NO_FREE_ENV"
  by (simp_all add: kstate_defs)

lemma ipc_send_page_envs:
  assumes "ipc_send_page t srcva perm s = Inr (rc, s')"
  shows "(rc < 0 \<and> same_envs s s') \<or>
    (rc = 0 \<and> cpus s' = cpus s \<and> cpu s' = cpu s \<and> envs s' = (envs s)
       (t := if env_ipc_dstva (envs s t) < UTOP then (envs s t)\<lparr>env_ipc_perm := perm\<rparr> else envs s t))"
proof (cases "srcva mod PGSIZE \<noteq> 0 \<or> perm_bad perm")
  case True
  with assms show ?thesis by (auto simp: ipc_send_page_def split: if_splits)
next
  case False
  with assms obtain c pml4e found s1 where s1: "page_lookup pml4e srcva s = Inr (found, s1)"
    and rest: "(case found of None \<Rightarrow> Inr (- E_INVAL, s1)
          | Some (page, pte) \<Rightarrow>
              if perm AND ucast PTE_W \<noteq> 0 \<and> ld s1 pte AND PTE_W = 0 then Inr (- E_INVAL, s1)
              else if env_ipc_dstva (envs s1 t) < UTOP then
                if env_ipc_dstva (envs s1 t) mod PGSIZE \<noteq> 0 then Inr (- E_INVAL, s1)
                else
                  bindK (deref (env_pml4e (envs s1 t)) s1) (\<lambda>dst_pml4e s.
                  bindK (page_insert dst_pml4e page (env_ipc_dstva (envs s t)) perm s)
                    (\<lambda>result s.
                      if result < 0 then Inr (- E_NO_MEM, s)
                      else Inr (0, upd_env t (\<lambda>x. x\<lparr>env_ipc_perm := perm\<rparr>) s)))
              else Inr (0, s1)) = Inr (rc, s')"
    by (auto simp: ipc_send_page_def bindK_Inr_iff deref_def split: option.splits)
  from envs_safeD [OF envs_safe_page_lookup [OF same_envs_refl] s1] have e1: "same_envs s s1" .
  show ?thesis
  proof (cases found)
    case None
    with rest e1 show ?thesis by (auto simp: E_INVAL_def)
  next
    case (Some f)
    obtain page pte where f: "f = (page, pte)" by (cases f)
    consider "rc = - E_INVAL" "s' = s1" | "rc = 0" "s' = s1" "\<not> env_ipc_dstva (envs s1 t) < UTOP"
      | a r2 s2 where "page_insert a page (env_ipc_dstva (envs s1 t)) perm s1 = Inr (r2, s2)"
          "env_ipc_dstva (envs s1 t) < UTOP" "if r2 < 0 then rc = - E_NO_MEM \<and> s' = s2
             else rc = 0 \<and> s' = upd_env t (\<lambda>x. x\<lparr>env_ipc_perm := perm\<rparr>) s2"
      using rest Some f
      by (auto simp: bindK_Inr_iff deref_def split: if_splits option.splits)
    then show ?thesis
    proof cases
      case 1
      with e1 show ?thesis by simp
    next
      case 2
      with e1 show ?thesis by (simp add: same_envs_def)
    next
      case 3
      from envs_safeD [OF envs_safe_page_insert [OF e1] 3(1)] have "same_envs s s2" .
      with 3 e1 show ?thesis by (auto simp: same_envs_def upd_env_def split: if_splits)
    qed
  qed
qed

text \<open>
  On the environments the call is all or nothing, whatever the state of the memory. The
  permission field of the target is set only if a page was sent and asked for, and keeps its
  old value otherwise (the comment above the function says it becomes 0).
\<close>

lemma sys_ipc_try_send_envs:
  assumes "sys_ipc_try_send envid value srcva perm s = Inr (rc, s')"
  shows "if rc < 0 then envs s' = envs s
    else rc = 0 \<and> (\<exists>t c. envid2env envid False s = Inr ((0, Some t), s) \<and> curenv s = Some c \<and>
      env_ipc_recving (envs s t) \<and>
      envs s' = (envs s)(t := delivered (srcva < UTOP \<and> env_ipc_dstva (envs s t) < UTOP)
                   perm value (env_id (envs s c)) (envs s t)))"
proof -
  from assms obtain r0 target where e: "envid2env envid False s = Inr ((r0, target), s)"
    by (auto simp: sys_ipc_try_send_def bindK_Inr_iff dest: envid2env_state)
  show ?thesis
  proof (cases "r0 < 0")
    case True
    with assms e show ?thesis by (auto simp: sys_ipc_try_send_def)
  next
    case False
    then have r0: "r0 = 0" using e
      by (auto simp: envid2env_def Let_def bindK_Inr_iff deref_def E_BAD_ENV_def split: if_splits option.splits)
    with assms e obtain t where t: "target = Some t"
      by (cases target) (auto simp: sys_ipc_try_send_def)
    show ?thesis
    proof (cases "env_ipc_recving (envs s t)")
      case False
      with assms e t r0 show ?thesis by (auto simp: sys_ipc_try_send_def)
    next
      case True
      define sp where "sp = (if srcva < UTOP then ipc_send_page t srcva perm s else Inr (0, s))"
      from assms e t r0 True obtain r1 s1 where sp: "sp = Inr (r1, s1)"
        and rest: "(if r1 < 0 then Inr (r1, s1)
          else bindK (sys_getenvid (upd_env t (\<lambda>x. x\<lparr>env_ipc_recving := False\<rparr>) s1)) (\<lambda>from s.
             Inr (0, upd_env t (\<lambda>x. x\<lparr>env_ipc_from := from, env_ipc_value := value,
                     env_status := ENV_RUNNABLE,
                     env_tf := (env_tf x)\<lparr>tf_regs := (tf_regs (env_tf x))\<lparr>reg_rax := 0\<rparr>\<rparr>\<rparr>) s)))
          = Inr (rc, s')"
        by (auto simp: sys_ipc_try_send_def bindK_Inr_iff sp_def)
      have s1: "(r1 < 0 \<and> same_envs s s1) \<or> (r1 = 0 \<and> cpus s1 = cpus s \<and> cpu s1 = cpu s \<and>
          envs s1 = (envs s)(t := (envs s t)\<lparr>env_ipc_perm :=
            (if srcva < UTOP \<and> env_ipc_dstva (envs s t) < UTOP then perm
             else env_ipc_perm (envs s t))\<rparr>))"
        using sp ipc_send_page_envs [of t srcva perm s r1 s1]
        by (auto simp: sp_def split: if_splits)
      show ?thesis
      proof (cases "r1 < 0")
        case True
        with rest s1 show ?thesis by (simp add: same_envs_def)
      next
        case False
        with s1 have cs: "curenv s1 = curenv s" "r1 = 0" by (auto simp: curenv_def)
        with rest obtain c where c: "curenv s = Some c"
          by (cases "curenv s") (auto simp: sys_getenvid_def upd_env_def curenv_def)
        with rest s1 cs e t r0 True show ?thesis
          by (auto simp: sys_getenvid_def upd_env_def curenv_def delivered_def)
      qed
    qed
  qed
qed

text \<open>The memory side: what \<open>ipc_send_page\<close> does to the address spaces.\<close>

lemma refused_cong:
  assumes "mem s'' = mem s'" "pages s'' = pages s'" "page_free_list s'' = page_free_list s'"
    "npages s'' = npages s'"
  shows "refused sl ow s fl ow' s'' fl' = refused sl ow s fl ow' s' fl'"
    and "puts sl ow s fl r va e ow' s'' fl' = puts sl ow s fl r va e ow' s' fl'"
  using pt_wf_cong [OF assms] mapping_cong [OF assms(1)] assms(1)
  by (simp_all add: refused_def puts_def others_kept_def)

lemma refused_refl: "pt_wf sl ow s fl \<Longrightarrow> refused sl ow s fl ow s fl"
  by (simp add: refused_def)

text \<open>The reasons of \<open>-E_INVAL\<close> that the call finds after looking the page up.\<close>

definition send_invalid :: "kstate \<Rightarrow> nat \<Rightarrow> u64 \<Rightarrow> u32 \<Rightarrow> u64 \<Rightarrow> bool" where
  "send_invalid s r srcva perm dstva \<longleftrightarrow>
     (case mapping s r srcva of
        None \<Rightarrow> True
      | Some m \<Rightarrow> perm AND ucast PTE_W \<noteq> 0 \<and> m AND PTE_W = 0 \<or> dstva < UTOP \<and> dstva mod PGSIZE \<noteq> 0)"

lemma ipc_send_page_memory:
  assumes wf: "pt_wf sl ow s fl" and cur: "curenv s = Some c" "env_pml4e (envs s c) = Some (r, 0)"
    and root: "root_ok sl ow r srcva" and args: "srcva mod PGSIZE = 0" "\<not> perm_bad perm"
    and m: "\<And>m. mapping s r srcva = Some m \<Longrightarrow> first_nonzero s r srcva \<and> unat (PPN m) < npages s \<and>
      unat (PPN m) \<notin> set fl"
    and dst: "env_ipc_dstva (envs s t) = dstva"
      "dstva < UTOP \<Longrightarrow> env_pml4e (envs s t) = Some (r', 0) \<and> root_ok sl ow r' dstva \<and> replaceable ow s fl r' dstva"
    and again: "\<And>p. old_page s r srcva = Some p \<Longrightarrow> old_page s r' dstva = Some p \<Longrightarrow> pp_ref (pages s p) \<noteq> 1"
  shows "\<exists>rc s' ow' fl'. ipc_send_page t srcva perm s = Inr (rc, s') \<and>
    (if send_invalid s r srcva perm dstva then rc = - E_INVAL \<and> refused sl ow s fl ow' s' fl'
     else if rc = 0 then
       (if dstva < UTOP then let pp = the (old_page s r srcva) in
          puts sl ow s fl r' dstva (page2pa pp OR scast (perm OR 1)) ow' s' fl' \<and>
          (\<forall>p. p \<notin> set fl \<longrightarrow> pp_ref (pages s' p) =
             pp_ref (pages s p) - (if old_page s r' dstva = Some p then 1 else 0) + (if p = pp then 1 else 0))
        else refused sl ow s fl ow' s' fl')
     else rc = - E_NO_MEM \<and> dstva < UTOP \<and> length fl < 3 \<and> refused sl ow s fl ow' s' fl')"
proof (cases "mapping s r srcva")
  case None
  then obtain s1 where s1: "page_lookup (r, 0) srcva s = Inr (None, s1)" "refused sl ow s fl ow s1 fl"
    using lookup_unmapped [OF wf root] by blast
  then have "ipc_send_page t srcva perm s = Inr (- E_INVAL, s1)"
    using cur args by (simp add: ipc_send_page_def)
  then show ?thesis using s1(2) None by (auto simp: send_invalid_def)
next
  case (Some x)
  let ?pp = "unat (PPN x)"
  have pp: "old_page s r srcva = Some ?pp" using Some by (simp add: old_page_def)
  have ok: "first_nonzero s r srcva" "?pp < npages s" "?pp \<notin> set fl" using m [OF Some] by simp_all
  obtain s1 ptr where s1: "page_lookup (r, 0) srcva s = Inr (Some (?pp, ptr), s1)"
      "extends sl ow s fl ow s1 fl" "same_tables ow s s1" "ld s1 ptr = x"
    using lookup_found [OF wf root Some ok(1,2)] by blast
  have envs1: "envs s1 = envs s" using only_mm_fields(2) [OF extendsD(2) [OF s1(2)]] .
  have refused1: "refused sl ow s fl ow s1 fl" by (rule extends_refused [OF s1(2,3)])
  have run: "ipc_send_page t srcva perm s =
     (if send_invalid s r srcva perm dstva then Inr (- E_INVAL, s1)
      else if dstva < UTOP then
        bindK (deref (env_pml4e (envs s t)) s1) (\<lambda>dst_pml4e s.
        bindK (page_insert dst_pml4e ?pp dstva perm s) (\<lambda>result s.
          if result < 0 then Inr (- E_NO_MEM, s)
          else Inr (0, upd_env t (\<lambda>x. x\<lparr>env_ipc_perm := perm\<rparr>) s)))
      else Inr (0, s1))"
    using cur args s1(1,4) envs1 dst(1) Some
    by (cases "env_pml4e (envs s t)") (simp_all add: ipc_send_page_def send_invalid_def)
  consider "send_invalid s r srcva perm dstva" | "\<not> send_invalid s r srcva perm dstva" "\<not> dstva < UTOP"
    | "\<not> send_invalid s r srcva perm dstva" "dstva < UTOP" by blast
  then show ?thesis
  proof cases
    case 1
    then show ?thesis using run refused1 by auto
  next
    case 2
    then have "ipc_send_page t srcva perm s = Inr (0, s1)" using run by simp
    then show ?thesis using refused1 2 by auto
  next
    case 3
    have d: "env_pml4e (envs s t) = Some (r', 0)" "root_ok sl ow r' dstva" "replaceable ow s fl r' dstva"
      using dst(2) 3(2) by simp_all
    have "old_page s r' dstva = Some ?pp \<Longrightarrow> pp_ref (pages s ?pp) \<noteq> 1" using again pp by blast
    then obtain rc s' ow' fl' where ins: "page_insert (r', 0) ?pp dstva perm s1 = Inr (rc, s')"
      and out: "rc = 0 \<and> puts sl ow s fl r' dstva (page2pa ?pp OR scast (perm OR 1)) ow' s' fl' \<and>
          (\<forall>p. p \<notin> set fl \<longrightarrow> pp_ref (pages s' p) =
            pp_ref (pages s p) - (if old_page s r' dstva = Some p then 1 else 0) + (if p = ?pp then 1 else 0)) \<or>
        rc = - E_NO_MEM \<and> length fl < 3 \<and> refused sl ow s fl ow' s' fl'"
      using insert_found [OF wf s1(2,3) d(2) ok(2,3) d(3), of perm] by blast
    let ?s' = "if rc < 0 then s' else upd_env t (\<lambda>x. x\<lparr>env_ipc_perm := perm\<rparr>) s'"
    have "ipc_send_page t srcva perm s = Inr (if rc < 0 then - E_NO_MEM else 0, ?s')"
      using run 3 d(1) ins by simp
    moreover have "mem ?s' = mem s'" "pages ?s' = pages s'" "page_free_list ?s' = page_free_list s'"
      "npages ?s' = npages s'" by (simp_all add: upd_env_def)
    moreover note cong = refused_cong [OF this]
    ultimately show ?thesis
      using out 3 pp cong by (intro exI [of _ "if rc < 0 then - E_NO_MEM else 0"] exI [of _ ?s'] exI [of _ ow'] exI [of _ fl'])
        (auto simp: Let_def E_NO_MEM_def)
  qed
qed

text \<open>C22: \<open>sys_ipc_try_send\<close> on every branch, for permissions without bits outside
  \<open>PTE_SYSCALL\<close>. A bad id gives \<open>-E_BAD_ENV\<close>, a target that is not receiving \<open>-E_IPC_NOT_RECV\<close>;
  with \<open>srcva\<close> below \<open>UTOP\<close> a misaligned \<open>srcva\<close>, a permission without \<open>PTE_U\<close> or \<open>PTE_P\<close>, an
  unmapped page, write permission on a read-only page or a misaligned receiving address gives
  \<open>-E_INVAL\<close>, and \<open>-E_NO_MEM\<close> is possible with fewer than three free pages: on an error no
  environment and no mapping changes. Otherwise exactly the target changes: it is runnable, no longer
  receiving, its paused call will return 0, and it holds the value and the id of the sender.
  If a page is sent and asked for, the page the sender has at \<open>srcva\<close> is mapped with the given bits at the
  address the target asked for, with one more reference; else no mapping changes.\<close>

theorem sys_ipc_try_send_correct:
  assumes wf: "pt_wf sl ow s fl" and target: "envid2env envid False s = Inr ((ec, oe), s)"
      "0 \<le> ec \<Longrightarrow> oe = Some t" "dstva = env_ipc_dstva (envs s t)"
    and cur: "curenv s = Some c"
    and src: "srcva < UTOP \<Longrightarrow> env_pml4e (envs s c) = Some (r, 0) \<and> root_ok sl ow r srcva \<and>
      perm AND NOT (ucast PTE_SYSCALL) = 0"
    and m: "\<And>m. srcva < UTOP \<Longrightarrow> mapping s r srcva = Some m \<Longrightarrow>
      first_nonzero s r srcva \<and> unat (PPN m) < npages s \<and> unat (PPN m) \<notin> set fl"
    and dst: "dstva < UTOP \<Longrightarrow> env_pml4e (envs s t) = Some (r', 0) \<and> root_ok sl ow r' dstva \<and> replaceable ow s fl r' dstva"
    and again: "\<And>p. old_page s r srcva = Some p \<Longrightarrow> old_page s r' dstva = Some p \<Longrightarrow> pp_ref (pages s p) \<noteq> 1"
  shows "if ec < 0 then sys_ipc_try_send envid val srcva perm s = Inr (- E_BAD_ENV, s)
    else if \<not> env_ipc_recving (envs s t) then
      sys_ipc_try_send envid val srcva perm s = Inr (- E_IPC_NOT_RECV, s)
    else if srcva < UTOP \<and> (srcva mod PGSIZE \<noteq> 0 \<or> perm AND ucast PTE_U = 0 \<or> perm AND ucast PTE_P = 0) then
      sys_ipc_try_send envid val srcva perm s = Inr (- E_INVAL, s)
    else \<exists>rc s' ow' fl'. sys_ipc_try_send envid val srcva perm s = Inr (rc, s') \<and>
      (if srcva < UTOP \<and> send_invalid s r srcva perm dstva then
         rc = - E_INVAL \<and> envs s' = envs s \<and> refused sl ow s fl ow' s' fl'
       else if rc = 0 then
         envs s' = (envs s)(t := delivered (srcva < UTOP \<and> dstva < UTOP) perm val (env_id (envs s c)) (envs s t)) \<and>
         (if srcva < UTOP \<and> dstva < UTOP then let pp = the (old_page s r srcva); e = page2pa pp OR ucast perm in
            puts sl ow s fl r' dstva e ow' s' fl' \<and> mapping s' r' dstva = Some e \<and> unat (PPN e) = pp \<and>
            (\<forall>p. p \<notin> set fl \<longrightarrow> pp_ref (pages s' p) =
               pp_ref (pages s p) - (if old_page s r' dstva = Some p then 1 else 0) + (if p = pp then 1 else 0))
          else refused sl ow s fl ow' s' fl')
       else rc = - E_NO_MEM \<and> srcva < UTOP \<and> dstva < UTOP \<and> length fl < 3 \<and>
         envs s' = envs s \<and> refused sl ow s fl ow' s' fl')"
proof -
  let ?call = "sys_ipc_try_send envid val srcva perm s"
  let ?early = "srcva < UTOP \<and> (srcva mod PGSIZE \<noteq> 0 \<or> perm AND ucast PTE_U = 0 \<or> perm AND ucast PTE_P = 0)"
  consider "ec < 0" | "\<not> ec < 0" "\<not> env_ipc_recving (envs s t)"
    | "\<not> ec < 0" "\<not> \<not> env_ipc_recving (envs s t)" ?early
    | "\<not> ec < 0" "\<not> \<not> env_ipc_recving (envs s t)" "\<not> ?early" by argo
  then show ?thesis
  proof cases
    case 1
    then have "?call = Inr (- E_BAD_ENV, s)" using target(1) by (simp add: sys_ipc_try_send_def)
    then show ?thesis unfolding if_P [OF 1] .
  next
    case 2
    then have "?call = Inr (- E_IPC_NOT_RECV, s)" using target(1,2) by (simp add: sys_ipc_try_send_def)
    then show ?thesis unfolding if_not_P [OF 2(1)] if_P [OF 2(2)] .
  next
    case 3
    then have "ipc_send_page t srcva perm s = Inr (- E_INVAL, s)"
      by (auto simp: ipc_send_page_def perm_bad_bits)
    then have "?call = Inr (- E_INVAL, s)" using 3 target(1,2) by (simp add: sys_ipc_try_send_def)
    then show ?thesis unfolding if_not_P [OF 3(1)] if_not_P [OF 3(2)] if_P [OF 3(3)] .
  next
    case 4
    define sp where "sp = (if srcva < UTOP then ipc_send_page t srcva perm s else Inr (0, s))"
    have "\<exists>r1 s1 ow' fl'. sp = Inr (r1, s1) \<and>
      (if srcva < UTOP \<and> send_invalid s r srcva perm dstva then r1 = - E_INVAL \<and> refused sl ow s fl ow' s1 fl'
       else if r1 = 0 then
         (if srcva < UTOP \<and> dstva < UTOP then let pp = the (old_page s r srcva) in
            puts sl ow s fl r' dstva (page2pa pp OR scast (perm OR 1)) ow' s1 fl' \<and>
            (\<forall>p. p \<notin> set fl \<longrightarrow> pp_ref (pages s1 p) =
               pp_ref (pages s p) - (if old_page s r' dstva = Some p then 1 else 0) + (if p = pp then 1 else 0))
          else refused sl ow s fl ow' s1 fl')
       else r1 = - E_NO_MEM \<and> srcva < UTOP \<and> dstva < UTOP \<and> length fl < 3 \<and> refused sl ow s fl ow' s1 fl')"
    proof (cases "srcva < UTOP")
      case True
      then have src': "env_pml4e (envs s c) = Some (r, 0)" "root_ok sl ow r srcva" "srcva mod PGSIZE = 0" "\<not> perm_bad perm"
        using src 4(3) by (simp_all add: perm_bad_bits)
      show ?thesis
        using ipc_send_page_memory [OF wf cur src' m target(3) [symmetric] dst again] True
        unfolding sp_def by (simp only: if_True simp_thms)
    next
      case False
      then show ?thesis using refused_refl [OF wf] unfolding sp_def
        by (intro exI [of _ 0] exI [of _ s] exI [of _ ow] exI [of _ fl]) simp
    qed
    then obtain r1 s1 ow' fl' where sp: "sp = Inr (r1, s1)"
      and out: "if srcva < UTOP \<and> send_invalid s r srcva perm dstva then r1 = - E_INVAL \<and> refused sl ow s fl ow' s1 fl'
       else if r1 = 0 then
         (if srcva < UTOP \<and> dstva < UTOP then let pp = the (old_page s r srcva) in
            puts sl ow s fl r' dstva (page2pa pp OR scast (perm OR 1)) ow' s1 fl' \<and>
            (\<forall>p. p \<notin> set fl \<longrightarrow> pp_ref (pages s1 p) =
               pp_ref (pages s p) - (if old_page s r' dstva = Some p then 1 else 0) + (if p = pp then 1 else 0))
          else refused sl ow s fl ow' s1 fl')
       else r1 = - E_NO_MEM \<and> srcva < UTOP \<and> dstva < UTOP \<and> length fl < 3 \<and> refused sl ow s fl ow' s1 fl'"
      by (elim exE conjE) (rule that)
    have cur1: "curenv s1 = Some c"
      using sp ipc_send_page_envs [of t srcva perm s r1 s1] cur
      by (auto simp: sp_def same_envs_def curenv_def split: if_splits)
    let ?u = "upd_env t (\<lambda>x. x\<lparr>env_ipc_recving := False\<rparr>) s1"
    define s2 where "s2 = (if r1 < 0 then s1 else upd_env t (\<lambda>x. x\<lparr>env_ipc_from := env_id (envs ?u c),
        env_ipc_value := val, env_status := ENV_RUNNABLE,
        env_tf := (env_tf x)\<lparr>tf_regs := (tf_regs (env_tf x))\<lparr>reg_rax := 0\<rparr>\<rparr>\<rparr>) ?u)"
    have "sys_getenvid ?u = Inr (env_id (envs ?u c), ?u)"
      using cur1 by (simp add: sys_getenvid_def upd_env_def curenv_def)
    then have run: "?call = Inr (if r1 < 0 then r1 else 0, s2)"
      using target(1,2) 4(1,2) sp by (simp add: sys_ipc_try_send_def sp_def [symmetric] s2_def)
    have ec: "ec = 0" using envid2env_code [OF target(1)] 4(1) by simp
    have envs2: "if r1 < 0 then envs s2 = envs s else
        envs s2 = (envs s)(t := delivered (srcva < UTOP \<and> dstva < UTOP) perm val (env_id (envs s c)) (envs s t))"
      using sys_ipc_try_send_envs [OF run] target ec cur by (auto split: if_splits)
    have cong: "refused sl ow s fl ow' s2 fl' = refused sl ow s fl ow' s1 fl'"
      "puts sl ow s fl r' dstva e ow' s2 fl' = puts sl ow s fl r' dstva e ow' s1 fl'" "pages s2 = pages s1" for e
      using refused_cong [of s2 s1] by (simp_all add: s2_def upd_env_def)
    have entry: "page2pa pp OR scast (perm OR 1) = page2pa pp OR ucast perm"
        "unat (PPN (page2pa pp OR ucast perm)) = pp"
      if "srcva < UTOP" "pp = the (old_page s r srcva)" "mapping s r srcva \<noteq> None" for pp
    proof -
      have "perm AND ucast PTE_P \<noteq> 0" "perm AND NOT (ucast PTE_SYSCALL) = 0"
        using that(1) 4(3) src by simp_all
      moreover have "pp < 2 ^ 32" using that m pt_wf_npages [OF wf] by (fastforce simp: old_page_def)
      ultimately show "page2pa pp OR scast (perm OR 1) = page2pa pp OR ucast perm"
          "unat (PPN (page2pa pp OR ucast perm)) = pp"
        using legal_entry by blast+
    qed
    have mapped: "mapping s r srcva \<noteq> None" if "\<not> send_invalid s r srcva perm dstva"
      using that by (cases "mapping s r srcva") (simp_all add: send_invalid_def)
    have rest: "if srcva < UTOP \<and> send_invalid s r srcva perm dstva then
         (if r1 < 0 then r1 else 0) = - E_INVAL \<and> envs s2 = envs s \<and> refused sl ow s fl ow' s2 fl'
       else if (if r1 < 0 then r1 else 0) = 0 then
         envs s2 = (envs s)(t := delivered (srcva < UTOP \<and> dstva < UTOP) perm val (env_id (envs s c)) (envs s t)) \<and>
         (if srcva < UTOP \<and> dstva < UTOP then let pp = the (old_page s r srcva); e = page2pa pp OR ucast perm in
            puts sl ow s fl r' dstva e ow' s2 fl' \<and> mapping s2 r' dstva = Some e \<and> unat (PPN e) = pp \<and>
            (\<forall>p. p \<notin> set fl \<longrightarrow> pp_ref (pages s2 p) =
               pp_ref (pages s p) - (if old_page s r' dstva = Some p then 1 else 0) + (if p = pp then 1 else 0))
          else refused sl ow s fl ow' s2 fl')
       else (if r1 < 0 then r1 else 0) = - E_NO_MEM \<and> srcva < UTOP \<and> dstva < UTOP \<and> length fl < 3 \<and>
         envs s2 = envs s \<and> refused sl ow s fl ow' s2 fl'"
    proof (cases "srcva < UTOP \<and> send_invalid s r srcva perm dstva")
      case True
      then show ?thesis using out envs2 cong(1) by (simp only: if_True) (simp add: E_INVAL_def)
    next
      case no: False
      show ?thesis
      proof (cases "r1 = 0")
        case True
        show ?thesis
        proof (cases "srcva < UTOP \<and> dstva < UTOP")
          case both: True
          then have "mapping s r srcva \<noteq> None" using no mapped by blast
          note en = entry [OF conjunct1 [OF both] refl this]
          have "puts sl ow s fl r' dstva e ow' s2 fl' \<Longrightarrow> mapping s2 r' dstva = Some e" for e
            by (simp add: puts_def)
          then show ?thesis
            using out no True both envs2 cong(2,3) en by (simp add: Let_def)
        next
          case False
          have "refused sl ow s fl ow' s1 fl'"
            using out unfolding if_not_P [OF no] if_P [OF True] if_not_P [OF False] .
          moreover have "envs s2 = (envs s)(t := delivered (srcva < UTOP \<and> dstva < UTOP) perm val (env_id (envs s c)) (envs s t))"
            using envs2 True by simp
          ultimately show ?thesis
            using True cong(1) unfolding if_not_P [OF no] if_not_P [OF False] by simp
        qed
      next
        case False
        then show ?thesis using out no envs2 cong(1) by (auto simp: E_NO_MEM_def split: if_splits)
      qed
    qed
    show ?thesis
      unfolding if_not_P [OF 4(1)] if_not_P [OF 4(2)] if_not_P [OF 4(3)]
      by (rule exI, rule exI [of _ s2], rule exI [of _ ow'], rule exI [of _ fl'], rule conjI [OF run rest])
  qed
qed

theorem sys_ipc_try_send_correct_witness:
  "\<exists>s'. sys_ipc_try_send 0x1001 42 0x2000 7 call_sample = Inr (0, s') \<and>
     env_ipc_value (envs s' 1) = 42 \<and> env_ipc_from (envs s' 1) = 0x1000 \<and>
     env_status (envs s' 1) = ENV_RUNNABLE \<and> mapping s' 2 0x200000 = Some (page2pa 6 OR 7)"
proof -
  have rep: "replaceable sample_ow call_sample [7, 8, 9, 10] 2 0x200000" "old_page call_sample 2 0x200000 = None"
    by (simp_all add: replaceable_def old_page_def call_sample_va)
  have old: "old_page call_sample 2 0x2000 = Some 6"
    by (simp add: old_page_def call_sample_va PPN_numeral)
  have perm: "(7 :: u32) AND NOT (ucast PTE_SYSCALL) = 0" by (simp add: mmu_defs)
  have env: "env_pml4e (envs call_sample 0) = Some (2, 0)" "env_pml4e (envs call_sample 1) = Some (2, 0)"
    "0x200000 = env_ipc_dstva (envs call_sample 1)" by simp_all
  have src: "first_nonzero call_sample 2 0x2000 \<and> unat (PPN m) < npages call_sample \<and>
      unat (PPN m) \<notin> set [7, 8, 9, 10]" if "mapping call_sample 2 0x2000 = Some m" for m
    using that call_sample_va by (auto simp: PPN_numeral)
  have no: "\<not> (0 :: int) < 0" "\<not> \<not> env_ipc_recving (envs call_sample 1)"
    "\<not> ((0x2000 :: u64) < UTOP \<and> ((0x2000 :: u64) mod PGSIZE \<noteq> 0 \<or> (7 :: u32) AND ucast PTE_U = 0 \<or>
        (7 :: u32) AND ucast PTE_P = 0))"
    "\<not> ((0x2000 :: u64) < UTOP \<and> send_invalid call_sample 2 0x2000 7 0x200000)"
    and yes: "(0x2000 :: u64) < UTOP \<and> (0x200000 :: u64) < UTOP"
    by (simp_all add: mmu_defs send_invalid_def call_sample_va)
  note correct = sys_ipc_try_send_correct [where envid = "0x1001" and s = call_sample and t = 1 and c = 0 and
      srcva = "0x2000" and perm = 7 and val = 42 and r = 2 and r' = 2, OF call_sample_wf call_sample_env(2) refl env(3) _
      conjI [OF env(1) conjI [OF sample_root perm]] src conjI [OF env(2) conjI [OF call_sample_va(4) rep(1)]],
      unfolded if_not_P [OF no(1)] if_not_P [OF no(2)] if_not_P [OF no(3)] if_not_P [OF no(4)] if_P [OF yes]
        old rep(2) Let_def option.sel]
  obtain rc s' where out: "sys_ipc_try_send 0x1001 42 0x2000 7 call_sample = Inr (rc, s')"
      "if rc = 0 then envs s' = (envs call_sample)(1 := delivered ((0x2000 :: u64) < UTOP \<and> (0x200000 :: u64) < UTOP) 7 42
           (env_id (envs call_sample 0)) (envs call_sample 1)) \<and> mapping s' 2 0x200000 = Some (page2pa 6 OR ucast (7 :: u32))
       else length [7, 8, 9, 10 :: nat] < 3"
    using correct by (auto split: if_splits)
  then have "rc = 0" by (cases "rc = 0") simp_all
  with out show ?thesis by (simp add: delivered_def)
qed

section \<open>Forking\<close>

text \<open>The child of \<open>sys_exofork\<close>: a new environment with the registers of the caller, except that
  the call returns 0 in the child.\<close>

definition exo_child :: "nat \<Rightarrow> nat \<Rightarrow> nat \<Rightarrow> kstate \<Rightarrow> Env" where
  "exo_child c e x s = (alloced (env_id (envs s c)) e x (envs s e))\<lparr>
     env_status := ENV_NOT_RUNNABLE,
     env_tf := (env_tf (envs s c))\<lparr>tf_regs := (tf_regs (env_tf (envs s c)))\<lparr>reg_rax := 0\<rparr>\<rparr>\<rparr>"

lemma sys_exofork_ok:
  assumes "env_free_list s = Some e" "alloc_inv s (x # fl)" "boot_pml4e s = (b, 0)" "b \<noteq> x"
    and "curenv s = Some c" "c \<noteq> e"
  shows "\<exists>s'. sys_exofork s = Inr (sint (next_id (env_id (envs s e)) e), s') \<and>
     envs s' = (envs s)(e := exo_child c e x s) \<and> cpus s' = cpus s \<and> cpu s' = cpu s"
proof -
  obtain s1 where s1: "env_alloc (env_id (envs s c)) s = Inr ((0, Some e), s1)"
      "envs s1 = (envs s)(e := alloced (env_id (envs s c)) e x (envs s e))"
      "cpus s1 = cpus s" "cpu s1 = cpu s"
    using env_alloc_ok [OF assms(1-4)] by blast
  let ?s' = "s1\<lparr>envs := (envs s)(e := exo_child c e x s)\<rparr>"
  have "sys_exofork s = Inr (sint (next_id (env_id (envs s e)) e), ?s')"
    using assms(5,6) s1 by (simp add: sys_exofork_def upd_env_def exo_child_def alloced_def Let_def)
  with s1 show ?thesis by auto
qed

text \<open>C23: A fork in two calls. With a free slot and a free page \<open>sys_exofork\<close> returns the
  positive id of a new environment that is a child of the caller, has the caller's
  registers with 0 as the result of the call, and cannot run; no other environment changes.
  The id then names the child to the caller: \<open>sys_env_set_status\<close> makes it
  runnable, and a status other than runnable or not runnable is refused without effect.\<close>

theorem exofork_then_set_status:
  assumes inv: "env_inv s (e # es)" and free: "alloc_inv s (x # fl)"
    and boot: "boot_pml4e s = (b, 0)" "b \<noteq> x" and cur: "curenv s = Some c" "c \<noteq> e"
  shows "\<exists>i s' s''. sys_exofork s = Inr (sint i, s') \<and> 0 < sint i \<and>
     envs s' = (envs s)(e := exo_child c e x s) \<and> env_id (envs s' e) = i \<and>
     env_parent_id (envs s' e) = env_id (envs s c) \<and>
     sys_env_set_status i 2 s' = Inr (0, s'') \<and>
     envs s'' = (envs s')(e := (envs s' e)\<lparr>env_status := ENV_RUNNABLE\<rparr>) \<and>
     (\<forall>n. n \<noteq> 2 \<and> n \<noteq> 4 \<longrightarrow> sys_env_set_status i n s' = Inr (- E_INVAL, s'))"
proof -
  have ef: "env_free_list s = Some e" and e: "e < NENV"
    using inv by (auto simp: env_inv_def efreelist_def)
  let ?i = "next_id (env_id (envs s e)) e"
  have "slot_id e (env_id (envs s e)) \<or> env_id (envs s e) = 0"
    using inv e by (auto simp: env_inv_def)
  note id = slot_id_facts [OF slot_id_next [OF this e] e]
  obtain s' where s': "sys_exofork s = Inr (sint ?i, s')" "envs s' = (envs s)(e := exo_child c e x s)"
      "cpus s' = cpus s" "cpu s' = cpu s"
    using sys_exofork_ok [OF ef free boot cur] by blast
  have child: "env_id (envs s' e) = ?i" "env_parent_id (envs s' e) = env_id (envs s c)"
    "env_status (envs s' e) \<noteq> ENV_FREE" "env_id (envs s' c) = env_id (envs s c)"
    using s'(2) cur(2) by (simp_all add: exo_child_def alloced_def)
  have "curenv s' = Some c" using s'(3,4) cur(1) by (simp add: curenv_def)
  then have found: "envid2env ?i True s' = Inr ((0, Some e), s')"
    using id child cur(2) by (simp add: envid2env_def Let_def)
  let ?s'' = "upd_env e (\<lambda>x. x\<lparr>env_status := ENV_RUNNABLE\<rparr>) s'"
  have "sys_env_set_status ?i 2 s' = Inr (0, ?s'')"
    using found by (simp add: sys_env_set_status_def status_of_int_def)
  moreover have "sys_env_set_status ?i n s' = Inr (- E_INVAL, s')" if "n \<noteq> 2 \<and> n \<noteq> 4" for n
    using found that by (simp add: sys_env_set_status_def status_of_int_def)
  moreover have "envs ?s'' = (envs s')(e := (envs s' e)\<lparr>env_status := ENV_RUNNABLE\<rparr>)"
    by (simp add: upd_env_def)
  ultimately show ?thesis using s'(1,2) id(3) child(1,2) by blast
qed

theorem exofork_then_set_status_witness:
  "\<exists>i s' s''. sys_exofork (life_sample\<lparr>cpus := (\<lambda>_. zero_cpu\<lparr>cpu_env := Some 0\<rparr>)\<rparr>) = Inr (sint i, s') \<and>
     sys_env_set_status i 2 s' = Inr (0, s'') \<and> env_status (envs s'' 3) = ENV_RUNNABLE"
proof -
  let ?s = "life_sample\<lparr>cpus := (\<lambda>_. zero_cpu\<lparr>cpu_env := Some 0\<rparr>)\<rparr>"
  have inv: "env_inv ?s (3 # [4..<NENV])"
    using life_sample_inv by (subst env_inv_cong [of _ life_sample]) simp_all
  have al: "alloc_inv ?s (7 # [8, 9])"
    using pt_wfD(1) [OF life_sample_wf] by (subst alloc_inv_cong [of _ life_sample]) simp_all
  have b: "boot_pml4e ?s = (2, 0)" "curenv ?s = Some 0" by (simp_all add: life_sample_def curenv_def)
  obtain i s' s'' where f: "sys_exofork ?s = Inr (sint i, s')" "sys_env_set_status i 2 s' = Inr (0, s'')"
      "envs s'' = (envs s')(3 := (envs s' 3)\<lparr>env_status := ENV_RUNNABLE\<rparr>)"
    using exofork_then_set_status [OF inv al b(1) _ b(2)] by auto
  have "env_status (envs s'' 3) = ENV_RUNNABLE" by (simp add: f(3))
  with f(1,2) show ?thesis by blast
qed

end
