(* ===== verification/Lapic.thy ===== *)
theory Lapic
  imports Env
begin

text \<open>
  Processor discovery and the local APIC: \<open>kern/mpconfig.c\<close>, \<open>kern/lapic.c\<close> and
  \<open>kern/kclock.c\<close>. The MP tables are read byte by byte from physical memory; the fields of the
  packed structs \<open>mp\<close>, \<open>mpconf\<close> and \<open>mpproc\<close> are given by their offsets. Writes to the APIC
  registers go to the log \<open>lapicws\<close>. Shown: whatever the tables contain, the number of processors
  stays within the array \<open>cpus\<close> and the local numbers are their indices.
\<close>

section \<open>Bytes of physical memory\<close>

definition pbyte :: "kstate \<Rightarrow> nat \<Rightarrow> u8" where
  "pbyte s pa = get_byte (mem s (pa div 4096) (pa mod 4096 div 8)) (pa mod 8)"

definition pbytes :: "kstate \<Rightarrow> nat \<Rightarrow> nat \<Rightarrow> u64" where
  "pbytes s pa n = rd_le (\<lambda>i. pbyte s (pa + i)) 0 n"

definition pstore :: "nat \<Rightarrow> u8 \<Rightarrow> kstate \<Rightarrow> kstate" where
  "pstore pa b s =
     (let a = (pa div 4096, pa mod 4096 div 8) in st a (put_byte (ld s a) (pa mod 8) b) s)"

definition port_out :: "u32 \<Rightarrow> u8 \<Rightarrow> kstate \<Rightarrow> kstate" where
  "port_out port v s = s\<lparr>console := outb port v (console s)\<rparr>"

definition port_in :: "u32 \<Rightarrow> kstate \<Rightarrow> u8 \<times> kstate" where
  "port_in port s = (let (v, c) = inb port (console s) in (v, s\<lparr>console := c\<rparr>))"

section \<open>kern/kclock.c\<close>

definition mc146818_read :: "u32 \<Rightarrow> kstate \<Rightarrow> u32 \<times> kstate" where
  "mc146818_read reg s =
     (let (v, s) = port_in (IO_RTC + 1) (port_out IO_RTC (ucast reg) s) in (ucast v, s))"

definition mc146818_write :: "u32 \<Rightarrow> u32 \<Rightarrow> kstate \<Rightarrow> kstate" where
  "mc146818_write reg datum s =
     port_out (IO_RTC + 1) (ucast datum) (port_out IO_RTC (ucast reg) s)"

section \<open>kern/mpconfig.c\<close>

definition mp_physaddr :: "kstate \<Rightarrow> nat \<Rightarrow> u32" where "mp_physaddr s mp = ucast (pbytes s (mp + 4) 4)"
definition mp_type :: "kstate \<Rightarrow> nat \<Rightarrow> u8" where "mp_type s mp = pbyte s (mp + 11)"
definition mp_imcrp :: "kstate \<Rightarrow> nat \<Rightarrow> u8" where "mp_imcrp s mp = pbyte s (mp + 12)"
definition conf_length :: "kstate \<Rightarrow> nat \<Rightarrow> u16" where "conf_length s c = ucast (pbytes s (c + 4) 2)"
definition conf_version :: "kstate \<Rightarrow> nat \<Rightarrow> u8" where "conf_version s c = pbyte s (c + 6)"
definition conf_entry :: "kstate \<Rightarrow> nat \<Rightarrow> u16" where "conf_entry s c = ucast (pbytes s (c + 34) 2)"
definition conf_lapicaddr :: "kstate \<Rightarrow> nat \<Rightarrow> u32" where "conf_lapicaddr s c = ucast (pbytes s (c + 36) 4)"
definition conf_xlength :: "kstate \<Rightarrow> nat \<Rightarrow> u16" where "conf_xlength s c = ucast (pbytes s (c + 40) 2)"
definition conf_xchecksum :: "kstate \<Rightarrow> nat \<Rightarrow> u8" where "conf_xchecksum s c = pbyte s (c + 42)"
definition proc_apicid :: "kstate \<Rightarrow> nat \<Rightarrow> u8" where "proc_apicid s p = pbyte s (p + 1)"
definition proc_version :: "kstate \<Rightarrow> nat \<Rightarrow> u8" where "proc_version s p = pbyte s (p + 2)"
definition proc_flags :: "kstate \<Rightarrow> nat \<Rightarrow> u8" where "proc_flags s p = pbyte s (p + 3)"
definition proc_feature :: "kstate \<Rightarrow> nat \<Rightarrow> u32" where "proc_feature s p = ucast (pbytes s (p + 8) 4)"

definition MPROC_EN :: u8 where "MPROC_EN = 0x01"
definition MPPROC_BOOT :: u8 where "MPPROC_BOOT = 0x02"

text \<open>The sum is returned as a byte.\<close>

definition sum :: "kstate \<Rightarrow> nat \<Rightarrow> nat \<Rightarrow> u8" where
  "sum s a len = sum_list (map (\<lambda>i. pbyte s (a + i)) [0..<len])"

definition signature_at :: "kstate \<Rightarrow> nat \<Rightarrow> string \<Rightarrow> bool" where
  "signature_at s a sig \<longleftrightarrow> map (\<lambda>i. pbyte s (a + i)) [0..<length sig] = map of_char sig"

fun mpsearch1_loop :: "nat \<Rightarrow> nat \<Rightarrow> kstate \<Rightarrow> nat option" where
  "mpsearch1_loop 0 mp s = None"
| "mpsearch1_loop (Suc n) mp s =
     (if signature_at s mp ''_MP_'' \<and> sum s mp 16 = 0 then Some mp
      else mpsearch1_loop n (mp + 16) s)"

text \<open>The loop visits the multiples of 16 below \<open>len\<close>; \<open>KADDR\<close> checks both ends.\<close>

definition mpsearch1 :: "u64 \<Rightarrow> nat \<Rightarrow> kstate \<Rightarrow> nat option res" where
  "mpsearch1 a len s =
     bindK (KADDR a s) (\<lambda>_ s. bindK (KADDR (a + of_nat len) s) (\<lambda>_ s.
       Inr (mpsearch1_loop ((len + 15) div 16) (unat a) s, s)))"

definition mpsearch :: "kstate \<Rightarrow> nat option res" where
  "mpsearch s =
     bindK (KADDR (push_bit 4 0x40) s) (\<lambda>_ s.
       let bda = 0x400;
           p = (ucast (pbytes s (bda + 0x0E) 2) :: u32)
       in bindK
            (if p \<noteq> 0 then mpsearch1 (ucast (push_bit 4 p)) 1024 s
             else
               let q = (ucast (pbytes s (bda + 0x13) 2) * 1024 :: u32)
               in mpsearch1 (ucast (q - 1024)) 1024 s) (\<lambda>mp s.
          case mp of Some a \<Rightarrow> Inr (Some a, s) | None \<Rightarrow> mpsearch1 0xF0000 0x10000 s))"

definition mpconfig :: "kstate \<Rightarrow> (nat \<times> nat) option res" where
  "mpconfig s =
     bindK (mpsearch s) (\<lambda>mp s.
       case mp of
         None \<Rightarrow> Inr (None, s)
       | Some mp \<Rightarrow>
           if mp_physaddr s mp = 0 \<or> mp_type s mp \<noteq> 0 then
             Inr (None, cprintf ''SMP: Default configurations not implemented'' [] s)
           else
             bindK (KADDR (ucast (mp_physaddr s mp)) s) (\<lambda>_ s.
               let conf = unat (mp_physaddr s mp) in
               if \<not> signature_at s conf ''PCMP'' then
                 Inr (None, cprintf ''SMP: Incorrect MP configuration table signature'' [] s)
               else if sum s conf (unat (conf_length s conf)) \<noteq> 0 then
                 Inr (None, cprintf ''SMP: Bad MP configuration checksum'' [] s)
               else if conf_version s conf \<noteq> 1 \<and> conf_version s conf \<noteq> 4 then
                 Inr (None, cprintf ''SMP: Unsupported MP version %d'' [ucast (conf_version s conf)] s)
               else if sum s (conf + unat (conf_length s conf)) (unat (conf_xlength s conf))
                       \<noteq> conf_xchecksum s conf then
                 Inr (None, cprintf ''SMP: Bad MP configuration extended checksum'' [] s)
               else Inr (Some (mp, conf), s)))"

definition mp_proc :: "nat \<Rightarrow> kstate \<Rightarrow> kstate" where
  "mp_proc p s =
     (let s = (if proc_flags s p AND MPPROC_BOOT \<noteq> 0
               then cprintf ''Found boot cpu..'' [] (s\<lparr>bootcpu := ncpu s\<rparr>) else s)
      in if ncpu s < NCPU then
           let s = cprintf ''type: %d apicid:%d version:%d signature:%x feature:%x flags:%x reserved:%x''
                     [0, ucast (proc_apicid s p), ucast (proc_version s p), of_nat (p + 4),
                      ucast (proc_feature s p), ucast (proc_flags s p), of_nat (p + 12)] s
           in if proc_flags s p AND MPROC_EN \<noteq> 0 then
                s\<lparr>cpus := (cpus s)(ncpu s := (cpus s (ncpu s))\<lparr>cpu_id := of_nat (ncpu s)\<rparr>),
                  ncpu := ncpu s + 1\<rparr>
              else cprintf ''Found unusable CPU. Not intiializing it..'' [] s
         else cprintf ''SMP: too many CPUs, CPU %d disabled'' [ucast (proc_apicid s p)] s)"

text \<open>The loop over the table entries, with \<open>n\<close> entries left and \<open>p\<close> the address of the next.\<close>

fun mp_entries :: "nat \<Rightarrow> nat \<Rightarrow> kstate \<Rightarrow> kstate" where
  "mp_entries 0 p s = s"
| "mp_entries (Suc n) p s =
     (if pbyte s p = 0 then mp_entries n (p + 20) (mp_proc p s)
      else if pbyte s p \<le> 4 then mp_entries n (p + 8) s
      else (cprintf ''mpinit: unknown config type %x'' [ucast (pbyte s p)] s)\<lparr>ismp := False\<rparr>)"

definition mp_init :: "kstate \<Rightarrow> unit res" where
  "mp_init s =
     bindK (mpconfig (s\<lparr>bootcpu := 0\<rparr>)) (\<lambda>found s.
       case found of
         None \<Rightarrow> Inr ((), s)
       | Some (mp, conf) \<Rightarrow>
           let s = s\<lparr>ismp := True, lapicaddr := ucast (conf_lapicaddr s conf)\<rparr>;
               s = mp_entries (unat (conf_entry s conf)) (conf + 44) s;
               s = s\<lparr>cpus := (cpus s)(bootcpu s := (cpus s (bootcpu s))\<lparr>cpu_status := CPU_STARTED\<rparr>)\<rparr>
           in if \<not> ismp s then
                Inr ((), cprintf ''SMP: configuration not found, SMP disabled'' []
                           (s\<lparr>ncpu := 1, lapicaddr := 0\<rparr>))
              else
                let s = cprintf ''SMP: CPU %d found %d CPU(s)''
                          [ucast (cpu_id (cpus s (bootcpu s))), of_nat (ncpu s)] s
                in if mp_imcrp s mp \<noteq> 0 then
                     let s = cprintf ''SMP: Setting IMCR to switch from PIC mode to symmetric I/O mode'' [] s;
                         (v, s) = port_in 0x23 (port_out 0x22 0x70 s)
                     in Inr ((), port_out 0x23 (v OR 1) s)
                   else Inr ((), s))"

section \<open>kern/lapic.c\<close>

definition ID :: u32 where "ID = 0x0020 div 4"
definition VER :: u32 where "VER = 0x0030 div 4"
definition TPR :: u32 where "TPR = 0x0080 div 4"
definition EOI :: u32 where "EOI = 0x00B0 div 4"
definition SVR :: u32 where "SVR = 0x00F0 div 4"
definition ENABLE :: u32 where "ENABLE = 0x00000100"
definition ESR :: u32 where "ESR = 0x0280 div 4"
definition ICRLO :: u32 where "ICRLO = 0x0300 div 4"
definition INIT :: u32 where "INIT = 0x00000500"
definition STARTUP :: u32 where "STARTUP = 0x00000600"
definition ASSERT :: u32 where "ASSERT = 0x00004000"
definition LEVEL :: u32 where "LEVEL = 0x00008000"
definition BCAST :: u32 where "BCAST = 0x00080000"
definition OTHERS :: u32 where "OTHERS = 0x000C0000"
definition FIXED :: u32 where "FIXED = 0x00000000"
definition ICRHI :: u32 where "ICRHI = 0x0310 div 4"
definition TIMER :: u32 where "TIMER = 0x0320 div 4"
definition X1 :: u32 where "X1 = 0x0000000B"
definition PERIODIC :: u32 where "PERIODIC = 0x00020000"
definition PCINT :: u32 where "PCINT = 0x0340 div 4"
definition LINT0 :: u32 where "LINT0 = 0x0350 div 4"
definition LINT1 :: u32 where "LINT1 = 0x0360 div 4"
definition ERROR :: u32 where "ERROR = 0x0370 div 4"
definition MASKED :: u32 where "MASKED = 0x00010000"
definition TICR :: u32 where "TICR = 0x0380 div 4"
definition TDCR :: u32 where "TDCR = 0x03E0 div 4"

definition IRQ_TIMER :: nat where "IRQ_TIMER = 0"
definition IRQ_KBD :: nat where "IRQ_KBD = 1"
definition IRQ_SERIAL :: nat where "IRQ_SERIAL = 4"
definition IRQ_SPURIOUS :: nat where "IRQ_SPURIOUS = 7"
definition IRQ_IDE :: nat where "IRQ_IDE = 14"
definition IRQ_ERROR :: nat where "IRQ_ERROR = 19"

definition lapicw :: "u32 \<Rightarrow> u32 \<Rightarrow> kstate \<Rightarrow> unit res" where
  "lapicw index v s =
     bindK (deref (lapic s) s) (\<lambda>_ s. Inr ((), s\<lparr>lapicws := (cpu s, index, v) # lapicws s\<rparr>))"

fun lapicw_all :: "(u32 \<times> u32) list \<Rightarrow> kstate \<Rightarrow> unit res" where
  "lapicw_all [] s = Inr ((), s)"
| "lapicw_all ((i, v) # ws) s = bindK (lapicw i v s) (\<lambda>_ s. lapicw_all ws s)"

text \<open>The delivery-status bit clears by itself, so waiting for it has no effect on the state.\<close>

definition lapic_init :: "kstate \<Rightarrow> unit res" where
  "lapic_init s =
     (if lapicaddr s = 0 then Inr ((), s)
      else
        bindK (mmio_map_region (lapicaddr s) 4096 s) (\<lambda>va s.
          lapicw_all
            ([(SVR, ENABLE OR of_nat (IRQ_OFFSET + IRQ_SPURIOUS)),
              (TDCR, X1), (TIMER, PERIODIC OR of_nat (IRQ_OFFSET + IRQ_TIMER)), (TICR, 10000000)] @
             (if cpu s \<noteq> bootcpu s then [(LINT0, MASKED)] else []) @
             [(LINT1, MASKED)] @
             (if 4 \<le> drop_bit 16 (lapic_ver s) AND 0xFF then [(PCINT, MASKED)] else []) @
             [(ERROR, of_nat (IRQ_OFFSET + IRQ_ERROR)), (ESR, 0), (ESR, 0), (EOI, 0),
              (ICRHI, 0), (ICRLO, BCAST OR INIT OR LEVEL), (TPR, 0)])
            (s\<lparr>lapic := Some va\<rparr>)))"

definition cpunum :: "kstate \<Rightarrow> nat" where
  "cpunum s = (if lapic s \<noteq> None then cpu s else 0)"

definition lapic_eoi :: "kstate \<Rightarrow> unit res" where
  "lapic_eoi s = (if lapic s \<noteq> None then lapicw EOI 0 s else Inr ((), s))"

definition lapic_startap :: "u8 \<Rightarrow> u32 \<Rightarrow> kstate \<Rightarrow> unit res" where
  "lapic_startap apicid addr s =
     (let s = port_out (IO_RTC + 1) 0x0A (port_out IO_RTC 0xF s) in
      bindK (KADDR (push_bit 4 0x40 OR 0x67) s) (\<lambda>_ s.
        let w1 = (ucast (drop_bit 4 addr) :: u16);
            s = pstore 0x468 0 (pstore 0x467 0 s);
            s = pstore 0x46A (ucast (drop_bit 8 w1)) (pstore 0x469 (ucast w1) s)
        in lapicw_all
             ([(ICRHI, push_bit 24 (ucast apicid)), (ICRLO, INIT OR LEVEL OR ASSERT),
               (ICRLO, INIT OR LEVEL)] @
              concat (replicate 2 [(ICRHI, push_bit 24 (ucast apicid)),
                                   (ICRLO, STARTUP OR drop_bit 12 addr)])) s))"

definition lapic_ipi :: "u32 \<Rightarrow> kstate \<Rightarrow> unit res" where
  "lapic_ipi vector s = lapicw ICRLO (OTHERS OR FIXED OR vector) s"

section \<open>The processor table\<close>

lemma KADDR_state: "KADDR pa s = Inr (x, s') \<Longrightarrow> s' = s"
  by (auto simp: KADDR_def panic_def Let_def split: if_splits)

lemma mpsearch1_state: "mpsearch1 a len s = Inr (x, s') \<Longrightarrow> s' = s"
  by (auto simp: mpsearch1_def bindK_Inr_iff dest!: KADDR_state)

lemma mpsearch_state: "mpsearch s = Inr (x, s') \<Longrightarrow> s' = s"
  by (auto simp: mpsearch_def bindK_Inr_iff Let_def dest!: KADDR_state mpsearch1_state
      split: if_splits option.splits)

text \<open>The processors found so far are numbered by their index and fit into the array.\<close>

definition cpus_ok :: "kstate \<Rightarrow> bool" where
  "cpus_ok s \<longleftrightarrow> ncpu s \<le> NCPU \<and> bootcpu s \<le> NCPU \<and>
     (\<forall>i. i = 0 \<or> i < ncpu s \<longrightarrow> cpu_id (cpus s i) = of_nat i)"

lemma cpus_ok_frame [simp]:
  "cpus_ok (cprintf f xs s) = cpus_ok s" "cpus_ok (s\<lparr>ismp := b\<rparr>) = cpus_ok s"
  "cpus_ok (s\<lparr>lapicaddr := a\<rparr>) = cpus_ok s" "cpus_ok (port_out p v s) = cpus_ok s"
  "cpus_ok (s\<lparr>console := c\<rparr>) = cpus_ok s"
  by (simp_all add: cpus_ok_def cprintf_def port_out_def)

lemma cpus_ok_mp_proc: "cpus_ok s \<Longrightarrow> cpus_ok (mp_proc p s)"
  by (auto simp: cpus_ok_def mp_proc_def Let_def cprintf_def less_Suc_eq proc_flags_def)

lemma cpus_ok_mp_entries: "cpus_ok s \<Longrightarrow> cpus_ok (mp_entries n p s)"
  by (induction n p s rule: mp_entries.induct) (auto simp: cpus_ok_mp_proc)

lemma mpconfig_frame:
  assumes "mpconfig s = Inr (x, s')"
  shows "cpus_ok s' = cpus_ok s"
proof -
  obtain mp where mp: "mpsearch s = Inr (mp, s)"
    using assms mpsearch_state by (auto simp: mpconfig_def bindK_Inr_iff)
  show ?thesis
  proof (cases mp)
    case None
    with assms mp show ?thesis by (simp add: mpconfig_def)
  next
    case (Some a)
    show ?thesis
    proof (cases "mp_physaddr s a = 0 \<or> mp_type s a \<noteq> 0")
      case True
      with assms mp Some show ?thesis by (auto simp: mpconfig_def)
    next
      case False
      then obtain z where "KADDR (ucast (mp_physaddr s a)) s = Inr (z, s)"
        using assms mp Some KADDR_state by (fastforce simp: mpconfig_def bindK_Inr_iff)
      with assms mp Some False show ?thesis
        by (simp add: mpconfig_def Let_def split: if_split_asm) auto
    qed
  qed
qed

text \<open>C24: Whatever bytes the MP tables hold (entry count, types and flags included), if
  \<open>mp_init\<close> returns, the number of processors is at most \<open>NCPU\<close> and each has its index in
  \<open>cpus\<close> as its number. The index of the boot processor is bounded by \<open>NCPU\<close> only: a table that
  flags a ninth processor makes \<open>bootcpu\<close> point just behind the array.\<close>

theorem mp_init_bounds:
  assumes "ncpu s = 0" "cpu_id (cpus s 0) = 0" and "mp_init s = Inr ((), s')"
  shows "ncpu s' \<le> NCPU \<and> bootcpu s' \<le> NCPU \<and>
    (\<forall>i < ncpu s'. cpu_id (cpus s' i) = of_nat i)"
proof -
  have start: "cpus_ok (s\<lparr>bootcpu := 0\<rparr>)" using assms(1,2) by (simp add: cpus_ok_def)
  obtain found s1 where f: "mpconfig (s\<lparr>bootcpu := 0\<rparr>) = Inr (found, s1)"
    using assms(3) by (auto simp: mp_init_def bindK_Inr_iff)
  have ok1: "cpus_ok s1" using start mpconfig_frame [OF f] by simp
  have "cpus_ok s'"
  proof (cases found)
    case None
    with assms(3) f ok1 show ?thesis by (simp add: mp_init_def)
  next
    case (Some a)
    obtain mp conf where a: "a = (mp, conf)" by (cases a)
    define s2 where "s2 = mp_entries (unat (conf_entry s1 conf)) (conf + 44)
        (s1\<lparr>ismp := True, lapicaddr := ucast (conf_lapicaddr s1 conf)\<rparr>)"
    have "cpus_ok (s1\<lparr>ismp := True, lapicaddr := ucast (conf_lapicaddr s1 conf)\<rparr>)"
      using ok1 by (simp add: cpus_ok_def)
    from cpus_ok_mp_entries [OF this] have ok2: "cpus_ok s2" by (simp add: s2_def)
    let ?s3 = "s2\<lparr>cpus := (cpus s2)(bootcpu s2 := (cpus s2 (bootcpu s2))\<lparr>cpu_status := CPU_STARTED\<rparr>)\<rparr>"
    have entry: "conf_entry (s1\<lparr>ismp := b, lapicaddr := x\<rparr>) conf = conf_entry s1 conf" for b x
      by (simp add: conf_entry_def pbytes_def pbyte_def)
    have ok3: "cpus_ok ?s3" using ok2 by (simp add: cpus_ok_def)
    have one: "cpus_ok (?s3\<lparr>ncpu := 1, lapicaddr := 0\<rparr>)"
      using ok3 by (simp add: cpus_ok_def NCPU_def)
    have "s' = cprintf ''SMP: configuration not found, SMP disabled'' [] (?s3\<lparr>ncpu := 1, lapicaddr := 0\<rparr>) \<or>
        cpus_ok s'"
      using assms(3) f Some a ok3
      by (auto simp: mp_init_def entry Let_def port_in_def simp flip: s2_def split: if_splits prod.splits)
    with one show ?thesis by auto
  qed
  then show ?thesis by (simp add: cpus_ok_def)
qed

text \<open>A machine with one processor described by a table at 0x90000.\<close>

definition mp_sample :: kstate where
  "mp_sample = (bss_state 200 0 0)\<lparr>mem := (\<lambda>f w.
     if f = 0 \<and> w = 129 then 0x9FC0000000000000
     else if f = 0x9F \<and> w = 384 then 0x000900005F504D5F
     else if f = 0x9F \<and> w = 385 then 0x970401
     else if f = 0x90 \<and> w = 0 then 0x96040040504D4350
     else if f = 0x90 \<and> w = 4 then 0xFEE0000000010000
     else if f = 0x90 \<and> w = 5 then 0x0314000000000000
     else 0)\<rparr>"

lemma mp_sample_simps [simp]:
  "npages mp_sample = 200" "ncpu mp_sample = 0" "cpus mp_sample = (\<lambda>_. zero_cpu)"
  by (simp_all add: mp_sample_def bss_state_def)

lemma mp_sample_bytes:
  "pbyte mp_sample pa = get_byte (mem mp_sample (pa div 4096) (pa mod 4096 div 8)) (pa mod 8)"
  by (simp add: pbyte_def)

lemma mp_sample_found:
  "signature_at mp_sample 0x9FC00 ''_MP_''" "sum mp_sample 0x9FC00 16 = 0"
  "signature_at mp_sample 0x90000 ''PCMP''" "sum mp_sample 0x90000 64 = 0"
  by (simp_all add: signature_at_def sum_def pbyte_def get_byte_def mp_sample_def upt_conv_Cons)

lemma mp_sample_fields:
  "pbytes mp_sample 0x40E 2 = 0x9FC0" "mp_physaddr mp_sample 0x9FC00 = 0x90000"
  "mp_type mp_sample 0x9FC00 = 0" "conf_length mp_sample 0x90000 = 64"
  "conf_version mp_sample 0x90000 = 4" "conf_xlength mp_sample 0x90000 = 0"
  "conf_xchecksum mp_sample 0x90000 = 0" "conf_entry mp_sample 0x90000 = 1"
  by (simp_all add: pbytes_def rd_le_def pbyte_def get_byte_def mp_sample_def upt_conv_Cons
      mp_physaddr_def mp_type_def conf_length_def conf_version_def conf_xlength_def
      conf_xchecksum_def conf_entry_def)

lemma mp_sample_mpconfig: "mpconfig mp_sample = Inr (Some (0x9FC00, 0x90000), mp_sample)"
proof -
  have loop: "mpsearch1_loop (Suc n) 0x9FC00 mp_sample = Some 0x9FC00" for n
    using mp_sample_found by simp
  have "mpsearch1 0x9FC00 1024 mp_sample = Inr (Some 0x9FC00, mp_sample)"
    using loop [of 63] by (simp add: mpsearch1_def KADDR_def PPN_def)
  then have "mpsearch mp_sample = Inr (Some 0x9FC00, mp_sample)"
    by (simp add: mpsearch_def KADDR_def PPN_def mp_sample_fields)
  then show ?thesis
    by (simp add: mpconfig_def mp_sample_fields mp_sample_found KADDR_def PPN_def sum_def [of _ _ 0])
qed

lemma mp_sample_init: "\<exists>s'. mp_init mp_sample = Inr ((), s') \<and> ncpu s' = 1"
proof -
  let ?s = "mp_sample\<lparr>ismp := True, lapicaddr := ucast (conf_lapicaddr mp_sample 0x90000)\<rparr>"
  have start: "mp_sample\<lparr>bootcpu := 0\<rparr> = mp_sample" by (simp add: mp_sample_def bss_state_def)
  have bytes: "pbyte ?s = pbyte mp_sample" by (rule ext) (simp add: pbyte_def)
  have proc: "pbyte mp_sample 0x9002C = 0" "proc_flags ?s 0x9002C = 3"
    unfolding proc_flags_def bytes by (simp_all add: pbyte_def get_byte_def mp_sample_def)
  have entry: "conf_entry ?s 0x90000 = 1"
    using mp_sample_fields(8) by (simp add: conf_entry_def pbytes_def bytes)
  have "mp_entries 1 0x9002C ?s = mp_proc 0x9002C ?s" using proc bytes by simp
  moreover have "ncpu (mp_proc 0x9002C ?s) = 1" "ismp (mp_proc 0x9002C ?s)"
    using proc by (simp_all add: mp_proc_def Let_def NCPU_def cprintf_def MPPROC_BOOT_def MPROC_EN_def
        proc_flags_def pbyte_def)
  ultimately show ?thesis
    using mp_sample_mpconfig entry
    by (simp add: mp_init_def start Let_def port_in_def port_out_def split: prod.splits)
       (simp add: cprintf_def)
qed

theorem mp_init_bounds_witness:
  "\<exists>s'. mp_init mp_sample = Inr ((), s') \<and> ncpu s' = 1 \<and> cpu_id (cpus s' 0) = 0"
proof -
  obtain s' where s': "mp_init mp_sample = Inr ((), s')" "ncpu s' = 1"
    using mp_sample_init by blast
  have "ncpu mp_sample = 0" "cpu_id (cpus mp_sample 0) = 0" by (simp_all add: zero_cpu_def)
  from mp_init_bounds [OF this s'(1)] s' show ?thesis by simp
qed

end
