(* ===== verification/Trap_Setup.thy ===== *)
theory Trap_Setup
  imports Trap
begin

text \<open>
  What \<open>trap_init\<close> leaves behind: the gates of the interrupt table decoded again, the table
  bounds, and the task state segment of the processor.
\<close>

lemma fold_gates_frame:
  "gdt (fold (\<lambda>(n, e, dpl) s. s\<lparr>idt := (idt s)(n := g e dpl)\<rparr>) xs s) = gdt s"
  "cpus (fold (\<lambda>(n, e, dpl) s. s\<lparr>idt := (idt s)(n := g e dpl)\<rparr>) xs s) = cpus s"
  "cpu (fold (\<lambda>(n, e, dpl) s. s\<lparr>idt := (idt s)(n := g e dpl)\<rparr>) xs s) = cpu s"
  "tr (fold (\<lambda>(n, e, dpl) s. s\<lparr>idt := (idt s)(n := g e dpl)\<rparr>) xs s) = tr s"
  by (induction xs arbitrary: s) auto

lemma fold_gates:
  assumes "distinct (map fst xs)"
  shows "idt (fold (\<lambda>(n, e, dpl) s. s\<lparr>idt := (idt s)(n := g e dpl)\<rparr>) xs s) n =
    (case map_of xs n of None \<Rightarrow> idt s n | Some (e, dpl) \<Rightarrow> g e dpl)"
  using assms
proof (induction xs arbitrary: s)
  case (Cons x xs)
  then have "map_of xs (fst x) = None" by (simp add: map_of_eq_None_iff)
  with Cons show ?case by (auto split: option.split prod.split)
qed simp

lemma distinct_gates: "distinct (map fst gates)"
  by (simp add: gates_def trap_numbers)

lemma percpu_idt [simp]: "idt (trap_init_percpu ts_at s) = idt s"
  by (simp add: trap_init_percpu_def Let_def)

text \<open>The descriptor and registers that one processor gets.\<close>

lemma percpu_effect:
  assumes "i = unat (cpu_id (cpus s (cpu s)))" "s' = trap_init_percpu ts_at s"
  shows "system_base (gdt s' (5 + 2 * i)) (gdt s' (6 + 2 * i)) = ts_at (cpu s) \<and>
    sd_s (gdt s' (5 + 2 * i)) = 0 \<and> sd_type (gdt s' (5 + 2 * i)) = ucast STS_T64A \<and>
    (\<forall>k. k \<noteq> 5 + 2 * i \<longrightarrow> k \<noteq> 6 + 2 * i \<longrightarrow> gdt s' k = gdt s k) \<and>
    tr s' (cpu s) = GD_TSS0 + ucast (cpu_id (cpus s (cpu s))) * 16 \<and> idtr s' (cpu s) = idt_pd s \<and>
    cpu_ts_esp0 (cpus s' (cpu s)) =
      KSTACKTOP - ucast (cpu_id (cpus s (cpu s))) * (KSTKSIZE + KSTKGAP)"
proof -
  have k: "unat (drop_bit 3 GD_TSS0) = 5" by (simp add: GD_TSS0_def)
  have base: "system_base (lo\<lparr>sd_s := z\<rparr>) hi = system_base lo hi" for lo hi z
    by (simp add: system_base_def)
  have ty: "sd_type (system_low (SETTSS ty b l)) = ucast ty" for ty b l
    by (simp add: system_low_def SETTSS_def)
  show ?thesis
    unfolding assms trap_init_percpu_def Let_def k by (auto simp: base ty)
qed

text \<open>The interrupt table after \<open>trap_init\<close>. Every vector the kernel handles leads to its
  own entry point through a present interrupt gate in the kernel code segment, exactly the
  breakpoint and the system call can be raised from user mode, and all other entries are as
  before. All vectors but one lie inside the 256 entries that the table register announces: the
  gate of \<open>T_DEFAULT\<close> is written behind the table. The processor's task state descriptor lies
  inside the descriptor table and points at its task state, whose stack is the kernel stack of
  this processor.\<close>

theorem trap_init_gates:
  assumes "i = unat (cpu_id (cpus s (cpu s)))" "i < NCPU" "s' = trap_init addr idt_at ts_at s"
  shows "(\<forall>(n, entry, dpl) \<in> set gates. gate_offset (idt s' n) = addr entry \<and>
       gd_dpl (idt s' n) = ucast dpl \<and> gd_type (idt s' n) = ucast STS_IG64 \<and>
       gd_ss (idt s' n) = GD_KT \<and> gd_p (idt s' n) = 1) \<and>
    {n \<in> fst ` set gates. gd_dpl (idt s' n) = 3} = {T_BRKPT, T_SYSCALL} \<and>
    (\<forall>n. n \<notin> fst ` set gates \<longrightarrow> idt s' n = idt s n) \<and>
    {n \<in> fst ` set gates. unat (pd_lim (idtr s' (cpu s))) < 16 * n} = {T_DEFAULT} \<and>
    6 + 2 * i < 2 * NCPU + 5 \<and>
    system_base (gdt s' (5 + 2 * i)) (gdt s' (6 + 2 * i)) = ts_at (cpu s) \<and>
    cpu_ts_esp0 (cpus s' (cpu s)) = KSTACKTOP - of_nat i * (KSTKSIZE + KSTKGAP)"
proof -
  let ?g = "\<lambda>e dpl. SETGATE False GD_KT (addr e) dpl"
  define s1 where "s1 = (fold (\<lambda>(n, e, dpl) s. s\<lparr>idt := (idt s)(n := ?g e dpl)\<rparr>) gates s)
      \<lparr>idt_pd := \<lparr>pd_lim = 256 * 16 - 1, pd_base = idt_at\<rparr>\<rparr>"
  have s': "s' = trap_init_percpu ts_at s1" by (simp add: assms(3) trap_init_def s1_def Let_def)
  have same: "cpu s1 = cpu s" "cpus s1 = cpus s"
    using fold_gates_frame(2,3) [of ?g gates s] by (simp_all add: s1_def)
  have idt: "idt s' n = (case map_of gates n of None \<Rightarrow> idt s n | Some (e, dpl) \<Rightarrow> ?g e dpl)" for n
    by (simp add: s' s1_def fold_gates [OF distinct_gates])
  note cpu = percpu_effect [of i s1 s' ts_at, unfolded same, OF assms(1) s']
  have id: "ucast (cpu_id (cpus s (cpu s))) = (of_nat i :: u64)"
    using assms(1) by simp
  have gate: "idt s' n = ?g e dpl" if "(n, e, dpl) \<in> set gates" for n e dpl
    using that distinct_gates by (simp add: idt)
  have gate_dpl: "gd_dpl (idt s' n) = ucast dpl" if "(n, e, dpl) \<in> set gates" for n e dpl
    using gate [OF that] by (simp add: SETGATE_def)
  have "{n \<in> fst ` set gates. gd_dpl (idt s' n) = 3} =
      fst ` set (filter (\<lambda>(n, e, dpl). (ucast dpl :: 2 word) = 3) gates)"
    using gate_dpl by (force simp: image_iff)
  also have "filter (\<lambda>(n, e, dpl). (ucast dpl :: 2 word) = 3) gates =
      [(T_BRKPT, ''XTRAPX_breakpoint'', 3), (T_SYSCALL, ''XTRAPX_syscall'', 3)]"
    by (simp add: gates_def)
  finally have user: "{n \<in> fst ` set gates. gd_dpl (idt s' n) = 3} = {T_BRKPT, T_SYSCALL}" by simp
  have "pd_lim (idtr s' (cpu s)) = 4095" using cpu by (simp add: s1_def)
  moreover have "filter (\<lambda>n. 4095 < 16 * n) (map fst gates) = [T_DEFAULT]"
    by (simp add: gates_def trap_numbers)
  then have "{n \<in> set (map fst gates). 4095 < 16 * n} = {T_DEFAULT}"
    unfolding set_filter [symmetric] by simp
  ultimately have lim: "{n \<in> fst ` set gates. unat (pd_lim (idtr s' (cpu s))) < 16 * n} = {T_DEFAULT}"
    by simp
  have other: "idt s' n = idt s n" if "n \<notin> fst ` set gates" for n
    using that by (simp add: idt map_of_eq_None_iff [symmetric])
  show ?thesis
    using cpu user lim other assms(2) id
    by (auto simp: gate NCPU_def) (simp_all add: SETGATE_def)
qed

theorem trap_init_gates_witness:
  "let s' = trap_init (\<lambda>e. 0x8004200000 + of_nat (length e)) 0x8004300000 (\<lambda>i. 0x8004400000) (bss_state 8 3 0)
   in gate_offset (idt s' 3) = 0x8004200000 + 17 \<and> gd_dpl (idt s' 3) = 3 \<and>
      system_base (gdt s' 5) (gdt s' 6) = 0x8004400000"
proof -
  let ?s' = "trap_init (\<lambda>e. 0x8004200000 + of_nat (length e)) 0x8004300000 (\<lambda>i. 0x8004400000) (bss_state 8 3 0)"
  have "(3, ''XTRAPX_breakpoint'', 3) \<in> set gates" by (simp add: gates_def trap_numbers)
  moreover have "(0 :: nat) = unat (cpu_id (cpus (bss_state 8 3 0) (cpu (bss_state 8 3 0))))" "0 < NCPU"
    by (simp_all add: zero_cpu_def NCPU_def)
  ultimately show ?thesis
    using trap_init_gates [of 0 "bss_state 8 3 0" ?s' "\<lambda>e. 0x8004200000 + of_nat (length e)" "0x8004300000" "\<lambda>i. 0x8004400000"]
    by (auto simp: Let_def)
qed

end
