(* ===== verification/Trap_Exit.thy ===== *)
theory Trap_Exit
  imports Trap
begin

text \<open>
  How the processor leaves the kernel. A result of a kernel function that ends in user mode
  or in the idle loop must be safe: the kernel lock is free and, for user mode, the current
  environment is the one that runs, is marked running, and its page tables are loaded. The
  property is proved for every kernel function of the model by a calculus on the structure of
  the definitions, in which only \<open>env_run\<close> and \<open>sched_halt\<close> need an argument of their own.
\<close>

section \<open>The calculus\<close>

named_theorems exit_rules \<open>functions that leave the kernel safely\<close>

definition user_ok :: "nat \<Rightarrow> kstate \<Rightarrow> bool" where
  "user_ok e s \<longleftrightarrow> curenv s = Some e \<and> env_status (envs s e) = ENV_RUNNING \<and>
     locked (kernel_lock s) = 0 \<and>
     (\<exists>a. env_pml4e (envs s e) = Some a \<and> cr3 s (cpu s) = kva a - KERNBASE)"

definition exits_ok :: "'a res \<Rightarrow> bool" where
  "exits_ok r \<longleftrightarrow>
     (case r of
        Inr _ \<Rightarrow> True
      | Inl (why, s) \<Rightarrow>
          (case why of EnvRun e \<Rightarrow> user_ok e s | Idle \<Rightarrow> locked (kernel_lock s) = 0 | _ \<Rightarrow> True))"

lemma exits_ok_Inr [exit_rules]: "exits_ok (Inr x)"
  by (simp add: exits_ok_def)

lemma exits_ok_Inl: "exits_ok (Inl e :: 'a res) \<longleftrightarrow> exits_ok (Inl e :: 'b res)"
  by (simp add: exits_ok_def)

lemma exits_ok_stops [exit_rules]:
  "exits_ok (panic msg s)" "exits_ok (deref p s)" "exits_ok (Inl (Panic msg, s))"
  "exits_ok (Inl (NullDeref, s))" "exits_ok (Inl (KernelFault va, s))" "exits_ok (Inl (Monitor, s))"
  "exits_ok (Inl (Hang, s))"
  by (simp_all add: exits_ok_def panic_def deref_def split: option.splits)

lemma exits_ok_bindK [exit_rules]:
  "exits_ok r \<Longrightarrow> (\<And>x s. exits_ok (f x s)) \<Longrightarrow> exits_ok (bindK r f)"
  by (cases r) (auto simp: exits_ok_def bindK_def)

lemma exits_ok_if [exit_rules]: "exits_ok x \<Longrightarrow> exits_ok y \<Longrightarrow> exits_ok (if b then x else y)"
  by simp

lemma exits_ok_option [exit_rules]:
  "exits_ok x \<Longrightarrow> (\<And>a. exits_ok (f a)) \<Longrightarrow> exits_ok (case p of None \<Rightarrow> x | Some a \<Rightarrow> f a)"
  by (cases p) simp_all

lemma exits_ok_prod [exit_rules]:
  "(\<And>a b. exits_ok (f a b)) \<Longrightarrow> exits_ok (case p of (a, b) \<Rightarrow> f a b)"
  "(\<And>a b. exits_ok (g a b t)) \<Longrightarrow> exits_ok ((case p of (a, b) \<Rightarrow> g a b) t)"
  by (cases p; simp)+

lemma exits_ok_status [exit_rules]:
  "exits_ok a \<Longrightarrow> exits_ok b \<Longrightarrow> exits_ok c \<Longrightarrow> exits_ok d \<Longrightarrow> exits_ok e \<Longrightarrow>
   exits_ok (case p of ENV_FREE \<Rightarrow> a | ENV_DYING \<Rightarrow> b | ENV_RUNNABLE \<Rightarrow> c | ENV_RUNNING \<Rightarrow> d
     | ENV_NOT_RUNNABLE \<Rightarrow> e)"
  by (cases p) simp_all

section \<open>Memory\<close>

lemma exits_pages [exit_rules]:
  "exits_ok (KADDR pa s)" "exits_ok (PADDR va s)" "exits_ok (pa2page pa s)" "exits_ok (page2kva p s)"
  by (simp_all add: KADDR_def PADDR_def pa2page_def page2kva_def Let_def exit_rules)

lemma exits_alloc [exit_rules]:
  "exits_ok (page_alloc fl s)" "exits_ok (page_free p s)" "exits_ok (page_decref p s)"
  unfolding page_alloc_def page_free_def page_decref_def Let_def by (intro exit_rules)+

lemma exits_walk [exit_rules]:
  "exits_ok (pgdir_walk a va c s)" "exits_ok (pdpe_walk a va c s)" "exits_ok (pml4e_walk a va c s)"
  unfolding pml4e_walk_def pdpe_walk_def pgdir_walk_def Let_def by (intro exit_rules)+

lemma exits_lookup [exit_rules]: "exits_ok (page_lookup a va s)"
  unfolding page_lookup_def Let_def by (intro exit_rules)

lemma exits_remove [exit_rules]: "exits_ok (page_remove a va s)"
  unfolding page_remove_def Let_def by (intro exit_rules)

lemma exits_insert [exit_rules]: "exits_ok (page_insert a p va perm s)"
  unfolding page_insert_def Let_def by (intro exit_rules)

lemma exits_user_mem_check_loop [exit_rules]: "exits_ok (user_mem_check_loop a va va0 fin perm s)"
proof (induction a va va0 fin perm s rule: user_mem_check_loop.induct)
  case (1 a va va0 fin perm s)
  show ?case
  proof (cases "pml4e_walk a va0 False s")
    case (Inl e)
    then show ?thesis
      using exits_walk(3) [of a va0 False s]
      by (subst user_mem_check_loop.simps) (auto simp: exits_ok_def)
  next
    case (Inr r)
    then show ?thesis
      using 1 by (subst user_mem_check_loop.simps)
        (cases r; auto intro!: exits_ok_if exits_ok_Inr split: option.split)
  qed
qed

lemma exits_user_mem_check [exit_rules]: "exits_ok (user_mem_check e va len perm s)"
  unfolding user_mem_check_def Let_def by (intro exit_rules)

lemma exits_stores [exit_rules]:
  "exits_ok (vstore8 va b s)" "exits_ok (vcopy va bs s)" "exits_ok (vstore_words va ws s)"
proof -
  show 1: "exits_ok (vstore8 va b s)" for va b s
    unfolding vstore8_def Let_def by (intro exit_rules)
  show 2: "exits_ok (vcopy va bs s)" for va bs s
    by (induction va bs s rule: vcopy.induct) (auto intro!: exit_rules 1)
  show "exits_ok (vstore_words va ws s)"
    by (induction va ws s rule: vstore_words.induct) (auto intro!: exit_rules 2)
qed

section \<open>Environments\<close>

lemma unlock_free:
  "unlock_kernel s = Inr (x, s') \<Longrightarrow> \<exists>lk. s' = s\<lparr>kernel_lock := lk\<rparr> \<and> locked lk = 0"
  by (auto simp: unlock_kernel_def spin_unlock_def xchg_locked_def panic_def forget_holder_def
      split: if_splits sum.splits)

lemma exits_unlock [exit_rules]: "exits_ok (unlock_kernel s)"
  by (simp add: unlock_kernel_def exits_ok_def panic_def split: sum.splits)

lemma exits_pop:
  "locked (kernel_lock s) = 0 \<Longrightarrow> curenv s = Some e \<Longrightarrow> env_status (envs s e) = ENV_RUNNING \<Longrightarrow>
   env_pml4e (envs s e) = Some a \<Longrightarrow> cr3 s (cpu s) = kva a - KERNBASE \<Longrightarrow> exits_ok (env_pop_tf e s)"
  by (cases a) (simp add: env_pop_tf_def exits_ok_def user_ok_def upd_env_def curenv_def)

lemma exits_env_run [exit_rules]: "exits_ok (env_run e s)"
proof -
  let ?s1 = "case curenv s of
       Some c \<Rightarrow> if env_status (envs s c) = ENV_RUNNING
         then upd_env c (\<lambda>x. x\<lparr>env_status := ENV_RUNNABLE\<rparr>) s else s
     | None \<Rightarrow> s"
  define s2 where "s2 = upd_env e (\<lambda>x. x\<lparr>env_status := ENV_RUNNING, env_runs := env_runs x + 1\<rparr>)
      (set_curenv (Some e) ?s1)"
  have run: "env_run e s = bindK (PADDR_ptr (env_pml4e (envs s2 e)) s2) (\<lambda>pa s.
         bindK (unlock_kernel (lcr3 pa s)) (\<lambda>_ s. env_pop_tf e s))"
    by (simp add: env_run_def s2_def Let_def)
  have cur: "curenv s2 = Some e" "env_status (envs s2 e) = ENV_RUNNING"
    by (simp_all add: s2_def upd_env_def set_curenv_def curenv_def)
  show ?thesis
  proof (cases "env_pml4e (envs s2 e)")
    case None
    then show ?thesis by (simp add: run PADDR_ptr_def PADDR_def KERNBASE_def panic_def exits_ok_def)
  next
    case (Some a)
    let ?s3 = "lcr3 (kva a - KERNBASE) s2"
    have "exits_ok (bindK (unlock_kernel ?s3) (\<lambda>_ s. env_pop_tf e s))"
    proof (cases "unlock_kernel ?s3")
      case (Inl r)
      then show ?thesis using exits_unlock [of ?s3] by (simp add: exits_ok_def)
    next
      case (Inr r)
      then obtain lk where lk: "snd r = ?s3\<lparr>kernel_lock := lk\<rparr>" "locked lk = 0"
        using unlock_free [of ?s3 "()" "snd r"] by (metis (full_types) old.unit.exhaust prod.collapse)
      show ?thesis
        unfolding Inr bindK_def using lk cur Some
        by (cases r) (auto intro!: exits_pop simp: lcr3_def curenv_def)
    qed
    then show ?thesis
      using Some by (simp add: run PADDR_ptr_def PADDR_def panic_def exits_ok_def)
  qed
qed

lemma exits_sched [exit_rules]: "exits_ok (sched_yield s)"
proof -
  have idle: "exits_ok (bindK (unlock_kernel t) (\<lambda>_ s. Inl (Idle, s)) :: unit res)" for t
  proof (cases "unlock_kernel t")
    case (Inl e)
    then show ?thesis using exits_unlock [of t] by (simp add: exits_ok_def)
  next
    case (Inr r)
    then obtain lk where "snd r = t\<lparr>kernel_lock := lk\<rparr>" "locked lk = 0"
      using unlock_free [of t "()" "snd r"] by (metis (full_types) old.unit.exhaust prod.collapse)
    then show ?thesis unfolding Inr bindK_def by (cases r) (simp add: exits_ok_def)
  qed
  have halt: "exits_ok (sched_halt s)" for s
    unfolding sched_halt_def Let_def by (intro exit_rules idle)
  show ?thesis
    unfolding sched_yield_def Let_def by (intro exit_rules halt)
qed

lemma exits_envid2env [exit_rules]: "exits_ok (envid2env i c s)"
  unfolding envid2env_def Let_def by (intro exit_rules)

lemma exits_env_setup_vm [exit_rules]: "exits_ok (env_setup_vm e s)"
  unfolding env_setup_vm_def Let_def by (intro exit_rules)

lemma exits_env_alloc [exit_rules]: "exits_ok (env_alloc p s)"
  unfolding env_alloc_def Let_def by (intro exit_rules)

lemma exits_env_free_loops [exit_rules]:
  "exits_ok (env_free_ptes a i d pt ns s)"
  "exits_ok (env_free_pdes a i pd ns s)"
  "exits_ok (env_free_pdpes a pdpe ns s)"
proof -
  show 1: "exits_ok (env_free_ptes a i d pt ns s)" for a i d pt ns s
    by (induction ns arbitrary: s) (auto intro!: exit_rules)
  show 2: "exits_ok (env_free_pdes a i pd ns s)" for a i pd ns s
    by (induction ns arbitrary: s) (auto intro!: exit_rules 1 simp: Let_def)
  show "exits_ok (env_free_pdpes a pdpe ns s)"
    by (induction ns arbitrary: s) (auto intro!: exit_rules 2 simp: Let_def)
qed

lemma exits_env_free [exit_rules]: "exits_ok (env_free e s)"
  unfolding env_free_def env_release_def Let_def by (intro exit_rules)

lemma exits_env_destroy [exit_rules]: "exits_ok (env_destroy e s)"
  unfolding env_destroy_def Let_def by (intro exit_rules)

lemma exits_user_mem_assert [exit_rules]: "exits_ok (user_mem_assert e va len perm s)"
  unfolding user_mem_assert_def Let_def by (intro exit_rules)

section \<open>System calls and traps\<close>

lemma exits_sys_simple [exit_rules]:
  "exits_ok (sys_cputs str len s)" "exits_ok (sys_cgetc s)" "exits_ok (sys_getenvid s)"
  "exits_ok (sys_yield s)" "exits_ok (sys_env_set_pgfault_upcall i f s)" "exits_ok (sys_ipc_recv va s)"
  unfolding sys_cputs_def sys_cgetc_def sys_getenvid_def sys_yield_def
    sys_env_set_pgfault_upcall_def sys_ipc_recv_def Let_def
  by (intro exit_rules)+

lemma exits_sys_env [exit_rules]:
  "exits_ok (sys_env_destroy i s)" "exits_ok (sys_exofork s)"
  unfolding sys_env_destroy_def sys_exofork_def Let_def by (intro exit_rules)+

lemma exits_sys_env_set_status [exit_rules]: "exits_ok (sys_env_set_status i n s)"
  unfolding sys_env_set_status_def by (intro exit_rules)

lemma exits_sys_page [exit_rules]:
  "exits_ok (sys_page_alloc i va perm s)" "exits_ok (sys_page_map i va j vb perm s)"
  "exits_ok (sys_page_unmap i va s)"
  unfolding sys_page_alloc_def sys_page_map_def sys_page_unmap_def Let_def by (intro exit_rules)+

lemma exits_sys_ipc [exit_rules]: "exits_ok (sys_ipc_try_send i v va perm s)"
  unfolding sys_ipc_try_send_def ipc_send_page_def Let_def by (intro exit_rules)

lemma exits_syscall [exit_rules]: "exits_ok (syscall n a1 a2 a3 a4 a5 s)"
  unfolding syscall_def by (intro exit_rules)

lemma exits_lapic_eoi [exit_rules]: "exits_ok (lapic_eoi s)"
  unfolding lapic_eoi_def lapicw_def by (intro exit_rules)

lemma exits_page_fault_handler [exit_rules]: "exits_ok (page_fault_handler p s)"
  unfolding page_fault_handler_def Let_def by (intro exit_rules)

lemma exits_lock [exit_rules]: "exits_ok (lock_or_hang rd rbp s)"
  unfolding lock_or_hang_def lock_kernel_def
  by (auto simp: exits_ok_def panic_def split: option.split sum.split)

lemma exits_trap_dispatch:
  "(\<And>p s. exits_ok (mon p s)) \<Longrightarrow> exits_ok (trap_dispatch mon p s)"
  unfolding trap_dispatch_def Let_def by (intro exit_rules | assumption)+

lemma exits_trap_user_entry [exit_rules]: "exits_ok (trap_user_entry rd rbp s)"
  unfolding trap_user_entry_def Let_def by (intro exit_rules)

lemma exits_trap_tail [exit_rules]: "exits_ok (trap_tail s)"
  unfolding trap_tail_def by (intro exit_rules)

lemma exits_trap: "(\<And>p s. exits_ok (mon p s)) \<Longrightarrow> exits_ok (trap mon rd rbp eflags tf s)"
  unfolding trap_def Let_def by (intro exit_rules exits_trap_dispatch | assumption)+

lemma trap_tail_stops: "\<exists>e. trap_tail s = Inl e"
  using env_run_stops sched_yield_stops by (simp add: trap_tail_def split: option.split)

lemma trap_stops: "\<exists>e. trap mon rd rbp eflags tf s = Inl e"
proof -
  have step: "\<exists>e. bindK r f = Inl e" if "\<And>x s. \<exists>e. f x s = Inl e" for r :: "'b res" and f :: "'b \<Rightarrow> kstate \<Rightarrow> 'c res"
    using that by (cases r) (auto simp: bindK_def)
  have step_if: "\<exists>e. (if b then x else y) = Inl e" if "\<exists>e. x = Inl e" "\<exists>e. y = Inl e"
    for b and x y :: "unit res"
    using that by simp
  show ?thesis
    unfolding trap_def Let_def
    by (intro step_if step trap_tail_stops) (auto simp: panic_def)
qed

text \<open>C25: a trap never returns to its caller, and every way in which it leaves the kernel is
  safe: if it ends in user mode, the environment that runs is the current one, is marked running,
  has its page tables loaded, and the kernel lock is free; if the processor goes idle, the lock is
  free as well. Assumed is that the interactive monitor keeps this contract.\<close>

theorem trap_returns_safely:
  assumes "\<And>p s. exits_ok (mon p s)"
  shows "\<exists>why s'. trap mon rd rbp eflags tf s = Inl (why, s') \<and>
    (\<forall>e. why = EnvRun e \<longrightarrow> user_ok e s') \<and> (why = Idle \<longrightarrow> locked (kernel_lock s') = 0)"
proof -
  obtain why s' where "trap mon rd rbp eflags tf s = Inl (why, s')"
    using trap_stops by (metis surj_pair)
  moreover have "exits_ok (trap mon rd rbp eflags tf s)" by (rule exits_trap) (rule assms)
  ultimately show ?thesis by (auto simp: exits_ok_def)
qed

text \<open>The call \<open>sys_getenvid\<close> of the environment in slot 0 with id 4096.\<close>

definition getenvid_frame :: Trapframe where
  "getenvid_frame = zero_tf\<lparr>tf_cs := 0x1B, tf_trapno := 48, tf_regs := zero_regs\<lparr>reg_rax := 2\<rparr>\<rparr>"

definition trap_sample :: kstate where
  "trap_sample = (bss_state 8 3 0)
     \<lparr>envs := (\<lambda>_. zero_env)(0 := zero_env\<lparr>env_id := 4096, env_status := ENV_RUNNING,
        env_pml4e := Some (1, 0)\<rparr>),
      cpus := (\<lambda>_. zero_cpu)(0 := zero_cpu\<lparr>cpu_env := Some 0, cpu_status := CPU_STARTED\<rparr>)\<rparr>"

text \<open>The states after the entry and after the call.\<close>

definition trap_entered :: kstate where
  "trap_entered = upd_env 0 (\<lambda>x. x\<lparr>env_tf := getenvid_frame\<rparr>)
     (trap_sample\<lparr>stack_tf := getenvid_frame,
        kernel_lock := zero_lock\<lparr>locked := 1, lk_cpu := Some 0, pcs := get_caller_pcs (\<lambda>_. 0) 0 10\<rparr>\<rparr>)"

definition trap_answered :: kstate where
  "trap_answered = upd_env 0 (\<lambda>x. x\<lparr>env_tf := getenvid_frame
        \<lparr>tf_regs := (tf_regs getenvid_frame)\<lparr>reg_rax := 4096\<rparr>\<rparr>\<rparr>)
     (trap_entered\<lparr>last_tf := Some (TfEnv 0)\<rparr>)"

theorem trap_returns_safely_witness:
  "\<exists>s'. trap (\<lambda>p s. Inl (Monitor, s)) (\<lambda>_. 0) 0 0 getenvid_frame trap_sample = Inl (EnvRun 0, s') \<and>
     user_ok 0 s' \<and> reg_rax (tf_regs (env_tf (envs s' 0))) = 4096"
proof -
  let ?r = "trap (\<lambda>p s. Inl (Monitor, s)) (\<lambda>_. 0) 0 0 getenvid_frame trap_sample"
  let ?s1 = "trap_sample\<lparr>stack_tf := getenvid_frame\<rparr>"
  have cpus: "(cpus ?s1)(cpu ?s1 := (cpus ?s1 (cpu ?s1))\<lparr>cpu_status := CPU_STARTED\<rparr>) = cpus ?s1"
    by (simp add: trap_sample_def)
  have entry: "trap_user_entry (\<lambda>_. 0) 0 ?s1 = Inr (0, trap_entered)"
    by (simp add: trap_user_entry_def lock_or_hang_def lock_kernel_def spin_lock_def holding_def
        try_lock_def xchg_locked_def record_holder_def trap_sample_def trap_entered_def
        bss_state_def zero_lock_def upd_env_def curenv_def)
  have dispatch: "trap_dispatch (\<lambda>p s. Inl (Monitor, s)) (TfEnv 0)
      (trap_entered\<lparr>last_tf := Some (TfEnv 0)\<rparr>) = Inr ((), trap_answered)"
    by (simp add: trap_dispatch_def get_tf_def put_tf_def trap_entered_def trap_answered_def
        trap_numbers getenvid_frame_def zero_tf_def zero_regs_def syscall_def syscall_numbers
        sys_getenvid_def curenv_def trap_sample_def upd_env_def Let_def)
  have tail: "\<exists>s'. trap_tail trap_answered = Inl (EnvRun 0, s') \<and>
      reg_rax (tf_regs (env_tf (envs s' 0))) = 4096"
    by (simp add: trap_tail_def trap_answered_def trap_entered_def trap_sample_def upd_env_def
        curenv_def env_run_def set_curenv_def PADDR_ptr_def PADDR_def kva_def KERNBASE_def lcr3_def
        unlock_kernel_def spin_unlock_def holding_def xchg_locked_def forget_holder_def
        env_pop_tf_def)
  have "\<exists>s'. ?r = Inl (EnvRun 0, s') \<and> reg_rax (tf_regs (env_tf (envs s' 0))) = 4096"
    using tail entry dispatch cpus
    by (simp add: trap_def trap_sample_def getenvid_frame_def bss_state_def Let_def)
  moreover have "\<exists>why s'. ?r = Inl (why, s') \<and> (\<forall>e. why = EnvRun e \<longrightarrow> user_ok e s') \<and>
      (why = Idle \<longrightarrow> locked (kernel_lock s') = 0)"
    by (rule trap_returns_safely) (rule exits_ok_stops)
  ultimately show ?thesis by auto
qed

end
