(* ===== verification/Env_Inv.thy ===== *)
theory Env_Inv
  imports Trap_Exit
begin

text \<open>
  The environment table stays well formed through every system call and every trap, whatever the state of
  the memory: the invariant \<open>env_inv\<close> of the table holds for some free list, and the current environment and the
  environments an operation works on are in use. Two calculi read this off from the text of the
  definitions: \<open>quiet\<close> for operations that leave the table and the processors alone, \<open>keeps\<close> for the others.
\<close>

section \<open>Operations that leave the table alone\<close>

named_theorems quiet_rules \<open>operations that leave the environment table and the processors alone\<close>

definition env_part :: "kstate \<Rightarrow> (nat \<Rightarrow> Env) \<times> nat option \<times> (nat \<Rightarrow> nat option) \<times> nat" where
  "env_part s = (envs s, env_free_list s, (\<lambda>i. cpu_env (cpus s i)), cpu s)"

definition quiet :: "kstate \<Rightarrow> 'a res \<Rightarrow> bool" where
  "quiet s r \<longleftrightarrow> (case r of Inl (_, s') \<Rightarrow> env_part s' = env_part s | Inr (_, s') \<Rightarrow> env_part s' = env_part s)"

lemma quiet_final [quiet_rules]:
  "env_part t = env_part s \<Longrightarrow> quiet s (Inr (x, t))" "env_part t = env_part s \<Longrightarrow> quiet s (Inl (why, t))"
  by (simp_all add: quiet_def)

lemma quiet_bindK [quiet_rules]:
  "quiet s r \<Longrightarrow> (\<And>x t. env_part t = env_part s \<Longrightarrow> quiet s (f x t)) \<Longrightarrow> quiet s (bindK r f)"
  by (cases r) (auto simp: quiet_def bindK_def)

lemma quiet_if [quiet_rules]: "quiet s x \<Longrightarrow> quiet s y \<Longrightarrow> quiet s (if b then x else y)"
  by simp

lemma quiet_option [quiet_rules]:
  "quiet s x \<Longrightarrow> (\<And>a. quiet s (f a)) \<Longrightarrow> quiet s (case p of None \<Rightarrow> x | Some a \<Rightarrow> f a)"
  by (cases p) simp_all

lemma quiet_prod [quiet_rules]:
  "(\<And>a b. quiet s (f a b)) \<Longrightarrow> quiet s (case p of (a, b) \<Rightarrow> f a b)"
  "(\<And>a b. quiet s (g a b t)) \<Longrightarrow> quiet s ((case p of (a, b) \<Rightarrow> g a b) t)"
  by (cases p; simp)+

lemma env_part_upd [simp]:
  "env_part (st a v t) = env_part t" "env_part (set_pp_ref p x t) = env_part t"
  "env_part (set_pp_link p l t) = env_part t" "env_part (incref p t) = env_part t"
  "env_part (set_page_free_list h t) = env_part t" "env_part (memset_page0 a t) = env_part t"
  "env_part (tlb_invalidate q va t) = env_part t" "env_part (lcr3 v t) = env_part t"
  "env_part (cprintf fmt args t) = env_part t" "env_part (t\<lparr>stack_tf := tf\<rparr>) = env_part t"
  "env_part (t\<lparr>last_tf := lf\<rparr>) = env_part t" "env_part (t\<lparr>console := c\<rparr>) = env_part t"
  "env_part (t\<lparr>kernel_lock := lk\<rparr>) = env_part t" "env_part (t\<lparr>user_mem_check_addr := va\<rparr>) = env_part t"
  by (simp_all add: env_part_def kstate_defs cprintf_def tlb_invalidate_def split: option.splits)

lemma quiet_basic [quiet_rules]:
  "env_part t = env_part s \<Longrightarrow> quiet s (panic msg t)"
  "env_part t = env_part s \<Longrightarrow> quiet s (deref p t)"
  "env_part t = env_part s \<Longrightarrow> quiet s (KADDR pa t)"
  "env_part t = env_part s \<Longrightarrow> quiet s (PADDR va t)"
  "env_part t = env_part s \<Longrightarrow> quiet s (pa2page pa t)"
  "env_part t = env_part s \<Longrightarrow> quiet s (page2kva pp t)"
  by (auto simp: quiet_def panic_def deref_def KADDR_def PADDR_def pa2page_def page2kva_def Let_def split: option.splits)

lemma quiet_alloc [quiet_rules]:
  "env_part t = env_part s \<Longrightarrow> quiet s (page_alloc fl t)"
  "env_part t = env_part s \<Longrightarrow> quiet s (page_free p t)"
  "env_part t = env_part s \<Longrightarrow> quiet s (page_decref p t)"
  unfolding page_alloc_def page_decref_def page_free_def Let_def by (intro quiet_rules; simp)+

lemma quiet_walks [quiet_rules]:
  "env_part t = env_part s \<Longrightarrow> quiet s (pgdir_walk a va c t)"
  "env_part t = env_part s \<Longrightarrow> quiet s (pdpe_walk a va c t)"
  "env_part t = env_part s \<Longrightarrow> quiet s (pml4e_walk a va c t)"
proof -
  show 1: "env_part t = env_part s \<Longrightarrow> quiet s (pgdir_walk a va c t)" for a t
    unfolding pgdir_walk_def Let_def by (intro quiet_rules) simp_all
  show 2: "env_part t = env_part s \<Longrightarrow> quiet s (pdpe_walk a va c t)" for a t
    unfolding pdpe_walk_def Let_def by (intro quiet_rules 1) simp_all
  show "env_part t = env_part s \<Longrightarrow> quiet s (pml4e_walk a va c t)"
    unfolding pml4e_walk_def Let_def by (intro quiet_rules 2) simp_all
qed

lemma quiet_lookup [quiet_rules]: "env_part t = env_part s \<Longrightarrow> quiet s (page_lookup a va t)"
  unfolding page_lookup_def Let_def by (intro quiet_rules) simp_all

lemma quiet_remove [quiet_rules]: "env_part t = env_part s \<Longrightarrow> quiet s (page_remove a va t)"
  unfolding page_remove_def Let_def by (intro quiet_rules) simp_all

lemma quiet_insert [quiet_rules]: "env_part t = env_part s \<Longrightarrow> quiet s (page_insert a p va perm t)"
  unfolding page_insert_def Let_def by (intro quiet_rules) simp_all

lemma quiet_user_mem_check_loop [quiet_rules]:
  "env_part t = env_part s \<Longrightarrow> quiet s (user_mem_check_loop a va va0 fin perm t)"
proof (induction a va va0 fin perm t rule: user_mem_check_loop.induct)
  case (1 a va va0 fin perm t)
  have w: "quiet s (pml4e_walk a va0 False t)" using 1(2) by (rule quiet_walks)
  show ?case
  proof (cases "pml4e_walk a va0 False t")
    case (Inl e)
    then show ?thesis using w 1(2) by (subst user_mem_check_loop.simps) (auto simp: quiet_def)
  next
    case (Inr r)
    obtain x t' where r: "r = (x, t')" by (cases r)
    have "env_part t' = env_part s" using w by (simp add: Inr r quiet_def)
    then show ?thesis
      using 1 Inr r by (subst user_mem_check_loop.simps) (auto intro!: quiet_rules split: option.split)
  qed
qed

lemma quiet_user_mem_check [quiet_rules]: "env_part t = env_part s \<Longrightarrow> quiet s (user_mem_check e va len perm t)"
  unfolding user_mem_check_def Let_def by (intro quiet_rules) simp_all

lemma quiet_stores [quiet_rules]:
  "env_part t = env_part s \<Longrightarrow> quiet s (vstore8 va b t)"
  "env_part t = env_part s \<Longrightarrow> quiet s (vcopy va bs t)"
  "env_part t = env_part s \<Longrightarrow> quiet s (vstore_words va ws t)"
proof -
  show 1: "env_part t = env_part s \<Longrightarrow> quiet s (vstore8 va b t)" for va b t
    unfolding vstore8_def Let_def by (intro quiet_rules) simp_all
  show 2: "env_part t = env_part s \<Longrightarrow> quiet s (vcopy va bs t)" for va bs t
    by (induction va bs t rule: vcopy.induct) (auto intro!: quiet_rules 1)
  show "env_part t = env_part s \<Longrightarrow> quiet s (vstore_words va ws t)"
    by (induction va ws t rule: vstore_words.induct) (auto intro!: quiet_rules 2)
qed

lemma quiet_free_loops [quiet_rules]:
  "env_part t = env_part s \<Longrightarrow> quiet s (env_free_ptes a i d pt ns t)"
  "env_part t = env_part s \<Longrightarrow> quiet s (env_free_pdes a i pd ns t)"
  "env_part t = env_part s \<Longrightarrow> quiet s (env_free_pdpes a pdpe ns t)"
proof -
  show 1: "env_part t = env_part s \<Longrightarrow> quiet s (env_free_ptes a i d pt ns t)" for a i d pt ns t
    by (induction ns arbitrary: t) (auto intro!: quiet_rules)
  show 2: "env_part t = env_part s \<Longrightarrow> quiet s (env_free_pdes a i pd ns t)" for a i pd ns t
    by (induction ns arbitrary: t) (auto intro!: quiet_rules 1 simp: Let_def)
  show "env_part t = env_part s \<Longrightarrow> quiet s (env_free_pdpes a pdpe ns t)"
    by (induction ns arbitrary: t) (auto intro!: quiet_rules 2 simp: Let_def)
qed

lemma quiet_lock [quiet_rules]:
  "env_part t = env_part s \<Longrightarrow> quiet s (lock_or_hang rd rbp t)"
  "env_part t = env_part s \<Longrightarrow> quiet s (unlock_kernel t)"
  "env_part t = env_part s \<Longrightarrow> quiet s (lapic_eoi t)"
  by (auto simp: lock_or_hang_def lock_kernel_def unlock_kernel_def lapic_eoi_def lapicw_def quiet_def panic_def env_part_def cprintf_def
      split: option.split sum.split)

section \<open>Operations that keep the table well formed\<close>

text \<open>\<open>running c L s\<close>: the table is well formed, \<open>c\<close> is the current environment if there is one, and it and the
  environments of \<open>L\<close> are in use.\<close>

named_theorems keeps_rules \<open>operations that keep the environment table well formed\<close>

definition in_use :: "nat \<Rightarrow> kstate \<Rightarrow> bool" where
  "in_use e s \<longleftrightarrow> e < NENV \<and> env_status (envs s e) \<noteq> ENV_FREE"

definition running :: "nat option \<Rightarrow> nat set \<Rightarrow> kstate \<Rightarrow> bool" where
  "running c L s \<longleftrightarrow> (\<exists>es. env_inv s es) \<and> curenv s = c \<and> (\<forall>e \<in> set_option c \<union> L. in_use e s)"

definition keeps :: "nat option \<Rightarrow> nat set \<Rightarrow> 'a res \<Rightarrow> bool" where
  "keeps c L r \<longleftrightarrow> (case r of Inl (_, s) \<Rightarrow> \<exists>c'. running c' {} s | Inr (_, s) \<Rightarrow> running c L s)"

lemma env_inv_part: "env_part s' = env_part s \<Longrightarrow> env_inv s' es = env_inv s es"
  by (auto simp: env_part_def env_inv_def efreelist_def)

lemma curenv_part: "env_part s' = env_part s \<Longrightarrow> curenv s' = curenv s"
  by (auto simp: env_part_def curenv_def dest: fun_cong)

lemma envs_part: "env_part s' = env_part s \<Longrightarrow> envs s' = envs s"
  by (simp add: env_part_def)

lemma running_part: "env_part s' = env_part s \<Longrightarrow> running c L s' = running c L s"
proof -
  assume p: "env_part s' = env_part s"
  then show ?thesis by (simp add: running_def in_use_def env_inv_part [OF p] curenv_part [OF p] envs_part [OF p])
qed

lemma running_mono: "running c L s \<Longrightarrow> L' \<subseteq> L \<Longrightarrow> running c L' s"
  by (auto simp: running_def)

lemma running_curenv: "running c L s \<Longrightarrow> curenv s = c"
  by (simp add: running_def)

lemma running_quiet_upd [simp]:
  "running c L (st a v t) = running c L t" "running c L (set_pp_ref p x t) = running c L t"
  "running c L (set_pp_link p l t) = running c L t" "running c L (incref p t) = running c L t"
  "running c L (set_page_free_list h t) = running c L t" "running c L (memset_page0 a t) = running c L t"
  "running c L (tlb_invalidate q va t) = running c L t" "running c L (lcr3 v t) = running c L t"
  "running c L (cprintf fmt args t) = running c L t" "running c L (t\<lparr>stack_tf := tf\<rparr>) = running c L t"
  "running c L (t\<lparr>last_tf := lf\<rparr>) = running c L t" "running c L (t\<lparr>console := d\<rparr>) = running c L t"
  "running c L (t\<lparr>kernel_lock := lk\<rparr>) = running c L t"
  by (rule running_part, simp)+

text \<open>An environment may change in every field but its id and its link, and stays in use or free.\<close>

lemma running_upd_env:
  assumes "env_status (f (envs s e)) = ENV_FREE \<longleftrightarrow> env_status (envs s e) = ENV_FREE"
    and "env_id (f (envs s e)) = env_id (envs s e)" "env_link (f (envs s e)) = env_link (envs s e)"
  shows "running c L (upd_env e f s) = running c L s"
proof -
  let ?s = "upd_env e f s"
  have l: "(\<lambda>i. env_link (envs ?s i)) = (\<lambda>i. env_link (envs s i))"
    and st: "(env_status (envs ?s i) = ENV_FREE) = (env_status (envs s i) = ENV_FREE)"
    and id: "env_id (envs ?s i) = env_id (envs s i)" and cur: "curenv ?s = curenv s" for i
    using assms by (auto simp: upd_env_def curenv_def)
  have "env_free_list ?s = env_free_list s" by (simp add: upd_env_def)
  then show ?thesis by (simp only: running_def env_inv_def efreelist_def in_use_def l st id cur)
qed

lemma running_set_curenv:
  "running c L s \<Longrightarrow> (\<And>e. c' = Some e \<Longrightarrow> in_use e s) \<Longrightarrow> running c' L (set_curenv c' s)"
  by (auto simp: running_def in_use_def set_curenv_def curenv_def env_inv_def efreelist_def)

lemma keeps_Inr [keeps_rules]: "running c L s \<Longrightarrow> keeps c L (Inr (x, s))"
  by (simp add: keeps_def)

lemma keeps_Inl [keeps_rules]: "running c' L' s \<Longrightarrow> keeps c L (Inl (why, s))"
  using running_mono [of c' L' s "{}"] by (auto simp: keeps_def)

lemma keeps_bindK:
  "keeps c L r \<Longrightarrow> (\<And>x t. r = Inr (x, t) \<Longrightarrow> running c L t \<Longrightarrow> keeps c' L' (f x t)) \<Longrightarrow> keeps c' L' (bindK r f)"
  by (cases r) (auto simp: keeps_def bindK_def)

lemma keeps_quiet: "quiet s r \<Longrightarrow> running c L s \<Longrightarrow> keeps c L r"
proof -
  assume q: "quiet s r" and s: "running c L s"
  have t: "running c L t" if "env_part t = env_part s" for t using running_part [OF that] s by simp
  show ?thesis
  proof (cases r)
    case (Inl e)
    obtain why t where "r = Inl (why, t)" using Inl by (cases e) simp
    then show ?thesis using q t [of t] running_mono [of c L t "{}"] by (auto simp: quiet_def keeps_def)
  next
    case (Inr x)
    obtain v t where "r = Inr (v, t)" using Inr by (cases x) simp
    then show ?thesis using q t [of t] by (simp add: quiet_def keeps_def)
  qed
qed

lemma keeps_if [keeps_rules]:
  "(b \<Longrightarrow> keeps c L x) \<Longrightarrow> (\<not> b \<Longrightarrow> keeps c L y) \<Longrightarrow> keeps c L (if b then x else y)"
  by simp

lemma keeps_option [keeps_rules]:
  "(p = None \<Longrightarrow> keeps c L x) \<Longrightarrow> (\<And>a. p = Some a \<Longrightarrow> keeps c L (f a)) \<Longrightarrow>
   keeps c L (case p of None \<Rightarrow> x | Some a \<Rightarrow> f a)"
  by (cases p) simp_all

lemma keeps_prod [keeps_rules]:
  "(\<And>a b. p = (a, b) \<Longrightarrow> keeps c L (f a b)) \<Longrightarrow> keeps c L (case p of (a, b) \<Rightarrow> f a b)"
  "(\<And>a b. p = (a, b) \<Longrightarrow> keeps c L (g a b t)) \<Longrightarrow> keeps c L ((case p of (a, b) \<Rightarrow> g a b) t)"
  by (cases p; simp)+

lemma keeps_weaken: "keeps c L r \<Longrightarrow> L' \<subseteq> L \<Longrightarrow> keeps c L' r"
  using running_mono by (auto simp: keeps_def split: sum.splits)

text \<open>The quiet operations, and the pointers they need.\<close>

lemma keeps_deref [keeps_rules]: "running c L s \<Longrightarrow> keeps c L (deref p s)"
  by (rule keeps_quiet [OF quiet_basic(2)]) simp_all

lemma deref_Inr [simp]: "deref p s = Inr (x, t) \<longleftrightarrow> p = Some x \<and> t = s"
  by (auto simp: deref_def split: option.splits)

lemmas keeps_memory [keeps_rules] =
  keeps_quiet [OF quiet_basic(3) [OF refl]] keeps_quiet [OF quiet_basic(4) [OF refl]]
  keeps_quiet [OF quiet_basic(5) [OF refl]] keeps_quiet [OF quiet_basic(6) [OF refl]]
  keeps_quiet [OF quiet_alloc(1) [OF refl]] keeps_quiet [OF quiet_alloc(2) [OF refl]]
  keeps_quiet [OF quiet_alloc(3) [OF refl]] keeps_quiet [OF quiet_lookup [OF refl]]
  keeps_quiet [OF quiet_remove [OF refl]] keeps_quiet [OF quiet_insert [OF refl]]
  keeps_quiet [OF quiet_user_mem_check [OF refl]] keeps_quiet [OF quiet_stores(2) [OF refl]]
  keeps_quiet [OF quiet_stores(3) [OF refl]] keeps_quiet [OF quiet_lock(1) [OF refl]]
  keeps_quiet [OF quiet_lock(2) [OF refl]] keeps_quiet [OF quiet_lock(3) [OF refl]]
  keeps_quiet [OF quiet_free_loops(3) [OF refl]]

lemma keeps_panic [keeps_rules]: "running c' L' s \<Longrightarrow> keeps c L (panic msg s)"
  unfolding panic_def by (rule keeps_Inl)

lemma keeps_bindK_same [keeps_rules]:
  "keeps c L r \<Longrightarrow> (\<And>x t. r = Inr (x, t) \<Longrightarrow> running c L t \<Longrightarrow> keeps c L (f x t)) \<Longrightarrow> keeps c L (bindK r f)"
  by (rule keeps_bindK)

section \<open>Choosing and running\<close>

lemma env_part_cpu_status [simp]:
  "env_part (t\<lparr>cpus := (cpus t)(i := (cpus t i)\<lparr>cpu_status := x\<rparr>)\<rparr>) = env_part t"
  by (auto simp: env_part_def)

lemma running_cpu_status [simp]:
  "running c L (t\<lparr>cpus := (cpus t)(i := (cpus t i)\<lparr>cpu_status := x\<rparr>)\<rparr>) = running c L t"
  by (rule running_part) simp

lemma keeps_env_pop_tf:
  assumes "running c L s" shows "keeps c' L' (env_pop_tf e s)"
proof -
  have "running c L (upd_env i (\<lambda>x. x\<lparr>env_cpunum := int (cpu s)\<rparr>) s)" for i
    using assms by (simp add: running_upd_env)
  then show ?thesis using assms by (auto simp: env_pop_tf_def deref_def intro: keeps_Inl split: option.split)
qed

lemma keeps_env_run:
  assumes run: "running c L s" and e: "in_use e s"
  shows "keeps c' L' (env_run e s)"
proof -
  define s1 where "s1 = (case curenv s of
                 Some c \<Rightarrow> if env_status (envs s c) = ENV_RUNNING
                   then upd_env c (\<lambda>x. x\<lparr>env_status := ENV_RUNNABLE\<rparr>) s else s
               | None \<Rightarrow> s)"
  define s2 where "s2 = upd_env e (\<lambda>x. x\<lparr>env_status := ENV_RUNNING, env_runs := env_runs x + 1\<rparr>) (set_curenv (Some e) s1)"
  have "running c {} s" using run by (rule running_mono) simp
  then have r1: "running c {} s1" by (auto simp: s1_def running_upd_env split: option.split)
  have e1: "in_use e s1" using e by (auto simp: s1_def in_use_def upd_env_def split: option.split)
  then have "env_status (envs (set_curenv (Some e) s1) e) \<noteq> ENV_FREE" by (simp add: in_use_def set_curenv_def)
  then have r2: "running (Some e) {} s2"
    using running_set_curenv [OF r1, of "Some e"] e1 unfolding s2_def by (subst running_upd_env) simp_all
  have run: "env_run e s = bindK (PADDR_ptr (env_pml4e (envs s2 e)) s2) (\<lambda>pa s.
         bindK (unlock_kernel (lcr3 pa s)) (\<lambda>_ s. env_pop_tf e s))"
    by (simp add: env_run_def s1_def s2_def Let_def)
  have "keeps (Some e) {} (PADDR_ptr p s2)" for p
    unfolding PADDR_ptr_def using r2 by (rule keeps_memory)
  then show ?thesis
    unfolding run
  proof (rule keeps_bindK)
    fix pa t assume "running (Some e) {} t"
    then have "keeps (Some e) {} (unlock_kernel (lcr3 pa t))" by (intro keeps_memory) simp
    then show "keeps c' L' (bindK (unlock_kernel (lcr3 pa t)) (\<lambda>_ s. env_pop_tf e s))"
      by (rule keeps_bindK) (rule keeps_env_pop_tf)
  qed
qed

lemma keeps_sched_halt:
  assumes "running c L s" shows "keeps c' L' (sched_halt s)"
proof -
  have r: "running None {} (set_curenv None s)"
    using running_set_curenv [OF running_mono [OF assms, of "{}"], of None] by simp
  have u: "keeps None {} (unlock_kernel t)" if "running None {} t" for t using that by (rule keeps_memory)
  have "keeps c' L' (bindK (PADDR p (set_curenv None s)) (\<lambda>pa s.
      bindK (unlock_kernel ((lcr3 pa s)\<lparr>cpus := (cpus (lcr3 pa s))(cpu (lcr3 pa s) :=
        (cpus (lcr3 pa s) (cpu (lcr3 pa s)))\<lparr>cpu_status := CPU_HALTED\<rparr>)\<rparr>)) (\<lambda>_ s. Inl (Idle, s))) :: unit res)" for p
    by (rule keeps_bindK [OF keeps_memory(2) [OF r]], rule keeps_bindK [OF u]) (auto intro: keeps_Inl)
  then show ?thesis
    using assms unfolding sched_halt_def Let_def by (auto intro!: keeps_Inl keeps_if)
qed

lemma keeps_sched_yield:
  assumes "running c L s" shows "keeps c' L' (sched_yield s)"
proof -
  have found: "in_use i s" if "find (\<lambda>i. env_status (envs s i) = ENV_RUNNABLE) (sched_order n) = Some i" for n i
  proof -
    have "i \<in> set (sched_order n)" "env_status (envs s i) = ENV_RUNNABLE"
      using that by (auto simp: find_Some_iff in_set_conv_nth)
    then show ?thesis by (auto simp: in_use_def sched_order_def)
  qed
  have "in_use i s" if "curenv s = Some i" for i using assms that by (auto simp: running_def)
  then show ?thesis
    unfolding sched_yield_def Let_def
    using found keeps_env_run [OF assms] keeps_sched_halt [OF assms] by (auto intro!: keeps_if split: option.split)
qed

section \<open>The end of an environment\<close>

text \<open>What \<open>env_free\<close> leaves: the environment is free, and if it was the current one, the processor has none once
  \<open>curenv\<close> is cleared.\<close>

definition frees :: "nat \<Rightarrow> nat option \<Rightarrow> 'a res \<Rightarrow> bool" where
  "frees e c r \<longleftrightarrow> (case r of
       Inl (_, s) \<Rightarrow> \<exists>c'. running c' {} s
     | Inr (_, s) \<Rightarrow> curenv s = c \<and> running None {} (set_curenv None s) \<and> (c \<noteq> Some e \<longrightarrow> running c {} s))"

lemma frees_bindK:
  "keeps c {e} r \<Longrightarrow> (\<And>x t. running c {e} t \<Longrightarrow> frees e c (f x t)) \<Longrightarrow> frees e c (bindK r f)"
  by (cases r) (auto simp: keeps_def frees_def bindK_def)

lemma freed_inv:
  assumes "env_inv s es" "in_use e s"
  shows "env_inv ((upd_env e (\<lambda>x. x\<lparr>env_status := ENV_FREE, env_link := env_free_list s\<rparr>) s)\<lparr>env_free_list := Some e\<rparr>) (e # es)"
    (is "env_inv ?s _")
proof -
  have e: "e < NENV" "e \<notin> set es" and id: "slot_id e (env_id (envs s e))"
    using assms by (auto simp: env_inv_def in_use_def)
  have "chain (\<lambda>i. env_link (envs ?s i)) (env_free_list s) es \<longleftrightarrow> chain (\<lambda>i. env_link (envs s i)) (env_free_list s) es"
    using e(2) by (intro chain_cong) (auto simp: upd_env_def)
  then have "efreelist ?s (e # es)" using assms(1) by (simp add: env_inv_def efreelist_def) (simp add: upd_env_def)
  then show ?thesis
    using assms(1) e id unfolding env_inv_def by (auto simp: upd_env_def)
qed

lemma frees_final:
  assumes "running c {e} s"
  shows "frees e c (Inr (x, (upd_env e (\<lambda>x. x\<lparr>env_status := ENV_FREE, env_link := env_free_list s\<rparr>) s)\<lparr>env_free_list := Some e\<rparr>))"
    (is "frees e c (Inr (x, ?s))")
proof -
  obtain es where es: "env_inv s es" using assms by (auto simp: running_def)
  have u: "in_use e s" and c: "curenv s = c" using assms by (simp_all add: running_def)
  note inv = freed_inv [OF es u]
  have "curenv ?s = c" using c by (simp add: curenv_def upd_env_def)
  moreover have "env_inv (set_curenv None ?s) es' = env_inv ?s es'" for es' by (simp add: env_inv_def efreelist_def set_curenv_def)
  then have "running None {} (set_curenv None ?s)" using inv by (auto simp: running_def curenv_def set_curenv_def)
  moreover have "in_use i ?s" if "c = Some i" "c \<noteq> Some e" for i
    using assms that by (auto simp: running_def in_use_def upd_env_def)
  then have "c \<noteq> Some e \<longrightarrow> running c {} ?s" using inv \<open>curenv ?s = c\<close> by (auto simp: running_def)
  ultimately show ?thesis by (simp add: frees_def)
qed

lemma frees_env_free:
  assumes "running c {e} s" shows "frees e c (env_free e s)"
proof -
  have "frees e c (env_release e t)" if "running c {e} t" for t
    unfolding env_release_def Let_def using that
    by (intro frees_bindK frees_final keeps_rules) (simp_all add: running_upd_env)
  then show ?thesis using assms unfolding env_free_def Let_def by (simp add: cprintf_def [symmetric])
qed

lemma keeps_env_destroy:
  assumes "running c {e} s" shows "keeps c {} (env_destroy e s)"
proof -
  have u: "in_use e s" and c: "curenv s = c" using assms by (simp_all add: running_def)
  have "running c {} (upd_env e (\<lambda>x. x\<lparr>env_status := ENV_DYING\<rparr>) s)"
    using running_mono [OF assms, of "{}"] u by (subst running_upd_env) (simp_all add: in_use_def)
  moreover have "keeps c {} (bindK (env_free e s) (\<lambda>_ s. if curenv s = Some e then sched_yield (set_curenv None s) else Inr ((), s)))"
    using frees_env_free [OF assms]
    by (cases "env_free e s") (auto simp: frees_def bindK_def intro: keeps_Inl keeps_Inr keeps_sched_yield)
  ultimately show ?thesis unfolding env_destroy_def by (auto intro: keeps_Inr)
qed

lemma keeps_user_mem_assert:
  assumes "running c {e} s" shows "keeps c {} (user_mem_assert e va len perm s)"
proof -
  have "keeps c {} (if r < 0 then env_destroy e (cprintf fmt args t) else Inr ((), t))" if "running c {e} t" for r :: int and fmt args t
    using that keeps_env_destroy [of c e "cprintf fmt args t"] running_mono [of c "{e}" t "{}"] by (auto intro: keeps_Inr)
  then show ?thesis
    unfolding user_mem_assert_def by (intro keeps_bindK [OF keeps_memory(11) [OF assms]])
qed

section \<open>The start of an environment\<close>

lemma env_setup_vm_result:
  "case env_setup_vm e s of
     Inl (_, t) \<Rightarrow> env_part t = env_part s
   | Inr (_, t) \<Rightarrow> \<exists>a b. env_part t = env_part (upd_env e (\<lambda>x. x\<lparr>env_pml4e := a, env_cr3 := b\<rparr>) s)"
proof -
  have self: "env_part s = env_part (upd_env e (\<lambda>x. x\<lparr>env_pml4e := env_pml4e (envs s e), env_cr3 := env_cr3 (envs s e)\<rparr>) s)"
    by (simp add: upd_env_def env_part_def)
  have pa: "quiet s (page_alloc ALLOC_ZERO s)" by (rule quiet_alloc) simp
  show ?thesis
  proof (cases "page_alloc ALLOC_ZERO s")
    case (Inl r)
    then show ?thesis using pa by (cases r) (simp add: env_setup_vm_def quiet_def)
  next
    case (Inr r)
    obtain p t where r: "r = (p, t)" by (cases r)
    have t: "env_part t = env_part s" using pa Inr r by (simp add: quiet_def)
    show ?thesis
    proof (cases p)
      case None
      then show ?thesis using Inr r t self by (auto simp: env_setup_vm_def)
    next
      case (Some p)
      have k: "quiet s (page2kva p (incref p t))" using t by (intro quiet_basic) simp
      have u: "env_part (upd_env e f v) = env_part (upd_env e f s)" if "env_part v = env_part s" for f v
        using that by (simp add: env_part_def upd_env_def)
      show ?thesis
        using Inr r Some k
        by (cases "page2kva p (incref p t)") (auto simp: env_setup_vm_def Let_def quiet_def split: prod.splits dest!: u)
    qed
  qed
qed

definition allocs :: "nat option \<Rightarrow> (int \<times> nat option) res \<Rightarrow> bool" where
  "allocs c r \<longleftrightarrow> (case r of
       Inl (_, s) \<Rightarrow> \<exists>c'. running c' {} s
     | Inr ((r, eo), s) \<Rightarrow> if r < 0 then running c {} s else \<exists>e. eo = Some e \<and> running c {e} s)"

lemma alloced_inv:
  assumes "env_inv s (e # es)" "env_link (f (envs s e)) = env_link (envs s e)" "env_status (f (envs s e)) = ENV_RUNNABLE"
    "env_id (f (envs s e)) = next_id (env_id (envs s e)) e"
  shows "env_inv ((upd_env e f s)\<lparr>env_free_list := env_link (envs s e)\<rparr>) es" (is "env_inv ?s _")
proof -
  have fl: "efreelist s (e # es)" and e: "e < NENV" using assms(1) by (auto simp: env_inv_def)
  have "distinct (e # es)" using fl unfolding efreelist_def by (rule chain_distinct)
  then have "e \<notin> set es" by simp
  have old: "slot_id e (env_id (envs s e)) \<or> env_id (envs s e) = 0" using assms(1) e by (auto simp: env_inv_def)
  have l: "(\<lambda>i. env_link (envs ?s i)) = (\<lambda>i. env_link (envs s i))" using assms(2) by (auto simp: upd_env_def)
  have "efreelist ?s es" using fl unfolding efreelist_def l by simp
  then show ?thesis
    using assms \<open>e \<notin> set es\<close> slot_id_next [OF old e] unfolding env_inv_def by (auto simp: upd_env_def)
qed

lemma allocs_env_alloc:
  assumes run: "running c {} s" shows "allocs c (env_alloc parent s)"
proof (cases "env_free_list s")
  case None
  then show ?thesis using run by (simp add: env_alloc_def allocs_def)
next
  case (Some e)
  show ?thesis
  proof (cases "env_setup_vm e s")
    case (Inl r)
    obtain why t where r: "r = (why, t)" by (cases r)
    have "env_part t = env_part s" using env_setup_vm_result [where e = e and s = s] Inl r by simp
    from running_part [OF this] have "running c {} t" using run by simp
    then show ?thesis using Inl r Some by (auto simp: env_alloc_def allocs_def)
  next
    case (Inr r)
    obtain i t where r: "r = (i, t)" by (cases r)
    obtain a b where t: "env_part t = env_part (upd_env e (\<lambda>x. x\<lparr>env_pml4e := a, env_cr3 := b\<rparr>) s)"
      using env_setup_vm_result [where e = e and s = s] Inr r by auto
    have rt: "running c {} t" using run running_part [OF t] by (simp add: running_upd_env)
    let ?f = "\<lambda>x. x\<lparr>env_id := next_id (env_id x) e, env_parent_id := parent, env_type := ENV_TYPE_USER,
        env_status := ENV_RUNNABLE, env_runs := 0, env_tf := new_tf, env_pgfault_upcall := 0, env_ipc_recving := False\<rparr>"
    let ?t = "(upd_env e ?f t)\<lparr>env_free_list := env_link (envs t e)\<rparr>"
    have "env_free_list t = Some e" using t Some by (simp add: env_part_def upd_env_def)
    moreover obtain es0 where es0: "env_inv t es0" using rt by (auto simp: running_def)
    ultimately obtain es where es: "env_inv t (e # es)"
      by (cases es0) (auto simp: env_inv_def efreelist_def)
    have inv: "env_inv ?t es" by (rule alloced_inv [OF es]) simp_all
    have e: "e < NENV" "env_status (envs t e) = ENV_FREE" using es by (auto simp: env_inv_def)
    have "in_use x ?t" if "x = e \<or> c = Some x" for x
      using that e(1) rt by (auto simp: running_def in_use_def upd_env_def)
    moreover have "curenv ?t = c" using rt by (simp add: running_def curenv_def upd_env_def)
    ultimately have "running c {e} ?t" using inv by (auto simp: running_def)
    moreover have "running c {} t" by (rule rt)
    ultimately show ?thesis
      using Some Inr r by (simp add: env_alloc_def allocs_def Let_def upd_env_def)
  qed
qed

section \<open>System calls\<close>

lemma envid2env_in_use:
  assumes "envid2env i chk s = Inr ((r, eo), t)" "running c L s"
  shows "t = s" "\<not> r < 0 \<Longrightarrow> eo = Some e \<Longrightarrow> in_use e s"
  using assms
  by (auto simp: envid2env_def Let_def bindK_Inr_iff E_BAD_ENV_def running_def in_use_def split: if_splits) (metis ENVX_less)+

lemma keeps_envid2env [keeps_rules]: "running c L s \<Longrightarrow> keeps c L (envid2env i chk s)"
  unfolding envid2env_def Let_def by (intro keeps_rules) simp_all

lemma keeps_calls_simple [keeps_rules]:
  "running c L s \<Longrightarrow> keeps c L (sys_getenvid s)"
  "running c L s \<Longrightarrow> keeps c L (sys_cgetc s)"
  "running c {} s \<Longrightarrow> keeps c {} (sys_yield s)"
  unfolding sys_getenvid_def sys_cgetc_def sys_yield_def
  by (intro keeps_rules keeps_sched_yield; simp)+

lemma keeps_sys_cputs [keeps_rules]:
  assumes "running c {} s" shows "keeps c {} (sys_cputs str len s)"
proof -
  have "keeps c {} (user_mem_assert e str len perm s)" if "curenv s = Some e" for e perm
    using assms that by (intro keeps_user_mem_assert) (auto simp: running_def)
  then show ?thesis
    using assms unfolding sys_cputs_def by (intro keeps_rules) auto
qed

lemma keeps_sys_env_destroy [keeps_rules]:
  assumes "running c {} s" shows "keeps c {} (sys_env_destroy i s)"
  unfolding sys_env_destroy_def
proof (rule keeps_bindK)
  show "keeps c {} (envid2env i True s)" using assms by (rule keeps_envid2env)
  fix x t assume x: "envid2env i True s = Inr (x, t)" and t: "running c {} t"
  obtain r eo where p: "x = (r, eo)" by (cases x)
  have d: "keeps c {} (env_destroy e (cprintf fmt args t))" if "eo = Some e" "\<not> r < 0" for e fmt args
  proof -
    have "in_use e t" using that envid2env_in_use [OF x [unfolded p] assms] by simp
    then have "running c {e} t" using t by (simp add: running_def)
    then show ?thesis by (intro keeps_env_destroy) simp
  qed
  show "keeps c {} ((case x of (r, e) \<Rightarrow> \<lambda>s. if r < 0 then Inr (r, s)
       else bindK (sys_getenvid s) (\<lambda>cid s. bindK (deref e s) (\<lambda>e s.
              let s = (if curenv s = Some e then cprintf ''[%08x] exiting gracefully'' [ucast cid] s
                       else cprintf ''[%08x] destroying %08x'' [ucast cid, ucast (env_id (envs s e))] s)
              in bindK (env_destroy e s) (\<lambda>_ s. Inr (0, s))))) t)"
    using t d unfolding p Let_def
    by (auto simp: sys_getenvid_def deref_def intro!: keeps_rules split: option.split)
qed

lemma keeps_sys_exofork [keeps_rules]:
  assumes "running c {} s" shows "keeps c {} (sys_exofork s)"
proof -
  have "keeps c {} (bindK (env_alloc p s) (\<lambda>(result, new_env) s.
       if result < 0 then Inr (result, s)
       else
         bindK (deref new_env s) (\<lambda>e s.
           let s = upd_env e (\<lambda>x. x\<lparr>env_status := ENV_NOT_RUNNABLE\<rparr>) s;
               s = upd_env e (\<lambda>x. x\<lparr>env_tf := env_tf (envs s a)\<rparr>) s;
               s = upd_env e (\<lambda>x. x\<lparr>env_tf := (env_tf x)
                     \<lparr>tf_regs := (tf_regs (env_tf x))\<lparr>reg_rax := 0\<rparr>\<rparr>\<rparr>) s
           in Inr (sint (env_id (envs s e)), s))))" for p a
    using allocs_env_alloc [OF assms, of p]
  proof (cases "env_alloc p s")
    case (Inr x)
    obtain r eo t where x: "x = ((r, eo), t)" by (metis prod.exhaust)
    have up: "running c {} (upd_env e (\<lambda>x. x\<lparr>env_tf := (env_tf x)\<lparr>tf_regs := (tf_regs (env_tf x))\<lparr>reg_rax := 0\<rparr>\<rparr>\<rparr>)
        (upd_env e (\<lambda>x. x\<lparr>env_tf := tf\<rparr>) (upd_env e (\<lambda>x. x\<lparr>env_status := ENV_NOT_RUNNABLE\<rparr>) t)))" if "running c {e} t" for e tf
    proof -
      have "env_status (envs t e) \<noteq> ENV_FREE" using that by (simp add: running_def in_use_def)
      then show ?thesis using running_mono [OF that, of "{}"] by (simp add: running_upd_env)
    qed
    show ?thesis
      using allocs_env_alloc [OF assms, of p] unfolding Inr x Let_def
      by (auto simp: allocs_def intro!: keeps_Inr up)
  qed (auto simp: allocs_def keeps_def)
  then show ?thesis
    using assms unfolding sys_exofork_def by (auto simp: deref_def intro: keeps_Inl split: option.split)
qed

lemma keeps_upd_in_use:
  assumes "running c {} s" "in_use e s" "env_status (f (envs s e)) \<noteq> ENV_FREE"
    and "env_id (f (envs s e)) = env_id (envs s e)" "env_link (f (envs s e)) = env_link (envs s e)"
  shows "running c {} (upd_env e f s)"
  using assms by (subst running_upd_env) (auto simp: in_use_def)

lemma keeps_sys_env_set_status [keeps_rules]:
  assumes "running c {} s" shows "keeps c {} (sys_env_set_status i n s)"
proof -
  have "keeps c {} (if r < 0 then Inr (- E_BAD_ENV, t)
       else case status_of_int n of
           Some ENV_RUNNABLE \<Rightarrow>
             bindK (deref eo t) (\<lambda>e s. Inr (0, upd_env e (\<lambda>x. x\<lparr>env_status := ENV_RUNNABLE\<rparr>) s))
         | Some ENV_NOT_RUNNABLE \<Rightarrow>
             bindK (deref eo t) (\<lambda>e s. Inr (0, upd_env e (\<lambda>x. x\<lparr>env_status := ENV_NOT_RUNNABLE\<rparr>) s))
         | _ \<Rightarrow> Inr (- E_INVAL, t))" if x: "envid2env i True s = Inr ((r, eo), t)" for r eo t
    using assms envid2env_in_use [OF x assms]
    by (auto simp: deref_def intro!: keeps_Inr keeps_Inl keeps_upd_in_use split: option.split env_status_t.split)
  then show ?thesis
    unfolding sys_env_set_status_def by (intro keeps_bindK [OF keeps_envid2env [OF assms]]) (simp split: prod.splits)
qed

lemma keeps_sys_upcall [keeps_rules]:
  assumes "running c {} s" shows "keeps c {} (sys_env_set_pgfault_upcall i f s)"
  using assms unfolding sys_env_set_pgfault_upcall_def by (intro keeps_rules) (simp_all add: running_upd_env)

lemma keeps_sys_pages [keeps_rules]:
  "running c {} s \<Longrightarrow> keeps c {} (sys_page_alloc i va perm s)"
  "running c {} s \<Longrightarrow> keeps c {} (sys_page_map i va j vb perm s)"
  "running c {} s \<Longrightarrow> keeps c {} (sys_page_unmap i va s)"
  unfolding sys_page_alloc_def sys_page_map_def sys_page_unmap_def by (intro keeps_rules; simp)+

lemma keeps_ipc_send_page: "running c L s \<Longrightarrow> keeps c L (ipc_send_page t va perm s)"
  unfolding ipc_send_page_def by (intro keeps_rules) (simp_all add: running_upd_env)

lemma keeps_sys_ipc_try_send [keeps_rules]:
  assumes "running c {} s" shows "keeps c {} (sys_ipc_try_send i v va perm s)"
  unfolding sys_ipc_try_send_def
proof (rule keeps_bindK [OF keeps_envid2env [OF assms]])
  fix x s1 assume x: "envid2env i False s = Inr (x, s1)" and s1: "running c {} s1"
  obtain r eo where p: "x = (r, eo)" by (cases x)
  have send: "keeps c {} (bindK (if va < UTOP then ipc_send_page t va perm s1 else Inr (0, s1)) (\<lambda>result s.
               if result < 0 then Inr (result, s)
               else
                 bindK (sys_getenvid (upd_env t (\<lambda>x. x\<lparr>env_ipc_recving := False\<rparr>) s)) (\<lambda>from s.
                   Inr (0, upd_env t (\<lambda>x. x\<lparr>env_ipc_from := from, env_ipc_value := v,
                     env_status := ENV_RUNNABLE,
                     env_tf := (env_tf x)\<lparr>tf_regs := (tf_regs (env_tf x))\<lparr>reg_rax := 0\<rparr>\<rparr>\<rparr>) s))) :: int res)"
    if "eo = Some t" "\<not> r < 0" for t
  proof -
    have l: "running c {t} s1" using that envid2env_in_use [OF x [unfolded p] assms] s1 by (simp add: running_def)
    have final: "running c {} (upd_env t (\<lambda>x. x\<lparr>env_ipc_from := frm, env_ipc_value := v, env_status := ENV_RUNNABLE,
        env_tf := (env_tf x)\<lparr>tf_regs := (tf_regs (env_tf x))\<lparr>reg_rax := 0\<rparr>\<rparr>\<rparr>) s2)" if "running c {t} s2" for frm s2
      using running_mono [OF that, of "{}"] that by (intro keeps_upd_in_use) (auto simp: running_def)
    show ?thesis
      by (rule keeps_bindK [of c "{t}"])
        (auto simp: running_upd_env intro!: l keeps_if keeps_ipc_send_page keeps_Inr final
          intro: running_mono keeps_bindK [OF keeps_calls_simple(1)])
  qed
  then show "keeps c {} ((case x of (result, target) \<Rightarrow> \<lambda>s.
       if result < 0 then Inr (- E_BAD_ENV, s)
       else bindK (deref target s) (\<lambda>t s.
           if \<not> env_ipc_recving (envs s t) then Inr (- E_IPC_NOT_RECV, s)
           else
             bindK (if va < UTOP then ipc_send_page t va perm s else Inr (0, s)) (\<lambda>result s.
               if result < 0 then Inr (result, s)
               else
                 bindK (sys_getenvid (upd_env t (\<lambda>x. x\<lparr>env_ipc_recving := False\<rparr>) s)) (\<lambda>from s.
                   Inr (0, upd_env t (\<lambda>x. x\<lparr>env_ipc_from := from, env_ipc_value := v,
                     env_status := ENV_RUNNABLE,
                     env_tf := (env_tf x)\<lparr>tf_regs := (tf_regs (env_tf x))\<lparr>reg_rax := 0\<rparr>\<rparr>\<rparr>) s))))) s1)"
    using s1 unfolding p by (auto simp: deref_def intro!: keeps_Inr keeps_Inl split: option.split)
qed

lemma keeps_sys_ipc_recv [keeps_rules]:
  assumes "running c {} s" shows "keeps c {} (sys_ipc_recv va s)"
proof -
  have "running c {} (upd_env e (\<lambda>x. x\<lparr>env_ipc_recving := True, env_status := ENV_NOT_RUNNABLE, env_ipc_dstva := va\<rparr>) s)"
    if "curenv s = Some e" for e
    using assms that by (intro keeps_upd_in_use) (auto simp: running_def)
  then show ?thesis
    using assms unfolding sys_ipc_recv_def Let_def by (intro keeps_rules) auto
qed

lemma keeps_syscall [keeps_rules]: "running c {} s \<Longrightarrow> keeps c {} (syscall n a1 a2 a3 a4 a5 s)"
  unfolding syscall_def by (intro keeps_rules)

section \<open>Traps\<close>

lemma running_put_tf [simp]: "running c L (put_tf p f s) = running c L s"
  by (cases p) (simp_all add: put_tf_def running_upd_env)

lemma env_part_print [simp]: "env_part (print_trapframe p s) = env_part s"
  by (simp add: print_trapframe_def print_regs_def Let_def)

lemma running_print [simp]: "running c L (print_trapframe p s) = running c L s"
  by (rule running_part) simp

lemma keeps_page_fault_handler [keeps_rules]:
  assumes run: "running c {} s" shows "keeps c {} (page_fault_handler p s)"
proof -
  have use: "in_use e t" if "running c {} t" "c = Some e" for e t using that by (simp add: running_def)
  have self: "running c {e} t" if "running c {} t" "c = Some e" for e t using that by (simp add: running_def)
  have deliver: "keeps c {} (bindK (user_mem_assert e new_rsp 1 perm (put_tf p f s)) (\<lambda>_ s.
                    let tf = get_tf p s;
                        u = \<lparr>utf_fault_va = va, utf_err = tf_err tf, utf_regs = tf_regs tf,
                             utf_rip = tf_rip tf, utf_eflags = tf_eflags tf, utf_rsp = old_rsp\<rparr>
                    in bindK (vstore_words new_rsp (utf_words u) s) (\<lambda>_ s.
                         let s = upd_env e (\<lambda>x. x\<lparr>env_tf := (env_tf x)
                                   \<lparr>tf_rip := env_pgfault_upcall x, tf_rsp := new_rsp\<rparr>\<rparr>) s
                         in env_run e s)) :: unit res)"
    if e: "c = Some e" for e new_rsp perm f va old_rsp
    unfolding Let_def
  proof (rule keeps_bindK [OF keeps_user_mem_assert])
    show "running c {e} (put_tf p f s)" using self [OF run e] by simp
    fix x :: unit and t assume t: "running c {} t"
    show "keeps c {} (bindK (vstore_words new_rsp (utf_words u) t) (\<lambda>_ s.
        env_run e (upd_env e (\<lambda>x. x\<lparr>env_tf := (env_tf x)\<lparr>tf_rip := env_pgfault_upcall x, tf_rsp := new_rsp\<rparr>\<rparr>) s)))" for u
    proof (rule keeps_bindK [OF keeps_memory(13) [OF t]])
      fix t2 assume "running c {} t2"
      then have "running c {} (upd_env e (\<lambda>x. x\<lparr>env_tf := (env_tf x)\<lparr>tf_rip := env_pgfault_upcall x, tf_rsp := new_rsp\<rparr>\<rparr>) t2)"
        by (simp add: running_upd_env)
      then show "keeps c {} (env_run e (upd_env e (\<lambda>x. x\<lparr>env_tf := (env_tf x)\<lparr>tf_rip := env_pgfault_upcall x, tf_rsp := new_rsp\<rparr>\<rparr>) t2))"
        using use [OF _ e] by (intro keeps_env_run)
    qed
  qed
  have kill: "keeps c {} (env_destroy e (print_trapframe p (cprintf fmt args t)))"
    if "c = Some e" "running c {} t" for e t fmt args
    using self [OF that(2,1)] by (intro keeps_env_destroy) simp
  show ?thesis
  proof (cases c)
    case None
    then show ?thesis using run running_curenv [OF run]
      by (auto simp: page_fault_handler_def Let_def intro!: keeps_if keeps_panic keeps_Inl)
  next
    case (Some e)
    have cur: "curenv s = Some e" using running_curenv [OF run] Some by simp
    show ?thesis
      unfolding page_fault_handler_def Let_def cur
      using run by (auto intro!: keeps_if keeps_panic keeps_bindK [where c = c and L = "{}"] deliver [OF Some, unfolded Let_def] kill [OF Some]
          keeps_Inr)
  qed
qed

lemma keeps_trap_dispatch:
  assumes mon: "\<And>p s. running c {} s \<Longrightarrow> keeps c {} (mon p s)" and run: "running c {} s"
  shows "keeps c {} (trap_dispatch mon p s)"
proof -
  have kill: "keeps c {} (env_destroy e t)" if "running c {} t" "curenv t = Some e" for e t
    using that by (intro keeps_env_destroy) (auto simp: running_def)
  show ?thesis
    using run unfolding trap_dispatch_def Let_def
    by (auto intro!: keeps_rules mon kill keeps_sched_yield)
qed

lemma keeps_trap_user_entry [keeps_rules]:
  assumes run: "running c {} s" shows "keeps c {} (trap_user_entry rd rbp s)"
  unfolding trap_user_entry_def
proof (rule keeps_bindK [OF keeps_memory(14) [OF run]])
  fix x :: unit and t assume t: "running c {} t"
  have dying: "keeps c {} (bindK (env_free e t) (\<lambda>_ s. sched_yield (set_curenv None s)))" if "c = Some e" for e
  proof -
    have "running c {e} t" using t that by (simp add: running_def)
    from frees_env_free [OF this] show ?thesis
      by (cases "env_free e t") (auto simp: frees_def bindK_def intro: keeps_Inl keeps_sched_yield)
  qed
  have entry: "running c' L (upd_env e (\<lambda>x. x\<lparr>env_tf := stack_tf t\<rparr>) t) = running c' L t" for c' L e t
    by (simp add: running_upd_env)
  show "keeps c {} (case curenv t of
         None \<Rightarrow> panic ''assertion failed: curenv'' t
       | Some c \<Rightarrow>
           bindK (if env_status (envs t c) = ENV_DYING then
                    bindK (env_free c t) (\<lambda>_ s. sched_yield (set_curenv None s))
                  else Inr ((), t)) (\<lambda>_ s.
           bindK (deref (curenv s) s) (\<lambda>c s.
             Inr (c, upd_env c (\<lambda>x. x\<lparr>env_tf := stack_tf s\<rparr>) s))))"
  proof (cases c)
    case None
    then show ?thesis using t running_curenv [OF t] by (auto intro: keeps_panic)
  next
    case (Some e)
    have rest: "keeps c {} (bindK (deref (curenv s) s) (\<lambda>c s. Inr (c, upd_env c (\<lambda>x. x\<lparr>env_tf := stack_tf s\<rparr>) s)))"
      if "running c {} s" for s
      using that by (auto simp: entry intro!: keeps_rules)
    have first: "keeps c {} (if env_status (envs t e) = ENV_DYING then bindK (env_free e t) (\<lambda>_ s. sched_yield (set_curenv None s))
                  else Inr ((), t))"
      using dying [OF Some] t by (intro keeps_if keeps_Inr)
    have cur: "curenv t = Some e" using running_curenv [OF t] Some by simp
    show ?thesis
      unfolding cur option.case by (rule keeps_bindK [OF first]) (rule rest)
  qed
qed

lemma keeps_trap_tail:
  assumes "running c {} s" shows "keeps c' L (trap_tail s)"
proof -
  have "in_use e s" if "curenv s = Some e" for e using assms that by (auto simp: running_def)
  then show ?thesis
    using assms unfolding trap_tail_def by (auto intro: keeps_env_run keeps_sched_yield split: option.split)
qed

lemma keeps_trap:
  assumes mon: "\<And>p s. running c {} s \<Longrightarrow> keeps c {} (mon p s)" and run: "running c {} s"
  shows "keeps c {} (trap mon rd rbp eflags tf s)"
proof -
  have tail: "keeps c {} (bindK (trap_dispatch mon p (s\<lparr>last_tf := Some p\<rparr>)) (\<lambda>_ s. trap_tail s))" if "running c {} s" for p s
    using that by (intro keeps_bindK [OF keeps_trap_dispatch [OF mon]] keeps_trap_tail) simp_all
  have enter: "running c' L (s\<lparr>stack_tf := tf, cpus := (cpus s)(cpu s := (cpus s (cpu s))\<lparr>cpu_status := x\<rparr>)\<rparr>) = running c' L s" for c' L x
    by (rule running_part) (auto simp: env_part_def)
  show ?thesis
    using run unfolding trap_def Let_def by (auto simp: enter intro!: keeps_rules tail)
qed

text \<open>C4: the environment table stays well formed through every trap, whatever the trap frame, the state of the memory and
  the arguments of a system call: if the free list holds exactly the free slots, ids and slots agree and the current
  environment is in use, then the same holds when the trap has ended, in user mode, idle, in the
  monitor or in a panic. Assumed is that the interactive monitor keeps this contract.\<close>

theorem trap_keeps_env_table:
  assumes inv: "env_inv s es" and cur: "\<forall>e. curenv s = Some e \<longrightarrow> in_use e s"
    and mon: "\<And>p s. running (curenv s) {} s \<Longrightarrow> keeps (curenv s) {} (mon p s)"
  shows "\<exists>why s' es'. trap mon rd rbp eflags tf s = Inl (why, s') \<and> env_inv s' es' \<and>
    (\<forall>e. curenv s' = Some e \<longrightarrow> in_use e s')"
proof -
  have run: "running (curenv s) {} s" using inv cur by (auto simp: running_def)
  have m: "keeps c {} (mon p t)" if "running c {} t" for c p t
    using mon [of t p] that running_curenv [OF that] by simp
  obtain why s' where s': "trap mon rd rbp eflags tf s = Inl (why, s')" using trap_stops by (metis surj_pair)
  have "keeps (curenv s) {} (trap mon rd rbp eflags tf s)" using m run by (rule keeps_trap)
  with s' obtain c' where "running c' {} s'" by (auto simp: keeps_def)
  then show ?thesis using s' by (auto simp: running_def)
qed

theorem trap_keeps_env_table_witness:
  "\<exists>why s' es'. trap (\<lambda>p s. Inl (Monitor, s)) (\<lambda>_. 0) 0 0 getenvid_frame env_sample = Inl (why, s') \<and> env_inv s' es'"
proof -
  have "\<forall>e. curenv env_sample = Some e \<longrightarrow> in_use e env_sample"
    by (simp add: env_sample_def curenv_def in_use_def)
  moreover have "running (curenv s) {} s \<Longrightarrow> keeps (curenv s) {} (Inl (Monitor, s) :: unit res)" for s by (rule keeps_Inl)
  ultimately show ?thesis
    using trap_keeps_env_table [OF env_sample_inv, of "\<lambda>p s. Inl (Monitor, s)" "\<lambda>_. 0" 0 0 getenvid_frame] by blast
qed

end
