(* ===== verification/Syscall_Frame.thy ===== *)
theory Syscall_Frame
  imports Env_Inv
begin

text \<open>
  Isolation of environments: a system call that returns has changed the records of few environments, and these
  are the ones the caller may touch. A calculus like that of \<open>Env_Inv\<close>, for the results that return.
\<close>

section \<open>The calculus\<close>

named_theorems touch_rules \<open>operations that touch given environments only\<close>

definition same_but :: "nat set \<Rightarrow> kstate \<Rightarrow> kstate \<Rightarrow> bool" where
  "same_but A s t \<longleftrightarrow> curenv t = curenv s \<and> (\<forall>e. e \<notin> A \<longrightarrow> envs t e = envs s e)"

definition touches :: "nat set \<Rightarrow> kstate \<Rightarrow> 'a res \<Rightarrow> bool" where
  "touches A s r \<longleftrightarrow> (case r of Inl _ \<Rightarrow> True | Inr (_, t) \<Rightarrow> same_but A s t)"

lemma same_but_refl [simp]: "same_but A s s"
  by (simp add: same_but_def)

lemma same_but_part: "env_part t' = env_part t \<Longrightarrow> same_but A s t' = same_but A s t"
  using curenv_part [of t' t] envs_part [of t' t] by (simp add: same_but_def)

lemma same_but_upd [simp]: "e \<in> A \<Longrightarrow> same_but A s (upd_env e f t) = same_but A s t"
  by (auto simp: same_but_def upd_env_def curenv_def)

lemma same_but_quiet_upd [simp]:
  "same_but A s (st a v t) = same_but A s t" "same_but A s (lcr3 v t) = same_but A s t"
  "same_but A s (cprintf fmt args t) = same_but A s t" "same_but A s (incref p t) = same_but A s t"
  "same_but A s (t\<lparr>console := d\<rparr>) = same_but A s t"
  by (rule same_but_part, simp)+

lemma same_but_free_list [simp]: "same_but A s (t\<lparr>env_free_list := h\<rparr>) = same_but A s t"
  by (simp add: same_but_def curenv_def)

lemma touches_Inr [touch_rules]: "same_but A s t \<Longrightarrow> touches A s (Inr (x, t))"
  by (simp add: touches_def)

lemma touches_Inl [touch_rules]: "touches A s (Inl e)" "touches A s (panic msg t)"
  by (simp_all add: touches_def panic_def)

lemma touches_bindK [touch_rules]:
  "touches A s r \<Longrightarrow> (\<And>x t. r = Inr (x, t) \<Longrightarrow> same_but A s t \<Longrightarrow> touches A s (f x t)) \<Longrightarrow> touches A s (bindK r f)"
  by (cases r) (auto simp: touches_def bindK_def)

lemma touches_if [touch_rules]:
  "(b \<Longrightarrow> touches A s x) \<Longrightarrow> (\<not> b \<Longrightarrow> touches A s y) \<Longrightarrow> touches A s (if b then x else y)"
  by simp

lemma touches_option [touch_rules]:
  "(p = None \<Longrightarrow> touches A s x) \<Longrightarrow> (\<And>a. p = Some a \<Longrightarrow> touches A s (f a)) \<Longrightarrow>
   touches A s (case p of None \<Rightarrow> x | Some a \<Rightarrow> f a)"
  by (cases p) simp_all

lemma touches_prod [touch_rules]:
  "(\<And>a b. p = (a, b) \<Longrightarrow> touches A s (f a b)) \<Longrightarrow> touches A s (case p of (a, b) \<Rightarrow> f a b)"
  "(\<And>a b. p = (a, b) \<Longrightarrow> touches A s (g a b t)) \<Longrightarrow> touches A s ((case p of (a, b) \<Rightarrow> g a b) t)"
  by (cases p; simp)+

lemma touches_status [touch_rules]:
  "touches A s a \<Longrightarrow> touches A s b \<Longrightarrow> touches A s d \<Longrightarrow> touches A s e \<Longrightarrow> touches A s f \<Longrightarrow>
   touches A s (case p of ENV_FREE \<Rightarrow> a | ENV_DYING \<Rightarrow> b | ENV_RUNNABLE \<Rightarrow> d | ENV_RUNNING \<Rightarrow> e
     | ENV_NOT_RUNNABLE \<Rightarrow> f)"
  by (cases p) simp_all

lemma touches_quiet: "quiet t r \<Longrightarrow> same_but A s t \<Longrightarrow> touches A s r"
proof -
  assume q: "quiet t r" and t: "same_but A s t"
  have "same_but A s u" if "env_part u = env_part t" for u using same_but_part [OF that] t by simp
  then show ?thesis using q by (cases r) (auto simp: quiet_def touches_def)
qed

lemmas touches_memory [touch_rules] =
  touches_quiet [OF quiet_basic(2) [OF refl]] touches_quiet [OF quiet_basic(3) [OF refl]]
  touches_quiet [OF quiet_basic(5) [OF refl]] touches_quiet [OF quiet_basic(6) [OF refl]]
  touches_quiet [OF quiet_alloc(1) [OF refl]] touches_quiet [OF quiet_alloc(2) [OF refl]]
  touches_quiet [OF quiet_alloc(3) [OF refl]] touches_quiet [OF quiet_lookup [OF refl]]
  touches_quiet [OF quiet_remove [OF refl]] touches_quiet [OF quiet_insert [OF refl]]
  touches_quiet [OF quiet_user_mem_check [OF refl]] touches_quiet [OF quiet_free_loops(3) [OF refl]]

section \<open>Environments\<close>

lemma touches_sched_yield [touch_rules]: "touches A s (sched_yield t)"
  using sched_yield_stops [of t] by (auto simp: touches_def)

lemma touches_env_free: "e \<in> A \<Longrightarrow> same_but A s t \<Longrightarrow> touches A s (env_free e t)"
  unfolding env_free_def env_release_def Let_def by (intro touch_rules) simp_all

lemma touches_env_destroy: "e \<in> A \<Longrightarrow> same_but A s t \<Longrightarrow> touches A s (env_destroy e t)"
  unfolding env_destroy_def by (intro touch_rules touches_env_free) simp_all

lemma touches_user_mem_assert: "e \<in> A \<Longrightarrow> same_but A s t \<Longrightarrow> touches A s (user_mem_assert e va len perm t)"
  unfolding user_mem_assert_def by (intro touch_rules touches_env_destroy) simp_all

lemma touches_env_setup_vm: "e \<in> A \<Longrightarrow> same_but A s t \<Longrightarrow> touches A s (env_setup_vm e t)"
  unfolding env_setup_vm_def Let_def by (intro touch_rules) simp_all

lemma touches_env_alloc:
  "(\<And>e. env_free_list t = Some e \<Longrightarrow> e \<in> A) \<Longrightarrow> same_but A s t \<Longrightarrow> touches A s (env_alloc p t)"
  unfolding env_alloc_def Let_def by (intro touch_rules touches_env_setup_vm) simp_all

lemma env_alloc_slot: "env_alloc p s = Inr ((r, Some e), t) \<Longrightarrow> env_free_list s = Some e"
  by (auto simp: env_alloc_def Let_def bindK_Inr_iff split: option.splits if_splits)

section \<open>System calls\<close>

text \<open>The environments a call of the current environment may change: the caller, its children, the slot for a new one,
  and whoever waits for a message.\<close>

definition allowed :: "kstate \<Rightarrow> nat set" where
  "allowed s = {e. curenv s = Some e \<or> (\<exists>c. curenv s = Some c \<and> env_parent_id (envs s e) = env_id (envs s c)) \<or>
     env_free_list s = Some e \<or> env_ipc_recving (envs s e)}"

lemma envid2env_allowed: "envid2env i True s = Inr ((r, Some e), t) \<Longrightarrow> e \<in> allowed s"
  by (auto simp: envid2env_def Let_def bindK_Inr_iff allowed_def E_BAD_ENV_def split: if_splits)

lemma envid2env_same: "envid2env i chk s = Inr (x, t) \<Longrightarrow> t = s"
  by (auto simp: envid2env_def Let_def bindK_Inr_iff split: if_splits)

lemma touches_envid2env [touch_rules]: "same_but A s t \<Longrightarrow> touches A s (envid2env i chk t)"
  unfolding envid2env_def Let_def by (intro touch_rules)

lemma touches_getenvid [touch_rules]: "same_but A s t \<Longrightarrow> touches A s (sys_getenvid t)"
  unfolding sys_getenvid_def by (intro touch_rules)

lemma envid2env_slot:
  assumes "envid2env i True s = Inr (x, t)" "snd x = Some e"
  shows "e \<in> allowed s"
  using assms envid2env_allowed by (cases x) auto

lemma touches_calls_simple:
  "touches (allowed s) s (sys_cputs str len s)" "touches (allowed s) s (sys_cgetc s)"
  "touches (allowed s) s (sys_getenvid s)" "touches (allowed s) s (sys_yield s)"
  "touches (allowed s) s (sys_ipc_recv va s)"
proof -
  have "curenv s = Some e \<Longrightarrow> e \<in> allowed s" for e by (simp add: allowed_def)
  then show "touches (allowed s) s (sys_cputs str len s)" "touches (allowed s) s (sys_ipc_recv va s)"
    unfolding sys_cputs_def sys_ipc_recv_def sys_yield_def Let_def
    by (intro touch_rules touches_user_mem_assert; simp)+
  show "touches (allowed s) s (sys_cgetc s)" "touches (allowed s) s (sys_getenvid s)" "touches (allowed s) s (sys_yield s)"
    unfolding sys_cgetc_def sys_yield_def by (intro touch_rules; simp)+
qed

lemma touches_calls_env:
  "touches (allowed s) s (sys_env_destroy i s)" "touches (allowed s) s (sys_env_set_status i n s)"
  "touches (allowed s) s (sys_env_set_pgfault_upcall i f s)"
proof -
  show "touches (allowed s) s (sys_env_destroy i s)"
    unfolding sys_env_destroy_def Let_def
    by (intro touch_rules touches_env_destroy) (auto dest: envid2env_slot)
  show "touches (allowed s) s (sys_env_set_status i n s)"
    unfolding sys_env_set_status_def
    by (intro touch_rules) (auto dest: envid2env_slot)
  show "touches (allowed s) s (sys_env_set_pgfault_upcall i f s)"
    unfolding sys_env_set_pgfault_upcall_def
    by (intro touch_rules) (auto dest: envid2env_slot)
qed

lemma touches_calls_page:
  "touches A s (sys_page_alloc i va perm s)" "touches A s (sys_page_map i va j vb perm s)"
  "touches A s (sys_page_unmap i va s)"
  unfolding sys_page_alloc_def sys_page_map_def sys_page_unmap_def by (intro touch_rules; simp)+

lemma touches_exofork: "touches (allowed s) s (sys_exofork s)"
  unfolding sys_exofork_def Let_def
  by (intro touch_rules touches_env_alloc) (auto simp: allowed_def dest: env_alloc_slot)

lemma touches_ipc_send_page: "e \<in> A \<Longrightarrow> same_but A s t \<Longrightarrow> touches A s (ipc_send_page e va perm t)"
  unfolding ipc_send_page_def by (intro touch_rules) simp_all

lemma touches_ipc_try_send: "touches (allowed s) s (sys_ipc_try_send i v va perm s)"
proof -
  have "e \<in> allowed s" if "envid2env i False s = Inr (x, t)" "env_ipc_recving (envs t e)" for x t e
    using envid2env_same [OF that(1)] that(2) by (simp add: allowed_def)
  then show ?thesis
    unfolding sys_ipc_try_send_def by (intro touch_rules touches_ipc_send_page) auto
qed

lemma touches_syscall: "touches (allowed s) s (syscall n a1 a2 a3 a4 a5 s)"
  unfolding syscall_def
  by (intro touch_rules touches_calls_simple touches_calls_env touches_calls_page touches_exofork touches_ipc_try_send)
    simp_all

text \<open>C5: Isolation. A system call that returns, whichever it is and whatever its arguments and the state of memory, has
  changed the record of an environment only if that is the caller, a child of the caller, the free
  slot that is next in line, or an environment that waits for a message; the caller stays the current
  environment.\<close>

theorem syscall_isolation:
  assumes "syscall n a1 a2 a3 a4 a5 s = Inr (r, s')" and "curenv s = Some c" and "envs s' e \<noteq> envs s e"
  shows "curenv s' = Some c \<and>
    (e = c \<or> env_parent_id (envs s e) = env_id (envs s c) \<or> env_free_list s = Some e \<or> env_ipc_recving (envs s e))"
  using touches_syscall [of s n a1 a2 a3 a4 a5] assms by (auto simp: touches_def same_but_def allowed_def)

text \<open>The parent in slot 0 stops its child in slot 1.\<close>

theorem syscall_isolation_witness:
  "\<exists>s'. syscall SYS_env_set_status (ucast (gen_id 1 1)) 4 0 0 0 env_sample = Inr (0, s') \<and> envs s' 1 \<noteq> envs env_sample 1 \<and>
     (1 = (0 :: nat) \<or> env_parent_id (envs env_sample 1) = env_id (envs env_sample 0) \<or>
      env_free_list env_sample = Some 1 \<or> env_ipc_recving (envs env_sample 1))"
proof -
  have x: "ENVX (gen_id 1 1) = 1" "gen_id 1 1 \<noteq> 0" using gen_id_facts [of 1 1] by (simp_all add: NENV_val)
  have cc: "ucast (ucast w :: u64) = w" for w :: u32 by (rule bit_word_eqI) (auto simp: bit_simps)
  let ?s = "upd_env 1 (\<lambda>x. x\<lparr>env_status := ENV_NOT_RUNNABLE\<rparr>) env_sample"
  have run: "syscall SYS_env_set_status (ucast (gen_id 1 1)) 4 0 0 0 env_sample = Inr (0, ?s)"
    using x by (simp add: cc syscall_def syscall_numbers sys_env_set_status_def envid2env_def env_sample_def curenv_def
        status_of_int_def Let_def)
  have ch: "envs ?s 1 \<noteq> envs env_sample 1" by (simp add: upd_env_def env_sample_def zero_env_def)
  have "curenv env_sample = Some 0" by (simp add: env_sample_def curenv_def)
  with syscall_isolation [OF run _ ch, of 0] run ch show ?thesis by blast
qed

end
