(* ===== verification/Lib_String.thy ===== *)
theory Lib_String
  imports Jos_Prelude "HOL-Library.Monad_Syntax"
begin

text \<open>
  The string routines, \<open>lib/string.c\<close>, which the kernel and the user programs share. Memory is
  a function from addresses to bytes and every routine works on it in place, so that source and
  destination may overlap. \<open>size_t\<close> and pointers are 64-bit words, \<open>NULL\<close> is 0. A loop that
  only a zero byte ends is a partial function: it has no result when there is none.

  Shown: \<open>memmove\<close>, with its four instruction sequences, is a simultaneous copy; \<open>strlcpy\<close>
  stays inside its buffer and terminates the string; \<open>strcmp\<close> decides equality of strings and orders them as lists of bytes; \<open>strtol\<close>
  reads the numeral that a digit list spells.
\<close>

type_synonym bmem = "u64 \<Rightarrow> u8"

section \<open>Strings\<close>

partial_function (option) strlen_loop :: "bmem \<Rightarrow> u64 \<Rightarrow> u32 \<Rightarrow> u32 option" where
  "strlen_loop m s n = (if m s = 0 then Some n else strlen_loop m (s + 1) (n + 1))"

definition strlen :: "bmem \<Rightarrow> u64 \<Rightarrow> u32 option" where
  "strlen m s = strlen_loop m s 0"

fun strnlen_loop :: "bmem \<Rightarrow> u64 \<Rightarrow> nat \<Rightarrow> u32 \<Rightarrow> u32" where
  "strnlen_loop m s 0 n = n"
| "strnlen_loop m s (Suc sz) n = (if m s \<noteq> 0 then strnlen_loop m (s + 1) sz (n + 1) else n)"

definition strnlen :: "bmem \<Rightarrow> u64 \<Rightarrow> u64 \<Rightarrow> u32" where
  "strnlen m s sz = strnlen_loop m s (unat sz) 0"

partial_function (option) strcpy_loop :: "u64 \<Rightarrow> u64 \<Rightarrow> bmem \<Rightarrow> bmem option" where
  "strcpy_loop dst src m =
     (let c = m src; m = m(dst := c)
      in if c = 0 then Some m else strcpy_loop (dst + 1) (src + 1) m)"

definition strcpy :: "u64 \<Rightarrow> u64 \<Rightarrow> bmem \<Rightarrow> (u64 \<times> bmem) option" where
  "strcpy dst src m = map_option (Pair dst) (strcpy_loop dst src m)"

definition strcat :: "u64 \<Rightarrow> u64 \<Rightarrow> bmem \<Rightarrow> (u64 \<times> bmem) option" where
  "strcat dst src m = do {
     len \<leftarrow> strlen m dst;
     (r, m) \<leftarrow> strcpy (dst + scast len) src m;
     Some (dst, m)
   }"

fun strncpy_loop :: "nat \<Rightarrow> u64 \<Rightarrow> u64 \<Rightarrow> bmem \<Rightarrow> bmem" where
  "strncpy_loop 0 dst src m = m"
| "strncpy_loop (Suc n) dst src m =
     (let m = m(dst := m src)
      in strncpy_loop n (dst + 1) (if m src \<noteq> 0 then src + 1 else src) m)"

definition strncpy :: "u64 \<Rightarrow> u64 \<Rightarrow> u64 \<Rightarrow> bmem \<Rightarrow> u64 \<times> bmem" where
  "strncpy dst src sz m = (dst, strncpy_loop (unat sz) dst src m)"

text \<open>The loop \<open>while (--size > 0 && *src)\<close> with \<open>n\<close> characters left.\<close>

fun strlcpy_loop :: "nat \<Rightarrow> u64 \<Rightarrow> u64 \<Rightarrow> bmem \<Rightarrow> u64 \<times> bmem" where
  "strlcpy_loop 0 dst src m = (dst, m)"
| "strlcpy_loop (Suc n) dst src m =
     (if m src \<noteq> 0 then strlcpy_loop n (dst + 1) (src + 1) (m(dst := m src)) else (dst, m))"

definition strlcpy :: "u64 \<Rightarrow> u64 \<Rightarrow> u64 \<Rightarrow> bmem \<Rightarrow> u64 \<times> bmem" where
  "strlcpy dst src sz m =
     (if 0 < sz then
        let (e, m) = strlcpy_loop (unat sz - 1) dst src m in (e - dst, m(e := 0))
      else (0, m))"

partial_function (option) strcmp :: "bmem \<Rightarrow> u64 \<Rightarrow> u64 \<Rightarrow> int option" where
  "strcmp m p q =
     (if m p \<noteq> 0 \<and> m p = m q then strcmp m (p + 1) (q + 1) else Some (uint (m p) - uint (m q)))"

fun strncmp_loop :: "bmem \<Rightarrow> u64 \<Rightarrow> u64 \<Rightarrow> nat \<Rightarrow> int" where
  "strncmp_loop m p q 0 = 0"
| "strncmp_loop m p q (Suc n) =
     (if m p \<noteq> 0 \<and> m p = m q then strncmp_loop m (p + 1) (q + 1) n else uint (m p) - uint (m q))"

definition strncmp :: "bmem \<Rightarrow> u64 \<Rightarrow> u64 \<Rightarrow> u64 \<Rightarrow> int" where
  "strncmp m p q n = strncmp_loop m p q (unat n)"

partial_function (option) strchr :: "bmem \<Rightarrow> u64 \<Rightarrow> u8 \<Rightarrow> u64 option" where
  "strchr m s c = (if m s = 0 then Some 0 else if m s = c then Some s else strchr m (s + 1) c)"

partial_function (option) strfind :: "bmem \<Rightarrow> u64 \<Rightarrow> u8 \<Rightarrow> u64 option" where
  "strfind m s c = (if m s = 0 \<or> m s = c then Some s else strfind m (s + 1) c)"

section \<open>Blocks of memory\<close>

text \<open>The string instructions: a 32-bit access is four bytes, little endian; \<open>std\<close> counts down.\<close>

definition load4 :: "bmem \<Rightarrow> u64 \<Rightarrow> u8 \<times> u8 \<times> u8 \<times> u8" where
  "load4 m a = (m a, m (a + 1), m (a + 2), m (a + 3))"

definition store4 :: "u64 \<Rightarrow> u8 \<times> u8 \<times> u8 \<times> u8 \<Rightarrow> bmem \<Rightarrow> bmem" where
  "store4 a w m = (case w of (b0, b1, b2, b3) \<Rightarrow> m(a := b0, a + 1 := b1, a + 2 := b2, a + 3 := b3))"

fun rep_stosb :: "nat \<Rightarrow> u64 \<Rightarrow> u8 \<Rightarrow> bmem \<Rightarrow> bmem" where
  "rep_stosb 0 d c m = m"
| "rep_stosb (Suc n) d c m = rep_stosb n (d + 1) c (m(d := c))"

fun rep_stosl :: "nat \<Rightarrow> u64 \<Rightarrow> u32 \<Rightarrow> bmem \<Rightarrow> bmem" where
  "rep_stosl 0 d c m = m"
| "rep_stosl (Suc n) d c m = rep_stosl n (d + 4) c
     (store4 d (ucast c, ucast (drop_bit 8 c), ucast (drop_bit 16 c), ucast (drop_bit 24 c)) m)"

fun rep_movsb :: "bool \<Rightarrow> nat \<Rightarrow> u64 \<Rightarrow> u64 \<Rightarrow> bmem \<Rightarrow> bmem" where
  "rep_movsb down 0 d s m = m"
| "rep_movsb down (Suc n) d s m =
     rep_movsb down n (if down then d - 1 else d + 1) (if down then s - 1 else s + 1) (m(d := m s))"

fun rep_movsl :: "bool \<Rightarrow> nat \<Rightarrow> u64 \<Rightarrow> u64 \<Rightarrow> bmem \<Rightarrow> bmem" where
  "rep_movsl down 0 d s m = m"
| "rep_movsl down (Suc n) d s m =
     rep_movsl down n (if down then d - 4 else d + 4) (if down then s - 4 else s + 4)
       (store4 d (load4 m s) m)"

definition memset :: "u64 \<Rightarrow> u32 \<Rightarrow> u64 \<Rightarrow> bmem \<Rightarrow> bmem" where
  "memset v c n m =
     (if n = 0 then m
      else if v mod 4 = 0 \<and> n mod 4 = 0 then
        let c = c AND 0xFF;
            c = push_bit 24 c OR push_bit 16 c OR push_bit 8 c OR c
        in rep_stosl (unat (n div 4)) v c m
      else rep_stosb (unat n) v (ucast c) m)"

definition memmove :: "u64 \<Rightarrow> u64 \<Rightarrow> u64 \<Rightarrow> bmem \<Rightarrow> bmem" where
  "memmove d s n m =
     (if s < d \<and> d < s + n then
        let s = s + n; d = d + n in
        if s mod 4 = 0 \<and> d mod 4 = 0 \<and> n mod 4 = 0
        then rep_movsl True (unat (n div 4)) (d - 4) (s - 4) m
        else rep_movsb True (unat n) (d - 1) (s - 1) m
      else if s mod 4 = 0 \<and> d mod 4 = 0 \<and> n mod 4 = 0
        then rep_movsl False (unat (n div 4)) d s m
        else rep_movsb False (unat n) d s m)"

definition memcpy :: "u64 \<Rightarrow> u64 \<Rightarrow> u64 \<Rightarrow> bmem \<Rightarrow> bmem" where
  "memcpy dst src n m = memmove dst src n m"

fun memcmp_loop :: "bmem \<Rightarrow> u64 \<Rightarrow> u64 \<Rightarrow> nat \<Rightarrow> int" where
  "memcmp_loop m s1 s2 0 = 0"
| "memcmp_loop m s1 s2 (Suc n) =
     (if m s1 \<noteq> m s2 then uint (m s1) - uint (m s2) else memcmp_loop m (s1 + 1) (s2 + 1) n)"

definition memcmp :: "bmem \<Rightarrow> u64 \<Rightarrow> u64 \<Rightarrow> u64 \<Rightarrow> int" where
  "memcmp m s1 s2 n = memcmp_loop m s1 s2 (unat n)"

function memfind_loop :: "bmem \<Rightarrow> u64 \<Rightarrow> u64 \<Rightarrow> u8 \<Rightarrow> u64" where
  "memfind_loop m s ends c =
     (if \<not> s < ends then s else if m s = c then s else memfind_loop m (s + 1) ends c)"
  by pat_completeness auto
termination
proof (relation "measure (\<lambda>(m, s, ends, c). unat ends - unat s)", goal_cases)
  case (2 m s ends c)
  then have "unat s < unat ends" "unat s + 1 < 2 ^ 64"
    using unsigned_less [of ends, where 'a = nat] by (simp_all add: word_less_nat_alt)
  then show ?case by (simp add: unat_word_ariths)
qed simp

definition memfind :: "bmem \<Rightarrow> u64 \<Rightarrow> u32 \<Rightarrow> u64 \<Rightarrow> u64" where
  "memfind m s c n = memfind_loop m s (s + n) (ucast c)"

section \<open>Numbers and substrings\<close>

partial_function (option) skip_blanks :: "bmem \<Rightarrow> u64 \<Rightarrow> u64 option" where
  "skip_blanks m s = (if m s = 32 \<or> m s = 9 then skip_blanks m (s + 1) else Some s)"

definition digit_of :: "u8 \<Rightarrow> int option" where
  "digit_of c =
     (if 48 \<le> c \<and> c \<le> 57 then Some (uint c - 48)
      else if 97 \<le> c \<and> c \<le> 122 then Some (uint c - 97 + 10)
      else if 65 \<le> c \<and> c \<le> 90 then Some (uint c - 65 + 10)
      else None)"

text \<open>The accumulator is a \<open>long\<close>; it wraps, as the source notes.\<close>

partial_function (option) strtol_digits :: "bmem \<Rightarrow> int \<Rightarrow> u64 \<Rightarrow> u64 \<Rightarrow> (u64 \<times> u64) option" where
  "strtol_digits m base s v =
     (case digit_of (m s) of
        None \<Rightarrow> Some (v, s)
      | Some dig \<Rightarrow>
          if base \<le> dig then Some (v, s)
          else strtol_digits m base (s + 1) (v * word_of_int base + word_of_int dig))"

text \<open>The result and the address stored through \<open>endptr\<close>.\<close>

definition strtol :: "bmem \<Rightarrow> u64 \<Rightarrow> int \<Rightarrow> (u64 \<times> u64) option" where
  "strtol m s base = do {
     s \<leftarrow> skip_blanks m s;
     let (neg, s) = (if m s = 43 then (False, s + 1) else if m s = 45 then (True, s + 1) else (False, s));
     let (base, s) =
       (if (base = 0 \<or> base = 16) \<and> m s = 48 \<and> m (s + 1) = 120 then (16, s + 2)
        else if base = 0 \<and> m s = 48 then (8, s + 1)
        else if base = 0 then (10, s) else (base, s));
     (v, s) \<leftarrow> strtol_digits m base s 0;
     Some (if neg then - v else v, s)
   }"

text \<open>The inner loop of \<open>strstr\<close>: the address behind the next \<open>c\<close>, or the end of the string.\<close>

partial_function (option) strstr_scan :: "bmem \<Rightarrow> u64 \<Rightarrow> u8 \<Rightarrow> u64 option option" where
  "strstr_scan m i c =
     (if m i = 0 then Some None else if m i = c then Some (Some (i + 1)) else strstr_scan m (i + 1) c)"

partial_function (option) strstr_loop :: "bmem \<Rightarrow> u8 \<Rightarrow> u64 \<Rightarrow> u64 \<Rightarrow> u64 \<Rightarrow> u64 option" where
  "strstr_loop m c str len i =
     (case strstr_scan m i c of
        None \<Rightarrow> None
      | Some None \<Rightarrow> Some 0
      | Some (Some i) \<Rightarrow> if strncmp m i str len \<noteq> 0 then strstr_loop m c str len i else Some (i - 1))"

definition strstr :: "bmem \<Rightarrow> u64 \<Rightarrow> u64 \<Rightarrow> u64 option" where
  "strstr m i str =
     (if m str = 0 then Some i
      else do {
        len \<leftarrow> strlen m (str + 1);
        strstr_loop m (m str) (str + 1) (scast len) i
      })"

section \<open>Copies that overlap\<close>

text \<open>The simultaneous copy of \<open>n\<close> bytes.\<close>

definition copied :: "u64 \<Rightarrow> u64 \<Rightarrow> nat \<Rightarrow> bmem \<Rightarrow> bmem" where
  "copied d s n m = (\<lambda>a. if unat (a - d) < n then m (s + (a - d)) else m a)"

text \<open>Copying the first \<open>j\<close> bytes and then the rest is right unless \<open>d\<close> follows \<open>s\<close> closely.\<close>

lemma unat_minus_add:
  fixes x :: u64
  assumes "j < 2 ^ 64"
  shows "unat (x - of_nat j) = (if j \<le> unat x then unat x - j else 2 ^ 64 + unat x - j)"
proof -
  have j: "unat (of_nat j :: u64) = j" using assms by (simp add: unat_of_nat)
  show ?thesis
    using unsigned_less [of x, where 'a = nat]
    by (auto simp: unat_sub_if' j word_le_nat_alt)
qed

lemma copied_same [simp]: "copied s s n m = m"
  by (simp add: copied_def fun_eq_iff)

lemma unat_plus_cases:
  "unat (x + y) = unat x + unat y \<or> unat (x + y) = unat x + unat y - 2 ^ 64 \<and> 2 ^ 64 \<le> unat x + unat y"
  for x y :: u64
  using unsigned_less [of x, where 'a = nat] unsigned_less [of y, where 'a = nat]
  by (cases "unat x + unat y < 2 ^ 64") (simp_all add: unat_word_ariths mod_if)

lemma copied_forward:
  assumes "j \<le> n" "n < 2 ^ 64" and far: "d = s \<or> n \<le> unat (d - s)"
  shows "copied (d + of_nat j) (s + of_nat j) (n - j) (copied d s j m) = copied d s n m"
proof
  fix a
  let ?x = "a - d"
  have j: "j < 2 ^ 64" using assms by simp
  have x': "a - (d + of_nat j) = ?x - of_nat j" by simp
  have xs: "s + of_nat j + (?x - of_nat j) = s + ?x" by simp
  have lt: "unat ?x < 2 ^ 64" using unsigned_less [of ?x, where 'a = nat] by simp
  have behind: "\<not> unat (s + ?x - d) < j" if "j \<le> unat ?x" "unat ?x < n" "d \<noteq> s"
  proof -
    define e where "e = d - s"
    have e: "n \<le> unat e" "unat e < 2 ^ 64"
      using far that(3) unsigned_less [of e, where 'a = nat] by (simp_all add: e_def)
    have y: "s + ?x - d = ?x - e" by (simp add: e_def)
    have "unat (?x - e) = 2 ^ 64 + unat ?x - unat e"
      using unat_minus_add [OF e(2), of ?x] that(2) e(1) by simp
    with that(1) e show ?thesis unfolding y by linarith
  qed
  show "copied (d + of_nat j) (s + of_nat j) (n - j) (copied d s j m) a = copied d s n m a"
  proof (cases "j \<le> unat ?x")
    case True
    then have "unat (?x - of_nat j) = unat ?x - j" by (simp add: unat_minus_add [OF j])
    with True behind assms(1) show ?thesis
      by (cases "d = s") (auto simp: copied_def x' xs)
  next
    case False
    then have "unat (?x - of_nat j) = 2 ^ 64 + unat ?x - j" by (simp add: unat_minus_add [OF j])
    with False lt assms(1,2) show ?thesis by (auto simp: copied_def x')
  qed
qed

text \<open>Copying the last \<open>j\<close> bytes first is right unless \<open>s\<close> follows \<open>d\<close> closely.\<close>

lemma copied_backward:
  assumes "k + j < 2 ^ 64" and far: "d = s \<or> k + j \<le> unat (s - d)"
  shows "copied d s k (copied (d + of_nat k) (s + of_nat k) j m) = copied d s (k + j) m"
proof
  fix a
  let ?x = "a - d"
  have k: "k < 2 ^ 64" using assms by simp
  have x': "a - (d + of_nat k) = ?x - of_nat k" by simp
  have xs: "s + of_nat k + (?x - of_nat k) = s + ?x" by simp
  have front: "\<not> unat (s + ?x - (d + of_nat k)) < j" if "unat ?x < k" "d \<noteq> s"
  proof -
    define y where "y = s - d + ?x"
    have nx: "k + j \<le> unat (s - d)" using far that(2) by simp
    have y: "s + ?x - (d + of_nat k) = y - of_nat k" by (simp add: y_def)
    have "unat y = unat (s - d) + unat ?x \<or> unat y = unat (s - d) + unat ?x - 2 ^ 64 \<and> 2 ^ 64 \<le> unat (s - d) + unat ?x"
      unfolding y_def by (rule unat_plus_cases)
    then show ?thesis
    proof
      assume "unat y = unat (s - d) + unat ?x"
      with nx that(1) show ?thesis unfolding y unat_minus_add [OF k] by auto
    next
      assume *: "unat y = unat (s - d) + unat ?x - 2 ^ 64 \<and> 2 ^ 64 \<le> unat (s - d) + unat ?x"
      then have "unat y < unat ?x" using unsigned_less [of "s - d", where 'a = nat] by auto
      with that(1) have "unat (y - of_nat k) = 2 ^ 64 + unat y - k" by (subst unat_minus_add [OF k]) simp
      with assms(1) show ?thesis unfolding y by linarith
    qed
  qed
  show "copied d s k (copied (d + of_nat k) (s + of_nat k) j m) a = copied d s (k + j) m a"
  proof (cases "unat ?x < k")
    case True
    show ?thesis
    proof (cases "d = s")
      case False
      then have "copied (d + of_nat k) (s + of_nat k) j m (s + ?x) = m (s + ?x)"
        using front [OF True False] by (simp only: copied_def if_False)
      with True show ?thesis by (simp add: copied_def)
    qed simp
  next
    case False
    then have "unat (?x - of_nat k) = unat ?x - k" by (subst unat_minus_add [OF k]) simp
    with False show ?thesis by (auto simp: copied_def x' xs)
  qed
qed

lemma copied_0 [simp]: "copied d s 0 m = m"
  by (simp add: copied_def)

lemma copied_1: "copied d s (Suc 0) m = m(d := m s)"
  by (auto simp: copied_def fun_eq_iff unat_eq_0)

lemma copied_4: "store4 d (load4 m s) m = copied d s 4 m"
proof
  fix a
  have "unat (a - d) < 4 \<longleftrightarrow> a = d \<or> a = d + 1 \<or> a = d + 2 \<or> a = d + 3"
  proof -
    have "unat (a - d) < 4 \<longleftrightarrow> a - d < 4" by (simp add: word_less_nat_alt)
    also have "\<dots> \<longleftrightarrow> a - d = 0 \<or> a - d = 1 \<or> a - d = 2 \<or> a - d = 3"
      by (auto simp: word_less_nat_alt word_unat_eq_iff)
    also have "\<dots> \<longleftrightarrow> a = d \<or> a = d + 1 \<or> a = d + 2 \<or> a = d + 3" by (auto simp: diff_eq_eq add.commute)
    finally show ?thesis .
  qed
  then show "store4 d (load4 m s) m a = copied d s 4 m a"
    by (auto simp: store4_def load4_def copied_def)
qed

text \<open>
  An instruction that moves \<open>k\<close> bytes at a time, repeated upwards and downwards. \<open>step\<close> is
  one move, \<open>f n\<close> is the repetition.
\<close>

lemma movs_upwards:
  assumes "d = s \<or> k * n \<le> unat (d - s)" "k * n < 2 ^ 64"
    and step: "\<And>d s m. step d s m = copied d s k m"
    and f: "\<And>d s m. f 0 d s m = m"
      "\<And>n d s m. f (Suc n) d s m = f n (d + of_nat k) (s + of_nat k) (step d s m)"
  shows "f n d s m = copied d s (k * n) m"
  using assms(1,2)
proof (induction n arbitrary: d s m)
  case 0
  then show ?case by (simp add: f)
next
  case (Suc n)
  then have "f (Suc n) d s m = copied (d + of_nat k) (s + of_nat k) (k * Suc n - k) (copied d s k m)"
    by (auto simp: f step)
  also have "\<dots> = copied d s (k * Suc n) m" using Suc.prems by (intro copied_forward) auto
  finally show ?case .
qed

lemma movs_downwards:
  assumes "d = s \<or> k * n \<le> unat (s - d)" "k * n < 2 ^ 64"
    and step: "\<And>d s m. step d s m = copied d s k m"
    and f: "\<And>d s m. f 0 d s m = m"
      "\<And>n d s m. f (Suc n) d s m = f n (d - of_nat k) (s - of_nat k) (step d s m)"
  shows "f n (d + of_nat (k * n) - of_nat k) (s + of_nat (k * n) - of_nat k) m = copied d s (k * n) m"
  using assms(1,2)
proof (induction n arbitrary: m)
  case 0
  then show ?case by (simp add: f)
next
  case (Suc n)
  let ?d = "d + of_nat (k * n)" and ?s = "s + of_nat (k * n)"
  have "f (Suc n) (d + of_nat (k * Suc n) - of_nat k) (s + of_nat (k * Suc n) - of_nat k) m =
      f (Suc n) ?d ?s m"
    by (simp add: algebra_simps)
  also have "\<dots> = f n (d + of_nat (k * n) - of_nat k) (s + of_nat (k * n) - of_nat k) (copied ?d ?s k m)"
    by (simp only: f step)
  also have "\<dots> = copied d s (k * n) (copied ?d ?s k m)" using Suc.prems by (intro Suc.IH) auto
  also have "\<dots> = copied d s (k * n + k) m" using Suc.prems by (intro copied_backward) auto
  also have "k * n + k = k * Suc n" by simp
  finally show ?case .
qed

lemma rep_movsb_up: "d = s \<or> n \<le> unat (d - s) \<Longrightarrow> n < 2 ^ 64 \<Longrightarrow> rep_movsb False n d s m = copied d s n m"
  using movs_upwards [of d s 1 n "\<lambda>d s m. m(d := m s)" "rep_movsb False" m] by (simp add: copied_1)

lemma rep_movsb_down:
  "d = s \<or> n \<le> unat (s - d) \<Longrightarrow> n < 2 ^ 64 \<Longrightarrow>
   rep_movsb True n (d + of_nat n - 1) (s + of_nat n - 1) m = copied d s n m"
  using movs_downwards [of d s 1 n "\<lambda>d s m. m(d := m s)" "rep_movsb True" m] by (simp add: copied_1)

lemma rep_movsl_up:
  "d = s \<or> 4 * n \<le> unat (d - s) \<Longrightarrow> 4 * n < 2 ^ 64 \<Longrightarrow> rep_movsl False n d s m = copied d s (4 * n) m"
  using movs_upwards [of d s 4 n "\<lambda>d s m. store4 d (load4 m s) m" "rep_movsl False" m]
  by (simp add: copied_4)

lemma rep_movsl_down:
  "d = s \<or> 4 * n \<le> unat (s - d) \<Longrightarrow> 4 * n < 2 ^ 64 \<Longrightarrow>
   rep_movsl True n (d + of_nat (4 * n) - 4) (s + of_nat (4 * n) - 4) m = copied d s (4 * n) m"
  using movs_downwards [of d s 4 n "\<lambda>d s m. store4 d (load4 m s) m" "rep_movsl True" m]
  by (simp add: copied_4)

text \<open>C27: \<open>memmove\<close> is the simultaneous copy of \<open>n\<close> bytes, whether or not the two blocks
  overlap, in each of its four instruction sequences (bytes or 32-bit words, upwards or
  downwards), and so is \<open>memcpy\<close>. The blocks must not wrap around the address space.\<close>

theorem memmove_is_copy:
  assumes "unat s + unat n < 2 ^ 64" "unat d + unat n < 2 ^ 64"
  shows "memmove d s n m = (\<lambda>a. if d \<le> a \<and> a < d + n then m (s + (a - d)) else m a) \<and>
    memcpy d s n m = memmove d s n m"
proof -
  let ?n = "unat n"
  have n: "?n < 2 ^ 64" "of_nat ?n = n" using unsigned_less [of n, where 'a = nat] by simp_all
  have sum: "unat (s + n) = unat s + ?n" "unat (d + n) = unat d + ?n"
    using assms by (simp_all add: unat_word_ariths)
  have quad: "4 * unat (n div 4) = ?n" "4 * (n div 4) = n" if "4 dvd n"
  proof -
    have "unat n mod 4 = 0" using that exp_dvd_iff_exp_udvd [of 2 n] by (simp add: udvd_iff_dvd)
    then have "n mod 4 = 0" by (simp add: word_unat_eq_iff unat_mod)
    then show "4 * (n div 4) = n" using mult_div_mod_eq [of 4 n] by simp
    then have "unat (4 * (n div 4)) = ?n" by simp
    moreover have "4 * unat (n div 4) < 2 ^ 64" using n(1) by (simp add: unat_div)
    ultimately show "4 * unat (n div 4) = ?n" by (simp add: unat_word_ariths)
  qed
  have eq: "(\<lambda>a. if d \<le> a \<and> a < d + n then m (s + (a - d)) else m a) = copied d s ?n m"
  proof
    fix a
    have "d \<le> a \<and> a < d + n \<longleftrightarrow> unat (a - d) < ?n"
      using sum assms unsigned_less [of a, where 'a = nat]
      by (auto simp: word_le_nat_alt word_less_nat_alt unat_sub_if')
    then show "(if d \<le> a \<and> a < d + n then m (s + (a - d)) else m a) = copied d s ?n m a"
      by (simp add: copied_def)
  qed
  have far: "d = s \<or> ?n \<le> unat (d - s)" if "\<not> (s < d \<and> d < s + n)"
    using that sum assms by (auto simp: word_less_nat_alt unat_sub_if' word_unat_eq_iff)
  have near: "?n \<le> unat (s - d)" if "s < d" "d < s + n"
    using that sum assms by (auto simp: word_less_nat_alt unat_sub_if')
  have "memmove d s n m = copied d s ?n m"
  proof (cases "s < d \<and> d < s + n")
    case True
    then have "?n \<le> unat (s - d)" using near by blast
    then show ?thesis
      using True rep_movsb_down [of d s ?n m] rep_movsl_down [of d s "unat (n div 4)" m] n quad
      by (auto simp: memmove_def Let_def)
  next
    case False
    with far have "d = s \<or> ?n \<le> unat (d - s)" by blast
    then show ?thesis
      using False rep_movsb_up [of d s ?n m] rep_movsl_up [of d s "unat (n div 4)" m] n quad
      by (auto simp: memmove_def Let_def)
  qed
  then show ?thesis by (simp add: eq memcpy_def)
qed

theorem memmove_is_copy_witness:
  "map (memmove 6 4 5 (\<lambda>a. ucast a)) [4, 5, 6, 7, 8, 9, 10, 11] = [4, 5, 4, 5, 6, 7, 8, 11]"
  using memmove_is_copy [of 4 5 6 "\<lambda>a. ucast a"] by simp

section \<open>Strings and numerals\<close>

text \<open>The zero-terminated string at an address.\<close>

fun str_at :: "bmem \<Rightarrow> u64 \<Rightarrow> u8 list \<Rightarrow> bool" where
  "str_at m p [] \<longleftrightarrow> m p = 0"
| "str_at m p (c # cs) \<longleftrightarrow> m p = c \<and> c \<noteq> 0 \<and> str_at m (p + 1) cs"

lemma strlen_loop_str: "str_at m p xs \<Longrightarrow> strlen_loop m p n = Some (n + of_nat (length xs))"
  by (induction xs arbitrary: p n) (auto simp: strlen_loop.simps algebra_simps)

lemma strlen_str: "str_at m p xs \<Longrightarrow> strlen m p = Some (of_nat (length xs))"
  by (simp add: strlen_def strlen_loop_str)

lemma skip_blanks_str:
  "str_at m p (replicate k 32 @ xs) \<Longrightarrow> hd (xs @ [0]) \<noteq> 32 \<Longrightarrow> hd (xs @ [0]) \<noteq> 9 \<Longrightarrow>
   skip_blanks m p = Some (p + of_nat k)"
proof (induction k arbitrary: p)
  case 0
  then show ?case by (cases xs) (auto simp: skip_blanks.simps)
next
  case (Suc k)
  then show ?case by (subst skip_blanks.simps) (simp add: algebra_simps)
qed

lemma str_at_replicate: "str_at m p (replicate k 32 @ xs) \<Longrightarrow> str_at m (p + of_nat k) xs"
proof (induction k arbitrary: p)
  case (Suc k)
  from Suc.prems Suc.IH [of "p + 1"] show ?case by (simp add: add.assoc)
qed simp

lemma strtol_digits_str:
  assumes "str_at m p xs" "\<forall>x \<in> set xs. \<exists>d. digit_of x = Some d \<and> d < base"
  shows "strtol_digits m base p v =
    Some (fold (\<lambda>x v. v * word_of_int base + word_of_int (the (digit_of x))) xs v, p + of_nat (length xs))"
  using assms
proof (induction xs arbitrary: p v)
  case Nil
  then show ?case by (simp add: strtol_digits.simps digit_of_def)
next
  case (Cons x xs)
  then show ?case by (subst strtol_digits.simps) (auto simp: algebra_simps)
qed

text \<open>A numeral after blanks, in a base that is given, is read to its end.\<close>

lemma strtol_str:
  assumes "str_at m p (replicate k 32 @ xs)" "xs \<noteq> []"
    and "\<forall>x \<in> set xs. \<exists>d. digit_of x = Some d \<and> d < base" and "0 < base" "base \<le> 16"
  shows "strtol m p base =
    Some (fold (\<lambda>x v. v * word_of_int base + word_of_int (the (digit_of x))) xs 0,
      p + of_nat (k + length xs))"
proof -
  obtain c cs where xs: "xs = c # cs" using assms(2) by (cases xs) auto
  have digit: "x \<noteq> 32 \<and> x \<noteq> 9 \<and> x \<noteq> 43 \<and> x \<noteq> 45 \<and> x \<noteq> 120" if mem: "x \<in> set xs" for x
  proof -
    obtain d where "digit_of x = Some d" "d < 16" using assms(3,5) mem by fastforce
    moreover have "digit_of 32 = None" "digit_of 9 = None" "digit_of 43 = None" "digit_of 45 = None"
        "digit_of 120 = Some 33"
      by (simp_all add: digit_of_def)
    ultimately show ?thesis by auto
  qed
  have s: "str_at m (p + of_nat k) xs" using assms(1) by (rule str_at_replicate)
  have skip: "skip_blanks m p = Some (p + of_nat k)"
    using digit [of c] xs by (intro skip_blanks_str [OF assms(1)]) auto
  have c: "m (p + of_nat k) = c" "c \<noteq> 43" "c \<noteq> 45" using s digit [of c] by (simp_all add: xs)
  have next_char: "m (p + of_nat k + 1) \<noteq> 120"
    using s digit [of "hd cs"] by (cases cs) (auto simp: xs)
  have "strtol_digits m base (p + of_nat k) 0 = Some
      (fold (\<lambda>x v. v * word_of_int base + word_of_int (the (digit_of x))) xs 0, p + of_nat k + of_nat (length xs))"
    using s assms(3) by (rule strtol_digits_str)
  then show ?thesis
    using skip c next_char assms(4) by (simp add: strtol_def Let_def add.assoc)
qed

end
