(* ===== verification/Printfmt.thy ===== *)
theory Printfmt
  imports Lib_String Kstate
begin

text \<open>
  Formatted output: \<open>lib/printfmt.c\<close> and its three clients, \<open>snprintf\<close>, the \<open>cprintf\<close> of the
  kernel (\<open>kern/printf.c\<close>) and the \<open>cprintf\<close> of user programs (\<open>lib/printf.c\<close>).

  The callback \<open>putch\<close> with its argument \<open>putdat\<close> is a function on a state of its own; \<open>rd\<close> is
  the memory as that state sees it, since an output buffer may be part of it. The format is the
  list of its bytes up to the terminating zero. The variable arguments are the 64-bit slots they
  are passed in, from which \<open>va_arg\<close> takes the low bytes; fetching more than there are is
  undefined and has no result, just as a \<open>%s\<close> without a terminator.

  The C \<open>int\<close>s (widths, precisions, counters, the size of a buffer, error codes) are 32-bit words read with
  \<open>sint\<close>; their arithmetic wraps around, which is what the code does as it is compiled
  (without optimization).
\<close>

section \<open>Numbers\<close>

definition hex_digit :: "u64 \<Rightarrow> u32" where
  "hex_digit d = (if d < 10 then 48 + ucast d else 97 + ucast (d - 10))"

partial_function (option) printnum ::
  "(u32 \<Rightarrow> 's \<Rightarrow> 's) \<Rightarrow> u64 \<Rightarrow> u64 \<Rightarrow> u32 \<Rightarrow> u32 \<Rightarrow> 's \<Rightarrow> 's option" where
  "printnum putch num base width padc s =
     do {
       s \<leftarrow> (if base \<le> num then printnum putch (num div base) base (width - 1) padc s
            else Some ((putch padc ^^ nat (sint (width - 1))) s));
       Some (putch (hex_digit (num mod base)) s)
     }"

text \<open>The slot already holds the widened argument, whatever the length flag.\<close>

definition getuint :: "u64 \<Rightarrow> u32 \<Rightarrow> u64" where
  "getuint a lflag = (if 2 \<le> sint lflag then a else if lflag \<noteq> 0 then a else ucast (ucast a :: u32))"

definition getint :: "u64 \<Rightarrow> u32 \<Rightarrow> u64" where
  "getint a lflag = (if 2 \<le> sint lflag then a else if lflag \<noteq> 0 then a else scast (ucast a :: u32))"

section \<open>Directives\<close>

record spec =
  padc :: u32
  width :: u32
  precision :: u32
  lflag :: u32
  altflag :: bool

definition spec0 :: spec where
  "spec0 = \<lparr>padc = 32, width = - 1, precision = - 1, lflag = 0, altflag = False\<rparr>"

definition is_dec :: "u8 \<Rightarrow> bool" where
  "is_dec ch \<longleftrightarrow> 48 \<le> ch \<and> ch \<le> 57"

text \<open>The rest of a number of which \<open>n\<close> was read, and what follows it.\<close>

fun scan_num :: "u32 \<Rightarrow> u8 list \<Rightarrow> u32 \<times> u8 list" where
  "scan_num n [] = (n, [])"
| "scan_num n (ch # fmt) =
     (if is_dec ch then scan_num (n * 10 + ucast ch - 48) fmt else (n, ch # fmt))"

definition process_precision :: "u32 \<Rightarrow> spec \<Rightarrow> spec" where
  "process_precision n sp =
     (if sint (width sp) < 0 then sp\<lparr>width := n, precision := - 1\<rparr> else sp\<lparr>precision := n\<rparr>)"

lemma scan_num_length: "scan_num n fmt = (k, rest) \<Longrightarrow> length rest \<le> length fmt"
  by (induction n fmt rule: scan_num.induct) (auto split: if_splits)

text \<open>
  The characters after \<open>%\<close> up to the conversion character, which is 0 at the end of the format:
  the conversion, the flags, the remaining format and the remaining arguments.
\<close>

function scan :: "spec \<Rightarrow> u8 list \<Rightarrow> u64 list \<Rightarrow> (u8 \<times> spec \<times> u8 list \<times> u64 list) option" where
  "scan sp [] args = Some (0, sp, [], args)"
| "scan sp (ch # fmt) args =
     (if ch = 45 then scan (sp\<lparr>padc := 45\<rparr>) fmt args
      else if ch = 48 then scan (sp\<lparr>padc := 48\<rparr>) fmt args
      else if is_dec ch then
        let (n, rest) = scan_num (ucast ch - 48) fmt in scan (process_precision n sp) rest args
      else if ch = 42 then
        (case args of
           [] \<Rightarrow> None
         | a # args \<Rightarrow> scan (process_precision (ucast a) sp) fmt args)
      else if ch = 46 then scan (if sint (width sp) < 0 then sp\<lparr>width := 0\<rparr> else sp) fmt args
      else if ch = 35 then scan (sp\<lparr>altflag := True\<rparr>) fmt args
      else if ch = 108 then scan (sp\<lparr>lflag := lflag sp + 1\<rparr>) fmt args
      else Some (ch, sp, fmt, args))"
  by pat_completeness auto
termination
  by (relation "measure (\<lambda>(sp, fmt, args). length fmt)") (auto dest: scan_num_length [OF sym])

section \<open>Conversions\<close>

text \<open>A string constant, at address 1.\<close>

definition literal :: "string \<Rightarrow> bmem" where
  "literal t a = (if 0 < a \<and> unat a \<le> length t then of_char (t ! (unat a - 1)) else 0)"

text \<open>The loop that copies a string; the result is the width that is left and the state.\<close>

partial_function (option) put_chars ::
  "(u32 \<Rightarrow> 's \<Rightarrow> 's) \<Rightarrow> ('s \<Rightarrow> bmem) \<Rightarrow> u64 \<Rightarrow> u32 \<Rightarrow> u32 \<Rightarrow> bool \<Rightarrow> 's \<Rightarrow> (u32 \<times> 's) option" where
  "put_chars putch rd p prec w alt s =
     (let ch = rd s p in
      if ch = 0 \<or> \<not> (sint prec < 0 \<or> 0 \<le> sint (prec - 1)) then Some (w, s)
      else put_chars putch rd (p + 1) (if sint prec < 0 then prec else prec - 1) (w - 1) alt
             (if alt \<and> (sint ch < 32 \<or> 126 < sint ch) then putch 63 s else putch (scast ch) s))"

definition put_string ::
  "(u32 \<Rightarrow> 's \<Rightarrow> 's) \<Rightarrow> ('s \<Rightarrow> bmem) \<Rightarrow> u64 \<Rightarrow> spec \<Rightarrow> 's \<Rightarrow> 's option" where
  "put_string putch rd p sp s =
     (let padded = (0 < sint (width sp) \<and> padc sp \<noteq> 45);
          w = (if padded then width sp - strnlen (rd s) p (scast (precision sp)) else width sp);
          pads = (if padded then nat (sint w) else 0);
          s = (putch (padc sp) ^^ pads) s
      in case put_chars putch rd p (precision sp) (w - of_nat pads) (altflag sp) s of
           None \<Rightarrow> None
         | Some (w, s) \<Rightarrow> Some ((putch 32 ^^ nat (sint w)) s))"

definition put_signed :: "(u32 \<Rightarrow> 's \<Rightarrow> 's) \<Rightarrow> u64 \<Rightarrow> spec \<Rightarrow> 's \<Rightarrow> 's option" where
  "put_signed putch num sp s =
     (if sint num < 0 then printnum putch (- num) 10 (width sp) (padc sp) (putch 45 s)
      else printnum putch num 10 (width sp) (padc sp) s)"

text \<open>
  The conversion characters c, e, s, d, u, o, p, x and the percent sign. \<open>errh\<close> prints an error
  code.
\<close>

definition conversions :: "u8 list" where
  "conversions = [99, 101, 115, 100, 117, 111, 112, 120, 37]"

definition convert ::
  "(u32 \<Rightarrow> 's \<Rightarrow> 's option) \<Rightarrow> (u32 \<Rightarrow> 's \<Rightarrow> 's) \<Rightarrow> ('s \<Rightarrow> bmem) \<Rightarrow> u8 \<Rightarrow> spec \<Rightarrow> u64 \<Rightarrow> 's \<Rightarrow> 's option" where
  "convert errh putch rd ch sp a s =
     (if ch = 99 then Some (putch (ucast a) s)
      else if ch = 101 then errh (ucast a) s
      else if ch = 115 then
        (if a = 0 then put_string putch (\<lambda>_. literal ''(null)'') 1 sp s else put_string putch rd a sp s)
      else if ch = 100 then put_signed putch (getint a 3) sp s
      else if ch = 117 then printnum putch (getuint a 3) 10 (width sp) (padc sp) s
      else if ch = 111 then printnum putch (getuint a 3) 8 (width sp) (padc sp) s
      else if ch = 112 then printnum putch a 16 (width sp) (padc sp) (putch 120 (putch 48 s))
      else printnum putch (getuint a 3) 16 (width sp) (padc sp) s)"

text \<open>
  One directive: \<open>None\<close> is undefined behaviour, \<open>Some None\<close> an unknown conversion, which the
  caller prints as it stands.
\<close>

definition directive ::
  "(u32 \<Rightarrow> 's \<Rightarrow> 's option) \<Rightarrow> (u32 \<Rightarrow> 's \<Rightarrow> 's) \<Rightarrow> ('s \<Rightarrow> bmem) \<Rightarrow> u8 \<Rightarrow> spec \<Rightarrow> u64 list \<Rightarrow> 's \<Rightarrow>
   (u64 list \<times> 's) option option" where
  "directive errh putch rd ch sp args s =
     (if ch \<notin> set conversions then Some None
      else if ch = 37 then Some (Some (args, putch 37 s))
      else case args of
          [] \<Rightarrow> None
        | a # args \<Rightarrow> map_option (\<lambda>s. Some (args, s)) (convert errh putch rd ch sp a s))"

lemma scan_length: "scan sp fmt args = Some (ch, sp', rest, args') \<Longrightarrow> length rest \<le> length fmt"
proof (induction "length fmt" arbitrary: sp fmt args rule: less_induct)
  case less
  show ?case
  proof (cases fmt)
    case Nil
    then show ?thesis using less.prems by simp
  next
    case (Cons c cs)
    have IH: "length rest \<le> length xs" if "scan sp1 xs args1 = Some (ch, sp', rest, args')" "length xs \<le> length cs"
      for sp1 xs args1
      using less.hyps [OF _ that(1)] that(2) Cons by simp
    show ?thesis
    proof (cases "is_dec c \<and> c \<noteq> 48")
      case True
      then have "c \<noteq> 45" by (auto simp: is_dec_def)
      with True less.prems obtain n r where "scan_num (ucast c - 48) cs = (n, r)"
          "scan (process_precision n sp) r args = Some (ch, sp', rest, args')"
        by (auto simp: Cons split: prod.splits)
      then show ?thesis using IH scan_num_length Cons by fastforce
    next
      case False
      with less.prems Cons consider (stop) "rest = cs"
        | (step) sp1 args1 where "scan sp1 cs args1 = Some (ch, sp', rest, args')"
        by (cases "c = 42"; cases args) (simp split: if_splits; blast)+
      then show ?thesis by cases (use IH Cons in fastforce)+
    qed
  qed
qed

function vfmt ::
  "(u32 \<Rightarrow> 's \<Rightarrow> 's option) \<Rightarrow> (u32 \<Rightarrow> 's \<Rightarrow> 's) \<Rightarrow> ('s \<Rightarrow> bmem) \<Rightarrow> u8 list \<Rightarrow> u64 list \<Rightarrow> 's \<Rightarrow> 's option" where
  "vfmt errh putch rd [] args s = Some s"
| "vfmt errh putch rd (ch # fmt) args s =
     (if ch \<noteq> 37 then vfmt errh putch rd fmt args (putch (ucast ch) s)
      else case scan spec0 fmt args of
          None \<Rightarrow> None
        | Some (ch, sp, rest, args) \<Rightarrow>
            (case directive errh putch rd ch sp args s of
               None \<Rightarrow> None
             | Some None \<Rightarrow> vfmt errh putch rd fmt args (putch 37 s)
             | Some (Some (args, s)) \<Rightarrow> vfmt errh putch rd rest args s))"
  by pat_completeness auto
termination
proof (relation "measure (\<lambda>(errh, putch, rd, fmt, args, s). length fmt)", goal_cases)
  case (4 errh putch rd ch fmt args s y c r sp r' rest args' z w args'' s'')
  then have "scan spec0 fmt args = Some (c, sp, rest, args')" by simp
  then show ?case using scan_length by (fastforce simp: le_imp_less_Suc)
qed simp_all

definition MAXERROR :: int where "MAXERROR = 22"

definition error_string :: "int \<Rightarrow> string option" where
  "error_string = [E_UNSPECIFIED \<mapsto> ''unspecified error'', E_BAD_ENV \<mapsto> ''bad environment'',
     E_INVAL \<mapsto> ''invalid parameter'', E_NO_MEM \<mapsto> ''out of memory'',
     E_NO_FREE_ENV \<mapsto> ''out of environments'', E_FAULT \<mapsto> ''segmentation fault'',
     E_IPC_NOT_RECV \<mapsto> ''env is not recving'', 9 \<mapsto> ''unexpected end of file'']"

text \<open>
  The formats of the nested calls have no \<open>%e\<close>. The smallest \<open>int\<close> is its own negation and
  would index the table of messages from before its beginning, which is undefined.
\<close>

definition print_error :: "(u32 \<Rightarrow> 's \<Rightarrow> 's) \<Rightarrow> ('s \<Rightarrow> bmem) \<Rightarrow> u32 \<Rightarrow> 's \<Rightarrow> 's option" where
  "print_error putch rd err s =
     (let err = (if sint err < 0 then - err else err) in
      if sint err < 0 then None
      else case (if MAXERROR \<le> sint err then None else error_string (sint err)) of
        None \<Rightarrow> vfmt (\<lambda>_ _. None) putch rd (bytes_of ''error %d'') [scast err] s
      | Some p \<Rightarrow> vfmt (\<lambda>_ _. None) putch (\<lambda>_. literal p) (bytes_of ''%s'') [1] s)"

definition vprintfmt ::
  "(u32 \<Rightarrow> 's \<Rightarrow> 's) \<Rightarrow> ('s \<Rightarrow> bmem) \<Rightarrow> u8 list \<Rightarrow> u64 list \<Rightarrow> 's \<Rightarrow> 's option" where
  "vprintfmt putch rd fmt args s = vfmt (print_error putch rd) putch rd fmt args s"

definition printfmt ::
  "(u32 \<Rightarrow> 's \<Rightarrow> 's) \<Rightarrow> ('s \<Rightarrow> bmem) \<Rightarrow> u8 list \<Rightarrow> u64 list \<Rightarrow> 's \<Rightarrow> 's option" where
  "printfmt putch rd fmt ap s = vprintfmt putch rd fmt ap s"

section \<open>Printing into a buffer\<close>

record sprintbuf =
  sb_mem :: bmem
  sb_buf :: u64
  sb_ebuf :: u64
  sb_cnt :: u32

definition sprintputch :: "u32 \<Rightarrow> sprintbuf \<Rightarrow> sprintbuf" where
  "sprintputch ch b =
     (let b = b\<lparr>sb_cnt := sb_cnt b + 1\<rparr> in
      if sb_buf b < sb_ebuf b
      then b\<lparr>sb_mem := (sb_mem b)(sb_buf b := ucast ch), sb_buf := sb_buf b + 1\<rparr> else b)"

definition vsnprintf :: "u64 \<Rightarrow> u32 \<Rightarrow> u8 list \<Rightarrow> u64 list \<Rightarrow> bmem \<Rightarrow> (int \<times> bmem) option" where
  "vsnprintf dst n fmt ap m =
     (if dst = 0 \<or> sint n < 1 then Some (- E_INVAL, m)
      else
        let b = \<lparr>sb_mem = m, sb_buf = dst, sb_ebuf = dst + scast n - 1, sb_cnt = 0\<rparr> in
        case vprintfmt sprintputch sb_mem fmt ap b of
          None \<Rightarrow> None
        | Some b \<Rightarrow> Some (sint (sb_cnt b), (sb_mem b)(sb_buf b := 0)))"

definition snprintf :: "u64 \<Rightarrow> u32 \<Rightarrow> u8 list \<Rightarrow> u64 list \<Rightarrow> bmem \<Rightarrow> (int \<times> bmem) option" where
  "snprintf dst n fmt ap m = vsnprintf dst n fmt ap m"

section \<open>Printing on the console\<close>

text \<open>
  The kernel. The state is the console and the counter; \<open>*cnt++\<close> moves the pointer and leaves
  the counter alone. \<open>m\<close> is the memory the arguments point to.
\<close>

definition kern_putch :: "u32 \<Rightarrow> cons_state \<times> u32 \<Rightarrow> cons_state \<times> u32" where
  "kern_putch ch s = (cputchar ch (fst s), snd s)"

definition kern_vcprintf :: "bmem \<Rightarrow> u8 list \<Rightarrow> u64 list \<Rightarrow> cons_state \<Rightarrow> (int \<times> cons_state) option" where
  "kern_vcprintf m fmt ap c =
     map_option (\<lambda>(c, cnt). (sint cnt, c)) (vprintfmt kern_putch (\<lambda>_. m) fmt ap (c, 0))"

definition kern_cprintf :: "bmem \<Rightarrow> u8 list \<Rightarrow> u64 list \<Rightarrow> cons_state \<Rightarrow> (int \<times> cons_state) option" where
  "kern_cprintf m fmt ap c = kern_vcprintf m fmt ap c"

text \<open>
  User programs collect up to 255 characters for one system call. \<open>pb_calls\<close> are the texts of the
  calls of \<open>sys_cputs\<close> made so far, the first one first.
\<close>

record printbuf =
  pb_buf :: "u8 list"
  pb_cnt :: u32
  pb_calls :: "u8 list list"

definition user_putch :: "u32 \<Rightarrow> printbuf \<Rightarrow> printbuf" where
  "user_putch ch b =
     (let b = b\<lparr>pb_buf := pb_buf b @ [ucast ch]\<rparr>;
          b = (if length (pb_buf b) = 256 - 1
               then b\<lparr>pb_calls := pb_calls b @ [pb_buf b], pb_buf := []\<rparr> else b)
      in b\<lparr>pb_cnt := pb_cnt b + 1\<rparr>)"

definition user_vcprintf :: "bmem \<Rightarrow> u8 list \<Rightarrow> u64 list \<Rightarrow> (int \<times> u8 list list) option" where
  "user_vcprintf m fmt ap =
     (case vprintfmt user_putch (\<lambda>_. m) fmt ap \<lparr>pb_buf = [], pb_cnt = 0, pb_calls = []\<rparr> of
        None \<Rightarrow> None
      | Some b \<Rightarrow> Some (sint (pb_cnt b), pb_calls b @ [pb_buf b]))"

definition user_cprintf :: "bmem \<Rightarrow> u8 list \<Rightarrow> u64 list \<Rightarrow> (int \<times> u8 list list) option" where
  "user_cprintf m fmt ap = user_vcprintf m fmt ap"

end
