(* ===== verification/Printfmt_Props.thy ===== *)
theory Printfmt_Props
  imports Printfmt
begin

text \<open>
  Properties of formatted output: what every \<open>putch\<close> keeps holds at the end, and related callbacks
  end in related states; \<open>snprintf\<close> writes the text, as far as it fits, into its buffer; a printed number
  is read back by \<open>strtol\<close>; formats whose directives have arguments are printed to the end.
\<close>

section \<open>Invariants of the callback\<close>

text \<open>
  The interface between the formatter and its clients: a callback that keeps a property of the
  client's state. Whatever the format and the arguments, the formatter then keeps it, too.
\<close>

locale callback =
  fixes ok :: "'s \<Rightarrow> bool" and put :: "u32 \<Rightarrow> 's \<Rightarrow> 's"
  assumes put_ok: "ok s \<Longrightarrow> ok (put c s)"
begin

definition kept :: "'s option \<Rightarrow> bool" where
  "kept r \<longleftrightarrow> (\<forall>s. r = Some s \<longrightarrow> ok s)"

lemma kept_simps [simp]: "kept (Some s) = ok s" "kept None"
  by (simp_all add: kept_def)

lemma put_ok' [simp]: "ok s \<Longrightarrow> ok (put c s)"
  by (rule put_ok)

lemma funpow_ok [simp]: "ok s \<Longrightarrow> ok ((put c ^^ n) s)"
  by (induction n) auto

lemma printnum_kept [simp]:
  assumes "ok s"
  shows "kept (printnum put num base w pad s)"
proof -
  have "p = put \<longrightarrow> ok s \<longrightarrow> ok s'" if "printnum p num base w pad s = Some s'" for p num base w pad s s'
  proof (rule printnum.raw_induct [where P = "\<lambda>p num base w pad s s'. p = put \<longrightarrow> ok s \<longrightarrow> ok s'", OF _ that],
      intro impI)
    fix f p num base w pad s s'
    assume IH: "\<And>p num base w pad s s'. f p num base w pad s = Some s' \<Longrightarrow> p = put \<longrightarrow> ok s \<longrightarrow> ok s'"
      and p: "p = put" and s: "ok s"
      and r: "(if base \<le> num then f p (num div base) base (w - 1) pad s
          else Some ((p pad ^^ nat (sint (w - 1))) s)) \<bind> (\<lambda>s. Some (p (hex_digit (num mod base)) s)) = Some s'"
    then show "ok s'" by (auto split: bind_splits if_splits)
  qed
  with assms show ?thesis by (simp add: kept_def)
qed

lemma put_chars_ok:
  assumes "put_chars put rd a prec w alt s = Some r" "ok s"
  shows "ok (snd r)"
proof -
  have "p = put \<longrightarrow> ok s \<longrightarrow> ok (snd r)" if "put_chars p rd a prec w alt s = Some r" for p rd a prec w alt s r
    by (rule put_chars.raw_induct [where P = "\<lambda>p rd a prec w alt s r. p = put \<longrightarrow> ok s \<longrightarrow> ok (snd r)", OF _ that])
       (auto simp: Let_def split: if_splits)
  with assms show ?thesis by blast
qed

lemma put_string_kept [simp]: "ok s \<Longrightarrow> kept (put_string put rd a sp s)"
  unfolding put_string_def Let_def by (auto split: option.split dest!: put_chars_ok)

lemma put_signed_kept [simp]: "ok s \<Longrightarrow> kept (put_signed put num sp s)"
  by (simp add: put_signed_def)

lemma convert_kept: "(\<And>e. kept (errh e s)) \<Longrightarrow> ok s \<Longrightarrow> kept (convert errh put rd ch sp a s)"
  by (simp add: convert_def)

lemma directive_ok:
  assumes "\<And>e. kept (errh e s)" "directive errh put rd ch sp args s = Some (Some (args', s'))" "ok s"
  shows "ok s'"
  using assms(2,3) convert_kept [of errh s, OF assms(1) assms(3)]
  by (auto simp: directive_def kept_def split: if_splits list.splits)

lemma vfmt_kept: "(\<And>e s. ok s \<Longrightarrow> kept (errh e s)) \<Longrightarrow> ok s \<Longrightarrow> kept (vfmt errh put rd fmt args s)"
proof (induction fmt arbitrary: args s rule: length_induct)
  case (1 fmt)
  show ?case
  proof (cases fmt)
    case Nil
    then show ?thesis using 1(3) by simp
  next
    case (Cons ch cs)
    have IH: "kept (vfmt errh put rd xs args' s')" if "length xs \<le> length cs" "ok s'" for xs args' s'
      using 1(1,2) that Cons by simp
    show ?thesis
    proof (cases "ch = 37")
      case False
      then show ?thesis using IH 1(3) Cons by simp
    next
      case True
      show ?thesis
      proof (cases "scan spec0 cs args")
        case None
        then show ?thesis using True Cons by simp
      next
        case (Some q)
        then obtain c sp rest args' where q: "scan spec0 cs args = Some (c, sp, rest, args')"
          by (cases q) auto
        then have len: "length rest \<le> length cs" by (rule scan_length)
        have dir: "ok s'" if "directive errh put rd c sp args' s = Some (Some (args'', s'))" for args'' s'
          using directive_ok [of errh s, OF 1(2) [OF 1(3)] that 1(3)] .
        show ?thesis
          using True Cons q IH [OF len dir] IH [OF le_refl, of "put 37 s"] 1(3)
          by (cases "directive errh put rd c sp args' s") (auto split: option.split)
      qed
    qed
  qed
qed

lemma vprintfmt_kept: "ok s \<Longrightarrow> kept (vprintfmt put rd fmt args s)"
  unfolding vprintfmt_def
  by (rule vfmt_kept) (auto simp: print_error_def Let_def split: option.split intro!: vfmt_kept)

end

section \<open>Two callbacks side by side\<close>

text \<open>
  Callbacks on related states keep them related, and what one run does the other does, too. The
  memory that the strings are read from must look the same from related states.
\<close>

locale related =
  fixes R :: "'s \<Rightarrow> 't \<Rightarrow> bool" and put :: "u32 \<Rightarrow> 's \<Rightarrow> 's" and put' :: "u32 \<Rightarrow> 't \<Rightarrow> 't"
    and rd :: "'s \<Rightarrow> bmem" and rd' :: "'t \<Rightarrow> bmem"
  assumes put_related: "R s t \<Longrightarrow> R (put c s) (put' c t)"
    and reads_same: "R s t \<Longrightarrow> rd s = rd' t"
begin

definition follows :: "'s option \<Rightarrow> 't option \<Rightarrow> bool" where
  "follows r r' \<longleftrightarrow> (\<forall>s. r = Some s \<longrightarrow> (\<exists>t. r' = Some t \<and> R s t))"

lemma follows_simps [simp]: "follows (Some s) (Some t) = R s t" "follows None r"
  by (simp_all add: follows_def)

lemma put_related' [simp]: "R s t \<Longrightarrow> R (put c s) (put' c t)"
  by (rule put_related)

lemma funpow_related [simp]: "R s t \<Longrightarrow> R ((put c ^^ n) s) ((put' c ^^ n) t)"
  by (induction n) auto

lemma printnum_follows [simp]:
  assumes "R s t"
  shows "follows (printnum put num base w pad s) (printnum put' num base w pad t)"
proof -
  have "p = put \<longrightarrow> (\<forall>t. R s t \<longrightarrow> (\<exists>t'. printnum put' num base w pad t = Some t' \<and> R s' t'))"
    if "printnum p num base w pad s = Some s'" for p num base w pad s s'
  proof (rule printnum.raw_induct [where P = "\<lambda>p num base w pad s s'.
        p = put \<longrightarrow> (\<forall>t. R s t \<longrightarrow> (\<exists>t'. printnum put' num base w pad t = Some t' \<and> R s' t'))", OF _ that],
      intro impI allI)
    fix f p num base w pad s s' t
    assume IH: "\<And>p num base w pad s s'. f p num base w pad s = Some s' \<Longrightarrow>
        p = put \<longrightarrow> (\<forall>t. R s t \<longrightarrow> (\<exists>t'. printnum put' num base w pad t = Some t' \<and> R s' t'))"
      and p: "p = put" and s: "R s t"
      and r: "(if base \<le> num then f p (num div base) base (w - 1) pad s
          else Some ((p pad ^^ nat (sint (w - 1))) s)) \<bind> (\<lambda>s. Some (p (hex_digit (num mod base)) s)) = Some s'"
    show "\<exists>t'. printnum put' num base w pad t = Some t' \<and> R s' t'"
    proof (cases "base \<le> num")
      case True
      then obtain s1 where s1: "f p (num div base) base (w - 1) pad s = Some s1" "s' = p (hex_digit (num mod base)) s1"
        using r by (auto split: bind_splits)
      then obtain t1 where "printnum put' (num div base) base (w - 1) pad t = Some t1" "R s1 t1"
        using IH [OF s1(1)] p s by blast
      then show ?thesis using True p s1(2) by (subst printnum.simps) simp
    next
      case False
      then show ?thesis using r p s by (subst printnum.simps) auto
    qed
  qed
  with assms show ?thesis by (auto simp: follows_def)
qed

lemma put_chars_follows:
  assumes "put_chars put (\<lambda>s. q (rd s)) a prec w alt s = Some r" "R s t"
  shows "\<exists>t'. put_chars put' (\<lambda>t. q (rd' t)) a prec w alt t = Some (fst r, t') \<and> R (snd r) t'"
proof -
  let ?P = "\<lambda>p rr a prec w alt s r. p = put \<longrightarrow> rr = (\<lambda>s. q (rd s)) \<longrightarrow> (\<forall>t. R s t \<longrightarrow>
      (\<exists>t'. put_chars put' (\<lambda>t. q (rd' t)) a prec w alt t = Some (fst r, t') \<and> R (snd r) t'))"
  have "?P p rr a prec w alt s r" if "put_chars p rr a prec w alt s = Some r" for p rr a prec w alt s r
  proof (rule put_chars.raw_induct [where P = ?P, OF _ that], intro impI allI)
    fix f p rr a prec w alt s r t
    assume IH: "\<And>p rr a prec w alt s r. f p rr a prec w alt s = Some r \<Longrightarrow> ?P p rr a prec w alt s r"
      and p: "p = put" "rr = (\<lambda>s. q (rd s))" and s: "R s t"
      and r: "(let ch = rr s a in
        if ch = 0 \<or> \<not> (sint prec < 0 \<or> 0 \<le> sint (prec - 1)) then Some (w, s)
        else f p rr (a + 1) (if sint prec < 0 then prec else prec - 1) (w - 1) alt
             (if alt \<and> (sint ch < 32 \<or> 126 < sint ch) then p 63 s else p (scast ch) s)) = Some r"
    define ch where "ch = q (rd s) a"
    have ch': "q (rd' t) a = ch" using reads_same [OF s] by (simp add: ch_def)
    show "\<exists>t'. put_chars put' (\<lambda>t. q (rd' t)) a prec w alt t = Some (fst r, t') \<and> R (snd r) t'"
    proof (cases "ch = 0 \<or> \<not> (sint prec < 0 \<or> 0 \<le> sint (prec - 1))")
      case True
      then show ?thesis using r p s ch' by (subst put_chars.simps) (auto simp: ch_def [symmetric] Let_def)
    next
      case False
      let ?s = "if alt \<and> (sint ch < 32 \<or> 126 < sint ch) then put 63 s else put (scast ch) s"
      let ?t = "if alt \<and> (sint ch < 32 \<or> 126 < sint ch) then put' 63 t else put' (scast ch) t"
      let ?prec = "if sint prec < 0 then prec else prec - 1"
      have "f p rr (a + 1) ?prec (w - 1) alt ?s = Some r"
        using r False p unfolding ch_def Let_def by (simp only: if_False)
      moreover have "R ?s ?t"
      proof -
        have "R (if b then put x s else put y s) (if b then put' x t else put' y t)" for b x y
          using s by (cases b) simp_all
        then show ?thesis .
      qed
      ultimately obtain t' where "put_chars put' (\<lambda>t. q (rd' t)) (a + 1) ?prec (w - 1) alt ?t = Some (fst r, t')" "R (snd r) t'"
        using IH p by blast
      then show ?thesis using False ch' by (subst put_chars.simps) (simp only: Let_def if_False, blast)
    qed
  qed
  with assms show ?thesis by blast
qed

lemma put_string_follows:
  assumes "R s t"
  shows "follows (put_string put (\<lambda>s. q (rd s)) a sp s) (put_string put' (\<lambda>t. q (rd' t)) a sp t)"
proof -
  define w where "w = (if 0 < sint (width sp) \<and> padc sp \<noteq> 45
      then width sp - strnlen (q (rd s)) a (scast (precision sp)) else width sp)"
  define n where "n = (if 0 < sint (width sp) \<and> padc sp \<noteq> 45 then nat (sint w) else 0)"
  have eq: "put_string put (\<lambda>s. q (rd s)) a sp s =
      (case put_chars put (\<lambda>s. q (rd s)) a (precision sp) (w - of_nat n) (altflag sp) ((put (padc sp) ^^ n) s) of
         None \<Rightarrow> None | Some (w, s) \<Rightarrow> Some ((put 32 ^^ nat (sint w)) s))"
    "put_string put' (\<lambda>t. q (rd' t)) a sp t =
      (case put_chars put' (\<lambda>t. q (rd' t)) a (precision sp) (w - of_nat n) (altflag sp) ((put' (padc sp) ^^ n) t) of
         None \<Rightarrow> None | Some (w, s) \<Rightarrow> Some ((put' 32 ^^ nat (sint w)) s))"
    using reads_same [OF assms] by (simp_all add: put_string_def w_def n_def Let_def)
  show ?thesis
  proof (cases "put_chars put (\<lambda>s. q (rd s)) a (precision sp) (w - of_nat n) (altflag sp) ((put (padc sp) ^^ n) s)")
    case None
    then show ?thesis by (simp add: eq(1))
  next
    case (Some r)
    then obtain t' where "put_chars put' (\<lambda>t. q (rd' t)) a (precision sp) (w - of_nat n) (altflag sp)
        ((put' (padc sp) ^^ n) t) = Some (fst r, t')" "R (snd r) t'"
      using put_chars_follows [OF Some funpow_related [OF assms]] by blast
    with Some show ?thesis unfolding eq by (cases r) simp
  qed
qed

lemma convert_follows:
  assumes "\<And>e. follows (errh e s) (errh' e t)" "R s t"
  shows "follows (convert errh put rd ch sp a s) (convert errh' put' rd' ch sp a t)"
  using assms put_string_follows [OF assms(2), of "\<lambda>m. m"] put_string_follows [OF assms(2), of "\<lambda>m. literal ''(null)''"]
  by (simp add: convert_def put_signed_def)

lemma vfmt_follows:
  "(\<And>e s t. R s t \<Longrightarrow> follows (errh e s) (errh' e t)) \<Longrightarrow> R s t \<Longrightarrow>
   follows (vfmt errh put rd fmt args s) (vfmt errh' put' rd' fmt args t)"
proof (induction fmt arbitrary: args s t rule: length_induct)
  case (1 fmt)
  show ?case
  proof (cases fmt)
    case Nil
    then show ?thesis using 1(3) by simp
  next
    case (Cons ch cs)
    have IH: "follows (vfmt errh put rd xs args' s') (vfmt errh' put' rd' xs args' t')"
      if "length xs \<le> length cs" "R s' t'" for xs args' s' t'
      using 1(1,2) that Cons by simp
    show ?thesis
    proof (cases "ch = 37")
      case False
      then show ?thesis using IH 1(3) Cons by simp
    next
      case True
      show ?thesis
      proof (cases "scan spec0 cs args")
        case None
        then show ?thesis using True Cons by simp
      next
        case (Some q)
        then obtain c sp rest args' where q: "scan spec0 cs args = Some (c, sp, rest, args')"
          by (cases q) auto
        then have len: "length rest \<le> length cs" by (rule scan_length)
        have conv: "follows (convert errh put rd c sp a s) (convert errh' put' rd' c sp a t)" for a
          by (rule convert_follows [OF _ 1(3)]) (rule 1(2) [OF 1(3)])
        have unknown: "follows (vfmt errh put rd cs args' (put 37 s)) (vfmt errh' put' rd' cs args' (put' 37 t))"
          using IH 1(3) by simp
        consider "c \<notin> set conversions" | "c = 37" | "c \<in> set conversions" "c \<noteq> 37" "args' = []"
          | a as where "c \<in> set conversions" "c \<noteq> 37" "args' = a # as" by (cases args') auto
        then show ?thesis
        proof cases
          case 1
          then show ?thesis using True Cons q unknown by (simp add: directive_def)
        next
          case 2
          then show ?thesis using True Cons q IH [OF len, of "put 37 s" "put' 37 t"] 1(3)
            by (simp add: directive_def conversions_def)
        next
          case 3
          then show ?thesis using True Cons q by (simp add: directive_def)
        next
          case 4
          show ?thesis
          proof (cases "convert errh put rd c sp a s")
            case None
            then show ?thesis using True Cons q 4 by (simp add: directive_def)
          next
            case (Some s')
            then obtain t' where "convert errh' put' rd' c sp a t = Some t'" "R s' t'"
              using conv [of a] by (auto simp: follows_def)
            then show ?thesis using True Cons q 4 Some IH [OF len, of s' t'] by (simp add: directive_def)
          qed
        qed
      qed
    qed
  qed
qed

end

lemma related_const: "related R put put' rd rd' \<Longrightarrow> related R put put' (\<lambda>_. m) (\<lambda>_. m)"
  by (simp add: related_def)

lemma vprintfmt_follows:
  assumes rel: "related R put put' rd rd'" and s: "R s t" and run: "vprintfmt put rd fmt args s = Some s'"
  shows "\<exists>t'. vprintfmt put' rd' fmt args t = Some t' \<and> R s' t'"
proof -
  have none: "related.follows R (None :: 'a option) (None :: 'b option)"
    using related.follows_simps(2) [OF rel] .
  have err: "related.follows R (print_error put rd e s) (print_error put' rd' e t)" if "R s t" for e s t
    using related.vfmt_follows [OF rel _ that, of "\<lambda>_ _. None" "\<lambda>_ _. None"]
      related.vfmt_follows [OF related_const [OF rel] _ that, of "\<lambda>_ _. None" "\<lambda>_ _. None"]
      related.follows_simps(2) [OF rel] related.follows_simps(2) [OF related_const [OF rel]]
    by (simp add: print_error_def Let_def related.follows_def [OF rel] related.follows_def [OF related_const [OF rel]]
        split: option.split)
  then show ?thesis
    using related.vfmt_follows [OF rel err s] run
    by (simp add: vprintfmt_def related.follows_def [OF rel])
qed

text \<open>The characters of the output.\<close>

definition collect :: "u32 \<Rightarrow> u32 list \<Rightarrow> u32 list" where
  "collect ch out = out @ [ch]"

text \<open>The kernel prints them on the console, and its counter stays 0.\<close>

interpretation kernel_out: related "\<lambda>out s. s = (fold cputchar out c, 0)" collect kern_putch "\<lambda>_. m" "\<lambda>_. m" for c m
  by unfold_locales (auto simp: collect_def kern_putch_def)

section \<open>Digits\<close>

function digits :: "nat \<Rightarrow> nat \<Rightarrow> nat list" where
  "digits b n = (if 2 \<le> b \<and> b \<le> n then digits b (n div b) @ [n mod b] else [n mod b])"
  by pat_completeness auto
termination
  by (relation "measure snd") (auto simp: div_less_dividend)

declare digits.simps [simp del]

text \<open>\<open>printnum\<close> puts the padding and then the digits.\<close>

lemma printnum_digits:
  assumes "2 \<le> base"
  shows "printnum put num base w pad s = Some (fold put
    (replicate (nat (sint (w - of_nat (length (digits (unat base) (unat num)))))) pad @
     map (\<lambda>d. hex_digit (of_nat d)) (digits (unat base) (unat num))) s)"
  using assms
proof (induction "unat num" arbitrary: num w rule: less_induct)
  case less
  have two: "2 \<le> unat base" using less.prems by (simp add: word_le_nat_alt)
  have last_digit: "num mod base = of_nat (unat num mod unat base)"
    by (simp flip: unat_mod)
  show ?case
  proof (cases "base \<le> num")
    case True
    then have le: "unat base \<le> unat num" by (simp add: word_le_nat_alt)
    have q: "unat (num div base) = unat num div unat base" by (simp add: unat_div)
    have "unat num div unat base < unat num" using two le by (intro div_less_dividend) auto
    then have "printnum put (num div base) base (w - 1) pad s = Some (fold put
        (replicate (nat (sint (w - 1 - of_nat (length (digits (unat base) (unat num div unat base)))))) pad @
         map (\<lambda>d. hex_digit (of_nat d)) (digits (unat base) (unat num div unat base))) s)"
      using less.hyps [of "num div base" "w - 1"] less.prems q by simp
    then show ?thesis
      using True two le by (subst printnum.simps) (simp add: digits.simps [of _ "unat num"] last_digit algebra_simps)
  next
    case False
    then have "\<not> unat base \<le> unat num" by (simp add: word_le_nat_alt)
    moreover have "(put pad ^^ k) s = fold put (replicate k pad) s" for k
      by (induction k arbitrary: s) (simp_all add: funpow_swap1)
    ultimately show ?thesis
      using False by (subst printnum.simps) (simp add: digits.simps [of _ "unat num"] last_digit)
  qed
qed

lemma digits_less: "2 \<le> b \<Longrightarrow> d \<in> set (digits b n) \<Longrightarrow> d < b"
  by (induction b n rule: digits.induct) (subst (asm) digits.simps, auto split: if_splits)

lemma digits_not_Nil [simp]: "digits b n \<noteq> []"
  by (subst digits.simps) simp

lemma fold_digits: "2 \<le> b \<Longrightarrow> fold (\<lambda>d v. v * b + d) (digits b n) 0 = n"
proof (induction b n rule: digits.induct)
  case (1 b n)
  then show ?case by (subst digits.simps) (auto simp: div_mult_mod_eq)
qed

text \<open>The byte of a digit and its value for \<open>strtol\<close>.\<close>

lemma digit_of_hex: "d < 16 \<Longrightarrow> digit_of (ucast (hex_digit (of_nat d))) = Some (int d)"
proof -
  assume "d < 16"
  moreover have "\<forall>d \<in> set [0..<16]. digit_of (ucast (hex_digit (of_nat d))) = Some (int d)"
    by (simp add: upt_conv_Cons hex_digit_def digit_of_def)
  ultimately show ?thesis by simp
qed

lemma fold_digit_chars:
  assumes "\<forall>d \<in> set ds. d < 16"
  shows "fold (\<lambda>x v. v * word_of_int (int b) + word_of_int (the (digit_of x)))
      (map (\<lambda>d. ucast (hex_digit (of_nat d))) ds) (of_nat v) = (of_nat (fold (\<lambda>d v. v * b + d) ds v) :: u64)"
  using assms
proof (induction ds arbitrary: v)
  case (Cons d ds)
  then show ?case using Cons.IH [of "v * b + d"] by (simp add: digit_of_hex)
qed simp

lemma sint_of_int: "- (2 ^ 31) \<le> x \<Longrightarrow> x < 2 ^ 31 \<Longrightarrow> sint (word_of_int x :: u32) = x"
  by (simp add: signed_of_int signed_take_bit_int_eq_self)

lemma sint_minus_bound: "sint (w :: u32) \<le> int (nat (sint (w - of_nat n))) + int n"
proof (cases "- (2 ^ 31) \<le> sint w - int n")
  case True
  have "w - of_nat n = word_of_int (sint w - int n)" by simp
  moreover have "sint w < 2 ^ 31" using sint_lt [of w] by simp
  ultimately have "sint (w - of_nat n) = sint w - int n" using sint_of_int [OF True] by simp
  then show ?thesis by linarith
next
  case False
  then have "sint w < int n" by simp
  then show ?thesis by linarith
qed

text \<open>C29: \<open>printnum\<close> and \<open>strtol\<close> are inverse to each other. A number printed in octal, decimal
  or hexadecimal, padded with blanks to any width an \<open>int\<close> can hold, is a string of at least that width from which
  \<open>strtol\<close> reads the same 64 bits, stopping at its end.\<close>

theorem printnum_strtol_round_trip:
  assumes "base = 8 \<or> base = 10 \<or> base = 16"
  shows "\<exists>out. printnum (\<lambda>c xs. xs @ [ucast c]) num base w 32 [] = Some out \<and>
    sint w \<le> int (length out) \<and>
    (\<forall>m p. str_at m p out \<longrightarrow> strtol m p (uint base) = Some (num, p + of_nat (length out)))"
proof -
  define b where "b = unat base"
  let ?put = "\<lambda>c xs. xs @ [ucast c]"
  let ?ds = "digits b (unat num)"
  let ?cs = "map (\<lambda>d. ucast (hex_digit (of_nat d))) ?ds :: u8 list"
  define k where "k = nat (sint (w - of_nat (length ?ds)))"
  have b: "2 \<le> b" "b \<le> 16" "2 \<le> base" "uint base = int b" using assms by (auto simp: b_def)
  have put: "fold ?put cs xs = xs @ map ucast cs" for cs and xs :: "u8 list"
    by (induction cs arbitrary: xs) simp_all
  have out: "printnum ?put num base w 32 [] = Some (replicate k 32 @ ?cs)"
    unfolding printnum_digits [OF b(3)] put by (simp add: k_def b_def)
  have less: "\<forall>d \<in> set ?ds. d < b" using digits_less [OF b(1)] by blast
  have "strtol m p (int b) = Some (num, p + of_nat (length (replicate k 32 @ ?cs)))"
    if "str_at m p (replicate k 32 @ ?cs)" for m p
  proof -
    have "\<forall>x \<in> set ?cs. \<exists>d. digit_of x = Some d \<and> d < int b"
    proof
      fix x assume "x \<in> set ?cs"
      then obtain d where d: "x = ucast (hex_digit (of_nat d))" "d \<in> set ?ds" by auto
      then have "d < b" using less by blast
      then show "\<exists>d. digit_of x = Some d \<and> d < int b"
        using digit_of_hex [of d] d(1) b(2) by simp
    qed
    moreover have "fold (\<lambda>x v. v * word_of_int (int b) + word_of_int (the (digit_of x))) ?cs 0 = num"
    proof -
      have "\<forall>d \<in> set ?ds. d < 16" using less b(2) by auto
      then show ?thesis using fold_digit_chars [of ?ds b 0] b(1) by (simp add: fold_digits)
    qed
    ultimately show ?thesis using strtol_str [OF that, of "int b"] b(1,2) by simp
  qed
  moreover have "sint w \<le> int k + int (length ?ds)" unfolding k_def by (rule sint_minus_bound)
  ultimately show ?thesis by (intro exI [of _ "replicate k 32 @ ?cs"]) (simp add: out b(4))
qed

theorem printnum_strtol_round_trip_witness:
  "\<exists>out. printnum (\<lambda>c xs. xs @ [ucast c]) 0xFFFFFFFFFFFFFFFF 10 24 32 [] = Some out \<and>
    sint (24 :: u32) \<le> int (length out) \<and>
    (\<forall>m p. str_at m p out \<longrightarrow> strtol m p 10 = Some (0xFFFFFFFFFFFFFFFF, p + of_nat (length out)))"
  using printnum_strtol_round_trip [of 10 "0xFFFFFFFFFFFFFFFF" 24] by simp

section \<open>The buffer of \<open>snprintf\<close>\<close>

text \<open>
  What the memory looks like while the buffer at \<open>d\<close>, whose last byte is number \<open>k\<close>, is filled with
  \<open>out\<close>: the first \<open>k\<close> characters are in place, all else is as in \<open>m\<close>.
\<close>

definition overlay :: "u64 \<Rightarrow> nat \<Rightarrow> bmem \<Rightarrow> u32 list \<Rightarrow> bmem" where
  "overlay d k m out a = (if unat (a - d) < min (length out) k then ucast (out ! unat (a - d)) else m a)"

definition sb_rel :: "u64 \<Rightarrow> nat \<Rightarrow> bmem \<Rightarrow> sprintbuf \<Rightarrow> u32 list \<Rightarrow> bool" where
  "sb_rel d k m b out \<longleftrightarrow> unat d + k < 2 ^ 64 \<and> sb_mem b = overlay d k m out \<and> sb_cnt b = of_nat (length out) \<and>
     sb_ebuf b = d + of_nat k \<and> sb_buf b = d + of_nat (min (length out) k)"

lemma unat_offset: "unat (d :: u64) + k < 2 ^ 64 \<Longrightarrow> unat (d + of_nat k) = unat d + k"
  by (simp add: unat_word_ariths unat_of_nat mod_add_right_eq)

lemma unat_diff_offset: "unat (a - d) = k \<longleftrightarrow> a = d + of_nat k" if "k < 2 ^ 64" for a d :: u64
proof -
  have "unat (of_nat k :: u64) = k" using that by (simp add: unat_of_nat)
  then have "unat (a - d) = k \<longleftrightarrow> a - d = of_nat k" by (simp add: word_unat_eq_iff)
  then show ?thesis by (simp add: diff_eq_eq add.commute)
qed

interpretation buffer: related "sb_rel d k m" sprintputch collect sb_mem "overlay d k m" for d k m
proof unfold_locales
  fix b out c
  assume inv: "sb_rel d k m b out"
  let ?l = "length out"
  have pos: "unat (sb_buf b) = unat d + min ?l k" "unat (sb_ebuf b) = unat d + k"
    using inv unat_offset [of d "min ?l k"] unat_offset [of d k] by (auto simp: sb_rel_def min_def)
  show "sb_rel d k m (sprintputch c b) (collect c out)"
  proof (cases "?l < k")
    case True
    then have "sb_buf b < sb_ebuf b" using pos by (simp add: word_less_nat_alt)
    moreover have "(overlay d k m out)(d + of_nat ?l := ucast c) = overlay d k m (out @ [c])"
    proof
      fix a
      have "?l < 2 ^ 64" using True inv by (simp add: sb_rel_def)
      then have "unat (a - d) = ?l \<longleftrightarrow> a = d + of_nat ?l" by (rule unat_diff_offset)
      then show "((overlay d k m out)(d + of_nat ?l := ucast c)) a = overlay d k m (out @ [c]) a"
        using True by (auto simp: overlay_def nth_append)
    qed
    ultimately show ?thesis
      using True inv by (auto simp: sprintputch_def sb_rel_def collect_def algebra_simps)
  next
    case False
    then have "\<not> sb_buf b < sb_ebuf b" using pos by (simp add: word_less_nat_alt)
    moreover have "overlay d k m (out @ [c]) = overlay d k m out"
      using False by (auto simp: overlay_def nth_append fun_eq_iff)
    ultimately show ?thesis
      using False inv by (auto simp: sprintputch_def sb_rel_def collect_def)
  qed
qed (simp add: sb_rel_def)

text \<open>C28: \<open>snprintf\<close> with a buffer of \<open>n\<close> bytes writes the formatted text \<open>out\<close>, cut off at \<open>n - 1\<close>
  characters, and a zero byte behind it, and no other byte of the memory changes, whatever the
  format and the arguments are. It returns the length of the whole text, as far as an \<open>int\<close> can hold it
  (beyond, the counter wraps around). The text is what the formatter hands to a
  callback that only collects, where strings inside the buffer are read as they are by then.\<close>

theorem snprintf_bounds:
  assumes "dst \<noteq> 0" "1 \<le> sint n" "uint dst + sint n \<le> 2 ^ 64" "snprintf dst n fmt ap m = Some (r, m')"
  shows "\<exists>out. vprintfmt collect (overlay dst (nat (sint n) - 1) m) fmt ap [] = Some out \<and>
    r = sint (of_nat (length out) :: u32) \<and> (length out < 2 ^ 31 \<longrightarrow> r = int (length out)) \<and>
    (let k = min (length out) (nat (sint n) - 1) in
       (\<forall>i < k. m' (dst + of_nat i) = ucast (out ! i)) \<and> m' (dst + of_nat k) = 0 \<and>
       (\<forall>a. k < unat (a - dst) \<longrightarrow> m' a = m a))"
proof -
  define k where "k = nat (sint n) - 1"
  let ?b = "\<lparr>sb_mem = m, sb_buf = dst, sb_ebuf = dst + scast n - 1, sb_cnt = 0\<rparr>"
  have k: "sint n = int k + 1" using assms(2) by (simp add: k_def)
  have "int (unat dst) = uint dst" by simp
  then have "int (unat dst + k) < 2 ^ 64" using assms(3) k by linarith
  then have fits: "unat dst + k < 2 ^ 64" by (simp only: of_nat_less_iff [symmetric, where ?'a = int] of_nat_power of_nat_numeral)
  have "(scast n :: u64) = of_nat k + 1"
  proof -
    have "(scast n :: u64) = word_of_int (sint n)" by (rule scast_eq)
    then show ?thesis using k by simp
  qed
  then have "sb_rel dst k m ?b []" using fits by (simp add: sb_rel_def overlay_def fun_eq_iff)
  moreover obtain b where b: "vprintfmt sprintputch sb_mem fmt ap ?b = Some b"
      "r = sint (sb_cnt b)" "m' = (sb_mem b)(sb_buf b := 0)"
    using assms by (auto simp: snprintf_def vsnprintf_def Let_def split: option.splits)
  ultimately obtain out where out: "vprintfmt collect (overlay dst k m) fmt ap [] = Some out" "sb_rel dst k m b out"
    using vprintfmt_follows [OF buffer.related_axioms _ b(1)] by blast
  let ?k = "min (length out) k"
  have r: "r = sint (of_nat (length out) :: u32)" using b(2) out(2) by (simp add: sb_rel_def)
  have small: "length out < 2 ^ 31 \<Longrightarrow> r = int (length out)"
    using sint_of_int [of "int (length out)"] r by simp
  have m': "m' = (overlay dst k m out)(dst + of_nat ?k := 0)" using b(3) out(2) by (simp add: sb_rel_def)
  have off: "unat (dst + of_nat i - dst) = i" if "i \<le> k" for i
    using unat_offset [of 0 i] that fits by simp
  have "m' (dst + of_nat i) = ucast (out ! i)" if "i < ?k" for i
  proof -
    have "unat (dst + of_nat i - dst) = i" "unat (dst + of_nat ?k - dst) = ?k"
      using that by (intro off; simp)+
    then have "dst + of_nat i \<noteq> dst + of_nat ?k" using that by (metis less_irrefl)
    then show ?thesis using that off [of i] unfolding m' by (simp add: overlay_def)
  qed
  moreover have "m' a = m a" if "?k < unat (a - dst)" for a
    using that off [of ?k] unfolding m' by (auto simp: overlay_def)
  ultimately show ?thesis
    using out(1) r small unfolding k_def [symmetric] Let_def by (intro exI [of _ out]) (simp add: m')
qed

theorem snprintf_bounds_witness:
  "\<exists>m'. snprintf 8 3 (bytes_of ''%d'') [12345] (\<lambda>_. 7) = Some (5, m') \<and>
     m' 8 = 49 \<and> m' 9 = 50 \<and> m' 10 = 0 \<and> m' 11 = 7"
proof -
  let ?b = "\<lparr>sb_mem = \<lambda>_. 7, sb_buf = 8, sb_ebuf = 10, sb_cnt = 0\<rparr>"
  have ds: "digits 10 12345 = [1, 2, 3, 4, 5]" by (simp add: digits.simps)
  have printed: "vprintfmt collect rd (bytes_of ''%d'') [12345] [] = Some [49, 50, 51, 52, 53]" for rd
    using ds by (simp add: vprintfmt_def bytes_of_def is_dec_def directive_def conversions_def convert_def
        put_signed_def getint_def printnum_digits spec0_def collect_def hex_digit_def)
  have "\<exists>b. vprintfmt sprintputch sb_mem (bytes_of ''%d'') [12345] ?b = Some b"
    using ds by (simp add: vprintfmt_def bytes_of_def is_dec_def directive_def conversions_def convert_def
        put_signed_def getint_def printnum_digits spec0_def)
  then obtain r m' where m': "snprintf 8 3 (bytes_of ''%d'') [12345] (\<lambda>_. 7) = Some (r, m')"
    by (auto simp: snprintf_def vsnprintf_def)
  have "r = 5 \<and> (\<forall>i < 2. m' (8 + of_nat i) = ucast ([49, 50, 51, 52, 53 :: u32] ! i)) \<and> m' (8 + of_nat 2) = 0 \<and>
      (\<forall>a. 2 < unat (a - 8) \<longrightarrow> m' a = 7)"
    using snprintf_bounds [OF _ _ _ m'] by (simp add: printed Let_def)
  moreover from this have "m' (8 + of_nat 0) = 49" "m' (8 + of_nat 1) = 50" by (auto dest: spec [of _ 0] spec [of _ 1])
  ultimately show ?thesis using m' by (auto dest: spec [of _ 11])
qed

section \<open>Printing returns\<close>

lemma put_chars_total:
  assumes "m z = 0"
  shows "\<exists>r. put_chars put (\<lambda>_. m) p prec w alt s = Some r"
proof (induction "unat (z - p)" arbitrary: p prec w s)
  case 0
  then have "p = z" using unat_eq_0 [of "z - p"] by (metis eq_iff_diff_eq_0)
  then show ?case using assms by (subst put_chars.simps) simp
next
  case (Suc k)
  then have "z - p \<noteq> 0" by auto
  then have "unat (z - (p + 1)) = unat (z - p) - 1"
    using unat_minus_one [of "z - p"] by (simp add: diff_diff_eq)
  with Suc have "k = unat (z - (p + 1))" by simp
  from Suc.hyps(1) [OF this] show ?case by (subst put_chars.simps) (simp add: Let_def)
qed

lemma put_string_total: "m z = 0 \<Longrightarrow> \<exists>r. put_string put (\<lambda>_. m) p sp s = Some r"
proof -
  assume "m z = 0"
  then have "\<exists>r. put_chars put (\<lambda>_. m) p prec w alt s = Some r" for prec w alt s
    by (rule put_chars_total)
  then obtain q where "put_chars put (\<lambda>_. m) p prec w alt s = Some (q prec w alt s)" for prec w alt s
    by metis
  then show ?thesis unfolding put_string_def Let_def by (simp only: option.case split_beta) blast
qed

lemma put_signed_total: "\<exists>r. put_signed put num sp s = Some r"
  by (simp add: put_signed_def printnum_digits)

lemma literal_0: "literal t 0 = 0"
  by (simp add: literal_def)

lemma convert_total:
  assumes "m z = 0" "ch = 101 \<Longrightarrow> \<exists>r. errh (ucast a) s = Some r"
  shows "\<exists>r. convert errh put (\<lambda>_. m) ch sp a s = Some r"
  using put_string_total [of m z put a sp s, OF assms(1)] put_string_total [of "literal ''(null)''" 0 put 1 sp s, OF literal_0]
    put_signed_total [of put "getint a 3" sp s] assms(2)
  by (simp add: convert_def printnum_digits)

lemma magnitude:
  fixes e :: u32
  assumes "e \<noteq> 0x80000000"
  shows "0 \<le> sint (if sint e < 0 then - e else e)"
proof (cases "sint e < 0")
  case True
  have "- (2 ^ 31) \<le> sint e" using sint_ge [of e] by simp
  moreover have "sint e \<noteq> - (2 ^ 31)"
  proof
    assume "sint e = - (2 ^ 31)"
    then have "word_of_int (sint e) = (word_of_int (- (2 ^ 31)) :: u32)" by (simp only:)
    then have "e = word_of_int (- (2 ^ 31))" by (simp only: of_int_sint scast_id)
    with assms show False by simp
  qed
  ultimately have "- (2 ^ 31) \<le> - sint e" "- sint e < 2 ^ 31" using True by auto
  note sint_of_int [OF this]
  moreover have "- e = word_of_int (- sint e)" by simp
  ultimately have "sint (- e) = - sint e" by (simp only:)
  then show ?thesis using True by simp
qed simp

lemma print_error_total:
  assumes "e \<noteq> 0x80000000"
  shows "\<exists>r. print_error put rd e s = Some r"
proof -
  have d: "\<exists>r. vfmt (\<lambda>_ _. None) put rd (bytes_of ''error %d'') [x] s = Some r" for x
  proof -
    let ?s = "put 32 (put 114 (put 111 (put 114 (put 114 (put 101 s)))))"
    obtain r where "put_signed put (getint x 3) spec0 ?s = Some r"
      using put_signed_total [of put "getint x 3" spec0 ?s] by blast
    then show ?thesis by (simp add: bytes_of_def directive_def conversions_def convert_def is_dec_def)
  qed
  have s: "\<exists>r. vfmt (\<lambda>_ _. None) put (\<lambda>_. literal p) (bytes_of ''%s'') [1] s = Some r" for p
    using put_string_total [of "literal p" 0 put 1 spec0 s, OF literal_0]
    by (auto simp: bytes_of_def directive_def conversions_def convert_def is_dec_def)
  define err where "err = (if sint e < 0 then - e else e)"
  have "\<not> sint err < 0" using magnitude [OF assms] by (simp add: err_def not_less)
  then have "print_error put rd e s =
      (case (if MAXERROR \<le> sint err then None else error_string (sint err)) of
        None \<Rightarrow> vfmt (\<lambda>_ _. None) put rd (bytes_of ''error %d'') [scast err] s
      | Some p \<Rightarrow> vfmt (\<lambda>_ _. None) put (\<lambda>_. literal p) (bytes_of ''%s'') [1] s)"
    unfolding print_error_def Let_def err_def [symmetric] by (simp only: if_False)
  then show ?thesis using d s by (simp split: option.split)
qed

text \<open>The smallest \<open>int\<close> as an error code reads outside the table of messages.\<close>

lemma print_error_undefined: "print_error put rd 0x80000000 s = None"
  by (simp add: print_error_def)

lemma scan_num_digits:
  "scan_num n fmt = (k, rest) \<Longrightarrow> \<exists>pre. fmt = pre @ rest \<and> count_list pre 42 = 0 \<and> 37 \<notin> set pre"
proof (induction n fmt rule: scan_num.induct)
  case (2 n ch fmt)
  show ?case
  proof (cases "is_dec ch")
    case True
    then obtain pre where "fmt = pre @ rest" "count_list pre 42 = 0" "37 \<notin> set pre" using 2 by auto
    moreover have "ch \<noteq> 42" "ch \<noteq> 37" using True by (auto simp: is_dec_def)
    ultimately show ?thesis by (intro exI [of _ "ch # pre"]) simp
  next
    case False
    then show ?thesis using 2 by (intro exI [of _ "[]"]) auto
  qed
qed simp

text \<open>
  The flags end, when there is an argument for each star among them. What was read holds no
  percent sign but perhaps the last character.
\<close>

lemma scan_ends:
  "count_list fmt 42 \<le> length args \<Longrightarrow> \<exists>ch sp' pre rest.
     scan sp fmt args = Some (ch, sp', rest, drop (count_list pre 42) args) \<and> fmt = pre @ rest \<and>
     (ch = 0 \<or> ch \<in> set pre) \<and> (37 \<in> set pre \<longrightarrow> ch = 37)"
proof (induction "length fmt" arbitrary: sp fmt args rule: less_induct)
  case less
  show ?case
  proof (cases fmt)
    case Nil
    then show ?thesis by simp
  next
    case (Cons c cs)
    have step: "\<exists>ch sp' pre rest. scan sp fmt args = Some (ch, sp', rest, drop (count_list pre 42) args) \<and>
        fmt = pre @ rest \<and> (ch = 0 \<or> ch \<in> set pre) \<and> (37 \<in> set pre \<longrightarrow> ch = 37)"
      if xs: "cs = ys @ xs" "count_list ys 42 = 0" "37 \<notin> set ys" "c \<noteq> 37"
        and args: "count_list xs 42 \<le> length as" "\<And>n. drop (count_list (c # ys) 42 + n) args = drop n as"
        and run: "scan sp fmt args = scan sp1 xs as" for sp1 xs ys as
    proof -
      have "length xs < length fmt" using xs(1) Cons by simp
      then obtain ch sp' pre rest where h: "scan sp1 xs as = Some (ch, sp', rest, drop (count_list pre 42) as)"
          "xs = pre @ rest" "ch = 0 \<or> ch \<in> set pre" "37 \<in> set pre \<longrightarrow> ch = 37"
        using less.hyps [of xs as sp1] args(1) by blast
      have "drop (count_list (c # ys @ pre) 42) args = drop (count_list pre 42) as"
        using args(2) [of "count_list pre 42"] by (cases "c = 42") simp_all
      then show ?thesis
        using h run xs Cons
        by (intro exI [of _ ch] exI [of _ sp'] exI [of _ "c # ys @ pre"] exI [of _ rest]) auto
    qed
    consider (flag) "c \<in> {45, 48, 46, 35, 108}" | (num) "is_dec c" "c \<noteq> 48" | (star) "c = 42"
      | (conv) "c \<notin> {45, 48, 46, 35, 108, 42}" "\<not> is_dec c" by blast
    then show ?thesis
    proof cases
      case flag
      then have "c \<noteq> 42" "c \<noteq> 37" "c \<noteq> 45 \<longrightarrow> c \<noteq> 48 \<longrightarrow> \<not> is_dec c" by (auto simp: is_dec_def)
      moreover have "\<exists>sp1. scan sp fmt args = scan sp1 cs args" using flag calculation Cons by auto
      ultimately show ?thesis using step [of "[]" cs args] less.prems Cons by auto
    next
      case num
      obtain n rest where q: "scan_num (ucast c - 48) cs = (n, rest)" by fastforce
      then obtain ds where ds: "cs = ds @ rest" "count_list ds 42 = 0" "37 \<notin> set ds"
        using scan_num_digits by blast
      have c: "c \<noteq> 42" "c \<noteq> 37" "c \<noteq> 45" using num by (auto simp: is_dec_def)
      have "scan sp fmt args = scan (process_precision n sp) rest args" using Cons num c q by simp
      then show ?thesis using step [OF ds c(2), of args] less.prems Cons c ds by simp
    next
      case star
      then obtain a as where as: "args = a # as" using less.prems Cons by (cases args) auto
      have "scan sp fmt args = scan (process_precision (ucast a) sp) cs as" using Cons star as by (simp add: is_dec_def)
      then show ?thesis using step [of "[]" cs as] less.prems Cons star as by simp
    next
      case conv
      then have "scan sp fmt args = Some (c, sp, cs, args)" using Cons by simp
      then show ?thesis using conv Cons by (intro exI [of _ c] exI [of _ sp] exI [of _ "[c]"] exI [of _ cs]) simp
    qed
  qed
qed

lemma vfmt_text:
  "37 \<notin> set pre \<Longrightarrow> vfmt errh put rd (pre @ rest) args s =
     vfmt errh put rd rest args (fold (\<lambda>ch. put (ucast ch)) pre s)"
  by (induction pre arbitrary: s) auto

lemma vfmt_total:
  assumes "m z = 0" "\<And>e s. e \<noteq> 0x80000000 \<Longrightarrow> \<exists>r. errh e s = Some r"
  shows "count_list fmt 37 + count_list fmt 42 \<le> length args \<Longrightarrow>
    (101 \<in> set fmt \<longrightarrow> (\<forall>a \<in> set args. (ucast a :: u32) \<noteq> 0x80000000)) \<Longrightarrow>
    \<exists>r. vfmt errh put (\<lambda>_. m) fmt args s = Some r"
proof (induction fmt arbitrary: args s rule: length_induct)
  case (1 fmt)
  show ?case
  proof (cases fmt)
    case Nil
    then show ?thesis by simp
  next
    case (Cons ch cs)
    have IH: "\<exists>r. vfmt errh put (\<lambda>_. m) xs as t = Some r"
      if "cs = pre @ xs" "count_list xs 37 + count_list xs 42 \<le> length as" "set as \<subseteq> set args" for pre xs as t
      using 1(1,3) that Cons by (auto simp: subset_iff)
    show ?thesis
    proof (cases "ch = 37")
      case False
      have "count_list cs 37 + count_list cs 42 \<le> length args" using 1(2) False Cons by (simp split: if_splits)
      then show ?thesis using IH [of "[]" cs args] False Cons by simp
    next
      case True
      have len: "1 + count_list cs 37 + count_list cs 42 \<le> length args" using 1(2) True Cons by simp
      then have "count_list cs 42 \<le> length args" by simp
      from scan_ends [OF this, of spec0] obtain c sp pre rest where
        q: "scan spec0 cs args = Some (c, sp, rest, drop (count_list pre 42) args)" "cs = pre @ rest"
          "c = 0 \<or> c \<in> set pre" "37 \<in> set pre \<longrightarrow> c = 37" by blast
      define args' where "args' = drop (count_list pre 42) args"
      have len': "1 + count_list pre 37 + count_list rest 37 + count_list rest 42 \<le> length args'"
        using len q(2) by (simp add: args'_def)
      have sub: "set args' \<subseteq> set args" unfolding args'_def by (rule set_drop_subset)
      consider "c \<notin> set conversions" | "c = 37" | "c \<in> set conversions" "c \<noteq> 37" by blast
      then show ?thesis
      proof cases
        case 1
        then have "37 \<notin> set pre" using q(4) by (auto simp: conversions_def)
        then have "\<exists>r. vfmt errh put (\<lambda>_. m) cs args' (put 37 s) = Some r"
          using IH [OF q(2), of args'] len' sub unfolding q(2) vfmt_text [OF \<open>37 \<notin> set pre\<close>] by simp
        then show ?thesis using True Cons q(1) 1 by (simp add: directive_def args'_def)
      next
        case 2
        then show ?thesis
          using True Cons q(1) IH [OF q(2), of args' "put 37 s"] len' sub
          by (simp add: directive_def conversions_def args'_def)
      next
        case 3
        obtain a as where as: "args' = a # as" using len' by (cases args') auto
        have "\<exists>r. errh (ucast a) s = Some r" if "c = 101"
        proof (rule assms(2))
          have "101 \<in> set fmt" using that q(2,3) Cons by auto
          then show "(ucast a :: u32) \<noteq> 0x80000000" using \<open>101 \<in> set fmt \<longrightarrow> _\<close> sub as by auto
        qed
        then obtain t where t: "convert errh put (\<lambda>_. m) c sp a s = Some t"
          using convert_total [of m z c errh a s put sp, OF assms(1)] by blast
        have "\<exists>r. vfmt errh put (\<lambda>_. m) rest as t = Some r"
          using IH [OF q(2), of as t] len' sub as by auto
        then show ?thesis
          using True Cons q(1) 3 as t unfolding args'_def [symmetric] by (simp add: directive_def)
      qed
    qed
  qed
qed

lemma vprintfmt_total:
  assumes "count_list fmt 37 + count_list fmt 42 \<le> length ap" "m z = 0"
    and "101 \<in> set fmt \<longrightarrow> (\<forall>a \<in> set ap. (ucast a :: u32) \<noteq> 0x80000000)"
  shows "\<exists>r. vprintfmt put (\<lambda>_. m) fmt ap s = Some r"
  unfolding vprintfmt_def
  by (rule vfmt_total [of m z "print_error put (\<lambda>_. m)"])
     (rule assms(2), erule print_error_total, rule assms(1), rule assms(3))

text \<open>The buffer of the user's \<open>cprintf\<close>.\<close>

definition pb_rel :: "u32 list \<Rightarrow> printbuf \<Rightarrow> bool" where
  "pb_rel chars b \<longleftrightarrow> concat (pb_calls b) @ pb_buf b = map ucast chars \<and> pb_cnt b = of_nat (length chars) \<and>
     length (pb_buf b) < 255 \<and> (\<forall>t \<in> set (pb_calls b). length t = 255)"

interpretation user_out: related pb_rel collect user_putch "\<lambda>_. m" "\<lambda>_. m" for m
  by unfold_locales (auto simp: pb_rel_def collect_def user_putch_def Let_def)

text \<open>C30: \<open>cprintf\<close> returns for every format that has an argument for each percent sign and each
  star, in the kernel and in user programs, if no error code that \<open>%e\<close> could print is the smallest \<open>int\<close>.
  Both print the same characters: the kernel on the console, one after the other, and it returns 0; a user
  program in system calls of at most 255 bytes each, and it returns their number, wrapped around to an \<open>int\<close>.\<close>

theorem cprintf_returns:
  assumes "count_list fmt 37 + count_list fmt 42 \<le> length ap" "m z = 0"
    and "101 \<in> set fmt \<longrightarrow> (\<forall>a \<in> set ap. (ucast a :: u32) \<noteq> 0x80000000)"
  shows "\<exists>chars calls. vprintfmt collect (\<lambda>_. m) fmt ap [] = Some chars \<and>
    kern_cprintf m fmt ap c = Some (0, fold cputchar chars c) \<and>
    user_cprintf m fmt ap = Some (sint (of_nat (length chars) :: u32), calls) \<and>
    concat calls = map ucast chars \<and> (\<forall>t \<in> set calls. length t \<le> 255)"
proof -
  obtain chars where chars: "vprintfmt collect (\<lambda>_. m) fmt ap [] = Some chars"
    using vprintfmt_total [OF assms(1) _ assms(3), of m z collect "[]"] assms(2) by blast
  have "vprintfmt kern_putch (\<lambda>_. m) fmt ap (c, 0) = Some (fold cputchar chars c, 0)"
    using vprintfmt_follows [OF kernel_out.related_axioms _ chars, of "(c, 0)" c] by simp
  then have kern: "kern_cprintf m fmt ap c = Some (0, fold cputchar chars c)"
    by (simp add: kern_cprintf_def kern_vcprintf_def)
  let ?b = "\<lparr>pb_buf = [], pb_cnt = 0, pb_calls = []\<rparr>"
  have "pb_rel [] ?b" by (simp add: pb_rel_def)
  then obtain b where b: "vprintfmt user_putch (\<lambda>_. m) fmt ap ?b = Some b" "pb_rel chars b"
    using vprintfmt_follows [OF user_out.related_axioms _ chars] by blast
  then have "user_cprintf m fmt ap = Some (sint (of_nat (length chars) :: u32), pb_calls b @ [pb_buf b])"
    by (simp add: user_cprintf_def user_vcprintf_def pb_rel_def)
  with chars kern b(2) show ?thesis
    by (intro exI [of _ chars] exI [of _ "pb_calls b @ [pb_buf b]"]) (auto simp: pb_rel_def)
qed

theorem cprintf_returns_witness:
  "\<exists>chars calls. kern_cprintf (\<lambda>_. 0) (bytes_of ''envid %0*x'') [8, 4096] cons_zero = Some (0, fold cputchar chars cons_zero) \<and>
   user_cprintf (\<lambda>_. 0) (bytes_of ''envid %0*x'') [8, 4096] = Some (sint (of_nat (length chars) :: u32), calls) \<and>
   concat calls = map ucast chars"
proof -
  have "count_list (bytes_of ''envid %0*x'') 37 + count_list (bytes_of ''envid %0*x'') 42 \<le> length [8, 4096 :: u64]"
    "101 \<in> set (bytes_of ''envid %0*x'') \<longrightarrow> (\<forall>a \<in> set [8, 4096 :: u64]. (ucast a :: u32) \<noteq> 0x80000000)"
    by (simp_all add: bytes_of_def)
  from cprintf_returns [OF this(1) _ this(2), of "\<lambda>_. 0" 0 cons_zero] show ?thesis by auto
qed

end
