(* ===== verification/Boot_Detect.thy ===== *)
theory Boot_Detect
  imports Lapic "HOL-Library.Multiset"
begin

text \<open>
  How the kernel learns the size of physical memory: \<open>nvram_read\<close>, \<open>multiboot_read\<close> and
  \<open>i386_detect_memory\<close> of \<open>kern/pmap.c\<close> with the types of \<open>kern/multiboot.h\<close>. The memory map that the
  boot loader leaves is an argument: the entries are an array \<open>mm\<close>, and \<open>mmap_list\<close> is an array of
  pointers into it, that is, of indices. Shown: the insertion loop sorts the map, merging
  neighbours loses no memory, and the number of pages is bounded whatever the firmware says.
\<close>

section \<open>kern/multiboot.h\<close>

record memory_map_t =
  mm_size :: u32
  base_addr_low :: u32
  base_addr_high :: u32
  length_low :: u32
  length_high :: u32
  mm_type :: u32

record multiboot_info_t =
  mb_flags :: u32
  mmap_length :: u32

definition MB_TYPE_USABLE :: u32 where "MB_TYPE_USABLE = 1"
definition MB_TYPE_RESERVED :: u32 where "MB_TYPE_RESERVED = 2"
definition MB_TYPE_ACPI_RECLM :: u32 where "MB_TYPE_ACPI_RECLM = 3"
definition MB_TYPE_ACPI_NVS :: u32 where "MB_TYPE_ACPI_NVS = 4"
definition MB_TYPE_BAD :: u32 where "MB_TYPE_BAD = 5"
definition MB_FLAG_MMAP :: u32 where "MB_FLAG_MMAP = 0x40"

definition APPEND_HILO :: "u32 \<Rightarrow> u32 \<Rightarrow> u64" where
  "APPEND_HILO hi lo = push_bit 32 (ucast hi) + ucast lo"

definition restrictive_type :: "u32 \<Rightarrow> u32 \<Rightarrow> u32" where
  "restrictive_type t1 t2 =
     (if t1 = MB_TYPE_BAD \<or> t2 = MB_TYPE_BAD then MB_TYPE_BAD
      else if t1 = MB_TYPE_ACPI_NVS \<or> t2 = MB_TYPE_ACPI_NVS then MB_TYPE_ACPI_NVS
      else if t1 = MB_TYPE_RESERVED \<or> t2 = MB_TYPE_RESERVED then MB_TYPE_RESERVED
      else if t1 = MB_TYPE_ACPI_RECLM \<or> t2 = MB_TYPE_ACPI_RECLM then MB_TYPE_ACPI_RECLM
      else MB_TYPE_USABLE)"

section \<open>kern/pmap.c: the memory map\<close>

definition mm_addr :: "memory_map_t \<Rightarrow> u64" where
  "mm_addr e = APPEND_HILO (base_addr_high e) (base_addr_low e)"

definition mm_len :: "memory_map_t \<Rightarrow> u64" where
  "mm_len e = APPEND_HILO (length_high e) (length_low e)"

type_synonym mmap_array = "nat \<Rightarrow> memory_map_t"
type_synonym mmap_ptrs = "nat \<Rightarrow> nat option"

text \<open>The loop over \<open>j\<close> up to its \<open>break\<close>: the place of an entry with address \<open>addr\<close> among \<open>i\<close>.\<close>

function mb_find :: "mmap_array \<Rightarrow> mmap_ptrs \<Rightarrow> u64 \<Rightarrow> nat \<Rightarrow> nat \<Rightarrow> nat" where
  "mb_find mm ml addr i j =
     (if j < i then if mm_addr (mm (the (ml j))) > addr then j else mb_find mm ml addr i (Suc j)
      else j)"
  by auto
termination by (relation "measure (\<lambda>(mm, ml, addr, i, j). i - j)") auto

declare mb_find.simps [simp del]

text \<open>The loop \<open>while (last != j)\<close>.\<close>

fun mb_shift :: "mmap_ptrs \<Rightarrow> nat \<Rightarrow> nat \<Rightarrow> mmap_ptrs" where
  "mb_shift ml 0 j = ml"
| "mb_shift ml (Suc l) j = (if Suc l = j then ml else mb_shift (ml(Suc l := ml l)) l j)"

definition mb_insert :: "nat \<Rightarrow> mmap_array \<times> mmap_ptrs \<times> kstate \<Rightarrow> mmap_array \<times> mmap_ptrs \<times> kstate" where
  "mb_insert i = (\<lambda>(mm, ml, s).
     let addr = mm_addr (mm i); len = mm_len (mm i);
         s = cprintf ''size: %d, address: 0x%016x, length: 0x%016x, type: %x''
               [ucast (mm_size (mm i)), addr, len, ucast (mm_type (mm i))] s;
         mm = (if mm_type (mm i) > 5 \<or> mm_type (mm i) < 1
               then mm(i := (mm i)\<lparr>mm_type := MB_TYPE_RESERVED\<rparr>) else mm);
         j = mb_find mm ml addr i 0;
         ml = (if j < i then mb_shift ml (i + 1) j else ml)
     in (mm, ml(j := Some i), s))"

definition mb_sanitize :: "nat \<Rightarrow> mmap_array \<times> mmap_ptrs \<Rightarrow> mmap_array \<times> mmap_ptrs" where
  "mb_sanitize i = (\<lambda>(mm, ml).
     let p = the (ml (i - 1)); t = the (ml i); prev = mm p; this = mm t in
     if mm_addr prev + mm_len prev = mm_addr this \<and> mm_type prev = mm_type this then
       (mm(t := this\<lparr>length_low := ucast (ucast (ucast (mm_len prev) :: u32) + mm_len this),
            length_high := ucast (drop_bit 32 (mm_len prev + mm_len this)),
            base_addr_low := base_addr_low prev, base_addr_high := base_addr_high prev\<rparr>),
        ml(i - 1 := None))
     else if mm_addr prev + mm_len prev > mm_addr this then
       let type = restrictive_type (mm_type prev) (mm_type this);
           mm = mm(p := (mm p)\<lparr>mm_type := type\<rparr>)
       in (mm(t := (mm t)\<lparr>mm_type := type\<rparr>), ml)
     else (mm, ml))"

definition mb_total :: "nat \<Rightarrow> mmap_array \<times> mmap_ptrs \<Rightarrow> u64 \<times> u64 \<Rightarrow> u64 \<times> u64" where
  "mb_total i = (\<lambda>(mm, ml) (basemem, extmem).
     case ml i of
       None \<Rightarrow> (basemem, extmem)
     | Some k \<Rightarrow>
         if mm_type (mm k) = MB_TYPE_USABLE \<or> mm_type (mm k) = MB_TYPE_ACPI_RECLM then
           if base_addr_low (mm k) < 0x100000 \<and> base_addr_high (mm k) = 0
           then (basemem + mm_len (mm k), extmem) else (basemem, extmem + mm_len (mm k))
         else (basemem, extmem))"

text \<open>\<open>n\<close> is \<open>mmap_length / sizeof(memory_map_t)\<close>; the initial contents of \<open>mmap_list\<close> do not matter.\<close>

definition multiboot_read ::
  "nat \<Rightarrow> mmap_array \<Rightarrow> mmap_ptrs \<Rightarrow> u64 \<times> u64 \<Rightarrow> kstate \<Rightarrow> (u64 \<times> u64) \<times> kstate" where
  "multiboot_read n mm ml0 mems s =
     (let (mm, ml, s) = fold mb_insert [0..<n] (mm, ml0, cprintf ''e820 MEMORY MAP'' [] s);
          s = cprintf '''' [] s;
          (mm, ml) = fold mb_sanitize [1..<n] (mm, ml)
      in (fold (\<lambda>i. mb_total i (mm, ml)) [0..<n] mems, s))"

section \<open>kern/pmap.c: i386\_detect\_memory\<close>

definition NVRAM_BASELO :: u32 where "NVRAM_BASELO = 0xe + 7"
definition NVRAM_EXTLO :: u32 where "NVRAM_EXTLO = 0xe + 9"
definition NVRAM_EXTGT16LO :: u32 where "NVRAM_EXTGT16LO = 0xe + 38"

definition nvram_read :: "u32 \<Rightarrow> kstate \<Rightarrow> u32 \<times> kstate" where
  "nvram_read r s =
     (let (lo, s) = mc146818_read r s; (hi, s) = mc146818_read (r + 1) s
      in (lo OR push_bit 8 hi, s))"

definition sizeof_PageInfo :: u64 where "sizeof_PageInfo = 16"

definition upages_max :: u64 where "upages_max = (ULIM - UPAGES) div sizeof_PageInfo"
definition kern_mem_max :: u64 where "kern_mem_max = (UVPT - KERNBASE) div PGSIZE"

text \<open>
  The products are computed as \<open>int\<close> and then widened. \<open>mbinfo\<close> is what \<open>multiboot_info\<close> points to,
  \<open>None\<close> for a null pointer, with the memory map and the uninitialised list.
\<close>

definition firmware_memory ::
  "(multiboot_info_t \<times> mmap_array \<times> mmap_ptrs) option \<Rightarrow> kstate \<Rightarrow> (u64 \<times> u64) \<times> kstate" where
  "firmware_memory mbinfo s =
     (let nvram = (\<lambda>s. let (b, s) = nvram_read NVRAM_BASELO s; (e, s) = nvram_read NVRAM_EXTLO s
                       in ((scast (b * 1024), scast (e * 1024)), s))
      in case mbinfo of
           None \<Rightarrow> nvram s
         | Some (mb, mm, ml) \<Rightarrow>
             if mb_flags mb AND MB_FLAG_MMAP \<noteq> 0
             then multiboot_read (unat (mmap_length mb) div 24) mm ml (0, 0) s else nvram s)"

text \<open>The extended memory in pages; above 16M the size comes in blocks of 64K.\<close>

definition extended_pages :: "u64 \<Rightarrow> kstate \<Rightarrow> u64 \<times> kstate" where
  "extended_pages extmem s =
     (let (e, s) = nvram_read NVRAM_EXTLO s in
      if e = 0xffff then
        let (x, s) = nvram_read NVRAM_EXTGT16LO s; pextmem = scast (x * (64 * 1024))
        in (((16 * 1024 * 1024) + pextmem - (1 * 1024 * 1024)) div PGSIZE, s)
      else (extmem div PGSIZE, s))"

definition set_page_counts :: "u64 \<Rightarrow> u64 \<Rightarrow> kstate \<Rightarrow> unit res" where
  "set_page_counts npages_base npages_extmem s =
     (let np = (if npages_extmem \<noteq> 0 then EXTPHYSMEM div PGSIZE + npages_extmem else npages_base);
          s = cprintf ''Physical memory: %uM available, base = %uK, extended = %uK, npages = %d''
                [np * PGSIZE div (1024 * 1024), npages_base * PGSIZE div 1024,
                 npages_extmem * PGSIZE div 1024, np] s;
          s = cprintf ''Pages limited to %llu by upage address range (%uMB), Pages limited to %llu by remapped phys mem (%uMB)''
                [upages_max, upages_max * PGSIZE div (1024 * 1024),
                 kern_mem_max, kern_mem_max * PGSIZE div (1024 * 1024)] s;
          max_npages = (if upages_max < kern_mem_max then upages_max else kern_mem_max);
          s = s\<lparr>npages_basemem := unat npages_base, npages := unat np\<rparr>
      in if np > max_npages then
           Inr ((), cprintf ''Using only %uK of the available memory.'' [max_npages]
             (s\<lparr>npages := unat (max_npages - 1024)\<rparr>))
         else Inr ((), s))"

definition i386_detect_memory ::
  "(multiboot_info_t \<times> mmap_array \<times> mmap_ptrs) option \<Rightarrow> kstate \<Rightarrow> unit res" where
  "i386_detect_memory mbinfo s =
     (let ((basemem, extmem), s) = firmware_memory mbinfo s
      in if basemem = 0 then panic ''assertion failed: basemem'' s
         else let (npages_extmem, s) = extended_pages extmem s
              in set_page_counts (basemem div PGSIZE) npages_extmem s)"

section \<open>The list is sorted\<close>

lemma mb_shift_nth: "j \<le> l \<Longrightarrow> mb_shift ml l j k = (if j < k \<and> k \<le> l then ml (k - 1) else ml k)"
proof (induction l arbitrary: ml)
  case (Suc l)
  show ?case
  proof (cases "Suc l = j")
    case False
    with Suc.prems have "j \<le> l" by simp
    with False show ?thesis by (simp add: Suc.IH) auto
  qed auto
qed auto

lemma mb_find_bound: "j \<le> i \<Longrightarrow> j \<le> mb_find mm ml a i j \<and> mb_find mm ml a i j \<le> i"
proof (induction mm ml a i j rule: mb_find.induct)
  case (1 mm ml a i j)
  then show ?case by (subst (1 2) mb_find.simps) auto
qed

lemma mb_find_before: "j \<le> k \<Longrightarrow> k < mb_find mm ml a i j \<Longrightarrow> mm_addr (mm (the (ml k))) \<le> a"
proof (induction mm ml a i j rule: mb_find.induct)
  case (1 mm ml a i j)
  show ?case
  proof (cases "j < i \<and> \<not> a < mm_addr (mm (the (ml j)))")
    case True
    with 1 show ?thesis by (cases "j = k") (auto simp: mb_find.simps [of mm ml a i j])
  next
    case False
    with 1 show ?thesis by (auto simp: mb_find.simps [of mm ml a i j] split: if_splits)
  qed
qed

lemma mb_find_at: "mb_find mm ml a i j < i \<Longrightarrow> a < mm_addr (mm (the (ml (mb_find mm ml a i j))))"
proof (induction mm ml a i j rule: mb_find.induct)
  case (1 mm ml a i j)
  then show ?case
    by (cases "j < i \<and> \<not> a < mm_addr (mm (the (ml j)))") (auto simp: mb_find.simps [of mm ml a i j])
qed

lemma sorted_insert_after:
  assumes s: "sorted (map f ys)" and r: "r \<le> length ys" "\<And>k. k < r \<Longrightarrow> f (ys ! k) \<le> f x"
    "r < length ys \<Longrightarrow> f x < f (ys ! r)"
  shows "sorted (map f (take r ys @ x # drop r ys))" and "\<And>y. y \<in> set (drop r ys) \<Longrightarrow> f x < f y"
proof -
  have lo: "f y \<le> f x" if "y \<in> set (take r ys)" for y
    using that r(1,2) by (auto simp: in_set_conv_nth)
  show hi: "f x < f y" if "y \<in> set (drop r ys)" for y
  proof -
    from that obtain k where k: "k < length ys - r" "y = ys ! (r + k)" by (auto simp: in_set_conv_nth)
    then have "f (ys ! r) \<le> f y"
      using sorted_nth_mono [OF s, of r "r + k"] by simp
    moreover have "r < length ys" using k(1) by simp
    ultimately show ?thesis using r(3) k(2) by simp
  qed
  have "sorted (map f (take r ys))" "sorted (map f (drop r ys))"
    using s by (simp_all add: take_map [symmetric] drop_map [symmetric] sorted_wrt_take sorted_wrt_drop)
  moreover have "f a \<le> f b" if "a \<in> set (take r ys)" "b \<in> set (drop r ys)" for a b
    using lo [OF that(1)] hi [OF that(2)] by order
  ultimately show "sorted (map f (take r ys @ x # drop r ys))"
    using lo hi by (auto simp: sorted_append less_imp_le)
qed

text \<open>Inserting behind the last element that is not larger is one step of a stable sort.\<close>

lemma sort_key_snoc:
  assumes "r \<le> length (sort_key f xs)" "\<And>k. k < r \<Longrightarrow> f (sort_key f xs ! k) \<le> f x"
    "r < length (sort_key f xs) \<Longrightarrow> f x < f (sort_key f xs ! r)"
  shows "sort_key f (xs @ [x]) = take r (sort_key f xs) @ x # drop r (sort_key f xs)"
proof (rule properties_for_sort_key)
  let ?ys = "sort_key f xs"
  note ins = sorted_insert_after [of f ?ys r x, OF sorted_sort_key assms]
  show "sorted (map f (take r ?ys @ x # drop r ?ys))" by (rule ins(1))
  have "mset (take r ?ys @ drop r ?ys) = mset xs" by simp
  then show "mset (take r ?ys @ x # drop r ?ys) = mset (xs @ [x])" by (simp del: append_take_drop_id)
  fix k
  have "filter (\<lambda>y. f k = f y) (take r ?ys @ drop r ?ys) = filter (\<lambda>y. f k = f y) xs"
    by (simp add: eq_commute [of "f k"] sort_key_stable)
  moreover have "filter (\<lambda>y. f x = f y) (drop r ?ys) = []"
    using ins(2) by (fastforce simp: filter_empty_conv)
  ultimately show "filter (\<lambda>y. f k = f y) (take r ?ys @ x # drop r ?ys) = filter (\<lambda>y. f k = f y) (xs @ [x])"
    by (auto simp del: append_take_drop_id)
qed

lemma mb_insert_sorts:
  assumes "map ml [0..<i] = map Some (sort_key key [0..<i])" "\<And>k. mm_addr (mm k) = key k"
    and ins: "mb_insert i (mm, ml, s) = (mm', ml', s')"
  shows "map ml' [0..<Suc i] = map Some (sort_key key [0..<Suc i])"
proof -
  let ?L = "sort_key key [0..<i]"
  define mm1 where "mm1 = (if mm_type (mm i) > 5 \<or> mm_type (mm i) < 1
               then mm(i := (mm i)\<lparr>mm_type := MB_TYPE_RESERVED\<rparr>) else mm)"
  define j where "j = mb_find mm1 ml (key i) i 0"
  have key: "mm_addr (mm1 k) = key k" for k
    using assms(2) by (auto simp: mm1_def mm_addr_def)
  have ml: "ml k = Some (?L ! k)" if "k < i" for k
    using arg_cong [OF assms(1), of "\<lambda>l. l ! k"] that by simp
  have ml': "ml' = (if j < i then mb_shift ml (i + 1) j else ml)(j := Some i)"
    using ins assms(2) [of i] by (auto simp: mb_insert_def Let_def j_def mm1_def)
  have j: "j \<le> i" using mb_find_bound [of 0 i] by (simp add: j_def)
  have before: "key (?L ! k) \<le> key i" if "k < j" for k
    using mb_find_before [of 0 k mm1 ml "key i" i] that j ml key by (simp add: j_def)
  have at: "key i < key (?L ! j)" if "j < i"
    using mb_find_at [of mm1 ml "key i" i 0] that ml key by (simp add: j_def)
  have "ml' k = Some ((take j ?L @ i # drop j ?L) ! k)" if "k < Suc i" for k
  proof -
    consider "k < j" | "k = j" | "j < k" by linarith
    then show ?thesis
      using that j ml by cases (auto simp: ml' mb_shift_nth nth_append)
  qed
  then have "map ml' [0..<Suc i] = map Some (take j ?L @ i # drop j ?L)"
    using j by (intro nth_equalityI) (simp_all del: upt_Suc map_append list.map)
  also have "take j ?L @ i # drop j ?L = sort_key key ([0..<i] @ [i])"
    using before at j by (intro sort_key_snoc [symmetric]) auto
  finally show ?thesis by simp
qed

text \<open>An entry after the repair of its type.\<close>

definition mb_fix :: "memory_map_t \<Rightarrow> memory_map_t" where
  "mb_fix e = (if mm_type e > 5 \<or> mm_type e < 1 then e\<lparr>mm_type := MB_TYPE_RESERVED\<rparr> else e)"

lemma mb_fix_simps [simp]: "mm_addr (mb_fix e) = mm_addr e" "mm_len (mb_fix e) = mm_len e"
  by (simp_all add: mb_fix_def mm_addr_def mm_len_def)

lemma mb_insert_fold:
  "fold mb_insert [0..<n] (mm, ml0, s) = (mm', ml', s') \<Longrightarrow>
   map ml' [0..<n] = map Some (sort_key (\<lambda>k. mm_addr (mm k)) [0..<n]) \<and>
   mm' = (\<lambda>k. if k < n then mb_fix (mm k) else mm k)"
proof (induction n arbitrary: mm' ml' s')
  case (Suc n)
  obtain mm1 ml1 s1 where f: "fold mb_insert [0..<n] (mm, ml0, s) = (mm1, ml1, s1)"
    by (metis surj_pair)
  note ih = Suc.IH [OF f]
  have ins: "mb_insert n (mm1, ml1, s1) = (mm', ml', s')" using Suc.prems f by simp
  have "mm_addr (mm1 k) = mm_addr (mm k)" for k using ih by simp
  note sorts = mb_insert_sorts [OF conjunct1 [OF ih] this ins]
  have "mm' = mm1(n := mb_fix (mm1 n))"
    using ins by (auto simp: mb_insert_def mb_fix_def Let_def)
  with sorts ih show ?case by (auto simp: fun_eq_iff less_Suc_eq)
qed simp

text \<open>C31: the insertion loop of \<open>multiboot_read\<close> is a stable sort of the memory map by base
  address: the first \<open>n\<close> pointers of the list are the entries in that order.\<close>

theorem multiboot_sorts:
  "map (fst (snd (fold mb_insert [0..<n] (mm, ml0, s)))) [0..<n] =
     map Some (sort_key (\<lambda>k. mm_addr (mm k)) [0..<n])"
proof -
  obtain mm' ml' s' where f: "fold mb_insert [0..<n] (mm, ml0, s) = (mm', ml', s')"
    by (metis surj_pair)
  from mb_insert_fold [OF f] f show ?thesis by simp
qed


section \<open>No memory is lost\<close>

lemma APPEND_HILO_split: "APPEND_HILO (ucast (drop_bit 32 x)) (ucast x) = x"
proof -
  have hi: "unat (push_bit 32 (ucast w) :: u64) = unat w * 2 ^ 32" for w :: u32
    using unsigned_less [of w, where 'a = nat]
    by (simp add: push_bit_eq_mult unat_word_ariths unsigned_ucast_eq take_bit_nat_eq_self)
  have x: "unat x < 2 ^ 64" using unsigned_less [of x, where 'a = nat] by simp
  then have "unat (ucast (drop_bit 32 x) :: u32) = unat x div 2 ^ 32"
    by (simp add: unsigned_ucast_eq drop_bit_eq_div unat_div take_bit_nat_eq_self less_mult_imp_div_less)
  with hi have "unat (push_bit 32 (ucast (ucast (drop_bit 32 x) :: u32)) :: u64) = unat x div 2 ^ 32 * 2 ^ 32"
    by simp
  moreover have "unat (ucast (ucast x :: u32) :: u64) = unat x mod 2 ^ 32"
    by (simp add: unsigned_ucast_eq take_bit_eq_mod unat_mod)
  moreover have "unat x div 2 ^ 32 * 2 ^ 32 + unat x mod 2 ^ 32 = unat x" by simp
  ultimately show ?thesis
    using x unfolding APPEND_HILO_def by (simp add: word_unat_eq_iff unat_word_ariths)
qed

lemma low_word_sum: "(ucast (ucast (ucast a :: u32) + b) :: u32) = ucast (a + b :: u64)"
  by (simp add: word_unat_eq_iff unsigned_ucast_eq take_bit_eq_mod unat_word_ariths mod_mod_cancel
      mod_add_left_eq)

definition mb_usable :: "memory_map_t \<Rightarrow> bool" where
  "mb_usable e \<longleftrightarrow> mm_type e = MB_TYPE_USABLE \<or> mm_type e = MB_TYPE_ACPI_RECLM"

text \<open>What entry \<open>i\<close> of the list contributes.\<close>

definition mb_weight :: "mmap_array \<Rightarrow> mmap_ptrs \<Rightarrow> nat \<Rightarrow> u64" where
  "mb_weight mm ml i =
     (case ml i of None \<Rightarrow> 0 | Some k \<Rightarrow> if mb_usable (mm k) then mm_len (mm k) else 0)"

lemma mb_total_fold:
  "fold (\<lambda>i. mb_total i (mm, ml)) [0..<n] (b, e) = (b', e') \<Longrightarrow>
   b' + e' = b + e + (\<Sum>i<n. mb_weight mm ml i)"
proof (induction n arbitrary: b' e')
  case (Suc n)
  obtain b1 e1 where f: "fold (\<lambda>i. mb_total i (mm, ml)) [0..<n] (b, e) = (b1, e1)" by fastforce
  have "mb_total n (mm, ml) (b1, e1) = (b', e')" using Suc.prems f by simp
  then have "b' + e' = b1 + e1 + mb_weight mm ml n"
    by (auto simp: mb_total_def mb_weight_def mb_usable_def split: option.splits if_splits)
  then show ?case using Suc.IH [OF f] by simp
qed simp

definition mb_end :: "memory_map_t \<Rightarrow> u64" where "mb_end e = mm_addr e + mm_len e"

text \<open>The list before the turn for \<open>i\<close>: pointers to different entries, in order, without overlap.\<close>

definition mb_ordered :: "nat \<Rightarrow> nat \<Rightarrow> mmap_array \<Rightarrow> mmap_ptrs \<Rightarrow> bool" where
  "mb_ordered n i mm ml \<longleftrightarrow>
     (\<forall>a b k. ml a = Some k \<longrightarrow> ml b = Some k \<longrightarrow> a < n \<longrightarrow> b < n \<longrightarrow> a = b) \<and>
     (\<forall>a. i \<le> Suc a \<longrightarrow> a < n \<longrightarrow> ml a \<noteq> None) \<and>
     (\<forall>a. i \<le> Suc a \<longrightarrow> Suc a < n \<longrightarrow> mb_end (mm (the (ml a))) \<le> mm_addr (mm (the (ml (Suc a)))))"

lemma mb_sanitize_step:
  assumes o: "mb_ordered n i mm ml" and i: "0 < i" "i < n"
    and r: "mb_sanitize i (mm, ml) = (mm', ml')"
  shows "mb_ordered n (Suc i) mm' ml' \<and> (\<Sum>a<n. mb_weight mm' ml' a) = (\<Sum>a<n. mb_weight mm ml a)"
proof -
  obtain p t where pt: "ml (i - 1) = Some p" "ml i = Some t" "mb_end (mm p) \<le> mm_addr (mm t)"
    using o i unfolding mb_ordered_def
    by (metis Suc_pred' diff_less_Suc le_SucI less_Suc_eq_le less_imp_diff_less not_None_eq option.sel order_refl)
  have inj: "a = b" if "ml a = Some k" "ml b = Some k" "a < n" "b < n" for a b k
    using o that unfolding mb_ordered_def by blast
  show ?thesis
  proof (cases "mb_end (mm p) = mm_addr (mm t) \<and> mm_type (mm p) = mm_type (mm t)")
    case False
    moreover have "\<not> mm_addr (mm t) < mm_addr (mm p) + mm_len (mm p)"
      using pt(3) by (simp add: mb_end_def not_less)
    ultimately have "mm' = mm" "ml' = ml"
      using r pt(1,2) by (auto simp: mb_sanitize_def Let_def mb_end_def split: if_splits)
    with o show ?thesis by (simp add: mb_ordered_def)
  next
    case True
    let ?e = "(mm t)\<lparr>length_low := ucast (ucast (ucast (mm_len (mm p)) :: u32) + mm_len (mm t)),
        length_high := ucast (drop_bit 32 (mm_len (mm p) + mm_len (mm t))),
        base_addr_low := base_addr_low (mm p), base_addr_high := base_addr_high (mm p)\<rparr>"
    have r': "mm' = mm(t := ?e)" "ml' = ml(i - 1 := None)"
      using r pt True by (auto simp: mb_sanitize_def Let_def mb_end_def)
    have len: "mm_len ?e = mm_len (mm p) + mm_len (mm t)"
      by (subst mm_len_def) (simp add: low_word_sum APPEND_HILO_split)
    have "mm_addr ?e = mm_addr (mm p)" by (simp add: mm_addr_def)
    then have e: "mm_len ?e = mm_len (mm p) + mm_len (mm t)" "mm_type ?e = mm_type (mm p)" "mb_end ?e = mb_end (mm t)"
      using True len by (simp_all add: mb_end_def add.assoc)
    have other: "ml a \<noteq> Some t" if "a < n" "a \<noteq> i" for a
      using inj [of a t i] that i pt by auto
    have "mb_weight mm' ml' a = mb_weight mm ml a" if "a < n" "a \<noteq> i" "a \<noteq> i - 1" for a
      using that other [of a] by (auto simp: mb_weight_def r' split: option.splits)
    then have "(\<Sum>a\<in>{..<n} - {i, i - 1}. mb_weight mm' ml' a) = (\<Sum>a\<in>{..<n} - {i, i - 1}. mb_weight mm ml a)"
      by (intro sum.cong) auto
    moreover have "mb_weight mm' ml' i + mb_weight mm' ml' (i - 1) = mb_weight mm ml i + mb_weight mm ml (i - 1)"
      using e pt True i by (auto simp: mb_weight_def r' mb_usable_def)
    moreover have "(\<Sum>a<n. f a) = f i + f (i - 1) + (\<Sum>a\<in>{..<n} - {i, i - 1}. f a)" for f :: "nat \<Rightarrow> u64"
    proof -
      have "i - 1 \<in> {..<n} - {i}" using i by auto
      then have "(\<Sum>a\<in>{..<n} - {i}. f a) = f (i - 1) + (\<Sum>a\<in>{..<n} - {i} - {i - 1}. f a)"
        by (intro sum.remove) auto
      moreover have "(\<Sum>a<n. f a) = f i + (\<Sum>a\<in>{..<n} - {i}. f a)" using i by (intro sum.remove) auto
      moreover have "{..<n} - {i} - {i - 1} = {..<n} - {i, i - 1}" by blast
      ultimately show ?thesis by (simp only: add.assoc)
    qed
    ultimately have "(\<Sum>a<n. mb_weight mm' ml' a) = (\<Sum>a<n. mb_weight mm ml a)" by simp
    moreover have "mb_ordered n (Suc i) mm' ml'"
      unfolding mb_ordered_def
    proof (intro conjI allI impI)
      show "a = b" if "ml' a = Some k" "ml' b = Some k" "a < n" "b < n" for a b k
        using that inj by (auto simp: r' split: if_splits)
      show "ml' a \<noteq> None" if "Suc i \<le> Suc a" "a < n" for a
        using that o i by (auto simp: r' mb_ordered_def)
      show "mb_end (mm' (the (ml' a))) \<le> mm_addr (mm' (the (ml' (Suc a))))"
        if a: "Suc i \<le> Suc a" "Suc a < n" for a
      proof -
        have le: "mb_end (mm (the (ml a))) \<le> mm_addr (mm (the (ml (Suc a))))"
          "ml a \<noteq> None" "ml (Suc a) \<noteq> None"
          using o a unfolding mb_ordered_def by simp_all
        moreover have "mb_end (mm' (the (ml a))) = mb_end (mm (the (ml a)))"
          using e by (simp add: r')
        moreover have "the (ml (Suc a)) \<noteq> t" using other [of "Suc a"] le(3) a by auto
        then have "mm' (the (ml (Suc a))) = mm (the (ml (Suc a)))" by (simp add: r')
        moreover have "ml' a = ml a" "ml' (Suc a) = ml (Suc a)" using a i by (auto simp: r')
        ultimately show ?thesis by simp
      qed
    qed
    ultimately show ?thesis by simp
  qed
qed

lemma mb_sanitize_fold:
  assumes "mb_ordered n 1 mm ml" "m \<le> n" "0 < m"
  shows "\<exists>mm' ml'. fold mb_sanitize [1..<m] (mm, ml) = (mm', ml') \<and> mb_ordered n m mm' ml' \<and>
     (\<Sum>a<n. mb_weight mm' ml' a) = (\<Sum>a<n. mb_weight mm ml a)"
  using assms(2,3)
proof (induction m)
  case (Suc m)
  show ?case
  proof (cases "m = 0")
    case True
    then show ?thesis using assms(1) by simp
  next
    case False
    with Suc obtain mm1 ml1 where f: "fold mb_sanitize [1..<m] (mm, ml) = (mm1, ml1)" "mb_ordered n m mm1 ml1"
        "(\<Sum>a<n. mb_weight mm1 ml1 a) = (\<Sum>a<n. mb_weight mm ml a)"
      by auto
    obtain mm2 ml2 where "mb_sanitize m (mm1, ml1) = (mm2, ml2)" by fastforce
    with mb_sanitize_step [OF f(2) _ _ this] f Suc.prems False show ?thesis by simp
  qed
qed simp

text \<open>For a memory map without overlaps, sorting, merging and summing lose nothing: base and
  extended memory together are all bytes of the regions that the map reports as usable or
  reclaimable, whatever the order of the entries.\<close>

theorem multiboot_read_total:
  assumes "\<And>a. Suc a < n \<Longrightarrow>
      mm_addr (mm (sort_key (\<lambda>k. mm_addr (mm k)) [0..<n] ! a)) + mm_len (mm (sort_key (\<lambda>k. mm_addr (mm k)) [0..<n] ! a))
        \<le> mm_addr (mm (sort_key (\<lambda>k. mm_addr (mm k)) [0..<n] ! Suc a))"
    and "0 < n" and "multiboot_read n mm ml0 (0, 0) s = ((basemem, extmem), s')"
  shows "basemem + extmem =
    (\<Sum>k<n. if mm_type (mm k) = MB_TYPE_USABLE \<or> mm_type (mm k) = MB_TYPE_ACPI_RECLM then mm_len (mm k) else 0)"
proof -
  let ?L = "sort_key (\<lambda>k. mm_addr (mm k)) [0..<n]"
  obtain mm1 ml1 s1 where f: "fold mb_insert [0..<n] (mm, ml0, cprintf ''e820 MEMORY MAP'' [] s) = (mm1, ml1, s1)"
    by (metis surj_pair)
  note ins = mb_insert_fold [OF f]
  have ml1: "ml1 a = Some (?L ! a)" if "a < n" for a
    using arg_cong [OF conjunct1 [OF ins], of "\<lambda>l. l ! a"] that by simp
  have L: "?L ! a < n" if "a < n" for a using nth_mem [of a ?L] that by simp
  have mm1: "mm1 (?L ! a) = mb_fix (mm (?L ! a))" if "a < n" for a
    using L [OF that] conjunct2 [OF ins] by simp
  have "mb_ordered n 1 mm1 ml1"
    unfolding mb_ordered_def
  proof (intro conjI allI impI)
    show "a = b" if "ml1 a = Some k" "ml1 b = Some k" "a < n" "b < n" for a b k
      using that ml1 nth_eq_iff_index_eq [of ?L a b] by simp
    show "ml1 a \<noteq> None" if "a < n" for a using ml1 that by simp
    show "mb_end (mm1 (the (ml1 a))) \<le> mm_addr (mm1 (the (ml1 (Suc a))))" if "Suc a < n" for a
      using assms(1) [OF that] that by (simp add: ml1 mm1 mb_end_def)
  qed
  from mb_sanitize_fold [OF this order_refl assms(2)] obtain mm2 ml2 where
    g: "fold mb_sanitize [1..<n] (mm1, ml1) = (mm2, ml2)"
      "(\<Sum>a<n. mb_weight mm2 ml2 a) = (\<Sum>a<n. mb_weight mm1 ml1 a)" by blast
  have "fold (\<lambda>i. mb_total i (mm2, ml2)) [0..<n] (0, 0) = (basemem, extmem)"
    using assms(3) f g(1) by (simp add: multiboot_read_def Let_def)
  from mb_total_fold [OF this] g(2) have "basemem + extmem = (\<Sum>a<n. mb_weight mm1 ml1 a)" by simp
  also have "\<dots> = (\<Sum>a<n. (\<lambda>k. if mb_usable (mm k) then mm_len (mm k) else 0) (?L ! a))"
    by (intro sum.cong)
      (auto simp: mb_weight_def ml1 mm1 mb_usable_def mb_fix_def MB_TYPE_USABLE_def MB_TYPE_ACPI_RECLM_def
        MB_TYPE_RESERVED_def mm_len_def)
  also have "\<dots> = sum_list (map (\<lambda>k. if mb_usable (mm k) then mm_len (mm k) else 0) ?L)"
    by (simp add: sum_list_sum_nth atLeast0LessThan)
  also have "\<dots> = sum_list (map (\<lambda>k. if mb_usable (mm k) then mm_len (mm k) else 0) [0..<n])"
    by (metis (no_types, lifting) mset_map mset_sort sum_mset_sum_list)
  also have "\<dots> = (\<Sum>k<n. if mb_usable (mm k) then mm_len (mm k) else 0)"
    by (simp add: interv_sum_list_conv_sum_set_nat atLeast0LessThan)
  finally show ?thesis by (simp add: mb_usable_def)
qed


text \<open>Two usable regions reported in descending order.\<close>

definition mb_sample :: mmap_array where
  "mb_sample k = \<lparr>mm_size = 20, base_addr_low = (if k = 0 then 0x100000 else 0), base_addr_high = 0,
     length_low = (if k = 0 then 0x7F00000 else 0x9FC00), length_high = 0, mm_type = 1\<rparr>"

theorem multiboot_read_total_witness:
  "\<exists>basemem extmem s'. multiboot_read 2 mb_sample (\<lambda>_. None) (0, 0) (bss_state 8 0 0) = ((basemem, extmem), s') \<and>
     basemem + extmem = 0x7F9FC00"
proof -
  obtain b e s' where r: "multiboot_read 2 mb_sample (\<lambda>_. None) (0, 0) (bss_state 8 0 0) = ((b, e), s')"
    by (metis surj_pair)
  have f: "mm_addr (mb_sample 0) = 0x100000" "mm_addr (mb_sample (Suc 0)) = 0"
    "mm_len (mb_sample 0) = 0x7F00000" "mm_len (mb_sample (Suc 0)) = 0x9FC00"
    by (simp_all add: mb_sample_def mm_addr_def mm_len_def APPEND_HILO_def)
  have two: "[0..<2] = [0, Suc 0]" by (simp add: upt_conv_Cons)
  have "sort_key (\<lambda>k. mm_addr (mb_sample k)) [0..<2] = [Suc 0, 0]" unfolding two by (simp add: f)
  with multiboot_read_total [OF _ _ r] have "b + e = (\<Sum>k<2. if mm_type (mb_sample k) = MB_TYPE_USABLE \<or>
      mm_type (mb_sample k) = MB_TYPE_ACPI_RECLM then mm_len (mb_sample k) else 0)"
    by (simp add: f less_Suc_eq)
  also have "\<dots> = 0x7F9FC00"
    by (simp add: numeral_2_eq_2 lessThan_Suc f MB_TYPE_USABLE_def) (simp add: mb_sample_def)
  finally show ?thesis using r by blast
qed

section \<open>The number of pages\<close>

lemma memory_limits: "upages_max = 3276800" "kern_mem_max = 0x7FFC000"
  by (simp_all add: upages_max_def kern_mem_max_def sizeof_PageInfo_def mmu_defs)

lemma nvram_read_frame: "nvram_read r s = (v, s') \<Longrightarrow> s' = s\<lparr>console := console s'\<rparr>"
  by (auto simp: nvram_read_def mc146818_read_def port_in_def port_out_def Let_def split: prod.splits)

definition probed :: "kstate \<Rightarrow> kstate \<Rightarrow> bool" where
  "probed s s' \<longleftrightarrow> (\<exists>np nb l c. s' = s\<lparr>npages := np, npages_basemem := nb, klog := l, console := c\<rparr>)"

lemma probed_refl: "probed s s"
  unfolding probed_def
  by (intro exI [of _ "npages s"] exI [of _ "npages_basemem s"] exI [of _ "klog s"] exI [of _ "console s"]) simp

lemma probed_trans: "probed s t \<Longrightarrow> probed t u \<Longrightarrow> probed s u"
  unfolding probed_def by fastforce

lemma probed_nvram: "nvram_read r s = (v, s') \<Longrightarrow> probed s s'"
  using nvram_read_frame [of r s v s'] unfolding probed_def
  by (intro exI [of _ "npages s"] exI [of _ "npages_basemem s"] exI [of _ "klog s"] exI [of _ "console s'"]) simp

lemma probed_cprintf: "probed s (cprintf f xs s)"
  unfolding probed_def cprintf_def
  by (intro exI [of _ "npages s"] exI [of _ "npages_basemem s"] exI exI [of _ "console s"]) simp

lemma probed_counts: "probed s (s\<lparr>npages_basemem := a, npages := b\<rparr>)"
  unfolding probed_def by (intro exI [of _ b] exI [of _ a] exI [of _ "klog s"] exI [of _ "console s"]) simp

lemma probed_mb_insert: "fold mb_insert is (mm, ml, s) = (mm', ml', s') \<Longrightarrow> probed s s'"
proof (induction "is" arbitrary: mm ml s)
  case Nil
  then show ?case by (simp add: probed_refl)
next
  case (Cons i "is")
  obtain mm1 ml1 s1 where i: "mb_insert i (mm, ml, s) = (mm1, ml1, s1)" by (metis surj_pair)
  then have "probed s s1" by (auto simp: mb_insert_def Let_def intro: probed_cprintf)
  moreover have "probed s1 s'" using Cons i by simp
  ultimately show ?case by (rule probed_trans)
qed

lemma probed_multiboot:
  assumes "multiboot_read n mm ml m s = (m', s')"
  shows "probed s s'"
proof -
  obtain mm1 ml1 s1 where f: "fold mb_insert [0..<n] (mm, ml, cprintf ''e820 MEMORY MAP'' [] s) = (mm1, ml1, s1)"
    by (metis surj_pair)
  from assms f have "s' = cprintf '''' [] s1"
    by (auto simp: multiboot_read_def Let_def split: prod.splits)
  with probed_mb_insert [OF f] show ?thesis using probed_cprintf probed_trans by blast
qed

lemma probed_firmware: "firmware_memory mbinfo s = (m, s') \<Longrightarrow> probed s s'"
  by (auto simp: firmware_memory_def Let_def split: option.splits prod.splits if_splits
      intro: probed_multiboot dest!: probed_nvram elim: probed_trans)

lemma probed_fields:
  "probed s s' \<Longrightarrow>
     s' = s\<lparr>npages := npages s', npages_basemem := npages_basemem s', klog := klog s', console := console s'\<rparr>"
  by (auto simp: probed_def)

lemma page_count_fits:
  assumes "n \<le> 3276800"
  shows "unat UPAGES + n * unat sizeof_PageInfo \<le> unat ULIM" "unat KERNBASE + n * unat PGSIZE \<le> unat UVPT"
  using assms by (simp_all add: sizeof_PageInfo_def mmu_defs)

lemma probed_npages: "probed s t \<Longrightarrow> probed s (t\<lparr>npages := k\<rparr>)"
proof -
  assume "probed s t"
  then obtain np nb l c where "t = s\<lparr>npages := np, npages_basemem := nb, klog := l, console := c\<rparr>"
    unfolding probed_def by blast
  then have "t\<lparr>npages := k\<rparr> = s\<lparr>npages := k, npages_basemem := nb, klog := l, console := c\<rparr>" by simp
  then show ?thesis unfolding probed_def by blast
qed

lemma max_npages: "(if upages_max < kern_mem_max then upages_max else kern_mem_max) = 3276800"
  by (simp add: memory_limits)

lemma set_page_counts_bound:
  "\<exists>s'. set_page_counts nb ne s = Inr ((), s') \<and> probed s s' \<and> npages s' \<le> 3276800"
proof -
  define np where "np = (if ne \<noteq> 0 then EXTPHYSMEM div PGSIZE + ne else nb)"
  have "\<exists>f xs g ys h zs. set_page_counts nb ne s =
      (if np > 3276800 then Inr ((), cprintf h zs ((cprintf g ys (cprintf f xs s))
          \<lparr>npages_basemem := unat nb, npages := unat np, npages := unat (3276800 - 1024 :: u64)\<rparr>))
       else Inr ((), (cprintf g ys (cprintf f xs s))\<lparr>npages_basemem := unat nb, npages := unat np\<rparr>))"
    unfolding set_page_counts_def Let_def max_npages np_def by (intro exI) (rule refl)
  then obtain f xs g ys h zs where run: "set_page_counts nb ne s =
      (if np > 3276800 then Inr ((), cprintf h zs ((cprintf g ys (cprintf f xs s))
          \<lparr>npages_basemem := unat nb, npages := unat np, npages := unat (3276800 - 1024 :: u64)\<rparr>))
       else Inr ((), (cprintf g ys (cprintf f xs s))\<lparr>npages_basemem := unat nb, npages := unat np\<rparr>))"
    by blast
  let ?t = "(cprintf g ys (cprintf f xs s))\<lparr>npages_basemem := unat nb, npages := unat np\<rparr>"
  have t: "probed s ?t" using probed_cprintf probed_counts probed_trans by blast
  show ?thesis
  proof (cases "np > 3276800")
    case True
    have "probed s (cprintf h zs (?t\<lparr>npages := 3275776\<rparr>))"
      using probed_npages [OF t] probed_cprintf by (rule probed_trans)
    moreover have "npages (cprintf h zs (?t\<lparr>npages := 3275776\<rparr>)) \<le> 3276800" by (simp add: cprintf_def)
    moreover have "set_page_counts nb ne s = Inr ((), cprintf h zs (?t\<lparr>npages := 3275776\<rparr>))"
      using True run by simp
    ultimately show ?thesis by blast
  next
    case False
    then have "npages ?t \<le> 3276800" by (simp add: word_less_nat_alt)
    with False run t show ?thesis by (metis (no_types, lifting))
  qed
qed

text \<open>C32: whatever the firmware reports, \<open>i386_detect_memory\<close> either stops because there is no base
  memory or leaves a page count whose \<open>struct PageInfo\<close>s fit between \<open>UPAGES\<close> and \<open>ULIM\<close> and whose
  frames fit between \<open>KERNBASE\<close> and \<open>UVPT\<close>; nothing of the state but the console, the log and the
  two page counts changes.\<close>

theorem detect_memory_bounds:
  "(\<exists>s'. i386_detect_memory mbinfo s = Inl (Panic ''assertion failed: basemem'', s')) \<or>
   (\<exists>s'. i386_detect_memory mbinfo s = Inr ((), s') \<and>
      unat UPAGES + npages s' * unat sizeof_PageInfo \<le> unat ULIM \<and>
      unat KERNBASE + npages s' * unat PGSIZE \<le> unat UVPT \<and>
      s' = s\<lparr>npages := npages s', npages_basemem := npages_basemem s', klog := klog s', console := console s'\<rparr>)"
proof -
  obtain basemem extmem s1 where fw: "firmware_memory mbinfo s = ((basemem, extmem), s1)"
    by (metis surj_pair)
  obtain ne s2 where ext: "extended_pages extmem s1 = (ne, s2)" by fastforce
  have "probed s1 s2"
    using ext by (auto simp: extended_pages_def Let_def split: prod.splits if_splits
        dest!: probed_nvram elim: probed_trans)
  with probed_firmware [OF fw] have "probed s s2" by (rule probed_trans)
  obtain s' where c: "set_page_counts (basemem div PGSIZE) ne s2 = Inr ((), s')" "probed s2 s'"
      "npages s' \<le> 3276800"
    using set_page_counts_bound by blast
  have "probed s s'" using \<open>probed s s2\<close> c(2) by (rule probed_trans)
  note fits = page_count_fits [OF c(3)] probed_fields [OF this]
  have "i386_detect_memory mbinfo s =
      (if basemem = 0 then Inl (Panic ''assertion failed: basemem'', s1) else Inr ((), s'))"
    using fw ext c(1) by (simp add: i386_detect_memory_def panic_def)
  with fits show ?thesis by (cases "basemem = 0") simp_all
qed

end
