(* ===== verification/Boot_Vm.thy ===== *)
theory Boot_Vm
  imports Pmap_Region Boot_Detect
begin

text \<open>
  The kernel's address space as \<open>x64_vm_init\<close> of \<open>kern/pmap.c\<close> builds it: the top-level table, the
  arrays of page and environment structs, the free list, and the regions above \<open>UTOP\<close>. The addresses
  at which \<open>pages\<close> and \<open>envs\<close> are allocated are returned. Shown: the resulting map of the kernel half of
  the address space, entry by entry.
\<close>

section \<open>Operations\<close>

text \<open>The kernel pointer with a given virtual address.\<close>

definition va_ptr :: "u64 \<Rightarrow> kptr" where
  "va_ptr va = (unat (va - KERNBASE) div 4096, unat (va - KERNBASE) mod 4096 div 8)"

definition sizeof_Env :: nat where "sizeof_Env = 288"

text \<open>\<open>boot_map_region(boot_pml4e, la, sz, PADDR(va), perm)\<close>.\<close>

definition boot_map_kva :: "u64 \<Rightarrow> u64 \<Rightarrow> u64 \<Rightarrow> u64 \<Rightarrow> kstate \<Rightarrow> unit res" where
  "boot_map_kva la sz va perm s =
     bindK (PADDR va s) (\<lambda>pa s. boot_map_region (boot_pml4e s) la sz pa (ucast perm) s)"

fun mem_init_mp_loop :: "nat list \<Rightarrow> kstate \<Rightarrow> unit res" where
  "mem_init_mp_loop [] s = Inr ((), s)"
| "mem_init_mp_loop (i # is) s =
     bindK (boot_map_kva (KSTACKTOP - of_nat i * (KSTKSIZE + KSTKGAP) - KSTKSIZE) KSTKSIZE
              (percpu_kstacks s i) PTE_W s) (\<lambda>_ s. mem_init_mp_loop is s)"

definition mem_init_mp :: "kstate \<Rightarrow> unit res" where
  "mem_init_mp s = mem_init_mp_loop [0..<NCPU] s"

definition boot_root :: "kstate \<Rightarrow> unit res" where
  "boot_root s =
     (let (pml4e, s) = boot_alloc (ucast PGSIZE) s;
          s = memset_page0 (va_ptr pml4e) s;
          s = s\<lparr>boot_pml4e := va_ptr pml4e\<rparr>
      in bindK (PADDR pml4e s) (\<lambda>pa s. Inr ((), s\<lparr>boot_cr3 := pa\<rparr>)))"

definition vm_tables :: "kstate \<Rightarrow> (u64 \<times> u64) res" where
  "vm_tables s =
     bindK (boot_root s) (\<lambda>_ s.
       let (pages_at, s) = boot_alloc (of_nat (npages s) * 16) s;
           (envs_at, s) = boot_alloc (of_nat (NENV * sizeof_Env)) s;
           s = page_init s
       in bindK (boot_map_kva UPAGES PTSIZE pages_at (PTE_U OR PTE_P) s) (\<lambda>_ s.
          bindK (boot_map_kva UENVS PTSIZE envs_at (PTE_U OR PTE_P) s) (\<lambda>_ s.
          bindK (boot_map_kva (KSTACKTOP - KSTKSIZE) KSTKSIZE (bootstack s) PTE_W s) (\<lambda>_ s.
          bindK (boot_map_region (boot_pml4e s) KERNBASE (of_nat (npages s) * PGSIZE) 0 (ucast PTE_W) s) (\<lambda>_ s.
          bindK (mem_init_mp s) (\<lambda>_ s.
            Inr ((pages_at, envs_at), s)))))))"

section \<open>The kernel half of an address space\<close>

definition kernel_va :: "u64 \<Rightarrow> bool" where
  "kernel_va va \<longleftrightarrow> unat va div 2 ^ 39 = 1"

lemma kernel_va_PML4: "kernel_va va \<Longrightarrow> unat (PML4 va) = 1 \<and> unat va < 2 ^ 48"
  by (auto simp: kernel_va_def unat_PML4)

text \<open>A region mapped over an address-space map.\<close>

definition region_upd :: "u64 \<Rightarrow> nat \<Rightarrow> u64 \<Rightarrow> u32 \<Rightarrow> (u64 \<Rightarrow> u64 option) \<Rightarrow> u64 \<Rightarrow> u64 option" where
  "region_upd la n pa perm f va =
     (if unat la \<le> unat va \<and> unat va < unat la + n * 4096
      then Some (nth_page pa ((unat va - unat la) div 4096) OR scast perm OR PTE_P) else f va)"

text \<open>\<open>f\<close> is the kernel half of the map under root \<open>r\<close>, and \<open>free\<close> pages are free at least.\<close>

definition vm_view :: "nat \<Rightarrow> nat \<Rightarrow> (u64 \<Rightarrow> u64 option) \<Rightarrow> kstate \<Rightarrow> bool" where
  "vm_view r free f s \<longleftrightarrow> boot_pml4e s = (r, 0) \<and>
     (\<exists>ow fl. pt_wf (\<lambda>_. {1}) ow s fl \<and> ow r = Some (r, []) \<and> free \<le> length fl) \<and>
     (\<forall>va. kernel_va va \<longrightarrow> mapping s r va = f va)"

lemma in_kernel_half:
  assumes "kernel_va la" "unat la + n * 4096 \<le> 2 ^ 40" "i < n"
  shows "unat (nth_page la i) = unat la + i * 4096" "kernel_va (nth_page la i)"
proof -
  have lo: "2 ^ 39 \<le> unat la" using assms(1) by (simp add: kernel_va_def)
  have i: "i * 4096 + 4096 \<le> n * 4096" using assms(3) by simp
  then have hi: "unat la + i * 4096 < 2 ^ 40" using assms(2) by linarith
  then show u: "unat (nth_page la i) = unat la + i * 4096" by (simp add: unat_nth_page)
  then show "kernel_va (nth_page la i)" using lo hi by (simp add: kernel_va_def)
qed

lemma region_done_view:
  assumes rd: "region_done k (\<lambda>_. {1}) ow fl n r la pa perm s s'" and r: "ow r = Some (r, [])"
    and la: "kernel_va la" "unat la mod 4096 = 0" "unat la + n * 4096 \<le> 2 ^ 40"
    and f: "\<forall>va. kernel_va va \<longrightarrow> mapping s r va = f va" and va: "kernel_va va"
  shows "mapping s' r va = region_upd la n pa perm f va"
proof (cases "unat la \<le> unat va \<and> unat va < unat la + n * 4096")
  case True
  define i where "i = (unat va - unat la) div 4096"
  have i: "i < n" using True by (simp add: i_def less_mult_imp_div_less) linarith
  note nth = in_kernel_half [OF la(1,3) i]
  have "unat va div 4096 = unat (nth_page la i) div 4096"
  proof -
    obtain k where k: "unat la = 4096 * k" using la(2) by (auto simp: mod_eq_0_iff_dvd elim: dvdE)
    obtain d where "unat va = 4096 * k + d" using True k by (auto simp: le_iff_add)
    then show ?thesis unfolding nth(1) unfolding i_def k by simp
  qed
  then have "mapping s' r va = mapping s' r (nth_page la i)"
    unfolding mapping_def using pidx_cong by metis
  with True i rd show ?thesis
    by (simp add: region_done_def region_mapped_def region_upd_def i_def)
next
  case False
  have "pidx va \<noteq> pidx (nth_page la i)" if "i < n" for i
  proof
    note nth = in_kernel_half [OF la(1,3) that]
    assume "pidx va = pidx (nth_page la i)"
    from pidx_PPN [OF this] kernel_va_PML4 [OF va] kernel_va_PML4 [OF nth(2)]
    have "unat va div 4096 = (unat la + i * 4096) div 4096" using nth(1) by simp
    moreover have "i * 4096 + 4096 \<le> n * 4096" using that by simp
    ultimately have "unat la \<le> unat va \<and> unat va < unat la + n * 4096"
      using la(2) by (auto elim!: dvdE simp: mod_eq_0_iff_dvd)
    with False show False by simp
  qed
  moreover have "root_ok (\<lambda>_. {1}) ow r va" using r kernel_va_PML4 [OF va] by (simp add: root_ok_def)
  ultimately have "mapping s' r va = mapping s r va"
    using rd by (simp add: region_done_def outside_kept_def)
  with False f va show ?thesis by (auto simp: region_upd_def)
qed

text \<open>One \<open>boot_map_region\<close> call as an update of the view.\<close>

lemma vm_view_map:
  assumes v: "vm_view r (free + 3 * pt_blocks la n) f s"
    and la: "kernel_va la" "unat la mod 4096 = 0" "unat la + n * 4096 \<le> 2 ^ 40"
    and n: "n = unat (sz div PGSIZE)"
  shows "\<exists>s'. boot_map_region (boot_pml4e s) la sz pa perm s = Inr ((), s') \<and>
     vm_view r free (region_upd la n pa perm f) s' \<and> only_mm s s'"
proof -
  from v obtain ow fl where w: "boot_pml4e s = (r, 0)" "pt_wf (\<lambda>_. {1}) ow s fl" "ow r = Some (r, [])"
      "free + 3 * pt_blocks la n \<le> length fl" "\<forall>va. kernel_va va \<longrightarrow> mapping s r va = f va"
    unfolding vm_view_def by blast
  have "unat (PML4 (nth_page la i)) \<in> {1}" if "i < n" for i
    using in_kernel_half(2) [OF la(1,3) that] kernel_va_PML4 by simp
  moreover have "unat la + n * 4096 \<le> 2 ^ 48" using la(3) by simp
  ultimately obtain s' where s': "boot_map_loop n (r, 0) la pa perm s = Inr ((), s')"
      "region_done (3 * pt_blocks la n) (\<lambda>_. {1}) ow fl n r la pa perm s s'"
    using boot_map_region_lemma [OF w(2,3), of n la pa perm] w(4) by fastforce
  then obtain ow' fl' where w': "pt_wf (\<lambda>_. {1}) ow' s' fl'" "ow \<subseteq>\<^sub>m ow'"
      "length fl \<le> length fl' + 3 * pt_blocks la n" and mm: "only_mm s s'"
    unfolding region_done_def by blast
  have "ow' r = Some (r, [])" using w(3) w'(2) by (metis domI map_le_def)
  moreover have "free \<le> length fl'" using w(4) w'(3) by linarith
  moreover have "\<forall>va. kernel_va va \<longrightarrow> mapping s' r va = region_upd la n pa perm f va"
    using region_done_view [OF s'(2) w(3) la w(5)] by blast
  ultimately have "vm_view r free (region_upd la n pa perm f) s'"
    using w'(1) only_mm_fields(5) [OF mm] w(1) unfolding vm_view_def by metis
  with s'(1) mm w(1) n show ?thesis by (auto simp: boot_map_region_def)
qed


section \<open>The start\<close>

lemma kernbase_round:
  "(unat KERNBASE + d + 4095) div 4096 * 4096 = unat KERNBASE + (d + 4095) div 4096 * 4096"
proof -
  have "unat KERNBASE + d + 4095 = (d + 4095) + 134234112 * 4096" by (simp add: KERNBASE_def)
  then have "(unat KERNBASE + d + 4095) div 4096 = (d + 4095) div 4096 + 134234112" by simp
  then show ?thesis by (simp add: KERNBASE_def)
qed

lemma boot_alloc_next:
  assumes "nextfree s \<noteq> 0" "unat (nextfree s) = unat KERNBASE + k * 4096" "0 < unat n"
    and "k \<le> 2 ^ 20" "unat n \<le> 2 ^ 30"
  shows "\<exists>v. boot_alloc n s = (nextfree s, s\<lparr>nextfree := v\<rparr>) \<and> v \<noteq> 0 \<and>
    unat v = unat KERNBASE + (k + (unat n + 4095) div 4096) * 4096"
proof -
  have n: "unat (ucast n :: u64) = unat n" using assms(5) by (simp add: unsigned_ucast_eq take_bit_nat_eq_self)
  have sum: "unat (nextfree s + ucast n) = unat KERNBASE + k * 4096 + unat n"
    using assms n by (simp add: unat_word_ariths KERNBASE_def)
  have "unat (ROUNDUP (nextfree s + ucast n) PGSIZE) = (unat (nextfree s + ucast n) + 4095) div 4096 * 4096"
    using assms(4,5) by (intro unat_ROUNDUP) (simp add: sum KERNBASE_def)
  also have "\<dots> = unat KERNBASE + (k + (unat n + 4095) div 4096) * 4096"
    unfolding sum using kernbase_round [of "k * 4096 + unat n"] by (simp add: add.assoc distrib_right)
  finally have "unat (ROUNDUP (nextfree s + ucast n) PGSIZE) =
      unat KERNBASE + (k + (unat n + 4095) div 4096) * 4096" .
  moreover from this have "ROUNDUP (nextfree s + ucast n) PGSIZE \<noteq> 0"
    by (auto simp: KERNBASE_def)
  moreover have "boot_alloc n s = (nextfree s, s\<lparr>nextfree := ROUNDUP (nextfree s + ucast n) PGSIZE\<rparr>)"
    using assms(1,3) by (simp add: boot_alloc_def Let_def word_less_nat_alt)
  ultimately show ?thesis by blast
qed

text \<open>The first call rounds up the end of the kernel image.\<close>

lemma boot_alloc_first:
  assumes "nextfree s = 0" "unat KERNBASE \<le> unat (kend s)" "unat (kend s) \<le> unat KERNBASE + 2 ^ 30"
  defines "k \<equiv> (unat (kend s) - unat KERNBASE + 4095) div 4096"
  shows "\<exists>v. boot_alloc n s = boot_alloc n (s\<lparr>nextfree := v\<rparr>) \<and> v \<noteq> 0 \<and>
    unat v = unat KERNBASE + k * 4096"
proof -
  let ?v = "ROUNDUP (kend s) PGSIZE"
  have "unat ?v = (unat (kend s) + 4095) div 4096 * 4096"
    using assms(3) by (intro unat_ROUNDUP) (simp add: KERNBASE_def)
  also have "\<dots> = unat KERNBASE + k * 4096"
  proof -
    obtain d where d: "unat (kend s) = unat KERNBASE + d" using assms(2) by (auto simp: le_iff_add)
    then have "k = (d + 4095) div 4096" by (simp add: k_def)
    with kernbase_round [of d] show ?thesis unfolding d by simp
  qed
  finally have u: "unat ?v = unat KERNBASE + k * 4096" .
  then have "?v \<noteq> 0" by (auto simp: KERNBASE_def)
  moreover have "boot_alloc n s = boot_alloc n (s\<lparr>nextfree := ?v\<rparr>)"
    using assms(1) calculation by (simp add: boot_alloc_def Let_def)
  ultimately show ?thesis using u by blast
qed

lemma va_ptr_page:
  assumes "unat va = unat KERNBASE + k * 4096"
  shows "va_ptr va = (k, 0)" "PADDR va s = Inr (va - KERNBASE, s)" "unat (va - KERNBASE) = k * 4096"
proof -
  have le: "KERNBASE \<le> va" using assms by (simp add: word_le_nat_alt)
  then have "unat (va - KERNBASE) = unat va - unat KERNBASE" by (rule unat_sub)
  with assms show u: "unat (va - KERNBASE) = k * 4096" by simp
  then show "va_ptr va = (k, 0)" by (simp add: va_ptr_def)
  show "PADDR va s = Inr (va - KERNBASE, s)" using le by (simp add: PADDR_def leD)
qed

definition pages_only :: "kstate \<Rightarrow> kstate \<Rightarrow> bool" where
  "pages_only s t \<longleftrightarrow> (\<exists>p h. t = s\<lparr>pages := p, page_free_list := h\<rparr>)"

lemma pages_only_refl: "pages_only s s"
  unfolding pages_only_def by (intro exI [of _ "pages s"] exI [of _ "page_free_list s"]) simp

lemma pages_only_upd:
  assumes "pages_only s t"
  shows "pages_only s (t\<lparr>pages := q\<rparr>)" "pages_only s (set_pp_link l x t)" "pages_only s (set_page_free_list x t)"
proof -
  from assms obtain p h where t: "t = s\<lparr>pages := p, page_free_list := h\<rparr>" unfolding pages_only_def by blast
  have "t\<lparr>pages := q\<rparr> = s\<lparr>pages := q, page_free_list := h\<rparr>"
    "set_page_free_list x t = s\<lparr>pages := p, page_free_list := x\<rparr>" for q x
    by (simp_all add: t set_page_free_list_def)
  then show "pages_only s (t\<lparr>pages := q\<rparr>)" "pages_only s (set_pp_link l x t)" "pages_only s (set_page_free_list x t)"
    unfolding set_pp_link_def pages_only_def by blast+
qed

lemma page_init_loop_only: "pages_only u s \<Longrightarrow> pages_only u (page_init_loop ke mp is lst s)"
proof (induction "is" arbitrary: lst s)
  case (Cons i "is")
  from Cons.prems show ?case
    by (auto simp: Let_def split: option.splits intro!: Cons.IH pages_only_upd)
qed simp

lemma page_init_only:
  assumes "nextfree s \<noteq> 0"
  shows "\<exists>p h. page_init s = s\<lparr>pages := p, page_free_list := h\<rparr>"
  using assms page_init_loop_only [OF pages_only_refl]
  by (auto simp: page_init_def boot_alloc_def Let_def pages_only_def)

text \<open>What the free list of \<open>page_init\<close> holds when the first free page is \<open>k\<close>.\<close>

lemma page_init_vm:
  assumes nf: "nextfree s \<noteq> 0" "unat (nextfree s) = unat KERNBASE + k * 4096"
    and s: "page_free_list s = None" "npages s \<le> 2 ^ 32" "npages_basemem s \<le> r" "r < k" "k < npages s"
    and root: "boot_pml4e s = (r, 0)" "mem s r = (\<lambda>_. 0)" and free: "free + k + 2 \<le> npages s"
  shows "vm_view r free (\<lambda>_. None) (page_init s)"
proof -
  let ?P = "boot_free (npages_basemem s) ((fst (boot_alloc 0 s) - KERNBASE) div PGSIZE) (MPENTRY_PADDR div PGSIZE)"
  let ?fl = "filter ?P [0..<npages s]"
  have a: "fst (boot_alloc 0 s) = nextfree s" using nf(1) by (simp add: boot_alloc_def)
  have ke: "unat ((nextfree s - KERNBASE) div PGSIZE) = k"
    using va_ptr_page(3) [OF nf(2)] by (simp add: unat_div PGSIZE_def)
  have P: "?P i \<longleftrightarrow> i \<noteq> 0 \<and> i \<noteq> unat (MPENTRY_PADDR div PGSIZE) \<and> (i < npages_basemem s \<or> k < i)" for i
    unfolding a boot_free_def ke by simp
  note inv = page_init_inv [OF s(1,2), THEN conjunct1]
  obtain p h where pi: "page_init s = s\<lparr>pages := p, page_free_list := h\<rparr>" using page_init_only [OF nf(1)] by blast
  have zero: "nxt (page_init s) r i = None" for i using root(2) by (simp add: nxt_def pi)
  have "pt_wf (\<lambda>_. {1}) [r \<mapsto> (r, [])] (page_init s) ?fl"
    unfolding pt_wf_def using inv s(3,4,5) zero P by (auto simp: pi split: if_splits)
  moreover have "free \<le> length ?fl"
  proof -
    let ?A = "{k<..<npages s} - {unat (MPENTRY_PADDR div PGSIZE)}"
    have "card {k<..<npages s} \<le> card ?A + 1"
      by (simp add: card_Diff_singleton_if) linarith
    then have "npages s - Suc k \<le> card ?A + 1" by simp
    moreover have "?A \<subseteq> set ?fl"
    proof
      fix i assume "i \<in> ?A"
      then show "i \<in> set ?fl" using P [of i] s(4) by simp
    qed
    then have "card ?A \<le> card (set ?fl)" by (intro card_mono) simp_all
    moreover have "card (set ?fl) = length ?fl" by (intro distinct_card) simp
    ultimately show ?thesis using free by linarith
  qed
  moreover have "mapping (page_init s) r va = None" for va
    by (simp add: mapping_def pidx_def tbl_idx_def zero)
  moreover have "boot_pml4e (page_init s) = (r, 0)" using root(1) by (simp add: pi)
  ultimately show ?thesis
    unfolding vm_view_def by (intro conjI exI [of _ "[r \<mapsto> (r, [])]"] exI [of _ ?fl]) simp_all
qed


section \<open>The layout\<close>

lemma only_mm_stacks:
  "only_mm s s' \<Longrightarrow> bootstack s' = bootstack s \<and> percpu_kstacks s' = percpu_kstacks s"
  unfolding only_mm_def by (cases s; cases s') simp

text \<open>The call with \<open>PADDR\<close>.\<close>

lemma vm_view_map_kva:
  assumes "vm_view r free0 f s" "free + 3 * pt_blocks la n \<le> free0" "KERNBASE \<le> va"
    and "kernel_va la" "unat la mod 4096 = 0" "unat la + n * 4096 \<le> 2 ^ 40" "n = unat (sz div PGSIZE)"
  shows "\<exists>s'. boot_map_kva la sz va perm s = Inr ((), s') \<and>
     vm_view r free (region_upd la n (va - KERNBASE) (ucast perm) f) s' \<and> only_mm s s'"
proof -
  have "vm_view r (free + 3 * pt_blocks la n) f s"
    using assms(1,2) unfolding vm_view_def by (meson order_trans)
  from vm_view_map [OF this assms(4-7)] assms(3) show ?thesis
    by (simp add: boot_map_kva_def PADDR_def leD)
qed

text \<open>The stack of processor \<open>i\<close>.\<close>

definition kstack :: "nat \<Rightarrow> u64" where
  "kstack i = KSTACKTOP - of_nat i * (KSTKSIZE + KSTKGAP) - KSTKSIZE"

lemma unat_kstack: "i < 8 \<Longrightarrow> unat (kstack i) = 0x8004000000 - i * 0x18000 - 0x10000"
proof -
  assume "i < 8"
  then have "i \<in> set [0..<8]" by simp
  then show ?thesis
    by (simp add: upt_conv_Cons) (elim disjE; simp add: kstack_def mmu_defs)
qed

lemma kstack_region:
  assumes "i < 8"
  shows "kernel_va (kstack i)" "unat (kstack i) mod 4096 = 0" "unat (kstack i) + 16 * 4096 \<le> 2 ^ 40"
    "pt_blocks (kstack i) 16 = 1"
proof -
  have "i \<in> set [0..<8]" using assms by simp
  then show "kernel_va (kstack i)" "unat (kstack i) mod 4096 = 0" "unat (kstack i) + 16 * 4096 \<le> 2 ^ 40"
      "pt_blocks (kstack i) 16 = 1"
    using assms by (auto simp: kernel_va_def unat_kstack pt_blocks_def upt_conv_Cons)
qed

lemma mem_init_mp_view:
  assumes "vm_view r (3 * length is) f s" "\<forall>i \<in> set is. i < 8"
    and "\<And>i. i < 8 \<Longrightarrow> KERNBASE \<le> percpu_kstacks s i"
  shows "\<exists>s'. mem_init_mp_loop is s = Inr ((), s') \<and> only_mm s s' \<and>
    vm_view r 0 (fold (\<lambda>i. region_upd (kstack i) 16 (percpu_kstacks s i - KERNBASE) (ucast PTE_W)) is f) s'"
  using assms
proof (induction "is" arbitrary: f s)
  case Nil
  then show ?case using only_mm_refl by simp
next
  case (Cons i "is")
  have i: "i < 8" using Cons.prems(2) by simp
  have "3 * length is + 3 * pt_blocks (kstack i) 16 \<le> 3 * length (i # is)"
    using kstack_region(4) [OF i] by simp
  from vm_view_map_kva [OF Cons.prems(1) this Cons.prems(3) [OF i] kstack_region(1-3) [OF i], of KSTKSIZE PTE_W]
  obtain s1 where s1: "boot_map_kva (kstack i) KSTKSIZE (percpu_kstacks s i) PTE_W s = Inr ((), s1)"
      "vm_view r (3 * length is) (region_upd (kstack i) 16 (percpu_kstacks s i - KERNBASE) (ucast PTE_W) f) s1"
      "only_mm s s1"
    by (auto simp: mmu_defs)
  have same: "percpu_kstacks s1 = percpu_kstacks s" using only_mm_stacks [OF s1(3)] by simp
  from Cons.IH [OF s1(2)] Cons.prems(2,3) same
  obtain s' where "mem_init_mp_loop is s1 = Inr ((), s')" "only_mm s1 s'"
      "vm_view r 0 (fold (\<lambda>i. region_upd (kstack i) 16 (percpu_kstacks s i - KERNBASE) (ucast PTE_W)) is
         (region_upd (kstack i) 16 (percpu_kstacks s i - KERNBASE) (ucast PTE_W) f)) s'"
    by auto
  with s1 only_mm_trans show ?case by (auto simp: kstack_def)
qed

text \<open>The kernel half of the address space, as \<open>vm_tables\<close> composes it.\<close>

definition boot_layout :: "nat \<Rightarrow> u64 \<Rightarrow> u64 \<Rightarrow> u64 \<Rightarrow> (nat \<Rightarrow> u64) \<Rightarrow> u64 \<Rightarrow> u64 option" where
  "boot_layout np pages_pa envs_pa stack_pa kst =
     fold (\<lambda>i. region_upd (kstack i) 16 (kst i - KERNBASE) (ucast PTE_W)) [0..<NCPU]
       (region_upd KERNBASE np 0 (ucast PTE_W)
         (region_upd (KSTACKTOP - KSTKSIZE) 16 stack_pa (ucast PTE_W)
           (region_upd UENVS 512 envs_pa (ucast (PTE_U OR PTE_P))
             (region_upd UPAGES 512 pages_pa (ucast (PTE_U OR PTE_P)) (\<lambda>_. None)))))"

lemma fixed_regions:
  "kernel_va UPAGES" "unat UPAGES mod 4096 = 0" "unat UPAGES + 512 * 4096 \<le> 2 ^ 40" "pt_blocks UPAGES 512 = 1"
  "kernel_va UENVS" "unat UENVS mod 4096 = 0" "unat UENVS + 512 * 4096 \<le> 2 ^ 40" "pt_blocks UENVS 512 = 1"
  "kernel_va KERNBASE" "unat KERNBASE mod 4096 = 0" "unat (PTSIZE div PGSIZE) = 512" "unat (KSTKSIZE div PGSIZE) = 16"
  by (simp_all add: kernel_va_def pt_blocks_def mmu_defs)

lemma pt_blocks_KERNBASE: "pt_blocks KERNBASE n \<le> n div 512 + 1"
proof (cases n)
  case (Suc m)
  have "(unat KERNBASE + m * 4096) div 2 ^ 21 = unat KERNBASE div 2 ^ 21 + m * 4096 div 2 ^ 21"
    by (simp add: KERNBASE_def)
  then show ?thesis using Suc by (simp add: pt_blocks_def)
qed (simp add: pt_blocks_def)


text \<open>
  The state in which \<open>vm_tables\<close> starts: no memory has been handed out, the kernel image ends within
  the first gigabyte, behind base memory, and the memory that follows it is large enough for the
  arrays and the page tables. \<open>r\<close> is the first frame behind the image.
\<close>

definition boot_ready :: "nat \<Rightarrow> kstate \<Rightarrow> bool" where
  "boot_ready r s \<longleftrightarrow> nextfree s = 0 \<and> page_free_list s = None \<and>
     unat KERNBASE \<le> unat (kend s) \<and> unat (kend s) \<le> unat KERNBASE + 2 ^ 30 \<and>
     r = (unat (kend s) - unat KERNBASE + 4095) div 4096 \<and>
     npages s \<le> 3276800 \<and> npages_basemem s \<le> r \<and> KERNBASE \<le> bootstack s \<and>
     (\<forall>i < NCPU. KERNBASE \<le> percpu_kstacks s i) \<and>
     r + npages s div 256 + 3 * (npages s div 512) + 112 \<le> npages s"

lemma boot_ready_r: "boot_ready r s \<Longrightarrow> r \<le> 262144"
proof -
  assume "boot_ready r s"
  then have "unat (kend s) - unat KERNBASE + 4095 < 262145 * 4096"
    "r = (unat (kend s) - unat KERNBASE + 4095) div 4096"
    by (auto simp: boot_ready_def)
  then have "r < 262145" using less_mult_imp_div_less by blast
  then show ?thesis by simp
qed

lemma boot_root_run:
  assumes "boot_ready r s"
  shows "\<exists>s1. boot_root s = Inr ((), s1) \<and> nextfree s1 \<noteq> 0 \<and>
    unat (nextfree s1) = unat KERNBASE + (r + 1) * 4096 \<and> boot_pml4e s1 = (r, 0) \<and> mem s1 r = (\<lambda>_. 0) \<and>
    (\<exists>m c v. s1 = s\<lparr>mem := m, boot_pml4e := (r, 0), boot_cr3 := c, nextfree := v\<rparr>)"
proof -
  have pg: "unat (ucast PGSIZE :: u32) = 4096" by (simp add: PGSIZE_def)
  obtain v where v: "boot_alloc (ucast PGSIZE) s = boot_alloc (ucast PGSIZE) (s\<lparr>nextfree := v\<rparr>)"
      "v \<noteq> 0" "unat v = unat KERNBASE + r * 4096"
    using boot_alloc_first [of s "ucast PGSIZE"] assms by (auto simp: boot_ready_def)
  have "r \<le> 2 ^ 20" using boot_ready_r [OF assms] by simp
  then obtain w where w: "boot_alloc (ucast PGSIZE) (s\<lparr>nextfree := v\<rparr>) = (v, s\<lparr>nextfree := w\<rparr>)" "w \<noteq> 0"
      "unat w = unat KERNBASE + (r + 1) * 4096"
    using boot_alloc_next [of "s\<lparr>nextfree := v\<rparr>" r "ucast PGSIZE"] v(2,3) pg by auto
  show ?thesis
    using v(1) w va_ptr_page [OF v(3)]
    by (simp add: boot_root_def Let_def memset_page0_def)
      (intro exI [of _ "(mem s)(r := (\<lambda>_. 0))"] exI [of _ "v - KERNBASE"] exI [of _ w]; simp)
qed

text \<open>The arrays and the free list.\<close>

lemma vm_arrays:
  assumes s: "boot_ready r s" and nf: "nextfree s1 \<noteq> 0" "unat (nextfree s1) = unat KERNBASE + (r + 1) * 4096"
    and s1: "boot_pml4e s1 = (r, 0)" "mem s1 r = (\<lambda>_. 0)" "s1 = s\<lparr>mem := m, boot_pml4e := (r, 0), boot_cr3 := c, nextfree := v\<rparr>"
  shows "\<exists>pages_at s2 envs_at s3. boot_alloc (of_nat (npages s1) * 16) s1 = (pages_at, s2) \<and>
    boot_alloc (of_nat (NENV * sizeof_Env)) s2 = (envs_at, s3) \<and>
    unat pages_at = unat KERNBASE + (r + 1) * 4096 \<and>
    unat envs_at = unat KERNBASE + (r + 1 + (npages s * 16 + 4095) div 4096) * 4096 \<and>
    vm_view r (36 + 3 * (npages s div 512)) (\<lambda>_. None) (page_init s3) \<and>
    npages (page_init s3) = npages s \<and> bootstack (page_init s3) = bootstack s \<and>
    percpu_kstacks (page_init s3) = percpu_kstacks s"
proof -
  let ?n = "(npages s * 16 + 4095) div 4096"
  have np: "npages s \<le> 3276800" "r \<le> 262144" "0 < npages s" and
    big: "r + npages s div 256 + 3 * (npages s div 512) + 112 \<le> npages s"
    using s boot_ready_r [OF s] by (auto simp: boot_ready_def)
  have n1: "unat (of_nat (npages s1) * 16 :: u32) = npages s * 16"
    using np(1) by (simp add: s1(3) unat_word_ariths unat_of_nat)
  have n2: "unat (of_nat (NENV * sizeof_Env) :: u32) = 294912"
    by (simp add: NENV_def LOG2NENV_def sizeof_Env_def unat_of_nat)
  have q: "?n \<le> npages s div 256 + 1"
  proof -
    have "npages s * 16 + 4095 = (npages s mod 256 * 16 + 4095) + (npages s div 256) * 4096"
      using div_mult_mod_eq [of "npages s" 256] by linarith
    then have "?n = npages s div 256 + (npages s mod 256 * 16 + 4095) div 4096"
      by (metis add.commute div_mult_self1 zero_neq_numeral)
    moreover have "npages s mod 256 * 16 + 4095 < 2 * 4096" by simp
    then have "(npages s mod 256 * 16 + 4095) div 4096 < 2" by (rule less_mult_imp_div_less)
    ultimately show ?thesis by simp
  qed
  obtain v2 where a: "boot_alloc (of_nat (npages s1) * 16) s1 = (nextfree s1, s1\<lparr>nextfree := v2\<rparr>)" "v2 \<noteq> 0"
      "unat v2 = unat KERNBASE + (r + 1 + ?n) * 4096"
    using boot_alloc_next [OF nf(1,2), of "of_nat (npages s1) * 16"] np unfolding n1 by fastforce
  let ?s2 = "s1\<lparr>nextfree := v2\<rparr>"
  have "npages s div 256 \<le> 12800" using div_le_mono [OF np(1), of 256] by simp
  then have lim: "r + 1 + ?n \<le> 2 ^ 20" using q np(2) by simp
  obtain v3 where b: "boot_alloc (of_nat (NENV * sizeof_Env)) ?s2 = (v2, ?s2\<lparr>nextfree := v3\<rparr>)" "v3 \<noteq> 0"
      "unat v3 = unat KERNBASE + (r + 1 + ?n + 72) * 4096"
    using boot_alloc_next [of ?s2 "r + 1 + ?n" "of_nat (NENV * sizeof_Env)", OF _ _ _ lim] a(2,3)
    unfolding n2 by auto
  let ?s3 = "?s2\<lparr>nextfree := v3\<rparr>"
  have "vm_view r (36 + 3 * (npages s div 512)) (\<lambda>_. None) (page_init ?s3)"
    by (rule page_init_vm [where k = "r + 1 + ?n + 72"]) (use b s s1 big q np(1) in \<open>auto simp: boot_ready_def\<close>)
  moreover obtain p h where "page_init ?s3 = ?s3\<lparr>pages := p, page_free_list := h\<rparr>"
    using page_init_only [of ?s3] b(2) by auto
  then have "npages (page_init ?s3) = npages s" "bootstack (page_init ?s3) = bootstack s"
      "percpu_kstacks (page_init ?s3) = percpu_kstacks s"
    by (simp_all add: s1(3))
  ultimately show ?thesis
    using a b nf(2) by (intro exI [of _ "nextfree s1"] exI [of _ ?s2] exI [of _ v2] exI [of _ ?s3]) simp
qed

lemma vm_tables_view:
  assumes s: "boot_ready r s"
  shows "\<exists>pages_at envs_at s'. vm_tables s = Inr ((pages_at, envs_at), s') \<and>
    unat pages_at = unat KERNBASE + (r + 1) * 4096 \<and>
    unat envs_at = unat KERNBASE + (r + 1 + (npages s * 16 + 4095) div 4096) * 4096 \<and>
    npages s' = npages s \<and> percpu_kstacks s' = percpu_kstacks s \<and>
    vm_view r 0 (boot_layout (npages s) (pages_at - KERNBASE) (envs_at - KERNBASE)
      (bootstack s - KERNBASE) (percpu_kstacks s)) s'"
proof -
  obtain s1 m c v where s1: "boot_root s = Inr ((), s1)" "nextfree s1 \<noteq> 0"
      "unat (nextfree s1) = unat KERNBASE + (r + 1) * 4096" "boot_pml4e s1 = (r, 0)" "mem s1 r = (\<lambda>_. 0)"
      "s1 = s\<lparr>mem := m, boot_pml4e := (r, 0), boot_cr3 := c, nextfree := v\<rparr>"
    using boot_root_run [OF s] by blast
  obtain pa s2 ea s3 where a: "boot_alloc (of_nat (npages s1) * 16) s1 = (pa, s2)"
      "boot_alloc (of_nat (NENV * sizeof_Env)) s2 = (ea, s3)"
      "unat pa = unat KERNBASE + (r + 1) * 4096"
      "unat ea = unat KERNBASE + (r + 1 + (npages s * 16 + 4095) div 4096) * 4096"
      "vm_view r (36 + 3 * (npages s div 512)) (\<lambda>_. None) (page_init s3)"
      "npages (page_init s3) = npages s" "bootstack (page_init s3) = bootstack s"
      "percpu_kstacks (page_init s3) = percpu_kstacks s"
    using vm_arrays [OF s s1(2-6)] by blast
  have pos: "KERNBASE \<le> pa" "KERNBASE \<le> ea" "KERNBASE \<le> bootstack s" "\<And>i. i < 8 \<Longrightarrow> KERNBASE \<le> percpu_kstacks s i"
    using a(3,4) s by (auto simp: word_le_nat_alt boot_ready_def NCPU_def)
  let ?x = "3 * (npages s div 512)"
  let ?v4 = "region_upd UPAGES 512 (pa - KERNBASE) (ucast (PTE_U OR PTE_P)) (\<lambda>_. None)"
  let ?v5 = "region_upd UENVS 512 (ea - KERNBASE) (ucast (PTE_U OR PTE_P)) ?v4"
  let ?v6 = "region_upd (kstack 0) 16 (bootstack s - KERNBASE) (ucast PTE_W) ?v5"
  have k0: "KSTACKTOP - KSTKSIZE = kstack 0" by (simp add: kstack_def)
  have cost: "33 + ?x + 3 * pt_blocks UPAGES 512 \<le> 36 + ?x" "30 + ?x + 3 * pt_blocks UENVS 512 \<le> 33 + ?x"
    "27 + ?x + 3 * pt_blocks (kstack 0) 16 \<le> 30 + ?x"
    using kstack_region(4) [of 0] by (simp_all add: fixed_regions)
  obtain s4 where s4: "boot_map_kva UPAGES PTSIZE pa (PTE_U OR PTE_P) (page_init s3) = Inr ((), s4)"
      "vm_view r (33 + ?x) ?v4 s4" "only_mm (page_init s3) s4"
    using vm_view_map_kva [OF a(5) cost(1) pos(1) fixed_regions(1-3) fixed_regions(11) [symmetric], of "PTE_U OR PTE_P"]
    by blast
  obtain s5 where s5: "boot_map_kva UENVS PTSIZE ea (PTE_U OR PTE_P) s4 = Inr ((), s5)"
      "vm_view r (30 + ?x) ?v5 s5" "only_mm s4 s5"
    using vm_view_map_kva [OF s4(2) cost(2) pos(2) fixed_regions(5-7) fixed_regions(11) [symmetric], of "PTE_U OR PTE_P"]
    by blast
  obtain s6 where s6: "boot_map_kva (kstack 0) KSTKSIZE (bootstack s) PTE_W s5 = Inr ((), s6)"
      "vm_view r (27 + ?x) ?v6 s6" "only_mm s5 s6"
    using vm_view_map_kva [OF s5(2) cost(3) pos(3) kstack_region(1-3) fixed_regions(12) [symmetric], of PTE_W]
    by auto
  have mm6: "only_mm (page_init s3) s6" using s4(3) s5(3) s6(3) only_mm_trans by blast
  have np6: "npages s6 = npages s" "bootstack s5 = bootstack s"
    using only_mm_fields(1) [OF mm6] only_mm_stacks [OF s4(3)] only_mm_stacks [OF s5(3)] a(6,7) by simp_all
  have np: "npages s \<le> 3276800" using s by (simp add: boot_ready_def)
  have sz: "npages s = unat (of_nat (npages s) * PGSIZE div PGSIZE)"
    using np by (simp add: PGSIZE_def unat_div unat_word_ariths unat_of_nat)
  have "24 + 3 * pt_blocks KERNBASE (npages s) \<le> 27 + ?x" using pt_blocks_KERNBASE [of "npages s"] by simp
  then have v6: "vm_view r (24 + 3 * pt_blocks KERNBASE (npages s)) ?v6 s6"
    using s6(2) unfolding vm_view_def by (meson order_trans)
  have kb: "unat KERNBASE + npages s * 4096 \<le> 2 ^ 40" using np by (simp add: KERNBASE_def)
  obtain s7 where s7: "boot_map_region (boot_pml4e s6) KERNBASE (of_nat (npages s) * PGSIZE) 0 (ucast PTE_W) s6 = Inr ((), s7)"
      "vm_view r 24 (region_upd KERNBASE (npages s) 0 (ucast PTE_W) ?v6) s7" "only_mm s6 s7"
    using vm_view_map [OF v6 fixed_regions(9,10) kb sz, of 0 "ucast PTE_W"] by blast
  have "vm_view r (3 * length [0..<NCPU]) (region_upd KERNBASE (npages s) 0 (ucast PTE_W) ?v6) s7"
    using s7(2) by (simp add: NCPU_def)
  note v7 = mem_init_mp_view [OF this]
  have mm7: "only_mm (page_init s3) s7" using mm6 s7(3) by (rule only_mm_trans)
  have st7: "percpu_kstacks s7 = percpu_kstacks s" using only_mm_stacks [OF mm7] a(8) by simp
  obtain s' where s': "mem_init_mp_loop [0..<NCPU] s7 = Inr ((), s')" "only_mm s7 s'"
      "vm_view r 0 (boot_layout (npages s) (pa - KERNBASE) (ea - KERNBASE) (bootstack s - KERNBASE) (percpu_kstacks s)) s'"
    using v7 pos(4) unfolding st7 boot_layout_def k0 by (auto simp: NCPU_def)
  have "vm_tables s = Inr ((pa, ea), s')"
    using s1(1) a(1,2) s4(1) s5(1) s6(1) s7(1) s'(1) np6
    by (simp add: vm_tables_def mem_init_mp_def k0)
  moreover have "npages s' = npages s" "percpu_kstacks s' = percpu_kstacks s"
    using only_mm_fields(1) [OF s'(2)] only_mm_fields(1) [OF s7(3)] np6 only_mm_stacks [OF s'(2)] st7 by simp_all
  ultimately show ?thesis using a(3,4) s'(3) by blast
qed


text \<open>Membership in a region, and the values of the composed map.\<close>

definition in_region :: "u64 \<Rightarrow> nat \<Rightarrow> u64 \<Rightarrow> bool" where
  "in_region la n va \<longleftrightarrow> unat la \<le> unat va \<and> unat va < unat la + n * 4096"

lemma region_upd_out: "\<not> in_region la n va \<Longrightarrow> region_upd la n pa perm f va = f va"
  by (auto simp: region_upd_def in_region_def)

lemma region_upd_in:
  assumes "i < n" "unat la + n * 4096 \<le> 2 ^ 48"
  shows "region_upd la n pa perm f (nth_page la i) = Some (nth_page pa i OR scast perm OR PTE_P)"
    and "in_region la n (nth_page la i)"
proof -
  have i: "i * 4096 + 4096 \<le> n * 4096" using assms(1) by simp
  then have "unat (nth_page la i) = unat la + i * 4096" using assms(2) by (intro unat_nth_page) simp
  with i show "region_upd la n pa perm f (nth_page la i) = Some (nth_page pa i OR scast perm OR PTE_P)"
    "in_region la n (nth_page la i)"
    by (simp_all add: region_upd_def in_region_def)
qed

lemma stacks_out:
  "(\<And>c. c \<in> set cs \<Longrightarrow> \<not> in_region (kstack c) 16 va) \<Longrightarrow>
   fold (\<lambda>c. region_upd (kstack c) 16 (g c) perm) cs f va = f va"
  by (induction cs arbitrary: f) (simp_all add: region_upd_out)

lemma stacks_disjoint:
  assumes "c < 8" "c' < 8" "in_region (kstack c) 16 va" "in_region (kstack c') 16 va"
  shows "c = c'"
proof -
  have "unat (kstack c) < unat (kstack c') + 16 * 4096" "unat (kstack c') < unat (kstack c) + 16 * 4096"
    using assms(3,4) by (auto simp: in_region_def)
  then show ?thesis using assms(1,2) by (simp add: unat_kstack)
qed

lemma stacks_in:
  assumes "c \<in> set cs" "distinct cs" "\<forall>c \<in> set cs. c < 8" "i < 16"
  shows "fold (\<lambda>c. region_upd (kstack c) 16 (g c) perm) cs f (nth_page (kstack c) i) =
    Some (nth_page (g c) i OR scast perm OR PTE_P)"
  using assms(1,2,3)
proof (induction cs arbitrary: f)
  case (Cons d cs)
  have c: "c < 8" using Cons.prems by auto
  have le: "unat (kstack c) + 16 * 4096 \<le> 2 ^ 48" using kstack_region(3) [OF c] by simp
  note here = region_upd_in [OF assms(4) le]
  show ?case
  proof (cases "c = d")
    case True
    then have "\<not> in_region (kstack e) 16 (nth_page (kstack c) i)" if "e \<in> set cs" for e
      using stacks_disjoint [OF c _ here(2), of e] that Cons.prems by auto
    then show ?thesis using True here(1) by (simp add: stacks_out)
  next
    case False
    with Cons show ?thesis by simp
  qed
qed simp

lemma region_bounds:
  "in_region UPAGES 512 va \<Longrightarrow> 0x8000A00000 \<le> unat va \<and> unat va < 0x8003C00000"
  "in_region UENVS 512 va \<Longrightarrow> 0x8000800000 \<le> unat va \<and> unat va < 0x8000A00000"
  "in_region KERNBASE n va \<Longrightarrow> 0x8004000000 \<le> unat va"
  "c < 8 \<Longrightarrow> in_region (kstack c) 16 va \<Longrightarrow> 0x8003F00000 \<le> unat va \<and> unat va < 0x8004000000"
  by (auto simp: in_region_def mmu_defs unat_kstack)


lemma perm_bits: "scast (ucast PTE_W :: u32) = PTE_W" "scast (ucast (PTE_U OR PTE_P) :: u32) = PTE_U OR PTE_P"
  by (simp_all add: mmu_defs)

text \<open>The composed map, region by region.\<close>

lemma boot_layout_values:
  assumes np: "np \<le> 3276800"
  shows "i < np \<Longrightarrow> boot_layout np pp ep sp kst (nth_page KERNBASE i) = Some (nth_page 0 i OR PTE_W OR PTE_P)"
    and "c < NCPU \<Longrightarrow> i < 16 \<Longrightarrow> boot_layout np pp ep sp kst (nth_page (kstack c) i) =
      Some (nth_page (kst c - KERNBASE) i OR PTE_W OR PTE_P)"
    and "i < 512 \<Longrightarrow> boot_layout np pp ep sp kst (nth_page UPAGES i) = Some (nth_page pp i OR PTE_U OR PTE_P)"
    and "i < 512 \<Longrightarrow> boot_layout np pp ep sp kst (nth_page UENVS i) = Some (nth_page ep i OR PTE_U OR PTE_P)"
    and "\<not> in_region KERNBASE np va \<Longrightarrow> \<forall>c < NCPU. \<not> in_region (kstack c) 16 va \<Longrightarrow>
      \<not> in_region UPAGES 512 va \<Longrightarrow> \<not> in_region UENVS 512 va \<Longrightarrow> boot_layout np pp ep sp kst va = None"
proof -
  have k0: "KSTACKTOP - KSTKSIZE = kstack 0" by (simp add: kstack_def)
  have out: "\<not> in_region (kstack c) 16 va" if "c < 8" "unat va < 0x8003F00000 \<or> 0x8004000000 \<le> unat va" for c va
    using region_bounds(4) that by fastforce
  show "boot_layout np pp ep sp kst (nth_page KERNBASE i) = Some (nth_page 0 i OR PTE_W OR PTE_P)" if "i < np"
  proof -
    have "unat KERNBASE + np * 4096 \<le> 2 ^ 48" using np by (simp add: KERNBASE_def)
    note k = region_upd_in [OF that this]
    have "\<not> in_region (kstack c) 16 (nth_page KERNBASE i)" if "c \<in> set [0..<8]" for c
      using out [of c] that region_bounds(3) [OF k(2)] by simp
    then show ?thesis
      unfolding boot_layout_def NCPU_def by (subst stacks_out) (simp_all add: k(1) perm_bits or.assoc)
  qed
  show "boot_layout np pp ep sp kst (nth_page (kstack c) i) = Some (nth_page (kst c - KERNBASE) i OR PTE_W OR PTE_P)"
    if "c < NCPU" "i < 16"
    using that by (simp add: boot_layout_def NCPU_def stacks_in perm_bits or.assoc)
  have other: "boot_layout np pp ep sp kst va =
      region_upd UENVS 512 ep (ucast (PTE_U OR PTE_P)) (region_upd UPAGES 512 pp (ucast (PTE_U OR PTE_P)) (\<lambda>_. None)) va"
    if "\<not> in_region KERNBASE np va" "\<And>c. c < 8 \<Longrightarrow> \<not> in_region (kstack c) 16 va" for va
    using that(1) that(2) [of 0] unfolding boot_layout_def NCPU_def
    by (subst stacks_out) (use that(2) in \<open>simp_all add: k0 region_upd_out\<close>)
  have fits: "unat UPAGES + 512 * 4096 \<le> 2 ^ 48" "unat UENVS + 512 * 4096 \<le> 2 ^ 48" by (simp_all add: mmu_defs)
  have low: "\<not> in_region KERNBASE np va" "\<And>c. c < 8 \<Longrightarrow> \<not> in_region (kstack c) 16 va"
    if "unat va < 0x8003C00000" for va
    using out [of _ va] region_bounds(3) [of np va] that by fastforce+
  show "boot_layout np pp ep sp kst (nth_page UPAGES i) = Some (nth_page pp i OR PTE_U OR PTE_P)" if "i < 512"
  proof -
    note u = region_upd_in [OF that fits(1)]
    have "\<not> in_region UENVS 512 (nth_page UPAGES i)"
      using region_bounds(1,2) u(2) by fastforce
    then show ?thesis
      using other [OF low] region_bounds(1) [OF u(2)] by (simp add: region_upd_out u(1) perm_bits or.assoc)
  qed
  show "boot_layout np pp ep sp kst (nth_page UENVS i) = Some (nth_page ep i OR PTE_U OR PTE_P)" if "i < 512"
  proof -
    note u = region_upd_in [OF that fits(2)]
    show ?thesis using other [OF low] region_bounds(2) [OF u(2)] by (simp add: u(1) perm_bits or.assoc)
  qed
  show "boot_layout np pp ep sp kst va = None"
    if "\<not> in_region KERNBASE np va" "\<forall>c < NCPU. \<not> in_region (kstack c) 16 va"
      "\<not> in_region UPAGES 512 va" "\<not> in_region UENVS 512 va"
    using other [of va] that by (simp add: NCPU_def region_upd_out)
qed

text \<open>C3: the kernel half of the address space that \<open>x64_vm_init\<close> builds, entry by entry: all
  physical memory at \<open>KERNBASE\<close>, the stack of every processor with nothing in the gaps below it, the
  first two megabytes of \<open>pages\<close> and of \<open>envs\<close> readable by the user, and nothing else. The arrays lie
  directly behind the top-level table. No call runs out of pages when memory is large enough for the
  arrays and the page tables.\<close>

theorem vm_tables_layout:
  assumes "boot_ready r s"
  shows "\<exists>pages_at envs_at s'. vm_tables s = Inr ((pages_at, envs_at), s') \<and> boot_pml4e s' = (r, 0) \<and>
    unat pages_at = unat KERNBASE + (r + 1) * 4096 \<and>
    unat envs_at = unat KERNBASE + (r + 1 + (npages s * 16 + 4095) div 4096) * 4096 \<and>
    (\<forall>i < npages s. mapping s' r (nth_page KERNBASE i) = Some (nth_page 0 i OR PTE_W OR PTE_P)) \<and>
    (\<forall>c < NCPU. \<forall>i < 16. mapping s' r (nth_page (kstack c) i) =
       Some (nth_page (percpu_kstacks s c - KERNBASE) i OR PTE_W OR PTE_P)) \<and>
    (\<forall>i < 512. mapping s' r (nth_page UPAGES i) = Some (nth_page (pages_at - KERNBASE) i OR PTE_U OR PTE_P)) \<and>
    (\<forall>i < 512. mapping s' r (nth_page UENVS i) = Some (nth_page (envs_at - KERNBASE) i OR PTE_U OR PTE_P)) \<and>
    (\<forall>va. kernel_va va \<longrightarrow> \<not> in_region KERNBASE (npages s) va \<longrightarrow> (\<forall>c < NCPU. \<not> in_region (kstack c) 16 va) \<longrightarrow>
       \<not> in_region UPAGES 512 va \<longrightarrow> \<not> in_region UENVS 512 va \<longrightarrow> mapping s' r va = None)"
proof -
  obtain pa ea s' where v: "vm_tables s = Inr ((pa, ea), s')" "unat pa = unat KERNBASE + (r + 1) * 4096"
      "unat ea = unat KERNBASE + (r + 1 + (npages s * 16 + 4095) div 4096) * 4096"
      "vm_view r 0 (boot_layout (npages s) (pa - KERNBASE) (ea - KERNBASE)
        (bootstack s - KERNBASE) (percpu_kstacks s)) s'"
    using vm_tables_view [OF assms] by blast
  have np: "npages s \<le> 3276800" using assms by (simp add: boot_ready_def)
  note layout = boot_layout_values [OF np]
    and view = v(4) [unfolded vm_view_def]
  have half: "kernel_va (nth_page KERNBASE i)" if "i < npages s" for i
    using in_kernel_half(2) [OF fixed_regions(9) _ that] np by (simp add: KERNBASE_def)
  have arrays: "kernel_va (nth_page UPAGES i)" "kernel_va (nth_page UENVS i)" if "i < 512" for i
    using in_kernel_half(2) [OF _ _ that] fixed_regions by blast+
  have stacks: "kernel_va (nth_page (kstack c) i)" if "c < NCPU" "i < 16" for c i
    using in_kernel_half(2) [OF _ _ that(2)] kstack_region that(1) by (simp add: NCPU_def)
  have "\<forall>i < npages s. mapping s' r (nth_page KERNBASE i) = Some (nth_page 0 i OR PTE_W OR PTE_P)"
    using view half layout(1) by simp
  moreover have "\<forall>c < NCPU. \<forall>i < 16. mapping s' r (nth_page (kstack c) i) =
       Some (nth_page (percpu_kstacks s c - KERNBASE) i OR PTE_W OR PTE_P)"
    using view stacks layout(2) by simp
  moreover have "\<forall>i < 512. mapping s' r (nth_page UPAGES i) = Some (nth_page (pa - KERNBASE) i OR PTE_U OR PTE_P)"
    "\<forall>i < 512. mapping s' r (nth_page UENVS i) = Some (nth_page (ea - KERNBASE) i OR PTE_U OR PTE_P)"
    using view arrays layout(3,4) by simp_all
  moreover have "mapping s' r va = None" if "kernel_va va" "\<not> in_region KERNBASE (npages s) va"
      "\<forall>c < NCPU. \<not> in_region (kstack c) 16 va" "\<not> in_region UPAGES 512 va" "\<not> in_region UENVS 512 va" for va
    using view that(1) layout(5) [OF that(2-5)] by simp
  ultimately show ?thesis using v(1-3) view by blast
qed

text \<open>A machine with 128 megabytes, whose kernel image ends at two megabytes.\<close>

definition vm_sample :: kstate where
  "vm_sample = (bss_state 32768 160 (KERNBASE + 0x200000))
     \<lparr>bootstack := KERNBASE + 0x110000, percpu_kstacks := (\<lambda>i. KERNBASE + 0x120000 + of_nat i * 0x10000)\<rparr>"

lemma vm_sample_ready: "boot_ready 512 vm_sample"
proof -
  have "KERNBASE \<le> KERNBASE + 0x120000 + of_nat i * 0x10000" if "i < NCPU" for i
  proof -
    have "i \<in> set [0..<8]" using that by (simp add: NCPU_def)
    then show ?thesis by (auto simp: upt_conv_Cons KERNBASE_def)
  qed
  then show ?thesis by (simp add: boot_ready_def vm_sample_def KERNBASE_def)
qed

theorem vm_tables_layout_witness:
  "\<exists>pages_at envs_at s'. vm_tables vm_sample = Inr ((pages_at, envs_at), s') \<and>
     mapping s' 512 (nth_page (kstack 1) 0) = Some (0x130000 OR PTE_W OR PTE_P) \<and>
     mapping s' 512 (kstack 0 - PGSIZE) = None"
proof -
  obtain pa ea s' where v: "vm_tables vm_sample = Inr ((pa, ea), s')"
      "\<forall>c < NCPU. \<forall>i < 16. mapping s' 512 (nth_page (kstack c) i) =
         Some (nth_page (percpu_kstacks vm_sample c - KERNBASE) i OR PTE_W OR PTE_P)"
      "\<forall>va. kernel_va va \<longrightarrow> \<not> in_region KERNBASE (npages vm_sample) va \<longrightarrow>
         (\<forall>c < NCPU. \<not> in_region (kstack c) 16 va) \<longrightarrow> \<not> in_region UPAGES 512 va \<longrightarrow> \<not> in_region UENVS 512 va \<longrightarrow>
         mapping s' 512 va = None"
    using vm_tables_layout [OF vm_sample_ready] by blast
  have "mapping s' 512 (nth_page (kstack 1) 0) = Some (0x130000 OR PTE_W OR PTE_P)"
    using v(2) [rule_format, of 1 0] by (simp add: NCPU_def vm_sample_def)
  moreover have "\<not> in_region (kstack c) 16 (kstack 0 - PGSIZE)" if "c < NCPU" for c
  proof -
    have "c \<in> set [0..<8]" using that by (simp add: NCPU_def)
    then show ?thesis by (auto simp: upt_conv_Cons in_region_def kstack_def mmu_defs)
  qed
  then have "mapping s' 512 (kstack 0 - PGSIZE) = None"
    by (intro v(3) [rule_format]) (auto simp: kernel_va_def in_region_def kstack_def mmu_defs)
  ultimately show ?thesis using v(1) by blast
qed

end
