(* ===== verification/Boot_Check.thy ===== *)
theory Boot_Check
  imports Boot_Vm
begin

text \<open>
  The self tests of \<open>kern/pmap.c\<close> that run at boot, \<open>check_page_free_list\<close>, \<open>check_page_alloc\<close>,
  \<open>page_check\<close>, \<open>check_boot_pml4e\<close> and \<open>check_va2pa\<close>, and \<open>x64_vm_init\<close> as a whole. Shown:
  \<open>check_va2pa\<close> computes the reference map; the test of the tables passes exactly on machines
  with at most 512 megabytes. What the other tests do is shown in \<open>Boot_Selftest\<close>.
\<close>

section \<open>Helpers\<close>

text \<open>A failed \<open>assert\<close> is a panic.\<close>

definition assertK :: "bool \<Rightarrow> kstate \<Rightarrow> unit res" where
  "assertK b s = (if b then Inr ((), s) else panic ''assertion failed'' s)"

lemma assertK_simps [simp]:
  "assertK True s = Inr ((), s)"
  "assertK False s = Inl (Panic ''assertion failed'', s)"
  by (simp_all add: assertK_def panic_def)

text \<open>\<open>memset(a, c, n)\<close> on a kernel pointer to the start of a page, \<open>n\<close> a multiple of 8.\<close>

definition byte_word :: "u8 \<Rightarrow> u64" where
  "byte_word c = ucast c * 0x0101010101010101"

definition memset_page :: "kptr \<Rightarrow> u8 \<Rightarrow> nat \<Rightarrow> kstate \<Rightarrow> kstate" where
  "memset_page a c n s =
     s\<lparr>mem := (mem s)(fst a := (\<lambda>i. if i < n div 8 then byte_word c else mem s (fst a) i))\<rparr>"

text \<open>
  The loop \<open>for (pp = ...; pp; pp = pp->pp_link)\<close>: the link is read after the body ran. A list that
  does not end makes it run for ever.
\<close>

partial_function (option) each_link ::
    "(nat \<Rightarrow> kstate \<Rightarrow> unit res) \<Rightarrow> nat option \<Rightarrow> kstate \<Rightarrow> unit res option" where
  "each_link f pp s =
     (case pp of
        None \<Rightarrow> Some (Inr ((), s))
      | Some p \<Rightarrow>
          (case f p s of
             Inl e \<Rightarrow> Some (Inl e)
           | Inr (_, s) \<Rightarrow> each_link f (pp_link (pages s p)) s))"

definition for_free_list :: "(nat \<Rightarrow> kstate \<Rightarrow> unit res) \<Rightarrow> kstate \<Rightarrow> unit res" where
  "for_free_list f s =
     (case each_link f (page_free_list s) s of None \<Rightarrow> Inl (Hang, s) | Some r \<Rightarrow> r)"

text \<open>The loop \<open>for (i = 0; i < n; i += PGSIZE)\<close>.\<close>

fun each_page :: "(u64 \<Rightarrow> kstate \<Rightarrow> unit res) \<Rightarrow> nat list \<Rightarrow> kstate \<Rightarrow> unit res" where
  "each_page f [] s = Inr ((), s)"
| "each_page f (i # is) s = bindK (f (of_nat i * PGSIZE) s) (\<lambda>_ s. each_page f is s)"

definition for_pages :: "u64 \<Rightarrow> (u64 \<Rightarrow> kstate \<Rightarrow> unit res) \<Rightarrow> kstate \<Rightarrow> unit res" where
  "for_pages n f s = each_page f [0..<(unat n + 4095) div 4096] s"

section \<open>check\_page\_free\_list\<close>

text \<open>
  The reordering keeps two lists under construction, one for each \<open>pagetype\<close>. \<open>heads\<close> are the
  variables \<open>pp1\<close> and \<open>pp2\<close>; \<open>tails\<close> is the array \<open>tp\<close>, where \<open>None\<close> points to the variable and
  \<open>Some q\<close> to the link of page \<open>q\<close>.
\<close>

definition tp_store :: "(bool \<Rightarrow> nat option) \<Rightarrow> bool \<Rightarrow> nat option \<Rightarrow> (bool \<Rightarrow> nat option) \<Rightarrow> kstate \<Rightarrow>
    (bool \<Rightarrow> nat option) \<times> kstate" where
  "tp_store tails t v heads s =
     (case tails t of
        None \<Rightarrow> (heads(t := v), s)
      | Some q \<Rightarrow> (heads, set_pp_link q v s))"

partial_function (option) split_loop :: "u64 \<Rightarrow> nat option \<Rightarrow> (bool \<Rightarrow> nat option) \<Rightarrow>
    (bool \<Rightarrow> nat option) \<Rightarrow> kstate \<Rightarrow> ((bool \<Rightarrow> nat option) \<times> (bool \<Rightarrow> nat option) \<times> kstate) option" where
  "split_loop pdx_limit pp heads tails s =
     (case pp of
        None \<Rightarrow> Some (heads, tails, s)
      | Some p \<Rightarrow>
          let pagetype = (pdx_limit \<le> PDX (page2pa p));
              (heads, s) = tp_store tails pagetype (Some p) heads s
          in split_loop pdx_limit (pp_link (pages s p)) heads (tails(pagetype := Some p)) s)"

definition split_free_list :: "u64 \<Rightarrow> kstate \<Rightarrow> unit res" where
  "split_free_list pdx_limit s =
     (case split_loop pdx_limit (page_free_list s) (\<lambda>_. None) (\<lambda>_. None) s of
        None \<Rightarrow> Inl (Hang, s)
      | Some (heads, tails, s) \<Rightarrow>
          let (heads, s) = tp_store tails True None heads s;
              (heads, s) = tp_store tails False (heads True) heads s
          in Inr ((), s\<lparr>page_free_list := heads False\<rparr>))"

definition check_free_page :: "u64 \<Rightarrow> nat \<Rightarrow> kstate \<Rightarrow> unit res" where
  "check_free_page first_free_page pp s =
     bindK (assertK (pp < npages s) s) (\<lambda>_ s.
     bindK (assertK (page2pa pp \<noteq> 0) s) (\<lambda>_ s.
     bindK (assertK (page2pa pp \<noteq> IOPHYSMEM) s) (\<lambda>_ s.
     bindK (assertK (page2pa pp \<noteq> EXTPHYSMEM - PGSIZE) s) (\<lambda>_ s.
     bindK (assertK (page2pa pp \<noteq> EXTPHYSMEM) s) (\<lambda>_ s.
     bindK (if page2pa pp < EXTPHYSMEM then Inr ((), s)
            else bindK (page2kva pp s) (\<lambda>a s. assertK (first_free_page \<le> kva a) s)) (\<lambda>_ s.
     assertK (page2pa pp \<noteq> MPENTRY_PADDR) s))))))"

text \<open>
  The two counters of the last loop; only \<open>nfree_extmem\<close> is looked at.
\<close>

partial_function (option) count_free :: "u64 \<Rightarrow> nat option \<Rightarrow> u64 \<Rightarrow> kstate \<Rightarrow> u64 res option" where
  "count_free first_free_page pp nfree_extmem s =
     (case pp of
        None \<Rightarrow> Some (Inr (nfree_extmem, s))
      | Some p \<Rightarrow>
          (case check_free_page first_free_page p s of
             Inl e \<Rightarrow> Some (Inl e)
           | Inr (_, s) \<Rightarrow>
               count_free first_free_page (pp_link (pages s p))
                 (if page2pa p < EXTPHYSMEM then nfree_extmem else nfree_extmem + 1) s))"

definition check_page_free_list :: "bool \<Rightarrow> kstate \<Rightarrow> unit res" where
  "check_page_free_list only_low_memory s =
     (let pdx_limit = (if only_low_memory then 1 else 512) in
      if page_free_list s = None then panic (''\\'page_free_list\\' is a null pointer!'') s
      else bindK (if only_low_memory then split_free_list pdx_limit s else Inr ((), s)) (\<lambda>_ s.
           bindK (for_free_list (\<lambda>pp s.
                    if PDX (page2pa pp) < pdx_limit
                    then bindK (page2kva pp s) (\<lambda>a s. Inr ((), memset_page a 0x97 128 s))
                    else Inr ((), s)) s) (\<lambda>_ s.
             let (first_free_page, s) = boot_alloc 0 s in
             (case count_free first_free_page (page_free_list s) 0 s of
                None \<Rightarrow> Inl (Hang, s)
              | Some r \<Rightarrow> bindK r (\<lambda>nfree_extmem s. assertK (nfree_extmem > 0) s)))))"

section \<open>check\_page\_alloc\<close>

definition check_alloc_page :: "nat \<Rightarrow> kstate \<Rightarrow> unit res" where
  "check_alloc_page pp0 s =
     bindK (assertK (pp0 < npages s) s) (\<lambda>_ s.
     bindK (assertK (page2pa pp0 \<noteq> 0) s) (\<lambda>_ s.
     bindK (assertK (page2pa pp0 \<noteq> IOPHYSMEM) s) (\<lambda>_ s.
     bindK (assertK (page2pa pp0 \<noteq> EXTPHYSMEM - PGSIZE) s) (\<lambda>_ s.
     assertK (page2pa pp0 \<noteq> EXTPHYSMEM) s))))"

text \<open>\<open>assert((pp = page_alloc(flags)))\<close> and \<open>assert(!page_alloc(0))\<close>.\<close>

definition assert_alloc :: "u32 \<Rightarrow> kstate \<Rightarrow> nat res" where
  "assert_alloc flags s =
     bindK (page_alloc flags s) (\<lambda>pp s.
     bindK (assertK (pp \<noteq> None) s) (\<lambda>_ s. deref pp s))"

definition assert_no_page :: "kstate \<Rightarrow> unit res" where
  "assert_no_page s = bindK (page_alloc 0 s) (\<lambda>pp s. assertK (pp = None) s)"

definition alloc_three :: "kstate \<Rightarrow> (nat \<times> nat \<times> nat) res" where
  "alloc_three s =
     bindK (assert_alloc 0 s) (\<lambda>pp0 s.
     bindK (assert_alloc 0 s) (\<lambda>pp1 s.
     bindK (assert_alloc 0 s) (\<lambda>pp2 s.
     bindK (assertK (pp1 \<noteq> pp0) s) (\<lambda>_ s.
     bindK (assertK (pp2 \<noteq> pp1 \<and> pp2 \<noteq> pp0) s) (\<lambda>_ s. Inr ((pp0, pp1, pp2), s))))))"

definition check_page_alloc :: "kstate \<Rightarrow> unit res" where
  "check_page_alloc s =
     bindK (for_free_list (\<lambda>pp s. bindK (page2kva pp s) (\<lambda>a s. Inr ((), memset_page a 0x97 4096 s))) s)
       (\<lambda>_ s.
     bindK (for_free_list check_alloc_page s) (\<lambda>_ s.
     bindK (alloc_three s) (\<lambda>(pp0, pp1, pp2) s.
     bindK (assertK (page2pa pp0 < of_nat (npages s) * PGSIZE) s) (\<lambda>_ s.
     bindK (assertK (page2pa pp1 < of_nat (npages s) * PGSIZE) s) (\<lambda>_ s.
     bindK (assertK (page2pa pp2 < of_nat (npages s) * PGSIZE) s) (\<lambda>_ s.
       let fl = page_free_list s; s = set_page_free_list None s
       in bindK (assert_no_page s) (\<lambda>_ s.
          bindK (page_free pp0 s) (\<lambda>_ s. bindK (page_free pp1 s) (\<lambda>_ s. bindK (page_free pp2 s) (\<lambda>_ s.
          bindK (alloc_three s) (\<lambda>(pp0, pp1, pp2) s.
          bindK (assert_no_page s) (\<lambda>_ s.
          bindK (page2kva pp0 s) (\<lambda>a s.
            let s = memset_page a 1 4096 s
            in bindK (page_free pp0 s) (\<lambda>_ s.
               bindK (assert_alloc ALLOC_ZERO s) (\<lambda>pp s.
               bindK (assertK (pp0 = pp) s) (\<lambda>_ s.
               bindK (page2kva pp s) (\<lambda>c s.
               bindK (assertK (list_all (\<lambda>i. mem s (fst c) i = 0) [0..<512]) s) (\<lambda>_ s.
                 let s = set_page_free_list fl s
                 in bindK (page_free pp0 s) (\<lambda>_ s.
                    bindK (page_free pp1 s) (\<lambda>_ s.
                    bindK (page_free pp2 s) (\<lambda>_ s.
                      Inr ((), cprintf ''check_page_alloc() succeeded!'' [] s))))))))))))))))))))))"

section \<open>check\_va2pa and check\_boot\_pml4e\<close>

definition check_va2pa :: "kptr \<Rightarrow> u64 \<Rightarrow> kstate \<Rightarrow> u64 res" where
  "check_va2pa pml4e va s =
     (let pml4e = elem_ptr pml4e (PML4 va) in
      if ld s pml4e AND PTE_P = 0 then Inr (NOT 0, s)
      else bindK (KADDR (PTE_ADDR (ld s pml4e)) s) (\<lambda>pdpe s.
        if ld s (elem_ptr pdpe (PDPE va)) AND PTE_P = 0 then Inr (NOT 0, s)
        else bindK (KADDR (PTE_ADDR (ld s (elem_ptr pdpe (PDPE va)))) s) (\<lambda>pde s.
          let pde = elem_ptr pde (PDX va) in
          if ld s pde AND PTE_P = 0 then Inr (NOT 0, s)
          else bindK (KADDR (PTE_ADDR (ld s pde)) s) (\<lambda>pte s.
            if ld s (elem_ptr pte (PTX va)) AND PTE_P = 0 then Inr (NOT 0, s)
            else Inr (PTE_ADDR (ld s (elem_ptr pte (PTX va))), s)))))"

definition assert_va2pa :: "u64 \<Rightarrow> u64 \<Rightarrow> kstate \<Rightarrow> unit res" where
  "assert_va2pa va pa s = bindK (check_va2pa (boot_pml4e s) va s) (\<lambda>r s. assertK (r = pa) s)"

definition assert_kva :: "u64 \<Rightarrow> u64 \<Rightarrow> u64 \<Rightarrow> kstate \<Rightarrow> unit res" where
  "assert_kva va kv i s = bindK (PADDR kv s) (\<lambda>pa s. assert_va2pa va (pa + i) s)"

fun check_stacks :: "nat list \<Rightarrow> kstate \<Rightarrow> unit res" where
  "check_stacks [] s = Inr ((), s)"
| "check_stacks (n # ns) s =
     (let base = KSTACKTOP - (KSTKSIZE + KSTKGAP) * (of_nat n + 1) in
      bindK (for_pages KSTKSIZE (\<lambda>i s. assert_kva (base + KSTKGAP + i) (percpu_kstacks s n) i s) s) (\<lambda>_ s.
      bindK (for_pages KSTKGAP (\<lambda>i s. assert_va2pa (base + i) (NOT 0) s) s) (\<lambda>_ s.
      check_stacks ns s)))"

text \<open>The four groups of addresses; \<open>pages_at\<close> and \<open>envs_at\<close> are the addresses of the arrays.\<close>

definition check_boot_maps :: "u64 \<Rightarrow> u64 \<Rightarrow> kstate \<Rightarrow> unit res" where
  "check_boot_maps pages_at envs_at s =
     bindK (for_pages (ROUNDUP (of_nat (npages s) * 16) PGSIZE)
              (\<lambda>i s. assert_kva (UPAGES + i) pages_at i s) s) (\<lambda>_ s.
     bindK (for_pages (ROUNDUP (of_nat (NENV * sizeof_Env)) PGSIZE)
              (\<lambda>i s. assert_kva (UENVS + i) envs_at i s) s) (\<lambda>_ s.
     bindK (for_pages (of_nat (npages s) * PGSIZE) (\<lambda>i s. assert_va2pa (KERNBASE + i) i s) s) (\<lambda>_ s.
     check_stacks [0..<NCPU] s)))"

definition check_pde :: "kptr \<Rightarrow> nat \<Rightarrow> kstate \<Rightarrow> unit res" where
  "check_pde pgdir i s =
     (let e = ld s (elem_ptr pgdir (of_nat i)) in
      if of_nat i = PDX (KSTACKTOP - 1) \<or> of_nat i = PDX UPAGES \<or> of_nat i = PDX UENVS
      then assertK (e AND PTE_P \<noteq> 0) s
      else if PDX KERNBASE \<le> of_nat i then
        if e AND PTE_P \<noteq> 0 then assertK (e AND PTE_W \<noteq> 0) s else assertK (e = 0) s
      else Inr ((), s))"

fun check_pdes :: "kptr \<Rightarrow> nat list \<Rightarrow> kstate \<Rightarrow> unit res" where
  "check_pdes pgdir [] s = Inr ((), s)"
| "check_pdes pgdir (i # is) s = bindK (check_pde pgdir i s) (\<lambda>_ s. check_pdes pgdir is s)"

definition check_boot_pml4e :: "u64 \<Rightarrow> u64 \<Rightarrow> kstate \<Rightarrow> unit res" where
  "check_boot_pml4e pages_at envs_at s =
     bindK (check_boot_maps pages_at envs_at s) (\<lambda>_ s.
     bindK (KADDR (PTE_ADDR (ld s (elem_ptr (boot_pml4e s) 1))) s) (\<lambda>pdpe s.
     bindK (KADDR (PTE_ADDR (ld s pdpe)) s) (\<lambda>pgdir s.
     bindK (check_pdes pgdir [0..<512] s) (\<lambda>_ s.
       Inr ((), cprintf ''check_boot_pml4e() succeeded!'' [] s)))))"

section \<open>page\_check\<close>

text \<open>\<open>*pml4e_walk(boot_pml4e, va, 0)\<close>, read and written.\<close>

definition walk_ptr :: "u64 \<Rightarrow> kstate \<Rightarrow> kptr res" where
  "walk_ptr va s = bindK (pml4e_walk (boot_pml4e s) va False s) (\<lambda>pte s. deref pte s)"

definition walk_ld :: "u64 \<Rightarrow> kstate \<Rightarrow> u64 res" where
  "walk_ld va s = bindK (walk_ptr va s) (\<lambda>pte s. Inr (ld s pte, s))"

definition walk_clear :: "u64 \<Rightarrow> kstate \<Rightarrow> unit res" where
  "walk_clear va s = bindK (walk_ptr va s) (\<lambda>pte s. Inr ((), st pte 0 s))"

text \<open>The last-level table for \<open>va\<close>, found entry by entry without a test.\<close>

definition table_ptr :: "u64 \<Rightarrow> kstate \<Rightarrow> kptr res" where
  "table_ptr va s =
     bindK (KADDR (PTE_ADDR (ld s (elem_ptr (boot_pml4e s) (PML4 va)))) s) (\<lambda>pdpe s.
     bindK (KADDR (PTE_ADDR (ld s (elem_ptr pdpe (PDPE va)))) s) (\<lambda>pde s.
     KADDR (PTE_ADDR (ld s (elem_ptr pde (PDX va)))) s))"

definition assert_insert :: "(int \<Rightarrow> bool) \<Rightarrow> nat \<Rightarrow> u64 \<Rightarrow> u32 \<Rightarrow> kstate \<Rightarrow> unit res" where
  "assert_insert P pp va perm s =
     bindK (page_insert (boot_pml4e s) pp va perm s) (\<lambda>r s. assertK (P r) s)"

definition assert_ref :: "nat \<Rightarrow> u16 \<Rightarrow> kstate \<Rightarrow> unit res" where
  "assert_ref pp n s = assertK (pp_ref (pages s pp) = n) s"

text \<open>Six pages are taken, all different.\<close>

fun alloc_six :: "nat \<Rightarrow> kstate \<Rightarrow> nat list res" where
  "alloc_six 0 s = Inr ([], s)"
| "alloc_six (Suc n) s =
     bindK (assert_alloc 0 s) (\<lambda>pp s. bindK (alloc_six n s) (\<lambda>pps s. Inr (pp # pps, s)))"

text \<open>
  Without free pages nothing can be mapped at address 0; with three pages for the tables it can, and
  at the next address without another page.
\<close>

definition page_check_first :: "nat \<Rightarrow> nat \<Rightarrow> nat \<Rightarrow> nat \<Rightarrow> kstate \<Rightarrow> unit res" where
  "page_check_first pp0 pp1 pp2 pp3 s =
     bindK (assert_no_page s) (\<lambda>_ s.
     bindK (page_lookup (boot_pml4e s) 0 s) (\<lambda>found s.
     bindK (assertK (found = None) s) (\<lambda>_ s.
     bindK (assert_insert (\<lambda>r. r < 0) pp1 0 0 s) (\<lambda>_ s.
     bindK (page_free pp0 s) (\<lambda>_ s.
     bindK (assert_insert (\<lambda>r. r < 0) pp1 0 0 s) (\<lambda>_ s.
     bindK (page_free pp2 s) (\<lambda>_ s.
     bindK (page_free pp3 s) (\<lambda>_ s.
     bindK (assert_insert (\<lambda>r. r = 0) pp1 0 0 s) (\<lambda>_ s.
     bindK (let e = PTE_ADDR (ld s (elem_ptr (boot_pml4e s) 0))
            in assertK (e = page2pa pp0 \<or> e = page2pa pp2 \<or> e = page2pa pp3) s) (\<lambda>_ s.
     bindK (assert_va2pa 0 (page2pa pp1) s) (\<lambda>_ s.
     bindK (assert_ref pp1 1 s) (\<lambda>_ s. bindK (assert_ref pp0 1 s) (\<lambda>_ s. bindK (assert_ref pp2 1 s) (\<lambda>_ s.
     bindK (assert_insert (\<lambda>r. r = 0) pp3 PGSIZE 0 s) (\<lambda>_ s.
     bindK (assert_va2pa PGSIZE (page2pa pp3) s) (\<lambda>_ s.
     bindK (assert_ref pp3 2 s) (\<lambda>_ s.
     assert_no_page s)))))))))))))))))"

text \<open>Mapping the same page again, first with the same permissions, then with others.\<close>

definition page_check_again :: "nat \<Rightarrow> nat \<Rightarrow> kstate \<Rightarrow> unit res" where
  "page_check_again pp0 pp3 s =
     bindK (assert_insert (\<lambda>r. r = 0) pp3 PGSIZE 0 s) (\<lambda>_ s.
     bindK (assert_va2pa PGSIZE (page2pa pp3) s) (\<lambda>_ s.
     bindK (assert_ref pp3 2 s) (\<lambda>_ s.
     bindK (assert_no_page s) (\<lambda>_ s.
     bindK (table_ptr PGSIZE s) (\<lambda>ptep s.
     bindK (pml4e_walk (boot_pml4e s) PGSIZE False s) (\<lambda>pte s.
     bindK (assertK (pte = Some (elem_ptr ptep (PTX PGSIZE))) s) (\<lambda>_ s.
     bindK (assert_insert (\<lambda>r. r = 0) pp3 PGSIZE (ucast PTE_U) s) (\<lambda>_ s.
     bindK (assert_va2pa PGSIZE (page2pa pp3) s) (\<lambda>_ s.
     bindK (assert_ref pp3 2 s) (\<lambda>_ s.
     bindK (walk_ld PGSIZE s) (\<lambda>e s.
     bindK (assertK (e AND PTE_U \<noteq> 0) s) (\<lambda>_ s.
     bindK (assertK (ld s (elem_ptr (boot_pml4e s) 0) AND PTE_U \<noteq> 0) s) (\<lambda>_ s.
     assert_insert (\<lambda>r. r < 0) pp0 PTSIZE 0 s)))))))))))))"

text \<open>Another page in its place, and taking the mappings away again.\<close>

definition page_check_replace :: "nat \<Rightarrow> nat \<Rightarrow> kstate \<Rightarrow> unit res" where
  "page_check_replace pp1 pp3 s =
     bindK (assert_insert (\<lambda>r. r = 0) pp1 PGSIZE 0 s) (\<lambda>_ s.
     bindK (walk_ld PGSIZE s) (\<lambda>e s.
     bindK (assertK (e AND PTE_U = 0) s) (\<lambda>_ s.
     bindK (assert_va2pa 0 (page2pa pp1) s) (\<lambda>_ s.
     bindK (assert_va2pa PGSIZE (page2pa pp1) s) (\<lambda>_ s.
     bindK (assert_ref pp1 2 s) (\<lambda>_ s. bindK (assert_ref pp3 1 s) (\<lambda>_ s.
     bindK (page_remove (boot_pml4e s) 0 s) (\<lambda>_ s.
     bindK (assert_va2pa 0 (NOT 0) s) (\<lambda>_ s.
     bindK (assert_va2pa PGSIZE (page2pa pp1) s) (\<lambda>_ s.
     bindK (assert_ref pp1 1 s) (\<lambda>_ s. bindK (assert_ref pp3 1 s) (\<lambda>_ s.
     bindK (assert_insert (\<lambda>r. r = 0) pp1 PGSIZE 0 s) (\<lambda>_ s.
     bindK (assertK (pp_ref (pages s pp1) \<noteq> 0) s) (\<lambda>_ s.
     bindK (assertK (pp_link (pages s pp1) = None) s) (\<lambda>_ s.
     bindK (page_remove (boot_pml4e s) PGSIZE s) (\<lambda>_ s.
     bindK (assert_va2pa 0 (NOT 0) s) (\<lambda>_ s.
     bindK (assert_va2pa PGSIZE (NOT 0) s) (\<lambda>_ s.
     bindK (assert_ref pp1 0 s) (\<lambda>_ s.
     assert_ref pp3 1 s)))))))))))))))))))"

text \<open>The tables are taken back by force; new tables must be empty.\<close>

definition page_check_tables :: "nat \<Rightarrow> nat \<Rightarrow> nat \<Rightarrow> nat \<Rightarrow> kstate \<Rightarrow> unit res" where
  "page_check_tables pp0 pp2 pp3 pp4 s =
     bindK (pa2page (PTE_ADDR (ld s (elem_ptr (boot_pml4e s) 0))) s) (\<lambda>pp_l1 s.
       let s = st (elem_ptr (boot_pml4e s) 0) 0 s
       in bindK (assert_ref pp3 1 s) (\<lambda>_ s.
          bindK (page_decref pp_l1 s) (\<lambda>_ s.
          bindK (if pp_l1 \<noteq> pp3 then page_decref pp3 s else Inr ((), s)) (\<lambda>_ s.
          bindK (if pp_l1 \<noteq> pp2 then page_decref pp2 s else Inr ((), s)) (\<lambda>_ s.
          bindK (if pp_l1 \<noteq> pp0 then page_decref pp0 s else Inr ((), s)) (\<lambda>_ s.
          bindK (pml4e_walk (boot_pml4e s) (PGSIZE * 100) True s) (\<lambda>ptep s.
          bindK (table_ptr (PGSIZE * 100) s) (\<lambda>ptep1 s.
          bindK (assertK (ptep = Some (elem_ptr ptep1 (PTX (PGSIZE * 100)))) s) (\<lambda>_ s.
          bindK (page2kva pp4 s) (\<lambda>a s.
            let s = memset_page a 0xFF 4096 s
            in bindK (pml4e_walk (boot_pml4e s) 0 True s) (\<lambda>_ s.
               bindK (table_ptr 0 s) (\<lambda>ptep s.
               bindK (assertK (list_all (\<lambda>i. ld s (elem_ptr ptep (of_nat i)) AND PTE_P = 0) [0..<512]) s) (\<lambda>_ s.
                 Inr ((), st (elem_ptr (boot_pml4e s) 0) 0 s))))))))))))))"

fun assert_unref :: "nat list \<Rightarrow> kstate \<Rightarrow> unit res" where
  "assert_unref [] s = Inr ((), s)"
| "assert_unref (pp # pps) s = bindK (assert_ref pp 0 s) (\<lambda>_ s. assert_unref pps s)"

definition page_check_mmio :: "kstate \<Rightarrow> unit res" where
  "page_check_mmio s =
     bindK (mmio_map_region 0 4097 s) (\<lambda>mm1 s.
     bindK (mmio_map_region 0 4096 s) (\<lambda>mm2 s.
     bindK (assertK (MMIOBASE \<le> mm1 \<and> mm1 + 8096 < MMIOLIM) s) (\<lambda>_ s.
     bindK (assertK (MMIOBASE \<le> mm2 \<and> mm2 + 8096 < MMIOLIM) s) (\<lambda>_ s.
     bindK (assertK (mm1 mod PGSIZE = 0 \<and> mm2 mod PGSIZE = 0) s) (\<lambda>_ s.
     bindK (assertK (mm1 + 8096 \<le> mm2) s) (\<lambda>_ s.
     bindK (assert_va2pa mm1 0 s) (\<lambda>_ s.
     bindK (assert_va2pa (mm1 + PGSIZE) PGSIZE s) (\<lambda>_ s.
     bindK (assert_va2pa mm2 0 s) (\<lambda>_ s.
     bindK (assert_va2pa (mm2 + PGSIZE) (NOT 0) s) (\<lambda>_ s.
     bindK (walk_ld mm1 s) (\<lambda>e s.
     bindK (assertK (e AND (PTE_W OR PTE_PWT OR PTE_PCD) \<noteq> 0) s) (\<lambda>_ s.
     bindK (walk_ld mm1 s) (\<lambda>e s.
     bindK (assertK (e AND PTE_U = 0) s) (\<lambda>_ s.
     bindK (walk_clear mm1 s) (\<lambda>_ s.
     bindK (walk_clear (mm1 + PGSIZE) s) (\<lambda>_ s.
     bindK (walk_clear mm2 s) (\<lambda>_ s.
       Inr ((), cprintf ''check_page() succeeded!'' [] s))))))))))))))))))"

definition page_check :: "kstate \<Rightarrow> unit res" where
  "page_check s =
     bindK (alloc_six 6 s) (\<lambda>pps s.
     bindK (assertK (distinct pps) s) (\<lambda>_ s.
       let pp0 = pps ! 0; pp1 = pps ! 1; pp2 = pps ! 2; pp3 = pps ! 3; pp4 = pps ! 4;
           fl = page_free_list s; s = set_page_free_list None s
       in bindK (page_check_first pp0 pp1 pp2 pp3 s) (\<lambda>_ s.
          bindK (page_check_again pp0 pp3 s) (\<lambda>_ s.
          bindK (page_check_replace pp1 pp3 s) (\<lambda>_ s.
          bindK (page_check_tables pp0 pp2 pp3 pp4 s) (\<lambda>_ s.
            let s = set_page_free_list fl s
            in bindK (page_decref pp0 s) (\<lambda>_ s. bindK (page_decref pp2 s) (\<lambda>_ s. bindK (page_decref pp3 s) (\<lambda>_ s.
               bindK (assert_unref pps s) (\<lambda>_ s.
               page_check_mmio s))))))))))"

section \<open>x64\_vm\_init\<close>

definition vm_checks :: "u64 \<Rightarrow> u64 \<Rightarrow> kstate \<Rightarrow> unit res" where
  "vm_checks pages_at envs_at s =
     bindK (check_page_free_list True s) (\<lambda>_ s.
     bindK (check_page_alloc s) (\<lambda>_ s.
     bindK (page_check s) (\<lambda>_ s.
     bindK (check_page_free_list False s) (\<lambda>_ s.
     check_boot_pml4e pages_at envs_at s))))"

definition x64_vm_init ::
  "(multiboot_info_t \<times> mmap_array \<times> mmap_ptrs) option \<Rightarrow> kstate \<Rightarrow> unit res" where
  "x64_vm_init mbinfo s =
     bindK (i386_detect_memory mbinfo s) (\<lambda>_ s.
     bindK (vm_tables s) (\<lambda>(pages_at, envs_at) s.
     bindK (vm_checks pages_at envs_at s) (\<lambda>_ s.
     bindK (KADDR (PTE_ADDR (ld s (elem_ptr (boot_pml4e s) 1))) s) (\<lambda>pdpe s.
     bindK (KADDR (PTE_ADDR (ld s pdpe)) s) (\<lambda>pgdir s.
       Inr ((), lcr3 (boot_cr3 s) s))))))"

section \<open>check\_va2pa is the reference map\<close>

lemma KADDR_next:
  assumes "pt_wf sl ow s fl" "ow p = Some (r, is)" "slot_ok sl r is i" "nxt s p i = Some q"
  shows "KADDR (PTE_ADDR (mem s p i)) s = Inr ((q, 0), s)"
  using KADDR_table [of s "mem s p i"] nxt_in_range [OF assms] pt_wf_npages [OF assms(1)] by simp

lemma PTE_P_clear: "e AND PTE_P = 0 \<longleftrightarrow> \<not> bit e 0"
  using PTE_P_bit [of e] by blast

lemma nxt_bit: "nxt s p i = Some q \<Longrightarrow> bit (mem s p i) 0" "nxt s p i = None \<longleftrightarrow> \<not> bit (mem s p i) 0"
  by (auto simp: nxt_def split: if_splits)

lemma check_va2pa_mapping:
  assumes wf: "pt_wf sl ow s fl" and r: "root_ok sl ow r va"
  shows "check_va2pa (r, 0) va s =
     Inr (case mapping s r va of None \<Rightarrow> NOT 0 | Some e \<Rightarrow> PTE_ADDR e, s)"
proof -
  let ?a = "unat (PML4 va)" and ?b = "unat (PDPE va)" and ?c = "unat (PDX va)" and ?d = "unat (PTX va)"
  have r0: "ow r = Some (r, [])" "slot_ok sl r [] ?a" using r by (simp_all add: root_ok_def slot_ok_def)
  have map: "mapping s r va = leaf s r [?a, ?b, ?c, ?d]" by (simp add: mapping_def pidx_def tbl_idx_def)
  show ?thesis
  proof (cases "nxt s r ?a")
    case (Some p)
    note p = KADDR_next [OF wf r0 Some] pt_wfD(5) [OF wf r0 Some] nxt_in_range [OF wf r0 Some]
    note a = Some
    have p1: "ow p = Some (r, [?a])" "slot_ok sl r [?a] ?b" using p(2) by (simp_all add: slot_ok_def)
    show ?thesis
    proof (cases "nxt s p ?b")
      case (Some q)
      note q = KADDR_next [OF wf p1 Some] pt_wfD(5) [OF wf p1 Some]
      note b = Some
      have q1: "ow q = Some (r, [?a, ?b])" "slot_ok sl r [?a, ?b] ?c" using q(2) by (simp_all add: slot_ok_def)
      show ?thesis
      proof (cases "nxt s q ?c")
        case (Some t)
        note t = KADDR_next [OF wf q1 Some]
        show ?thesis
          using a b Some p(1) q(1) t
          by (simp add: check_va2pa_def map PTE_P_clear nxt_bit(1))
      next
        case None
        then show ?thesis
          using a b p(1) q(1) nxt_bit(2) [THEN iffD1, OF None] by (simp add: check_va2pa_def map PTE_P_clear nxt_bit(1))
      qed
    next
      case None
      then show ?thesis
        using a p(1) nxt_bit(2) [THEN iffD1, OF None] by (simp add: check_va2pa_def map PTE_P_clear nxt_bit(1))
    qed
  next
    case None
    then show ?thesis
      using nxt_bit(2) [THEN iffD1, OF None] by (simp add: check_va2pa_def map PTE_P_clear)
  qed
qed

section \<open>check\_boot\_pml4e after vm\_tables\<close>

lemma each_page_ok:
  "(\<And>i. i \<in> set is \<Longrightarrow> f (of_nat i * PGSIZE) s = Inr ((), s)) \<Longrightarrow> each_page f is s = Inr ((), s)"
  by (induction "is") simp_all

lemma each_page_append:
  "each_page f (is @ js) s = bindK (each_page f is s) (\<lambda>_ s. each_page f js s)"
proof (induction "is" arbitrary: s)
  case (Cons i "is")
  then show ?case by (cases "f (of_nat i * PGSIZE) s") auto
qed simp

lemma each_page_stops:
  assumes "k < n" "\<And>i. i < k \<Longrightarrow> f (of_nat i * PGSIZE) s = Inr ((), s)" "f (of_nat k * PGSIZE) s = Inl e"
  shows "each_page f [0..<n] s = Inl e"
proof -
  have "[0..<n] = [0..<k] @ k # [Suc k..<n]"
    using assms(1) by (metis less_imp_le_nat upt_add_eq_append upt_conv_Cons zero_le le_add_diff_inverse)
  moreover have "each_page f [0..<k] s = Inr ((), s)" using assms(2) by (intro each_page_ok) simp
  ultimately show ?thesis using assms(3) by (simp add: each_page_append)
qed

lemma aligned_low: "unat (a :: u64) mod 4096 = 0 \<Longrightarrow> take_bit 12 a = 0"
proof -
  assume "unat a mod 4096 = 0"
  then have "unat (take_bit 12 a) = 0" by (simp add: unat_take_bit)
  then show ?thesis by (simp add: unat_eq_zero)
qed

lemma PTE_ADDR_aligned:
  assumes "unat a mod 4096 = 0" "take_bit 12 f = f"
  shows "PTE_ADDR (a OR f) = a"
proof -
  note a = aligned_low [OF assms(1)]
  show ?thesis
  proof (rule bit_word_eqI)
    fix n assume n: "n < LENGTH(64)"
    have "bit (take_bit 12 a) n = False" "bit f n \<longrightarrow> n < 12"
      using a assms(2) by (simp, metis bit_take_bit_iff)
    then show "bit (PTE_ADDR (a OR f)) n = bit a n"
      using n unfolding PTE_ADDR_def and_not_FFF by (auto simp: bit_simps)
  qed
qed

lemma entry_flags: "take_bit 12 (PTE_W OR PTE_P) = PTE_W OR PTE_P" "take_bit 12 (PTE_U OR PTE_P) = PTE_U OR PTE_P"
  by (simp_all add: mmu_defs)

lemma nth_page_aligned:
  assumes "unat la mod 4096 = 0"
  shows "unat (nth_page la i) mod 4096 = 0"
proof -
  have "(x mod 18446744073709551616) mod 4096 = x mod 4096" for x :: nat
    by (rule mod_mod_cancel) simp
  moreover have "(unat la + y * 4096) mod 4096 = 0" for y using assms by presburger
  ultimately show ?thesis
    by (simp add: nth_page_def PGSIZE_def unat_word_ariths mod_simps)
qed

lemma vm_view_assert:
  assumes "vm_view r k f s" "kernel_va va"
  shows "assert_va2pa va pa s = assertK ((case f va of None \<Rightarrow> NOT 0 | Some e \<Rightarrow> PTE_ADDR e) = pa) s"
proof -
  obtain ow fl where wf: "pt_wf (\<lambda>_. {1}) ow s fl" "ow r = Some (r, [])"
    and b: "boot_pml4e s = (r, 0)" and m: "mapping s r va = f va"
    using assms by (auto simp: vm_view_def)
  have "root_ok (\<lambda>_. {1}) ow r va"
    using wf(2) kernel_va_PML4 [OF assms(2)] by (simp add: root_ok_def)
  from check_va2pa_mapping [OF wf(1) this] show ?thesis
    by (simp add: assert_va2pa_def b m)
qed

text \<open>One address of a mapped region, as the loops of \<open>check_boot_pml4e\<close> look at it.\<close>

lemma assert_page:
  assumes v: "vm_view r k f s" and va: "kernel_va (nth_page la i)"
    and m: "f (nth_page la i) = Some (nth_page pa i OR fl)" "take_bit 12 fl = fl" "unat pa mod 4096 = 0"
  shows "assert_va2pa (la + of_nat i * PGSIZE) (pa + of_nat i * PGSIZE) s = Inr ((), s)"
  using vm_view_assert [OF v va, of "nth_page pa i"] m PTE_ADDR_aligned [OF nth_page_aligned [OF m(3)] m(2)]
  by (simp add: nth_page_def)

lemma assert_kva_page:
  assumes "KERNBASE \<le> kv" "vm_view r k f s" "kernel_va (nth_page la i)"
    "f (nth_page la i) = Some (nth_page (kv - KERNBASE) i OR fl)" "take_bit 12 fl = fl" "unat (kv - KERNBASE) mod 4096 = 0"
  shows "assert_kva (la + of_nat i * PGSIZE) kv (of_nat i * PGSIZE) s = Inr ((), s)"
  using assert_page [OF assms(2-6)] assms(1) by (auto simp: assert_kva_def PADDR_def)

lemma for_pages_ok:
  assumes "\<And>i. i < (unat n + 4095) div 4096 \<Longrightarrow> f (of_nat i * PGSIZE) s = Inr ((), s)"
  shows "for_pages n f s = Inr ((), s)"
  unfolding for_pages_def using assms by (intro each_page_ok) simp

lemma iterations:
  "np \<le> 3276800 \<Longrightarrow> (unat (ROUNDUP (of_nat np * 16) PGSIZE) + 4095) div 4096 = (np * 16 + 4095) div 4096"
  "np \<le> 3276800 \<Longrightarrow> (unat (of_nat np * PGSIZE) + 4095) div 4096 = np"
  "(unat (ROUNDUP (of_nat (NENV * sizeof_Env)) PGSIZE) + 4095) div 4096 = 72"
  "(unat KSTKSIZE + 4095) div 4096 = 16" "(unat KSTKGAP + 4095) div 4096 = 8"
proof -
  assume np: "np \<le> 3276800"
  have x: "unat (of_nat np * 16 :: u64) = np * 16" "unat (of_nat np * PGSIZE) = np * 4096"
    using np by (simp_all add: unat_word_ariths unat_of_nat PGSIZE_def)
  show "(unat (ROUNDUP (of_nat np * 16) PGSIZE) + 4095) div 4096 = (np * 16 + 4095) div 4096"
    using x(1) np by (simp add: unat_ROUNDUP)
  show "(unat (of_nat np * PGSIZE) + 4095) div 4096 = np" using x(2) by simp
qed (simp_all add: mmu_defs NENV_def LOG2NENV_def sizeof_Env_def ROUNDUP_def ROUNDDOWN_def)

text \<open>Below the stack of each processor lie eight pages without a mapping.\<close>

lemma stack_base:
  "KSTACKTOP - (KSTKSIZE + KSTKGAP) * (of_nat n + 1) + KSTKGAP + i = kstack n + i"
  "KSTACKTOP - (KSTKSIZE + KSTKGAP) * (of_nat n + 1) = kstack n - KSTKGAP"
  by (simp_all add: kstack_def algebra_simps)

lemma stack_gap:
  assumes "n < 8" "i < 8"
  shows "unat (kstack n - KSTKGAP + of_nat i * PGSIZE) = 0x8004000000 - n * 0x18000 - 0x18000 + i * 4096"
proof -
  have le: "KSTKGAP \<le> kstack n"
    using assms(1) by (simp add: word_le_nat_alt unat_kstack) (simp add: mmu_defs)
  have "unat (kstack n - KSTKGAP) = 0x8004000000 - n * 0x18000 - 0x18000"
    using unat_sub [OF le] assms(1) by (simp add: unat_kstack) (simp add: mmu_defs)
  moreover have "unat (of_nat i * PGSIZE) = i * 4096"
    using assms(2) by (simp add: unat_word_ariths unat_of_nat PGSIZE_def)
  ultimately show ?thesis using assms by (subst unat_add_lem [THEN iffD1]) simp_all
qed

lemma gap_unmapped:
  assumes "n < 8" "i < 8"
  defines "va \<equiv> kstack n - KSTKGAP + of_nat i * PGSIZE"
  shows "kernel_va va" "\<not> in_region KERNBASE np va" "\<forall>c < NCPU. \<not> in_region (kstack c) 16 va"
    "\<not> in_region UPAGES 512 va" "\<not> in_region UENVS 512 va"
proof -
  have u: "unat va = 0x8004000000 - n * 0x18000 - 0x18000 + i * 4096"
    unfolding va_def by (rule stack_gap [OF assms(1,2)])
  have hi: "unat va < 0x8004000000" "0x8003F00000 \<le> unat va" using u assms(1,2) by auto
  show "kernel_va va" using hi by (simp add: kernel_va_def)
  show "\<not> in_region KERNBASE np va" "\<not> in_region UPAGES 512 va" "\<not> in_region UENVS 512 va"
    using region_bounds(1,2) [of va] region_bounds(3) [of np va] hi by fastforce+
  show "\<forall>c < NCPU. \<not> in_region (kstack c) 16 va"
  proof (intro allI impI notI)
    fix c assume "c < NCPU" "in_region (kstack c) 16 va"
    then have c: "c < 8" "0x8004000000 - c * 0x18000 - 0x10000 \<le> unat va"
        "unat va < 0x8004000000 - c * 0x18000 - 0x10000 + 0x10000"
      by (simp_all add: NCPU_def in_region_def unat_kstack)
    have "i * 4096 < 0x8000" using assms(2) by simp
    moreover have "c * 0x18000 \<le> n * 0x18000 \<or> n * 0x18000 + 0x18000 \<le> c * 0x18000" by (cases "c \<le> n") auto
    moreover have "c * 0x18000 < 0x1000000" "n * 0x18000 < 0x1000000" using c(1) assms(1) by linarith+
    ultimately show False using c(2,3) u by linarith
  qed
qed

lemma check_stacks_ok:
  assumes v: "vm_view r k f s" and f: "f = boot_layout np pp ep sp (percpu_kstacks s)" and np: "np \<le> 3276800"
    and st: "\<forall>c < NCPU. KERNBASE \<le> percpu_kstacks s c \<and> unat (percpu_kstacks s c - KERNBASE) mod 4096 = 0"
    and ns: "\<forall>n \<in> set ns. n < 8"
  shows "check_stacks ns s = Inr ((), s)"
  using ns
proof (induction ns)
  case (Cons n ns)
  note layout = boot_layout_values [OF np]
  have n: "n < 8" "n < NCPU" using Cons.prems by (simp_all add: NCPU_def)
  have "for_pages KSTKSIZE (\<lambda>i s. assert_kva (kstack n + i) (percpu_kstacks s n) i s) s = Inr ((), s)"
  proof (rule for_pages_ok)
    fix i assume "i < (unat KSTKSIZE + 4095) div 4096"
    then have i: "i < 16" by (simp add: iterations)
    have va: "kernel_va (nth_page (kstack n) i)" using in_kernel_half(2) [OF _ _ i] kstack_region [OF n(1)] by simp
    show "assert_kva (kstack n + of_nat i * PGSIZE) (percpu_kstacks s n) (of_nat i * PGSIZE) s = Inr ((), s)"
      by (rule assert_kva_page [OF _ v [unfolded f] va layout(2) [OF n(2) i] entry_flags(1)]) (use st n in auto)
  qed
  moreover have "for_pages KSTKGAP (\<lambda>i s. assert_va2pa (kstack n - KSTKGAP + i) (NOT 0) s) s = Inr ((), s)"
  proof (rule for_pages_ok)
    fix i assume "i < (unat KSTKGAP + 4095) div 4096"
    then have i: "i < 8" by (simp add: iterations)
    note gap = gap_unmapped [OF n(1) i]
    from vm_view_assert [OF v gap(1)] layout(5) [OF gap(2-5)]
    show "assert_va2pa (kstack n - KSTKGAP + of_nat i * PGSIZE) (NOT 0) s = Inr ((), s)" by (simp add: f)
  qed
  ultimately show ?case using Cons by (simp add: stack_base)
qed simp

text \<open>The four loops, on the address space that \<open>vm_tables\<close> leaves.\<close>

lemma check_boot_loops:
  assumes v: "vm_view r k (boot_layout (npages s) (pa - KERNBASE) (ea - KERNBASE) sp (percpu_kstacks s)) s"
    and np: "npages s \<le> 3276800" and pa: "KERNBASE \<le> pa" "unat (pa - KERNBASE) mod 4096 = 0"
    and ea: "KERNBASE \<le> ea" "unat (ea - KERNBASE) mod 4096 = 0"
    and st: "\<forall>c < NCPU. KERNBASE \<le> percpu_kstacks s c \<and> unat (percpu_kstacks s c - KERNBASE) mod 4096 = 0"
  shows "for_pages (ROUNDUP (of_nat (npages s) * 16) PGSIZE) (\<lambda>i s. assert_kva (UPAGES + i) pa i s) s =
      (if npages s \<le> 131072 then Inr ((), s) else Inl (Panic ''assertion failed'', s))"
    and "for_pages (ROUNDUP (of_nat (NENV * sizeof_Env)) PGSIZE) (\<lambda>i s. assert_kva (UENVS + i) ea i s) s = Inr ((), s)"
    and "for_pages (of_nat (npages s) * PGSIZE) (\<lambda>i s. assert_va2pa (KERNBASE + i) i s) s = Inr ((), s)"
    and "check_stacks [0..<NCPU] s = Inr ((), s)"
proof -
  let ?f = "boot_layout (npages s) (pa - KERNBASE) (ea - KERNBASE) sp (percpu_kstacks s)"
  note layout = boot_layout_values [OF np] and its = iterations(1,2) [OF np] iterations(3)
  have arrays: "kernel_va (nth_page UPAGES i)" "kernel_va (nth_page UENVS i)" if "i < 512" for i
    using in_kernel_half(2) [OF _ _ that] fixed_regions by blast+
  have page: "assert_kva (UPAGES + of_nat i * PGSIZE) pa (of_nat i * PGSIZE) s = Inr ((), s)" if "i < 512" for i
    using assert_kva_page [OF pa(1) v arrays(1) [OF that] layout(3) [OF that] entry_flags(2) pa(2)] .
  show "for_pages (ROUNDUP (of_nat (npages s) * 16) PGSIZE) (\<lambda>i s. assert_kva (UPAGES + i) pa i s) s =
      (if npages s \<le> 131072 then Inr ((), s) else Inl (Panic ''assertion failed'', s))"
  proof (cases "npages s \<le> 131072")
    case True
    then have "(npages s * 16 + 4095) div 4096 \<le> 512" by simp
    then have "for_pages (ROUNDUP (of_nat (npages s) * 16) PGSIZE) (\<lambda>i s. assert_kva (UPAGES + i) pa i s) s = Inr ((), s)"
      by (intro for_pages_ok page) (simp add: its)
    then show ?thesis using True by simp
  next
    case False
    have va: "unat (nth_page UPAGES 512) = unat UPAGES + 512 * 4096" by (simp add: nth_page_def mmu_defs)
    have "\<not> in_region KERNBASE (npages s) (nth_page UPAGES 512)" "\<forall>c < NCPU. \<not> in_region (kstack c) 16 (nth_page UPAGES 512)"
      "\<not> in_region UPAGES 512 (nth_page UPAGES 512)" "\<not> in_region UENVS 512 (nth_page UPAGES 512)"
      by (auto simp: in_region_def va unat_kstack NCPU_def) (simp_all add: mmu_defs)
    then have none: "?f (nth_page UPAGES 512) = None" by (rule layout(5))
    have "kernel_va (nth_page UPAGES 512)" using va by (simp add: kernel_va_def) (simp add: mmu_defs)
    from vm_view_assert [OF v this] none
    have "assert_va2pa (nth_page UPAGES 512) x s = assertK (NOT 0 = x) s" for x by auto
    moreover have "NOT 0 \<noteq> pa - KERNBASE + 512 * PGSIZE"
    proof
      assume "NOT 0 = pa - KERNBASE + 512 * PGSIZE"
      then have "unat (NOT 0 :: u64) mod 4096 = 0"
        using nth_page_aligned [OF pa(2), of 512] by (simp add: nth_page_def)
      moreover have "unat (NOT 0 :: u64) = 2 ^ 64 - 1" by (simp add: unsigned_minus_1_eq_mask mask_eq_exp_minus_1)
      ultimately show False by simp
    qed
    ultimately have "assert_kva (UPAGES + of_nat 512 * PGSIZE) pa (of_nat 512 * PGSIZE) s = Inl (Panic ''assertion failed'', s)"
      using pa(1) by (auto simp: assert_kva_def PADDR_def nth_page_def)
    moreover have "512 < (npages s * 16 + 4095) div 4096" using False by simp
    ultimately show ?thesis
      unfolding for_pages_def its using False page by (subst each_page_stops [of 512]) auto
  qed
  show "for_pages (ROUNDUP (of_nat (NENV * sizeof_Env)) PGSIZE) (\<lambda>i s. assert_kva (UENVS + i) ea i s) s = Inr ((), s)"
  proof (rule for_pages_ok)
    fix i assume "i < (unat (ROUNDUP (of_nat (NENV * sizeof_Env)) PGSIZE) + 4095) div 4096"
    then have i: "i < 512" unfolding its(3) by simp
    show "assert_kva (UENVS + of_nat i * PGSIZE) ea (of_nat i * PGSIZE) s = Inr ((), s)"
      using assert_kva_page [OF ea(1) v arrays(2) [OF i] layout(4) [OF i] entry_flags(2) ea(2)] .
  qed
  show "for_pages (of_nat (npages s) * PGSIZE) (\<lambda>i s. assert_va2pa (KERNBASE + i) i s) s = Inr ((), s)"
  proof (rule for_pages_ok)
    fix i assume "i < (unat (of_nat (npages s) * PGSIZE) + 4095) div 4096"
    then have i: "i < npages s" by (simp add: its)
    have "kernel_va (nth_page KERNBASE i)"
      using in_kernel_half(2) [OF fixed_regions(9) _ i] np by (simp add: KERNBASE_def)
    from assert_page [OF v this layout(1) [OF i] entry_flags(1)]
    show "assert_va2pa (KERNBASE + of_nat i * PGSIZE) (of_nat i * PGSIZE) s = Inr ((), s)" by simp
  qed
  show "check_stacks [0..<NCPU] s = Inr ((), s)"
    by (rule check_stacks_ok [OF v refl np st]) (simp add: NCPU_def)
qed

text \<open>The test of the kernel's address space passes on machines with at most 512 megabytes: the
  loops of \<open>check_boot_pml4e\<close> accept the result of \<open>vm_tables\<close>. With more memory the kernel stops
  during boot, because the array of page structs is longer than the region that is mapped for it.\<close>

theorem check_boot_pml4e_limit:
  assumes "boot_ready r s" and "vm_tables s = Inr ((pages_at, envs_at), s')"
    and "\<forall>c < NCPU. unat (percpu_kstacks s c - KERNBASE) mod 4096 = 0"
  shows "(npages s \<le> 131072 \<longrightarrow> check_boot_maps pages_at envs_at s' = Inr ((), s')) \<and>
     (131072 < npages s \<longrightarrow> check_boot_pml4e pages_at envs_at s' = Inl (Panic ''assertion failed'', s'))"
proof -
  from vm_tables_view [OF assms(1)] assms(2)
  have v: "unat pages_at = unat KERNBASE + (r + 1) * 4096" "npages s' = npages s"
      "unat envs_at = unat KERNBASE + (r + 1 + (npages s * 16 + 4095) div 4096) * 4096"
      "percpu_kstacks s' = percpu_kstacks s"
      "vm_view r 0 (boot_layout (npages s') (pages_at - KERNBASE) (envs_at - KERNBASE)
        (bootstack s - KERNBASE) (percpu_kstacks s')) s'"
    by auto
  have ge: "KERNBASE \<le> pages_at" "KERNBASE \<le> envs_at" using v(1,3) by (simp_all add: word_le_nat_alt)
  have al: "unat (pages_at - KERNBASE) mod 4096 = 0" "unat (envs_at - KERNBASE) mod 4096 = 0"
    using unat_sub [OF ge(1)] unat_sub [OF ge(2)] v(1,3) by simp_all
  have np: "npages s' \<le> 3276800" using assms(1) v(2) by (simp add: boot_ready_def)
  have st: "\<forall>c < NCPU. KERNBASE \<le> percpu_kstacks s' c \<and> unat (percpu_kstacks s' c - KERNBASE) mod 4096 = 0"
    using assms(1,3) v(4) by (simp add: boot_ready_def)
  note loops = check_boot_loops [OF v(5) np ge(1) al(1) ge(2) al(2) st]
  show ?thesis using loops v(2) by (simp add: check_boot_pml4e_def check_boot_maps_def)
qed

theorem check_boot_pml4e_limit_witness:
  "\<exists>pages_at envs_at s'. vm_tables vm_sample = Inr ((pages_at, envs_at), s') \<and>
     check_boot_maps pages_at envs_at s' = Inr ((), s')"
proof -
  obtain pa ea s' where v: "vm_tables vm_sample = Inr ((pa, ea), s')"
    using vm_tables_view [OF vm_sample_ready] by blast
  have "unat (percpu_kstacks vm_sample c - KERNBASE) mod 4096 = 0" if "c < NCPU" for c
  proof -
    have "c \<in> set [0..<8]" using that by (simp add: NCPU_def)
    then show ?thesis by (auto simp: upt_conv_Cons vm_sample_def)
  qed
  moreover have "npages vm_sample \<le> 131072" by (simp add: vm_sample_def)
  ultimately show ?thesis using check_boot_pml4e_limit [OF vm_sample_ready v] v by blast
qed

section \<open>The reference map as a property\<close>

text \<open>\<open>check_va2pa\<close>, the kernel's own translation of an address, computes the reference map:
  the frame of the entry that the hardware would use, all ones when the address is not mapped. It
  never panics on well-formed tables and changes nothing.\<close>

theorem check_va2pa_translates:
  assumes "pt_wf sl ow s fl" and "root_ok sl ow r va"
  shows "check_va2pa (r, 0) va s = Inr (case mapping s r va of None \<Rightarrow> NOT 0 | Some e \<Rightarrow> PTE_ADDR e, s)"
  by (rule check_va2pa_mapping [OF assms])

theorem check_va2pa_translates_witness:
  "check_va2pa (2, 0) 0x2000 (sample 1) = Inr (0x6000, sample 1)"
  using check_va2pa_translates [OF sample_wf sample_root, of 1] by (simp add: sample_mapping PTE_ADDR_def)

end
