(* ===== verification/Boot_Selftest.thy ===== *)
theory Boot_Selftest
  imports Boot_Check
begin

text \<open>
  What the boot-time self tests of theory \<open>Boot_Check\<close> do: \<open>check_page_free_list\<close> and
  \<open>check_page_alloc\<close> pass on every list that \<open>page_init\<close> can build, the first with a stable
  partition of the list, the second giving back every page; the end of \<open>page_check\<close> goes through a
  null pointer.
\<close>

section \<open>Walking the free list\<close>

lemma only_mem_refl: "only_mem s s"
  by (simp add: only_mem_def)

lemma only_mem_fields:
  assumes "only_mem s t"
  shows "pages t = pages s" "page_free_list t = page_free_list s" "npages t = npages s"
    "nextfree t = nextfree s" "kend t = kend s"
  using assms unfolding only_mem_def by (cases s; cases t; simp)+

lemma only_mem_memset: "only_mem s t \<Longrightarrow> only_mem s (memset_page a c n t)"
  unfolding only_mem_def memset_page_def by (cases s; cases t) simp

lemma each_link_fold:
  assumes "chain (\<lambda>p. pp_link (pages s p)) h xs" "only_mem s0 s"
    and "\<And>p t. p \<in> set xs \<Longrightarrow> only_mem s0 t \<Longrightarrow> f p t = Inr ((), g p t) \<and> only_mem s0 (g p t)"
  shows "each_link f h s = Some (Inr ((), fold g xs s)) \<and> only_mem s0 (fold g xs s)"
  using assms
proof (induction xs arbitrary: h s)
  case Nil
  then show ?case by (simp add: each_link.simps)
next
  case (Cons x xs)
  have f: "f x s = Inr ((), g x s)" "only_mem s0 (g x s)" using Cons.prems(2,3) by simp_all
  then have "pages (g x s) = pages s"
    using only_mem_fields(1) [OF f(2)] only_mem_fields(1) [OF Cons.prems(2)] by simp
  then have "chain (\<lambda>p. pp_link (pages (g x s) p)) (pp_link (pages (g x s) x)) xs" "h = Some x"
    using Cons.prems(1) by simp_all
  with Cons.IH [OF this(1) f(2)] Cons.prems(3) f(1) show ?case by (simp add: each_link.simps [of f "Some x" s])
qed

lemma for_free_list_fold:
  assumes "freelist s xs"
    and "\<And>p t. p \<in> set xs \<Longrightarrow> only_mem s t \<Longrightarrow> f p t = Inr ((), g p t) \<and> only_mem s (g p t)"
  shows "for_free_list f s = Inr ((), fold g xs s)" "only_mem s (fold g xs s)"
  using each_link_fold [of s "page_free_list s" xs s f g] assms only_mem_refl
  by (simp_all add: for_free_list_def freelist_def)

text \<open>Filling pages with a byte, those that satisfy \<open>P\<close>.\<close>

definition fill :: "(nat \<Rightarrow> bool) \<Rightarrow> u8 \<Rightarrow> nat \<Rightarrow> nat \<Rightarrow> kstate \<Rightarrow> kstate" where
  "fill P c n p s = (if P p then memset_page (p, 0) c n s else s)"

lemma fill_mem:
  "mem (fold (fill P c n) xs s) =
     (\<lambda>p i. if p \<in> set xs \<and> P p \<and> i < n div 8 then byte_word c else mem s p i)"
  by (induction xs arbitrary: s) (auto simp: fill_def memset_page_def fun_eq_iff)

lemma fill_loop:
  assumes "alloc_inv s xs"
    and f: "\<And>p t. f p t = (if P p then bindK (page2kva p t) (\<lambda>a t. Inr ((), memset_page a c n t)) else Inr ((), t))"
  shows "for_free_list f s = Inr ((), fold (fill P c n) xs s)" "only_mem s (fold (fill P c n) xs s)"
proof -
  have "f p t = Inr ((), fill P c n p t) \<and> only_mem s (fill P c n p t)" if "p \<in> set xs" "only_mem s t" for p t
  proof -
    have "p < npages t" "npages t \<le> 2 ^ 32"
      using alloc_invD(2,4) [OF assms(1)] that only_mem_fields(3) [OF that(2)] by simp_all
    then show ?thesis using that(2) only_mem_memset by (simp add: f fill_def page2kva_in_range)
  qed
  from for_free_list_fold [OF alloc_invD(1) [OF assms(1)] this]
  show "for_free_list f s = Inr ((), fold (fill P c n) xs s)" "only_mem s (fold (fill P c n) xs s)" by simp_all
qed

lemma only_mem_alloc_inv: "only_mem s t \<Longrightarrow> alloc_inv t xs = alloc_inv s xs"
  by (rule alloc_inv_cong) (simp_all add: only_mem_fields)

section \<open>check\_page\_free\_list\<close>

text \<open>A segment of a linked list, up to the cell \<open>e\<close>.\<close>

fun lseg :: "(nat \<Rightarrow> nat option) \<Rightarrow> nat option \<Rightarrow> nat list \<Rightarrow> nat option \<Rightarrow> bool" where
  "lseg lk h [] e \<longleftrightarrow> h = e"
| "lseg lk h (x # xs) e \<longleftrightarrow> h = Some x \<and> lseg lk (lk x) xs e"

lemma lseg_chain: "chain lk h xs = lseg lk h xs None"
  by (induction xs arbitrary: h) auto

lemma lseg_append: "lseg lk h (xs @ ys) e \<longleftrightarrow> (\<exists>m. lseg lk h xs m \<and> lseg lk m ys e)"
  by (induction xs arbitrary: h) auto

lemma lseg_cong: "(\<And>x. x \<in> set xs \<Longrightarrow> lk x = lk' x) \<Longrightarrow> lseg lk h xs e = lseg lk' h xs e"
  by (induction xs arbitrary: h) auto

lemma lseg_upd [simp]: "p \<notin> set xs \<Longrightarrow> lseg (lk(p := l)) h xs e = lseg lk h xs e"
  by (rule lseg_cong) auto

text \<open>
  A list under construction with the pages \<open>L\<close>: the variable holds the first, the link to be written
  next is that of the last.
\<close>

definition building :: "(nat \<Rightarrow> nat option) \<Rightarrow> nat option \<Rightarrow> nat option \<Rightarrow> nat list \<Rightarrow> bool" where
  "building lk h t L \<longleftrightarrow>
     (if L = [] then t = None else t = Some (last L) \<and> lseg lk h (butlast L) (Some (last L)))"

lemma building_other: "building lk h t L \<Longrightarrow> q \<notin> set L \<Longrightarrow> building (lk(q := v)) h t L"
  by (cases L rule: rev_cases) (simp_all add: building_def)

lemma building_store:
  assumes "building lk h t L" "distinct L"
  shows "t = None \<Longrightarrow> L = []"
    and "t = Some q \<Longrightarrow> q \<in> set L \<and> lseg (lk(q := v)) h L v"
proof -
  show "t = None \<Longrightarrow> L = []" using assms(1) by (auto simp: building_def split: if_splits)
  show "t = Some q \<Longrightarrow> q \<in> set L \<and> lseg (lk(q := v)) h L v"
    using assms by (cases L rule: rev_cases) (auto simp: building_def lseg_append)
qed

text \<open>Both lists of the split, and the state around the links.\<close>

abbreviation links :: "kstate \<Rightarrow> nat \<Rightarrow> nat option" where
  "links s \<equiv> \<lambda>p. pp_link (pages s p)"

definition relinked :: "kstate \<Rightarrow> kstate \<Rightarrow> bool" where
  "relinked s s' \<longleftrightarrow> s' = s\<lparr>pages := pages s'\<rparr> \<and> (\<forall>p. pp_ref (pages s' p) = pp_ref (pages s p))"

lemma relinked_refl: "relinked s s"
  by (simp add: relinked_def)

lemma relinked_trans: "relinked s t \<Longrightarrow> relinked t u \<Longrightarrow> relinked s u"
  unfolding relinked_def by (cases s; cases t; cases u) simp

lemma relinked_link: "relinked s (set_pp_link p v s)"
  by (simp add: relinked_def set_pp_link_def)

lemma links_set [simp]: "links (set_pp_link p v s) = (links s)(p := v)"
  by (auto simp: set_pp_link_def fun_eq_iff)

definition is_high :: "u64 \<Rightarrow> nat \<Rightarrow> bool" where
  "is_high lim p \<longleftrightarrow> lim \<le> PDX (page2pa p)"

definition part :: "u64 \<Rightarrow> bool \<Rightarrow> nat list \<Rightarrow> nat list" where
  "part lim b xs = filter (\<lambda>p. is_high lim p = b) xs"

lemma split_step:
  assumes b: "\<And>b. building (links s) (heads b) (tails b) (part lim b ps)"
    and p: "p \<notin> set ps" "distinct ps" and t: "tp_store tails (is_high lim p) (Some p) heads s = (heads', s')"
  shows "building (links s') (heads' b) ((tails(is_high lim p := Some p)) b) (part lim b (ps @ [p]))"
    and "relinked s s'" and "q \<notin> set ps \<Longrightarrow> links s' q = links s q"
proof -
  let ?t = "is_high lim p"
  have d: "distinct (part lim b ps)" "set (part lim b ps) \<subseteq> set ps" for b
    using p(2) by (auto simp: part_def)
  have app: "part lim b (ps @ [p]) = part lim b ps @ (if b = ?t then [p] else [])" for b by (auto simp: part_def)
  show "building (links s') (heads' b) ((tails(?t := Some p)) b) (part lim b (ps @ [p]))"
  proof (cases "tails ?t")
    case None
    then show ?thesis
      using b [of b] building_store(1) [OF b d(1), of ?t] t by (auto simp: tp_store_def app building_def)
  next
    case (Some r)
    note r = building_store(2) [OF b d(1) Some]
    have "s' = set_pp_link r (Some p) s" "heads' = heads" using t Some by (simp_all add: tp_store_def)
    moreover have "r \<notin> set (part lim b ps)" if "b \<noteq> ?t" using r that by (auto simp: part_def)
    ultimately show ?thesis
      using b [of b] r building_other [of "links s" "heads b" "tails b" "part lim b ps" r "Some p"]
      by (auto simp: app building_def)
  qed
  show "relinked s s'" using t relinked_refl relinked_link by (auto simp: tp_store_def split: option.splits)
  show "links s' q = links s q" if "q \<notin> set ps"
  proof (cases "tails ?t")
    case (Some r)
    have "r \<in> set ps" using building_store(2) [OF b d(1) Some] d(2) by blast
    then show ?thesis using that t Some by (auto simp: tp_store_def set_pp_link_def)
  qed (use t in \<open>simp add: tp_store_def\<close>)
qed

lemma split_loop_run:
  assumes "chain (links s) h xs" "distinct (ps @ xs)"
    and "\<And>b. building (links s) (heads b) (tails b) (part lim b ps)"
  shows "\<exists>heads' tails' s'. split_loop lim h heads tails s = Some (heads', tails', s') \<and> relinked s s' \<and>
    (\<forall>b. building (links s') (heads' b) (tails' b) (part lim b (ps @ xs))) \<and>
    (\<forall>q. q \<notin> set (ps @ xs) \<longrightarrow> links s' q = links s q)"
  using assms
proof (induction xs arbitrary: h ps heads tails s)
  case Nil
  then show ?case using relinked_refl by (simp add: split_loop.simps)
next
  case (Cons x xs)
  obtain heads1 s1 where t: "tp_store tails (is_high lim x) (Some x) heads s = (heads1, s1)" by (cases "tp_store tails (is_high lim x) (Some x) heads s") 
  have x: "x \<notin> set ps" "distinct ps" using Cons.prems(2) by auto
  note step = split_step [OF Cons.prems(3) x t]
  have "links s1 q = links s q" if "q \<in> set (x # xs)" for q
    using step(3) that Cons.prems(2) by auto
  then have "chain (links s1) (links s1 x) xs" "h = Some x"
    using Cons.prems(1) chain_cong [of xs "links s1" "links s" "links s x"] by auto
  moreover have "distinct ((ps @ [x]) @ xs)" using Cons.prems(2) by simp
  ultimately obtain heads' tails' s' where r: "split_loop lim (links s1 x) heads1 (tails(is_high lim x := Some x)) s1 = Some (heads', tails', s')"
      "relinked s1 s'" "\<forall>b. building (links s') (heads' b) (tails' b) (part lim b ((ps @ [x]) @ xs))"
      "\<forall>q. q \<notin> set ((ps @ [x]) @ xs) \<longrightarrow> links s' q = links s1 q"
    using Cons.IH [OF _ _ step(1)] by blast
  have "split_loop lim h heads tails s = Some (heads', tails', s')"
    using r(1) t \<open>h = Some x\<close> by (simp add: split_loop.simps [of lim "Some x"] is_high_def)
  moreover have "\<forall>q. q \<notin> set (ps @ x # xs) \<longrightarrow> links s' q = links s q" using r(4) step(3) by auto
  ultimately show ?case using r(2,3) relinked_trans [OF step(2)] by auto
qed

text \<open>The split is a stable partition of the free list.\<close>

lemma split_free_list_run:
  assumes inv: "alloc_inv s fl"
  shows "\<exists>s'. split_free_list lim s = Inr ((), s') \<and>
    alloc_inv s' (part lim False fl @ part lim True fl) \<and>
    s' = s\<lparr>pages := pages s', page_free_list := page_free_list s'\<rparr> \<and>
    (\<forall>p. pp_ref (pages s' p) = pp_ref (pages s p))"
proof -
  have c: "chain (links s) (page_free_list s) fl" "distinct ([] @ fl)"
    using alloc_invD(1,3) [OF inv] by (simp_all add: freelist_def)
  have nil: "building (links s) None None (part lim b [])" for b by (simp add: building_def part_def)
  obtain heads tails s1 where r: "split_loop lim (page_free_list s) (\<lambda>_. None) (\<lambda>_. None) s = Some (heads, tails, s1)"
      "relinked s s1" "\<And>b. building (links s1) (heads b) (tails b) (part lim b fl)"
      "\<And>q. q \<notin> set fl \<Longrightarrow> links s1 q = links s q"
    using split_loop_run [OF c nil] by auto
  let ?L = "part lim False fl" and ?H = "part lim True fl"
  have d: "distinct (part lim b fl)" for b using c(2) by (simp add: part_def)
  have disj: "set ?L \<inter> set ?H = {}" by (auto simp: part_def)
  obtain h1 s2 where t1: "tp_store tails True None heads s1 = (h1, s2)" by fastforce
  obtain h2 s3 where t2: "tp_store tails False (h1 True) h1 s2 = (h2, s3)" by fastforce
  have H: "lseg (links s2) (h1 True) ?H None" "h1 False = heads False" "relinked s1 s2"
    using t1 building_store [OF r(3) d, of True] relinked_link relinked_refl
    by (auto simp: tp_store_def split: option.splits)
  have H': "links s2 q = links s1 q" if "q \<notin> set ?H" for q
    using t1 that building_store(2) [OF r(3) d, of True] by (auto simp: tp_store_def set_pp_link_def split: option.splits)
  have L2: "building (links s2) (heads False) (tails False) ?L"
  proof (cases "tails True")
    case (Some q)
    then have "q \<in> set ?H" using building_store(2) [OF r(3) d] by blast
    then have "q \<notin> set ?L" using disj by blast
    then show ?thesis
      using building_other [OF r(3), of q False None] t1 Some by (auto simp: tp_store_def)
  qed (use t1 r(3) [of False] in \<open>simp add: tp_store_def\<close>)
  have L: "lseg (links s3) (h2 False) (?L @ ?H) None" "relinked s2 s3" "\<And>q. q \<notin> set ?L \<Longrightarrow> links s3 q = links s2 q"
  proof -
    show "relinked s2 s3" using t2 relinked_link relinked_refl by (auto simp: tp_store_def split: option.splits)
    show "links s3 q = links s2 q" if "q \<notin> set ?L" for q
      using t2 that building_store(2) [OF L2 d] by (auto simp: tp_store_def set_pp_link_def split: option.splits)
    then have "lseg (links s3) (h1 True) ?H None" using H(1) disj by (subst lseg_cong [of _ _ "links s2"]) auto
    moreover have "lseg (links s3) (h2 False) ?L (h1 True)"
    proof (cases "tails False")
      case None
      then show ?thesis using t2 building_store(1) [OF L2 d] by (auto simp: tp_store_def)
    next
      case (Some q)
      then show ?thesis using t2 building_store(2) [OF L2 d Some, of "h1 True"] H(2) by (auto simp: tp_store_def)
    qed
    ultimately show "lseg (links s3) (h2 False) (?L @ ?H) None" by (auto simp: lseg_append)
  qed
  let ?s = "s3\<lparr>page_free_list := h2 False\<rparr>"
  have rel: "relinked s s3" using relinked_trans r(2) H(3) L(2) by blast
  have run: "split_free_list lim s = Inr ((), ?s)" by (simp add: split_free_list_def r(1) t1 t2)
  have np: "npages ?s = npages s" using rel unfolding relinked_def by (cases s; cases s3) simp
  have "set (?L @ ?H) = set fl" by (auto simp: part_def)
  moreover have "pp_link (pages s3 q) = None" if "q < npages s" "q \<notin> set fl" for q
    using that L(3) [of q] H' [of q] r(4) [of q] alloc_invD(6) [OF inv that] by (auto simp: part_def)
  ultimately have "alloc_inv ?s (?L @ ?H)"
    using L(1) alloc_invD(2,4,5) [OF inv] rel np
    by (simp add: alloc_inv_def freelist_def lseg_chain relinked_def)
  moreover have "?s = s\<lparr>pages := pages ?s, page_free_list := page_free_list ?s\<rparr>"
    using rel unfolding relinked_def by (cases s; cases s3) simp
  ultimately show ?thesis using run rel unfolding relinked_def by auto
qed

text \<open>The tests on one page.\<close>

lemma page2pa_eq: "p < 2 ^ 52 \<Longrightarrow> page2pa p = c \<longleftrightarrow> p * 4096 = unat c"
  by (metis unat_page2pa unsigned_word_eqI)

lemma page2pa_less: "p < 2 ^ 52 \<Longrightarrow> page2pa p < c \<longleftrightarrow> p * 4096 < unat c"
  by (simp add: word_less_nat_alt unat_page2pa)

lemma fixed_frames:
  "unat IOPHYSMEM = 160 * 4096" "unat (EXTPHYSMEM - PGSIZE) = 255 * 4096" "unat EXTPHYSMEM = 256 * 4096"
  "unat MPENTRY_PADDR = 7 * 4096" "unat (MPENTRY_PADDR div PGSIZE) = 7"
  by (simp_all add: mmu_defs)

lemma kva_page: "p < 2 ^ 32 \<Longrightarrow> unat (kva (p, 0)) = unat KERNBASE + p * 4096"
  by (simp add: kva_def KERNBASE_def unat_word_ariths unat_of_nat)

definition page_fine :: "u64 \<Rightarrow> nat \<Rightarrow> bool" where
  "page_fine first p \<longleftrightarrow> p \<noteq> 0 \<and> p \<noteq> 160 \<and> p \<noteq> 255 \<and> p \<noteq> 256 \<and> p \<noteq> 7 \<and>
     (p < 256 \<or> unat first \<le> unat KERNBASE + p * 4096)"

lemma check_free_page_ok:
  assumes "p < npages s" "npages s \<le> 2 ^ 32" "page_fine first p"
  shows "check_free_page first p s = Inr ((), s)"
proof -
  have p: "p < 2 ^ 52" "p < 2 ^ 32" using assms(1,2) by simp_all
  have "page2pa p \<noteq> 0" "page2pa p \<noteq> IOPHYSMEM" "page2pa p \<noteq> EXTPHYSMEM - PGSIZE" "page2pa p \<noteq> EXTPHYSMEM"
      "page2pa p \<noteq> MPENTRY_PADDR"
    unfolding page2pa_eq [OF p(1)] fixed_frames using assms(3) by (simp_all add: page_fine_def)
  moreover have "page2pa p < EXTPHYSMEM \<or> first \<le> kva (p, 0)"
    unfolding page2pa_less [OF p(1)] fixed_frames word_le_nat_alt kva_page [OF p(2)]
    using assms(3) by (auto simp: page_fine_def)
  ultimately show ?thesis
    using assms(1,2) by (auto simp: check_free_page_def page2kva_in_range)
qed

lemma boot_free_fine:
  assumes "boot_free base ((nf - KERNBASE) div PGSIZE) (MPENTRY_PADDR div PGSIZE) p" "base \<le> 160"
    "KERNBASE \<le> nf" "256 \<le> unat ((nf - KERNBASE) div PGSIZE)"
  shows "page_fine nf p"
proof -
  have k: "unat ((nf - KERNBASE) div PGSIZE) = (unat nf - unat KERNBASE) div 4096"
    using unat_sub [OF assms(3)] by (simp add: unat_div PGSIZE_def)
  have "unat KERNBASE \<le> unat nf" using assms(3) by (simp add: word_le_nat_alt)
  moreover have "(unat nf - unat KERNBASE) mod 4096 < 4096" by simp
  ultimately have "unat nf \<le> unat KERNBASE + p * 4096" if "(unat nf - unat KERNBASE) div 4096 < p"
    using that div_mult_mod_eq [of "unat nf - unat KERNBASE" 4096] by linarith
  then show ?thesis using assms(1,2,4) unfolding boot_free_def fixed_frames k page_fine_def by auto
qed

lemma count_free_run:
  assumes "chain (links s) h xs" "npages s \<le> 2 ^ 32" "\<forall>p \<in> set xs. p < npages s \<and> page_fine first p"
  shows "count_free first h n s = Some (Inr (n + of_nat (length (filter (\<lambda>p. 256 \<le> p) xs)), s))"
  using assms(1,3)
proof (induction xs arbitrary: h n)
  case Nil
  then show ?case by (simp add: count_free.simps)
next
  case (Cons x xs)
  then have x: "check_free_page first x s = Inr ((), s)" "h = Some x" "chain (links s) (links s x) xs"
    using assms(2) by (auto intro: check_free_page_ok)
  have "x < 2 ^ 52" using Cons.prems(2) assms(2) by auto
  then have "page2pa x < EXTPHYSMEM \<longleftrightarrow> \<not> 256 \<le> x" unfolding page2pa_less [OF \<open>x < 2 ^ 52\<close>] fixed_frames by auto
  then show ?case
    using Cons.IH [OF x(3)] Cons.prems(2) x(1,2) by (simp add: count_free.simps [of first "Some x"])
qed

lemma PDX_limit: "PDX va < 512"
  using index_less_512(3) [of va] by (simp add: word_less_nat_alt)

lemma count_positive:
  assumes "set xs \<subseteq> {..<n :: nat}" "distinct xs" "n \<le> 2 ^ 32" "\<exists>p \<in> set xs. P p"
  shows "(0 :: u64) < of_nat (length (filter P xs))"
proof -
  have "length (filter P xs) = card (set (filter P xs))" using distinct_card [OF distinct_filter [OF assms(2)]] by simp
  also have "\<dots> \<le> card {..<n}" using assms(1) by (intro card_mono) auto
  finally have "length (filter P xs) \<le> 2 ^ 32" using assms(3) by simp
  moreover have "length (filter P xs) \<noteq> 0" using assms(4) by (auto simp: filter_empty_conv)
  ultimately show ?thesis by (simp add: word_less_nat_alt unat_of_nat)
qed

lemma check_run:
  assumes "page_free_list s \<noteq> None" "lim = (if only_low then 1 else 512)"
    "(if only_low then split_free_list lim s else Inr ((), s)) = Inr ((), s1)"
    "for_free_list (\<lambda>pp s. if PDX (page2pa pp) < lim
       then bindK (page2kva pp s) (\<lambda>a s. Inr ((), memset_page a 0x97 128 s)) else Inr ((), s)) s1 = Inr ((), s2)"
    "boot_alloc 0 s2 = (first, s2)" "count_free first (page_free_list s2) 0 s2 = Some (Inr (n, s2))" "0 < n"
  shows "check_page_free_list only_low s = Inr ((), s2)"
  unfolding check_page_free_list_def Let_def assms(2) [symmetric] using assms(1,3-7) by auto

lemma one_le_iff: "(1 :: u64) \<le> x \<longleftrightarrow> x \<noteq> 0"
  using not_less [of x 1] by simp

text \<open>C6: the test of the free list. It accepts every list of pages that \<open>page_init\<close> may release, if
  base memory ends at 640K or below and a page above the kernel is free; with \<open>only_low_memory\<close> it
  moves the pages whose frame lies in the first two megabytes (of a gigabyte) to the front, keeping
  the order otherwise; it writes nothing but the first 128 bytes of free pages.\<close>

theorem check_page_free_list_passes:
  assumes "alloc_inv s fl" and "base \<le> 160" and "KERNBASE \<le> nextfree s"
    and "256 \<le> unat ((nextfree s - KERNBASE) div PGSIZE)"
    and "\<forall>p \<in> set fl. boot_free base ((nextfree s - KERNBASE) div PGSIZE) (MPENTRY_PADDR div PGSIZE) p"
    and "\<exists>p \<in> set fl. unat ((nextfree s - KERNBASE) div PGSIZE) < p"
  shows "\<exists>s'. check_page_free_list only_low s = Inr ((), s') \<and>
     alloc_inv s' (if only_low then filter (\<lambda>p. PDX (page2pa p) < 1) fl @ filter (\<lambda>p. \<not> PDX (page2pa p) < 1) fl else fl) \<and>
     (\<forall>p. pp_ref (pages s' p) = pp_ref (pages s p)) \<and>
     mem s' = (\<lambda>p i. if p \<in> set fl \<and> i < 16 \<and> (only_low \<longrightarrow> PDX (page2pa p) < 1) then byte_word 0x97 else mem s p i)"
proof -
  let ?lim = "if only_low then 1 else 512 :: u64"
  let ?fl = "if only_low then filter (\<lambda>p. PDX (page2pa p) < 1) fl @ filter (\<lambda>p. \<not> PDX (page2pa p) < 1) fl else fl"
  have set: "set ?fl = set fl" by auto
  have "page_free_list s \<noteq> None"
    using alloc_invD(1) [OF assms(1)] assms(6) by (cases fl) (auto simp: freelist_def)
  obtain s1 where s1: "(if only_low then split_free_list ?lim s else Inr ((), s)) = Inr ((), s1)"
      "alloc_inv s1 ?fl" "s1 = s\<lparr>pages := pages s1, page_free_list := page_free_list s1\<rparr>"
      "\<forall>p. pp_ref (pages s1 p) = pp_ref (pages s p)"
  proof (cases only_low)
    case True
    have "part 1 False fl = filter (\<lambda>p. PDX (page2pa p) < 1) fl" "part 1 True fl = filter (\<lambda>p. \<not> PDX (page2pa p) < 1) fl"
      by (simp_all add: part_def is_high_def one_le_iff)
    then show thesis using split_free_list_run [OF assms(1), of 1] True that by auto
  qed (use assms(1) that in simp)
  have same: "mem s1 = mem s" "nextfree s1 = nextfree s" "npages s1 = npages s"
    by (subst s1(3), simp)+
  let ?P = "\<lambda>p. PDX (page2pa p) < ?lim"
  let ?s2 = "fold (fill ?P 0x97 128) ?fl s1"
  note fill = fill_loop [OF s1(2), of "\<lambda>pp s. if PDX (page2pa pp) < ?lim
      then bindK (page2kva pp s) (\<lambda>a s. Inr ((), memset_page a 0x97 128 s)) else Inr ((), s)" ?P "0x97" 128, OF refl]
  note same2 = only_mem_fields [OF fill(2)]
  have inv2: "alloc_inv ?s2 ?fl" using only_mem_alloc_inv [OF fill(2)] s1(2) by simp
  have "nextfree s \<noteq> 0" using assms(3) by (auto simp: KERNBASE_def)
  then have boot: "boot_alloc 0 ?s2 = (nextfree s, ?s2)" using same2(4) same(2) by (simp add: boot_alloc_def)
  have "\<forall>p \<in> set ?fl. p < npages ?s2 \<and> page_fine (nextfree s) p"
    using alloc_invD(4) [OF inv2] boot_free_fine [OF _ assms(2-4)] assms(5) set by blast
  from count_free_run [OF _ alloc_invD(2) [OF inv2] this, of "page_free_list ?s2" 0]
  have count: "count_free (nextfree s) (page_free_list ?s2) 0 ?s2 =
      Some (Inr (of_nat (length (filter (\<lambda>p. 256 \<le> p) ?fl)), ?s2))"
    using alloc_invD(1) [OF inv2] by (simp add: freelist_def)
  have pos: "(0 :: u64) < of_nat (length (filter (\<lambda>p. 256 \<le> p) ?fl))"
  proof (rule count_positive [OF _ alloc_invD(3) [OF s1(2)]])
    show "set ?fl \<subseteq> {..<npages s}" using alloc_invD(4) [OF assms(1)] set by blast
    show "npages s \<le> 2 ^ 32" by (rule alloc_invD(2) [OF assms(1)])
    show "\<exists>p \<in> set ?fl. 256 \<le> p" unfolding set using assms(4,6) less_imp_le le_trans by blast
  qed
  have "check_page_free_list only_low s = Inr ((), ?s2)"
    by (rule check_run [OF \<open>page_free_list s \<noteq> None\<close> refl s1(1) fill(1) boot count pos])
  moreover have "mem ?s2 = (\<lambda>p i. if p \<in> set fl \<and> i < 16 \<and> (only_low \<longrightarrow> PDX (page2pa p) < 1) then byte_word 0x97 else mem s p i)"
    unfolding fill_mem set same(1) using PDX_limit by (auto simp: fun_eq_iff)
  moreover have "\<forall>p. pp_ref (pages ?s2 p) = pp_ref (pages s p)" using same2(1) s1(4) by simp
  ultimately show ?thesis using inv2 by blast
qed

theorem check_page_free_list_passes_witness:
  "\<exists>s'. check_page_free_list True
     (page_init ((bss_state 512 160 0)\<lparr>nextfree := KERNBASE + 0x110000\<rparr>)) = Inr ((), s')"
proof -
  let ?nf = "KERNBASE + 0x110000" and ?s = "(bss_state 512 160 0)\<lparr>nextfree := KERNBASE + 0x110000\<rparr>"
  have nf: "?nf \<noteq> 0" "KERNBASE \<le> ?nf" "(?nf - KERNBASE) div PGSIZE = 272" by (simp_all add: mmu_defs)
  then have boot: "boot_alloc 0 ?s = (?nf, ?s)" by (simp add: boot_alloc_def)
  have next1: "nextfree (page_init ?s) = ?nf" using page_init_only [of ?s] nf(1) by auto
  have inv: "alloc_inv (page_init ?s)
      (filter (boot_free 160 ((?nf - KERNBASE) div PGSIZE) (MPENTRY_PADDR div PGSIZE)) [0..<512])"
    using page_init_inv [of ?s] by (simp add: boot)
  have "300 \<in> set (filter (boot_free 160 ((?nf - KERNBASE) div PGSIZE) (MPENTRY_PADDR div PGSIZE)) [0..<512])"
    unfolding nf(3) boot_free_def fixed_frames by simp
  then have ex: "\<exists>p \<in> set (filter (boot_free 160 ((?nf - KERNBASE) div PGSIZE) (MPENTRY_PADDR div PGSIZE)) [0..<512]).
      unat ((?nf - KERNBASE) div PGSIZE) < p"
    by (rule bexI [rotated]) (simp add: PGSIZE_def)
  show ?thesis
    using check_page_free_list_passes [OF inv, of 160 True, unfolded next1, OF _ nf(2) _ _ ex] nf(3) by auto
qed

section \<open>check\_page\_alloc\<close>

abbreviation cell :: "nat option \<Rightarrow> PageInfo" where
  "cell l \<equiv> \<lparr>pp_link = l, pp_ref = 0\<rparr>"

lemma alloc_three_run:
  assumes "page_free_list s = Some a" "pages s a = cell (Some b)" "pages s b = cell (Some c)" "pages s c = cell h"
    and "distinct [a, b, c]"
  shows "alloc_three s = Inr ((a, b, c),
    s\<lparr>pages := (pages s)(a := cell None, b := cell None, c := cell None), page_free_list := h\<rparr>)"
  using assms
  by (simp add: alloc_three_def assert_alloc_def page_alloc_def set_page_free_list_def set_pp_link_def ALLOC_ZERO_def)

lemma free_three_run:
  assumes "pages s a = cell None" "pages s b = cell None" "pages s c = cell None" "distinct [a, b, c]"
  shows "bindK (page_free a s) (\<lambda>_ s. bindK (page_free b s) (\<lambda>_ s. bindK (page_free c s) k)) =
    k () (s\<lparr>pages := (pages s)(a := cell (page_free_list s), b := cell (Some a), c := cell (Some b)),
      page_free_list := Some c\<rparr>)"
  using assms by (simp add: page_free_def set_page_free_list_def set_pp_link_def)

lemma alloc_zero_run:
  assumes "page_free_list s = Some p" "pages s p = cell l" "npages s \<le> 2 ^ 32" "p < npages s"
  shows "assert_alloc ALLOC_ZERO s = Inr (p,
    s\<lparr>pages := (pages s)(p := cell None), page_free_list := l, mem := (mem s)(p := (\<lambda>_. 0))\<rparr>)"
  using assms
  by (simp add: assert_alloc_def page_alloc_def page2kva_in_range ALLOC_ZERO_def memset_page0_def
      set_page_free_list_def set_pp_link_def)

lemma check_alloc_pages:
  assumes "alloc_inv s fl" "\<forall>p \<in> set fl. p \<notin> {0, 160, 255, 256}"
  shows "for_free_list check_alloc_page s = Inr ((), s)"
proof -
  have "check_alloc_page p t = Inr ((), t) \<and> only_mem s t" if "p \<in> set fl" "only_mem s t" for p t
  proof -
    have p: "p < npages t" "p < 2 ^ 52"
      using alloc_invD(4) [OF assms(1) that(1)] page_number_bound [OF alloc_invD(2) [OF assms(1)]]
        only_mem_fields(3) [OF that(2)] by simp_all
    have "page2pa p \<noteq> 0" "page2pa p \<noteq> IOPHYSMEM" "page2pa p \<noteq> EXTPHYSMEM - PGSIZE" "page2pa p \<noteq> EXTPHYSMEM"
      unfolding page2pa_eq [OF p(2)] fixed_frames using assms(2) that(1) by auto
    then show ?thesis using p that(2) by (simp add: check_alloc_page_def)
  qed
  moreover have "fold (\<lambda>_ t. t) fl s = s" by (induction fl) simp_all
  ultimately show ?thesis
    using for_free_list_fold(1) [OF alloc_invD(1) [OF assms(1)], of check_alloc_page "\<lambda>_ t. t"] by simp
qed

text \<open>The part of the test that allocates, on a list that starts with the three pages.\<close>

lemma check_alloc_three:
  assumes l: "page_free_list s = Some a" "pages s a = cell (Some b)" "pages s b = cell (Some c)" "pages s c = cell h"
    and d: "distinct [a, b, c]" and np: "npages s \<le> 2 ^ 32" "a < npages s" "b < npages s" "c < npages s"
  defines "s0 \<equiv> s\<lparr>pages := (pages s)(a := cell None, b := cell None, c := cell None), page_free_list := None\<rparr>"
  shows "bindK (alloc_three (s0\<lparr>pages := (pages s0)(a := cell None, b := cell (Some a), c := cell (Some b)), page_free_list := Some c\<rparr>))
    (\<lambda>(pp0, pp1, pp2) s. bindK (assert_no_page s) (\<lambda>_ s. bindK (page2kva pp0 s) (\<lambda>a s.
            let s = memset_page a 1 4096 s
            in bindK (page_free pp0 s) (\<lambda>_ s.
               bindK (assert_alloc ALLOC_ZERO s) (\<lambda>pp s.
               bindK (assertK (pp0 = pp) s) (\<lambda>_ s.
               bindK (page2kva pp s) (\<lambda>c s.
               bindK (assertK (list_all (\<lambda>i. mem s (fst c) i = 0) [0..<512]) s) (\<lambda>_ s.
                 let s = set_page_free_list h s
                 in bindK (page_free pp0 s) (\<lambda>_ s.
                    bindK (page_free pp1 s) (\<lambda>_ s.
                    bindK (page_free pp2 s) k)))))))))) =
    k () (s\<lparr>mem := (mem s)(c := (\<lambda>_. 0))\<rparr>)"
proof -
  let ?s1 = "s0\<lparr>pages := (pages s0)(a := cell None, b := cell (Some a), c := cell (Some b)), page_free_list := Some c\<rparr>"
  have none: "assert_no_page s0 = Inr ((), s0)" by (simp add: assert_no_page_def page_alloc_def s0_def)
  have cells: "pages s0 a = cell None" "pages s0 b = cell None" "pages s0 c = cell None" "page_free_list s0 = None"
      "npages s0 = npages s"
    using d by (simp_all add: s0_def)
  have three: "alloc_three ?s1 = Inr ((c, b, a), s0)"
  proof -
    have "alloc_three ?s1 = Inr ((c, b, a), ?s1\<lparr>pages := (pages ?s1)(c := cell None, b := cell None, a := cell None),
        page_free_list := None\<rparr>)"
      using d cells by (intro alloc_three_run) simp_all
    moreover have "(pages ?s1)(c := cell None, b := cell None, a := cell None) = pages s0"
      using d cells(1-3) by (simp add: fun_eq_iff)
    ultimately show ?thesis using cells(4) by (cases s0) simp
  qed
  let ?s2 = "memset_page (c, 0) 1 4096 s0"
  let ?s3 = "?s2\<lparr>page_free_list := Some c\<rparr>"
  have free: "page_free c ?s2 = Inr ((), ?s3)"
  proof -
    have "page_free c ?s2 = Inr ((), ?s2\<lparr>pages := (pages s0)(c := cell None), page_free_list := Some c\<rparr>)"
      using cells by (simp add: page_free_def set_page_free_list_def set_pp_link_def memset_page_def)
    moreover have "(pages s0)(c := cell None) = pages s0" using cells(3) by (simp add: fun_upd_idem)
    ultimately show ?thesis by (cases s0) (simp add: memset_page_def)
  qed
  let ?s4 = "s0\<lparr>mem := (mem s)(c := (\<lambda>_. 0))\<rparr>"
  have alloc: "assert_alloc ALLOC_ZERO ?s3 = Inr (c, ?s4)"
  proof -
    have "assert_alloc ALLOC_ZERO ?s3 = Inr (c, ?s3\<lparr>pages := (pages ?s3)(c := cell None), page_free_list := None,
        mem := (mem ?s3)(c := (\<lambda>_. 0))\<rparr>)"
      using np cells by (intro alloc_zero_run) (simp_all add: memset_page_def)
    moreover have "?s3\<lparr>pages := (pages ?s3)(c := cell None), page_free_list := None,
        mem := (mem ?s3)(c := (\<lambda>_. 0))\<rparr> = ?s4"
    proof (rule kstate.equality)
      have "mem s0 = mem s" by (simp add: s0_def)
      then show "mem (?s3\<lparr>pages := (pages ?s3)(c := cell None), page_free_list := None,
          mem := (mem ?s3)(c := (\<lambda>_. 0))\<rparr>) = mem ?s4" by (simp add: memset_page_def)
    qed (use cells in \<open>simp_all add: memset_page_def fun_upd_idem\<close>)
    ultimately show ?thesis by simp
  qed
  have kva: "page2kva c ?s4 = Inr ((c, 0), ?s4)" "page2kva c s0 = Inr ((c, 0), s0)"
    using np by (simp_all add: page2kva_in_range s0_def)
  let ?s5 = "set_page_free_list h ?s4"
  have five: "pages ?s5 c = cell None" "pages ?s5 b = cell None" "pages ?s5 a = cell None" "page_free_list ?s5 = h"
    using cells by (simp_all add: set_page_free_list_def)
  have end_state: "?s5\<lparr>pages := (pages ?s5)(c := cell h, b := cell (Some c), a := cell (Some b)), page_free_list := Some a\<rparr> =
      s\<lparr>mem := (mem s)(c := (\<lambda>_. 0))\<rparr>"
  proof -
    have "(pages ?s5)(c := cell h, b := cell (Some c), a := cell (Some b)) = pages s"
      using l d by (auto simp: fun_eq_iff s0_def set_page_free_list_def)
    then show ?thesis using l(1) by (simp add: s0_def set_page_free_list_def)
  qed
  show ?thesis
    using d free_three_run [OF five(1-3), of k] five(4) end_state
    by (simp add: three none kva free alloc list_all_iff)
qed

text \<open>C7: the test of the allocator. With three free pages and none of the reserved frames on the
  list it passes, and it returns every page it took: free list, links and counts are exactly the old
  ones. Free frames are filled with \<open>0x97\<close> bytes, except the one that was allocated zeroed.\<close>

theorem check_page_alloc_restores:
  assumes "alloc_inv s (a # b # c # fl)" and "\<forall>p \<in> set (a # b # c # fl). p \<notin> {0, 160, 255, 256}"
  shows "\<exists>s'. check_page_alloc s = Inr ((), s') \<and> alloc_inv s' (a # b # c # fl) \<and>
     pages s' = pages s \<and> page_free_list s' = page_free_list s \<and>
     mem s' = (\<lambda>p i. if p = c then 0 else if p \<in> set (a # b # c # fl) \<and> i < 512 then byte_word 0x97 else mem s p i)"
proof -
  let ?fl = "a # b # c # fl"
  define s1 where "s1 = fold (fill (\<lambda>_. True) 0x97 4096) ?fl s"
  note fill = fill_loop [OF assms(1), of "\<lambda>pp s. bindK (page2kva pp s) (\<lambda>a s. Inr ((), memset_page a 0x97 4096 s))"
      "\<lambda>_. True" "0x97" 4096, simplified if_True, OF refl, folded s1_def]
  note same = only_mem_fields [OF fill(2)]
  have inv: "alloc_inv s1 ?fl" using only_mem_alloc_inv [OF fill(2)] assms(1) by simp
  have ch: "page_free_list s1 = Some a" "links s1 a = Some b" "links s1 b = Some c"
    using alloc_invD(1) [OF inv] by (simp_all add: freelist_def)
  have ref: "pp_ref (pages s1 p) = 0" if "p \<in> set ?fl" for p using alloc_invD(5) [OF inv that] .
  define h where "h = links s1 c"
  have cells: "pages s1 a = cell (Some b)" "pages s1 b = cell (Some c)" "pages s1 c = cell h"
    using ch(2,3) ref [of a] ref [of b] ref [of c] by (simp_all add: h_def)
  have d: "distinct [a, b, c]" using alloc_invD(3) [OF inv] by simp
  have np: "npages s1 \<le> 2 ^ 32" "a < npages s1" "b < npages s1" "c < npages s1"
    using alloc_invD(2,4) [OF inv] by simp_all
  let ?s0 = "s1\<lparr>pages := (pages s1)(a := cell None, b := cell None, c := cell None), page_free_list := None\<rparr>"
  have three: "alloc_three s1 = Inr ((a, b, c), s1\<lparr>pages := (pages s1)(a := cell None, b := cell None, c := cell None),
      page_free_list := h\<rparr>)"
    by (rule alloc_three_run [OF ch(1) cells d])
  have lt: "page2pa p < of_nat (npages s1) * PGSIZE" if "p < npages s1" for p
  proof -
    have "unat (of_nat (npages s1) * PGSIZE) = npages s1 * 4096"
      using np(1) by (simp add: unat_word_ariths unat_of_nat PGSIZE_def)
    moreover have "p < 2 ^ 52" using page_number_bound(2) [OF np(1) that] .
    ultimately show ?thesis using that by (simp add: page2pa_less)
  qed
  have none: "assert_no_page ?s0 = Inr ((), ?s0)" by (simp add: assert_no_page_def page_alloc_def)
  have chk: "for_free_list check_alloc_page s1 = Inr ((), s1)" by (rule check_alloc_pages [OF inv assms(2)])
  have free: "bindK (page_free a ?s0) (\<lambda>_ s. bindK (page_free b s) (\<lambda>_ s. bindK (page_free c s) k)) =
      k () (?s0\<lparr>pages := (pages ?s0)(a := cell None, b := cell (Some a), c := cell (Some b)), page_free_list := Some c\<rparr>)" for k
    using d by (subst free_three_run) simp_all
  let ?s2 = "s1\<lparr>mem := (mem s1)(c := (\<lambda>_. 0))\<rparr>"
  have set0: "set_page_free_list None (s1\<lparr>pages := q, page_free_list := h\<rparr>) = s1\<lparr>pages := q, page_free_list := None\<rparr>"
      "npages (s1\<lparr>pages := q, page_free_list := h\<rparr>) = npages s1" "page_free_list (s1\<lparr>pages := q, page_free_list := h\<rparr>) = h" for q
    by (simp_all add: set_page_free_list_def)
  have "check_page_alloc s = Inr ((), cprintf ''check_page_alloc() succeeded!'' [] ?s2)"
    unfolding check_page_alloc_def fill(1) bindK_simps chk three Let_def
    using np by (simp only: prod.case bindK_simps lt assertK_simps set0 none free
        check_alloc_three [OF ch(1) cells d np, unfolded Let_def])
  moreover have "mem ?s2 = (\<lambda>p i. if p = c then 0 else if p \<in> set ?fl \<and> i < 512 then byte_word 0x97 else mem s p i)"
  proof -
    have "mem s1 = (\<lambda>p i. if p \<in> set ?fl \<and> True \<and> i < 4096 div 8 then byte_word 0x97 else mem s p i)"
      unfolding s1_def by (rule fill_mem)
    then show ?thesis by (auto simp: fun_eq_iff)
  qed
  moreover have "alloc_inv (cprintf f xs ?s2) ?fl" for f xs
    using inv alloc_inv_cong [of "cprintf f xs ?s2" s1] by (simp add: cprintf_def)
  ultimately show ?thesis using same(1,2) by (simp add: cprintf_def)
qed

definition three_free :: kstate where
  "three_free = (bss_state 4 0 0)\<lparr>page_free_list := Some 1,
     pages := (\<lambda>_. cell None)(1 := cell (Some 2), 2 := cell (Some 3))\<rparr>"

theorem check_page_alloc_restores_witness:
  "\<exists>s'. check_page_alloc three_free = Inr ((), s') \<and> alloc_inv s' [1, 2, 3]"
proof -
  have "alloc_inv three_free [1, 2, 3]" by (simp add: three_free_def alloc_inv_def freelist_def)
  from check_page_alloc_restores [OF this] show ?thesis by auto
qed

section \<open>The end of page\_check\<close>

text \<open>A creating walk writes to tables below the root, to new tables and to one entry of the root.\<close>

lemma zero_alloc_cases:
  assumes "alloc_inv s fl" "page_alloc ALLOC_ZERO s = Inr (v, s')"
  obtains "v = None" "s' = s" | x ys where "fl = x # ys" "v = Some x" "s' = taken True x s"
  using assms page_alloc_empty [where fl = ALLOC_ZERO] page_alloc_cons [where fl = ALLOC_ZERO]
  by (cases fl) (auto simp: ALLOC_ZERO_def)

lemma KADDR_frame: "KADDR pa s = Inr (a, s') \<Longrightarrow> s' = s \<and> fst a = unat (PPN pa)"
  by (auto simp: KADDR_def Let_def panic_def split: if_splits)

lemma alloc_inv_hung:
  assumes "alloc_inv s (x # ys)"
  shows "alloc_inv (st a v (incref x (taken True x s))) ys"
  using alloc_inv_taken(1) [OF assms, of True] alloc_inv_taken(2) [OF assms] by (simp add: incref_def alloc_inv_set_pp_ref)

lemma mem_incref [simp]: "mem (incref x s) = mem s"
  by (simp add: kstate_defs)

lemma unat_PPN_PTE_ADDR: "unat (PPN (PTE_ADDR e)) = unat (PPN e)"
  using unat_PPN [of "PTE_ADDR e"] unat_PTE_ADDR [of e] by simp

lemma PPN_new: "alloc_inv s (x # ys) \<Longrightarrow> unat (PPN (PTE_ADDR (table_entry (page2pa x)))) = x"
  using alloc_invD(2) [of s "x # ys"] alloc_invD(4) [of s "x # ys" x]
  by (simp add: unat_PPN_PTE_ADDR unat_PPN_page2pa)

lemma KADDR_bind: "bindK (KADDR (PTE_ADDR e) s) g = Inr w \<Longrightarrow> g (unat (PPN (PTE_ADDR e)), 0) s = Inr w"
  by (auto simp: KADDR_def Let_def panic_def unat_PGOFF unat_PTE_ADDR split: if_splits)

lemma pgdir_walk_frame:
  assumes "alloc_inv s fl" "f \<notin> set fl" "f \<noteq> p" "pgdir_walk (p, 0) va True s = Inr (v, s')"
  shows "mem s' f = mem s f"
proof (cases "mem s p (unat (PDX va)) AND PTE_P = 0")
  case False
  with assms(4) show ?thesis by (auto simp: pgdir_walk_def bindK_Inr_iff dest!: KADDR_frame)
next
  case True
  then obtain pg s1 where a: "page_alloc ALLOC_ZERO s = Inr (pg, s1)"
    using assms(4) by (auto simp: pgdir_walk_def bindK_Inr_iff)
  from zero_alloc_cases [OF assms(1) a] show ?thesis
  proof cases
    case 1
    with assms(4) a True show ?thesis by (simp add: pgdir_walk_def)
  next
    case (2 x ys)
    with assms a True show ?thesis
      by (auto simp: pgdir_walk_def bindK_Inr_iff st_def dest!: KADDR_frame)
  qed
qed

lemma pdpe_walk_frame:
  assumes "alloc_inv s fl" "f \<notin> set fl" "f \<noteq> p" "nxt s p (unat (PDPE va)) \<noteq> Some f"
    "pdpe_walk (p, 0) va True s = Inr (v, s')"
  shows "mem s' f = mem s f"
proof (cases "mem s p (unat (PDPE va)) AND PTE_P = 0")
  case False
  let ?e = "table_entry (mem s p (unat (PDPE va)))"
  have q: "unat (PPN (PTE_ADDR ?e)) \<noteq> f" using assms(4) False by (auto simp: nxt_def PTE_P_clear unat_PPN_PTE_ADDR)
  have "pgdir_walk (unat (PPN (PTE_ADDR ?e)), 0) va True (st (p, unat (PDPE va)) ?e s) = Inr (v, s')"
    using assms(5) False by (auto simp: pdpe_walk_def Let_def dest!: KADDR_bind)
  moreover have "alloc_inv (st (p, unat (PDPE va)) ?e s) fl" using assms(1) by simp
  ultimately have "mem s' f = mem (st (p, unat (PDPE va)) ?e s) f"
    using pgdir_walk_frame [of "st (p, unat (PDPE va)) ?e s" fl f "unat (PPN (PTE_ADDR ?e))" va v s'] assms(2) q by blast
  then show ?thesis using assms(3) by (simp add: st_def)
next
  case True
  then obtain pg s1 where a: "page_alloc ALLOC_ZERO s = Inr (pg, s1)"
    using assms(5) by (auto simp: pdpe_walk_def bindK_Inr_iff)
  from zero_alloc_cases [OF assms(1) a] show ?thesis
  proof cases
    case 1
    with assms(5) a True show ?thesis by (simp add: pdpe_walk_def)
  next
    case (2 x ys)
    let ?s = "st (p, unat (PDPE va)) (table_entry (page2pa x)) (incref x (taken True x s))"
    have inv: "alloc_inv s (x # ys)" using assms(1) 2 by simp
    have "pgdir_walk (unat (PPN (PTE_ADDR (table_entry (page2pa x)))), 0) va True ?s = Inr (v, s')"
      using assms(5) a True 2 by (auto simp: pdpe_walk_def Let_def dest!: KADDR_bind)
    then have "pgdir_walk (x, 0) va True ?s = Inr (v, s')" unfolding PPN_new [OF inv] .
    moreover have "alloc_inv ?s ys" by (rule alloc_inv_hung [OF inv])
    ultimately have "mem s' f = mem ?s f" using pgdir_walk_frame [of ?s ys f x va v s'] assms(2) 2 by auto
    then show ?thesis using assms(2,3) 2 by (auto simp: st_def)
  qed
qed

lemma pml4e_walk_root:
  assumes wf: "pt_wf sl ow s fl" and r: "ow r = Some (r, [])" "unat (PML4 va) \<in> sl r"
    and i: "i \<noteq> unat (PML4 va)" and w: "pml4e_walk (r, 0) va True s = Inr (v, s')"
  shows "mem s' r i = mem s r i"
proof -
  note inv = pt_wfD(1) [OF wf] and out = pt_wfD(3) [OF wf r(1)]
  have ok: "slot_ok sl r [] (unat (PML4 va))" using r(2) by (simp add: slot_ok_def)
  show ?thesis
  proof (cases "mem s r (unat (PML4 va)) AND PTE_P = 0")
    case False
    then obtain q where q: "nxt s r (unat (PML4 va)) = Some q" "q = unat (PPN (mem s r (unat (PML4 va))))"
      by (auto simp: nxt_def PTE_P_clear)
    note own = pt_wfD(5) [OF wf r(1) ok q(1)]
    have "pdpe_walk (q, 0) va True s = Inr (v, s')"
      using w False q(2) by (auto simp: pml4e_walk_def Let_def unat_PPN_PTE_ADDR dest!: KADDR_bind)
    moreover have "r \<noteq> q" using own r(1) by auto
    moreover have "nxt s q (unat (PDPE va)) \<noteq> Some r"
      using pt_wfD(5) [OF wf own, of "unat (PDPE va)" r] r(1) by (auto simp: slot_ok_def)
    ultimately show ?thesis using pdpe_walk_frame [OF inv out] by metis
  next
    case True
    then obtain pg s1 where a: "page_alloc ALLOC_ZERO s = Inr (pg, s1)"
      using w by (auto simp: pml4e_walk_def bindK_Inr_iff)
    from zero_alloc_cases [OF inv a] show ?thesis
    proof cases
      case 1
      with w a True show ?thesis by (simp add: pml4e_walk_def)
    next
      case (2 x ys)
      let ?s = "st (r, unat (PML4 va)) (table_entry (page2pa x)) (incref x (taken True x s))"
      have inv': "alloc_inv s (x # ys)" "x \<noteq> r" "r \<notin> set ys" using inv out 2 by auto
      have "pdpe_walk (unat (PPN (PTE_ADDR (table_entry (page2pa x)))), 0) va True ?s = Inr (v, s')"
        using w a True 2 by (auto simp: pml4e_walk_def Let_def dest!: KADDR_bind)
      then have "pdpe_walk (x, 0) va True ?s = Inr (v, s')" unfolding PPN_new [OF inv'(1)] .
      moreover have "alloc_inv ?s ys" by (rule alloc_inv_hung [OF inv'(1)])
      moreover have "nxt ?s x (unat (PDPE va)) = None" using inv'(2) by (simp add: nxt_def st_def)
      ultimately have "mem s' r = mem ?s r" using pdpe_walk_frame [of ?s ys r x va v s'] inv'(2,3) by auto
      then show ?thesis using inv'(2) i by (simp add: st_def)
    qed
  qed
qed

lemma boot_map_loop_root:
  assumes "pt_wf sl ow s fl" "ow r = Some (r, [])" "\<forall>i < n. unat (PML4 (nth_page la i)) \<in> sl r"
    and "\<forall>i < n. unat (PML4 (nth_page la i)) \<noteq> j"
    and "boot_map_loop n (r, 0) la pa perm s = Inr ((), s')"
  shows "mem s' r j = mem s r j"
  using assms
proof (induction n arbitrary: s ow fl la pa)
  case (Suc n)
  let ?e = "pa OR scast perm OR PTE_P"
  have e: "bit ?e 0" by (simp add: bit_simps PTE_P_def)
  have r: "root_ok sl ow r la" using Suc.prems(2,3) by (auto simp: root_ok_def)
  from boot_map_step [OF Suc.prems(1) r e] show ?case
  proof (elim disjE exE conjE)
    fix s1 assume "pml4e_walk (r, 0) la True s = Inr (None, s1)"
    with Suc.prems(5) show ?thesis by simp
  next
    fix t s1 ow1 fl1 assume w: "pml4e_walk (r, 0) la True s = Inr (Some (t, unat (PTX la)), s1)"
    let ?s1 = "st (t, unat (PTX la)) ?e s1"
    assume "let s' = ?s1 in
        pt_wf sl ow1 s' fl1 \<and> ow \<subseteq>\<^sub>m ow1 \<and> length fl \<le> length fl1 + walk_cost s r la \<and> set fl1 \<subseteq> set fl \<and>
        mapping s' r la = Some ?e \<and> others_kept sl ow s r la s' \<and> refs_kept fl s s' \<and> only_mm s s' \<and>
        walk s' r (tbl_idx la) = Some t"
    then have one: "pt_wf sl ow1 ?s1 fl1" "ow \<subseteq>\<^sub>m ow1" "walk ?s1 r (tbl_idx la) = Some t"
      unfolding Let_def by blast+
    have r1: "ow1 r = Some (r, [])" using one(2) Suc.prems(2) by (metis domI map_le_def)
    have "t \<noteq> r"
      using root_walk_owner [OF one(1) _ one(3)] r r1 by (auto simp: root_ok_def tbl_idx_def)
    moreover have "mem s1 r j = mem s r j"
      using pml4e_walk_root [OF Suc.prems(1,2) _ _ w, of j] Suc.prems(3,4) r by (force simp: root_ok_def)
    moreover have "mem s' r j = mem ?s1 r j"
    proof (rule Suc.IH [OF one(1) r1])
      show "boot_map_loop n (r, 0) (la + PGSIZE) (pa + PGSIZE) perm ?s1 = Inr ((), s')"
        using Suc.prems(5) w by simp
    qed (use Suc.prems(3,4) in \<open>simp_all add: nth_page_Suc\<close>)
    ultimately show ?thesis by (simp add: st_def)
  qed
qed simp

text \<open>One reservation of \<open>page_check\<close>.\<close>

lemma mmio_step:
  assumes wf: "pt_wf sl ow s fl" and r: "boot_pml4e s = (r, 0)" "ow r = Some (r, [])" "1 \<in> sl r"
    and b: "mmio_base s = base" "unat base div 2 ^ 39 = 1" "unat base + n * 4096 \<le> 2 ^ 40" "base + rsz \<le> MMIOLIM"
    and sz: "ROUNDUP sz PGSIZE = rsz" "unat (rsz div PGSIZE) = n" and fl: "3 * pt_blocks base n \<le> length fl"
  shows "\<exists>ow' fl' s'. mmio_map_region 0 sz s = Inr (base, s') \<and> mmio_base s' = base + rsz \<and>
     pt_wf sl ow' s' fl' \<and> ow' r = Some (r, []) \<and> boot_pml4e s' = (r, 0) \<and>
     length fl \<le> length fl' + 3 * pt_blocks base n \<and> mem s' r 0 = mem s r 0 \<and>
     region_mapped n r base 0 (ucast (PTE_PCD OR PTE_PWT OR PTE_W)) s' \<and> outside_kept sl ow n r base s s'"
proof -
  let ?perm = "ucast (PTE_PCD OR PTE_PWT OR PTE_W) :: u32"
  have va: "kernel_va base" using b(2) by (simp add: kernel_va_def)
  have pml: "\<forall>i < n. unat (PML4 (nth_page base i)) = 1"
    using in_kernel_half(2) [OF va b(3)] kernel_va_PML4 by blast
  obtain s1 where s1: "boot_map_loop n (r, 0) base 0 ?perm s = Inr ((), s1)"
      "region_done (3 * pt_blocks base n) sl ow fl n r base 0 ?perm s s1"
    using boot_map_region_lemma [OF wf r(2), of n base 0 ?perm] pml r(3) b(3) fl by force
  obtain ow' fl' where w: "pt_wf sl ow' s1 fl'" "ow \<subseteq>\<^sub>m ow'" "length fl \<le> length fl' + 3 * pt_blocks base n"
      and m: "region_mapped n r base 0 ?perm s1" "outside_kept sl ow n r base s s1" "only_mm s s1"
    using s1(2) unfolding region_done_def by blast
  let ?s = "s1\<lparr>mmio_base := base + rsz\<rparr>"
  have cong: "mapping ?s = mapping s1" "pt_wf sl ow' ?s fl' = pt_wf sl ow' s1 fl'"
    by (rule mapping_cong pt_wf_cong; simp)+
  have "mmio_base s1 = base" "boot_pml4e s1 = (r, 0)" using only_mm_fields(5,9) [OF m(3)] b(1) r(1) by simp_all
  moreover have "ROUNDDOWN 0 PGSIZE = 0" by (simp add: ROUNDDOWN_def)
  ultimately have "mmio_map_region 0 sz s = Inr (base, ?s)"
    using s1(1) b(1,4) r(1) sz by (auto simp: mmio_map_region_def Let_def boot_map_region_def)
  moreover have "mem s1 r 0 = mem s r 0"
    using boot_map_loop_root [OF wf r(2) _ _ s1(1), of 0] pml r(3) by simp
  moreover have "ow' r = Some (r, [])" using w(2) r(2) by (metis domI map_le_def)
  ultimately show ?thesis using w m(1,2) \<open>boot_pml4e s1 = (r, 0)\<close>
    by (intro exI [of _ ow'] exI [of _ fl'] exI [of _ ?s]) (simp add: region_mapped_def outside_kept_def cong)
qed

text \<open>C8: a defect of the self test. \<open>page_check\<close> leaves entry 0 of the top-level table empty and then
  looks at the mappings of its MMIO reservations through \<open>*pml4e_walk(boot_pml4e, mm1, 0)\<close>. All the
  assertions before that pass, but the walk returns \<open>NULL\<close> because of the empty entry 0, and the test
  reads, and later clears, the word at address 0.\<close>

theorem page_check_reads_null:
  assumes wf: "pt_wf sl ow s fl" and r: "boot_pml4e s = (r, 0)" "ow r = Some (r, [])" "1 \<in> sl r"
    and s: "mmio_base s = MMIOBASE" "mem s r 0 = 0" "6 \<le> length fl" "mapping s r (MMIOBASE + 0x3000) = None"
  shows "\<exists>s'. page_check_mmio s = Inl (NullDeref, s')"
proof -
  let ?perm = "ucast (PTE_PCD OR PTE_PWT OR PTE_W) :: u32"
  have sizes: "ROUNDUP 4097 PGSIZE = 0x2000" "ROUNDUP 4096 PGSIZE = 0x1000" "unat (0x2000 div PGSIZE) = 2"
      "unat (0x1000 div PGSIZE) = 1"
    by (simp_all add: ROUNDUP_def ROUNDDOWN_def PGSIZE_def)
  have bases: "unat MMIOBASE div 2 ^ 39 = 1" "unat MMIOBASE + 2 * 4096 \<le> 2 ^ 40" "MMIOBASE + 0x2000 \<le> MMIOLIM"
      "unat (MMIOBASE + 0x2000) div 2 ^ 39 = 1" "unat (MMIOBASE + 0x2000) + 1 * 4096 \<le> 2 ^ 40"
      "MMIOBASE + 0x2000 + 0x1000 \<le> MMIOLIM" "pt_blocks MMIOBASE 2 = 1" "pt_blocks (MMIOBASE + 0x2000) 1 = 1"
    by (simp_all add: mmu_defs pt_blocks_def)
  from mmio_step [OF wf r s(1) bases(1-3) sizes(1,3)] s(3) bases(7)
  obtain ow1 fl1 s1 where s1: "mmio_map_region 0 4097 s = Inr (MMIOBASE, s1)" "mmio_base s1 = MMIOBASE + 0x2000"
      "pt_wf sl ow1 s1 fl1" "boot_pml4e s1 = (r, 0)" "ow1 r = Some (r, [])" "mem s1 r 0 = mem s r 0"
      "region_mapped 2 r MMIOBASE 0 ?perm s1" "outside_kept sl ow 2 r MMIOBASE s s1" "length fl \<le> length fl1 + 3"
    by auto
  from mmio_step [OF s1(3-5) r(3) s1(2) bases(4-6) sizes(2,4)] s(3) s1(9) bases(8)
  obtain ow2 fl2 s2 where s2: "mmio_map_region 0 4096 s1 = Inr (MMIOBASE + 0x2000, s2)"
      "pt_wf sl ow2 s2 fl2" "boot_pml4e s2 = (r, 0)" "ow2 r = Some (r, [])" "mem s2 r 0 = mem s1 r 0"
      "region_mapped 1 r (MMIOBASE + 0x2000) 0 ?perm s2" "outside_kept sl ow1 1 r (MMIOBASE + 0x2000) s1 s2"
    by auto
  have ok: "root_ok sl o' r va" if "o' r = Some (r, [])" "va \<in> {MMIOBASE, MMIOBASE + 0x1000, MMIOBASE + 0x2000, MMIOBASE + 0x3000}" for o' va
    using that r(3) by (auto simp: root_ok_def unat_PML4 mmu_defs)
  have apart: "pidx (MMIOBASE + 0x3000) \<noteq> pidx MMIOBASE" "pidx (MMIOBASE + 0x3000) \<noteq> pidx (MMIOBASE + 0x1000)"
      "pidx (MMIOBASE + 0x3000) \<noteq> pidx (MMIOBASE + 0x2000)" "pidx MMIOBASE \<noteq> pidx (MMIOBASE + 0x2000)"
      "pidx (MMIOBASE + 0x1000) \<noteq> pidx (MMIOBASE + 0x2000)"
    by (simp_all add: pidx_def tbl_idx_def unat_PTX mmu_defs)
  have two: "(\<forall>i < 2. P i) \<longleftrightarrow> P 0 \<and> P 1" for P :: "nat \<Rightarrow> bool" by (auto simp: less_2_cases_iff)
  have nth1: "nth_page MMIOBASE 1 = MMIOBASE + 0x1000" "nth_page 0 1 = 0x1000" by (simp_all add: nth_page_def PGSIZE_def)
  have m1: "mapping s1 r MMIOBASE = Some (0 OR scast ?perm OR PTE_P)" "mapping s1 r (MMIOBASE + 0x1000) = Some (0x1000 OR scast ?perm OR PTE_P)"
    using s1(7) by (simp_all add: region_mapped_def two nth1 [simplified])
  have "mapping s1 r (MMIOBASE + 0x3000) = None"
    using s1(8) ok [of ow, OF r(2)] apart(1,2) s(4) by (simp add: outside_kept_def two nth1 [simplified])
  then have m2: "mapping s2 r MMIOBASE = Some (0 OR scast ?perm OR PTE_P)" "mapping s2 r (MMIOBASE + 0x1000) = Some (0x1000 OR scast ?perm OR PTE_P)"
      "mapping s2 r (MMIOBASE + 0x3000) = None"
    using s2(7) ok [of ow1, OF s1(5)] apart(3-5) m1 by (simp_all add: outside_kept_def)
  have m3: "mapping s2 r (MMIOBASE + 0x2000) = Some (0 OR scast ?perm OR PTE_P)"
    using s2(6) by (simp add: region_mapped_def)
  have look: "assert_va2pa va pa s2 = assertK ((case mapping s2 r va of None \<Rightarrow> NOT 0 | Some e \<Rightarrow> PTE_ADDR e) = pa) s2"
    if "va \<in> {MMIOBASE, MMIOBASE + 0x1000, MMIOBASE + 0x2000, MMIOBASE + 0x3000}" for va pa
    using check_va2pa_mapping [OF s2(2) ok [of ow2, OF s2(4) that]] s2(3) by (simp add: assert_va2pa_def)
  have addr: "PTE_ADDR (0 OR scast ?perm OR PTE_P) = 0" "PTE_ADDR (0x1000 OR scast ?perm OR PTE_P) = 0x1000"
    by (simp_all add: PTE_ADDR_def mmu_defs)
  have "walk_ld MMIOBASE s2 = Inl (NullDeref, s2)"
    using s2(3,5) s1(6) s(2) by (simp add: walk_ld_def walk_ptr_def pml4e_walk_def)
  moreover have "MMIOBASE \<le> MMIOBASE" "MMIOBASE + 8096 < MMIOLIM" "MMIOBASE \<le> MMIOBASE + 0x2000" "MMIOBASE + 0x2000 + 8096 < MMIOLIM"
      "MMIOBASE mod PGSIZE = 0" "(MMIOBASE + 0x2000) mod PGSIZE = 0" "MMIOBASE + 8096 \<le> MMIOBASE + 0x2000"
      "MMIOBASE + PGSIZE = MMIOBASE + 0x1000" "MMIOBASE + 0x2000 + PGSIZE = MMIOBASE + 0x3000"
    by (simp_all add: mmu_defs)
  ultimately have "page_check_mmio s = Inl (NullDeref, s2)"
    unfolding page_check_mmio_def s1(1) bindK_simps s2(1)
    using m2 m2(3) [unfolded add.commute [of MMIOBASE]] m3 addr by (simp add: look PGSIZE_def)
  then show ?thesis by blast
qed

definition null_sample :: kstate where
  "null_sample = (bss_state 10 0 0)\<lparr>boot_pml4e := (0, 0), page_free_list := Some 2,
     pages := (\<lambda>p. cell (if p \<in> {2..6} then Some (Suc p) else None))\<rparr>"

theorem page_check_reads_null_witness: "\<exists>s'. page_check_mmio null_sample = Inl (NullDeref, s')"
proof -
  have "alloc_inv null_sample [2, 3, 4, 5, 6, 7]"
    by (simp add: null_sample_def alloc_inv_def freelist_def) presburger
  then have wf: "pt_wf (\<lambda>_. {1}) [0 \<mapsto> (0, [])] null_sample [2, 3, 4, 5, 6, 7]"
    by (auto simp: pt_wf_def nxt_def null_sample_def)
  have "mapping null_sample 0 va = None" for va
    by (simp add: mapping_def pidx_def tbl_idx_def nxt_def null_sample_def)
  then show ?thesis
    using page_check_reads_null [OF wf, of 0] by (simp add: null_sample_def bss_state_def)
qed

end
