(* ===== verification/Readline.thy ===== *)
theory Readline
  imports Printfmt_Props
begin

text \<open>
  \<open>lib/readline.c\<close>, which the kernel monitor and user programs share. The routines that differ
  between the two, \<open>getchar\<close>, \<open>cputchar\<close>, \<open>cprintf\<close> and \<open>iscons\<close>, are arguments. The locale
  \<open>line_device\<close> states what \<open>readline\<close> needs of them, its lemmas say which line comes out for the
  characters that are typed, and it is interpreted on the console of the kernel.
\<close>

section \<open>readline\<close>

definition BUFLEN :: nat where "BUFLEN = 1024"

text \<open>
  The loop; \<open>lbuf\<close> is the static array \<open>buf\<close>. The first component of the result is whether
  \<open>readline\<close> returns the buffer or \<open>NULL\<close>; \<open>None\<close> stands for a loop that does not end.
\<close>

partial_function (option) readline_loop ::
    "('s \<Rightarrow> (int \<times> 's) option) \<Rightarrow> (u32 \<Rightarrow> 's \<Rightarrow> 's) \<Rightarrow> (u8 list \<Rightarrow> u64 list \<Rightarrow> 's \<Rightarrow> 's option) \<Rightarrow> bool \<Rightarrow>
     nat \<Rightarrow> (nat \<Rightarrow> u8) \<Rightarrow> 's \<Rightarrow> (bool \<times> (nat \<Rightarrow> u8) \<times> 's) option" where
  "readline_loop getc putc cpr echoing i lbuf s =
     Option.bind (getc s) (\<lambda>(c, s).
       if c < 0 then
         map_option (\<lambda>s. (False, lbuf, s)) (cpr (bytes_of ''read error: %e'' @ [10]) [of_int c] s)
       else if (c = 8 \<or> c = 0x7F) \<and> 0 < i then
         readline_loop getc putc cpr echoing (i - 1) lbuf (if echoing then putc 8 s else s)
       else if 32 \<le> c \<and> i < BUFLEN - 1 then
         readline_loop getc putc cpr echoing (i + 1) (lbuf(i := of_int c)) (if echoing then putc (of_int c) s else s)
       else if c = 10 \<or> c = 13 then
         Some (True, lbuf(i := 0), if echoing then putc 10 s else s)
       else readline_loop getc putc cpr echoing i lbuf s)"

definition readline ::
    "('s \<Rightarrow> (int \<times> 's) option) \<Rightarrow> (u32 \<Rightarrow> 's \<Rightarrow> 's) \<Rightarrow> (u8 list \<Rightarrow> u64 list \<Rightarrow> 's \<Rightarrow> 's option) \<Rightarrow> (int \<Rightarrow> int) \<Rightarrow>
     u64 option \<Rightarrow> (nat \<Rightarrow> u8) \<Rightarrow> 's \<Rightarrow> (bool \<times> (nat \<Rightarrow> u8) \<times> 's) option" where
  "readline getc putc cpr isc prompt lbuf s =
     Option.bind (case prompt of None \<Rightarrow> Some s | Some p \<Rightarrow> cpr (bytes_of ''%s'') [p] s) (\<lambda>s.
       readline_loop getc putc cpr (isc 0 \<noteq> 0) 0 lbuf s)"

section \<open>The line that is typed\<close>

text \<open>
  The reference: \<open>acc\<close> is the line so far; the result is the finished line and what is typed after it.
\<close>

definition erases :: "u8 \<Rightarrow> bool" where "erases c \<longleftrightarrow> c = 8 \<or> c = 0x7F"

fun line_edit :: "u8 list \<Rightarrow> u8 list \<Rightarrow> (u8 list \<times> u8 list) option" where
  "line_edit acc [] = None"
| "line_edit acc (c # cs) =
     (if erases c \<and> acc \<noteq> [] then line_edit (butlast acc) cs
      else if 32 \<le> unat c \<and> length acc < BUFLEN - 1 then line_edit (acc @ [c]) cs
      else if c = 10 \<or> c = 13 then Some (acc, cs)
      else line_edit acc cs)"

lemma line_edit_bounds:
  "line_edit acc cs = Some (line, rest) \<Longrightarrow> length acc \<le> BUFLEN - 1 \<Longrightarrow> \<forall>c \<in> set acc. 32 \<le> unat c \<Longrightarrow>
   length line \<le> BUFLEN - 1 \<and> (\<forall>c \<in> set line. 32 \<le> unat c)"
proof (induction acc cs rule: line_edit.induct)
  case (2 acc c cs)
  have b: "\<forall>c \<in> set (butlast acc). 32 \<le> unat c" "length (butlast acc) \<le> BUFLEN - 1"
    using 2(6) in_set_butlastD [of _ acc] 2(5) by auto
  show ?case
  proof (cases "erases c \<and> acc \<noteq> []")
    case True
    with 2(1) [OF True] 2(4) b show ?thesis by simp
  next
    case False
    show ?thesis
    proof (cases "32 \<le> unat c \<and> length acc < BUFLEN - 1")
      case True
      with 2(2) [OF False True] 2(4,6) False show ?thesis by simp
    next
      case F2: False
      with 2(3) [OF False F2] 2(4-6) False show ?thesis by (simp split: if_splits)
    qed
  qed
qed simp

text \<open>Text without control characters comes out as it was typed.\<close>

lemma line_edit_text:
  "\<forall>c \<in> set xs. 32 \<le> unat c \<and> \<not> erases c \<Longrightarrow> length acc + length xs \<le> BUFLEN - 1 \<Longrightarrow>
   line_edit acc (xs @ 10 # rest) = Some (acc @ xs, rest)"
  by (induction xs arbitrary: acc) (auto simp: erases_def)

lemma char_tests:
  fixes c :: u8
  shows "uint c = 8 \<longleftrightarrow> c = 8" "uint c = 127 \<longleftrightarrow> c = 127" "uint c = 10 \<longleftrightarrow> c = 10" "uint c = 13 \<longleftrightarrow> c = 13"
    "32 \<le> uint c \<longleftrightarrow> 32 \<le> unat c" "\<not> uint c < 0"
proof -
  show "uint c = 8 \<longleftrightarrow> c = 8" "uint c = 127 \<longleftrightarrow> c = 127" "uint c = 10 \<longleftrightarrow> c = 10" "uint c = 13 \<longleftrightarrow> c = 13"
    by (simp_all add: word_uint_eq_iff)
  have "uint c = int (unat c)" by (rule uint_nat)
  then show "32 \<le> uint c \<longleftrightarrow> 32 \<le> unat c" by linarith
  show "\<not> uint c < 0" using uint_ge_0 [of c] by linarith
qed

locale line_device =
  fixes getc :: "'s \<Rightarrow> (int \<times> 's) option"
    and putc :: "u32 \<Rightarrow> 's \<Rightarrow> 's"
    and ok :: "'s \<Rightarrow> bool"
    and typed :: "'s \<Rightarrow> u8 list"
  assumes getc_typed: "ok s \<Longrightarrow> typed s = c # cs \<Longrightarrow> \<exists>s'. getc s = Some (uint c, s') \<and> ok s' \<and> typed s' = cs"
    and putc_typed: "ok s \<Longrightarrow> ok (putc ch s) \<and> typed (putc ch s) = typed s"
begin

definition holds :: "u8 list \<Rightarrow> (nat \<Rightarrow> u8) \<Rightarrow> bool" where
  "holds line lbuf \<longleftrightarrow> (\<forall>j < length line. lbuf j = line ! j)"

lemma readline_loop_edits:
  assumes "line_edit acc (typed s) = Some (line, rest)" "holds acc lbuf" "length acc \<le> BUFLEN - 1" "ok s"
  shows "\<exists>lbuf' s'. readline_loop getc putc cpr echoing (length acc) lbuf s = Some (True, lbuf', s') \<and>
    ok s' \<and> typed s' = rest \<and> holds line lbuf' \<and> lbuf' (length line) = 0 \<and> (\<forall>j \<ge> BUFLEN. lbuf' j = lbuf j)"
  using assms
proof (induction "typed s" arbitrary: acc lbuf s)
  case Nil
  then have "line_edit acc [] = Some (line, rest)" by simp
  then show ?case by simp
next
  case (Cons c cs)
  obtain s1 where s1: "getc s = Some (uint c, s1)" "typed s1 = cs" "ok s1"
    using getc_typed [OF Cons.prems(4) Cons.hyps(2) [symmetric]] by blast
  have ps: "cs = typed (if echoing then putc x s1 else s1)" "ok (if echoing then putc x s1 else s1)" for x
    using s1(2,3) putc_typed by simp_all
  note eq = char_tests [of c]
  note step = readline_loop.simps [of getc putc cpr echoing "length acc" lbuf s] and le = Cons.prems(1) [folded Cons.hyps(2)]
  show ?case
  proof (cases "erases c \<and> acc \<noteq> []")
    case True
    have h: "holds (butlast acc) lbuf" using Cons.prems(2) by (simp add: holds_def nth_butlast)
    have le': "line_edit (butlast acc) (typed (if echoing then putc 8 s1 else s1)) = Some (line, rest)"
      using le True ps(1) [of 8] by simp
    have "readline_loop getc putc cpr echoing (length acc) lbuf s =
        readline_loop getc putc cpr echoing (length (butlast acc)) lbuf (if echoing then putc 8 s1 else s1)"
      using True s1(1) eq by (auto simp: step erases_def)
    then show ?thesis
      using Cons.hyps(1) [OF ps(1) le' h _ ps(2)] Cons.prems(3) by simp
  next
    case F1: False
    have e: "\<not> ((uint c = 8 \<or> uint c = 127) \<and> 0 < length acc)" using F1 eq(1,2) by (simp add: erases_def)
    show ?thesis
    proof (cases "32 \<le> unat c \<and> length acc < BUFLEN - 1")
      case True
      let ?c = "of_int (uint c) :: u32"
      have h: "holds (acc @ [c]) (lbuf(length acc := c))"
        using Cons.prems(2) by (auto simp: holds_def nth_append less_Suc_eq)
      have le': "line_edit (acc @ [c]) (typed (if echoing then putc ?c s1 else s1)) = Some (line, rest)"
        using le True F1 ps(1) [of ?c] by simp
      have "readline_loop getc putc cpr echoing (length acc) lbuf s =
          readline_loop getc putc cpr echoing (length (acc @ [c])) (lbuf(length acc := c)) (if echoing then putc ?c s1 else s1)"
        using True s1(1) eq e by (auto simp: step)
      moreover have "length (acc @ [c]) \<le> BUFLEN - 1" using True by simp
      moreover have "\<forall>j \<ge> BUFLEN. (lbuf(length acc := c)) j = lbuf j" using Cons.prems(3) by (simp add: BUFLEN_def)
      ultimately show ?thesis
        using Cons.hyps(1) [OF ps(1) le' h _ ps(2)] by fastforce
    next
      case F2: False
      have p: "\<not> (32 \<le> uint c \<and> length acc < BUFLEN - 1)" using F2 eq(5) by simp
      show ?thesis
      proof (cases "c = 10 \<or> c = 13")
        case True
        have "line = acc" "rest = cs" using le F1 F2 True by (simp_all split: if_splits)
        moreover have "readline_loop getc putc cpr echoing (length acc) lbuf s =
            Some (True, lbuf(length acc := 0), if echoing then putc 10 s1 else s1)"
          using s1(1) eq(3,4,6) e p True by (auto simp: step)
        ultimately show ?thesis
          using ps(1,2) [of 10] Cons.prems(2,3) by (auto simp: holds_def BUFLEN_def)
      next
        case F3: False
        have le': "line_edit acc (typed s1) = Some (line, rest)" using le F1 F2 F3 s1(2) by (simp split: if_splits)
        have "readline_loop getc putc cpr echoing (length acc) lbuf s = readline_loop getc putc cpr echoing (length acc) lbuf s1"
          using s1(1) eq(3,4,6) e p F3 by (auto simp: step)
        then show ?thesis using Cons.hyps(1) [OF s1(2) [symmetric] le' Cons.prems(2,3) s1(3)] by simp
      qed
    qed
  qed
qed

end

section \<open>The console of the kernel\<close>

text \<open>
  \<open>getchar\<close> as in \<open>Console\<close>, with the arrivals before the \<open>t\<close>-th poll given by \<open>arrive t\<close>, so that
  several calls share one schedule; the state is the number of polls so far and the console.
\<close>

partial_function (option) poll_getchar ::
    "(nat \<Rightarrow> u8 list \<times> u8 list) \<Rightarrow> nat \<times> cons_state \<Rightarrow> (int \<times> nat \<times> cons_state) option" where
  "poll_getchar arrive tc =
     (let (t, c) = tc; (rx, kb) = arrive t in
      Option.bind (cons_getc (c\<lparr>com_rx := com_rx c @ rx, kbd_in := kbd_in c @ kb\<rparr>)) (\<lambda>(ch, c).
        if ch = 0 then poll_getchar arrive (Suc t, c) else Some (ch, Suc t, c)))"

definition kern_readline ::
    "(nat \<Rightarrow> u8 list \<times> u8 list) \<Rightarrow> bmem \<Rightarrow> u64 option \<Rightarrow> (nat \<Rightarrow> u8) \<Rightarrow> nat \<times> cons_state \<Rightarrow>
     (bool \<times> (nat \<Rightarrow> u8) \<times> nat \<times> cons_state) option" where
  "kern_readline arrive m prompt lbuf tc =
     readline (poll_getchar arrive) (\<lambda>ch (t, c). (t, cputchar ch c))
       (\<lambda>fmt ap (t, c). map_option (\<lambda>(_, c). (t, c)) (kern_cprintf m fmt ap c)) iscons prompt lbuf tc"

text \<open>
  Characters that are still to come: \<open>xs ! t\<close> arrives at the serial port before poll \<open>t\<close>. Nothing
  is lost when at no poll more characters wait than the ring holds; each poll takes one.
\<close>

definition sched :: "u8 list list \<Rightarrow> nat \<Rightarrow> u8 list \<times> u8 list" where
  "sched xs t = (if t < length xs then xs ! t else [], [])"

fun fits :: "nat \<Rightarrow> u8 list list \<Rightarrow> bool" where
  "fits n [] \<longleftrightarrow> n < CONSBUFSIZE"
| "fits n (x # xs) \<longleftrightarrow> n + length x < CONSBUFSIZE \<and> fits (n + length x - 1) xs"

text \<open>
  What has been typed ahead may come from the keyboard as long as nothing more arrives at the
  serial port, whose characters the console takes first.
\<close>

definition ready :: "u8 list list \<Rightarrow> cons_state \<Rightarrow> bool" where
  "ready xs c \<longleftrightarrow> ring_inv c \<and> (serial_exists c \<longrightarrow> com_present c) \<and>
     0 \<notin> set (waiting c @ concat xs) \<and> (concat xs = [] \<or> serial_exists c \<and> kbd_in c = []) \<and>
     fits (length (waiting c)) xs"

definition typed_line :: "u8 list list \<Rightarrow> nat \<times> cons_state \<Rightarrow> u8 list" where
  "typed_line xs tc = waiting (snd tc) @ concat (drop (fst tc) xs)"

definition ready_at :: "u8 list list \<Rightarrow> nat \<times> cons_state \<Rightarrow> bool" where
  "ready_at xs tc = ready (drop (fst tc) xs) (snd tc)"

lemma waiting_input:
  assumes "input_of c = input_of d"
  shows "typed_line xs (t, c) = typed_line xs (t, d)" "ready_at xs (t, c) = ready_at xs (t, d)"
proof -
  have "waiting c = waiting d" "ring_inv c = ring_inv d"
    using ring_cong [of c d] assms by (simp_all add: input_of_def waiting_def)
  with assms show "typed_line xs (t, c) = typed_line xs (t, d)" "ready_at xs (t, c) = ready_at xs (t, d)"
    by (simp_all add: input_of_def typed_line_def ready_at_def ready_def)
qed

lemma cons_intr_frames:
  "polled c d \<Longrightarrow> (serial_exists c \<longrightarrow> com_present c) \<Longrightarrow>
   kbd_in d = [] \<and> (serial_exists d \<longrightarrow> com_rx d = []) \<and> com_present d = com_present c \<and> serial_exists d = serial_exists c"
proof -
  assume "polled c d" and present: "serial_exists c \<longrightarrow> com_present c"
  define c1 where "c1 = (if serial_exists c then (feed (com_rx c) c)\<lparr>com_rx := []\<rparr> else c)"
  have fd: "serial_exists (feed bs c) = serial_exists c \<and> com_present (feed bs c) = com_present c" for bs
    by (induction bs arbitrary: c) (simp_all add: feed_def ring_put_def Let_def)
  have "serial_intr c = Some c1" using present by (simp add: serial_intr_def c1_def cons_intr_serial)
  moreover obtain d' where "cons_intr kbd_proc_data c1 = Some d'" "kbd_in d' = []" "com_rx d' = com_rx c1"
      "com_present d' = com_present c1" "serial_exists d' = serial_exists c1"
    using cons_intr_kbd [of c1] by blast
  ultimately have "d' = d" using \<open>polled c d\<close> by (simp add: polled_def kbd_intr_def)
  with \<open>kbd_in d' = []\<close> \<open>com_rx d' = com_rx c1\<close> \<open>com_present d' = com_present c1\<close> \<open>serial_exists d' = serial_exists c1\<close> fd
  show ?thesis by (auto simp: c1_def)
qed

text \<open>One poll.\<close>

lemma poll_once:
  assumes "ring_inv c" "serial_exists c \<longrightarrow> com_present c" "length (waiting c) < CONSBUFSIZE"
  shows "\<exists>c'. cons_getc c = Some (case waiting c of [] \<Rightarrow> 0 | b # _ \<Rightarrow> uint b, c') \<and> waiting c' = tl (waiting c) \<and>
     ring_inv c' \<and> com_present c' = com_present c \<and> serial_exists c' = serial_exists c \<and> kbd_in c' = []"
proof -
  have com: "serial_exists c \<Longrightarrow> com_present c" using assms(2) by simp
  obtain d c' r where d: "polled c d" "c' = d \<or> c' = d\<lparr>rpos := r\<rparr>"
      "cons_getc c = Some (case waiting c of [] \<Rightarrow> 0 | b # _ \<Rightarrow> uint b, c')" "ring_inv c'" "pending c' = tl (waiting c)"
    using cons_getc_oldest [OF assms(1) com assms(3)] by blast
  have f: "kbd_in c' = []" "serial_exists c' \<longrightarrow> com_rx c' = []" "com_present c' = com_present c" "serial_exists c' = serial_exists c"
    using cons_intr_frames [OF d(1) assms(2)] d(2) by auto
  have "waiting c' = tl (waiting c)" using f(1,2) d(5) by (simp add: waiting_def)
  with d(3,4) f show ?thesis by auto
qed

lemma fits_step:
  assumes "fits n (drop t xs)"
  shows "n + length (fst (sched xs t)) < CONSBUFSIZE"
    and "fits (n + length (fst (sched xs t)) - 1) (drop (Suc t) xs)"
    and "concat (drop t xs) = fst (sched xs t) @ concat (drop (Suc t) xs)"
  using assms by (cases "t < length xs"; simp add: sched_def Cons_nth_drop_Suc [symmetric]; fail)+

lemma poll_getchar_step:
  "poll_getchar (sched xs) (t, c) =
     Option.bind (cons_getc (c\<lparr>com_rx := com_rx c @ fst (sched xs t)\<rparr>)) (\<lambda>(ch, c).
       if ch = 0 then poll_getchar (sched xs) (Suc t, c) else Some (ch, Suc t, c))"
  by (subst poll_getchar.simps) (simp add: sched_def)

text \<open>The characters that arrive before a poll wait behind the others.\<close>

lemma waiting_arrived:
  assumes "ready (drop t xs) c"
  defines "c1 \<equiv> c\<lparr>com_rx := com_rx c @ fst (sched xs t)\<rparr>"
  shows "waiting c1 = waiting c @ fst (sched xs t)"
    and "ring_inv c1" "serial_exists c1 \<longrightarrow> com_present c1" "length (waiting c1) < CONSBUFSIZE"
proof -
  let ?x = "fst (sched xs t)"
  have c: "fits (length (waiting c)) (drop t xs)" "0 \<notin> set (concat (drop t xs))"
    "concat (drop t xs) = [] \<or> serial_exists c \<and> kbd_in c = []"
    using assms(1) by (auto simp: ready_def)
  note st = fits_step [OF c(1)]
  have "filter (\<lambda>b. b \<noteq> 0) ?x = ?x" using c(2) st(3) by (auto simp: filter_id_conv)
  moreover have "ring_of c1 = ring_of c" by (simp add: c1_def ring_of_def)
  moreover note ring_cong [OF this]
  ultimately show w: "waiting c1 = waiting c @ ?x" using c(3) st(3) by (auto simp: waiting_def c1_def)
  show "ring_inv c1" "serial_exists c1 \<longrightarrow> com_present c1" "length (waiting c1) < CONSBUFSIZE"
    using assms(1) w st(1) by (auto simp: ready_def c1_def ring_inv_def)
qed

lemma typed_getc:
  "ready_at xs (t, c) \<Longrightarrow> typed_line xs (t, c) = b # bs \<Longrightarrow>
   \<exists>t' c'. poll_getchar (sched xs) (t, c) = Some (uint b, t', c') \<and> ready_at xs (t', c') \<and>
     typed_line xs (t', c') = bs"
proof (induction "length xs - t" arbitrary: t c rule: less_induct)
  case less
  have rd: "ready (drop t xs) c" and cs: "waiting c @ concat (drop t xs) = b # bs"
    using less.prems by (simp_all add: typed_line_def ready_at_def)
  let ?x = "fst (sched xs t)" and ?c = "c\<lparr>com_rx := com_rx c @ fst (sched xs t)\<rparr>"
  note w = waiting_arrived [OF rd]
  obtain c' where c': "cons_getc ?c = Some (case waiting ?c of [] \<Rightarrow> 0 | b # _ \<Rightarrow> uint b, c')"
      "waiting c' = tl (waiting ?c)" "ring_inv c'" "com_present c' = com_present c" "serial_exists c' = serial_exists c"
      "kbd_in c' = []"
    using poll_once [OF w(2-4)] by auto
  have fit: "fits (length (waiting c)) (drop t xs)" using rd by (simp add: ready_def)
  note st = fits_step [OF fit]
  have all: "waiting ?c @ concat (drop (Suc t) xs) = b # bs" using w(1) cs st(3) by simp
  have "set (tl (waiting ?c)) \<subseteq> set (waiting ?c)" by (cases "waiting ?c") auto
  then have rd': "ready (drop (Suc t) xs) c'"
    using rd w(1) c' st(2,3) unfolding ready_def by auto
  show ?case
  proof (cases "waiting ?c")
    case Nil
    then have late: "concat (drop (Suc t) xs) = b # bs" using all by simp
    then have "t < length xs" using not_le by fastforce
    then have "length xs - Suc t < length xs - t" by simp
    moreover have "typed_line xs (Suc t, c') = b # bs" "ready_at xs (Suc t, c')"
      using rd' c'(2) Nil late by (simp_all add: typed_line_def ready_at_def)
    ultimately show ?thesis using less.hyps c'(1) Nil by (simp add: poll_getchar_step)
  next
    case (Cons b' ws)
    then have b: "b' = b" "ws @ concat (drop (Suc t) xs) = bs" using all by auto
    have "b \<noteq> 0" using rd cs by (force simp: ready_def)
    then have "uint b \<noteq> 0" by (simp add: uint_0_iff)
    moreover have "typed_line xs (Suc t, c') = bs" "ready_at xs (Suc t, c')"
      using rd' c'(2) Cons b by (simp_all add: typed_line_def ready_at_def)
    ultimately show ?thesis using c'(1) Cons b by (simp add: poll_getchar_step)
  qed
qed

interpretation console: line_device "poll_getchar (sched xs)" "\<lambda>ch (t, c). (t, cputchar ch c)"
  "ready_at xs" "typed_line xs" for xs
proof unfold_locales
  fix s :: "nat \<times> cons_state" and b bs assume "ready_at xs s" "typed_line xs s = b # bs"
  then show "\<exists>s'. poll_getchar (sched xs) s = Some (uint b, s') \<and> ready_at xs s' \<and> typed_line xs s' = bs"
    using typed_getc [of xs "fst s" "snd s" b bs] by auto
next
  fix s :: "nat \<times> cons_state" and ch assume "ready_at xs s"
  then show "ready_at xs (case s of (t, c) \<Rightarrow> (t, cputchar ch c)) \<and>
      typed_line xs (case s of (t, c) \<Rightarrow> (t, cputchar ch c)) = typed_line xs s"
    using waiting_input [of "cputchar ch (snd s)" "snd s"] by (cases s) (simp add: cputchar_def)
qed

text \<open>Printing a string keeps what has been typed.\<close>

definition keeps_typed :: "u8 list list \<Rightarrow> u8 list \<Rightarrow> cons_state \<times> u32 \<Rightarrow> bool" where
  "keeps_typed xs cs p \<longleftrightarrow> ready_at xs (0, fst p) \<and> typed_line xs (0, fst p) = cs"

interpretation typed: callback "keeps_typed xs cs" kern_putch for xs cs
  by unfold_locales (simp add: keeps_typed_def kern_putch_def cputchar_def waiting_input [OF input_of_cons_putc(1)])

text \<open>C33: \<open>readline\<close> on the kernel's console, for input of any length: some characters wait when it
  starts (in the ring, the serial port, the keyboard), others arrive at the serial port while it
  polls, none is lost. It returns the line of the reference editor: backspace and delete take back
  the last character of a line that is not empty, characters from 32 on are appended while the line
  has fewer than 1023 (the delete character on an empty line is one of them), carriage return and newline end it,
  everything else is ignored. The buffer holds the line and a zero byte behind it, all inside its
  1024 bytes; what was typed after the line still waits or is still to come.\<close>

theorem readline_edits:
  assumes "ready xs c" and "line_edit [] (waiting c @ concat xs) = Some (line, rest)"
    and "case prompt of None \<Rightarrow> True | Some p \<Rightarrow> kern_cprintf m (bytes_of ''%s'') [p] c \<noteq> None"
  shows "\<exists>lbuf' t' c'. kern_readline (sched xs) m prompt lbuf (0, c) = Some (True, lbuf', t', c') \<and>
    waiting c' @ concat (drop t' xs) = rest \<and>
    (\<forall>j < length line. lbuf' j = line ! j) \<and> lbuf' (length line) = 0 \<and>
    length line < BUFLEN \<and> (\<forall>b \<in> set line. 32 \<le> unat b) \<and> (\<forall>j \<ge> BUFLEN. lbuf' j = lbuf j)"
proof -
  let ?cs = "waiting c @ concat xs"
  have cs: "ready_at xs (0, c)" "typed_line xs (0, c) = ?cs"
    using assms(1) by (simp_all add: typed_line_def ready_at_def)
  obtain c0 where c0: "(case prompt of None \<Rightarrow> Some (0, c)
        | Some p \<Rightarrow> map_option (\<lambda>(_, c). (0, c)) (kern_cprintf m (bytes_of ''%s'') [p] c)) = Some (0 :: nat, c0)"
      "typed_line xs (0, c0) = ?cs" "ready_at xs (0, c0)"
  proof (cases prompt)
    case (Some p)
    then obtain r where r: "vprintfmt kern_putch (\<lambda>_. m) (bytes_of ''%s'') [p] (c, 0) = Some r"
      using assms(3) by (auto simp: kern_cprintf_def kern_vcprintf_def)
    have "keeps_typed xs ?cs r"
      using typed.vprintfmt_kept [of xs ?cs "(c, 0)" "\<lambda>_. m" "bytes_of ''%s''" "[p]"] r cs
      by (simp add: typed.kept_def keeps_typed_def)
    then show thesis
      using that [of "fst r"] r Some by (simp add: kern_cprintf_def kern_vcprintf_def split_beta keeps_typed_def)
  qed (use cs that in simp)
  have ed: "line_edit [] (typed_line xs (0, c0)) = Some (line, rest)" using assms(2) c0(2) by simp
  let ?cpr = "\<lambda>fmt ap (t, c). map_option (\<lambda>(_, c). (t, c)) (kern_cprintf m fmt ap c)"
  from console.readline_loop_edits [OF ed, of lbuf, where cpr = ?cpr and echoing = True] obtain lbuf' t' c' where
      "readline_loop (poll_getchar (sched xs)) (\<lambda>ch (t, c). (t, cputchar ch c)) ?cpr True 0 lbuf (0, c0) = Some (True, lbuf', t', c')"
      "typed_line xs (t', c') = rest" "\<forall>j < length line. lbuf' j = line ! j" "lbuf' (length line) = 0" "\<forall>j \<ge> BUFLEN. lbuf' j = lbuf j"
    using c0(3) by (auto simp: console.holds_def)
  moreover from this(2) have "waiting c' @ concat (drop t' xs) = rest" by (simp add: typed_line_def)
  ultimately show ?thesis
    using c0(1) line_edit_bounds [OF assms(2)]
    by (auto simp: kern_readline_def readline_def iscons_def BUFLEN_def split: option.splits)
qed

text \<open>
  The user types \<open>hx\<close> ahead, then erases the \<open>x\<close> and types an \<open>i\<close> and a newline while \<open>readline\<close> polls.
\<close>

theorem readline_edits_witness:
  "\<exists>lbuf' t' c'. kern_readline (sched [[8], [], [0x69, 10]]) (\<lambda>_. 0) None (\<lambda>_. 0)
     (0, cons_zero\<lparr>serial_exists := True, com_rx := [0x68, 0x78]\<rparr>) = Some (True, lbuf', t', c') \<and>
     lbuf' 0 = 0x68 \<and> lbuf' 1 = 0x69 \<and> lbuf' 2 = 0"
proof -
  let ?c = "cons_zero\<lparr>serial_exists := True, com_rx := [0x68, 0x78]\<rparr>"
  let ?xs = "[[8], [], [0x69, 10]] :: u8 list list"
  have w: "waiting ?c = [0x68, 0x78]"
    by (simp add: waiting_def cons_zero_def pending_def ring_len_def)
  then have t: "ready ?xs ?c"
    by (simp add: ready_def) (simp add: ring_inv_def cons_zero_def CONSBUFSIZE_def)
  have "line_edit [] (waiting ?c @ concat ?xs) = Some ([0x68, 0x69], [])"
    unfolding w by (simp add: erases_def BUFLEN_def)
  from readline_edits [OF t this, where prompt = None and m = "\<lambda>_. 0" and lbuf = "\<lambda>_. 0", unfolded option.case, OF TrueI]
  obtain lbuf' t' c' where r: "kern_readline (sched ?xs) (\<lambda>_. 0) None (\<lambda>_. 0) (0, ?c) = Some (True, lbuf', t', c')"
      "\<forall>j < length [0x68, 0x69 :: u8]. lbuf' j = [0x68, 0x69] ! j" "lbuf' (length [0x68, 0x69 :: u8]) = 0"
    by blast
  from r(2) have "lbuf' 0 = 0x68" "lbuf' 1 = 0x69" by (auto dest: spec [of _ 0] spec [of _ 1])
  with r(1,3) show ?thesis by (intro exI conjI) (assumption | simp add: numeral_2_eq_2)+
qed

end
