(* ===== verification/Monitor.thy ===== *)
theory Monitor
  imports Readline Trap
begin

text \<open>
  The kernel monitor, \<open>kern/monitor.c\<close>: the commands, the backtrace over the frame pointers, the
  interpreter of command lines and the loop that reads them. Shown: the interpreter cuts a line into
  its blank-separated words, in place, and never passes more than 15 of them; the monitor is never
  left.
\<close>

section \<open>Commands\<close>

text \<open>What \<open>debuginfo_rip\<close> says about an address, as far as \<open>mon_backtrace\<close> uses it.\<close>

record Ripdebuginfo =
  rip_file :: u64
  rip_line :: u32
  rip_fn_name :: u64
  rip_fn_addr :: u64
  rip_fn_narg :: u32
  offset_fn_arg :: "nat \<Rightarrow> u64"
  cfa_regnum :: u16
  cfa_offset :: u64

text \<open>
  What the monitor finds on the machine: the linker's symbols, the registers, the stack in memory, the
  debugging information (\<open>None\<close>: \<open>debuginfo_rip\<close> does not return 0), the value that the variable
  \<open>ptr\<close> has before it is assigned, and the addresses of the prompt and of the command names. Format
  strings are written without their newline.
\<close>

record machine =
  sym_start :: u64
  sym_entry :: u64
  sym_etext :: u64
  sym_edata :: u64
  sym_end :: u64
  reg_rbp0 :: u64
  reg_rip0 :: u64
  reg_rsp0 :: u64
  stack_word :: "u64 \<Rightarrow> u64"
  stack_half :: "u64 \<Rightarrow> u16"
  debug :: "u64 \<Rightarrow> Ripdebuginfo option"
  stale_ptr :: u64
  prompt_at :: u64
  names_at :: "u64 list"

definition mon_help :: "kstate \<Rightarrow> int \<times> kstate" where
  "mon_help s =
     (0, fold (\<lambda>(name, desc) s. cprintf (name @ '' - '' @ desc) [] s)
       [(''help'', ''Display this list of commands''),
        (''kerninfo'', ''Display information about the kernel''),
        (''backtrace'', ''Backtrace through the stack'')] s)"

definition mon_kerninfo :: "machine \<Rightarrow> kstate \<Rightarrow> int \<times> kstate" where
  "mon_kerninfo k s =
     (0, fold (\<lambda>(fmt, args). cprintf fmt args)
       [(''Special kernel symbols:'', []),
        (''  _start                  %08x (phys)'', [sym_start k]),
        (''  entry  %08x (virt)  %08x (phys)'', [sym_entry k, sym_entry k - KERNBASE]),
        (''  etext  %08x (virt)  %08x (phys)'', [sym_etext k, sym_etext k - KERNBASE]),
        (''  edata  %08x (virt)  %08x (phys)'', [sym_edata k, sym_edata k - KERNBASE]),
        (''  end    %08x (virt)  %08x (phys)'', [sym_end k, sym_end k - KERNBASE]),
        (''Kernel executable memory footprint: %dKB'', [ROUNDUP (sym_end k - sym_entry k) 1024 div 1024])] s)"

text \<open>One frame of the backtrace; the arguments are read as 16-bit values.\<close>

definition arg_base :: "machine \<Rightarrow> Ripdebuginfo \<Rightarrow> u64 \<Rightarrow> u64" where
  "arg_base k info rbp =
     (if cfa_regnum info = 6 then rbp + cfa_offset info
      else if cfa_regnum info = 7 then reg_rsp0 k + cfa_offset info else stale_ptr k)"

definition print_frame :: "machine \<Rightarrow> u64 \<Rightarrow> u64 \<Rightarrow> kstate \<Rightarrow> kstate" where
  "print_frame k rbp rip s =
     (let s = cprintf ''  rbp %016llx  rip %016llx'' [rbp, rip] s in
      case debug k rip of
        None \<Rightarrow> s
      | Some info \<Rightarrow>
          let s = cprintf ''    %s:%d: %s+%016llx  args:%d''
                    [rip_file info, ucast (rip_line info), rip_fn_name info, rip - rip_fn_addr info,
                     ucast (rip_fn_narg info)] s;
              s = fold (\<lambda>i. cprintf ''  %016x''
                    [ucast (stack_half k (arg_base k info rbp + offset_fn_arg info i))]) [0..<nat (sint (rip_fn_narg info))] s
          in cprintf '''' [] s)"

partial_function (option) backtrace_loop :: "machine \<Rightarrow> u64 \<Rightarrow> u64 \<Rightarrow> kstate \<Rightarrow> kstate option" where
  "backtrace_loop k rbp rip s =
     (if rbp = 0 then Some s
      else backtrace_loop k (stack_word k rbp) (stack_word k (rbp + 8)) (print_frame k rbp rip s))"

definition mon_backtrace :: "machine \<Rightarrow> kstate \<Rightarrow> (int \<times> kstate) option" where
  "mon_backtrace k s =
     map_option (\<lambda>s. (0, s)) (backtrace_loop k (reg_rbp0 k) (reg_rip0 k) (cprintf ''Stack backtrace:'' [] s))"

section \<open>The command interpreter\<close>

definition MAXARGS :: nat where "MAXARGS = 16"

text \<open>\<open>strchr(WHITESPACE, c) != NULL\<close>.\<close>

definition white :: "u8 \<Rightarrow> bool" where
  "white c \<longleftrightarrow> strchr (literal [CHR 0x09, CHR 0x0D, CHR 0x0A, CHR 0x20]) 1 c \<noteq> Some 0"

partial_function (option) gobble :: "bmem \<Rightarrow> u64 \<Rightarrow> (bmem \<times> u64) option" where
  "gobble m p = (if m p \<noteq> 0 \<and> white (m p) then gobble (m(p := 0)) (p + 1) else Some (m, p))"

partial_function (option) skip_arg :: "bmem \<Rightarrow> u64 \<Rightarrow> u64 option" where
  "skip_arg m p = (if m p \<noteq> 0 \<and> \<not> white (m p) then skip_arg m (p + 1) else Some p)"

text \<open>The arguments, as addresses of words in the buffer; \<open>None\<close> when there are too many.\<close>

partial_function (option) parse_args :: "bmem \<Rightarrow> u64 \<Rightarrow> u64 list \<Rightarrow> (u64 list option \<times> bmem) option" where
  "parse_args m p argv =
     Option.bind (gobble m p) (\<lambda>(m, p).
       if m p = 0 then Some (Some argv, m)
       else if length argv = MAXARGS - 1 then Some (None, m)
       else Option.bind (skip_arg m p) (\<lambda>q. parse_args m q (argv @ [p])))"

text \<open>The index of the command; \<open>names\<close> are the addresses of the names in the table \<open>commands\<close>.\<close>

fun find_command :: "bmem \<Rightarrow> u64 \<Rightarrow> u64 list \<Rightarrow> nat \<Rightarrow> nat option option" where
  "find_command m a [] i = Some None"
| "find_command m a (n # ns) i =
     Option.bind (strcmp m a n) (\<lambda>d. if d = 0 then Some (Some i) else find_command m a ns (Suc i))"

definition call_command :: "machine \<Rightarrow> nat \<Rightarrow> kstate \<Rightarrow> (int \<times> kstate) option" where
  "call_command k i s =
     (if i = 0 then Some (mon_help s) else if i = 1 then Some (mon_kerninfo k s) else mon_backtrace k s)"

definition quoted :: "string \<Rightarrow> string" where "quoted t = CHR 0x27 # t @ [CHR 0x27]"

definition runcmd :: "machine \<Rightarrow> bmem \<Rightarrow> u64 \<Rightarrow> kstate \<Rightarrow> (int \<times> bmem \<times> kstate) option" where
  "runcmd k m p s =
     Option.bind (parse_args m p []) (\<lambda>(argv, m).
       case argv of
         None \<Rightarrow> Some (0, m, cprintf ''Too many arguments (max %d)'' [of_nat MAXARGS] s)
       | Some [] \<Rightarrow> Some (0, m, s)
       | Some (a # as) \<Rightarrow>
           Option.bind (find_command m a (names_at k) 0) (\<lambda>cmd.
             case cmd of
               None \<Rightarrow> Some (0, m, cprintf (''Unknown command '' @ quoted ''%s'') [a] s)
             | Some i \<Rightarrow> map_option (\<lambda>(r, s). (r, m, s)) (call_command k i s)))"

section \<open>The monitor\<close>

text \<open>
  The line buffer of \<open>readline\<close> lies at \<open>lb\<close> in the memory \<open>m\<close>; \<open>t\<close> counts the polls of the console,
  and \<open>arrive\<close> says what arrives before each of them.
\<close>

definition buffer_in :: "u64 \<Rightarrow> (nat \<Rightarrow> u8) \<Rightarrow> bmem \<Rightarrow> bmem" where
  "buffer_in lb lbuf m a = (if unat (a - lb) < BUFLEN then lbuf (unat (a - lb)) else m a)"

definition monitor_readline ::
    "machine \<Rightarrow> (nat \<Rightarrow> u8 list \<times> u8 list) \<Rightarrow> u64 \<Rightarrow> bmem \<Rightarrow> nat \<Rightarrow> kstate \<Rightarrow> (bool \<times> bmem \<times> nat \<times> kstate) option" where
  "monitor_readline k arrive lb m t s =
     map_option (\<lambda>(ok, lbuf, t, s). (ok, buffer_in lb lbuf m, t, s))
       (readline (\<lambda>(t, s). map_option (\<lambda>(ch, t, c). (ch, t, s\<lparr>console := c\<rparr>)) (poll_getchar arrive (t, console s)))
          (\<lambda>ch (t, s). (t, s\<lparr>console := cputchar ch (console s)\<rparr>))
          (\<lambda>fmt ap (t, s). Some (t, cprintf (map (\<lambda>b. char_of (unat b)) fmt) ap s)) iscons (Some (prompt_at k))
          (\<lambda>i. m (lb + of_nat i)) (t, s))"

partial_function (option) monitor_loop ::
    "machine \<Rightarrow> (nat \<Rightarrow> u8 list \<times> u8 list) \<Rightarrow> u64 \<Rightarrow> bmem \<Rightarrow> nat \<Rightarrow> kstate \<Rightarrow> (bmem \<times> nat \<times> kstate) option" where
  "monitor_loop k arrive lb m t s =
     Option.bind (monitor_readline k arrive lb m t s) (\<lambda>(ok, m, t, s).
       if \<not> ok then monitor_loop k arrive lb m t s
       else Option.bind (runcmd k m lb s) (\<lambda>(r, m, s).
         if r < 0 then Some (m, t, s) else monitor_loop k arrive lb m t s))"

definition monitor ::
    "machine \<Rightarrow> (nat \<Rightarrow> u8 list \<times> u8 list) \<Rightarrow> u64 \<Rightarrow> bmem \<Rightarrow> nat \<Rightarrow> tfptr option \<Rightarrow> kstate \<Rightarrow> (bmem \<times> nat \<times> kstate) option" where
  "monitor k arrive lb m t tf s =
     (let s = cprintf ''Welcome to the JOS kernel monitor!'' [] s;
          s = cprintf (''Type '' @ quoted ''help'' @ '' for a list of commands.'') [] s;
          s = (case tf of None \<Rightarrow> s | Some p \<Rightarrow> print_trapframe p s)
      in monitor_loop k arrive lb m t s)"

section \<open>Words of a line\<close>

text \<open>The reference: the maximal runs of bytes that are not white.\<close>

lemma rest_shorter:
  assumes "dropWhile white xs \<noteq> []"
  shows "length (dropWhile (\<lambda>c. \<not> white c) (dropWhile white xs)) < length xs"
proof -
  obtain c ys where d: "dropWhile white xs = c # ys" using assms by (cases "dropWhile white xs") auto
  then have "\<not> white c" by (simp add: dropWhile_eq_Cons_conv)
  then have "length (dropWhile (\<lambda>c. \<not> white c) (dropWhile white xs)) \<le> length ys" "length (c # ys) \<le> length xs"
    using length_dropWhile_le [of "\<lambda>c. \<not> white c" ys] length_dropWhile_le [of white xs] d by simp_all
  then show ?thesis by simp
qed

function line_words :: "u8 list \<Rightarrow> u8 list list" where
  "line_words xs =
     (let ys = dropWhile white xs in
      if ys = [] then [] else takeWhile (\<lambda>c. \<not> white c) ys # line_words (dropWhile (\<lambda>c. \<not> white c) ys))"
  by pat_completeness auto
termination
  by (relation "measure length") (simp_all add: rest_shorter del: dropWhile_eq_Nil_conv)

declare line_words.simps [simp del]

definition in_run :: "u64 \<Rightarrow> nat \<Rightarrow> u64 \<Rightarrow> bool" where "in_run p n a \<longleftrightarrow> unat (a - p) < n"

lemma white_iff: "white c \<longleftrightarrow> c = 9 \<or> c = 13 \<or> c = 10 \<or> c = 32"
proof -
  have l: "literal [CHR 0x09, CHR 0x0D, CHR 0x0A, CHR 0x20] 1 = 9" "literal [CHR 0x09, CHR 0x0D, CHR 0x0A, CHR 0x20] 2 = 13"
    "literal [CHR 0x09, CHR 0x0D, CHR 0x0A, CHR 0x20] 3 = 10"
    "literal [CHR 0x09, CHR 0x0D, CHR 0x0A, CHR 0x20] 4 = 32"
    "literal [CHR 0x09, CHR 0x0D, CHR 0x0A, CHR 0x20] 5 = 0"
    by (simp_all add: literal_def)
  show ?thesis unfolding white_def
    by (subst strchr.simps, subst strchr.simps, subst strchr.simps, subst strchr.simps, subst strchr.simps)
      (auto simp: l)
qed

lemma in_run_Cons:
  "n < 2 ^ 64 - 1 \<Longrightarrow> in_run p (Suc n) a \<longleftrightarrow> a = p \<or> in_run (p + 1) n a"
proof -
  assume n: "n < 2 ^ 64 - 1"
  show ?thesis
  proof (cases "a = p")
    case False
    then have "a - p \<noteq> 0" by simp
    then have "unat (a - p) = Suc (unat (a - p - 1))"
      by (metis Suc_pred' unat_minus_one unat_gt_0)
    moreover have "a - (p + 1) = a - p - 1" by simp
    ultimately show ?thesis using False by (simp only: in_run_def) simp
  qed (simp add: in_run_def)
qed

lemma in_run_self: "Suc n < 2 ^ 64 \<Longrightarrow> \<not> in_run (p + 1) n p"
proof -
  assume "Suc n < 2 ^ 64"
  moreover have "unat (p - (p + 1)) = 2 ^ 64 - 1"
    by (simp add: unsigned_minus_1_eq_mask mask_eq_exp_minus_1)
  ultimately show ?thesis by (simp only: in_run_def)
qed

lemma in_run_run:
  "k + n < 2 ^ 64 \<Longrightarrow> in_run (p + of_nat k) n a \<longleftrightarrow> in_run p (k + n) a \<and> \<not> in_run p k a"
proof (induction k arbitrary: p)
  case 0
  then show ?case by (simp add: in_run_def)
next
  case (Suc k)
  have "\<not> in_run (p + 1) (k + n) p" using in_run_self [of "k + n" p] Suc.prems by simp
  then show ?case
    using Suc.IH [of "p + 1"] Suc.prems in_run_Cons [of k p a] in_run_Cons [of "k + n" p a]
    by (auto simp: add.assoc)
qed

lemma str_at_frame:
  "str_at m p xs \<Longrightarrow> \<forall>a. in_run p (Suc (length xs)) a \<longrightarrow> m' a = m a \<Longrightarrow> Suc (length xs) < 2 ^ 64 \<Longrightarrow> str_at m' p xs"
proof (induction xs arbitrary: p)
  case Nil
  then show ?case by (simp add: in_run_def)
next
  case (Cons x xs)
  have "\<forall>a. in_run (p + 1) (Suc (length xs)) a \<longrightarrow> m' a = m a"
    using Cons.prems(2,3) in_run_Cons [of "Suc (length xs)" p] by simp
  with Cons.IH [of "p + 1"] Cons.prems show ?case by (simp add: in_run_def)
qed

text \<open>What the two inner loops do to a run of white bytes, and to a run of others.\<close>

lemma gobble_run:
  "str_at m p (ws @ ys) \<Longrightarrow> \<forall>c \<in> set ws. white c \<Longrightarrow> ys = [] \<or> \<not> white (hd ys) \<Longrightarrow> length (ws @ ys) + 2 < 2 ^ 64 \<Longrightarrow>
   \<exists>m'. gobble m p = Some (m', p + of_nat (length ws)) \<and> str_at m' (p + of_nat (length ws)) ys \<and>
     (\<forall>a. m' a = (if in_run p (length ws) a then 0 else m a))"
proof (induction ws arbitrary: m p)
  case Nil
  then show ?case by (cases ys) (auto simp: gobble.simps in_run_def)
next
  case (Cons c ws)
  let ?m = "m(p := 0)"
  have c: "m p = c" "c \<noteq> 0" "str_at m (p + 1) (ws @ ys)" using Cons.prems(1) by simp_all
  have "str_at ?m (p + 1) (ws @ ys)"
    using c(3) by (rule str_at_frame) (use Cons.prems(4) in_run_self [of "length ws + length ys + 1" p] in auto)
  then obtain m' where m': "gobble ?m (p + 1) = Some (m', p + 1 + of_nat (length ws))"
      "str_at m' (p + 1 + of_nat (length ws)) ys" "\<forall>a. m' a = (if in_run (p + 1) (length ws) a then 0 else ?m a)"
    using Cons.IH [of ?m "p + 1"] Cons.prems(2-4) unfolding list.set ball_simps by fastforce
  have "gobble m p = gobble ?m (p + 1)" using c(1,2) Cons.prems(2) by (simp add: gobble.simps [of m p])
  moreover have "m' a = (if in_run p (length (c # ws)) a then 0 else m a)" for a
    using m'(3) in_run_Cons [of "length ws" p a] Cons.prems(4) by auto
  moreover have "p + 1 + of_nat (length ws) = p + of_nat (length (c # ws))" by (simp add: add.assoc)
  ultimately show ?case using m'(1,2) by (metis (no_types))
qed

lemma skip_run:
  "str_at m p (w @ zs) \<Longrightarrow> \<forall>c \<in> set w. \<not> white c \<Longrightarrow> zs = [] \<or> white (hd zs) \<Longrightarrow>
   skip_arg m p = Some (p + of_nat (length w)) \<and> str_at m (p + of_nat (length w)) zs"
proof (induction w arbitrary: p)
  case Nil
  then show ?case by (cases zs) (auto simp: skip_arg.simps)
next
  case (Cons c w)
  from Cons.prems Cons.IH [of "p + 1"] show ?case by (simp add: skip_arg.simps [of m p] add.assoc)
qed


lemma str_at_prefix:
  "str_at m p (w @ zs) \<Longrightarrow> \<forall>a. in_run p (length w) a \<longrightarrow> m' a = m a \<Longrightarrow> m' (p + of_nat (length w)) = 0 \<Longrightarrow>
   length w < 2 ^ 64 \<Longrightarrow> str_at m' p w"
proof (induction w arbitrary: p)
  case (Cons x w)
  have "\<forall>a. in_run (p + 1) (length w) a \<longrightarrow> m' a = m a"
    using Cons.prems(2,4) in_run_Cons [of "length w" p] by simp
  moreover have "in_run p (Suc (length w)) p" by (simp add: in_run_def)
  ultimately show ?case using Cons.IH [of "p + 1"] Cons.prems by (simp add: add.assoc)
qed simp

text \<open>\<open>runcmd\<close> cuts the line in place: the arguments are the addresses of its words, each now a
  string of its own.\<close>

definition cut :: "bmem \<Rightarrow> u64 \<Rightarrow> u8 list \<Rightarrow> u64 list \<Rightarrow> u64 list option \<times> bmem \<Rightarrow> bool" where
  "cut m p xs argv r \<longleftrightarrow>
     (\<forall>a. \<not> in_run p (length xs) a \<longrightarrow> snd r a = m a) \<and> (xs \<noteq> [] \<and> white (hd xs) \<longrightarrow> snd r p = 0) \<and>
     (if length argv + length (line_words xs) < MAXARGS
      then \<exists>as. fst r = Some (argv @ as) \<and> list_all2 (str_at (snd r)) as (line_words xs) \<and> (\<forall>a \<in> set as. in_run p (length xs) a)
      else fst r = None)"

lemma parse_args_words:
  "str_at m p xs \<Longrightarrow> length xs + 2 < 2 ^ 64 \<Longrightarrow> length argv < MAXARGS \<Longrightarrow> \<exists>r. parse_args m p argv = Some r \<and> cut m p xs argv r"
proof (induction xs arbitrary: m p argv rule: line_words.induct)
  case (1 xs)
  define ws ys where "ws = takeWhile white xs" and "ys = dropWhile white xs"
  define w zs where "w = takeWhile (\<lambda>c. \<not> white c) ys" and "zs = dropWhile (\<lambda>c. \<not> white c) ys"
  have xs: "xs = ws @ ys" and ys: "ys = w @ zs" by (simp_all add: ws_def ys_def w_def zs_def)
  have c: "\<forall>c \<in> set ws. white c" "\<forall>c \<in> set w. \<not> white c" by (auto simp: ws_def w_def dest: set_takeWhileD)
  have hy: "ys = [] \<or> \<not> white (hd ys)" using hd_dropWhile [of white xs] by (auto simp: ys_def)
  have hz: "zs = [] \<or> white (hd zs)" using hd_dropWhile [of "\<lambda>c. \<not> white c" ys] by (auto simp: zs_def)
  have len: "length ws + length w + length zs + 2 < 2 ^ 64" using 1(3) by (simp add: xs ys)
  obtain m1 where m1: "gobble m p = Some (m1, p + of_nat (length ws))" "str_at m1 (p + of_nat (length ws)) ys"
      "\<forall>a. m1 a = (if in_run p (length ws) a then 0 else m a)"
    using gobble_run [of m p ws ys] 1(2,3) c(1) hy by (auto simp: xs)
  let ?q = "p + of_nat (length ws)"
  have in_ws: "in_run p (length ws) a \<Longrightarrow> in_run p (length xs) a" for a by (simp add: in_run_def xs)
  have p0: "xs \<noteq> [] \<and> white (hd xs) \<Longrightarrow> in_run p (length ws) p"
    by (cases xs) (simp_all add: ws_def in_run_def)
  have lw: "line_words xs = (if ys = [] then [] else w # line_words zs)"
    by (subst line_words.simps) (simp add: ys_def w_def zs_def Let_def)
  note step = parse_args.simps [of m p argv]
  show ?case
  proof (cases "ys = []")
    case True
    then have "parse_args m p argv = Some (Some argv, m1)" using m1(1,2) by (simp add: step)
    then show ?thesis using m1(3) in_ws p0 1(4) True lw by (auto simp: cut_def)
  next
    case ne: False
    have q: "m1 ?q \<noteq> 0" using m1(2) ne by (cases ys) auto
    show ?thesis
    proof (cases "length argv = MAXARGS - 1")
      case True
      then have "parse_args m p argv = Some (None, m1)" using m1(1) q by (simp add: step)
      then show ?thesis using m1(3) in_ws p0 True lw ne by (auto simp: cut_def)
    next
      case more: False
      let ?z = "?q + of_nat (length w)"
      have z: "skip_arg m1 ?q = Some ?z" "str_at m1 ?z zs"
        using skip_run [of m1 ?q w zs] m1(2) c(2) hz by (simp_all add: ys)
      have "dropWhile white xs \<noteq> []" using ne by (simp add: ys_def)
      note IH = 1(1) [OF refl this, folded ys_def, folded zs_def, OF z(2), of "argv @ [?q]"]
      have "length (argv @ [?q]) < MAXARGS" "length zs + 2 < 2 ^ 64" using 1(4) more len by simp_all
      with IH obtain r where r: "parse_args m1 ?z (argv @ [?q]) = Some r" "cut m1 ?z zs (argv @ [?q]) r" by blast
      have eq: "parse_args m p argv = Some r" using m1(1) q more z(1) r(1) by (simp add: step)
      have in_z: "in_run ?z (length zs) a \<longleftrightarrow> in_run p (length xs) a \<and> \<not> in_run p (length ws + length w) a" for a
        using in_run_run [of "length ws + length w" "length zs" p a] len by (simp add: xs ys add.assoc)
      have in_q: "in_run ?q (length w) a \<longleftrightarrow> in_run p (length ws + length w) a \<and> \<not> in_run p (length ws) a" for a
        using in_run_run [of "length ws" "length w" p a] len by simp
      have keep: "snd r a = m1 a" if "\<not> in_run ?z (length zs) a" for a using r(2) that by (simp add: cut_def)
      have z0: "snd r ?z = 0"
      proof (cases "zs = []")
        case True
        then show ?thesis using keep [of ?z] z(2) by (simp add: in_run_def)
      next
        case False
        then show ?thesis using r(2) hz by (simp add: cut_def)
      qed
      have first: "str_at (snd r) ?q w"
        using m1(2) [unfolded ys] keep in_z in_q z0 len by (intro str_at_prefix [of m1 ?q w zs]) auto
      have "w \<noteq> []" using ne hy by (cases ys) (auto simp: w_def)
      then have qin: "in_run p (length xs) ?q"
        using in_q [of ?q] by (auto simp: in_run_def xs ys)
      have out: "\<forall>a. \<not> in_run p (length xs) a \<longrightarrow> snd r a = m a" using keep in_z in_ws m1(3) by auto
      have pz: "xs \<noteq> [] \<and> white (hd xs) \<longrightarrow> snd r p = 0"
        using p0 m1(3) keep [of p] in_z [of p] by (auto simp: in_run_def)
      show ?thesis
      proof (cases "length argv + length (line_words xs) < MAXARGS")
        case True
        with r(2) lw ne obtain as where "fst r = Some (argv @ ?q # as)" "list_all2 (str_at (snd r)) as (line_words zs)"
            "\<forall>a \<in> set as. in_run ?z (length zs) a" by (auto simp: cut_def)
        then have "\<exists>as. fst r = Some (argv @ as) \<and> list_all2 (str_at (snd r)) as (line_words xs) \<and> (\<forall>a \<in> set as. in_run p (length xs) a)"
          using first qin in_z lw ne by (intro exI [of _ "?q # as"]) simp
        with True eq out pz show ?thesis by (auto simp: cut_def)
      next
        case False
        with r(2) lw ne have "fst r = None" by (simp add: cut_def)
        with False eq out pz show ?thesis by (auto simp: cut_def)
      qed
    qed
  qed
qed


lemma strcmp_str:
  "str_at m p xs \<Longrightarrow> str_at m q ys \<Longrightarrow> \<exists>d. strcmp m p q = Some d \<and> (d = 0 \<longleftrightarrow> xs = ys)"
proof (induction xs arbitrary: p q ys)
  case Nil
  then show ?case by (cases ys) (auto simp: strcmp.simps [of m p q] uint_0_iff)
next
  case (Cons x xs)
  show ?case
  proof (cases ys)
    case Nil
    then show ?thesis using Cons.prems by (simp add: strcmp.simps [of m p q] uint_0_iff)
  next
    case (Cons y ys')
    then show ?thesis using Cons.prems Cons.IH [of "p + 1" "q + 1" ys'] by (auto simp: strcmp.simps [of m p q] word_uint_eq_iff)
  qed
qed

fun index_of :: "'a \<Rightarrow> 'a list \<Rightarrow> nat \<Rightarrow> nat option" where
  "index_of w [] i = None"
| "index_of w (x # xs) i = (if x = w then Some i else index_of w xs (Suc i))"

lemma find_command_str:
  "str_at m a w \<Longrightarrow> list_all2 (str_at m) ns names \<Longrightarrow> find_command m a ns i = Some (index_of w names i)"
proof (induction ns arbitrary: names i)
  case (Cons n ns)
  then obtain x xs where n: "names = x # xs" "str_at m n x" "list_all2 (str_at m) ns xs" by (auto simp: list_all2_Cons1)
  from strcmp_str [OF Cons.prems(1) n(2)] Cons.IH [OF Cons.prems(1) n(3)] show ?case by (auto simp: n(1))
qed simp

text \<open>No command asks the monitor to stop.\<close>

lemma call_command_zero: "call_command k i s = Some (r, s') \<Longrightarrow> r = 0"
  by (auto simp: call_command_def mon_help_def mon_kerninfo_def mon_backtrace_def split: if_splits)

lemma runcmd_zero:
  assumes "runcmd k m p s = Some (r, m', s')"
  shows "r = 0"
proof -
  obtain argv m1 where "parse_args m p [] = Some (argv, m1)"
    and r: "(case argv of
         None \<Rightarrow> Some (0, m1, cprintf ''Too many arguments (max %d)'' [of_nat MAXARGS] s)
       | Some [] \<Rightarrow> Some (0, m1, s)
       | Some (a # as) \<Rightarrow>
           Option.bind (find_command m1 a (names_at k) 0) (\<lambda>cmd.
             case cmd of
               None \<Rightarrow> Some (0, m1, cprintf (''Unknown command '' @ quoted ''%s'') [a] s)
             | Some i \<Rightarrow> map_option (\<lambda>(r, s). (r, m1, s)) (call_command k i s))) = Some (r, m', s')"
    using assms unfolding runcmd_def by (cases "parse_args m p []") auto
  show ?thesis
  proof (cases argv)
    case (Some as)
    show ?thesis
    proof (cases as)
      case (Cons a as')
      obtain cmd where "find_command m1 a (names_at k) 0 = Some cmd"
        using r Some Cons by (cases "find_command m1 a (names_at k) 0") simp_all
      with r Some Cons show ?thesis by (cases cmd) (auto dest: call_command_zero)
    qed (use r Some in simp)
  qed (use r in simp)
qed

lemma monitor_loop_never: "monitor_loop k arrive lb m t s = Some r \<Longrightarrow> False"
proof (rule monitor_loop.raw_induct [where P = "\<lambda>k arrive lb m t s r. False"], goal_cases)
  case (1 f k arrive lb m t s r)
  from 1(3) obtain ok m1 t1 s1 where "(if \<not> ok then f k arrive lb m1 t1 s1
        else Option.bind (runcmd k m1 lb s1) (\<lambda>(r, m, s). if r < 0 then Some (m, t1, s) else f k arrive lb m t1 s)) = Some r"
    by (cases "monitor_readline k arrive lb m t s") auto
  moreover have n: "f k' ar' lb' m' t' s' = None" for k' ar' lb' m' t' s'
    using 1(2) [of k' ar' lb' m' t' s'] by (cases "f k' ar' lb' m' t' s'") blast+
  ultimately show ?case
    by (cases "runcmd k m1 lb s1") (auto simp: n split: if_splits dest: runcmd_zero)
qed


section \<open>What the interpreter does\<close>

definition command_names :: "u8 list list" where
  "command_names = [bytes_of ''help'', bytes_of ''kerninfo'', bytes_of ''backtrace'']"

text \<open>C34: \<open>runcmd\<close> on the line \<open>line\<close>, with \<open>ws\<close> its blank-separated words: nothing is done without a
  word, more than 15 words are refused, the command that the first word names is run, and any other
  word is reported, by its address, where it stands as a string of its own. Memory changes only
  inside the line, and the result is never negative.\<close>

theorem runcmd_correct:
  assumes "str_at m p line" "length line < BUFLEN" "ws = line_words line"
    and "list_all2 (str_at m) (names_at k) command_names"
    and "\<forall>n \<in> set (names_at k). \<forall>a. in_run n 10 a \<longrightarrow> \<not> in_run p (length line) a"
  shows "\<exists>m'. (\<forall>a. \<not> in_run p (length line) a \<longrightarrow> m' a = m a) \<and>
    (if ws = [] then runcmd k m p s = Some (0, m', s)
     else if MAXARGS \<le> length ws then runcmd k m p s = Some (0, m', cprintf ''Too many arguments (max %d)'' [16] s)
     else case index_of (hd ws) command_names 0 of
       Some 0 \<Rightarrow> runcmd k m p s = Some (0, m', snd (mon_help s))
     | Some (Suc 0) \<Rightarrow> runcmd k m p s = Some (0, m', snd (mon_kerninfo k s))
     | Some _ \<Rightarrow> runcmd k m p s = map_option (\<lambda>(r, s). (0, m', s)) (mon_backtrace k s)
     | None \<Rightarrow> \<exists>a. in_run p (length line) a \<and> str_at m' a (hd ws) \<and>
                 runcmd k m p s = Some (0, m', cprintf (''Unknown command '' @ quoted ''%s'') [a] s))"
proof -
  obtain r m' where r: "parse_args m p [] = Some (r, m')" "cut m p line [] (r, m')"
    using parse_args_words [OF assms(1), of "[]"] assms(2) by (auto simp: BUFLEN_def MAXARGS_def)
  have out: "\<forall>a. \<not> in_run p (length line) a \<longrightarrow> m' a = m a" using r(2) by (simp add: cut_def)
  have nm: "str_at m' n x" if "n \<in> set (names_at k)" "str_at m n x" "length x < 10" for n x
    using that(2) by (rule str_at_frame) (use that out assms(5) in \<open>auto simp: in_run_def\<close>)
  have len: "\<forall>x \<in> set command_names. length x < 10" by (simp add: command_names_def bytes_of_def)
  have names: "list_all2 (str_at m') (names_at k) command_names"
    using assms(4) by (rule list.rel_mono_strong) (use nm len in blast)
  show ?thesis
  proof (cases "length ws < MAXARGS")
    case few: True
    then obtain as where as: "r = Some as" "list_all2 (str_at m') as ws" "\<forall>a \<in> set as. in_run p (length line) a"
      using r(2) assms(3) by (auto simp: cut_def)
    show ?thesis
    proof (cases ws)
      case Nil
      then show ?thesis using as r(1) out by (auto simp: runcmd_def)
    next
      case (Cons w ws')
      then obtain a as' where a: "as = a # as'" "str_at m' a w" using as(2) by (auto simp: list_all2_Cons2)
      have run: "runcmd k m p s = (case index_of w command_names 0 of
          None \<Rightarrow> Some (0, m', cprintf (''Unknown command '' @ quoted ''%s'') [a] s)
        | Some i \<Rightarrow> map_option (\<lambda>(r, s). (r, m', s)) (call_command k i s))"
        by (simp add: runcmd_def r(1) as(1) a(1) find_command_str [OF a(2) names] del: append_Cons)
      have zero: "fst (mon_help s) = 0" "fst (mon_kerninfo k s) = 0"
        "map_option (\<lambda>(r, s). (r, m', s)) (mon_backtrace k s) = map_option (\<lambda>(r, s). (0, m', s)) (mon_backtrace k s)"
        by (simp_all add: mon_help_def mon_kerninfo_def mon_backtrace_def option.map_comp comp_def)
      have "case index_of w command_names 0 of
            Some 0 \<Rightarrow> runcmd k m p s = Some (0, m', snd (mon_help s))
          | Some (Suc 0) \<Rightarrow> runcmd k m p s = Some (0, m', snd (mon_kerninfo k s))
          | Some _ \<Rightarrow> runcmd k m p s = map_option (\<lambda>(r, s). (0, m', s)) (mon_backtrace k s)
          | None \<Rightarrow> runcmd k m p s = Some (0, m', cprintf (''Unknown command '' @ quoted ''%s'') [a] s)"
        using zero by (cases "mon_help s"; cases "mon_kerninfo k s")
          (auto simp: run call_command_def split: option.split nat.split simp del: append_Cons)
      then show ?thesis
        using few Cons out a as by (intro exI [of _ m']) (fastforce split: option.split nat.split simp del: append_Cons)
    qed
  next
    case many: False
    then have "r = None" using r(2) assms(3) by (simp add: cut_def)
    then show ?thesis using many r(1) out by (intro exI [of _ m']) (auto simp: runcmd_def MAXARGS_def)
  qed
qed

text \<open>The line \<open>bad x\<close> at address 1; the names of the commands at 64, 80 and 96.\<close>

definition demo_machine :: machine where
  "demo_machine = \<lparr>sym_start = 0, sym_entry = 0, sym_etext = 0, sym_edata = 0, sym_end = 0, reg_rbp0 = 0, reg_rip0 = 0,
     reg_rsp0 = 0, stack_word = (\<lambda>_. 0), stack_half = (\<lambda>_. 0), debug = (\<lambda>_. None), stale_ptr = 0, prompt_at = 0,
     names_at = [64, 80, 96]\<rparr>"

definition demo_memory :: bmem where
  "demo_memory a =
     (if a < 64 then literal ''bad x'' a else if a < 80 then literal ''help'' (a - 63)
      else if a < 96 then literal ''kerninfo'' (a - 79) else literal ''backtrace'' (a - 95))"

theorem runcmd_correct_witness:
  "\<forall>s. \<exists>m' a. in_run 1 (length (bytes_of ''bad x'')) a \<and> str_at m' a (bytes_of ''bad'') \<and>
     runcmd demo_machine demo_memory 1 s = Some (0, m', cprintf (''Unknown command '' @ quoted ''%s'') [a] s)"
proof
  fix s :: kstate
  have line: "str_at demo_memory 1 (bytes_of ''bad x'')" by (simp add: demo_memory_def literal_def bytes_of_def)
  have short: "length (bytes_of ''bad x'') < BUFLEN" by (simp add: bytes_of_def BUFLEN_def)
  have ws: "[bytes_of ''bad'', bytes_of ''x''] = line_words (bytes_of ''bad x'')"
    by (subst line_words.simps, simp add: white_iff bytes_of_def, subst line_words.simps, simp add: white_iff, subst line_words.simps, simp)
  have names: "list_all2 (str_at demo_memory) (names_at demo_machine) command_names"
    by (simp add: demo_memory_def demo_machine_def command_names_def literal_def bytes_of_def)
  have apart: "\<forall>n \<in> set (names_at demo_machine). \<forall>a. in_run n 10 a \<longrightarrow> \<not> in_run 1 (length (bytes_of ''bad x'')) a"
  proof (intro ballI allI impI notI)
    fix n a assume n: "n \<in> set (names_at demo_machine)" "in_run n 10 a" "in_run 1 (length (bytes_of ''bad x'')) a"
    have "length (bytes_of ''bad x'') = Suc (Suc (Suc (Suc (Suc 0))))" by (simp add: bytes_of_def)
    with n(3) have "a = 1 \<or> a = 2 \<or> a = 3 \<or> a = 4 \<or> a = 5" by (simp add: in_run_Cons) (auto simp: in_run_def)
    with n(1,2) show False by (auto simp: demo_machine_def in_run_def)
  qed
  show "\<exists>m' a. in_run 1 (length (bytes_of ''bad x'')) a \<and> str_at m' a (bytes_of ''bad'') \<and>
      runcmd demo_machine demo_memory 1 s = Some (0, m', cprintf (''Unknown command '' @ quoted ''%s'') [a] s)"
    using runcmd_correct [OF line short ws names apart, of s]
    by (simp add: MAXARGS_def command_names_def bytes_of_def del: append_Cons) blast
qed

text \<open>The monitor is never left: no command returns a negative number, so neither \<open>monitor\<close> nor the
  \<open>while\<close> loop of \<open>_panic\<close> around it comes back, whatever is typed. A breakpoint that enters the
  monitor stops the processor for good.\<close>

theorem monitor_never_returns: "monitor k arrive lb m t tf s = None"
proof -
  have "monitor_loop k arrive lb m t s = None" for s
    using monitor_loop_never by (cases "monitor_loop k arrive lb m t s") blast+
  then show ?thesis by (simp add: monitor_def Let_def)
qed

end
