(* ===== verification/Ulib.thy ===== *)
theory Ulib
  imports Trap_Exit
begin

text \<open>
  The run-time library of user programs: the system call stubs (\<open>lib/syscall.c\<close>, \<open>inc/lib.h\<close>),
  copy-on-write \<open>fork\<close> (\<open>lib/fork.c\<close>), message passing (\<open>lib/ipc.c\<close>), page fault handlers
  (\<open>lib/pgfault.c\<close>), start and end of a program (\<open>lib/libmain.c\<close>, \<open>lib/exit.c\<close>, \<open>lib/panic.c\<close>)
  and the console (\<open>lib/console.c\<close>).

  The library runs in one environment and sees the machine through \<open>int $T_SYSCALL\<close>. That
  instruction is the parameter \<open>kc\<close>: it takes the six registers and the state of the machine and
  gives the value in \<open>rax\<close> and the state in which the environment continues, or the way it did not
  continue. \<open>int48\<close> is the instance in which \<open>trap\<close> runs and comes straight back; a scheduler that
  lets other environments run in between is another. The static variables of the library are
  the fields of \<open>ustate\<close>.
\<close>

section \<open>The machine as a user program sees it\<close>

record ustate =
  kst :: kstate
  thisenv :: nat
  pgfault_handler :: u64
  binaryname :: u64

text \<open>A program stops in the kernel, in \<open>_panic\<close> (with its id and message), or at a page fault.\<close>

datatype ustop = InKernel stop | UserPanic u32 string | UserFault u64

type_synonym 'a ures = "(ustop \<times> ustate) + ('a \<times> ustate)"
type_synonym kcall = "u64 \<Rightarrow> u64 \<Rightarrow> u64 \<Rightarrow> u64 \<Rightarrow> u64 \<Rightarrow> u64 \<Rightarrow> kstate \<Rightarrow> int res"

definition bindU :: "'a ures \<Rightarrow> ('a \<Rightarrow> ustate \<Rightarrow> 'b ures) \<Rightarrow> 'b ures" where
  "bindU r f = (case r of Inl e \<Rightarrow> Inl e | Inr (x, u) \<Rightarrow> f x u)"

lemma bindU_simps [simp]:
  "bindU (Inl e) f = Inl e"
  "bindU (Inr (x, u)) f = f x u"
  by (simp_all add: bindU_def)

text \<open>
  Loads and stores of the program go through the page tables that \<open>cr3\<close> points to. The leaf entry
  must grant user access, and write access for a store; the entries of the tables above it always
  do, since the walkers write them so.
\<close>

definition uroot :: "ustate \<Rightarrow> nat" where
  "uroot u = unat (PPN (cr3 (kst u) (cpu (kst u))))"

definition uentry :: "u64 \<Rightarrow> u64 \<Rightarrow> ustate \<Rightarrow> u64 option" where
  "uentry rights va u =
     (case mapping (kst u) (uroot u) va of
        None \<Rightarrow> None
      | Some e \<Rightarrow> if e AND rights = rights then Some e else None)"

definition uload8 :: "u64 \<Rightarrow> ustate \<Rightarrow> u8 ures" where
  "uload8 va u =
     (case uentry PTE_U va u of
        None \<Rightarrow> Inl (UserFault va, u)
      | Some e \<Rightarrow> Inr (get_byte (mem (kst u) (unat (PPN e)) (unat (PGOFF va) div 8)) (unat (PGOFF va) mod 8), u))"

definition ustore8 :: "u64 \<Rightarrow> u8 \<Rightarrow> ustate \<Rightarrow> unit ures" where
  "ustore8 va b u =
     (case uentry (PTE_U OR PTE_W) va u of
        None \<Rightarrow> Inl (UserFault va, u)
      | Some e \<Rightarrow>
          let a = (unat (PPN e), unat (PGOFF va) div 8)
          in Inr ((), u\<lparr>kst := st a (put_byte (ld (kst u) a) (unat (PGOFF va) mod 8) b) (kst u)\<rparr>))"

text \<open>An aligned load of 64 bits, as in \<open>uvpt[i]\<close>.\<close>

definition uload64 :: "u64 \<Rightarrow> ustate \<Rightarrow> u64 ures" where
  "uload64 va u =
     (case uentry PTE_U va u of
        None \<Rightarrow> Inl (UserFault va, u)
      | Some e \<Rightarrow> Inr (mem (kst u) (unat (PPN e)) (unat (PGOFF va) div 8), u))"

text \<open>\<open>memcpy\<close> upwards, byte by byte; \<open>memmove_is_copy\<close> is why its instruction sequence is not repeated
  here: source and destination do not overlap.\<close>

fun umemcpy :: "u64 \<Rightarrow> u64 \<Rightarrow> nat \<Rightarrow> ustate \<Rightarrow> unit ures" where
  "umemcpy dst src 0 u = Inr ((), u)"
| "umemcpy dst src (Suc n) u =
     bindU (uload8 src u) (\<lambda>b u. bindU (ustore8 dst b u) (\<lambda>_ u. umemcpy (dst + 1) (src + 1) n u))"

section \<open>System calls\<close>

text \<open>The \<open>int\<close> instruction as the kernel handles it when it returns straight to the caller.\<close>

definition call_frame :: "Trapframe \<Rightarrow> u64 \<Rightarrow> u64 \<Rightarrow> u64 \<Rightarrow> u64 \<Rightarrow> u64 \<Rightarrow> u64 \<Rightarrow> Trapframe" where
  "call_frame tf num a1 a2 a3 a4 a5 =
     tf\<lparr>tf_trapno := of_nat T_SYSCALL, tf_cs := GD_UT OR 3,
        tf_regs := (tf_regs tf)\<lparr>reg_rax := num, reg_rdx := a1, reg_rcx := a2, reg_rbx := a3, reg_rdi := a4, reg_rsi := a5\<rparr>\<rparr>"

definition int48 ::
    "(tfptr \<Rightarrow> kstate \<Rightarrow> unit res) \<Rightarrow> (u64 \<Rightarrow> u64) \<Rightarrow> u64 \<Rightarrow> u64 \<Rightarrow> Trapframe \<Rightarrow> kcall" where
  "int48 mon rd rbp eflags tf num a1 a2 a3 a4 a5 s =
     (case trap mon rd rbp eflags (call_frame tf num a1 a2 a3 a4 a5) s of
        Inl (EnvRun e, s') \<Rightarrow>
          if curenv s = Some e then Inr (sint (reg_rax (tf_regs (env_tf (envs s' e)))), s')
          else Inl (EnvRun e, s')
      | Inl (why, s') \<Rightarrow> Inl (why, s')
      | Inr (_, s') \<Rightarrow> Inl (Hang, s'))"

definition raw_syscall :: "kcall \<Rightarrow> u64 \<Rightarrow> u64 \<Rightarrow> u64 \<Rightarrow> u64 \<Rightarrow> u64 \<Rightarrow> u64 \<Rightarrow> ustate \<Rightarrow> int ures" where
  "raw_syscall kc num a1 a2 a3 a4 a5 u =
     (case kc num a1 a2 a3 a4 a5 (kst u) of
        Inl (why, s) \<Rightarrow> Inl (InKernel why, u\<lparr>kst := s\<rparr>)
      | Inr (ret, s) \<Rightarrow> Inr (ret, u\<lparr>kst := s\<rparr>))"

text \<open>Conversions to the C types \<open>int\<close> and \<open>envid_t\<close> of the results.\<close>

definition int32 :: "int \<Rightarrow> int" where "int32 r = sint (word_of_int r :: u32)"

definition usys_getenvid :: "kcall \<Rightarrow> ustate \<Rightarrow> u32 ures" where
  "usys_getenvid kc u = bindU (raw_syscall kc SYS_getenvid 0 0 0 0 0 u) (\<lambda>r u. Inr (word_of_int r, u))"

text \<open>\<open>_panic\<close> prints its message and then executes \<open>int3\<close> for ever.\<close>

definition upanic :: "kcall \<Rightarrow> string \<Rightarrow> ustate \<Rightarrow> 'a ures" where
  "upanic kc msg u = bindU (usys_getenvid kc u) (\<lambda>id u. Inl (UserPanic id msg, u))"

definition usyscall :: "kcall \<Rightarrow> u64 \<Rightarrow> bool \<Rightarrow> u64 \<Rightarrow> u64 \<Rightarrow> u64 \<Rightarrow> u64 \<Rightarrow> u64 \<Rightarrow> ustate \<Rightarrow> int ures" where
  "usyscall kc num check a1 a2 a3 a4 a5 u =
     bindU (raw_syscall kc num a1 a2 a3 a4 a5 u) (\<lambda>ret u.
       if check \<and> 0 < ret then upanic kc ''syscall %d returned %d (> 0)'' u else Inr (ret, u))"

definition usys_cputs :: "kcall \<Rightarrow> u64 \<Rightarrow> u64 \<Rightarrow> ustate \<Rightarrow> unit ures" where
  "usys_cputs kc str len u = bindU (usyscall kc SYS_cputs False str len 0 0 0 u) (\<lambda>_ u. Inr ((), u))"

definition usys_cgetc :: "kcall \<Rightarrow> ustate \<Rightarrow> int ures" where
  "usys_cgetc kc u = bindU (usyscall kc SYS_cgetc False 0 0 0 0 0 u) (\<lambda>r u. Inr (int32 r, u))"

definition usys_env_destroy :: "kcall \<Rightarrow> u32 \<Rightarrow> ustate \<Rightarrow> int ures" where
  "usys_env_destroy kc envid u =
     bindU (usyscall kc SYS_env_destroy True (scast envid) 0 0 0 0 u) (\<lambda>r u. Inr (int32 r, u))"

definition usys_yield :: "kcall \<Rightarrow> ustate \<Rightarrow> unit ures" where
  "usys_yield kc u = bindU (usyscall kc SYS_yield False 0 0 0 0 0 u) (\<lambda>_ u. Inr ((), u))"

definition usys_page_alloc :: "kcall \<Rightarrow> u32 \<Rightarrow> u64 \<Rightarrow> u32 \<Rightarrow> ustate \<Rightarrow> int ures" where
  "usys_page_alloc kc envid va perm u =
     bindU (usyscall kc SYS_page_alloc True (scast envid) va (scast perm) 0 0 u) (\<lambda>r u. Inr (int32 r, u))"

definition usys_page_map :: "kcall \<Rightarrow> u32 \<Rightarrow> u64 \<Rightarrow> u32 \<Rightarrow> u64 \<Rightarrow> u32 \<Rightarrow> ustate \<Rightarrow> int ures" where
  "usys_page_map kc srcenv srcva dstenv dstva perm u =
     bindU (usyscall kc SYS_page_map True (scast srcenv) srcva (scast dstenv) dstva (scast perm) u)
       (\<lambda>r u. Inr (int32 r, u))"

definition usys_page_unmap :: "kcall \<Rightarrow> u32 \<Rightarrow> u64 \<Rightarrow> ustate \<Rightarrow> int ures" where
  "usys_page_unmap kc envid va u =
     bindU (usyscall kc SYS_page_unmap True (scast envid) va 0 0 0 u) (\<lambda>r u. Inr (int32 r, u))"

definition usys_exofork :: "kcall \<Rightarrow> ustate \<Rightarrow> u32 ures" where
  "usys_exofork kc u = bindU (raw_syscall kc SYS_exofork 0 0 0 0 0 u) (\<lambda>r u. Inr (word_of_int r, u))"

definition usys_env_set_status :: "kcall \<Rightarrow> u32 \<Rightarrow> u32 \<Rightarrow> ustate \<Rightarrow> int ures" where
  "usys_env_set_status kc envid status u =
     bindU (usyscall kc SYS_env_set_status True (scast envid) (scast status) 0 0 0 u) (\<lambda>r u. Inr (int32 r, u))"

definition usys_env_set_pgfault_upcall :: "kcall \<Rightarrow> u32 \<Rightarrow> u64 \<Rightarrow> ustate \<Rightarrow> int ures" where
  "usys_env_set_pgfault_upcall kc envid upcall u =
     bindU (usyscall kc SYS_env_set_pgfault_upcall True (scast envid) upcall 0 0 0 u) (\<lambda>r u. Inr (int32 r, u))"

definition usys_ipc_try_send :: "kcall \<Rightarrow> u32 \<Rightarrow> u64 \<Rightarrow> u64 \<Rightarrow> u32 \<Rightarrow> ustate \<Rightarrow> int ures" where
  "usys_ipc_try_send kc envid value srcva perm u =
     bindU (usyscall kc SYS_ipc_try_send False (scast envid) value srcva (scast perm) 0 u) (\<lambda>r u. Inr (int32 r, u))"

definition usys_ipc_recv :: "kcall \<Rightarrow> u64 \<Rightarrow> ustate \<Rightarrow> int ures" where
  "usys_ipc_recv kc dstva u =
     bindU (usyscall kc SYS_ipc_recv True dstva 0 0 0 0 u) (\<lambda>r u. Inr (int32 r, u))"

section \<open>lib/pgfault.c\<close>

text \<open>\<open>upcall\<close> is the address of the assembly routine \<open>_pgfault_upcall\<close>.\<close>

definition set_pgfault_handler :: "kcall \<Rightarrow> u64 \<Rightarrow> u64 \<Rightarrow> ustate \<Rightarrow> unit ures" where
  "set_pgfault_handler kc upcall h u =
     bindU (if pgfault_handler u = 0 then
              bindU (usys_getenvid kc u) (\<lambda>id u.
              bindU (usys_page_alloc kc id (UXSTACKTOP - PGSIZE) (ucast (PTE_W OR PTE_U OR PTE_P)) u) (\<lambda>result u.
                if result < 0 then upanic kc ''sys_page_alloc for stack failed in setting page fault handler'' u
                else
                  bindU (usys_getenvid kc u) (\<lambda>id u.
                  bindU (usys_env_set_pgfault_upcall kc id upcall u) (\<lambda>result u.
                    if result < 0 then upanic kc ''setting upcall failed in setting page fault handler'' u
                    else Inr ((), u)))))
            else Inr ((), u)) (\<lambda>_ u.
       Inr ((), u\<lparr>pgfault_handler := h\<rparr>))"

section \<open>lib/fork.c\<close>

definition PTE_COW :: u64 where "PTE_COW = 0x800"

text \<open>The windows on the page tables that \<open>lib/entry.S\<close> names.\<close>

definition uvpt :: "u64 \<Rightarrow> ustate \<Rightarrow> u64 ures" where "uvpt i u = uload64 (UVPT + 8 * i) u"
definition uvpd :: "u64 \<Rightarrow> ustate \<Rightarrow> u64 ures" where "uvpd i u = uload64 (UVPT + 0x80000000 + 8 * i) u"
definition uvpde :: "u64 \<Rightarrow> ustate \<Rightarrow> u64 ures" where "uvpde i u = uload64 (UVPT + 0x80400000 + 8 * i) u"
definition uvpml4e :: "u64 \<Rightarrow> ustate \<Rightarrow> u64 ures" where "uvpml4e i u = uload64 (UVPT + 0x80402000 + 8 * i) u"

definition VPD :: "u64 \<Rightarrow> u64" where "VPD la = drop_bit 21 la"
definition VPDPE :: "u64 \<Rightarrow> u64" where "VPDPE la = drop_bit 30 la"
definition VPML4E :: "u64 \<Rightarrow> u64" where "VPML4E la = drop_bit 39 la"

definition URW :: u32 where "URW = ucast (PTE_P OR PTE_U OR PTE_W)"
definition UCOW :: u32 where "UCOW = ucast (PTE_COW OR PTE_U OR PTE_P)"
definition URO :: u32 where "URO = ucast (PTE_P OR PTE_U)"

definition pgfault :: "kcall \<Rightarrow> u64 \<Rightarrow> u64 \<Rightarrow> ustate \<Rightarrow> unit ures" where
  "pgfault kc fault_va err u =
     (let addr = ROUNDDOWN fault_va PGSIZE in
      bindU (uvpt (addr div PGSIZE) u) (\<lambda>pte u.
        if \<not> (pte AND PTE_COW \<noteq> 0 \<and> err AND FEC_WR \<noteq> 0) then upanic kc ''not proper page fault'' u
        else
          bindU (usys_getenvid kc u) (\<lambda>id u.
          bindU (usys_page_alloc kc id PFTEMP URW u) (\<lambda>result u.
            if result < 0 then upanic kc ''page allocation failed in copy-on-write faulting page'' u
            else
              bindU (umemcpy PFTEMP addr (unat PGSIZE) u) (\<lambda>_ u.
              bindU (usys_getenvid kc u) (\<lambda>id1 u.
              bindU (usys_getenvid kc u) (\<lambda>id2 u.
              bindU (usys_page_map kc id1 PFTEMP id2 addr URW u) (\<lambda>result u.
                if result < 0 then upanic kc ''page mapping failed in copy-on-write faulting page'' u
                else
                  bindU (usys_getenvid kc u) (\<lambda>id u.
                  bindU (usys_page_unmap kc id PFTEMP u) (\<lambda>result u.
                    if result < 0 then upanic kc ''temporary page unmapping failed in copy-on-write faulting page'' u
                    else Inr ((), u)))))))))))"

definition duppage :: "kcall \<Rightarrow> u32 \<Rightarrow> u32 \<Rightarrow> ustate \<Rightarrow> int ures" where
  "duppage kc envid pn u =
     (let addr = ucast pn * PGSIZE in
      bindU (uvpt (ucast pn) u) (\<lambda>pte u.
        bindU (if pte AND PTE_COW \<noteq> 0 then Inr (True, u)
               else bindU (uvpt (ucast pn) u) (\<lambda>pte u. Inr (pte AND PTE_W \<noteq> 0, u))) (\<lambda>cow u.
          if cow then
            bindU (usys_getenvid kc u) (\<lambda>id u.
            bindU (usys_page_map kc id addr envid addr UCOW u) (\<lambda>result u.
              if result < 0 then Inr (-1, u)
              else
                bindU (usys_getenvid kc u) (\<lambda>id1 u.
                bindU (usys_getenvid kc u) (\<lambda>id2 u.
                bindU (usys_page_map kc id1 addr id2 addr UCOW u) (\<lambda>result u.
                  if result < 0 then Inr (-1, u) else Inr (0, u))))))
          else
            bindU (usys_getenvid kc u) (\<lambda>id u.
            bindU (usys_page_map kc id addr envid addr URO u) (\<lambda>result u.
              if result < 0 then Inr (-1, u) else Inr (0, u))))))"

text \<open>Whether the page at \<open>addr\<close> is to be duplicated.\<close>

definition page_visible :: "u64 \<Rightarrow> ustate \<Rightarrow> bool ures" where
  "page_visible addr u =
     bindU (uvpml4e (VPML4E addr) u) (\<lambda>e u.
       if e AND PTE_P = 0 then Inr (False, u)
       else bindU (uvpde (VPDPE addr) u) (\<lambda>e u.
         if e AND PTE_P = 0 then Inr (False, u)
         else bindU (uvpd (VPD addr) u) (\<lambda>e u.
           if e AND PTE_P = 0 then Inr (False, u)
           else bindU (uvpt (PPN addr) u) (\<lambda>e u. Inr (e AND (PTE_P OR PTE_U) \<noteq> 0, u)))))"

text \<open>The loop over the image: \<open>n\<close> pages from \<open>addr\<close> on. The result of \<open>duppage\<close> is not looked at.\<close>

fun dup_pages :: "kcall \<Rightarrow> u32 \<Rightarrow> nat \<Rightarrow> u64 \<Rightarrow> ustate \<Rightarrow> unit ures" where
  "dup_pages kc child 0 addr u = Inr ((), u)"
| "dup_pages kc child (Suc n) addr u =
     bindU (page_visible addr u) (\<lambda>perms u.
     bindU (if perms then bindU (duppage kc child (ucast (PPN addr)) u) (\<lambda>_ u. Inr ((), u)) else Inr ((), u)) (\<lambda>_ u.
       dup_pages kc child n (addr + PGSIZE) u))"

text \<open>The copy of the stack page for the child.\<close>

definition copy_stack :: "kcall \<Rightarrow> u32 \<Rightarrow> ustate \<Rightarrow> unit ures" where
  "copy_stack kc child u =
     bindU (usys_getenvid kc u) (\<lambda>id u.
     bindU (usys_page_alloc kc id PFTEMP URW u) (\<lambda>result u.
       if result < 0 then upanic kc ''page allocation failed in fork'' u
       else
         bindU (umemcpy PFTEMP (USTACKTOP - PGSIZE) (unat PGSIZE) u) (\<lambda>_ u.
         bindU (usys_getenvid kc u) (\<lambda>id u.
         bindU (usys_page_map kc id PFTEMP child (USTACKTOP - PGSIZE) URW u) (\<lambda>result u.
           if result < 0 then upanic kc ''page mapping failed in fork'' u
           else
             bindU (usys_getenvid kc u) (\<lambda>id u.
             bindU (usys_page_unmap kc id PFTEMP u) (\<lambda>result u.
               if result < 0 then upanic kc ''temporary page unmapping failed in copy-on-write faulting page'' u
               else Inr ((), u))))))))"

definition start_child :: "kcall \<Rightarrow> u64 \<Rightarrow> u32 \<Rightarrow> ustate \<Rightarrow> unit ures" where
  "start_child kc upcall child u =
     bindU (usys_page_alloc kc child (UXSTACKTOP - PGSIZE) URW u) (\<lambda>result u.
       if result < 0 then upanic kc ''page alloc of table failed in fork'' u
       else
         bindU (usys_env_set_pgfault_upcall kc child upcall u) (\<lambda>result u.
           if result < 0 then upanic kc ''setting upcall failed in fork'' u
           else
             bindU (usys_env_set_status kc child 2 u) (\<lambda>result u.
               if result < 0 then upanic kc ''changing statys is fork failed'' u
               else Inr ((), u))))"

text \<open>\<open>handler\<close> is the address of \<open>pgfault\<close> and \<open>uend\<close> the linker symbol \<open>end\<close>.\<close>

definition fork :: "kcall \<Rightarrow> u64 \<Rightarrow> u64 \<Rightarrow> u64 \<Rightarrow> ustate \<Rightarrow> int ures" where
  "fork kc upcall handler uend u =
     bindU (set_pgfault_handler kc upcall handler u) (\<lambda>_ u.
     bindU (usys_exofork kc u) (\<lambda>child u.
       if child = 0 then
         bindU (usys_getenvid kc u) (\<lambda>id u. Inr (0, u\<lparr>thisenv := ENVX id\<rparr>))
       else if sint child < 0 then Inr (-1, u)
       else
         bindU (dup_pages kc child ((unat uend - unat UTEXT + 4095) div 4096) UTEXT u) (\<lambda>_ u.
         bindU (copy_stack kc child u) (\<lambda>_ u.
         bindU (start_child kc upcall child u) (\<lambda>_ u.
           Inr (sint child, u))))))"

definition sfork :: "kcall \<Rightarrow> ustate \<Rightarrow> int ures" where
  "sfork kc u = upanic kc ''sfork not implemented'' u"

section \<open>lib/ipc.c\<close>

text \<open>\<open>NULL\<close> becomes an address that stands for no page.\<close>

definition page_or_none :: "u64 \<Rightarrow> u64" where "page_or_none pg = (if pg = 0 then -1 else pg)"

text \<open>The result, and what is stored behind \<open>from_env_store\<close> and \<open>perm_store\<close> when they are not \<open>NULL\<close>.\<close>

definition ipc_recv :: "kcall \<Rightarrow> u64 \<Rightarrow> ustate \<Rightarrow> (int \<times> u32 \<times> u32) ures" where
  "ipc_recv kc pg u =
     bindU (usys_ipc_recv kc (page_or_none pg) u) (\<lambda>result u.
       if result < 0 then Inr ((result, 0, 0), u)
       else let e = envs (kst u) (thisenv u) in
         Inr ((sint (env_ipc_value e), env_ipc_from e, env_ipc_perm e), u))"

partial_function (option) ipc_send_loop :: "kcall \<Rightarrow> u32 \<Rightarrow> u32 \<Rightarrow> u64 \<Rightarrow> u32 \<Rightarrow> ustate \<Rightarrow> unit ures option" where
  "ipc_send_loop kc to_env val pg perm u =
     (case usys_ipc_try_send kc to_env (ucast val) pg perm u of
        Inl e \<Rightarrow> Some (Inl e)
      | Inr (result, u) \<Rightarrow>
          if result = 0 then Some (Inr ((), u))
          else if result \<noteq> - E_IPC_NOT_RECV then Some (upanic kc ''syscall returned improper error'' u)
          else case usys_yield kc u of
            Inl e \<Rightarrow> Some (Inl e)
          | Inr (_, u) \<Rightarrow> ipc_send_loop kc to_env val pg perm u)"

definition ipc_send :: "kcall \<Rightarrow> u32 \<Rightarrow> u32 \<Rightarrow> u64 \<Rightarrow> u32 \<Rightarrow> ustate \<Rightarrow> unit ures option" where
  "ipc_send kc to_env val pg perm u = ipc_send_loop kc to_env val (page_or_none pg) perm u"

definition ipc_find_env :: "EnvType \<Rightarrow> ustate \<Rightarrow> u32" where
  "ipc_find_env type u =
     (case find (\<lambda>i. env_type (envs (kst u) i) = type) [0..<NENV] of
        None \<Rightarrow> 0 | Some i \<Rightarrow> env_id (envs (kst u) i))"

section \<open>lib/console.c, lib/exit.c, lib/libmain.c\<close>

text \<open>\<open>c_at\<close> is the address of the local variable whose byte is printed.\<close>

definition user_cputchar :: "kcall \<Rightarrow> u64 \<Rightarrow> u32 \<Rightarrow> ustate \<Rightarrow> unit ures" where
  "user_cputchar kc c_at ch u = bindU (ustore8 c_at (ucast ch) u) (\<lambda>_ u. usys_cputs kc c_at 1 u)"

partial_function (option) user_getchar :: "kcall \<Rightarrow> ustate \<Rightarrow> int ures option" where
  "user_getchar kc u =
     (case usys_cgetc kc u of
        Inl e \<Rightarrow> Some (Inl e)
      | Inr (r, u) \<Rightarrow>
          if r \<noteq> 0 then Some (Inr (r, u))
          else case usys_yield kc u of Inl e \<Rightarrow> Some (Inl e) | Inr (_, u) \<Rightarrow> user_getchar kc u)"

definition exit :: "kcall \<Rightarrow> ustate \<Rightarrow> unit ures" where
  "exit kc u = bindU (usys_env_destroy kc 0 u) (\<lambda>_ u. Inr ((), u))"

text \<open>\<open>umain\<close> is the program; \<open>argv0\<close> is \<open>argv[0]\<close>.\<close>

definition libmain :: "kcall \<Rightarrow> (int \<Rightarrow> u64 \<Rightarrow> ustate \<Rightarrow> unit ures) \<Rightarrow> int \<Rightarrow> u64 \<Rightarrow> u64 \<Rightarrow> ustate \<Rightarrow> unit ures" where
  "libmain kc umain argc argv argv0 u =
     bindU (usys_getenvid kc u) (\<lambda>id u.
       let u = u\<lparr>thisenv := ENVX id\<rparr>;
           u = (if 0 < argc then u\<lparr>binaryname := argv0\<rparr> else u)
       in bindU (umain argc argv u) (\<lambda>_ u. exit kc u))"

end
