(* ===== verification/Ulib_Calls.thy ===== *)
theory Ulib_Calls
  imports Ulib
begin

text \<open>
  The system call interface of user programs. The locale \<open>system_calls\<close> lists what the library
  relies on when it makes a system call that comes straight back; it is interpreted on \<open>int48\<close>, that
  is, on the kernel's \<open>trap\<close> with everything it does on the way in and out.
\<close>

section \<open>A call through trap\<close>

text \<open>Environment \<open>me\<close>, with root table \<open>r\<close>, runs user code on this processor.\<close>

definition runs :: "nat \<Rightarrow> nat \<Rightarrow> kstate \<Rightarrow> bool" where
  "runs me r s \<longleftrightarrow> curenv s = Some me \<and> env_status (envs s me) = ENV_RUNNING \<and>
     env_pml4e (envs s me) = Some (r, 0) \<and> r < 2 ^ 32 \<and> cr3 s (cpu s) = of_nat (r * 4096) \<and>
     locked (kernel_lock s) = 0 \<and> \<not> panicstr s \<and> cpu_status (cpus s (cpu s)) \<noteq> CPU_HALTED"

text \<open>What the kernel starts the system call from, and what it must keep for the way back.\<close>

definition enters :: "nat \<Rightarrow> Trapframe \<Rightarrow> kstate \<Rightarrow> kstate \<Rightarrow> bool" where
  "enters me tf s s0 \<longleftrightarrow>
     envs s0 = (envs s)(me := (envs s me)\<lparr>env_tf := tf\<rparr>) \<and> curenv s = Some me \<and> curenv s0 = Some me \<and> cpu s0 = cpu s \<and>
     mem s0 = mem s \<and> pages s0 = pages s \<and> page_free_list s0 = page_free_list s \<and> npages s0 = npages s \<and>
     boot_pml4e s0 = boot_pml4e s \<and> env_free_list s0 = env_free_list s \<and> \<not> panicstr s0 \<and>
     cpu_status (cpus s0 (cpu s0)) = CPU_STARTED \<and> holding (cpu s0) (kernel_lock s0)"

definition stays :: "nat \<Rightarrow> nat \<Rightarrow> kstate \<Rightarrow> kstate \<Rightarrow> bool" where
  "stays me r s0 s1 \<longleftrightarrow> cpus s1 = cpus s0 \<and> cpu s1 = cpu s0 \<and> kernel_lock s1 = kernel_lock s0 \<and>
     panicstr s1 = panicstr s0 \<and> env_status (envs s1 me) = ENV_RUNNING \<and> env_pml4e (envs s1 me) = Some (r, 0)"

definition leaves :: "nat \<Rightarrow> kstate \<Rightarrow> kstate \<Rightarrow> bool" where
  "leaves me s1 s' \<longleftrightarrow>
     (\<exists>tf n c. envs s' = (envs s1)(me := (envs s1 me)\<lparr>env_tf := tf, env_runs := n, env_cpunum := c\<rparr>)) \<and>
     cpu s' = cpu s1 \<and> mem s' = mem s1 \<and> pages s' = pages s1 \<and> page_free_list s' = page_free_list s1 \<and>
     npages s' = npages s1 \<and> boot_pml4e s' = boot_pml4e s1 \<and> env_free_list s' = env_free_list s1"

lemma lock_free:
  assumes "locked (kernel_lock s) = 0"
  shows "\<exists>lk. lock_or_hang rd rbp s = Inr ((), s\<lparr>kernel_lock := lk\<rparr>) \<and> holding (cpu s) lk"
  using assms
  by (intro exI [of _ "snd (try_lock (kernel_lock s))\<lparr>lk_cpu := Some (cpu s), pcs := get_caller_pcs rd rbp 10\<rparr>"])
    (simp add: lock_or_hang_def lock_kernel_def spin_lock_def holding_def try_lock_def xchg_locked_def record_holder_def)

lemma env_run_back:
  assumes "holding (cpu s) (kernel_lock s)" "curenv s = Some me" "env_status (envs s me) = ENV_RUNNING"
    "env_pml4e (envs s me) = Some (r, 0)" "r < 2 ^ 32" "\<not> panicstr s" "cpu_status (cpus s (cpu s)) \<noteq> CPU_HALTED"
  shows "\<exists>s'. env_run me s = Inl (EnvRun me, s') \<and> runs me r s' \<and> leaves me s s' \<and> env_tf (envs s' me) = env_tf (envs s me)"
proof -
  let ?e = "(envs s me)\<lparr>env_status := ENV_RUNNING, env_runs := env_runs (envs s me) + 1\<rparr>"
  define s2 where "s2 = upd_env me (\<lambda>x. x\<lparr>env_status := ENV_RUNNING, env_runs := env_runs x + 1\<rparr>)
      (set_curenv (Some me) (upd_env me (\<lambda>x. x\<lparr>env_status := ENV_RUNNABLE\<rparr>) s))"
  have s2: "envs s2 = (envs s)(me := ?e)" "cpu s2 = cpu s" "kernel_lock s2 = kernel_lock s" "mem s2 = mem s" "pages s2 = pages s"
    "page_free_list s2 = page_free_list s" "npages s2 = npages s" "boot_pml4e s2 = boot_pml4e s"
    "env_free_list s2 = env_free_list s" "panicstr s2 = panicstr s" "curenv s2 = Some me"
    "cpu_status (cpus s2 (cpu s)) = cpu_status (cpus s (cpu s))"
    by (simp_all add: s2_def upd_env_def set_curenv_def curenv_def fun_eq_iff)
  let ?pa = "of_nat (r * 4096) :: u64"
  let ?s3 = "(lcr3 ?pa s2)\<lparr>kernel_lock := (forget_holder (kernel_lock s))\<lparr>locked := 0\<rparr>\<rparr>"
  have "env_run me s = bindK (PADDR_ptr (env_pml4e (envs s2 me)) s2) (\<lambda>pa s.
         bindK (unlock_kernel (lcr3 pa s)) (\<lambda>_ s. env_pop_tf me s))"
    using assms(2,3) by (simp add: env_run_def s2_def Let_def)
  moreover have "unlock_kernel (lcr3 ?pa s2) = Inr ((), ?s3)"
    using unlock_kernel_held [of "lcr3 ?pa s2"] assms(1) s2 by (simp add: lcr3_def)
  ultimately have "env_run me s = Inl (EnvRun me, upd_env me (\<lambda>x. x\<lparr>env_cpunum := int (cpu s)\<rparr>) ?s3)"
    using assms(4,5) PADDR_kva [of "(r, 0)"] s2 by (simp add: PADDR_ptr_def env_pop_tf_def curenv_def lcr3_def)
  moreover have "leaves me s (upd_env me (\<lambda>x. x\<lparr>env_cpunum := int (cpu s)\<rparr>) ?s3)"
    unfolding leaves_def
    by (intro conjI exI [of _ "env_tf (envs s me)"] exI [of _ "env_runs (envs s me) + 1"] exI [of _ "int (cpu s)"])
      (use s2 assms(3) in \<open>simp_all add: upd_env_def lcr3_def fun_eq_iff\<close>)
  ultimately show ?thesis
    using s2 assms by (auto simp: runs_def upd_env_def lcr3_def curenv_def)
qed

text \<open>The way in and out of \<open>trap\<close> around any system call that returns to its caller.\<close>

lemma int48_returns:
  assumes run: "runs me r s"
    and call: "\<And>s0. enters me (call_frame tf num a1 a2 a3 a4 a5) s s0 \<Longrightarrow>
      \<exists>ret s1. syscall num a1 a2 a3 a4 a5 s0 = Inr (ret, s1) \<and> stays me r s0 s1 \<and> Q s0 ret s1"
  shows "\<exists>ret s0 s1 s'. int48 mon rd rbp 2 tf num a1 a2 a3 a4 a5 s = Inr (sint (word_of_int ret :: u64), s') \<and>
    enters me (call_frame tf num a1 a2 a3 a4 a5) s s0 \<and> Q s0 ret s1 \<and> leaves me s1 s' \<and> runs me r s'"
proof -
  let ?tf = "call_frame tf num a1 a2 a3 a4 a5"
  define sa where "sa = s\<lparr>stack_tf := ?tf, cpus := (cpus s)(cpu s := (cpus s (cpu s))\<lparr>cpu_status := CPU_STARTED\<rparr>)\<rparr>"
  have "locked (kernel_lock sa) = 0" using run by (simp add: sa_def runs_def)
  then obtain lk where lk: "lock_or_hang rd rbp sa = Inr ((), sa\<lparr>kernel_lock := lk\<rparr>)" "holding (cpu s) lk"
    using lock_free [of sa rd rbp] by (auto simp: sa_def)
  define s0 where "s0 = (upd_env me (\<lambda>x. x\<lparr>env_tf := ?tf\<rparr>) (sa\<lparr>kernel_lock := lk\<rparr>))\<lparr>last_tf := Some (TfEnv me)\<rparr>"
  have ent: "enters me ?tf s s0"
    using run lk(2) by (simp add: enters_def s0_def sa_def runs_def upd_env_def curenv_def fun_eq_iff)
  from call [OF ent] obtain ret s1 where s1: "syscall num a1 a2 a3 a4 a5 s0 = Inr (ret, s1)" "stays me r s0 s1" "Q s0 ret s1"
    by blast
  have cur: "curenv s1 = Some me" using s1(2) ent by (auto simp: stays_def enters_def curenv_def)
  let ?s2 = "put_tf (TfEnv me) (\<lambda>tf. tf\<lparr>tf_regs := (tf_regs tf)\<lparr>reg_rax := word_of_int ret\<rparr>\<rparr>) s1"
  have s2: "cpus ?s2 = cpus s1" "cpu ?s2 = cpu s1" "kernel_lock ?s2 = kernel_lock s1" "panicstr ?s2 = panicstr s1"
    "curenv ?s2 = curenv s1" "reg_rax (tf_regs (env_tf (envs ?s2 me))) = word_of_int ret"
    "env_status (envs ?s2 me) = env_status (envs s1 me)" "env_pml4e (envs ?s2 me) = env_pml4e (envs s1 me)"
    by (simp_all add: put_tf_def upd_env_def curenv_def)
  obtain s' where s': "env_run me ?s2 = Inl (EnvRun me, s')" "runs me r s'" "leaves me ?s2 s'"
      "env_tf (envs s' me) = env_tf (envs ?s2 me)"
    using env_run_back [of ?s2 me r] s1(2) ent cur run
    by (auto simp: s2 stays_def enters_def runs_def)
  have "leaves me s1 s'"
    using s'(3) by (auto simp: leaves_def put_tf_def upd_env_def)
  have cs: "tf_cs ?tf AND 3 = 3" "tf_trapno ?tf = 48" by (simp_all add: call_frame_def mmu_defs trap_numbers)
  have entry: "trap_user_entry rd rbp sa = Inr (me, s0\<lparr>last_tf := last_tf s\<rparr>)"
    using run lk(1) by (simp add: trap_user_entry_def s0_def sa_def runs_def upd_env_def curenv_def)
  have disp: "trap_dispatch mon (TfEnv me) s0 = Inr ((), ?s2)"
    using s1(1) ent by (simp add: trap_dispatch_def get_tf_def enters_def call_frame_def trap_numbers Let_def)
  have tail: "trap_tail ?s2 = Inl (EnvRun me, s')"
    using s'(1) cur s1(2) s2 by (simp add: trap_tail_def stays_def)
  have "s0\<lparr>last_tf := last_tf s, last_tf := Some (TfEnv me)\<rparr> = s0" by (simp add: s0_def)
  then have "trap mon rd rbp 2 ?tf s = Inl (EnvRun me, s')"
    using run entry disp tail cs(1) by (simp add: trap_def runs_def sa_def [symmetric] FL_IF_def Let_def)
  then have "int48 mon rd rbp 2 tf num a1 a2 a3 a4 a5 s = Inr (sint (word_of_int ret :: u64), s')"
    using run s'(4) s2(6) by (simp add: int48_def runs_def)
  then show ?thesis using ent s1(3) \<open>leaves me s1 s'\<close> s'(2) by blast
qed

section \<open>What the library relies on\<close>

definition names :: "kstate \<Rightarrow> u32 \<Rightarrow> nat \<Rightarrow> bool" where
  "names s i e \<longleftrightarrow> envid2env i True s = Inr ((0, Some e), s)"

text \<open>An environment up to its registers and its statistics.\<close>

definition ident :: "Env \<Rightarrow> Env" where
  "ident v = v\<lparr>env_tf := zero_tf, env_runs := 0, env_cpunum := 0\<rparr>"

definition same_procs :: "kstate \<Rightarrow> kstate \<Rightarrow> bool" where
  "same_procs s s' \<longleftrightarrow> (\<forall>e. ident (envs s' e) = ident (envs s e)) \<and> curenv s' = curenv s \<and> cpu s' = cpu s \<and>
     boot_pml4e s' = boot_pml4e s \<and> env_free_list s' = env_free_list s \<and> npages s' = npages s"

definition same_mm :: "kstate \<Rightarrow> kstate \<Rightarrow> bool" where
  "same_mm s s' \<longleftrightarrow> mem s' = mem s \<and> pages s' = pages s \<and> page_free_list s' = page_free_list s \<and> npages s' = npages s"

lemma ident_fields:
  assumes "ident v = ident w"
  shows "env_id v = env_id w" "env_parent_id v = env_parent_id w" "env_pml4e v = env_pml4e w"
    "env_status v = env_status w" "env_pgfault_upcall v = env_pgfault_upcall w" "env_link v = env_link w"
  using assms unfolding ident_def by (cases v; cases w; simp)+

lemma ident_upd [simp]:
  "ident (v\<lparr>env_tf := tf\<rparr>) = ident v" "ident (v\<lparr>env_tf := tf, env_runs := n, env_cpunum := c\<rparr>) = ident v"
  by (simp_all add: ident_def)

lemma same_procs_refl [simp]: "same_procs s s" by (simp add: same_procs_def)
lemma same_procs_trans: "same_procs s t \<Longrightarrow> same_procs t u \<Longrightarrow> same_procs s u" by (simp add: same_procs_def)
lemma same_mm_refl [simp]: "same_mm s s" by (simp add: same_mm_def)
lemma same_mm_trans: "same_mm s t \<Longrightarrow> same_mm t u \<Longrightarrow> same_mm s u" by (simp add: same_mm_def)

lemma same_procs_fields:
  assumes "same_procs s s'"
  shows "env_id (envs s' e) = env_id (envs s e)" "env_parent_id (envs s' e) = env_parent_id (envs s e)"
    "env_pml4e (envs s' e) = env_pml4e (envs s e)" "env_status (envs s' e) = env_status (envs s e)"
    "curenv s' = curenv s" "cpu s' = cpu s" "npages s' = npages s"
  using assms ident_fields [of "envs s' e" "envs s e"] by (simp_all add: same_procs_def)

lemma names_cong: "same_procs s s' \<Longrightarrow> names s' i e \<longleftrightarrow> names s i e"
proof -
  assume p: "same_procs s s'"
  note f = same_procs_fields [OF p]
  show ?thesis
    unfolding names_def envid2env_def Let_def f by (cases "curenv s") (auto simp: f)
qed

lemma same_mm_cong:
  assumes "same_mm s s'"
  shows "pt_wf sl ow s' fl \<longleftrightarrow> pt_wf sl ow s fl" "mapping s' = mapping s" "first_nonzero s' = first_nonzero s"
    "replaceable ow s' fl q va \<longleftrightarrow> replaceable ow s fl q va" "old_page s' q va = old_page s q va" "nxt s' = nxt s"
proof -
  show "pt_wf sl ow s' fl \<longleftrightarrow> pt_wf sl ow s fl" using assms by (intro pt_wf_cong) (simp_all add: same_mm_def)
  show m: "mapping s' = mapping s" using assms by (intro mapping_cong) (simp add: same_mm_def)
  show f: "first_nonzero s' = first_nonzero s" using assms by (intro first_nonzero_cong) (simp add: same_mm_def)
  show "replaceable ow s' fl q va \<longleftrightarrow> replaceable ow s fl q va"
    using assms unfolding replaceable_def m f same_mm_def by (cases "mapping s q va") simp_all
  show "old_page s' q va = old_page s q va" by (simp add: old_page_def m)
  show "nxt s' = nxt s" using assms by (simp add: nxt_def fun_eq_iff same_mm_def)
qed

text \<open>The effects of the memory calls.\<close>

definition allocates :: "(nat \<Rightarrow> nat set) \<Rightarrow> owner \<Rightarrow> kstate \<Rightarrow> nat \<Rightarrow> nat list \<Rightarrow> nat \<Rightarrow> u64 \<Rightarrow> u32 \<Rightarrow>
    owner \<Rightarrow> kstate \<Rightarrow> nat list \<Rightarrow> bool" where
  "allocates sl ow s x rest q va perm ow' s' fl' \<longleftrightarrow>
     puts sl ow s (x # rest) q va (page2pa x OR scast (perm OR 1)) ow' s' fl' \<and>
     pp_ref (pages s' x) = 1 \<and> mem s' x = (\<lambda>_. 0) \<and> ow' x = None \<and> x \<notin> set fl' \<and>
     (\<forall>p. p \<notin> set (x # rest) \<longrightarrow> pp_ref (pages s' p) =
        pp_ref (pages s p) - (if old_page s q va = Some p then 1 else 0))"

definition shares :: "(nat \<Rightarrow> nat set) \<Rightarrow> owner \<Rightarrow> kstate \<Rightarrow> nat list \<Rightarrow> nat \<Rightarrow> u64 \<Rightarrow> nat \<Rightarrow> u32 \<Rightarrow>
    owner \<Rightarrow> kstate \<Rightarrow> nat list \<Rightarrow> bool" where
  "shares sl ow s fl q va pp perm ow' s' fl' \<longleftrightarrow>
     puts sl ow s fl q va (page2pa pp OR scast (perm OR 1)) ow' s' fl' \<and>
     (\<forall>p. p \<notin> set fl \<longrightarrow> pp_ref (pages s' p) =
        pp_ref (pages s p) - (if old_page s q va = Some p then 1 else 0) + (if p = pp then 1 else 0))"

definition drops :: "(nat \<Rightarrow> nat set) \<Rightarrow> owner \<Rightarrow> kstate \<Rightarrow> nat list \<Rightarrow> nat \<Rightarrow> u64 \<Rightarrow> nat \<Rightarrow> kstate \<Rightarrow> bool" where
  "drops sl ow s fl q va pp s' \<longleftrightarrow>
     pt_wf sl ow s' (if pp_ref (pages s pp) = 1 then pp # fl else fl) \<and>
     mapping s' q va = None \<and> others_kept sl ow s q va s' \<and>
     (\<forall>p. pp_ref (pages s' p) = pp_ref (pages s p) - (if p = pp then 1 else 0)) \<and>
     (\<forall>p. ow p = None \<longrightarrow> mem s' p = mem s p)"

lemma effects_cong:
  assumes "same_mm s t" "same_mm s' t'"
  shows "puts sl ow t fl q va e ow' t' fl' \<longleftrightarrow> puts sl ow s fl q va e ow' s' fl'"
    "refused sl ow t fl ow' t' fl' \<longleftrightarrow> refused sl ow s fl ow' s' fl'"
    "allocates sl ow t x rest q va perm ow' t' fl' \<longleftrightarrow> allocates sl ow s x rest q va perm ow' s' fl'"
    "shares sl ow t fl q va pp perm ow' t' fl' \<longleftrightarrow> shares sl ow s fl q va pp perm ow' s' fl'"
    "drops sl ow t fl q va pp t' \<longleftrightarrow> drops sl ow s fl q va pp s'"
proof -
  note c = same_mm_cong [OF assms(1)] same_mm_cong [OF assms(2)]
  have m: "mem t = mem s" "mem t' = mem s'" "pages t = pages s" "pages t' = pages s'"
    using assms by (simp_all add: same_mm_def)
  show p: "puts sl ow t fl q va e ow' t' fl' \<longleftrightarrow> puts sl ow s fl q va e ow' s' fl'" for fl e
    by (simp add: puts_def others_kept_def c m)
  show "refused sl ow t fl ow' t' fl' \<longleftrightarrow> refused sl ow s fl ow' s' fl'"
    by (simp add: refused_def c m)
  show "allocates sl ow t x rest q va perm ow' t' fl' \<longleftrightarrow> allocates sl ow s x rest q va perm ow' s' fl'"
    by (simp add: allocates_def p c m)
  show "shares sl ow t fl q va pp perm ow' t' fl' \<longleftrightarrow> shares sl ow s fl q va pp perm ow' s' fl'"
    by (simp add: shares_def p c m)
  show "drops sl ow t fl q va pp t' \<longleftrightarrow> drops sl ow s fl q va pp s'"
    by (simp add: drops_def others_kept_def c m)
qed

lemma effects_back:
  assumes "same_mm s s0" "same_mm s1 s'"
  shows "refused sl ow s0 fl ow' s1 fl' \<Longrightarrow> refused sl ow s fl ow' s' fl'"
    "allocates sl ow s0 x rest q va perm ow' s1 fl' \<Longrightarrow> allocates sl ow s x rest q va perm ow' s' fl'"
    "shares sl ow s0 fl q va pp perm ow' s1 fl' \<Longrightarrow> shares sl ow s fl q va pp perm ow' s' fl'"
    "drops sl ow s0 fl q va pp s1 \<Longrightarrow> drops sl ow s fl q va pp s'"
proof -
  have "same_mm s0 s" using assms(1) by (simp add: same_mm_def)
  note c = effects_cong [OF this assms(2)]
  show "refused sl ow s0 fl ow' s1 fl' \<Longrightarrow> refused sl ow s fl ow' s' fl'" by (simp only: c)
  show "allocates sl ow s0 x rest q va perm ow' s1 fl' \<Longrightarrow> allocates sl ow s x rest q va perm ow' s' fl'" by (simp only: c)
  show "shares sl ow s0 fl q va pp perm ow' s1 fl' \<Longrightarrow> shares sl ow s fl q va pp perm ow' s' fl'" by (simp only: c)
  show "drops sl ow s0 fl q va pp s1 \<Longrightarrow> drops sl ow s fl q va pp s'" by (simp only: c)
qed

locale system_calls =
  fixes kc :: kcall
  assumes getenvid_call: "runs me r s \<Longrightarrow>
      \<exists>s'. kc SYS_getenvid 0 0 0 0 0 s = Inr (sint (env_id (envs s me)), s') \<and> runs me r s' \<and> same_procs s s' \<and> same_mm s s'"
    and page_alloc_call: "runs me r s \<Longrightarrow> pt_wf sl ow s (x # rest) \<Longrightarrow> names s i e \<Longrightarrow> env_pml4e (envs s e) = Some (q, 0) \<Longrightarrow>
      root_ok sl ow q va \<Longrightarrow> replaceable ow s (x # rest) q va \<Longrightarrow> \<not> va_bad va \<Longrightarrow> \<not> perm_bad perm \<Longrightarrow>
      \<exists>rc s' ow' fl'. kc SYS_page_alloc (scast i) va (scast perm) 0 0 s = Inr (rc, s') \<and> runs me r s' \<and> same_procs s s' \<and>
        (rc = 0 \<and> allocates sl ow s x rest q va perm ow' s' fl' \<or>
         rc = - E_NO_MEM \<and> length rest < 3 \<and> refused sl ow s (x # rest) ow' s' fl')"
    and page_map_call: "runs me r s \<Longrightarrow> pt_wf sl ow s fl \<Longrightarrow> names s srcid e \<Longrightarrow> env_pml4e (envs s e) = Some (p, 0) \<Longrightarrow>
      names s dstid e' \<Longrightarrow> env_pml4e (envs s e') = Some (q, 0) \<Longrightarrow> root_ok sl ow p srcva \<Longrightarrow> root_ok sl ow q dstva \<Longrightarrow>
      \<not> va_bad srcva \<Longrightarrow> \<not> va_bad dstva \<Longrightarrow> \<not> perm_bad perm \<Longrightarrow>
      mapping s p srcva = Some m \<Longrightarrow> first_nonzero s p srcva \<Longrightarrow> pp = unat (PPN m) \<Longrightarrow> pp < npages s \<Longrightarrow> pp \<notin> set fl \<Longrightarrow>
      replaceable ow s fl q dstva \<Longrightarrow> (old_page s q dstva = Some pp \<longrightarrow> pp_ref (pages s pp) \<noteq> 1) \<Longrightarrow>
      \<exists>rc s' ow' fl'. kc SYS_page_map (scast srcid) srcva (scast dstid) dstva (scast perm) s = Inr (rc, s') \<and>
        runs me r s' \<and> same_procs s s' \<and>
        (rc = 0 \<and> shares sl ow s fl q dstva pp perm ow' s' fl' \<or>
         rc = - E_NO_MEM \<and> length fl < 3 \<and> refused sl ow s fl ow' s' fl')"
    and page_unmap_call: "runs me r s \<Longrightarrow> pt_wf sl ow s fl \<Longrightarrow> names s i e \<Longrightarrow> env_pml4e (envs s e) = Some (q, 0) \<Longrightarrow>
      root_ok sl ow q va \<Longrightarrow> \<not> va_bad va \<Longrightarrow> first_nonzero s q va \<Longrightarrow>
      mapping s q va = Some m \<Longrightarrow> pp = unat (PPN m) \<Longrightarrow> pp < npages s \<Longrightarrow> pp \<notin> set fl \<Longrightarrow> ow pp = None \<Longrightarrow>
      \<exists>s'. kc SYS_page_unmap (scast i) va 0 0 0 s = Inr (0, s') \<and> runs me r s' \<and> same_procs s s' \<and>
        drops sl ow s fl q va pp s'"

section \<open>The kernel keeps its side\<close>

lemma enters_view:
  assumes "enters me tf s s0"
  shows "same_procs s s0" "same_mm s s0"
  using assms by (auto simp: enters_def same_procs_def same_mm_def)

lemma leaves_view:
  assumes "leaves me s1 s'"
  shows "\<forall>e. ident (envs s' e) = ident (envs s1 e)" "same_mm s1 s'"
    "cpu s' = cpu s1" "boot_pml4e s' = boot_pml4e s1" "env_free_list s' = env_free_list s1"
  using assms by (auto simp: leaves_def same_mm_def)

lemma mm_call:
  assumes "enters me tf s s0" "only_mm_tlb s0 s1"
  shows "stays me r s0 s1 \<longleftrightarrow> env_status (envs s me) = ENV_RUNNING \<and> env_pml4e (envs s me) = Some (r, 0)"
    "leaves me s1 s' \<Longrightarrow> runs me r s' \<Longrightarrow> same_procs s s'"
proof -
  note f = only_mm_tlb_fields [OF assms(2)]
  have "panicstr s1 = panicstr s0" using assms(2) unfolding only_mm_tlb_def by (cases s0; cases s1) simp
  then show "stays me r s0 s1 \<longleftrightarrow> env_status (envs s me) = ENV_RUNNING \<and> env_pml4e (envs s me) = Some (r, 0)"
    using assms(1) by (auto simp: stays_def f enters_def)
  assume l: "leaves me s1 s'" and r: "runs me r s'"
  show "same_procs s s'"
    using leaves_view [OF l] assms(1) r f by (auto simp: same_procs_def enters_def runs_def same_mm_def)
qed

lemma sint_result: "- (2 ^ 63) \<le> k \<Longrightarrow> k < 2 ^ 63 \<Longrightarrow> sint (word_of_int k :: u64) = k"
  by transfer (simp add: signed_take_bit_int_eq_self)

lemma sint_id: "sint (word_of_int (sint (i :: u32)) :: u64) = sint i"
  using sint_ge [of i] sint_lt [of i] by (intro sint_result) simp_all

lemma ucast_scast32 [simp]: "ucast (scast (i :: u32) :: u64) = i"
  by (rule bit_word_eqI) (simp add: bit_simps)


text \<open>A memory call through \<open>trap\<close>, from what the kernel's function does.\<close>

lemma int48_mm:
  assumes run: "runs me r s"
    and call: "\<And>s0. enters me (call_frame tf num a1 a2 a3 a4 a5) s s0 \<Longrightarrow>
      \<exists>ret s1. syscall num a1 a2 a3 a4 a5 s0 = Inr (ret, s1) \<and> only_mm_tlb s0 s1 \<and> \<bar>ret\<bar> < 2 ^ 63 \<and> Q s0 ret s1"
    and view: "\<And>s0 s1 s' ret. same_mm s s0 \<Longrightarrow> same_mm s1 s' \<Longrightarrow> Q s0 ret s1 \<Longrightarrow> Q s ret s'"
  shows "\<exists>ret s'. int48 mon rd rbp 2 tf num a1 a2 a3 a4 a5 s = Inr (ret, s') \<and> runs me r s' \<and> same_procs s s' \<and> Q s ret s'"
proof -
  have "env_status (envs s me) = ENV_RUNNING" "env_pml4e (envs s me) = Some (r, 0)" using run by (simp_all add: runs_def)
  then have "\<exists>ret s1. syscall num a1 a2 a3 a4 a5 s0 = Inr (ret, s1) \<and> stays me r s0 s1 \<and>
      (only_mm_tlb s0 s1 \<and> \<bar>ret\<bar> < 2 ^ 63 \<and> Q s0 ret s1)" if "enters me (call_frame tf num a1 a2 a3 a4 a5) s s0" for s0
    using call [OF that] mm_call(1) [OF that] by blast
  then have "\<exists>ret s0 s1 s'. int48 mon rd rbp 2 tf num a1 a2 a3 a4 a5 s = Inr (sint (word_of_int ret :: u64), s') \<and>
      enters me (call_frame tf num a1 a2 a3 a4 a5) s s0 \<and> (only_mm_tlb s0 s1 \<and> \<bar>ret\<bar> < 2 ^ 63 \<and> Q s0 ret s1) \<and>
      leaves me s1 s' \<and> runs me r s'"
    by (intro int48_returns [OF run]) blast
  then obtain ret s0 s1 s' where
      "int48 mon rd rbp 2 tf num a1 a2 a3 a4 a5 s = Inr (sint (word_of_int ret :: u64), s')"
      "enters me (call_frame tf num a1 a2 a3 a4 a5) s s0" "only_mm_tlb s0 s1" "\<bar>ret\<bar> < 2 ^ 63" "Q s0 ret s1" "leaves me s1 s'" "runs me r s'"
    by blast
  note h = this
  have "Q s ret s'" using view [OF enters_view(2) [OF h(2)] leaves_view(2) [OF h(6)] h(5)] .
  moreover have "same_procs s s'" using mm_call(2) [OF h(2,3,6,7)] .
  ultimately show ?thesis using h(1,4,7) sint_result [of ret] by auto
qed

lemma names_envid2env: "names s i e \<Longrightarrow> envid2env i True s = Inr ((0, Some e), s)"
  by (simp add: names_def)

interpretation trapped: system_calls "int48 mon rd rbp 2 tf" for mon rd rbp tf
proof unfold_locales
  fix me r s assume run: "runs me r s"
  have "\<exists>ret s1. syscall SYS_getenvid 0 0 0 0 0 s0 = Inr (ret, s1) \<and> only_mm_tlb s0 s1 \<and> \<bar>ret\<bar> < 2 ^ 63 \<and>
      (same_mm s0 s1 \<and> ret = sint (env_id (envs s me)))" if "enters me (call_frame tf SYS_getenvid 0 0 0 0 0) s s0" for s0
    using that sint_ge [of "env_id (envs s me)"] sint_lt [of "env_id (envs s me)"] only_mm_tlbI [OF only_mm_refl]
    by (simp add: syscall_def syscall_numbers sys_getenvid_def enters_def abs_less_iff)
  then have "\<exists>ret s'. int48 mon rd rbp 2 tf SYS_getenvid 0 0 0 0 0 s = Inr (ret, s') \<and> runs me r s' \<and> same_procs s s' \<and>
      (same_mm s s' \<and> ret = sint (env_id (envs s me)))"
    by (rule int48_mm [OF run]) (blast, meson same_mm_trans)
  then show "\<exists>s'. int48 mon rd rbp 2 tf SYS_getenvid 0 0 0 0 0 s = Inr (sint (env_id (envs s me)), s') \<and>
      runs me r s' \<and> same_procs s s' \<and> same_mm s s'"
    by blast
next
  fix me r s sl ow x rest i e q va and perm :: u32
  assume a: "runs me r s" "pt_wf sl ow s (x # rest)" "names s i e" "env_pml4e (envs s e) = Some (q, 0)"
    "root_ok sl ow q va" "replaceable ow s (x # rest) q va" "\<not> va_bad va" "\<not> perm_bad perm"
  let ?Q = "\<lambda>s0 rc s1. \<exists>ow' fl'. rc = 0 \<and> allocates sl ow s0 x rest q va perm ow' s1 fl' \<or>
         rc = - E_NO_MEM \<and> length rest < 3 \<and> refused sl ow s0 (x # rest) ow' s1 fl'"
  have "\<exists>ret s1. syscall SYS_page_alloc (scast i) va (scast perm) 0 0 s0 = Inr (ret, s1) \<and> only_mm_tlb s0 s1 \<and>
      \<bar>ret\<bar> < 2 ^ 63 \<and> ?Q s0 ret s1" if ent: "enters me (call_frame tf SYS_page_alloc (scast i) va (scast perm) 0 0) s s0" for s0
  proof -
    note v = enters_view [OF ent]
    have "envid2env i True s0 = Inr ((0, Some e), s0)" using a(3) names_cong [OF v(1)] by (simp add: names_def)
    moreover have "env_pml4e (envs s0 e) = Some (q, 0)" using a(4) same_procs_fields [OF v(1)] by simp
    ultimately obtain rc s1 ow' fl' where "sys_page_alloc i va perm s0 = Inr (rc, s1)" "only_mm_tlb s0 s1"
        "rc = 0 \<and> allocates sl ow s0 x rest q va perm ow' s1 fl' \<or>
         rc = - E_NO_MEM \<and> length rest < 3 \<and> refused sl ow s0 (x # rest) ow' s1 fl'"
      using sys_page_alloc_lemma [of sl ow s0 x rest i e q va perm] a(2,5-8) same_mm_cong [OF v(2)]
      unfolding allocates_def by blast
    then show ?thesis
      by (intro exI [of _ rc] exI [of _ s1]) (auto simp: syscall_def syscall_numbers E_NO_MEM_def)
  qed
  then have "\<exists>ret s'. int48 mon rd rbp 2 tf SYS_page_alloc (scast i) va (scast perm) 0 0 s = Inr (ret, s') \<and> runs me r s' \<and> same_procs s s' \<and>
      ?Q s ret s'"
    by (rule int48_mm [OF a(1)]) (blast, meson effects_back)
  then show "\<exists>rc s' ow' fl'. int48 mon rd rbp 2 tf SYS_page_alloc (scast i) va (scast perm) 0 0 s = Inr (rc, s') \<and>
      runs me r s' \<and> same_procs s s' \<and> (rc = 0 \<and> allocates sl ow s x rest q va perm ow' s' fl' \<or>
         rc = - E_NO_MEM \<and> length rest < 3 \<and> refused sl ow s (x # rest) ow' s' fl')"
    by blast
next
  fix me r s sl ow fl srcid e p dstid e' q srcva dstva m pp and perm :: u32
  assume a: "runs me r s" "pt_wf sl ow s fl" "names s srcid e" "env_pml4e (envs s e) = Some (p, 0)"
    "names s dstid e'" "env_pml4e (envs s e') = Some (q, 0)" "root_ok sl ow p srcva" "root_ok sl ow q dstva"
    "\<not> va_bad srcva" "\<not> va_bad dstva" "\<not> perm_bad perm" "mapping s p srcva = Some m" "first_nonzero s p srcva"
    "pp = unat (PPN m)" "pp < npages s" "pp \<notin> set fl" "replaceable ow s fl q dstva"
    "old_page s q dstva = Some pp \<longrightarrow> pp_ref (pages s pp) \<noteq> 1"
  let ?Q = "\<lambda>s0 rc s1. \<exists>ow' fl'. rc = 0 \<and> shares sl ow s0 fl q dstva pp perm ow' s1 fl' \<or>
         rc = - E_NO_MEM \<and> length fl < 3 \<and> refused sl ow s0 fl ow' s1 fl'"
  have "\<exists>ret s1. syscall SYS_page_map (scast srcid) srcva (scast dstid) dstva (scast perm) s0 = Inr (ret, s1) \<and>
      only_mm_tlb s0 s1 \<and> \<bar>ret\<bar> < 2 ^ 63 \<and> ?Q s0 ret s1"
    if ent: "enters me (call_frame tf SYS_page_map (scast srcid) srcva (scast dstid) dstva (scast perm)) s s0" for s0
  proof -
    note v = enters_view [OF ent]
    note c = same_mm_cong [OF v(2)]
    have n: "envid2env srcid True s0 = Inr ((0, Some e), s0)" "envid2env dstid True s0 = Inr ((0, Some e'), s0)"
      using a(3,5) names_cong [OF v(1)] by (simp_all add: names_def)
    have t: "env_pml4e (envs s0 e) = Some (p, 0)" "env_pml4e (envs s0 e') = Some (q, 0)" "npages s0 = npages s" "pages s0 = pages s"
      using a(4,6) same_procs_fields [OF v(1)] v(2) by (simp_all add: same_mm_def)
    have "\<exists>rc s1 ow' fl'. sys_page_map srcid srcva dstid dstva perm s0 = Inr (rc, s1) \<and> only_mm_tlb s0 s1 \<and>
        (rc = 0 \<and> shares sl ow s0 fl q dstva pp perm ow' s1 fl' \<or>
         rc = - E_NO_MEM \<and> length fl < 3 \<and> refused sl ow s0 fl ow' s1 fl')"
      unfolding shares_def
      by (rule sys_page_map_lemma [where e = e and r = p and e' = e' and m = m]) (use a n t c in simp_all)
    then obtain rc s1 ow' fl' where "sys_page_map srcid srcva dstid dstva perm s0 = Inr (rc, s1)" "only_mm_tlb s0 s1"
        "rc = 0 \<and> shares sl ow s0 fl q dstva pp perm ow' s1 fl' \<or>
         rc = - E_NO_MEM \<and> length fl < 3 \<and> refused sl ow s0 fl ow' s1 fl'" by blast
    then show ?thesis
      by (intro exI [of _ rc] exI [of _ s1]) (auto simp: syscall_def syscall_numbers E_NO_MEM_def)
  qed
  then have "\<exists>ret s'. int48 mon rd rbp 2 tf SYS_page_map (scast srcid) srcva (scast dstid) dstva (scast perm) s = Inr (ret, s') \<and> runs me r s' \<and> same_procs s s' \<and>
      ?Q s ret s'"
    by (rule int48_mm [OF a(1)]) (blast, meson effects_back)
  then show "\<exists>rc s' ow' fl'. int48 mon rd rbp 2 tf SYS_page_map (scast srcid) srcva (scast dstid) dstva (scast perm) s = Inr (rc, s') \<and>
      runs me r s' \<and> same_procs s s' \<and> (rc = 0 \<and> shares sl ow s fl q dstva pp perm ow' s' fl' \<or>
         rc = - E_NO_MEM \<and> length fl < 3 \<and> refused sl ow s fl ow' s' fl')"
    by blast
next
  fix me r s sl ow fl i e q va m pp
  assume a: "runs me r s" "pt_wf sl ow s fl" "names s i e" "env_pml4e (envs s e) = Some (q, 0)"
    "root_ok sl ow q va" "\<not> va_bad va" "first_nonzero s q va" "mapping s q va = Some m" "pp = unat (PPN m)"
    "pp < npages s" "pp \<notin> set fl" "ow pp = None"
  have "\<exists>ret s1. syscall SYS_page_unmap (scast i) va 0 0 0 s0 = Inr (ret, s1) \<and> only_mm_tlb s0 s1 \<and>
      \<bar>ret\<bar> < 2 ^ 63 \<and> (ret = 0 \<and> drops sl ow s0 fl q va pp s1)"
    if ent: "enters me (call_frame tf SYS_page_unmap (scast i) va 0 0 0) s s0" for s0
  proof -
    note v = enters_view [OF ent]
    note c = same_mm_cong [OF v(2)]
    have n: "envid2env i True s0 = Inr ((0, Some e), s0)"
      using a(3) names_cong [OF v(1)] by (simp add: names_def)
    have t: "env_pml4e (envs s0 e) = Some (q, 0)" "npages s0 = npages s"
      using a(4) same_procs_fields [OF v(1)] by simp_all
    have "\<exists>s1. sys_page_unmap i va s0 = Inr (0, s1) \<and> unmaps sl ow s0 fl q va pp s1"
      by (rule sys_page_unmap_lemma [where e = e and m = m]) (use a n t c in simp_all)
    then obtain s1 where "sys_page_unmap i va s0 = Inr (0, s1)" "unmaps sl ow s0 fl q va pp s1" by blast
    then show ?thesis
      by (intro exI [of _ 0] exI [of _ s1]) (auto simp: syscall_def syscall_numbers unmaps_def drops_def others_kept_def)
  qed
  then have "\<exists>ret s'. int48 mon rd rbp 2 tf SYS_page_unmap (scast i) va 0 0 0 s = Inr (ret, s') \<and> runs me r s' \<and> same_procs s s' \<and>
      (ret = 0 \<and> drops sl ow s fl q va pp s')"
    by (rule int48_mm [OF a(1)]) (blast, meson effects_back)
  then show "\<exists>s'. int48 mon rd rbp 2 tf SYS_page_unmap (scast i) va 0 0 0 s = Inr (0, s') \<and> runs me r s' \<and> same_procs s s' \<and>
      drops sl ow s fl q va pp s'"
    by blast
qed

end
