(* ===== verification/Trap_Fault.thy ===== *)
theory Trap_Fault
  imports Trap
begin

text \<open>
  Delivery of a page fault to the user handler: stores through the page tables into a data page,
  the bytes of a word put together again, and the frame that \<open>page_fault_handler\<close> pushes.
\<close>

section \<open>Words out of bytes\<close>

lemma bit_put_byte:
  "i < 8 \<Longrightarrow> bit (put_byte w i b) n \<longleftrightarrow> (if 8 * i \<le> n \<and> n < 8 * i + 8 then bit b (n - 8 * i) else bit w n)"
proof -
  assume i: "i < 8"
  have ff: "(0xFF :: u64) = mask 8" by (simp add: mask_eq_exp_minus_1)
  show ?thesis
  proof (cases "n < 64")
    case True
    then show ?thesis
      using i unfolding put_byte_def ff by (auto simp: bit_simps dest: bit_imp_le_length)
  next
    case False
    then show ?thesis using i bit_imp_le_length [of w n] bit_imp_le_length [of "put_byte w i b" n] by auto
  qed
qed

lemma put_all_bytes:
  "m \<le> 8 \<Longrightarrow> bit (fold (\<lambda>i x. put_byte x i (get_byte w i)) [0..<m] w0) n \<longleftrightarrow> (if n < 8 * m then bit w n else bit w0 n)"
proof (induction m)
  case (Suc m)
  then show ?case
    by (auto simp: bit_put_byte get_byte_def bit_simps dest: bit_imp_le_length)
qed simp

lemma put_word: "fold (\<lambda>i x. put_byte x i (get_byte w i)) [0..<8] w0 = w"
proof (rule bit_word_eqI)
  fix n assume "n < LENGTH(64)"
  then show "bit (fold (\<lambda>i x. put_byte x i (get_byte w i)) [0..<8] w0) n = bit w n"
    using put_all_bytes [of 8 w w0 n] by simp
qed

section \<open>Stores into a data page\<close>

text \<open>The states that differ from \<open>s\<close> only in the contents of frame \<open>q\<close>.\<close>

definition data_write :: "nat \<Rightarrow> kstate \<Rightarrow> kstate \<Rightarrow> bool" where
  "data_write q s s' \<longleftrightarrow> (\<exists>f. s' = s\<lparr>mem := (mem s)(q := f)\<rparr>)"

lemma data_write_refl: "data_write q s s"
  unfolding data_write_def by (intro exI [of _ "mem s q"]) simp

lemma data_write_trans: "data_write q s t \<Longrightarrow> data_write q t u \<Longrightarrow> data_write q s u"
  unfolding data_write_def by fastforce

lemma data_write_st: "data_write q s (st (q, k) v s)"
  by (auto simp: data_write_def st_def)

text \<open>Such a store does not change an address space whose tables are elsewhere.\<close>

lemma leaf_data:
  assumes wf: "pt_wf sl ow s fl" and m: "\<And>p. ow p \<noteq> None \<Longrightarrow> mem s' p = mem s p"
    and p: "ow p = Some (r, ks)" "length (ks @ ls) = 4" "\<forall>j \<in> set ls. j < 512" "ks = [] \<longrightarrow> hd ls \<in> sl r"
  shows "leaf s' p ls = leaf s p ls"
  using p
proof (induction ls arbitrary: p ks)
  case Nil
  then show ?case by simp
next
  case (Cons j ls)
  have same: "mem s' p = mem s p" using m Cons.prems(1) by simp
  show ?case
  proof (cases ls)
    case Nil
    then show ?thesis by (simp add: same)
  next
    case (Cons j' ls')
    then have ok: "slot_ok sl r ks j" using Cons.prems by (auto simp: slot_ok_def)
    show ?thesis
    proof (cases "nxt s p j")
      case None
      then show ?thesis by (simp add: Cons nxt_def same split: if_splits)
    next
      case (Some q)
      then have "ow q = Some (r, ks @ [j])" using pt_wfD(5) [OF wf Cons.prems(1) ok] by blast
      moreover have "nxt s' p j = Some q" using Some by (simp add: nxt_def same split: if_splits)
      ultimately show ?thesis
        using Some Cons.IH [of q "ks @ [j]"] Cons.prems by (simp add: Cons)
    qed
  qed
qed

lemma mapping_data:
  assumes "pt_wf sl ow s fl" "root_ok sl ow r va" "ow q = None" "data_write q s s'"
  shows "mapping s' r va = mapping s r va"
proof -
  have "mem s' p = mem s p" if "ow p \<noteq> None" for p
    using that assms(3,4) by (auto simp: data_write_def)
  from leaf_data [OF assms(1) this, of r r "[]" "pidx va"] assms(2) pidx_bound [of va]
  show ?thesis by (simp add: mapping_def root_ok_def)
qed

text \<open>\<open>hit q va t\<close>: a store to \<open>va\<close> goes to frame \<open>q\<close> and is allowed.\<close>

definition hit :: "nat \<Rightarrow> u64 \<Rightarrow> kstate \<Rightarrow> bool" where
  "hit q va t \<longleftrightarrow>
     (case mapping t (unat (PPN (cr3 t (cpu t)))) va of
        None \<Rightarrow> False
      | Some e \<Rightarrow> e AND PTE_W \<noteq> 0 \<and> unat (PPN e) = q)"

lemma vstore8_hit:
  "hit q va t \<Longrightarrow> unat (PGOFF va) = 8 * k + i \<Longrightarrow> i < 8 \<Longrightarrow>
   vstore8 va b t = Inr ((), st (q, k) (put_byte (mem t q k) i b) t)"
  by (auto simp: hit_def vstore8_def ld_def Let_def split: option.splits)

lemma vcopy_word:
  assumes "\<And>u i. data_write q t u \<Longrightarrow> i < 8 \<Longrightarrow> hit q (va + of_nat i) u"
    and "\<And>i. i < 8 \<Longrightarrow> unat (PGOFF (va + of_nat i)) = 8 * k + i"
  shows "vcopy va (map (get_byte w) [0..<8]) t = Inr ((), st (q, k) w t)"
proof -
  have "vcopy (va + of_nat j) (map (get_byte w) [j..<8]) u =
      Inr ((), st (q, k) (fold (\<lambda>i x. put_byte x i (get_byte w i)) [j..<8] (mem u q k)) u)"
    if "j + n = 8" "data_write q t u" for j n u
    using that
  proof (induction n arbitrary: j u)
    case 0
    then show ?case by (simp add: st_def)
  next
    case (Suc n)
    define u1 where "u1 = st (q, k) (put_byte (mem u q k) j (get_byte w j)) u"
    have "vstore8 (va + of_nat j) (get_byte w j) u = Inr ((), u1)"
      unfolding u1_def using assms Suc.prems by (intro vstore8_hit) auto
    moreover have "data_write q t u1"
      unfolding u1_def using Suc.prems data_write_st data_write_trans by blast
    ultimately show ?case
      using Suc.IH [of "Suc j" u1] Suc.prems by (simp add: upt_conv_Cons u1_def st_def add_ac)
  qed
  from this [of 0 8 t] show ?thesis by (simp add: data_write_refl put_word)
qed

lemma vstore_words_page:
  assumes "\<And>u i. data_write q t u \<Longrightarrow> i < 8 * length ws \<Longrightarrow> hit q (va + of_nat i) u"
    and "\<And>i. i < 8 * length ws \<Longrightarrow> unat (PGOFF (va + of_nat i)) = 8 * k + i"
  shows "vstore_words va ws t = Inr ((), t\<lparr>mem := (mem t)(q :=
    (\<lambda>i. if k \<le> i \<and> i < k + length ws then ws ! (i - k) else mem t q i))\<rparr>)"
  using assms
proof (induction ws arbitrary: va k t)
  case Nil
  have "(\<lambda>i. if k \<le> i \<and> i < k + length [] then [] ! (i - k) else mem t q i) = mem t q"
    by (auto simp: fun_eq_iff)
  then show ?case by simp
next
  case (Cons w ws)
  have word: "vcopy va (map (get_byte w) [0..<8]) t = Inr ((), st (q, k) w t)"
    using Cons.prems by (intro vcopy_word) auto
  have "hit q (va + 8 + of_nat i) u" if "data_write q (st (q, k) w t) u" "i < 8 * length ws" for u i
    using Cons.prems(1) [of u "8 + i"] that data_write_trans [OF data_write_st that(1)]
    by (simp add: add.assoc)
  moreover have "unat (PGOFF (va + 8 + of_nat i)) = 8 * Suc k + i" if "i < 8 * length ws" for i
    using Cons.prems(2) [of "8 + i"] that by (simp add: add.assoc)
  ultimately have "vstore_words (va + 8) ws (st (q, k) w t) = Inr ((), (st (q, k) w t)\<lparr>mem :=
      (mem (st (q, k) w t))(q := (\<lambda>i. if Suc k \<le> i \<and> i < Suc k + length ws then ws ! (i - Suc k)
        else mem (st (q, k) w t) q i))\<rparr>)"
    by (rule Cons.IH)
  then show ?case
    using word by (auto simp: st_def fun_eq_iff nth_Cons' intro!: arg_cong [where f = "\<lambda>m. t\<lparr>mem := m\<rparr>"])
qed

section \<open>The frame of a page fault\<close>

lemma bind_env_run [simp]: "bindK (env_run c s) f = env_run c s" for f :: "unit \<Rightarrow> kstate \<Rightarrow> unit res"
  using env_run_stops [of c s] by auto

lemma PGOFF_offset:
  assumes "unat (PGOFF n) + 160 \<le> 4096" "i < 160"
  shows "unat (PGOFF (n + of_nat i)) = unat (PGOFF n) + i"
    and "unat (n + of_nat i) div 4096 = unat n div 4096"
proof -
  have n: "unat n = unat n div 4096 * 4096 + unat (PGOFF n)" by (simp add: unat_PGOFF)
  have "unat n div 4096 * 4096 + 4096 \<le> 2 ^ 64"
    using unsigned_less [of n, where 'a = nat] by simp
  then have sum: "unat (n + of_nat i) = unat n div 4096 * 4096 + (unat (PGOFF n) + i)"
    using n assms by (simp add: unat_word_ariths unat_of_nat)
  then show "unat (n + of_nat i) div 4096 = unat n div 4096" using assms by simp
  show "unat (PGOFF (n + of_nat i)) = unat (PGOFF n) + i"
    unfolding unat_PGOFF [of "n + of_nat i"] sum using assms by simp
qed

lemma hit_frame:
  assumes wf: "pt_wf sl ow s fl" and r: "ow r = Some (r, [])" "0 \<in> sl r" "unat (PPN (cr3 s (cpu s))) = r"
    and e: "mapping s r n = Some e" "e AND PTE_W \<noteq> 0" "ow (unat (PPN e)) = None"
    and n: "unat (PGOFF n) + 160 \<le> 4096" "unat n + 160 \<le> 2 ^ 39" "i < 160"
    and u: "data_write (unat (PPN e)) s u"
  shows "hit (unat (PPN e)) (n + of_nat i) u"
proof -
  have "unat (n + of_nat i) < 2 ^ 39" using n by (simp add: unat_word_ariths unat_of_nat)
  then have "PML4 (n + of_nat i) = 0" by (simp add: unat_PML4 word_unat_eq_iff)
  then have "mapping u r (n + of_nat i) = mapping s r (n + of_nat i)"
    using r(1,2) by (intro mapping_data [OF wf _ e(3) u]) (simp add: root_ok_def)
  also have "\<dots> = mapping s r n"
    unfolding mapping_def using pidx_cong [OF PGOFF_offset(2) [OF n(1,3)]] by simp
  finally have "mapping u r (n + of_nat i) = Some e" using e(1) by simp
  moreover have "cr3 u = cr3 s" "cpu u = cpu s" using u by (auto simp: data_write_def)
  ultimately show ?thesis using r(3) e(2) by (simp add: hit_def)
qed

lemma push_frame:
  assumes "pt_wf sl ow t fl" "ow r = Some (r, [])" "0 \<in> sl r" "unat (PPN (cr3 t (cpu t))) = r"
    and "mapping t r n = Some e" "e AND PTE_W \<noteq> 0" "ow (unat (PPN e)) = None"
    and "unat (PGOFF n) + 160 \<le> 4096" "unat (PGOFF n) = 8 * k" "unat n + 160 \<le> 2 ^ 39" "length ws = 20"
  shows "vstore_words n ws t = Inr ((), t\<lparr>mem := (mem t)(unat (PPN e) :=
      (\<lambda>i. if k \<le> i \<and> i < k + length ws then ws ! (i - k) else mem t (unat (PPN e)) i))\<rparr>)"
proof (rule vstore_words_page)
  show "hit (unat (PPN e)) (n + of_nat i) v" if "data_write (unat (PPN e)) t v" "i < 8 * length ws" for v i
    using that hit_frame [OF assms(1-8,10)] assms(11) by simp
  show "unat (PGOFF (n + of_nat i)) = 8 * k + i" if "i < 8 * length ws" for i
    using that PGOFF_offset(1) [OF assms(8)] assms(9,11) by simp
qed

lemma page_writable: "e AND 7 = 7 \<Longrightarrow> e AND PTE_W \<noteq> (0 :: u64)"
proof -
  assume "e AND 7 = 7"
  then have "bit (e AND 7) 1 = bit (7 :: u64) 1" by simp
  then have "bit (e AND PTE_W) 1" by (simp add: bit_simps PTE_W_def)
  then show ?thesis by auto
qed

lemma user_mem_assert_byte:
  assumes "pt_wf sl ow s fl" "env_pml4e (envs s c) = Some (r, 0)" "ow r = Some (r, [])" "0 \<in> sl r"
    and "round_passes s r 7 n" "unat n + 160 \<le> 2 ^ 39"
  shows "\<exists>t. user_mem_assert c n 1 (ucast PTE_W) s = Inr ((), t) \<and>
     extends sl ow s fl ow (t\<lparr>user_mem_check_addr := user_mem_check_addr s\<rparr>) fl"
proof -
  have seven: "scast ((ucast PTE_W OR ucast PTE_U) OR 1 :: u32) = (7 :: u64)"
    by (simp add: PTE_W_def PTE_U_def)
  have "a = n" if "unat n \<le> unat a" "unat a < unat n + 1" for a :: u64
    using that by (simp add: word_unat_eq_iff)
  then have "\<forall>a. unat n \<le> unat a \<longrightarrow> unat a < unat n + unat (1 :: u64) \<longrightarrow>
      round_passes s r (scast ((ucast PTE_W OR ucast PTE_U) OR 1 :: u32)) a"
    using assms(5) unfolding seven by auto
  moreover have "unat n + unat (1 :: u64) + 4095 < 2 ^ 64" "range_owned sl r n 1"
    using assms(4,6) range_owned_low [of sl r n 1] by simp_all
  moreover have "n < ULIM" using assms(5) by (simp add: round_passes_def)
  ultimately show ?thesis
    using user_mem_check_lemma [OF assms(1-3), of 1 n "ucast PTE_W OR ucast PTE_U"]
    by (auto simp: user_mem_assert_def)
qed

text \<open>C26: delivery of a page fault. If the current environment has a handler and its exception
  stack is mapped writable where the frame goes, the kernel pushes the fault address, the error
  code and the trap-time registers there, and resumes the environment at the handler with the
  stack pointer at the frame. The first fault starts at the top of the exception stack; a fault
  while already on it leaves one free word below the old stack pointer.\<close>

theorem page_fault_upcall:
  fixes s :: kstate and c r :: nat
  defines "tf \<equiv> env_tf (envs s c)"
  defines "n \<equiv> (if UXSTACKTOP - PGSIZE \<le> tf_rsp tf \<and> tf_rsp tf \<le> UXSTACKTOP - 1
             then tf_rsp tf - 168 else UXSTACKTOP - 160)"
  assumes "pt_wf sl ow s fl" "curenv s = Some c" "env_pml4e (envs s c) = Some (r, 0)" "ow r = Some (r, [])"
    and "0 \<in> sl r" "unat (PPN (cr3 s (cpu s))) = r"
    and "tf_cs tf AND 3 \<noteq> 0" "env_pgfault_upcall (envs s c) \<noteq> 0"
    and "mapping s r n = Some e" "e AND 7 = 7" "first_nonzero s r n" "ow (unat (PPN e)) = None"
    and "unat (PGOFF n) + 160 \<le> 4096" "unat n mod 8 = 0" "unat n + 160 \<le> 2 ^ 39"
  shows "\<exists>s1. page_fault_handler (TfEnv c) s = env_run c s1 \<and>
    map (\<lambda>i. mem s1 (unat (PPN e)) (unat (PGOFF n) div 8 + i)) [0..<20] =
      [cr2 s (cpu s), tf_err tf] @ regs_words (tf_regs tf) @ [tf_rip tf, tf_eflags tf, tf_rsp tf] \<and>
    env_tf (envs s1 c) = tf\<lparr>tf_rip := env_pgfault_upcall (envs s c), tf_rsp := n\<rparr> \<and>
    curenv s1 = Some c"
proof -
  have n: "uxstack_top (tf_rsp tf) - sizeof_UTrapframe = n"
    by (simp add: uxstack_top_def sizeof_UTrapframe_def n_def conj_commute)
  define s0 where "s0 = put_tf (TfEnv c) (tf_rsp_update (\<lambda>_. uxstack_top (tf_rsp tf))) s"
  have s0: "mem s0 = mem s" "pages s0 = pages s" "page_free_list s0 = page_free_list s" "npages s0 = npages s"
    "cr3 s0 = cr3 s" "cpu s0 = cpu s" "curenv s0 = Some c"
    "envs s0 c = (envs s c)\<lparr>env_tf := tf\<lparr>tf_rsp := uxstack_top (tf_rsp tf)\<rparr>\<rparr>"
    using assms(4) by (simp_all add: s0_def put_tf_def upd_env_def curenv_def tf_def)
  have wf0: "pt_wf sl ow s0 fl" using assms(3) s0 by (subst pt_wf_cong [of _ s]) simp_all
  have map0: "mapping s0 = mapping s" "first_nonzero s0 = first_nonzero s"
    using s0(1) by (rule mapping_cong, rule first_nonzero_cong)
  then have ok0: "round_passes s0 r 7 n"
    using assms(11-13,17) by (simp add: round_passes_def word_less_nat_alt mmu_defs)
  have root0: "env_pml4e (envs s0 c) = Some (r, 0)" using assms(5) s0(8) by simp
  obtain t where t: "user_mem_assert c n 1 (ucast PTE_W) s0 = Inr ((), t)"
      "extends sl ow s0 fl ow (t\<lparr>user_mem_check_addr := user_mem_check_addr s0\<rparr>) fl"
    using user_mem_assert_byte [OF wf0 root0 assms(6,7) ok0 assms(17)] by blast
  note ext = extendsD [OF t(2)] and fields = only_mm_fields [OF extendsD(2) [OF t(2)]]
  have wft: "pt_wf sl ow t fl" using ext(1) by (subst pt_wf_cong [symmetric]) simp_all
  have "unat n < 2 ^ 39" using assms(17) by simp
  then have "root_ok sl ow r n" using assms(6,7) by (simp add: root_ok_def unat_PML4 word_unat_eq_iff)
  then have mapt: "mapping t r n = Some e"
    using extends_mapping [OF t(2)] assms(11) map0 by (simp add: mapping_cong [of "t\<lparr>user_mem_check_addr := _\<rparr>" t])
  note w = page_writable [OF assms(12)]
  have tt: "cr3 t = cr3 s" "cpu t = cpu s" "envs t = envs s0" "curenv t = Some c"
    using fields s0 by (simp_all add: curenv_def)
  define ws where "ws = [cr2 s (cpu s), tf_err tf] @ regs_words (tf_regs tf) @
      [tf_rip tf, tf_eflags tf, tf_rsp tf]"
  have len: "length ws = 20" by (simp add: ws_def regs_words_def)
  define k where "k = unat (PGOFF n) div 8"
  have "unat (PGOFF n) mod 8 = 0" using assms(16) by (simp add: unat_PGOFF mod_mod_cancel)
  then have k: "8 * k = unat (PGOFF n)" unfolding k_def by (rule mod_0_imp_dvd [THEN dvd_mult_div_cancel])
  define u where "u = t\<lparr>mem := (mem t)(unat (PPN e) :=
      (\<lambda>i. if k \<le> i \<and> i < k + length ws then ws ! (i - k) else mem t (unat (PPN e)) i))\<rparr>"
  have stored: "vstore_words n ws t = Inr ((), u)"
    unfolding u_def
    by (rule push_frame [OF wft assms(6,7) _ mapt w assms(14,15) k [symmetric] assms(17) len])
      (simp add: tt assms(8))
  have tf: "tf_cs (get_tf (TfEnv c) s) = tf_cs tf" "tf_rsp (get_tf (TfEnv c) s) = tf_rsp tf"
    "get_tf (TfEnv c) t = tf\<lparr>tf_rsp := uxstack_top (tf_rsp tf)\<rparr>"
    using tt s0(8) by (simp_all add: get_tf_def tf_def)
  define s1 where "s1 = upd_env c (\<lambda>x. x\<lparr>env_tf := (env_tf x)\<lparr>tf_rip := env_pgfault_upcall x, tf_rsp := n\<rparr>\<rparr>) u"
  have "page_fault_handler (TfEnv c) s = env_run c s1"
    using assms(4,9,10) t(1) stored
    by (simp add: page_fault_handler_def Let_def tf n s0_def [symmetric] utf_words_def ws_def s1_def
        put_tf_def [symmetric])
  moreover have "map (\<lambda>i. mem s1 (unat (PPN e)) (k + i)) [0..<20] = ws"
    using len by (auto simp: s1_def u_def upd_env_def list_eq_iff_nth_eq)
  moreover have "env_tf (envs s1 c) = tf\<lparr>tf_rip := env_pgfault_upcall (envs s c), tf_rsp := n\<rparr>" "curenv s1 = Some c"
    using tt s0(8) by (simp_all add: s1_def u_def upd_env_def curenv_def tf_def)
  ultimately show ?thesis unfolding k_def ws_def by blast
qed


text \<open>An environment with a handler whose exception stack is mapped at frame 6.\<close>

definition fault_mem :: "nat \<Rightarrow> nat \<Rightarrow> u64" where
  "fault_mem p i = (if p = 2 \<and> i = 0 then 0x3007 else if p = 3 \<and> i = 0 then 2
     else if p = 3 \<and> i = 3 then 0x4007 else if p = 4 \<and> i = 379 then 0x5007
     else if p = 5 \<and> i = 511 then 0x6007 else 0)"

definition fault_sample :: kstate where
  "fault_sample = (sample 1)\<lparr>mem := fault_mem,
     envs := (\<lambda>_. zero_env)(0 := zero_env\<lparr>env_pml4e := Some (2, 0), env_tf := new_tf,
                env_pgfault_upcall := 0x800020, env_status := ENV_RUNNING\<rparr>),
     cpus := (\<lambda>_. zero_cpu\<lparr>cpu_env := Some 0\<rparr>), cr3 := (\<lambda>_. 0x2000), cr2 := (\<lambda>_. 0xdeadbeef)\<rparr>"

definition fault_ow :: owner where
  "fault_ow = [2 \<mapsto> (2, []), 3 \<mapsto> (2, [0]), 4 \<mapsto> (2, [0, 3]), 5 \<mapsto> (2, [0, 3, 379])]"

lemma fault_sample_nxt:
  "nxt fault_sample p i = (if p = 2 \<and> i = 0 then Some 3 else if p = 3 \<and> i = 3 then Some 4
      else if p = 4 \<and> i = 379 then Some 5 else if p = 5 \<and> i = 511 then Some 6 else None)"
  by (simp add: nxt_def fault_sample_def fault_mem_def odd_entries PPN_numeral bit_0)

lemma fault_sample_wf: "pt_wf (\<lambda>_. {0}) fault_ow fault_sample [7, 8, 9]"
proof -
  have "alloc_inv fault_sample [7, 8, 9]"
    by (auto simp: alloc_inv_def freelist_def sample_pages_def fault_sample_def)
  moreover have "npages fault_sample = 10" by (simp add: fault_sample_def)
  ultimately show ?thesis
    by (auto simp: pt_wf_def fault_ow_def fault_sample_nxt slot_ok_def split: if_splits)
qed

lemma fault_sample_mapping:
  "mapping fault_sample 2 (UXSTACKTOP - 160) = Some 0x6007"
  "first_nonzero fault_sample 2 (UXSTACKTOP - 160)"
proof -
  have va: "pidx (UXSTACKTOP - 160) = [0, 3, 379, 511]" "unat (PML4 (UXSTACKTOP - 160)) = 0"
    by (simp_all add: pidx_def tbl_idx_def unat_PML4 unat_PDPE unat_PDX unat_PTX UXSTACKTOP_def)
  show m: "mapping fault_sample 2 (UXSTACKTOP - 160) = Some 0x6007"
    by (simp add: mapping_def va fault_sample_nxt) (simp add: fault_sample_def fault_mem_def odd_entries)
  show "first_nonzero fault_sample 2 (UXSTACKTOP - 160)"
    by (simp add: first_nonzero_def va fault_sample_nxt)
      (simp add: fault_sample_def fault_mem_def)
qed

theorem page_fault_upcall_witness:
  "\<exists>s1. page_fault_handler (TfEnv 0) fault_sample = env_run 0 s1 \<and>
     mem s1 6 492 = 0xdeadbeef \<and> tf_rip (env_tf (envs s1 0)) = 0x800020 \<and>
     tf_rsp (env_tf (envs s1 0)) = UXSTACKTOP - 160"
proof -
  have env: "envs fault_sample 0 = zero_env\<lparr>env_pml4e := Some (2, 0), env_tf := new_tf,
      env_pgfault_upcall := 0x800020, env_status := ENV_RUNNING\<rparr>"
    "curenv fault_sample = Some 0" "cr3 fault_sample 0 = 0x2000" "cr2 fault_sample 0 = 0xdeadbeef"
    "cpu fault_sample = 0"
    by (simp_all add: fault_sample_def curenv_def)
  have n: "UXSTACKTOP - 160 = 0xef7fff60" "\<not> UXSTACKTOP - PGSIZE \<le> USTACKTOP"
    by (simp_all add: UXSTACKTOP_def USTACKTOP_def PGSIZE_def)
  have off: "unat (PGOFF 0xef7fff60) = 3936" by (simp add: unat_PGOFF)
  have "\<exists>s1. page_fault_handler (TfEnv 0) fault_sample = env_run 0 s1 \<and>
      map (\<lambda>i. mem s1 (unat (PPN (0x6007 :: u64))) (unat (PGOFF (UXSTACKTOP - 160)) div 8 + i)) [0..<20] =
        [cr2 fault_sample (cpu fault_sample), tf_err new_tf] @ regs_words (tf_regs new_tf) @
        [tf_rip new_tf, tf_eflags new_tf, tf_rsp new_tf] \<and>
      env_tf (envs s1 0) = new_tf\<lparr>tf_rip := 0x800020, tf_rsp := UXSTACKTOP - 160\<rparr> \<and> curenv s1 = Some 0"
    using page_fault_upcall [OF fault_sample_wf, of 0 2 "0x6007"] fault_sample_mapping
    by (simp add: env new_tf_def n off fault_ow_def PPN_numeral PPN_def GD_UT_def)
  then show ?thesis by (auto simp: n off PPN_numeral env upt_conv_Cons)
qed

end
