(* ===== verification/Ulib_Cow.thy ===== *)
theory Ulib_Cow
  imports Ulib_Calls Trap_Fault
begin

text \<open>
  Copy-on-write in user space: what the program sees of its page tables through \<open>uvpt\<close>, what
  \<open>memcpy\<close> does to the frames, and, inside the locale \<open>system_calls\<close>, what \<open>duppage\<close> and \<open>pgfault\<close> do.
\<close>

section \<open>Reading and copying pages\<close>

lemma page_offset:
  assumes "unat d mod 4096 = 0" "j < 4096"
  shows "unat (PGOFF (d + of_nat j)) = j" "pidx (d + of_nat j) = pidx d"
proof -
  have d: "unat d = unat d div 4096 * 4096" using assms(1) by auto
  have "unat d div 4096 * 4096 + 4096 \<le> 2 ^ 64" using unsigned_less [of d, where 'a = nat] by simp
  then have s: "unat (d + of_nat j) = unat d + j" using assms(2) d by (simp add: unat_word_ariths unat_of_nat)
  have "(unat d + j) mod 4096 = (unat d mod 4096 + j) mod 4096" by (simp only: mod_add_left_eq)
  then have "(unat d + j) mod 4096 = j" using assms by simp
  then show "unat (PGOFF (d + of_nat j)) = j" by (simp only: unat_PGOFF s)
  have "(unat d div 4096 * 4096 + j) div 4096 = unat d div 4096" using assms(2) by simp
  then have "(unat d + j) div 4096 = unat d div 4096" using d by simp
  then have "unat (d + of_nat j) div 4096 = unat d div 4096" by (simp only: s)
  then show "pidx (d + of_nat j) = pidx d" by (rule pidx_cong)
qed

lemma get_byte_put_byte: "i < 8 \<Longrightarrow> j < 8 \<Longrightarrow> get_byte (put_byte w i b) j = (if i = j then b else get_byte w j)"
  by (rule bit_word_eqI) (auto simp: get_byte_def bit_simps bit_put_byte)

definition row_byte :: "(nat \<Rightarrow> u64) \<Rightarrow> nat \<Rightarrow> u8" where
  "row_byte f j = get_byte (f (j div 8)) (j mod 8)"

lemma row_byte_put:
  "row_byte (f(k div 8 := put_byte (f (k div 8)) (k mod 8) b)) j = (if j = k then b else row_byte f j)"
proof -
  have "j = k \<longleftrightarrow> j div 8 = k div 8 \<and> j mod 8 = k mod 8" by (metis div_mult_mod_eq)
  then show ?thesis by (auto simp: row_byte_def get_byte_put_byte)
qed

lemma row_eq:
  assumes "\<forall>j < 4096. row_byte f j = row_byte g j" "i < 512"
  shows "f i = g i"
proof -
  have b: "get_byte (f i) k = get_byte (g i) k" if "k < 8" for k
    using assms(1) [rule_format, of "8 * i + k"] assms(2) that by (simp add: row_byte_def)
  then have "fold (\<lambda>k x. put_byte x k (get_byte (f i) k)) [0..<8] 0 = fold (\<lambda>k x. put_byte x k (get_byte (g i) k)) [0..<8] 0"
    by (intro fold_cong) auto
  then show ?thesis by (simp only: put_word)
qed

text \<open>What \<open>memcpy\<close> from page \<open>src\<close>, frame \<open>y\<close>, to page \<open>dst\<close>, frame \<open>x\<close>, does.\<close>

lemma umemcpy_page:
  assumes wf: "pt_wf sl ow (kst u) fl" and roots: "root_ok sl ow (uroot u) dst" "root_ok sl ow (uroot u) src"
    and al: "unat dst mod 4096 = 0" "unat src mod 4096 = 0"
    and d: "mapping (kst u) (uroot u) dst = Some ed" "ed AND (PTE_U OR PTE_W) = PTE_U OR PTE_W" "x = unat (PPN ed)" "ow x = None"
    and s: "mapping (kst u) (uroot u) src = Some es" "es AND PTE_U = PTE_U" "y = unat (PPN es)" "x \<noteq> y"
  shows "\<exists>row. umemcpy dst src 4096 u = Inr ((), u\<lparr>kst := (kst u)\<lparr>mem := (mem (kst u))(x := row)\<rparr>\<rparr>) \<and>
    (\<forall>i < 512. row i = mem (kst u) y i)"
proof -
  have upd: "\<exists>row. umemcpy (dst + of_nat k) (src + of_nat k) n v =
        Inr ((), v\<lparr>kst := (kst v)\<lparr>mem := (mem (kst v))(x := row)\<rparr>\<rparr>) \<and>
      (\<forall>j < 4096. row_byte row j = (if k \<le> j then row_byte (mem (kst u) y) j else row_byte (mem (kst v) x) j))"
    if "k + n = 4096" "data_write x (kst u) (kst v)" for k n v
    using that
  proof (induction n arbitrary: k v)
    case 0
    then show ?case by (intro exI [of _ "mem (kst v) x"]) simp
  next
    case (Suc n)
    have rt: "uroot v = uroot u" using Suc.prems(2) by (auto simp: uroot_def data_write_def)
    have k: "k < 4096" using Suc.prems(1) by simp
    have m: "mapping (kst v) (uroot u) a = mapping (kst u) (uroot u) a" if "root_ok sl ow (uroot u) a" for a
      using mapping_data [OF wf that d(4) Suc.prems(2)] .
    have md: "mapping (kst v) (uroot u) (dst + of_nat k) = Some ed" "mapping (kst v) (uroot u) (src + of_nat k) = Some es"
      using m roots d(1) s(1) page_offset(2) [OF al(1) k] page_offset(2) [OF al(2) k] by (simp_all add: mapping_def)
    have my: "mem (kst v) y = mem (kst u) y" using Suc.prems(2) s(4) by (auto simp: data_write_def)
    let ?b = "row_byte (mem (kst u) y) k"
    let ?r1 = "(mem (kst v) x)(k div 8 := put_byte (mem (kst v) x (k div 8)) (k mod 8) ?b)"
    let ?v1 = "v\<lparr>kst := (kst v)\<lparr>mem := (mem (kst v))(x := ?r1)\<rparr>\<rparr>"
    have l: "uload8 (src + of_nat k) v = Inr (?b, v)"
      using md(2) s(2,3) my page_offset(1) [OF al(2) k] by (simp add: uload8_def uentry_def rt row_byte_def)
    have st: "ustore8 (dst + of_nat k) ?b v = Inr ((), ?v1)"
      using md(1) d(2,3) page_offset(1) [OF al(1) k]
      by (simp add: ustore8_def uentry_def rt st_def ld_def Let_def)
    have "data_write x (kst u) (kst ?v1)"
      using Suc.prems(2) by (auto simp: data_write_def)
    moreover have "Suc k + n = 4096" using Suc.prems(1) by simp
    ultimately obtain row where
      row: "umemcpy (dst + of_nat (Suc k)) (src + of_nat (Suc k)) n ?v1 =
          Inr ((), ?v1\<lparr>kst := (kst ?v1)\<lparr>mem := (mem (kst ?v1))(x := row)\<rparr>\<rparr>)"
        "\<forall>j < 4096. row_byte row j = (if Suc k \<le> j then row_byte (mem (kst u) y) j else row_byte (mem (kst ?v1) x) j)"
      using Suc.IH [of "Suc k" ?v1] by blast
    have "umemcpy (dst + of_nat k) (src + of_nat k) (Suc n) v = Inr ((), v\<lparr>kst := (kst v)\<lparr>mem := (mem (kst v))(x := row)\<rparr>\<rparr>)"
      using l st row(1) by (simp add: add_ac)
    moreover have "\<forall>j < 4096. row_byte row j = (if k \<le> j then row_byte (mem (kst u) y) j else row_byte (mem (kst v) x) j)"
      using row(2) by (auto simp: row_byte_put not_less_eq_eq dest: le_antisym)
    ultimately show ?case by blast
  qed
  obtain row where row: "umemcpy dst src 4096 u = Inr ((), u\<lparr>kst := (kst u)\<lparr>mem := (mem (kst u))(x := row)\<rparr>\<rparr>)"
      "\<forall>j < 4096. row_byte row j = row_byte (mem (kst u) y) j"
    using upd [of 0 4096 u] data_write_refl by auto
  then show ?thesis using row_eq by blast
qed

text \<open>The recursive slot of the top-level table makes the page tables readable: \<open>uvpt[PPN(va)]\<close> is the
  entry of \<open>va\<close>.\<close>

definition window :: "kstate \<Rightarrow> nat \<Rightarrow> u64 \<Rightarrow> bool" where
  "window s r va \<longleftrightarrow> nxt s r 2 = Some r \<and>
     (\<exists>e. mapping s r (UVPT + 8 * PPN va) = Some e \<and> e AND PTE_U = PTE_U)"

lemma window_index: "k \<le> 28 \<Longrightarrow> (2 ^ 40 + 8 * n) div (8 * 2 ^ k) mod 512 = n div 2 ^ k mod (512 :: nat)"
proof -
  assume k: "k \<le> 28"
  have "(2 ^ 40 + 8 * n) div (8 * 2 ^ k) = (2 ^ 37 + n) div 2 ^ k" by (simp add: div_mult2_eq)
  also have "(2 :: nat) ^ 37 = 2 ^ (28 - k) * 512 * 2 ^ k" using k by (simp flip: power_add add: mult.assoc [symmetric])
  also have "(2 ^ (28 - k) * 512 * 2 ^ k + n) div 2 ^ k = 2 ^ (28 - k) * 512 + n div 2 ^ k" by simp
  finally show ?thesis by simp
qed

lemma uvpt_indices:
  assumes "unat va < 2 ^ 48"
  shows "pidx (UVPT + 8 * PPN va) = [2, unat (PML4 va), unat (PDPE va), unat (PDX va)]"
    "unat (PGOFF (UVPT + 8 * PPN va)) div 8 = unat (PTX va)"
proof -
  let ?n = "unat va div 4096"
  have n: "?n < 2 ^ 36" using assms by (simp add: div_less_iff_less_mult)
  have a: "unat (UVPT + 8 * PPN va) = 2 ^ 40 + 8 * ?n"
    using n by (simp add: UVPT_def unat_word_ariths unat_PPN)
  have "(2 ^ 40 + 8 * ?n) div 2 ^ 39 mod 512 = 2" using n by simp
  moreover have "(2 ^ 40 + 8 * ?n) div 2 ^ 30 mod 512 = unat va div 2 ^ 39 mod 512"
    using window_index [of 27 ?n] by (simp add: div_mult2_eq [symmetric])
  moreover have "(2 ^ 40 + 8 * ?n) div 2 ^ 21 mod 512 = unat va div 2 ^ 30 mod 512"
    using window_index [of 18 ?n] by (simp add: div_mult2_eq [symmetric])
  moreover have "(2 ^ 40 + 8 * ?n) div 2 ^ 12 mod 512 = unat va div 2 ^ 21 mod 512"
    using window_index [of 9 ?n] by (simp add: div_mult2_eq [symmetric])
  ultimately show "pidx (UVPT + 8 * PPN va) = [2, unat (PML4 va), unat (PDPE va), unat (PDX va)]"
    by (simp only: pidx_def tbl_idx_def unat_PML4 unat_PDPE unat_PDX unat_PTX a append.simps)
  have "(2 ^ 40 + 8 * ?n) mod 4096 div 8 = unat va div 2 ^ 12 mod 512"
  proof -
    have "(2 ^ 40 + 8 * ?n) mod (8 * 512) div 8 = (2 ^ 37 + ?n) mod 512"
      using mult_mod_right [of 8 "2 ^ 37 + ?n" 512] by simp
    then show ?thesis by (simp add: mod_add_eq [of _ 512, symmetric])
  qed
  then show "unat (PGOFF (UVPT + 8 * PPN va)) div 8 = unat (PTX va)"
    by (simp only: unat_PGOFF unat_PTX a)
qed

lemma uvpt_entry:
  assumes w: "window (kst u) (uroot u) va" and m: "mapping (kst u) (uroot u) va = Some e" and va: "unat va < 2 ^ 48"
  shows "uvpt (PPN va) u = Inr (e, u)"
proof -
  let ?s = "kst u" and ?r = "uroot u"
  obtain d where d: "mapping ?s ?r (UVPT + 8 * PPN va) = Some d" "d AND PTE_U = PTE_U" "nxt ?s ?r 2 = Some ?r"
    using w by (auto simp: window_def)
  have "leaf ?s ?r [unat (PML4 va), unat (PDPE va), unat (PDX va)] = Some d"
    using d(1,3) by (simp add: mapping_def uvpt_indices [OF va])
  then have "leaf ?s ?r [unat (PML4 va), unat (PDPE va), unat (PDX va), unat (PTX va)] =
      (if bit (mem ?s (unat (PPN d)) (unat (PTX va))) 0 then Some (mem ?s (unat (PPN d)) (unat (PTX va))) else None)"
    by (auto simp: nxt_def split: option.splits if_splits)
  then have "mem ?s (unat (PPN d)) (unat (PTX va)) = e"
    using m by (simp add: mapping_def pidx_def tbl_idx_def split: if_splits)
  then show ?thesis
    using d(1,2) by (simp add: uvpt_def uload64_def uentry_def uvpt_indices [OF va])
qed

section \<open>Calls of the library\<close>

lemma runs_uroot: "runs me r (kst u) \<Longrightarrow> uroot u = r"
proof -
  assume "runs me r (kst u)"
  then have c: "cr3 (kst u) (cpu (kst u)) = of_nat (r * 4096)" "r < 2 ^ 32" by (simp_all add: runs_def)
  then have "r * 4096 < 2 ^ LENGTH(64)" by simp
  then have "unat (of_nat (r * 4096) :: u64) = r * 4096" by (simp only: unat_of_nat mod_less)
  with c show ?thesis by (simp only: uroot_def unat_PPN)
qed

lemma div_PGSIZE: "va div PGSIZE = PPN va"
  by (rule word_unat_eq_iff [THEN iffD2]) (simp add: unat_PPN PGSIZE_def unat_div)

lemma small_results [simp]: "int32 0 = 0" "int32 (- E_NO_MEM) = - E_NO_MEM"
  by (simp_all add: int32_def E_NO_MEM_def)

lemma first_nonzero_PFTEMP:
  assumes "mapping s r PFTEMP = Some e" "PML4 va = 0"
  shows "first_nonzero s r va"
  using mapping_first_nonzero [OF assms(1)] assms(2)
  by (simp add: first_nonzero_def PFTEMP_def UTEMP_def PTSIZE_def PGSIZE_def NPTENTRIES_def PML4_def PDPE_def)

lemma entry_frame: "x < 2 ^ 32 \<Longrightarrow> perm < 4096 \<Longrightarrow> unat (PPN (page2pa x OR scast (perm OR 1 :: u32))) = x"
  by (simp add: PPN_or_small [OF scast_perm_small] unat_PPN_page2pa)

lemma and_or_absorb: "f AND g = g \<Longrightarrow> (e OR f) AND g = (g :: u64)"
proof -
  assume g: "f AND g = g"
  show ?thesis
  proof (rule bit_word_eqI)
    fix n assume "n < LENGTH(64)"
    from g have "bit (f AND g) n = bit g n" by simp
    then show "bit ((e OR f) AND g) n = bit g n" by (auto simp: bit_simps)
  qed
qed

lemma entry_rights:
  "URW < 4096" "UCOW < 4096" "URO < 4096" "\<not> perm_bad URW" "\<not> perm_bad UCOW" "\<not> perm_bad URO"
  "(page2pa x OR scast (URW OR 1)) AND (PTE_U OR PTE_W) = PTE_U OR PTE_W"
  by (simp_all add: URW_def UCOW_def URO_def PTE_COW_def mmu_defs perm_bad_def and_or_absorb)

lemma pt_wf_data:
  assumes "pt_wf sl ow s fl" "ow q = None" "data_write q s s'"
  shows "pt_wf sl ow s' fl"
proof (rule pt_wf_step [OF assms(1)])
  show "alloc_inv s' fl"
    using pt_wfD(1) [OF assms(1)] assms(3) by (subst alloc_inv_cong [of _ s]) (auto simp: data_write_def)
  show "nxt s' p i = nxt s p i" if "ow p = Some z" for p z i
  proof -
    have "p \<noteq> q" using assms(2) that by auto
    then show ?thesis using assms(3) by (auto simp: data_write_def nxt_def)
  qed
qed (use pt_wfD(3) [OF assms(1)] assms(3) in \<open>auto simp: data_write_def\<close>)

context system_calls
begin

lemma getenvid_ok:
  "runs me r (kst u) \<Longrightarrow> \<exists>s'. usys_getenvid kc u = Inr (env_id (envs (kst u) me), u\<lparr>kst := s'\<rparr>) \<and>
     runs me r s' \<and> same_procs (kst u) s' \<and> same_mm (kst u) s'"
  using getenvid_call [of me r "kst u"] by (auto simp: usys_getenvid_def raw_syscall_def)

lemma usyscall_ok:
  "kc num a1 a2 a3 a4 a5 (kst u) = Inr (rc, s') \<Longrightarrow> rc \<le> 0 \<Longrightarrow> usyscall kc num chk a1 a2 a3 a4 a5 u = Inr (rc, u\<lparr>kst := s'\<rparr>)"
  by (simp add: usyscall_def raw_syscall_def)

lemma page_alloc_ok:
  assumes "runs me r (kst u)" "pt_wf sl ow (kst u) (x # rest)" "3 \<le> length rest" "names (kst u) i e"
    "env_pml4e (envs (kst u) e) = Some (q, 0)" "root_ok sl ow q va" "replaceable ow (kst u) (x # rest) q va"
    "\<not> va_bad va" "\<not> perm_bad perm"
  shows "\<exists>s' ow' fl'. usys_page_alloc kc i va perm u = Inr (0, u\<lparr>kst := s'\<rparr>) \<and> runs me r s' \<and> same_procs (kst u) s' \<and>
    allocates sl ow (kst u) x rest q va perm ow' s' fl'"
  using page_alloc_call [OF assms(1,2,4-9)] assms(3) usyscall_ok
  by (fastforce simp: usys_page_alloc_def)

lemma page_map_ok:
  assumes "runs me r (kst u)" "pt_wf sl ow (kst u) fl" "3 \<le> length fl" "names (kst u) srcid e"
    "env_pml4e (envs (kst u) e) = Some (p, 0)" "names (kst u) dstid e'" "env_pml4e (envs (kst u) e') = Some (q, 0)"
    "root_ok sl ow p srcva" "root_ok sl ow q dstva" "\<not> va_bad srcva" "\<not> va_bad dstva" "\<not> perm_bad perm"
    "mapping (kst u) p srcva = Some m" "first_nonzero (kst u) p srcva" "pp = unat (PPN m)" "pp < npages (kst u)" "pp \<notin> set fl"
    "replaceable ow (kst u) fl q dstva" "old_page (kst u) q dstva = Some pp \<longrightarrow> pp_ref (pages (kst u) pp) \<noteq> 1"
  shows "\<exists>s' ow' fl'. usys_page_map kc srcid srcva dstid dstva perm u = Inr (0, u\<lparr>kst := s'\<rparr>) \<and> runs me r s' \<and>
    same_procs (kst u) s' \<and> shares sl ow (kst u) fl q dstva pp perm ow' s' fl'"
  using page_map_call [OF assms(1,2,4-19)] assms(3) usyscall_ok
  by (fastforce simp: usys_page_map_def)

lemma page_unmap_ok:
  assumes "runs me r (kst u)" "pt_wf sl ow (kst u) fl" "names (kst u) i e" "env_pml4e (envs (kst u) e) = Some (q, 0)"
    "root_ok sl ow q va" "\<not> va_bad va" "first_nonzero (kst u) q va" "mapping (kst u) q va = Some m"
    "pp = unat (PPN m)" "pp < npages (kst u)" "pp \<notin> set fl" "ow pp = None"
  shows "\<exists>s'. usys_page_unmap kc i va u = Inr (0, u\<lparr>kst := s'\<rparr>) \<and> runs me r s' \<and> same_procs (kst u) s' \<and>
    drops sl ow (kst u) fl q va pp s'"
  using page_unmap_call [OF assms] usyscall_ok by (fastforce simp: usys_page_unmap_def)

end
text \<open>What the program may rely on between two calls: it runs, its id names it, the tables are in order.\<close>

definition ready :: "nat \<Rightarrow> nat \<Rightarrow> (nat \<Rightarrow> nat set) \<Rightarrow> owner \<Rightarrow> kstate \<Rightarrow> nat list \<Rightarrow> bool" where
  "ready me r sl ow s fl \<longleftrightarrow> runs me r s \<and> names s (env_id (envs s me)) me \<and> pt_wf sl ow s fl"

lemma readyI:
  assumes "ready me r sl ow s fl" "runs me r s'" "same_procs s s'" "pt_wf sl ow' s' fl'"
  shows "ready me r sl ow' s' fl'"
  using assms names_cong [OF assms(3)] same_procs_fields [OF assms(3)] by (simp add: ready_def)

lemma ready_mm: "ready me r sl ow s fl \<Longrightarrow> runs me r s' \<Longrightarrow> same_procs s s' \<Longrightarrow> same_mm s s' \<Longrightarrow> ready me r sl ow s' fl"
  by (rule readyI [of me r sl ow s fl]) (simp_all add: same_mm_cong ready_def)

lemma root_ok_le: "root_ok sl ow q va \<Longrightarrow> ow \<subseteq>\<^sub>m ow' \<Longrightarrow> root_ok sl ow' q va"
  by (auto simp: root_ok_def map_le_def dom_def)

lemma page_addr_facts:
  "\<not> va_bad PFTEMP" "PML4 PFTEMP = 0" "unat PFTEMP mod 4096 = 0"
  "unat va mod 4096 = 0 \<Longrightarrow> unat va < 2 ^ 39 \<Longrightarrow> \<not> va_bad va" "unat va < 2 ^ 39 \<Longrightarrow> PML4 va = 0"
proof -
  show "\<not> va_bad PFTEMP" "PML4 PFTEMP = 0" "unat PFTEMP mod 4096 = 0"
    by (simp_all add: va_bad_def mmu_defs PML4_def)
  show "\<not> va_bad va" if "unat va mod 4096 = 0" "unat va < 2 ^ 39"
    using that by (simp add: va_bad_def mmu_defs word_unat_eq_iff word_le_nat_alt unat_mod)
  show "PML4 va = 0" if "unat va < 2 ^ 39" using that by (simp add: word_unat_eq_iff unat_PML4)
qed

text \<open>A fresh page \<open>x\<close> at \<open>PFTEMP\<close> that holds a copy of frame \<open>y\<close>; everything else is as in \<open>s\<close>.\<close>

definition holds_copy :: "(nat \<Rightarrow> nat set) \<Rightarrow> owner \<Rightarrow> kstate \<Rightarrow> nat \<Rightarrow> nat list \<Rightarrow> nat \<Rightarrow> nat \<Rightarrow>
    owner \<Rightarrow> kstate \<Rightarrow> nat list \<Rightarrow> bool" where
  "holds_copy sl ow s x rest r y ow' s' fl' \<longleftrightarrow>
     mapping s' r PFTEMP = Some (page2pa x OR scast (URW OR 1)) \<and> (\<forall>i < 512. mem s' x i = mem s y i) \<and>
     ow' x = None \<and> x \<notin> set fl' \<and> x < npages s \<and> pp_ref (pages s' x) = 1 \<and> ow \<subseteq>\<^sub>m ow' \<and>
     set fl' \<subseteq> set (x # rest) \<and> length rest \<le> length fl' + 3 \<and> others_kept sl ow s r PFTEMP s' \<and>
     (\<forall>p. p \<notin> set (x # rest) \<longrightarrow> ow' p = ow p \<and> pp_ref (pages s' p) = pp_ref (pages s p) \<and>
        (ow p = None \<longrightarrow> mem s' p = mem s p))"

lemma holds_copy_mm: "same_mm s' t' \<Longrightarrow> holds_copy sl ow s x rest r y ow' t' fl' \<longleftrightarrow> holds_copy sl ow s x rest r y ow' s' fl'"
  by (simp add: holds_copy_def others_kept_def same_mm_cong) (simp add: same_mm_def)

context system_calls
begin

lemma copy_to_PFTEMP:
  assumes rd: "ready me r sl ow (kst u) (x # rest)" "3 \<le> length rest" and roots: "root_ok sl ow r PFTEMP" "root_ok sl ow r src"
    and src: "unat src mod 4096 = 0" "pidx src \<noteq> pidx PFTEMP" "mapping (kst u) r src = Some m" "m AND PTE_U = PTE_U"
      "y = unat (PPN m)" "y \<notin> set (x # rest)" "ow y = None"
    and tmp: "mapping (kst u) r PFTEMP = None"
  shows "\<exists>s2 s3 ow' fl'. usys_page_alloc kc (env_id (envs (kst u) me)) PFTEMP URW u = Inr (0, u\<lparr>kst := s2\<rparr>) \<and>
    umemcpy PFTEMP src 4096 (u\<lparr>kst := s2\<rparr>) = Inr ((), u\<lparr>kst := s3\<rparr>) \<and> ready me r sl ow' s3 fl' \<and>
    same_procs (kst u) s3 \<and> holds_copy sl ow (kst u) x rest r y ow' s3 fl'"
proof -
  let ?s = "kst u" and ?e = "page2pa x OR scast (URW OR 1)"
  have r: "runs me r ?s" "names ?s (env_id (envs ?s me)) me" "pt_wf sl ow ?s (x # rest)" "env_pml4e (envs ?s me) = Some (r, 0)"
    using rd(1) by (simp_all add: ready_def runs_def)
  have rep: "replaceable ow ?s (x # rest) r PFTEMP" and old: "old_page ?s r PFTEMP = None"
    using tmp by (simp_all add: replaceable_def old_page_def)
  obtain s2 ow' fl' where s2: "usys_page_alloc kc (env_id (envs ?s me)) PFTEMP URW u = Inr (0, u\<lparr>kst := s2\<rparr>)"
      "runs me r s2" "same_procs ?s s2" "allocates sl ow ?s x rest r PFTEMP URW ow' s2 fl'"
    using page_alloc_ok [OF r(1,3) rd(2) r(2,4) roots(1) rep page_addr_facts(1) entry_rights(4)] by blast
  have p: "puts sl ow ?s (x # rest) r PFTEMP ?e ow' s2 fl'" "ow' x = None" "x \<notin> set fl'" "pp_ref (pages s2 x) = 1"
    using s2(4) by (simp_all add: allocates_def)
  have wf2: "pt_wf sl ow' s2 fl'" and le: "ow \<subseteq>\<^sub>m ow'" and map2: "mapping s2 r PFTEMP = Some ?e" "mapping s2 r src = Some m"
    using p(1) roots(2) src(2,3) by (simp_all add: puts_def others_kept_def)
  have x: "x < npages ?s" "npages ?s \<le> 2 ^ 32" using alloc_invD [OF pt_wfD(1) [OF r(3)]] pt_wf_npages [OF r(3)] by simp_all
  have ur: "uroot (u\<lparr>kst := s2\<rparr>) = r" using runs_uroot [of me r "u\<lparr>kst := s2\<rparr>"] s2(2) by simp
  have ex: "unat (PPN ?e) = x" using x entry_rights(1) by (intro entry_frame) simp_all
  have "x \<noteq> y" using src(6) by auto
  from umemcpy_page [of sl ow' "u\<lparr>kst := s2\<rparr>" fl' PFTEMP src ?e x m y] obtain row where
    row: "umemcpy PFTEMP src 4096 (u\<lparr>kst := s2\<rparr>) = Inr ((), u\<lparr>kst := s2\<lparr>mem := (mem s2)(x := row)\<rparr>\<rparr>)"
      "\<forall>i < 512. row i = mem s2 y i"
    using wf2 ur root_ok_le [OF roots(1) le] root_ok_le [OF roots(2) le] page_addr_facts(3) src map2 entry_rights(7) ex p(2) \<open>x \<noteq> y\<close>
    by auto
  let ?s3 = "s2\<lparr>mem := (mem s2)(x := row)\<rparr>"
  have dw: "data_write x s2 ?s3" by (auto simp: data_write_def)
  have pr: "same_procs ?s ?s3" "runs me r ?s3" using s2(2,3) by (simp_all add: same_procs_def runs_def curenv_def)
  have map3: "mapping ?s3 q va = mapping s2 q va" if "root_ok sl ow q va" for q va
    using mapping_data [OF wf2 root_ok_le [OF that le] p(2) dw] .
  have "holds_copy sl ow ?s x rest r y ow' ?s3 fl'"
    unfolding holds_copy_def
  proof (intro conjI allI impI)
    show "mapping ?s3 r PFTEMP = Some ?e" using map3 [OF roots(1)] map2(1) by simp
    show "mem ?s3 x i = mem ?s y i" if "i < 512" for i using row(2) that p(1) src(6,7) by (simp add: puts_def)
    show "set fl' \<subseteq> set (x # rest)" "length rest \<le> length fl' + 3" using p(1) old by (simp_all add: puts_def)
    show "others_kept sl ow ?s r PFTEMP ?s3" using p(1) map3 by (simp add: puts_def others_kept_def)
    show "ow' p = ow p" "pp_ref (pages ?s3 p) = pp_ref (pages ?s p)" if "p \<notin> set (x # rest)" for p
      using p(1) s2(4) that old by (simp_all add: puts_def allocates_def)
    show "mem ?s3 p = mem ?s p" if "p \<notin> set (x # rest)" "ow p = None" for p
      using p(1) that by (simp add: puts_def)
  qed (use p x le in simp_all)
  moreover have "ready me r sl ow' ?s3 fl'"
    using readyI [OF rd(1) pr(2,1) pt_wf_data [OF wf2 p(2) dw]] .
  ultimately show ?thesis using s2(1) row(1) pr(1) by blast
qed

end

text \<open>The copy at its destination: \<open>dst\<close> in address space \<open>q\<close> maps a private, writable copy of frame \<open>y\<close>,
  \<open>PFTEMP\<close> is free again, the page that was mapped at \<open>dst\<close> has lost one reference, and nothing else has changed.\<close>

definition moved :: "(nat \<Rightarrow> nat set) \<Rightarrow> owner \<Rightarrow> kstate \<Rightarrow> nat \<Rightarrow> nat list \<Rightarrow> nat \<Rightarrow> nat \<Rightarrow> nat \<Rightarrow> u64 \<Rightarrow> kstate \<Rightarrow> bool" where
  "moved sl ow s x rest r y q dst s' \<longleftrightarrow>
     mapping s' q dst = Some (page2pa x OR scast (URW OR 1)) \<and> mapping s' r PFTEMP = None \<and>
     (\<forall>i < 512. mem s' x i = mem s y i) \<and> pp_ref (pages s' x) = 1 \<and>
     (\<forall>q' va. root_ok sl ow q' va \<longrightarrow> (q', pidx va) \<noteq> (q, pidx dst) \<longrightarrow> (q', pidx va) \<noteq> (r, pidx PFTEMP) \<longrightarrow>
        mapping s' q' va = mapping s q' va) \<and>
     (\<forall>p. p \<notin> set (x # rest) \<longrightarrow>
        pp_ref (pages s' p) = pp_ref (pages s p) - (if old_page s q dst = Some p then 1 else 0) \<and>
        (ow p = None \<longrightarrow> mem s' p = mem s p))"

context system_calls
begin

lemma place_and_unmap:
  assumes rd: "ready me r sl ow1 (kst u) fl1" and hc: "holds_copy sl ow s x rest r y ow1 (kst u) fl1"
    and len: "6 \<le> length rest" and np: "npages (kst u) = npages s" and id: "names (kst u) i me"
    and dst: "names (kst u) j e" "env_pml4e (envs (kst u) e) = Some (q, 0)" "\<not> va_bad dst" "(q, pidx dst) \<noteq> (r, pidx PFTEMP)"
    and roots: "root_ok sl ow r PFTEMP" "root_ok sl ow q dst"
    and rep: "\<And>m. mapping s q dst = Some m \<Longrightarrow> unat (PPN m) < npages s \<and> unat (PPN m) \<notin> set (x # rest) \<and>
      ow (unat (PPN m)) = None \<and> q = r \<and> PML4 dst = 0"
  shows "\<exists>s' ow' fl'. bindU (usys_page_map kc i PFTEMP j dst URW u) (\<lambda>result u.
      if result < 0 then upanic kc msg1 u
      else bindU (usys_getenvid kc u) (\<lambda>id u. bindU (usys_page_unmap kc id PFTEMP u) (\<lambda>result u.
        if result < 0 then upanic kc msg2 u else Inr ((), u)))) = Inr ((), u\<lparr>kst := s'\<rparr>) \<and>
    ready me r sl ow' s' fl' \<and> same_procs (kst u) s' \<and> moved sl ow s x rest r y q dst s'"
proof -
  let ?s = "kst u" and ?e = "page2pa x OR scast (URW OR 1)"
  have r: "runs me r ?s" "pt_wf sl ow1 ?s fl1" "env_pml4e (envs ?s me) = Some (r, 0)"
    using rd by (simp_all add: ready_def runs_def)
  have h: "mapping ?s r PFTEMP = Some ?e" "ow1 x = None" "x \<notin> set fl1" "x < npages ?s" "pp_ref (pages ?s x) = 1" "ow \<subseteq>\<^sub>m ow1"
    "set fl1 \<subseteq> set (x # rest)" "length rest \<le> length fl1 + 3" "others_kept sl ow s r PFTEMP ?s"
    "\<And>p. p \<notin> set (x # rest) \<Longrightarrow> ow1 p = ow p \<and> pp_ref (pages ?s p) = pp_ref (pages s p) \<and> (ow p = None \<longrightarrow> mem ?s p = mem s p)"
    "\<And>i. i < 512 \<Longrightarrow> mem ?s x i = mem s y i"
    using hc np by (simp_all add: holds_copy_def)
  have rt: "root_ok sl ow1 r PFTEMP" "root_ok sl ow1 q dst" using root_ok_le [OF _ h(6)] roots by blast+
  have md: "mapping ?s q dst = mapping s q dst" using h(9) roots(2) dst(4) by (simp add: others_kept_def)
  have od: "old_page ?s q dst = old_page s q dst" by (simp add: old_page_def md)
  have rep1: "replaceable ow1 ?s fl1 q dst"
  proof (cases "mapping s q dst")
    case (Some m)
    then have m: "unat (PPN m) < npages s" "unat (PPN m) \<notin> set (x # rest)" "ow (unat (PPN m)) = None" "q = r" "PML4 dst = 0"
      using rep by simp_all
    then show ?thesis
      using Some md np h(7) h(10) [OF m(2)] first_nonzero_PFTEMP [OF h(1) m(5)] by (auto simp: replaceable_def)
  qed (simp add: replaceable_def md)
  have nx: "old_page s q dst \<noteq> Some x" "old_page s q dst = Some p \<Longrightarrow> p \<notin> set (x # rest)" for p
    using rep by (auto simp: old_page_def)
  have xe: "unat (PPN ?e) = x"
    using h(4) pt_wf_npages [OF r(2)] entry_rights(1) by (intro entry_frame) simp_all
  have fl3: "3 \<le> length fl1" using len h(8) by simp
  obtain s5 ow5 fl5 where m5: "usys_page_map kc i PFTEMP j dst URW u = Inr (0, u\<lparr>kst := s5\<rparr>)" "runs me r s5" "same_procs ?s s5"
      "shares sl ow1 ?s fl1 q dst x URW ow5 s5 fl5"
    using page_map_ok [OF r(1,2) fl3 id r(3) dst(1,2) rt page_addr_facts(1) dst(3) entry_rights(4) h(1)
        first_nonzero_PFTEMP [OF h(1) page_addr_facts(2)] xe [symmetric] h(4,3) rep1] nx(1) od by auto
  have p5: "pt_wf sl ow5 s5 fl5" "ow1 \<subseteq>\<^sub>m ow5" "mapping s5 q dst = Some ?e" "others_kept sl ow1 ?s q dst s5"
    "set fl5 \<subseteq> set fl1 \<union> set_option (old_page s q dst)" "\<And>p. p \<notin> set fl1 \<Longrightarrow> ow5 p = ow1 p"
    "\<And>p. p \<notin> set fl1 \<Longrightarrow> ow1 p = None \<Longrightarrow> mem s5 p = mem ?s p"
    "\<And>p. p \<notin> set fl1 \<Longrightarrow> pp_ref (pages s5 p) =
        pp_ref (pages ?s p) - (if old_page s q dst = Some p then 1 else 0) + (if p = x then 1 else 0)"
    using m5(4) by (simp_all add: shares_def puts_def od)
  have le5: "ow \<subseteq>\<^sub>m ow5" using h(6) p5(2) by (rule map_le_trans)
  obtain s6 where s6: "usys_getenvid kc (u\<lparr>kst := s5\<rparr>) = Inr (env_id (envs s5 me), u\<lparr>kst := s6\<rparr>)" "runs me r s6"
      "same_procs s5 s6" "same_mm s5 s6"
    using getenvid_ok [of me r "u\<lparr>kst := s5\<rparr>"] m5(2) by auto
  have rd6: "ready me r sl ow5 s6 fl5"
    by (rule ready_mm [OF _ s6(2,3,4)]) (rule readyI [OF rd m5(2,3) p5(1)])
  have c6: "mapping s6 = mapping s5" "npages s6 = npages ?s" "env_id (envs s5 me) = env_id (envs s6 me)"
    "env_pml4e (envs s6 me) = Some (r, 0)" "pages s6 = pages s5" "mem s6 = mem s5"
    using same_mm_cong(2) [OF s6(4)] same_procs_fields [OF m5(3)] same_procs_fields [OF s6(3)] s6(2,4)
    by (simp_all add: runs_def same_mm_def)
  have t6: "mapping s6 r PFTEMP = Some ?e"
    using p5(4) rt(1) dst(4) h(1) by (auto simp: others_kept_def c6)
  have x6: "x \<notin> set fl5" "ow5 x = None" "pp_ref (pages s5 x) = 2"
    using p5(5) p5(6,8) [OF h(3)] nx(1) h(2,3,5) by auto
  obtain s7 where s7: "usys_page_unmap kc (env_id (envs s6 me)) PFTEMP (u\<lparr>kst := s6\<rparr>) = Inr (0, u\<lparr>kst := s7\<rparr>)" "runs me r s7"
      "same_procs s6 s7" "drops sl ow5 s6 fl5 r PFTEMP x s7"
    using page_unmap_ok [of me r "u\<lparr>kst := s6\<rparr>" sl ow5 fl5 "env_id (envs s6 me)" me r PFTEMP ?e x]
      rd6 root_ok_le [OF roots(1) le5] page_addr_facts(1) first_nonzero_PFTEMP [OF t6 page_addr_facts(2)] t6 xe h(4) c6 x6
    by (auto simp: ready_def)
  have d7: "pt_wf sl ow5 s7 fl5" "mapping s7 r PFTEMP = None" "others_kept sl ow5 s6 r PFTEMP s7"
    "\<And>p. pp_ref (pages s7 p) = pp_ref (pages s5 p) - (if p = x then 1 else 0)" "\<And>p. ow5 p = None \<Longrightarrow> mem s7 p = mem s5 p"
    using s7(4) x6(3) by (simp_all add: drops_def c6)
  have "moved sl ow s x rest r y q dst s7"
    unfolding moved_def
  proof (intro conjI allI impI)
    show "mapping s7 q dst = Some ?e"
      using d7(3) p5(3) root_ok_le [OF roots(2) le5] dst(4) by (auto simp: others_kept_def c6)
    show "mapping s7 r PFTEMP = None" by (fact d7(2))
    show "mem s7 x i = mem s y i" if "i < 512" for i
      using d7(5) [OF x6(2)] p5(7) [OF h(3,2)] h(11) [OF that] by simp
    show "pp_ref (pages s7 x) = 1" using d7(4) x6(3) by simp
    show "mapping s7 q' va = mapping s q' va"
      if "root_ok sl ow q' va" "(q', pidx va) \<noteq> (q, pidx dst)" "(q', pidx va) \<noteq> (r, pidx PFTEMP)" for q' va
      using that root_ok_le [OF that(1) h(6)] root_ok_le [OF that(1) le5] h(9) p5(4) d7(3)
      by (simp add: others_kept_def c6)
    fix p assume p: "p \<notin> set (x # rest)"
    then have p1: "p \<notin> set fl1" "p \<noteq> x" using h(7) by auto
    then show "pp_ref (pages s7 p) = pp_ref (pages s p) - (if old_page s q dst = Some p then 1 else 0)"
      using d7(4) p5(8) h(10) [OF p] by simp
    show "mem s7 p = mem s p" if "ow p = None"
      using that h(10) [OF p] p5(6,7) [OF p1(1)] d7(5) by simp
  qed
  moreover have "ready me r sl ow5 s7 fl5" using readyI [OF rd6 s7(2,3) d7(1)] .
  moreover have "same_procs ?s s7" using same_procs_trans [OF m5(3) same_procs_trans [OF s6(3) s7(3)]] .
  ultimately show ?thesis using m5(1) s6(1) s7(1) c6(3) by auto
qed

lemma pgfault_cow:
  assumes rd: "ready me r sl ow (kst u) (x # rest)" "6 \<le> length rest"
    and roots: "root_ok sl ow r PFTEMP" "root_ok sl ow r addr" and w: "window (kst u) r addr"
    and a: "addr = ROUNDDOWN fault_va PGSIZE" "unat addr < 2 ^ 39" "pidx addr \<noteq> pidx PFTEMP"
    and m: "mapping (kst u) r addr = Some m" "m AND PTE_U = PTE_U" "m AND PTE_COW \<noteq> 0" "err AND FEC_WR \<noteq> 0"
    and y: "y = unat (PPN m)" "y < npages (kst u)" "y \<notin> set (x # rest)" "ow y = None"
    and tmp: "mapping (kst u) r PFTEMP = None"
  shows "\<exists>s' ow' fl'. pgfault kc fault_va err u = Inr ((), u\<lparr>kst := s'\<rparr>) \<and>
    ready me r sl ow' s' fl' \<and> same_procs (kst u) s' \<and> moved sl ow (kst u) x rest r y r addr s'"
proof -
  let ?s = "kst u"
  have al: "unat addr mod 4096 = 0" using a(1) by (simp add: unat_ROUNDDOWN minus_mod_eq_mult_div)
  have ur: "uroot u = r" by (rule runs_uroot [of me]) (use rd(1) in \<open>simp add: ready_def\<close>)
  have pte: "uvpt (addr div PGSIZE) u = Inr (m, u)"
    using uvpt_entry [of u addr m] w m(1) a(2) ur by (simp add: div_PGSIZE)
  obtain s1 where s1: "usys_getenvid kc u = Inr (env_id (envs ?s me), u\<lparr>kst := s1\<rparr>)" "runs me r s1" "same_procs ?s s1" "same_mm ?s s1"
    using getenvid_ok [of me r u] rd(1) by (auto simp: ready_def)
  have rd1: "ready me r sl ow s1 (x # rest)" by (rule ready_mm [OF rd(1) s1(2,3,4)])
  have m1: "mapping s1 = mapping ?s" using same_mm_cong(2) [OF s1(4)] .
  have id1: "env_id (envs s1 e) = env_id (envs ?s e)" for e using same_procs_fields [OF s1(3)] by simp
  obtain s2 s3 ow3 fl3 where c: "usys_page_alloc kc (env_id (envs ?s me)) PFTEMP URW (u\<lparr>kst := s1\<rparr>) = Inr (0, u\<lparr>kst := s2\<rparr>)"
      "umemcpy PFTEMP addr 4096 (u\<lparr>kst := s2\<rparr>) = Inr ((), u\<lparr>kst := s3\<rparr>)" "ready me r sl ow3 s3 fl3"
      "same_procs s1 s3" "holds_copy sl ow s1 x rest r y ow3 s3 fl3"
    using copy_to_PFTEMP [of me r sl ow "u\<lparr>kst := s1\<rparr>" x rest addr m y] rd1 rd(2) roots al a(3) m(1,2) y(1,3,4) tmp
    by (auto simp: m1 id1)
  obtain s4 where s4: "usys_getenvid kc (u\<lparr>kst := s3\<rparr>) = Inr (env_id (envs s3 me), u\<lparr>kst := s4\<rparr>)" "runs me r s4" "same_procs s3 s4" "same_mm s3 s4"
    using getenvid_ok [of me r "u\<lparr>kst := s3\<rparr>"] c(3) by (auto simp: ready_def)
  obtain s5 where s5: "usys_getenvid kc (u\<lparr>kst := s4\<rparr>) = Inr (env_id (envs s4 me), u\<lparr>kst := s5\<rparr>)" "runs me r s5" "same_procs s4 s5" "same_mm s4 s5"
    using getenvid_ok [of me r "u\<lparr>kst := s4\<rparr>"] s4(2) by auto
  have p35: "same_procs s3 s5" "same_mm s3 s5"
    using same_procs_trans [OF s4(3) s5(3)] same_mm_trans [OF s4(4) s5(4)] .
  have p15: "same_procs ?s s5" using same_procs_trans [OF s1(3) same_procs_trans [OF c(4) p35(1)]] .
  have rd5: "ready me r sl ow3 s5 fl3" by (rule ready_mm [OF c(3) s5(2) p35])
  have "holds_copy sl ow ?s x rest r y ow3 s3 fl3"
    using c(5) m1 s1(4) by (simp add: holds_copy_def others_kept_def same_mm_def)
  then have hc5: "holds_copy sl ow ?s x rest r y ow3 s5 fl3" using holds_copy_mm [OF p35(2)] by blast
  have id5: "env_id (envs s3 me) = env_id (envs s5 me)" "env_id (envs s4 me) = env_id (envs s5 me)" "npages s5 = npages ?s"
    "env_pml4e (envs s5 me) = Some (r, 0)" "names s5 (env_id (envs s5 me)) me"
    using same_procs_fields [OF p35(1)] same_procs_fields [OF s5(3)] same_procs_fields [OF p15] rd5 by (simp_all add: ready_def runs_def)
  let ?rest = "bindU (usys_page_map kc (env_id (envs s5 me)) PFTEMP (env_id (envs s5 me)) addr URW (u\<lparr>kst := s5\<rparr>)) (\<lambda>result u.
      if result < 0 then upanic kc ''page mapping failed in copy-on-write faulting page'' u
      else bindU (usys_getenvid kc u) (\<lambda>id u. bindU (usys_page_unmap kc id PFTEMP u) (\<lambda>result u.
        if result < 0 then upanic kc ''temporary page unmapping failed in copy-on-write faulting page'' u else Inr ((), u))))"
  have "\<exists>s' ow' fl'. ?rest = Inr ((), u\<lparr>kst := s5\<rparr>\<lparr>kst := s'\<rparr>) \<and>
      ready me r sl ow' s' fl' \<and> same_procs (kst (u\<lparr>kst := s5\<rparr>)) s' \<and> moved sl ow ?s x rest r y r addr s'"
    by (rule place_and_unmap [where e = me])
      (use rd5 hc5 rd(2) id5 page_addr_facts(4) [OF al a(2)] page_addr_facts(5) [OF a(2)] a(3) roots m(1) y in simp_all)
  then obtain s' ow' fl' where s': "?rest = Inr ((), u\<lparr>kst := s'\<rparr>)"
      "ready me r sl ow' s' fl'" "same_procs s5 s'" "moved sl ow ?s x rest r y r addr s'" by auto
  have "pgfault kc fault_va err u = Inr ((), u\<lparr>kst := s'\<rparr>)"
    unfolding pgfault_def a(1) [symmetric] Let_def
    using pte s1(1) c(1,2) s4(1) s5(1) s'(1) m(3,4) by (simp add: id5 PGSIZE_def)
  then show ?thesis using s'(2,4) same_procs_trans [OF p15 s'(3)] by blast
qed

end


text \<open>The page \<open>y\<close> at \<open>addr\<close> is in the child as well: copy on write in both if it was writable or copy on write,
  read-only in the child otherwise.\<close>

definition cow_page :: "u64 \<Rightarrow> bool" where
  "cow_page m \<longleftrightarrow> m AND PTE_COW \<noteq> 0 \<or> m AND PTE_W \<noteq> 0"

definition duplicated :: "(nat \<Rightarrow> nat set) \<Rightarrow> owner \<Rightarrow> kstate \<Rightarrow> nat list \<Rightarrow> nat \<Rightarrow> nat \<Rightarrow> u64 \<Rightarrow> u64 \<Rightarrow> nat \<Rightarrow> kstate \<Rightarrow> bool" where
  "duplicated sl ow s fl r q addr m y s' \<longleftrightarrow>
     mapping s' q addr = Some (page2pa y OR scast ((if cow_page m then UCOW else URO) OR 1)) \<and>
     mapping s' r addr = Some (if cow_page m then page2pa y OR scast (UCOW OR 1) else m) \<and>
     (\<forall>q' va. root_ok sl ow q' va \<longrightarrow> (q', pidx va) \<noteq> (q, pidx addr) \<longrightarrow> (q', pidx va) \<noteq> (r, pidx addr) \<longrightarrow>
        mapping s' q' va = mapping s q' va) \<and>
     (\<forall>p. p \<notin> set fl \<longrightarrow> pp_ref (pages s' p) = pp_ref (pages s p) + (if p = y then 1 else 0) \<and>
        (ow p = None \<longrightarrow> mem s' p = mem s p))"

context system_calls
begin

lemma duppage_ok:
  assumes rd: "ready me r sl ow (kst u) fl" "7 \<le> length fl"
    and child: "names (kst u) envid e" "env_pml4e (envs (kst u) e) = Some (q, 0)" "q \<noteq> r"
    and roots: "root_ok sl ow r addr" "root_ok sl ow q addr" and w: "window (kst u) r addr"
    and a: "addr = ucast pn * PGSIZE" "unat addr < 2 ^ 30"
    and m: "mapping (kst u) r addr = Some m" "mapping (kst u) q addr = None"
    and y: "y = unat (PPN m)" "y < npages (kst u)" "y \<notin> set fl" "ow y = None" "pp_ref (pages (kst u) y) \<noteq> 0"
  shows "\<exists>s' ow' fl'. duppage kc envid pn u = Inr (0, u\<lparr>kst := s'\<rparr>) \<and>
    ready me r sl ow' s' fl' \<and> same_procs (kst u) s' \<and> duplicated sl ow (kst u) fl r q addr m y s'"
proof -
  let ?s = "kst u" and ?p = "if cow_page m then UCOW else URO"
  have up: "unat (ucast pn :: u64) = unat pn" by (simp add: unsigned_ucast_eq take_bit_nat_eq_self less_trans [OF unsigned_less])
  have ad: "unat addr = unat pn * 4096"
  proof -
    have "unat pn * 4096 < 2 ^ LENGTH(64)" using unsigned_less [of pn, where 'a = nat] by simp
    then show ?thesis by (simp add: a(1) PGSIZE_def unat_word_ariths up)
  qed
  have al: "unat addr mod 4096 = 0" and pn: "ucast pn = PPN addr"
    by (simp_all add: ad word_unat_eq_iff unat_PPN up)
  have z: "PML4 addr = 0" "PDPE addr = 0" using a(2) by (simp_all add: word_unat_eq_iff unat_PML4 unat_PDPE)
  have bad: "\<not> va_bad addr" using page_addr_facts(4) [OF al] a(2) by simp
  have ur: "uroot u = r" by (rule runs_uroot [of me]) (use rd(1) in \<open>simp add: ready_def\<close>)
  have pte: "uvpt (ucast pn) u = Inr (m, u)"
    using uvpt_entry [of u addr m] w m(1) a(2) ur pn by simp
  obtain s1 where s1: "usys_getenvid kc u = Inr (env_id (envs ?s me), u\<lparr>kst := s1\<rparr>)" "runs me r s1" "same_procs ?s s1" "same_mm ?s s1"
    using getenvid_ok [of me r u] rd(1) by (auto simp: ready_def)
  have rd1: "ready me r sl ow s1 fl" by (rule ready_mm [OF rd(1) s1(2,3,4)])
  have c1: "mapping s1 = mapping ?s" "env_id (envs s1 e) = env_id (envs ?s e)" "env_pml4e (envs s1 e) = env_pml4e (envs ?s e)"
    "npages s1 = npages ?s" "pages s1 = pages ?s" "mem s1 = mem ?s" for e
    using same_mm_cong(2) [OF s1(4)] same_procs_fields [OF s1(3)] s1(4) by (simp_all add: same_mm_def)
  have perm: "\<not> perm_bad ?p" using entry_rights(5,6) by simp
  have "\<exists>s2 ow2 fl2. usys_page_map kc (env_id (envs ?s me)) addr envid addr ?p (u\<lparr>kst := s1\<rparr>) = Inr (0, u\<lparr>kst := s1\<rparr>\<lparr>kst := s2\<rparr>) \<and>
      runs me r s2 \<and> same_procs (kst (u\<lparr>kst := s1\<rparr>)) s2 \<and> shares sl ow (kst (u\<lparr>kst := s1\<rparr>)) fl q addr y ?p ow2 s2 fl2"
    by (rule page_map_ok [where e = me and e' = e and p = r and m = m])
      (use rd1 rd(2) child names_cong [OF s1(3)] roots bad perm m y mapping_first_nonzero [of s1 r addr m] z in
        \<open>simp_all add: ready_def runs_def c1 replaceable_def old_page_def\<close>)
  then obtain s2 ow2 fl2 where s2: "usys_page_map kc (env_id (envs ?s me)) addr envid addr ?p (u\<lparr>kst := s1\<rparr>) = Inr (0, u\<lparr>kst := s2\<rparr>)"
      "runs me r s2" "same_procs s1 s2" "shares sl ow s1 fl q addr y ?p ow2 s2 fl2" by auto
  have old: "old_page s1 q addr = None" using m(2) by (simp add: old_page_def c1)
  have p2: "pt_wf sl ow2 s2 fl2" "ow \<subseteq>\<^sub>m ow2" "mapping s2 q addr = Some (page2pa y OR scast (?p OR 1))"
    "others_kept sl ow ?s q addr s2" "set fl2 \<subseteq> set fl" "length fl \<le> length fl2 + 4" "\<And>p. p \<notin> set fl \<Longrightarrow> ow2 p = ow p"
    "\<And>p. p \<notin> set fl \<Longrightarrow> ow p = None \<Longrightarrow> mem s2 p = mem ?s p"
    "\<And>p. p \<notin> set fl \<Longrightarrow> pp_ref (pages s2 p) = pp_ref (pages ?s p) + (if p = y then 1 else 0)"
    using s2(4) old unfolding shares_def puts_def others_kept_def by (simp_all add: c1 split: if_splits)
  have mr: "mapping s2 r addr = Some m" using p2(4) roots(1) child(3) m(1) by (simp add: others_kept_def)
  have rd2: "ready me r sl ow2 s2 fl2" using readyI [OF rd1 s2(2,3) p2(1)] .
  have pr2: "same_procs ?s s2" using same_procs_trans [OF s1(3) s2(3)] .
  show ?thesis
  proof (cases "cow_page m")
    case False
    have "duplicated sl ow ?s fl r q addr m y s2"
      using False p2(3,4,8,9) mr by (simp add: duplicated_def others_kept_def)
    moreover have "duppage kc envid pn u = Inr (0, u\<lparr>kst := s2\<rparr>)"
      using False pte s1(1) s2(1) by (simp add: duppage_def cow_page_def a(1) [symmetric])
    ultimately show ?thesis using rd2 pr2 by blast
  next
    case True
    obtain s3 where s3: "usys_getenvid kc (u\<lparr>kst := s2\<rparr>) = Inr (env_id (envs s2 me), u\<lparr>kst := s3\<rparr>)" "runs me r s3" "same_procs s2 s3" "same_mm s2 s3"
      using getenvid_ok [of me r "u\<lparr>kst := s2\<rparr>"] s2(2) by auto
    obtain s4 where s4: "usys_getenvid kc (u\<lparr>kst := s3\<rparr>) = Inr (env_id (envs s3 me), u\<lparr>kst := s4\<rparr>)" "runs me r s4" "same_procs s3 s4" "same_mm s3 s4"
      using getenvid_ok [of me r "u\<lparr>kst := s3\<rparr>"] s3(2) by auto
    have p24: "same_procs s2 s4" "same_mm s2 s4"
      using same_procs_trans [OF s3(3) s4(3)] same_mm_trans [OF s3(4) s4(4)] .
    have rd4: "ready me r sl ow2 s4 fl2" by (rule ready_mm [OF rd2 s4(2) p24])
    have c4: "mapping s4 = mapping s2" "env_id (envs s2 me) = env_id (envs s4 me)" "env_id (envs s3 me) = env_id (envs s4 me)"
      "npages s4 = npages ?s" "pages s4 = pages s2" "mem s4 = mem s2"
      using same_mm_cong(2) [OF p24(2)] same_procs_fields [OF p24(1)] same_procs_fields [OF s4(3)] same_procs_fields [OF pr2] p24(2)
      by (simp_all add: same_mm_def)
    have ref: "pp_ref (pages s2 y) \<noteq> 1" using p2(9) [OF y(3)] y(5) by simp
    have "\<exists>s5 ow5 fl5. usys_page_map kc (env_id (envs s4 me)) addr (env_id (envs s4 me)) addr UCOW (u\<lparr>kst := s4\<rparr>) = Inr (0, u\<lparr>kst := s4\<rparr>\<lparr>kst := s5\<rparr>) \<and>
        runs me r s5 \<and> same_procs (kst (u\<lparr>kst := s4\<rparr>)) s5 \<and> shares sl ow2 (kst (u\<lparr>kst := s4\<rparr>)) fl2 r addr y UCOW ow5 s5 fl5"
      by (rule page_map_ok [where e = me and e' = me and p = r and m = m])
        (use rd4 rd(2) p2(5,6) root_ok_le [OF roots(1) p2(2)] bad entry_rights(5) mr y p2(7) [OF y(3)] ref
          mapping_first_nonzero [of s4 r addr m] z in
          \<open>auto simp: ready_def runs_def c4 replaceable_def old_page_def\<close>)
    then obtain s5 ow5 fl5 where s5: "usys_page_map kc (env_id (envs s4 me)) addr (env_id (envs s4 me)) addr UCOW (u\<lparr>kst := s4\<rparr>) = Inr (0, u\<lparr>kst := s5\<rparr>)"
        "runs me r s5" "same_procs s4 s5" "shares sl ow2 s4 fl2 r addr y UCOW ow5 s5 fl5" by auto
    have old5: "old_page s4 r addr = Some y" using mr y(1) by (simp add: old_page_def c4)
    have p5: "pt_wf sl ow5 s5 fl5" "mapping s5 r addr = Some (page2pa y OR scast (UCOW OR 1))"
      "others_kept sl ow2 s2 r addr s5" "\<And>p. p \<notin> set fl2 \<Longrightarrow> ow2 p = None \<Longrightarrow> mem s5 p = mem s2 p"
      "\<And>p. p \<notin> set fl2 \<Longrightarrow> pp_ref (pages s5 p) = pp_ref (pages s2 p)"
      using s5(4) old5 unfolding shares_def puts_def others_kept_def by (simp_all add: c4 split: if_splits)
    have nf: "p \<notin> set fl2" if "p \<notin> set fl" for p using that p2(5) by auto
    have "duplicated sl ow ?s fl r q addr m y s5"
      unfolding duplicated_def
    proof (intro conjI allI impI)
      show "mapping s5 q addr = Some (page2pa y OR scast (?p OR 1))"
        using p5(3) root_ok_le [OF roots(2) p2(2)] child(3) p2(3) by (simp add: others_kept_def)
      show "mapping s5 r addr = Some (if cow_page m then page2pa y OR scast (UCOW OR 1) else m)" using True p5(2) by simp
      show "mapping s5 q' va = mapping ?s q' va"
        if "root_ok sl ow q' va" "(q', pidx va) \<noteq> (q, pidx addr)" "(q', pidx va) \<noteq> (r, pidx addr)" for q' va
        using that root_ok_le [OF that(1) p2(2)] p2(4) p5(3) by (simp add: others_kept_def)
      fix p assume p: "p \<notin> set fl"
      show "pp_ref (pages s5 p) = pp_ref (pages ?s p) + (if p = y then 1 else 0)" using p5(5) [OF nf [OF p]] p2(9) [OF p] by simp
      show "mem s5 p = mem ?s p" if "ow p = None" using p5(4) [OF nf [OF p]] p2(7,8) [OF p] that by simp
    qed
    moreover have "duppage kc envid pn u = Inr (0, u\<lparr>kst := s5\<rparr>)"
      using True pte s1(1) s2(1) s3(1) s4(1) s5(1) by (auto simp: duppage_def cow_page_def a(1) [symmetric] c4)
    moreover have "ready me r sl ow5 s5 fl5" using readyI [OF rd4 s5(2,3) p5(1)] .
    ultimately show ?thesis using same_procs_trans [OF pr2 same_procs_trans [OF p24(1) s5(3)]] by blast
  qed
qed

end


text \<open>The page of the stack is copied at once.\<close>

context system_calls
begin

lemma copy_stack_ok:
  assumes rd: "ready me r sl ow (kst u) (x # rest)" "6 \<le> length rest"
    and child: "names (kst u) envid e" "env_pml4e (envs (kst u) e) = Some (q, 0)" "q \<noteq> r"
    and roots: "root_ok sl ow r PFTEMP" "root_ok sl ow r stk" "root_ok sl ow q stk" and stk: "stk = USTACKTOP - PGSIZE"
    and m: "mapping (kst u) r stk = Some m" "m AND PTE_U = PTE_U" "mapping (kst u) q stk = None" "mapping (kst u) r PFTEMP = None"
    and y: "y = unat (PPN m)" "y \<notin> set (x # rest)" "ow y = None"
  shows "\<exists>s' ow' fl'. copy_stack kc envid u = Inr ((), u\<lparr>kst := s'\<rparr>) \<and>
    ready me r sl ow' s' fl' \<and> same_procs (kst u) s' \<and> moved sl ow (kst u) x rest r y q stk s'"
proof -
  let ?s = "kst u"
  have va: "unat stk mod 4096 = 0" "\<not> va_bad stk" "pidx stk \<noteq> pidx PFTEMP"
    by (simp_all add: stk va_bad_def mmu_defs pidx_def tbl_idx_def unat_PML4 unat_PDPE unat_PDX unat_PTX)
  obtain s1 where s1: "usys_getenvid kc u = Inr (env_id (envs ?s me), u\<lparr>kst := s1\<rparr>)" "runs me r s1" "same_procs ?s s1" "same_mm ?s s1"
    using getenvid_ok [of me r u] rd(1) by (auto simp: ready_def)
  have rd1: "ready me r sl ow s1 (x # rest)" by (rule ready_mm [OF rd(1) s1(2,3,4)])
  have m1: "mapping s1 = mapping ?s" using same_mm_cong(2) [OF s1(4)] .
  have id1: "env_id (envs s1 e) = env_id (envs ?s e)" for e using same_procs_fields [OF s1(3)] by simp
  obtain s2 s3 ow3 fl3 where c: "usys_page_alloc kc (env_id (envs ?s me)) PFTEMP URW (u\<lparr>kst := s1\<rparr>) = Inr (0, u\<lparr>kst := s2\<rparr>)"
      "umemcpy PFTEMP stk 4096 (u\<lparr>kst := s2\<rparr>) = Inr ((), u\<lparr>kst := s3\<rparr>)" "ready me r sl ow3 s3 fl3"
      "same_procs s1 s3" "holds_copy sl ow s1 x rest r y ow3 s3 fl3"
    using copy_to_PFTEMP [of me r sl ow "u\<lparr>kst := s1\<rparr>" x rest stk m y] rd1 rd(2) roots va(1,3) m y
    by (auto simp: m1 id1)
  obtain s4 where s4: "usys_getenvid kc (u\<lparr>kst := s3\<rparr>) = Inr (env_id (envs s3 me), u\<lparr>kst := s4\<rparr>)" "runs me r s4" "same_procs s3 s4" "same_mm s3 s4"
    using getenvid_ok [of me r "u\<lparr>kst := s3\<rparr>"] c(3) by (auto simp: ready_def)
  have p14: "same_procs ?s s4" using same_procs_trans [OF s1(3) same_procs_trans [OF c(4) s4(3)]] .
  have rd4: "ready me r sl ow3 s4 fl3" by (rule ready_mm [OF c(3) s4(2,3,4)])
  have "holds_copy sl ow ?s x rest r y ow3 s3 fl3"
    using c(5) m1 s1(4) by (simp add: holds_copy_def others_kept_def same_mm_def)
  then have hc4: "holds_copy sl ow ?s x rest r y ow3 s4 fl3" using holds_copy_mm [OF s4(4)] by blast
  have id4: "env_id (envs s3 me) = env_id (envs s4 me)" "npages s4 = npages ?s" "names s4 (env_id (envs s4 me)) me"
    "names s4 envid e" "env_pml4e (envs s4 e) = Some (q, 0)"
    using same_procs_fields [OF s4(3)] same_procs_fields [OF p14] rd4 names_cong [OF p14] child(1,2)
    by (simp_all add: ready_def)
  let ?rest = "bindU (usys_page_map kc (env_id (envs s4 me)) PFTEMP envid stk URW (u\<lparr>kst := s4\<rparr>)) (\<lambda>result u.
      if result < 0 then upanic kc ''page mapping failed in fork'' u
      else bindU (usys_getenvid kc u) (\<lambda>id u. bindU (usys_page_unmap kc id PFTEMP u) (\<lambda>result u.
        if result < 0 then upanic kc ''temporary page unmapping failed in copy-on-write faulting page'' u else Inr ((), u))))"
  have "\<exists>s' ow' fl'. ?rest = Inr ((), u\<lparr>kst := s4\<rparr>\<lparr>kst := s'\<rparr>) \<and>
      ready me r sl ow' s' fl' \<and> same_procs (kst (u\<lparr>kst := s4\<rparr>)) s' \<and> moved sl ow ?s x rest r y q stk s'"
    by (rule place_and_unmap [where e = e])
      (use rd4 hc4 rd(2) id4 va(2) child(3) roots m(3) in simp_all)
  then obtain s' ow' fl' where s': "?rest = Inr ((), u\<lparr>kst := s'\<rparr>)"
      "ready me r sl ow' s' fl'" "same_procs s4 s'" "moved sl ow ?s x rest r y q stk s'" by auto
  have "copy_stack kc envid u = Inr ((), u\<lparr>kst := s'\<rparr>)"
    unfolding copy_stack_def stk [symmetric]
    using s1(1) c(1,2) s4(1) s'(1) by (simp add: id4 PGSIZE_def)
  then show ?thesis using s'(2,4) same_procs_trans [OF p14 s'(3)] by blast
qed

end

end
