(* ===== verification/Ulib_Fork.thy ===== *)
theory Ulib_Fork
  imports Ulib_Cow
begin

text \<open>
  Copy-on-write on the real kernel: the lemmas of the locale \<open>system_calls\<close>, read on \<open>trap\<close> through
  its interpretation, and a sample machine with a parent and a child on which they apply.
\<close>

section \<open>A sample machine\<close>

text \<open>Frames 2 to 5 are the tables of the parent, with the recursive slot, 7 is the root of the child,
  6 is the page at \<open>0x2000\<close> with the entry \<open>e\<close>, and frames 20 to 29 are free.\<close>

definition cow_mem :: "u64 \<Rightarrow> nat \<Rightarrow> nat \<Rightarrow> u64" where
  "cow_mem e p i =
     (if p = 2 \<and> i = 0 then 0x3007 else if p = 2 \<and> i = 2 then 0x2005 else if p = 3 \<and> i = 0 then 0x4007
      else if p = 4 \<and> i = 0 then 0x5007 else if p = 5 \<and> i = 2 then e else if p = 6 then 0x2a else 0)"

definition cow_pages :: "nat \<Rightarrow> PageInfo" where
  "cow_pages p =
     (if 20 \<le> p \<and> p < 30 then \<lparr>pp_link = (if p = 29 then None else Some (p + 1)), pp_ref = 0\<rparr>
      else \<lparr>pp_link = None, pp_ref = 1\<rparr>)"

definition cow_sample :: "u64 \<Rightarrow> kstate" where
  "cow_sample e = (bss_state 30 0 0)\<lparr>mem := cow_mem e, pages := cow_pages, page_free_list := Some 20,
     envs := (\<lambda>_. zero_env)(0 := zero_env\<lparr>env_pml4e := Some (2, 0), env_id := 0x1000, env_status := ENV_RUNNING\<rparr>,
               1 := zero_env\<lparr>env_pml4e := Some (7, 0), env_id := 0x1001, env_parent_id := 0x1000,
                  env_status := ENV_NOT_RUNNABLE\<rparr>),
     cpus := (\<lambda>_. zero_cpu\<lparr>cpu_env := Some 0\<rparr>), cr3 := (\<lambda>_. 0x2000)\<rparr>"

definition cow_ow :: owner where
  "cow_ow = [2 \<mapsto> (2, []), 3 \<mapsto> (2, [0]), 4 \<mapsto> (2, [0, 0]), 5 \<mapsto> (2, [0, 0, 0]), 7 \<mapsto> (7, [])]"

definition cow_user :: "u64 \<Rightarrow> ustate" where
  "cow_user e = \<lparr>kst = cow_sample e, thisenv = 0, pgfault_handler = 0, binaryname = 0\<rparr>"

lemma cow_sample_simps [simp]:
  "mem (cow_sample e) = cow_mem e" "pages (cow_sample e) = cow_pages" "npages (cow_sample e) = 30"
  "page_free_list (cow_sample e) = Some 20" "curenv (cow_sample e) = Some 0" "cpu (cow_sample e) = 0"
  "envs (cow_sample e) 0 = zero_env\<lparr>env_pml4e := Some (2, 0), env_id := 0x1000, env_status := ENV_RUNNING\<rparr>"
  "envs (cow_sample e) (Suc 0) = zero_env\<lparr>env_pml4e := Some (7, 0), env_id := 0x1001, env_parent_id := 0x1000,
     env_status := ENV_NOT_RUNNABLE\<rparr>"
  "cr3 (cow_sample e) 0 = 0x2000" "kst (cow_user e) = cow_sample e"
  by (simp_all add: cow_sample_def cow_user_def curenv_def)

lemma cow_sample_wf: "pt_wf (\<lambda>_. {0}) cow_ow (cow_sample e) [20, 21, 22, 23, 24, 25, 26, 27, 28, 29]"
proof -
  have "alloc_inv (cow_sample e) [20, 21, 22, 23, 24, 25, 26, 27, 28, 29]"
    by (auto simp: alloc_inv_def freelist_def cow_pages_def) arith
  then show ?thesis
    by (auto simp: pt_wf_def cow_ow_def slot_ok_def nxt_def cow_mem_def PPN_def split: if_splits)
qed

lemma cow_sample_ready: "ready 0 2 (\<lambda>_. {0}) cow_ow (cow_sample e) [20, 21, 22, 23, 24, 25, 26, 27, 28, 29]"
proof -
  have "runs 0 2 (cow_sample e)" by (simp add: runs_def) (simp add: cow_sample_def bss_state_def zero_cpu_def zero_lock_def)
  moreover have "names (cow_sample e) 0x1000 0"
    by (simp add: names_def envid2env_def ENVX_def NENV_def LOG2NENV_def)
  ultimately show ?thesis using cow_sample_wf by (simp add: ready_def)
qed

lemma cow_sample_va:
  "pidx 0x2000 = [0, 0, 0, 2]" "pidx PFTEMP = [0, 0, 2, 511]" "unat (PML4 0x2000) = 0" "unat (PML4 PFTEMP) = 0"
  by (simp_all add: pidx_def tbl_idx_def unat_PML4 unat_PDPE unat_PDX unat_PTX mmu_defs)

lemma cow_sample_roots:
  "root_ok (\<lambda>_. {0}) cow_ow 2 0x2000" "root_ok (\<lambda>_. {0}) cow_ow 2 PFTEMP" "root_ok (\<lambda>_. {0}) cow_ow 7 0x2000"
  "pidx 0x2000 \<noteq> pidx PFTEMP"
  by (simp_all add: root_ok_def cow_ow_def cow_sample_va)

lemma cow_sample_pages:
  assumes "bit e 0"
  shows "mapping (cow_sample e) 2 0x2000 = Some e" "mapping (cow_sample e) 2 PFTEMP = None" "mapping (cow_sample e) 7 0x2000 = None"
    "window (cow_sample e) 2 0x2000"
proof -
  have n: "nxt (cow_sample e) 2 0 = Some 3" "nxt (cow_sample e) 2 2 = Some 2" "nxt (cow_sample e) 3 0 = Some 4"
    "nxt (cow_sample e) 4 0 = Some 5" "nxt (cow_sample e) 4 2 = None" "nxt (cow_sample e) 7 0 = None"
    by (simp_all add: nxt_def cow_mem_def PPN_def bit_0)
  show "mapping (cow_sample e) 2 0x2000 = Some e" "mapping (cow_sample e) 2 PFTEMP = None" "mapping (cow_sample e) 7 0x2000 = None"
    using assms by (simp_all add: mapping_def cow_sample_va n cow_mem_def)
  have "pidx (UVPT + 8 * PPN 0x2000) = [2, 0, 0, 0]"
    by (simp add: uvpt_indices unat_PML4 unat_PDPE unat_PDX unat_PTX)
  then show "window (cow_sample e) 2 0x2000"
    by (simp add: window_def mapping_def n cow_mem_def mmu_defs bit_0)
qed

lemma shared_entry:
  assumes "y < 2 ^ 32"
  shows "unat (PPN (page2pa y OR scast (UCOW OR 1))) = y" "unat (PPN (page2pa y OR scast (URO OR 1))) = y"
    "(page2pa y OR scast (UCOW OR 1)) AND PTE_W = 0" "(page2pa y OR scast (URO OR 1)) AND PTE_W = 0"
proof -
  show "unat (PPN (page2pa y OR scast (UCOW OR 1))) = y" "unat (PPN (page2pa y OR scast (URO OR 1))) = y"
    using entry_frame [OF assms] entry_rights by simp_all
  have "page2pa y AND PTE_W = 0"
    by (rule bit_word_eqI) (auto simp: page2pa_def mmu_defs bit_simps)
  moreover have "scast (UCOW OR 1) AND PTE_W = 0" "scast (URO OR 1) AND PTE_W = 0"
    by (simp_all add: UCOW_def URO_def PTE_COW_def mmu_defs)
  ultimately show "(page2pa y OR scast (UCOW OR 1)) AND PTE_W = 0" "(page2pa y OR scast (URO OR 1)) AND PTE_W = 0"
    by (simp_all add: bit.conj_disj_distrib2)
qed

section \<open>Copy on write through the kernel\<close>

text \<open>C35: The page fault handler of \<open>fork\<close>, with its seven system calls through \<open>trap\<close>. On a write to a
  copy-on-write page of the first 512 gigabytes it returns; the page then maps a fresh frame \<open>x\<close>
  with one reference, present, for users and writable, that holds the contents of the old
  frame \<open>y\<close>; \<open>PFTEMP\<close> is unmapped again; \<open>y\<close> has lost one reference and kept its contents; no other
  page of any address space and no other frame in use has changed, and the environments are as before up to registers and statistics.\<close>

theorem pgfault_copies:
  assumes rd: "ready me r sl ow (kst u) (x # rest)" and len: "6 \<le> length rest"
    and roots: "root_ok sl ow r PFTEMP" "root_ok sl ow r addr" and w: "window (kst u) r addr"
    and addr: "addr = ROUNDDOWN fault_va PGSIZE" "unat addr < 2 ^ 39" "pidx addr \<noteq> pidx PFTEMP"
    and pte: "mapping (kst u) r addr = Some m" "m AND PTE_U = PTE_U" "m AND PTE_COW \<noteq> 0" "err AND FEC_WR \<noteq> 0"
    and y: "y = unat (PPN m)" "y < npages (kst u)" "y \<notin> set (x # rest)" "ow y = None"
    and tmp: "mapping (kst u) r PFTEMP = None"
  shows "\<exists>s' ow' fl'. pgfault (int48 mon rd rbp 2 tf) fault_va err u = Inr ((), u\<lparr>kst := s'\<rparr>) \<and>
    ready me r sl ow' s' fl' \<and> same_procs (kst u) s' \<and>
    mapping s' r addr = Some (page2pa x OR scast (URW OR 1)) \<and> mapping s' r PFTEMP = None \<and>
    (\<forall>i < 512. mem s' x i = mem (kst u) y i) \<and> pp_ref (pages s' x) = 1 \<and>
    pp_ref (pages s' y) = pp_ref (pages (kst u) y) - 1 \<and>
    (\<forall>q va. root_ok sl ow q va \<longrightarrow> (q, pidx va) \<noteq> (r, pidx addr) \<longrightarrow> (q, pidx va) \<noteq> (r, pidx PFTEMP) \<longrightarrow>
       mapping s' q va = mapping (kst u) q va) \<and>
    (\<forall>p. p \<notin> set (x # rest) \<longrightarrow> ow p = None \<longrightarrow> mem s' p = mem (kst u) p)"
proof -
  have "\<exists>s' ow' fl'. pgfault (int48 mon rd rbp 2 tf) fault_va err u = Inr ((), u\<lparr>kst := s'\<rparr>) \<and>
    ready me r sl ow' s' fl' \<and> same_procs (kst u) s' \<and> moved sl ow (kst u) x rest r y r addr s'"
    by (rule trapped.pgfault_cow [where m = m]) (fact assms)+
  moreover have "old_page (kst u) r addr = Some y" using pte(1) y(1) by (simp add: old_page_def)
  ultimately show ?thesis using y(3) unfolding moved_def by (elim exE conjE, intro exI conjI) (assumption | simp)+
qed

theorem pgfault_copies_witness:
  "\<exists>s'. pgfault (int48 (\<lambda>_ s. Inr ((), s)) (\<lambda>_. 0) 0 2 new_tf) 0x2010 2 (cow_user 0x6805) = Inr ((), (cow_user 0x6805)\<lparr>kst := s'\<rparr>) \<and>
     mapping s' 2 0x2000 = Some (page2pa 20 OR scast (URW OR 1)) \<and> mem s' 20 7 = 0x2a"
proof -
  have rd: "ROUNDDOWN 0x2010 PGSIZE = 0x2000" by (simp add: ROUNDDOWN_def PGSIZE_def)
  have y: "6 = unat (PPN (0x6805 :: u64))" by (simp add: PPN_def)
  have m: "(0x6805 :: u64) AND PTE_U = PTE_U" "(0x6805 :: u64) AND PTE_COW \<noteq> 0" "(2 :: u64) AND FEC_WR \<noteq> 0"
    by (simp_all add: mmu_defs PTE_COW_def FEC_WR_def)
  let ?u = "cow_user 0x6805"
  have c: "mapping (kst ?u) 2 0x2000 = Some 0x6805" "mapping (kst ?u) 2 PFTEMP = None" "window (kst ?u) 2 0x2000"
    using cow_sample_pages [of "0x6805"] by (simp_all add: bit_0)
  have r: "ready 0 2 (\<lambda>_. {0}) cow_ow (kst ?u) (20 # [21, 22, 23, 24, 25, 26, 27, 28, 29])"
    using cow_sample_ready [of "0x6805"] by simp
  have n: "6 \<le> length [21, 22, 23, 24, 25, 26, 27, 28, 29 :: nat]" "unat (0x2000 :: u64) < 2 ^ 39" "6 < npages (kst ?u)"
    "6 \<notin> set (20 # [21, 22, 23, 24, 25, 26, 27, 28, 29 :: nat])" "cow_ow 6 = None"
    by (simp_all add: cow_ow_def)
  from pgfault_copies [OF r n(1) cow_sample_roots(2,1) c(3) rd [symmetric] n(2) cow_sample_roots(4) c(1) m(1,2,3) y n(3-5) c(2),
      of "\<lambda>_ s. Inr ((), s)" "\<lambda>_. 0" 0 new_tf]
  obtain s' where "pgfault (int48 (\<lambda>_ s. Inr ((), s)) (\<lambda>_. 0) 0 2 new_tf) 0x2010 2 ?u = Inr ((), ?u\<lparr>kst := s'\<rparr>)"
    "mapping s' 2 0x2000 = Some (page2pa 20 OR scast (URW OR 1))" "\<forall>i < 512. mem s' 20 i = mem (kst ?u) 6 i" by blast
  then show ?thesis by (intro exI [of _ s']) (simp add: cow_mem_def)
qed

text \<open>C36: \<open>duppage\<close>, with its system calls through \<open>trap\<close>, for a page \<open>addr\<close> of the first gigabyte that the parent maps
  and the child does not. It returns 0; the child maps the parent's frame. If the page was writable or
  copy-on-write, both now map it copy-on-write and not writable; otherwise the child maps it
  read-only and the parent's entry has not changed. The frame has one more reference, no contents
  of a frame in use and no other mapping of any address space has changed.\<close>

theorem duppage_shares:
  assumes rd: "ready me r sl ow (kst u) fl" and len: "7 \<le> length fl"
    and child: "names (kst u) envid e" "env_pml4e (envs (kst u) e) = Some (q, 0)" "q \<noteq> r"
    and roots: "root_ok sl ow r addr" "root_ok sl ow q addr" and w: "window (kst u) r addr"
    and addr: "addr = ucast pn * PGSIZE" "unat addr < 2 ^ 30"
    and pte: "mapping (kst u) r addr = Some m" "mapping (kst u) q addr = None"
    and y: "y = unat (PPN m)" "y < npages (kst u)" "y \<notin> set fl" "ow y = None" "pp_ref (pages (kst u) y) \<noteq> 0"
  shows "\<exists>s' ow' fl' ec ep. duppage (int48 mon rd rbp 2 tf) envid pn u = Inr (0, u\<lparr>kst := s'\<rparr>) \<and>
    ready me r sl ow' s' fl' \<and> same_procs (kst u) s' \<and>
    mapping s' q addr = Some ec \<and> mapping s' r addr = Some ep \<and>
    (if m AND PTE_COW \<noteq> 0 \<or> m AND PTE_W \<noteq> 0 then ec = ep \<and> ep = page2pa y OR scast (UCOW OR 1)
     else ec = page2pa y OR scast (URO OR 1) \<and> ep = m) \<and>
    ec AND PTE_W = 0 \<and> ep AND PTE_W = 0 \<and> unat (PPN ec) = y \<and> unat (PPN ep) = y \<and>
    pp_ref (pages s' y) = pp_ref (pages (kst u) y) + 1 \<and>
    (\<forall>q' va. root_ok sl ow q' va \<longrightarrow> (q', pidx va) \<noteq> (q, pidx addr) \<longrightarrow> (q', pidx va) \<noteq> (r, pidx addr) \<longrightarrow>
       mapping s' q' va = mapping (kst u) q' va) \<and>
    (\<forall>p. p \<notin> set fl \<longrightarrow> ow p = None \<longrightarrow> mem s' p = mem (kst u) p)"
proof -
  have "\<exists>s' ow' fl'. duppage (int48 mon rd rbp 2 tf) envid pn u = Inr (0, u\<lparr>kst := s'\<rparr>) \<and>
    ready me r sl ow' s' fl' \<and> same_procs (kst u) s' \<and> duplicated sl ow (kst u) fl r q addr m y s'"
    by (rule trapped.duppage_ok [where e = e]) (fact assms)+
  then obtain s' ow' fl' where s': "duppage (int48 mon rd rbp 2 tf) envid pn u = Inr (0, u\<lparr>kst := s'\<rparr>)"
    "ready me r sl ow' s' fl'" "same_procs (kst u) s'" "duplicated sl ow (kst u) fl r q addr m y s'" by blast
  have "pt_wf sl ow (kst u) fl" using rd by (simp add: ready_def)
  then have "y < 2 ^ 32" using y(2) pt_wf_npages by (simp add: less_le_trans)
  note e = shared_entry [OF this]
  show ?thesis
    by (rule exI [of _ s'], rule exI [of _ ow'], rule exI [of _ fl'],
        rule exI [of _ "page2pa y OR scast ((if cow_page m then UCOW else URO) OR 1)"],
        rule exI [of _ "if cow_page m then page2pa y OR scast (UCOW OR 1) else m"])
      (use s' e y(1,3) in \<open>auto simp: duplicated_def cow_page_def\<close>)
qed

theorem duppage_shares_witness:
  "\<exists>s'. duppage (int48 (\<lambda>_ s. Inr ((), s)) (\<lambda>_. 0) 0 2 new_tf) 0x1001 2 (cow_user 0x6007) = Inr (0, (cow_user 0x6007)\<lparr>kst := s'\<rparr>) \<and>
     mapping s' 7 0x2000 = mapping s' 2 0x2000 \<and> pp_ref (pages s' 6) = 2"
proof -
  have y: "6 = unat (PPN (0x6007 :: u64))" by (simp add: PPN_def)
  have n: "names (cow_sample 0x6007) 0x1001 1"
    by (simp add: names_def envid2env_def ENVX_def NENV_def LOG2NENV_def)
  let ?u = "cow_user 0x6007"
  have c: "mapping (kst ?u) 2 0x2000 = Some 0x6007" "mapping (kst ?u) 7 0x2000 = None" "window (kst ?u) 2 0x2000"
    using cow_sample_pages [of "0x6007"] by (simp_all add: bit_0)
  have r: "ready 0 2 (\<lambda>_. {0}) cow_ow (kst ?u) [20, 21, 22, 23, 24, 25, 26, 27, 28, 29]"
    using cow_sample_ready [of "0x6007"] by simp
  have k: "names (kst ?u) 0x1001 1" "env_pml4e (envs (kst ?u) 1) = Some (7, 0)" "7 \<noteq> (2 :: nat)"
    using n by simp_all
  have a: "0x2000 = ucast (2 :: u32) * PGSIZE" "unat (0x2000 :: u64) < 2 ^ 30" by (simp_all add: PGSIZE_def)
  have z: "7 \<le> length [20, 21, 22, 23, 24, 25, 26, 27, 28, 29 :: nat]" "6 < npages (kst ?u)"
    "6 \<notin> set [20, 21, 22, 23, 24, 25, 26, 27, 28, 29 :: nat]" "cow_ow 6 = None" "pp_ref (pages (kst ?u) 6) \<noteq> 0"
    by (simp_all add: cow_ow_def cow_pages_def)
  have w: "(0x6007 :: u64) AND PTE_W \<noteq> 0" by (simp add: mmu_defs)
  from duppage_shares [OF r z(1) k cow_sample_roots(1,3) c(3) a c(1,2) y z(2-5),
      of "\<lambda>_ s. Inr ((), s)" "\<lambda>_. 0" 0 new_tf] w
  obtain s' where "duppage (int48 (\<lambda>_ s. Inr ((), s)) (\<lambda>_. 0) 0 2 new_tf) 0x1001 2 ?u = Inr (0, ?u\<lparr>kst := s'\<rparr>)"
    "mapping s' 7 0x2000 = mapping s' 2 0x2000" "pp_ref (pages s' 6) = pp_ref (pages (kst ?u) 6) + 1" by auto
  then show ?thesis by (intro exI [of _ s']) (simp add: cow_pages_def)
qed

end
