(* ===== verification/Boot_Load.thy ===== *)
theory Boot_Load
  imports Env
begin

text \<open>
  Reading from the first disk: the sector and segment readers of the boot loader
  (\<open>boot/main.c\<close>) and of the kernel (\<open>kern/elf_rw.c\<close>), and \<open>bootmain\<close>, which loads the kernel.

  The disk is a parameter: \<open>disk l j\<close> is byte \<open>j\<close> of sector \<open>l\<close>, and \<open>status k\<close> is what the \<open>k\<close>-th
  read of the status port gives. A byte written to a port of the controller stays there; a read of the
  data port after the command \<open>0x20\<close> gives the sector that the ports \<open>0x1F3\<close> to \<open>0x1F6\<close> name.
\<close>

section \<open>Sectors\<close>

record loader =
  bmem :: "u64 \<Rightarrow> u8"
  ports :: "u16 \<Rightarrow> u8"
  polls :: nat

type_synonym disk = "nat \<Rightarrow> nat \<Rightarrow> u8"
type_synonym drive = "(nat \<Rightarrow> u8) \<times> disk"

definition SECTSIZE :: nat where "SECTSIZE = 512"

definition port_out :: "u16 \<Rightarrow> u8 \<Rightarrow> loader \<Rightarrow> loader" where
  "port_out p v s = s\<lparr>ports := (ports s)(p := v)\<rparr>"

partial_function (option) waitdisk :: "drive \<Rightarrow> loader \<Rightarrow> loader option" where
  "waitdisk d s =
     (let r = fst d (polls s); s = s\<lparr>polls := polls s + 1\<rparr>
      in if r AND 0xC0 \<noteq> 0x40 then waitdisk d s else Some s)"

text \<open>The sector that the ports name, and the transfer of its 128 words.\<close>

definition lba :: "loader \<Rightarrow> nat" where
  "lba s = unat (ports s 0x1F3) + 2 ^ 8 * unat (ports s 0x1F4) + 2 ^ 16 * unat (ports s 0x1F5) +
     2 ^ 24 * unat (ports s 0x1F6 AND 0xF)"

definition insl_sector :: "drive \<Rightarrow> u64 \<Rightarrow> loader \<Rightarrow> loader" where
  "insl_sector d dst s =
     s\<lparr>bmem := (\<lambda>a. if unat (a - dst) < SECTSIZE then snd d (lba s) (unat (a - dst)) else bmem s a)\<rparr>"

text \<open>The two texts of \<open>readsect\<close> differ in the type of \<open>offset\<close> only.\<close>

definition readsect :: "drive \<Rightarrow> u64 \<Rightarrow> 'a::len word \<Rightarrow> loader \<Rightarrow> loader option" where
  "readsect d dst offset s =
     (case waitdisk d s of
        None \<Rightarrow> None
      | Some s \<Rightarrow>
          let s = port_out 0x1F2 1 s;
              s = port_out 0x1F3 (ucast offset) s;
              s = port_out 0x1F4 (ucast (drop_bit 8 offset)) s;
              s = port_out 0x1F5 (ucast (drop_bit 16 offset)) s;
              s = port_out 0x1F6 (ucast (drop_bit 24 offset) OR 0xE0) s;
              s = port_out 0x1F7 0x20 s
          in case waitdisk d s of
               None \<Rightarrow> None
             | Some s \<Rightarrow> Some (insl_sector d dst s))"

definition kern_readsect :: "drive \<Rightarrow> u64 \<Rightarrow> u64 \<Rightarrow> loader \<Rightarrow> loader option" where
  "kern_readsect = readsect"

section \<open>Segments\<close>

partial_function (option) readseg_loop :: "drive \<Rightarrow> u32 \<Rightarrow> u32 \<Rightarrow> u32 \<Rightarrow> loader \<Rightarrow> loader option" where
  "readseg_loop d end_pa pa offset s =
     (if pa < end_pa then
        case readsect d (ucast pa) offset s of
          None \<Rightarrow> None
        | Some s \<Rightarrow> readseg_loop d end_pa (pa + 512) (offset + 1) s
      else Some s)"

definition readseg :: "drive \<Rightarrow> u32 \<Rightarrow> u32 \<Rightarrow> u32 \<Rightarrow> loader \<Rightarrow> loader option" where
  "readseg d pa count offset s =
     (let end_pa = pa + count;
          pa = pa AND NOT 511;
          offset = offset div 512 + 1
      in readseg_loop d end_pa pa offset s)"

section \<open>bootmain\<close>

definition ELFHDR :: u32 where "ELFHDR = 0x10000"

definition bytes_at :: "loader \<Rightarrow> u32 \<Rightarrow> nat \<Rightarrow> u8" where
  "bytes_at s p i = bmem s (ucast (p + of_nat i))"

definition ph_offset :: "(nat \<Rightarrow> u8) \<Rightarrow> u64" where "ph_offset ph = rd_le ph 8 8"
definition ph_pa :: "(nat \<Rightarrow> u8) \<Rightarrow> u64" where "ph_pa ph = rd_le ph 24 8"
definition ph_memsz :: "(nat \<Rightarrow> u8) \<Rightarrow> u64" where "ph_memsz ph = rd_le ph 40 8"

text \<open>The fields are 64 bits wide; the boot loader keeps the low 32.\<close>

partial_function (option) load_phs :: "drive \<Rightarrow> u32 \<Rightarrow> u32 \<Rightarrow> loader \<Rightarrow> loader option" where
  "load_phs d ph eph s =
     (if ph < eph then
        let p = bytes_at s ph
        in case readseg d (ucast (ph_pa p)) (ucast (ph_memsz p)) (ucast (ph_offset p)) s of
             None \<Rightarrow> None
           | Some s \<Rightarrow> load_phs d (ph + 56) eph s
      else Some s)"

text \<open>\<open>Jump\<close> is the call of the entry point, \<open>Bad\<close> the loop at the end.\<close>

datatype boot_exit = Jump u32 | Bad

definition bootmain :: "drive \<Rightarrow> loader \<Rightarrow> (boot_exit \<times> loader) option" where
  "bootmain d s =
     (case readseg d ELFHDR 4096 0 s of
        None \<Rightarrow> None
      | Some s \<Rightarrow>
          let hdr = bytes_at s ELFHDR
          in if e_magic hdr \<noteq> ELF_MAGIC then Some (Bad, s)
             else
               let ph = ELFHDR + ucast (e_phoff hdr);
                   eph = ph + 56 * ucast (e_phnum hdr)
               in case load_phs d ph eph s of
                    None \<Rightarrow> None
                  | Some s \<Rightarrow> Some (Jump (ucast (e_entry (bytes_at s ELFHDR))), s))"

section \<open>The disk gets ready\<close>

text \<open>Whatever the number of reads so far, some later read of the status finds the drive ready.\<close>

definition gets_ready :: "drive \<Rightarrow> bool" where
  "gets_ready d \<longleftrightarrow> (\<forall>k. \<exists>n. fst d (k + n) AND 0xC0 = 0x40)"

lemma waitdisk_ready:
  assumes "gets_ready d"
  shows "\<exists>n. waitdisk d s = Some (s\<lparr>polls := n\<rparr>)"
proof -
  obtain n where "fst d (polls s + n) AND 0xC0 = 0x40" using assms by (auto simp: gets_ready_def)
  then show ?thesis
  proof (induction n arbitrary: s)
    case 0
    then show ?case by (intro exI [of _ "polls s + 1"]) (simp add: waitdisk.simps [of d s])
  next
    case (Suc n)
    show ?case
    proof (cases "fst d (polls s) AND 0xC0 = 0x40")
      case True
      then show ?thesis by (intro exI [of _ "polls s + 1"]) (simp add: waitdisk.simps [of d s])
    next
      case False
      have "\<exists>m. waitdisk d (s\<lparr>polls := polls s + 1\<rparr>) = Some (s\<lparr>polls := polls s + 1\<rparr>\<lparr>polls := m\<rparr>)"
        using Suc.prems by (intro Suc.IH) simp
      with False show ?thesis by (simp add: waitdisk.simps [of d s])
    qed
  qed
qed

lemma split_bytes:
  "(n :: nat) = n mod 256 + 256 * (n div 256 mod 256) + 65536 * (n div 65536 mod 256) + 16777216 * (n div 16777216)"
proof -
  have collect: "x = r + 256 * (r1 + 256 * (r2 + 256 * z)) \<Longrightarrow> x = r + 256 * r1 + 65536 * r2 + 16777216 * z" for x r r1 r2 z :: nat
    by simp
  have d: "n div 65536 = n div 256 div 256" "n div 16777216 = n div 256 div 256 div 256"
    by (simp_all add: div_mult2_eq [symmetric])
  show ?thesis unfolding d by (rule collect) (simp only: mod_mult_div_eq)
qed

lemma lba_split:
  fixes offset :: "'a::len word"
  assumes "unat offset < 2 ^ 28"
  shows "unat (ucast offset :: u8) + 2 ^ 8 * unat (ucast (drop_bit 8 offset) :: u8) +
      2 ^ 16 * unat (ucast (drop_bit 16 offset) :: u8) +
      2 ^ 24 * unat ((ucast (drop_bit 24 offset) OR 0xE0 :: u8) AND 0xF) = unat offset"
proof -
  let ?n = "unat offset"
  have low: "unat (ucast (drop_bit k offset) :: u8) = ?n div 2 ^ k mod 256" for k
    by (simp add: unsigned_ucast_eq unat_drop_bit take_bit_eq_mod)
  have f: "(ucast (drop_bit 24 offset) OR 0xE0 :: u8) AND 0xF = ucast (drop_bit 24 offset) AND 0xF"
    by (rule bit_word_eqI) (auto simp: bit_simps less_Suc_eq numeral_eq_Suc)
  have "(0xF :: u8) = mask 4" by (simp add: mask_eq_exp_minus_1)
  then have "(ucast (drop_bit 24 offset) AND 0xF :: u8) = take_bit 4 (ucast (drop_bit 24 offset))"
    by (simp add: take_bit_eq_mask)
  then have "unat ((ucast (drop_bit 24 offset) OR 0xE0 :: u8) AND 0xF) = ?n div 2 ^ 24 mod 256 mod 16"
    by (simp add: f unat_take_bit low)
  moreover have "?n div 2 ^ 24 < 16" using assms by (simp add: div_less_iff_less_mult)
  ultimately have top: "unat ((ucast (drop_bit 24 offset) OR 0xE0 :: u8) AND 0xF) = ?n div 2 ^ 24" by simp
  have "?n = ?n mod 256 + 256 * (?n div 256 mod 256) + 65536 * (?n div 65536 mod 256) + 16777216 * (?n div 16777216)"
    by (rule split_bytes)
  then show ?thesis using low [of 0] low [of 8] low [of 16] top by simp
qed

lemma readsect_ok:
  assumes "gets_ready d" "unat offset < 2 ^ 28"
  shows "\<exists>s'. readsect d dst offset s = Some s' \<and>
    bmem s' = (\<lambda>a. if unat (a - dst) < 512 then snd d (unat offset) (unat (a - dst)) else bmem s a)"
proof -
  obtain n where n: "waitdisk d s = Some (s\<lparr>polls := n\<rparr>)" using waitdisk_ready [OF assms(1)] by blast
  let ?p = "((((((ports s)(0x1F2 := 1))(0x1F3 := ucast offset))(0x1F4 := ucast (drop_bit 8 offset)))
      (0x1F5 := ucast (drop_bit 16 offset)))(0x1F6 := ucast (drop_bit 24 offset) OR 0xE0))(0x1F7 := 0x20)"
  let ?s1 = "s\<lparr>polls := n, ports := ?p\<rparr>"
  obtain m where m: "waitdisk d ?s1 = Some (?s1\<lparr>polls := m\<rparr>)" using waitdisk_ready [OF assms(1)] by blast
  define s2 where "s2 = ?s1\<lparr>polls := m\<rparr>"
  have "lba s2 = unat offset" using lba_split [OF assms(2)] by (simp add: s2_def lba_def)
  moreover have "bmem s2 = bmem s" by (simp add: s2_def)
  moreover have "readsect d dst offset s = Some (insl_sector d dst s2)"
    using n m by (simp add: readsect_def port_out_def s2_def)
  ultimately show ?thesis by (simp add: insl_sector_def SECTSIZE_def cong: if_cong)
qed

section \<open>Loading a segment\<close>

text \<open>The kernel image starts in the second sector.\<close>

definition kimage :: "disk \<Rightarrow> nat \<Rightarrow> u8" where
  "kimage dk k = dk (k div 512 + 1) (k mod 512)"

definition sector_start :: "nat \<Rightarrow> nat" where "sector_start n = n div 512 * 512"
definition sector_end :: "nat \<Rightarrow> nat" where "sector_end n = (n + 511) div 512 * 512"

lemma near_sector:
  fixes a dst :: u64
  assumes "unat dst + 512 \<le> 2 ^ 64"
  shows "unat (a - dst) < 512 \<longleftrightarrow> unat dst \<le> unat a \<and> unat a < unat dst + 512"
    and "unat dst \<le> unat a \<Longrightarrow> unat (a - dst) = unat a - unat dst"
  using assms unsigned_less [of a, where 'a = nat] by (auto simp: unat_sub_if_size word_size)

text \<open>Memory \<open>m\<close> with \<open>n\<close> sectors from \<open>l\<close> on at address \<open>p\<close>.\<close>

definition with_sectors :: "disk \<Rightarrow> nat \<Rightarrow> nat \<Rightarrow> nat \<Rightarrow> (u64 \<Rightarrow> u8) \<Rightarrow> u64 \<Rightarrow> u8" where
  "with_sectors dk p n l m a =
     (if p \<le> unat a \<and> unat a < p + 512 * n then dk (l + (unat a - p) div 512) ((unat a - p) mod 512) else m a)"

lemma with_sectors_0 [simp]: "with_sectors dk p 0 l m = m"
  by (auto simp: with_sectors_def fun_eq_iff)

lemma with_sectors_Suc: "with_sectors dk (p + 512) n (l + 1) (with_sectors dk p 1 l m) = with_sectors dk p (Suc n) l m"
proof (rule ext)
  fix a :: u64
  show "with_sectors dk (p + 512) n (l + 1) (with_sectors dk p 1 l m) a = with_sectors dk p (Suc n) l m a"
  proof (cases "p + 512 \<le> unat a")
    case True
    define k where "k = unat a - (p + 512)"
    have "unat a = p + 512 + k" "unat a - p = k + 512" using True by (simp_all add: k_def)
    moreover have "(512 + k) div 512 = Suc (k div 512)" by simp
    ultimately show ?thesis by (simp add: with_sectors_def)
  next
    case False
    then have "(unat a - p) div 512 = 0" "(unat a - p) mod 512 = unat a - p" by simp_all
    then show ?thesis using False by (simp add: with_sectors_def)
  qed
qed

lemma readsect_with:
  assumes "gets_ready d" "unat offset < 2 ^ 28" "unat dst + 512 \<le> 2 ^ 64"
  shows "\<exists>s'. readsect d dst offset s = Some s' \<and> bmem s' = with_sectors (snd d) (unat dst) 1 (unat offset) (bmem s)"
proof -
  obtain s' where s': "readsect d dst offset s = Some s'"
      "bmem s' = (\<lambda>a. if unat (a - dst) < 512 then snd d (unat offset) (unat (a - dst)) else bmem s a)"
    using readsect_ok [OF assms(1,2)] by blast
  have "bmem s' a = with_sectors (snd d) (unat dst) 1 (unat offset) (bmem s) a" for a
  proof (cases "unat dst \<le> unat a \<and> unat a < unat dst + 512")
    case True
    then have "unat (a - dst) = unat a - unat dst" "unat a - unat dst < 512" using near_sector(2) [OF assms(3), of a] by auto
    then show ?thesis using True by (simp add: s'(2) with_sectors_def)
  next
    case False
    then have "\<not> unat (a - dst) < 512" using near_sector(1) [OF assms(3), of a] by simp
    then show ?thesis using False by (auto simp: s'(2) with_sectors_def)
  qed
  then show ?thesis using s'(1) by blast
qed

lemma sectors_left: "Suc n = (e - p + 511) div 512 \<Longrightarrow> p < e \<Longrightarrow> n = (e - (p + 512) + 511) div (512 :: nat)"
proof -
  assume n: "Suc n = (e - p + 511) div 512" and lt: "p < e"
  show ?thesis
  proof (cases "p + 512 \<le> e")
    case True
    then have "e - p + 511 = (e - (p + 512) + 511) + 512" by simp
    with n show ?thesis by simp
  next
    case False
    then have "(e - p + 511) div 512 = 1" using lt by (intro div_nat_eqI) simp_all
    with n False show ?thesis by simp
  qed
qed

lemma readseg_loop_ok:
  assumes "gets_ready d" "unat end_pa + 512 \<le> 2 ^ 32" "unat offset + n \<le> 2 ^ 28"
    and "n = (unat end_pa - unat pa + 511) div 512"
  shows "\<exists>s'. readseg_loop d end_pa pa offset s = Some s' \<and>
    bmem s' = with_sectors (snd d) (unat pa) n (unat offset) (bmem s)"
  using assms(2-4)
proof (induction n arbitrary: pa offset s)
  case 0
  then have "\<not> pa < end_pa" by (simp add: word_less_nat_alt)
  then show ?case by (simp add: readseg_loop.simps [of d end_pa pa])
next
  case (Suc n)
  have lt: "pa < end_pa" using Suc.prems(3) by (auto simp: word_less_nat_alt div_eq_0_iff not_less)
  have pa: "unat (pa + 512) = unat pa + 512"
    using lt Suc.prems(1) by (simp add: word_less_nat_alt unat_word_ariths)
  have up: "unat (ucast pa :: u64) = unat pa"
    using unsigned_less [of pa, where 'a = nat] by (simp add: unsigned_ucast_eq take_bit_nat_eq_self)
  have off: "unat (offset + 1) = unat offset + 1" using Suc.prems(2) by (simp add: unat_word_ariths)
  have small: "unat (ucast pa :: u64) + 512 \<le> 2 ^ 64"
    using up unsigned_less [of pa, where 'a = nat] by simp
  obtain s1 where s1: "readsect d (ucast pa) offset s = Some s1"
      "bmem s1 = with_sectors (snd d) (unat pa) 1 (unat offset) (bmem s)"
    using readsect_with [OF assms(1) _ small, of offset s] Suc.prems(2) by (auto simp: up)
  have pr: "unat (offset + 1) + n \<le> 2 ^ 28" using Suc.prems(2) by (simp add: off)
  have nn: "n = (unat end_pa - unat (pa + 512) + 511) div 512"
    unfolding pa by (rule sectors_left [OF Suc.prems(3)]) (use lt in \<open>simp add: word_less_nat_alt\<close>)
  obtain s' where s': "readseg_loop d end_pa (pa + 512) (offset + 1) s1 = Some s'"
      "bmem s' = with_sectors (snd d) (unat pa + 512) n (unat offset + 1) (bmem s1)"
    using Suc.IH [OF Suc.prems(1) pr nn, of s1] unfolding pa off by blast
  have "bmem s' = with_sectors (snd d) (unat pa) (Suc n) (unat offset) (bmem s)"
    unfolding s'(2) s1(2) by (rule with_sectors_Suc)
  then show ?case using s1(1) s'(1) lt by (simp add: readseg_loop.simps [of d end_pa pa])
qed

lemma unat_round512: "unat (pa AND NOT 511 :: u32) = sector_start (unat pa)"
proof -
  have m: "(511 :: u32) = mask 9" by (simp add: mask_eq_exp_minus_1)
  have b: "bit (511 :: u32) n \<longleftrightarrow> n < 32 \<and> n < 9" for n unfolding m by (simp add: bit_mask_iff)
  have "pa AND NOT 511 = push_bit 9 (drop_bit 9 pa)"
  proof (rule bit_word_eqI)
    show "bit (pa AND NOT 511) n = bit (push_bit 9 (drop_bit 9 pa)) n" if "n < LENGTH(32)" for n
      using that b [of n] by (cases "9 \<le> n") (simp_all add: bit_simps)
  qed
  moreover have "unat pa div 512 * 512 \<le> unat pa" by simp
  then have "unat pa div 512 * 512 < 2 ^ 32" using unsigned_less [of pa, where 'a = nat] by simp
  ultimately show ?thesis
    by (simp add: sector_start_def unat_drop_bit push_bit_eq_mult unat_word_ariths)
qed

lemma readseg_ok:
  assumes "gets_ready d" "unat pa + unat count + 512 \<le> 2 ^ 32" "unat pa mod 512 = unat offset mod 512"
  shows "\<exists>s'. readseg d pa count offset s = Some s' \<and>
    (\<forall>a. unat pa \<le> unat a \<longrightarrow> unat a < unat pa + unat count \<longrightarrow>
       bmem s' a = kimage (snd d) (unat offset + (unat a - unat pa))) \<and>
    (\<forall>a. unat a < sector_start (unat pa) \<or> sector_end (unat pa + unat count) \<le> unat a \<longrightarrow> bmem s' a = bmem s a)"
proof -
  let ?p = "unat pa" and ?c = "unat count" and ?o = "unat offset"
  let ?pa = "pa AND NOT 511" and ?off = "offset div 512 + 1" and ?n = "(?p + ?c - sector_start ?p + 511) div 512"
  have en: "unat (pa + count) = ?p + ?c" using assms(2) by (simp add: unat_word_ariths)
  have pa: "unat ?pa = sector_start ?p" by (rule unat_round512)
  have o: "?o div 512 < 2 ^ 23" using unsigned_less [of offset, where 'a = nat] by (simp add: div_less_iff_less_mult)
  then have off: "unat ?off = ?o div 512 + 1" by (simp add: unat_word_ariths unat_div)
  have top: "unat (pa + count) + 512 \<le> 2 ^ 32" using assms(2) en by simp
  have "?n \<le> 2 ^ 32 div 512" using assms(2) by (intro div_le_mono) simp
  then have room: "unat ?off + ?n \<le> 2 ^ 28" using o off by simp
  have cnt: "?n = (unat (pa + count) - unat ?pa + 511) div 512" by (simp only: en pa)
  obtain s' where s': "readseg_loop d (pa + count) ?pa ?off s = Some s'"
    "bmem s' = with_sectors (snd d) (sector_start ?p) ?n (?o div 512 + 1) (bmem s)"
    using readseg_loop_ok [OF assms(1) top room cnt, of s] unfolding pa off by blast
  have sp: "sector_start ?p = ?p - ?p mod 512" "sector_start ?p \<le> ?p" by (simp_all add: sector_start_def minus_mod_eq_div_mult)
  have e: "sector_start ?p + 512 * ?n = sector_end (?p + ?c)"
  proof -
    have "?p + ?c + 511 = ?p div 512 * 512 + (?p + ?c - sector_start ?p + 511)" using sp(2) by (simp add: sector_start_def)
    then have "(?p + ?c + 511) div 512 = ?p div 512 + ?n" by (metis add.commute div_mult_self1 zero_neq_numeral mult.commute)
    then show ?thesis by (simp add: sector_end_def sector_start_def)
  qed
  have s2: "bmem s' a = (if sector_start ?p \<le> unat a \<and> unat a < sector_end (?p + ?c)
      then snd d (?o div 512 + 1 + (unat a - sector_start ?p) div 512) ((unat a - sector_start ?p) mod 512) else bmem s a)" for a
    unfolding s'(2) with_sectors_def e ..
  have "bmem s' a = kimage (snd d) (?o + (unat a - ?p))" if a: "?p \<le> unat a" "unat a < ?p + ?c" for a
  proof -
    have "unat a - sector_start ?p = ?p mod 512 + (unat a - ?p)"
      using a(1) sp by simp
    then have "?o + (unat a - ?p) = 512 * (?o div 512) + (unat a - sector_start ?p)"
      using assms(3) mult_div_mod_eq [of 512 ?o] by simp
    then have "(?o + (unat a - ?p)) div 512 = ?o div 512 + (unat a - sector_start ?p) div 512"
      "(?o + (unat a - ?p)) mod 512 = (unat a - sector_start ?p) mod 512" by simp_all
    moreover have "unat a < sector_end (?p + ?c)" using a(2) by (simp add: sector_end_def)
    ultimately show ?thesis using a(1) sp(2) s2 [of a] by (simp add: kimage_def)
  qed
  moreover have "bmem s' a = bmem s a" if "unat a < sector_start ?p \<or> sector_end (?p + ?c) \<le> unat a" for a
    using that s2 [of a] by auto
  ultimately show ?thesis using s'(1) by (auto simp: readseg_def Let_def)
qed


section \<open>Loading the kernel\<close>

text \<open>Program header \<open>i\<close> of the image, and what the loader needs of it: it lies in the first 4096 bytes,
  address and offset agree modulo the sector size, nothing wraps, and no load touches the header.\<close>

definition phdr :: "disk \<Rightarrow> nat \<Rightarrow> nat \<Rightarrow> u8" where
  "phdr dk i = (\<lambda>k. kimage dk (unat (e_phoff (kimage dk)) + 56 * i + k))"

definition seg_start :: "disk \<Rightarrow> nat \<Rightarrow> nat" where "seg_start dk i = unat (ph_pa (phdr dk i))"
definition seg_len :: "disk \<Rightarrow> nat \<Rightarrow> nat" where "seg_len dk i = unat (ph_memsz (phdr dk i))"
definition seg_offset :: "disk \<Rightarrow> nat \<Rightarrow> nat" where "seg_offset dk i = unat (ph_offset (phdr dk i))"
definition seg_count :: "disk \<Rightarrow> nat" where "seg_count dk = unat (e_phnum (kimage dk))"

definition seg_ok :: "disk \<Rightarrow> nat \<Rightarrow> bool" where
  "seg_ok dk i \<longleftrightarrow> seg_start dk i + seg_len dk i + 512 \<le> 2 ^ 32 \<and> seg_offset dk i < 2 ^ 32 \<and>
     seg_start dk i mod 512 = seg_offset dk i mod 512 \<and>
     (sector_end (seg_start dk i + seg_len dk i) \<le> 0x10000 \<or> 0x11000 \<le> sector_start (seg_start dk i))"

text \<open>A later segment does not overwrite an earlier one.\<close>

definition apart :: "disk \<Rightarrow> nat \<Rightarrow> nat \<Rightarrow> bool" where
  "apart dk i j \<longleftrightarrow> seg_start dk i + seg_len dk i \<le> sector_start (seg_start dk j) \<or>
     sector_end (seg_start dk j + seg_len dk j) \<le> seg_start dk i"

definition seg_loaded :: "disk \<Rightarrow> nat \<Rightarrow> loader \<Rightarrow> bool" where
  "seg_loaded dk i s \<longleftrightarrow> (\<forall>a. seg_start dk i \<le> unat a \<longrightarrow> unat a < seg_start dk i + seg_len dk i \<longrightarrow>
     bmem s a = kimage dk (seg_offset dk i + (unat a - seg_start dk i)))"

definition hdr_loaded :: "disk \<Rightarrow> loader \<Rightarrow> bool" where
  "hdr_loaded dk s \<longleftrightarrow> (\<forall>k < 4096. bytes_at s ELFHDR k = kimage dk k)"

lemma rd_le_cong: "(\<And>k. k < n \<Longrightarrow> f (off + k) = g (off + k)) \<Longrightarrow> rd_le f off n = rd_le g off n"
  unfolding rd_le_def by (intro arg_cong [where f = sum_list] map_cong) simp_all

lemma bytes_at_add: "bytes_at s (p + of_nat m) k = bytes_at s p (m + k)"
  by (simp add: bytes_at_def add.assoc)

lemma unat_hdr: "k \<le> 4096 \<Longrightarrow> unat (ELFHDR + of_nat k) = 0x10000 + k"
  by (simp add: ELFHDR_def unat_word_ariths unat_of_nat)

lemma hdr_addr: "k < 4096 \<Longrightarrow> unat (ucast (ELFHDR + of_nat k) :: u64) = 0x10000 + k"
proof -
  assume k: "k < 4096"
  have "unat (ELFHDR + of_nat k) = 0x10000 + k" using k by (simp add: unat_hdr)
  then show ?thesis using k by (simp add: unsigned_ucast_eq take_bit_nat_eq_self)
qed

lemma load_phs_ok:
  assumes d: "gets_ready d" and n: "unat (e_phoff (kimage dk)) + 56 * seg_count dk \<le> 4096" "dk = snd d"
    and ok: "\<And>i. i < seg_count dk \<Longrightarrow> seg_ok dk i" "\<And>i j. i < j \<Longrightarrow> j < seg_count dk \<Longrightarrow> apart dk i j"
    and i: "i + m = seg_count dk" "hdr_loaded dk s" "\<And>j. j < i \<Longrightarrow> seg_loaded dk j s"
  shows "\<exists>s'. load_phs d (ELFHDR + of_nat (unat (e_phoff (kimage dk)) + 56 * i))
      (ELFHDR + of_nat (unat (e_phoff (kimage dk)) + 56 * seg_count dk)) s = Some s' \<and>
    hdr_loaded dk s' \<and> (\<forall>j < seg_count dk. seg_loaded dk j s')"
  using i
proof (induction m arbitrary: i s)
  case 0
  then show ?case by (subst load_phs.simps) simp
next
  case (Suc m)
  let ?o = "unat (e_phoff (kimage dk))" and ?n = "seg_count dk"
  let ?ph = "ELFHDR + of_nat (?o + 56 * i) :: u32" and ?eph = "ELFHDR + of_nat (?o + 56 * ?n) :: u32"
  have i: "i < ?n" using Suc.prems(1) by simp
  note sg = ok(1) [OF i, unfolded seg_ok_def]
  have u: "unat ?ph = 0x10000 + (?o + 56 * i)" "unat ?eph = 0x10000 + (?o + 56 * ?n)"
    using n(1) i by (auto intro!: unat_hdr simp del: of_nat_add)
  have lt: "?ph < ?eph" using u i by (simp add: word_less_nat_alt)
  have fld: "bytes_at s ?ph k = phdr dk i k" if "k < 56" for k
    unfolding bytes_at_add using Suc.prems(2) that n(1) i by (simp add: phdr_def hdr_loaded_def)
  have f: "ph_pa (bytes_at s ?ph) = ph_pa (phdr dk i)" "ph_memsz (bytes_at s ?ph) = ph_memsz (phdr dk i)"
    "ph_offset (bytes_at s ?ph) = ph_offset (phdr dk i)"
    unfolding ph_pa_def ph_memsz_def ph_offset_def by (intro rd_le_cong fld; simp)+
  have c: "unat (ucast (ph_pa (phdr dk i)) :: u32) = seg_start dk i" "unat (ucast (ph_memsz (phdr dk i)) :: u32) = seg_len dk i"
    "unat (ucast (ph_offset (phdr dk i)) :: u32) = seg_offset dk i"
    using sg by (simp_all add: seg_start_def seg_len_def seg_offset_def unat_ucast32)
  have pr: "unat (ucast (ph_pa (phdr dk i)) :: u32) + unat (ucast (ph_memsz (phdr dk i)) :: u32) + 512 \<le> 2 ^ 32"
    "unat (ucast (ph_pa (phdr dk i)) :: u32) mod 512 = unat (ucast (ph_offset (phdr dk i)) :: u32) mod 512"
    using sg by (simp_all add: c)
  obtain s1 where s1: "readseg d (ucast (ph_pa (phdr dk i))) (ucast (ph_memsz (phdr dk i))) (ucast (ph_offset (phdr dk i))) s = Some s1"
      "\<And>a. seg_start dk i \<le> unat a \<Longrightarrow> unat a < seg_start dk i + seg_len dk i \<Longrightarrow>
         bmem s1 a = kimage dk (seg_offset dk i + (unat a - seg_start dk i))"
      "\<And>a. unat a < sector_start (seg_start dk i) \<or> sector_end (seg_start dk i + seg_len dk i) \<le> unat a \<Longrightarrow> bmem s1 a = bmem s a"
    using readseg_ok [OF d pr, of s] unfolding c n(2) [symmetric] by blast
  have "hdr_loaded dk s1"
    unfolding hdr_loaded_def
  proof (intro allI impI)
    fix k :: nat assume k: "k < 4096"
    have "bmem s1 (ucast (ELFHDR + of_nat k)) = bmem s (ucast (ELFHDR + of_nat k))"
      using hdr_addr [OF k] sg k by (intro s1(3)) linarith
    then show "bytes_at s1 ELFHDR k = kimage dk k" using Suc.prems(2) k by (simp add: bytes_at_def hdr_loaded_def)
  qed
  moreover have "seg_loaded dk j s1" if "j < Suc i" for j
  proof (cases "j = i")
    case False
    then have j: "j < i" using that by simp
    then have "bmem s1 a = bmem s a" if "seg_start dk j \<le> unat a" "unat a < seg_start dk j + seg_len dk j" for a
      using ok(2) [OF j i] that unfolding apart_def by (intro s1(3)) linarith
    then show ?thesis using Suc.prems(3) [OF j] by (simp add: seg_loaded_def)
  qed (use s1(2) in \<open>simp add: seg_loaded_def\<close>)
  ultimately obtain s' where s': "load_phs d (ELFHDR + of_nat (?o + 56 * Suc i)) ?eph s1 = Some s'"
      "hdr_loaded dk s'" "\<forall>j < ?n. seg_loaded dk j s'"
    using Suc.IH [of "Suc i" s1] Suc.prems(1) by auto
  have "?ph + 56 = ELFHDR + of_nat (?o + 56 * Suc i)" by simp
  moreover have "load_phs d ?ph ?eph s = load_phs d (?ph + 56) ?eph s1"
    using s1(1) lt f by (subst load_phs.simps) (simp add: Let_def)
  ultimately show ?case using s' by (intro exI [of _ s'] conjI) (simp_all only:)
qed

text \<open>C37: The boot loader. With a drive that gets ready, and an image in ELF format whose headers lie in
  its first 4096 bytes and whose segments are congruent modulo the sector size, stay clear of the
  header at \<open>0x10000\<close> and do not overwrite each other, \<open>bootmain\<close> jumps to the entry point, and every byte
  of every segment is then in memory where its program header says.\<close>

theorem bootmain_loads:
  assumes "gets_ready d" and dk: "dk = snd d" and magic: "e_magic (kimage dk) = ELF_MAGIC"
    and n: "unat (e_phoff (kimage dk)) + 56 * unat (e_phnum (kimage dk)) \<le> 4096"
    and ok: "\<And>i. i < unat (e_phnum (kimage dk)) \<Longrightarrow> seg_ok dk i"
      "\<And>i j. i < j \<Longrightarrow> j < unat (e_phnum (kimage dk)) \<Longrightarrow> apart dk i j"
  shows "\<exists>s'. bootmain d s = Some (Jump (ucast (e_entry (kimage dk))), s') \<and>
    (\<forall>i < unat (e_phnum (kimage dk)). \<forall>k < unat (ph_memsz (phdr dk i)).
       bmem s' (ph_pa (phdr dk i) + of_nat k) = kimage dk (unat (ph_offset (phdr dk i)) + k))"
proof -
  have u: "unat ELFHDR = 0x10000" by (simp add: ELFHDR_def)
  obtain s1 where s1: "readseg d ELFHDR 4096 0 s = Some s1"
      "\<And>a. 0x10000 \<le> unat a \<Longrightarrow> unat a < 0x11000 \<Longrightarrow> bmem s1 a = kimage dk (unat a - 0x10000)"
    using readseg_ok [OF assms(1), of ELFHDR 4096 0 s] by (auto simp: u dk)
  have h: "hdr_loaded dk s1" using s1(2) hdr_addr by (simp add: hdr_loaded_def bytes_at_def)
  have hf: "e_magic (bytes_at t ELFHDR) = e_magic (kimage dk)" "e_phoff (bytes_at t ELFHDR) = e_phoff (kimage dk)"
    "e_phnum (bytes_at t ELFHDR) = e_phnum (kimage dk)" "e_entry (bytes_at t ELFHDR) = e_entry (kimage dk)" if "hdr_loaded dk t" for t
    using that unfolding e_magic_def e_phoff_def e_phnum_def e_entry_def hdr_loaded_def
    by (intro arg_cong [where f = ucast] rd_le_cong; simp)+
  have "(ucast (e_phoff (kimage dk)) :: u32) = of_nat (unat (e_phoff (kimage dk)))"
    "(ucast (e_phnum (kimage dk)) :: u32) = of_nat (seg_count dk)"
    by (simp_all add: seg_count_def)
  then have p: "ELFHDR + ucast (e_phoff (kimage dk)) = ELFHDR + of_nat (unat (e_phoff (kimage dk)) + 56 * 0)"
    "ELFHDR + ucast (e_phoff (kimage dk)) + 56 * ucast (e_phnum (kimage dk)) =
       ELFHDR + of_nat (unat (e_phoff (kimage dk)) + 56 * seg_count dk)" by simp_all
  have "\<exists>s'. load_phs d (ELFHDR + of_nat (unat (e_phoff (kimage dk)) + 56 * 0))
      (ELFHDR + of_nat (unat (e_phoff (kimage dk)) + 56 * seg_count dk)) s1 = Some s' \<and>
    hdr_loaded dk s' \<and> (\<forall>j < seg_count dk. seg_loaded dk j s')"
    by (rule load_phs_ok [OF assms(1) _ dk]) (use n ok h in \<open>simp_all add: seg_count_def\<close>)
  then obtain s' where s': "load_phs d (ELFHDR + ucast (e_phoff (kimage dk)))
      (ELFHDR + ucast (e_phoff (kimage dk)) + 56 * ucast (e_phnum (kimage dk))) s1 = Some s'" "hdr_loaded dk s'"
      "\<And>j. j < seg_count dk \<Longrightarrow> seg_loaded dk j s'"
    unfolding p [symmetric] by blast
  have "bmem s' (ph_pa (phdr dk i) + of_nat k) = kimage dk (unat (ph_offset (phdr dk i)) + k)"
    if i: "i < unat (e_phnum (kimage dk))" "k < unat (ph_memsz (phdr dk i))" for i k
  proof -
    have "unat (ph_pa (phdr dk i)) + k < 2 ^ 64" using ok(1) [OF i(1)] i(2) by (simp add: seg_ok_def seg_start_def seg_len_def)
    then have "unat (ph_pa (phdr dk i) + of_nat k) = unat (ph_pa (phdr dk i)) + k" by (simp add: unat_word_ariths unat_of_nat)
    then show ?thesis
      using s'(3) [of i] i by (simp add: seg_count_def seg_loaded_def seg_start_def seg_len_def seg_offset_def)
  qed
  then show ?thesis using s1(1) s'(1,2) magic h by (simp add: bootmain_def Let_def hf)
qed

text \<open>A small image: one segment of 1024 bytes, at offset \<open>0x1000\<close>, for the address \<open>0x100000\<close>.\<close>

definition tiny_disk :: disk where
  "tiny_disk l j =
     (if l = 1 then
        if j = 0 then 0x7F else if j = 1 then 0x45 else if j = 2 then 0x4C else if j = 3 then 0x46
        else if j = 26 then 0x10 else if j = 32 then 64 else if j = 56 then 1
        else if j = 73 then 0x10 else if j = 90 then 0x10 else if j = 105 then 4 else 0
      else 0x42)"

theorem bootmain_loads_witness:
  "\<exists>s'. bootmain (\<lambda>_. 0x50, tiny_disk) \<lparr>bmem = \<lambda>_. 0, ports = \<lambda>_. 0, polls = 0\<rparr> = Some (Jump 0x100000, s') \<and> bmem s' 0x100020 = 0x42"
proof -
  let ?d = "(\<lambda>_. 0x50, tiny_disk) :: drive" and ?s = "\<lparr>bmem = \<lambda>_. 0, ports = \<lambda>_. 0, polls = 0\<rparr> :: loader"
  have f: "e_magic (kimage tiny_disk) = ELF_MAGIC" "e_phoff (kimage tiny_disk) = 64" "e_phnum (kimage tiny_disk) = 1"
    "e_entry (kimage tiny_disk) = 0x100000"
    by (simp_all add: e_magic_def e_phoff_def e_phnum_def e_entry_def rd_le_def kimage_def tiny_disk_def ELF_MAGIC_def
      upt_rec push_bit_eq_mult)
  have p: "ph_pa (phdr tiny_disk 0) = 0x100000" "ph_memsz (phdr tiny_disk 0) = 1024" "ph_offset (phdr tiny_disk 0) = 0x1000"
    by (simp_all add: ph_pa_def ph_memsz_def ph_offset_def phdr_def f rd_le_def kimage_def tiny_disk_def upt_rec push_bit_eq_mult)
  have "seg_ok tiny_disk 0"
    by (simp add: seg_ok_def seg_start_def seg_len_def seg_offset_def p sector_start_def sector_end_def)
  moreover have "gets_ready ?d" by (simp add: gets_ready_def)
  ultimately obtain s' where s': "bootmain ?d ?s = Some (Jump (ucast (e_entry (kimage tiny_disk))), s')"
      "\<forall>i < unat (e_phnum (kimage tiny_disk)). \<forall>k < unat (ph_memsz (phdr tiny_disk i)).
         bmem s' (ph_pa (phdr tiny_disk i) + of_nat k) = kimage tiny_disk (unat (ph_offset (phdr tiny_disk i)) + k)"
    using bootmain_loads [of ?d tiny_disk ?s] by (auto simp: f)
  then have "bmem s' (ph_pa (phdr tiny_disk 0) + of_nat 32) = kimage tiny_disk (unat (ph_offset (phdr tiny_disk 0)) + 32)"
    using s'(2) [rule_format, of 0 32] by (simp add: f p)
  then have "bmem s' 0x100020 = 0x42" by (simp add: p kimage_def tiny_disk_def)
  then show ?thesis using s'(1) by (simp add: f)
qed

end
