(* ===== verification/Elf_Rw.thy ===== *)
theory Elf_Rw
  imports Boot_Load Lib_String
begin

text \<open>
  The kernel's own reader of ELF sections (\<open>kern/elf_rw.c\<close>): it reads the section headers, the names and the debug
  sections of the kernel image from the disk to the memory behind the kernel, or finds them in a user image.
  Addresses are kernel virtual addresses; \<open>loader\<close> is the memory with the disk controller.
\<close>

section \<open>The table of debug sections\<close>

record Dwarf_Section =
  ds_name :: string
  ds_data :: u64
  ds_addr :: u64
  ds_size :: u64

definition DEBUG_INFO :: nat where "DEBUG_INFO = 0"
definition DEBUG_ABBREV :: nat where "DEBUG_ABBREV = 1"
definition DEBUG_FRAME :: nat where "DEBUG_FRAME = 2"
definition DEBUG_LINE :: nat where "DEBUG_LINE = 3"
definition DEBUG_STR :: nat where "DEBUG_STR = 4"

definition section_info0 :: "Dwarf_Section list" where
  "section_info0 = map (\<lambda>n. \<lparr>ds_name = n, ds_data = 0, ds_addr = 0, ds_size = 0\<rparr>)
     [''.debug_info'', ''.debug_abbrev'', ''.eh_frame'', ''.debug_line'', ''.debug_str'']"

definition dwarf_find_section :: "Dwarf_Section list \<Rightarrow> string \<Rightarrow> Dwarf_Section option" where
  "dwarf_find_section ss name = find (\<lambda>d. ds_name d = name) ss"

definition set_section :: "nat \<Rightarrow> u64 \<Rightarrow> u64 \<Rightarrow> Dwarf_Section list \<Rightarrow> Dwarf_Section list" where
  "set_section i addr sz ss = ss[i := (ss ! i)\<lparr>ds_data := addr, ds_addr := addr, ds_size := sz\<rparr>]"

section \<open>ELF fields\<close>

definition field :: "bmem \<Rightarrow> u64 \<Rightarrow> nat \<Rightarrow> nat \<Rightarrow> u64" where
  "field m p off n = rd_le (\<lambda>i. m (p + of_nat i)) off n"

definition e_shoff :: "bmem \<Rightarrow> u64 \<Rightarrow> u64" where "e_shoff m p = field m p 40 8"
definition e_shentsize :: "bmem \<Rightarrow> u64 \<Rightarrow> nat" where "e_shentsize m p = unat (field m p 58 2)"
definition e_shnum :: "bmem \<Rightarrow> u64 \<Rightarrow> nat" where "e_shnum m p = unat (field m p 60 2)"
definition e_shstrndx :: "bmem \<Rightarrow> u64 \<Rightarrow> nat" where "e_shstrndx m p = unat (field m p 62 2)"
definition sh_name :: "bmem \<Rightarrow> u64 \<Rightarrow> u64" where "sh_name m p = field m p 0 4"
definition sh_addr :: "bmem \<Rightarrow> u64 \<Rightarrow> u64" where "sh_addr m p = field m p 16 8"
definition sh_offset :: "bmem \<Rightarrow> u64 \<Rightarrow> u64" where "sh_offset m p = field m p 24 8"
definition sh_size :: "bmem \<Rightarrow> u64 \<Rightarrow> u64" where "sh_size m p = field m p 32 8"

text \<open>\<open>strcmp\<close> with a literal.\<close>

definition named :: "bmem \<Rightarrow> u64 \<Rightarrow> string \<Rightarrow> bool" where
  "named m p s \<longleftrightarrow> str_at m p (bytes_of s)"

definition USTABDATA :: u64 where "USTABDATA = PTSIZE"

text \<open>The headers \<open>sh\<close> of a user image; its debug sections are mapped one after the other from \<open>debug_address\<close> on.\<close>

fun find_debug_loop :: "bmem \<Rightarrow> u64 \<Rightarrow> u64 \<Rightarrow> nat \<Rightarrow> u64 \<Rightarrow> u64 \<Rightarrow> Dwarf_Section list \<Rightarrow> Dwarf_Section list" where
  "find_debug_loop m elf shstr_tab 0 sh debug_address ss = ss"
| "find_debug_loop m elf shstr_tab (Suc n) sh debug_address ss =
     (let name = elf + sh_offset m shstr_tab + sh_name m sh;
          len = sh_size m sh;
          next = find_debug_loop m elf shstr_tab n (sh + 64)
      in if named m name ''.debug_info'' then next (debug_address + len) (set_section DEBUG_INFO debug_address len ss)
         else if named m name ''.debug_abbrev'' then next (debug_address + len) (set_section DEBUG_ABBREV debug_address len ss)
         else if named m name ''.debug_line'' then next (debug_address + len) (set_section DEBUG_LINE debug_address len ss)
         else if named m name ''.eh_frame'' then next (debug_address + len) (set_section DEBUG_FRAME (sh_addr m sh) len ss)
         else if named m name ''.debug_str'' then next (debug_address + len) (set_section DEBUG_STR debug_address len ss)
         else next debug_address ss)"

definition find_debug_sections :: "bmem \<Rightarrow> u64 \<Rightarrow> Dwarf_Section list \<Rightarrow> Dwarf_Section list" where
  "find_debug_sections m elf ss =
     (let sh = elf + e_shoff m elf
      in find_debug_loop m elf (sh + 64 * of_nat (e_shstrndx m elf)) (e_shnum m elf) sh USTABDATA ss)"

section \<open>Reading segments\<close>

text \<open>\<open>None\<close>: the drive never gets ready. \<open>Inl\<close>: an assertion fails, or an array index is out of range.\<close>

type_synonym 'a eres = "(string + 'a) option"

definition bindE :: "'a eres \<Rightarrow> ('a \<Rightarrow> 'b eres) \<Rightarrow> 'b eres" where
  "bindE r f = (case r of None \<Rightarrow> None | Some (Inl e) \<Rightarrow> Some (Inl e) | Some (Inr x) \<Rightarrow> f x)"

lemma bindE_simps [simp]: "bindE None f = None" "bindE (Some (Inl e)) f = Some (Inl e)" "bindE (Some (Inr x)) f = f x"
  by (simp_all add: bindE_def)

definition assertE :: "bool \<Rightarrow> string \<Rightarrow> unit eres" where
  "assertE b msg = Some (if b then Inr () else Inl msg)"

partial_function (option) kern_readseg_loop :: "drive \<Rightarrow> u64 \<Rightarrow> u64 \<Rightarrow> u64 \<Rightarrow> u64 \<Rightarrow> loader \<Rightarrow>
    (u64 \<times> u64 \<times> u64 \<times> loader) option" where
  "kern_readseg_loop d end_pa pa offset kvoffset s =
     (if pa < end_pa then
        case kern_readsect d pa offset s of
          None \<Rightarrow> None
        | Some s \<Rightarrow> kern_readseg_loop d end_pa (pa + 512) (offset + 1) (kvoffset + 512) s
      else Some (pa, offset, kvoffset, s))"

definition kern_readseg :: "drive \<Rightarrow> u64 \<Rightarrow> u64 \<Rightarrow> u64 \<Rightarrow> u64 \<Rightarrow> loader \<Rightarrow> (u64 \<times> loader) eres" where
  "kern_readseg d pa count offset kvoffset s =
     (let orgoff = offset; end_pa = pa + count
      in bindE (assertE (pa mod 512 = 0) ''pa % SECTSIZE == 0'') (\<lambda>_.
           let pa = pa AND NOT 511;
               offset = offset div 512 + 1
           in case kern_readseg_loop d end_pa pa offset kvoffset s of
                None \<Rightarrow> None
              | Some (pa, offset, kvoffset, s) \<Rightarrow>
                  bindE (if orgoff mod 512 + count > 512 then
                           case kern_readsect d pa offset s of
                             None \<Rightarrow> None
                           | Some s \<Rightarrow> Some (Inr (kvoffset + 512, s))
                         else Some (Inr (kvoffset, s))) (\<lambda>(kvoffset, s).
                  bindE (assertE (kvoffset mod 512 = 0) ''*kvoffset % SECTSIZE == 0'') (\<lambda>_.
                    Some (Inr (kvoffset, s))))))"

section \<open>The kernel image\<close>

definition KELFHDR :: u64 where "KELFHDR = 0x10000 + KERNBASE"

definition OFFSET_CORRECT :: "u64 \<Rightarrow> u64" where "OFFSET_CORRECT x = x - ROUNDDOWN x 512"

text \<open>One section of the image: read it behind what is there already, and record where.\<close>

definition read_section :: "drive \<Rightarrow> nat \<Rightarrow> u64 \<Rightarrow> u64 \<Rightarrow> u64 \<Rightarrow> loader \<Rightarrow> Dwarf_Section list \<Rightarrow>
    (u64 \<times> loader \<times> Dwarf_Section list) eres" where
  "read_section d which kvbase kvoffset sh s ss =
     (let temp = kvoffset
      in bindE (kern_readseg d (kvbase + kvoffset) (sh_size (bmem s) sh) (sh_offset (bmem s) sh) kvoffset s) (\<lambda>(kvoffset, s).
           Some (Inr (kvoffset, s,
             set_section which (kvbase + temp + OFFSET_CORRECT (sh_offset (bmem s) sh)) (sh_size (bmem s) sh) ss))))"

fun read_sections_loop :: "drive \<Rightarrow> u64 \<Rightarrow> u64 \<Rightarrow> nat \<Rightarrow> u64 \<Rightarrow> u64 \<Rightarrow> loader \<Rightarrow> Dwarf_Section list \<Rightarrow>
    (u64 \<times> loader \<times> Dwarf_Section list) eres" where
  "read_sections_loop d kvbase nametab 0 sh kvoffset s ss = Some (Inr (kvoffset, s, ss))"
| "read_sections_loop d kvbase nametab (Suc n) sh kvoffset s ss =
     (let name = nametab + sh_name (bmem s) sh
      in bindE (assertE (kvoffset mod 512 = 0) ''kvoffset % SECTSIZE == 0'') (\<lambda>_.
         bindE (if named (bmem s) name ''.debug_info'' then read_section d DEBUG_INFO kvbase kvoffset sh s ss
                else if named (bmem s) name ''.debug_abbrev'' then read_section d DEBUG_ABBREV kvbase kvoffset sh s ss
                else if named (bmem s) name ''.debug_line'' then read_section d DEBUG_LINE kvbase kvoffset sh s ss
                else if named (bmem s) name ''.eh_frame'' then
                  Some (Inr (kvoffset, s, set_section DEBUG_FRAME (sh_addr (bmem s) sh) (sh_size (bmem s) sh) ss))
                else if named (bmem s) name ''.debug_str'' then read_section d DEBUG_STR kvbase kvoffset sh s ss
                else Some (Inr (kvoffset, s, ss))) (\<lambda>(kvoffset, s, ss).
           read_sections_loop d kvbase nametab n (sh + 64) kvoffset s ss)))"

text \<open>The array \<open>secthdr_ptr\<close> has 20 elements, \<open>NULL\<close> at first; nothing checks the number of sections.\<close>

definition secthdr_ptr :: "u64 \<Rightarrow> nat \<Rightarrow> nat \<Rightarrow> u64 eres" where
  "secthdr_ptr secthdr n i =
     (if 20 \<le> i then Some (Inl ''secthdr_ptr'')
      else if n \<le> i then Some (Inl ''NULL'')
      else Some (Inr (secthdr + 64 * of_nat i)))"

definition read_section_headers :: "drive \<Rightarrow> u64 \<Rightarrow> u64 \<Rightarrow> loader \<Rightarrow> Dwarf_Section list \<Rightarrow>
    (u64 \<times> loader \<times> Dwarf_Section list) eres" where
  "read_section_headers d elfhdr to_va s ss =
     (let kvbase = ROUNDUP to_va 512;
          offset = (if elfhdr = KELFHDR then e_shoff (bmem s) elfhdr else e_shoff (bmem s) elfhdr + (elfhdr - KERNBASE));
          numSectionHeaders = e_shnum (bmem s) elfhdr;
          sizeSections = e_shentsize (bmem s) elfhdr
      in bindE (kern_readseg d kvbase (of_nat (numSectionHeaders * sizeSections)) offset 0 s) (\<lambda>(kvoffset, s).
         let secthdr = kvbase + (offset - ROUNDDOWN offset 512)
         in bindE (assertE (numSectionHeaders \<le> 20) ''secthdr_ptr'') (\<lambda>_.
            bindE (secthdr_ptr secthdr numSectionHeaders (e_shstrndx (bmem s) elfhdr)) (\<lambda>sec_name.
            let temp = kvoffset
            in bindE (kern_readseg d (kvbase + kvoffset) (sh_size (bmem s) sec_name) (sh_offset (bmem s) sec_name) kvoffset s)
                 (\<lambda>(kvoffset, s).
               let nametab = kvbase + temp + OFFSET_CORRECT (sh_offset (bmem s) sec_name)
               in bindE (read_sections_loop d kvbase nametab numSectionHeaders secthdr kvoffset s ss) (\<lambda>(kvoffset, s, ss).
                    Some (Inr (kvbase + kvoffset, s, ss))))))))"

section \<open>Where the bytes are\<close>

lemma kern_readseg_loop_ok:
  assumes "gets_ready d" "unat end_pa + 512 \<le> 2 ^ 64" "unat offset + n \<le> 2 ^ 28"
    and "n = (unat end_pa - unat pa + 511) div 512"
  shows "\<exists>s'. kern_readseg_loop d end_pa pa offset kv s =
      Some (pa + of_nat (512 * n), offset + of_nat n, kv + of_nat (512 * n), s') \<and>
    bmem s' = with_sectors (snd d) (unat pa) n (unat offset) (bmem s)"
  using assms(2-4)
proof (induction n arbitrary: pa offset kv s)
  case 0
  then have "\<not> pa < end_pa" by (simp add: word_less_nat_alt)
  then show ?case by (simp add: kern_readseg_loop.simps [of d end_pa pa])
next
  case (Suc n)
  have lt: "pa < end_pa" using Suc.prems(3) by (auto simp: word_less_nat_alt div_eq_0_iff not_less)
  have pa: "unat (pa + 512) = unat pa + 512"
    using lt Suc.prems(1) by (simp add: word_less_nat_alt unat_word_ariths)
  have off: "unat (offset + 1) = unat offset + 1" using Suc.prems(2) by (simp add: unat_word_ariths)
  have small: "unat pa + 512 \<le> 2 ^ 64" using lt Suc.prems(1) by (simp add: word_less_nat_alt)
  obtain s1 where s1: "kern_readsect d pa offset s = Some s1"
      "bmem s1 = with_sectors (snd d) (unat pa) 1 (unat offset) (bmem s)"
    using readsect_with [OF assms(1) _ small, of offset s] Suc.prems(2) by (auto simp: kern_readsect_def)
  have pr: "unat (offset + 1) + n \<le> 2 ^ 28" using Suc.prems(2) by (simp add: off)
  have nn: "n = (unat end_pa - unat (pa + 512) + 511) div 512"
    unfolding pa by (rule sectors_left [OF Suc.prems(3)]) (use lt in \<open>simp add: word_less_nat_alt\<close>)
  obtain s' where s': "kern_readseg_loop d end_pa (pa + 512) (offset + 1) (kv + 512) s1 =
        Some (pa + 512 + of_nat (512 * n), offset + 1 + of_nat n, kv + 512 + of_nat (512 * n), s')"
      "bmem s' = with_sectors (snd d) (unat pa + 512) n (unat offset + 1) (bmem s1)"
    using Suc.IH [OF Suc.prems(1) pr nn, of "kv + 512" s1] unfolding pa off by blast
  have "bmem s' = with_sectors (snd d) (unat pa) (Suc n) (unat offset) (bmem s)"
    unfolding s'(2) s1(2) by (rule with_sectors_Suc)
  then show ?case using s1(1) s'(1) lt by (simp add: kern_readseg_loop.simps [of d end_pa pa] algebra_simps)
qed


text \<open>How many sectors \<open>kern_readseg\<close> reads.\<close>

definition sector_count :: "nat \<Rightarrow> nat \<Rightarrow> nat" where
  "sector_count count offset = (count + 511) div 512 + (if 512 < offset mod 512 + count then 1 else 0)"

lemma sector_count_enough: "0 < count \<Longrightarrow> offset mod 512 + count \<le> 512 * sector_count count offset"
proof -
  assume "0 < count"
  then have "512 \<le> 512 * ((count + 511) div 512)" using div_le_mono [of 512 "count + 511" 512] by simp
  moreover have "(count + 511) mod 512 < 512" "offset mod 512 < 512" by simp_all
  moreover from this have "count \<le> 512 * ((count + 511) div 512)" using mult_div_mod_eq [of 512 "count + 511"] by linarith
  ultimately show ?thesis by (simp add: sector_count_def) linarith
qed

lemma with_sectors_last:
  "with_sectors dk (p + 512 * n) 1 (l + n) (with_sectors dk p n l m) = with_sectors dk p (Suc n) l m"
proof (rule ext)
  fix a :: u64
  show "with_sectors dk (p + 512 * n) 1 (l + n) (with_sectors dk p n l m) a = with_sectors dk p (Suc n) l m a"
  proof (cases "p + 512 * n \<le> unat a")
    case True
    define k where "k = unat a - (p + 512 * n)"
    have "unat a = p + 512 * n + k" "unat a - p = k + 512 * n" using True by (simp_all add: k_def)
    then show ?thesis by (simp add: with_sectors_def)
  qed (auto simp: with_sectors_def)
qed

text \<open>C38: \<open>readseg\<close> of the kernel, for a drive that gets ready, a target on a sector boundary with room behind it, and a piece of the image that
  the 28 bits of a sector number reach. It returns without a failed assertion, advances \<open>kvoffset\<close> by the
  sectors it read, and leaves the \<open>count\<close> bytes of the image from \<open>offset\<close> on at \<open>pa + offset % SECTSIZE\<close>; outside these
  sectors memory does not change.\<close>

theorem kern_readseg_loads:
  assumes d: "gets_ready d" and pa: "unat pa mod 512 = 0" and top: "unat pa + unat count + 1024 \<le> 2 ^ 64"
    and lim: "unat offset + unat count + 1536 \<le> 2 ^ 37" and kv: "unat kv mod 512 = 0"
  shows "\<exists>s'. kern_readseg d pa count offset kv s =
      Some (Inr (kv + of_nat (512 * sector_count (unat count) (unat offset)), s')) \<and>
    (\<forall>i < unat count. bmem s' (pa + of_nat (unat offset mod 512 + i)) = kimage (snd d) (unat offset + i)) \<and>
    (\<forall>a. unat a < unat pa \<or> unat pa + 512 * sector_count (unat count) (unat offset) \<le> unat a \<longrightarrow> bmem s' a = bmem s a)"
proof -
  let ?c = "unat count" and ?o = "unat offset" and ?p = "unat pa"
  let ?n = "(?c + 511) div 512" and ?off = "offset div 512 + 1" and ?m = "sector_count ?c ?o"
  have m9: "(511 :: u64) = mask 9" by (simp add: mask_eq_exp_minus_1)
  have "take_bit 9 pa = 0" using pa by (simp add: word_unat_eq_iff unat_take_bit)
  then have "\<not> (k < 9 \<and> bit pa k)" for k by (metis bit_take_bit_iff bit_0_eq bot_apply bot_bool_def)
  then have al: "pa AND NOT 511 = pa" unfolding m9 by (intro bit_word_eqI) (auto simp: bit_simps)
  have p0: "pa mod 512 = 0" using pa by (simp add: word_unat_eq_iff unat_mod)
  have en: "unat (pa + count) = ?p + ?c" using top by (simp add: unat_word_ariths)
  have ol: "?o div 512 + ?n + 2 \<le> 2 ^ 28"
  proof -
    have "512 * (?o div 512 + ?n + 2) \<le> ?o + ?c + 1536" using div_times_less_eq_dividend [of ?o 512] div_times_less_eq_dividend [of "?c + 511" 512]
      by simp
    then show ?thesis using lim by simp
  qed
  have off: "unat ?off = ?o div 512 + 1" using ol by (simp add: unat_word_ariths unat_div)
  have t1: "unat (pa + count) + 512 \<le> 2 ^ 64" "unat ?off + ?n \<le> 2 ^ 28" "?n = (unat (pa + count) - ?p + 511) div 512"
    using top ol by (simp_all add: en off)
  obtain s1 where s1: "kern_readseg_loop d (pa + count) pa ?off kv s =
        Some (pa + of_nat (512 * ?n), ?off + of_nat ?n, kv + of_nat (512 * ?n), s1)"
      "bmem s1 = with_sectors (snd d) ?p ?n (?o div 512 + 1) (bmem s)"
    using kern_readseg_loop_ok [OF d t1, of kv s] unfolding off by blast
  have big: "offset mod 512 + count > 512 \<longleftrightarrow> 512 < ?o mod 512 + ?c"
  proof -
    have "unat (offset mod 512 + count) = ?o mod 512 + ?c" using top by (simp add: unat_word_ariths unat_mod)
    then show ?thesis by (simp add: word_less_nat_alt)
  qed
  have kvm: "(kv + of_nat (512 * k)) mod 512 = 0" for k
  proof -
    have "unat (kv + of_nat (512 * k)) mod 512 = (unat kv + unat (of_nat (512 * k) :: u64)) mod 512"
      by (simp only: unat_word_ariths) (simp add: mod_mod_cancel)
    also have "\<dots> = (unat kv mod 512 + unat (of_nat (512 * k) :: u64) mod 512) mod 512" by (simp only: mod_add_eq)
    also have "unat (of_nat (512 * k) :: u64) mod 512 = 0" by (simp only: unat_of_nat) (simp add: mod_mod_cancel)
    finally show ?thesis using kv by (simp add: word_unat_eq_iff unat_mod)
  qed
  obtain s' where s': "kern_readseg d pa count offset kv s = Some (Inr (kv + of_nat (512 * ?m), s'))"
      "bmem s' = with_sectors (snd d) ?p ?m (?o div 512 + 1) (bmem s)"
  proof (cases "512 < ?o mod 512 + ?c")
    case False
    then have "?m = ?n" by (simp add: sector_count_def)
    moreover have "kern_readseg d pa count offset kv s = Some (Inr (kv + of_nat (512 * ?n), s1))"
      unfolding kern_readseg_def Let_def al
      using s1(1) False big kvm [of ?n] by (simp add: p0 assertE_def del: of_nat_mult)
    ultimately show ?thesis using that s1(2) by simp
  next
    case True
    then have m: "?m = Suc ?n" by (simp add: sector_count_def)
    have p1: "unat (pa + of_nat (512 * ?n)) = ?p + 512 * ?n" "unat (?off + of_nat ?n) = ?o div 512 + 1 + ?n"
    proof -
      have "512 * ?n \<le> ?c + 511" by simp
      then have l: "?p + 512 * ?n < 2 ^ 64" using top by linarith
      then have "unat (of_nat (512 * ?n) :: u64) = 512 * ?n" by (simp only: unat_of_nat) simp
      with l show "unat (pa + of_nat (512 * ?n)) = ?p + 512 * ?n" by (simp only: unat_word_ariths) simp
      have "unat (of_nat ?n :: u64) = ?n" using ol by (simp only: unat_of_nat) simp
      with ol off show "unat (?off + of_nat ?n) = ?o div 512 + 1 + ?n" by (simp only: unat_word_ariths) simp
    qed
    have "512 * ?n \<le> ?c + 511" by simp
    then have p2: "?o div 512 + 1 + ?n < 2 ^ 28" "?p + 512 * ?n + 512 \<le> 2 ^ 64" using ol top by linarith+
    obtain s2 where s2: "kern_readsect d (pa + of_nat (512 * ?n)) (?off + of_nat ?n) s1 = Some s2"
        "bmem s2 = with_sectors (snd d) (?p + 512 * ?n) 1 (?o div 512 + 1 + ?n) (bmem s1)"
      using readsect_with [OF d, of "?off + of_nat ?n" "pa + of_nat (512 * ?n)" s1] p2 unfolding p1 kern_readsect_def by blast
    have "kern_readseg d pa count offset kv s = Some (Inr (kv + of_nat (512 * ?n) + 512, s2))"
      unfolding kern_readseg_def Let_def al
      using s1(1) s2(1) True big kvm [of "Suc ?n"] by (simp add: p0 assertE_def algebra_simps)
    moreover have "bmem s2 = with_sectors (snd d) ?p ?m (?o div 512 + 1) (bmem s)"
      unfolding s2(2) s1(2) m by (rule with_sectors_last)
    ultimately show ?thesis using that m by (simp add: algebra_simps)
  qed
  have "bmem s' (pa + of_nat (?o mod 512 + i)) = kimage (snd d) (?o + i)" if i: "i < ?c" for i
  proof -
    have "unat (pa + of_nat (?o mod 512 + i)) = ?p + (?o mod 512 + i)"
      using top i by (simp add: unat_word_ariths unat_of_nat)
    moreover have "?o mod 512 + i < 512 * ?m" using sector_count_enough [of ?c ?o] i by simp
    moreover have "?o + i = 512 * (?o div 512) + (?o mod 512 + i)" by simp
    then have "(?o + i) div 512 = ?o div 512 + (?o mod 512 + i) div 512" "(?o + i) mod 512 = (?o mod 512 + i) mod 512"
      by (metis div_mult_self4 zero_neq_numeral, metis mod_mult_self4)
    ultimately show ?thesis by (simp add: s'(2) with_sectors_def kimage_def del: of_nat_add)
  qed
  moreover have "bmem s' a = bmem s a" if "unat a < ?p \<or> ?p + 512 * ?m \<le> unat a" for a
    using that by (auto simp: s'(2) with_sectors_def)
  ultimately show ?thesis using s'(1) by blast
qed


theorem kern_readseg_loads_witness:
  "\<exists>s'. kern_readseg (\<lambda>_. 0x50, tiny_disk) 0x1000000 64 0x1010 0 \<lparr>bmem = \<lambda>_. 0, ports = \<lambda>_. 0, polls = 0\<rparr> = Some (Inr (512, s')) \<and>
     bmem s' 0x1000010 = 0x42"
proof -
  have d: "gets_ready (\<lambda>_. 0x50, tiny_disk)" by (simp add: gets_ready_def)
  have n: "sector_count 64 0x1010 = 1" by (simp add: sector_count_def)
  obtain s' where s': "kern_readseg (\<lambda>_. 0x50, tiny_disk) 0x1000000 64 0x1010 0 \<lparr>bmem = \<lambda>_. 0, ports = \<lambda>_. 0, polls = 0\<rparr> = Some (Inr (512, s'))"
      "\<forall>i < 64. bmem s' (0x1000000 + of_nat (16 + i)) = kimage tiny_disk (0x1010 + i)"
    using kern_readseg_loads [OF d, of "0x1000000" 64 "0x1010" 0 "\<lparr>bmem = \<lambda>_. 0, ports = \<lambda>_. 0, polls = 0\<rparr>"] by (auto simp: n)
  then show ?thesis using s'(2) [rule_format, of 0] by (simp add: kimage_def tiny_disk_def)
qed

end
