(* ===== verification/Dwarf_Rw.thy ===== *)
theory Dwarf_Rw
  imports Elf_Rw
begin

text \<open>
  The DWARF reader of the backtrace (\<open>kern/libdwarf_rw.c\<close>): numbers of fixed and variable length, compilation
  units, abbreviations, attributes, and the search for debugging entries. It reads memory and never
  writes it, so every operation takes the memory \<open>m\<close> and returns its results, the out-parameters included.
\<close>

section \<open>Numbers of fixed length\<close>

text \<open>The cases of the two \<open>switch\<close> statements fall through to the shorter lengths.\<close>

definition lsb_bytes :: "(u64 \<Rightarrow> u64) \<Rightarrow> nat \<Rightarrow> u64" where
  "lsb_bytes src n =
     (if n = 8 then push_bit 32 (src 4) OR push_bit 40 (src 5) OR push_bit 48 (src 6) OR push_bit 56 (src 7) else 0) OR
     (if n = 8 \<or> n = 4 then push_bit 16 (src 2) OR push_bit 24 (src 3) else 0) OR
     (if n = 8 \<or> n = 4 \<or> n = 2 then push_bit 8 (src 1) else 0) OR src 0"

definition msb_bytes :: "(u64 \<Rightarrow> u64) \<Rightarrow> nat \<Rightarrow> u64" where
  "msb_bytes src n =
     (if n = 1 then src 0
      else if n = 2 then src 1 OR push_bit 8 (src 0)
      else if n = 4 then src 3 OR push_bit 8 (src 2) OR push_bit 16 (src 1) OR push_bit 24 (src 0)
      else src 7 OR push_bit 8 (src 6) OR push_bit 16 (src 5) OR push_bit 24 (src 4) OR
           push_bit 32 (src 3) OR push_bit 40 (src 2) OR push_bit 48 (src 1) OR push_bit 56 (src 0))"

definition dwarf_read_lsb :: "bmem \<Rightarrow> u64 \<Rightarrow> u64 \<Rightarrow> nat \<Rightarrow> u64 \<times> u64" where
  "dwarf_read_lsb m data off n =
     (if n \<in> {1, 2, 4, 8} then (lsb_bytes (\<lambda>i. ucast (m (data + off + i))) n, off + of_nat n) else (0, off))"

definition dwarf_decode_lsb :: "bmem \<Rightarrow> u64 \<Rightarrow> nat \<Rightarrow> u64 \<times> u64" where
  "dwarf_decode_lsb m data n =
     (if n \<in> {1, 2, 4, 8} then (lsb_bytes (\<lambda>i. ucast (m (data + i))) n, data + of_nat n) else (0, data))"

definition dwarf_read_msb :: "bmem \<Rightarrow> u64 \<Rightarrow> u64 \<Rightarrow> nat \<Rightarrow> u64 \<times> u64" where
  "dwarf_read_msb m data off n =
     (if n \<in> {1, 2, 4, 8} then (msb_bytes (\<lambda>i. ucast (m (data + off + i))) n, off + of_nat n) else (0, off))"

definition dwarf_decode_msb :: "bmem \<Rightarrow> u64 \<Rightarrow> nat \<Rightarrow> u64 \<times> u64" where
  "dwarf_decode_msb m data n =
     (if n \<in> {1, 2, 4, 8} then (msb_bytes (\<lambda>i. ucast (m (data + i))) n, data + of_nat n) else (0, data))"

section \<open>Numbers of variable length\<close>

text \<open>The loop of the four LEB128 readers: the digit is shifted as an \<open>int\<close> and then extended to 64 bits. A shift by 32 or
  more has no meaning in C and ends the model with an error. The result has the digits, the last byte, the shift,
  and how far source and offset got.\<close>

partial_function (option) leb_loop :: "bmem \<Rightarrow> u64 \<Rightarrow> u64 \<Rightarrow> nat \<Rightarrow> u64 \<Rightarrow> (u64 \<times> u8 \<times> nat \<times> u64 \<times> u64) eres" where
  "leb_loop m src ret shft off =
     (let b = m src
      in if 32 \<le> shft then Some (Inl ''shift'')
         else
           let ret = ret OR scast (push_bit shft (ucast (b AND 0x7F) :: u32));
               shft = shft + 7
           in if b AND 0x80 \<noteq> 0 then leb_loop m (src + 1) ret shft (off + 1)
              else Some (Inr (ret, b, shft, src + 1, off + 1)))"

definition sleb_sign :: "u64 \<Rightarrow> u8 \<Rightarrow> nat \<Rightarrow> u64" where
  "sleb_sign ret b shft =
     (if shft < 32 \<and> b AND 0x40 \<noteq> 0 then ret OR scast (push_bit shft (-1 :: u32)) else ret)"

definition dwarf_read_sleb128 :: "bmem \<Rightarrow> u64 \<Rightarrow> u64 \<Rightarrow> (u64 \<times> u64) eres" where
  "dwarf_read_sleb128 m data off =
     bindE (leb_loop m (data + off) 0 0 off) (\<lambda>(ret, b, shft, src, off). Some (Inr (sleb_sign ret b shft, off)))"

definition dwarf_read_uleb128 :: "bmem \<Rightarrow> u64 \<Rightarrow> u64 \<Rightarrow> (u64 \<times> u64) eres" where
  "dwarf_read_uleb128 m data off =
     bindE (leb_loop m (data + off) 0 0 off) (\<lambda>(ret, b, shft, src, off). Some (Inr (ret, off)))"

definition dwarf_decode_sleb128 :: "bmem \<Rightarrow> u64 \<Rightarrow> (u64 \<times> u64) eres" where
  "dwarf_decode_sleb128 m dp =
     bindE (leb_loop m dp 0 0 0) (\<lambda>(ret, b, shft, src, off). Some (Inr (sleb_sign ret b shft, src)))"

definition dwarf_decode_uleb128 :: "bmem \<Rightarrow> u64 \<Rightarrow> (u64 \<times> u64) eres" where
  "dwarf_decode_uleb128 m dp =
     bindE (leb_loop m dp 0 0 0) (\<lambda>(ret, b, shft, src, off). Some (Inr (ret, src)))"

section \<open>Strings and blocks\<close>

function read_string_loop :: "bmem \<Rightarrow> u64 \<Rightarrow> u64 \<Rightarrow> u64 \<Rightarrow> u64 \<times> u64" where
  "read_string_loop m sz src off =
     (if m src \<noteq> 0 \<and> off < sz then read_string_loop m sz (src + 1) (off + 1) else (src, off))"
  by pat_completeness auto

termination
proof (relation "measure (\<lambda>(m, sz, src, off). unat sz - unat off)")
  fix m :: bmem and sz src off :: u64
  assume "m src \<noteq> 0 \<and> off < sz"
  then have "unat off < unat sz" by (simp add: word_less_nat_alt)
  moreover have "unat (off + 1) = unat off + 1"
    using \<open>unat off < unat sz\<close> unsigned_less [of sz, where 'a = nat] by (simp add: unat_word_ariths)
  ultimately show "((m, sz, src + 1, off + 1), (m, sz, src, off)) \<in> measure (\<lambda>(m, sz, src, off). unat sz - unat off)"
    by simp
qed simp

text \<open>The start of the string, and the offset behind it.\<close>

definition dwarf_read_string :: "bmem \<Rightarrow> u64 \<Rightarrow> u64 \<Rightarrow> u64 \<Rightarrow> u64 \<times> u64" where
  "dwarf_read_string m data sz off =
     (let ret = data + off;
          (src, off) = read_string_loop m sz ret off
      in (ret, if m src = 0 \<and> off < sz then off + 1 else off))"

definition dwarf_read_block :: "u64 \<Rightarrow> u64 \<Rightarrow> u64 \<Rightarrow> u64 \<times> u64" where
  "dwarf_read_block data off len = (data + off, off + len)"

section \<open>Objects\<close>

datatype Dwarf_Endianness = DW_OBJECT_MSB | DW_OBJECT_LSB

definition dwarf_elf_get_byte_order :: "bmem \<Rightarrow> u64 \<Rightarrow> Dwarf_Endianness eres" where
  "dwarf_elf_get_byte_order m obj =
     bindE (assertE (obj \<noteq> 0) ''e != NULL'') (\<lambda>_.
       Some (Inr (if m (obj + 5) = 2 then DW_OBJECT_MSB else DW_OBJECT_LSB)))"

definition dwarf_elf_get_pointer_size :: "bmem \<Rightarrow> u64 \<Rightarrow> int eres" where
  "dwarf_elf_get_pointer_size m obj =
     bindE (assertE (obj \<noteq> 0) ''e != NULL'') (\<lambda>_. Some (Inr (if m (obj + 4) = 1 then 4 else 8)))"

text \<open>\<open>dbg_order\<close> is the choice of the functions \<open>read\<close> and \<open>decode\<close>; the fields of the frame section are left out.\<close>

record Dwarf_Debug =
  curr_off_dbginfo :: u64
  dbg_info_offset_elf :: u64
  dbg_info_size :: u64
  dbg_order :: Dwarf_Endianness
  dbg_pointer_size :: int

definition dbg_read :: "Dwarf_Debug \<Rightarrow> bmem \<Rightarrow> u64 \<Rightarrow> u64 \<Rightarrow> nat \<Rightarrow> u64 \<times> u64" where
  "dbg_read dbg = (if dbg_order dbg = DW_OBJECT_MSB then dwarf_read_msb else dwarf_read_lsb)"

definition dwarf_init :: "bmem \<Rightarrow> u64 \<Rightarrow> Dwarf_Debug eres" where
  "dwarf_init m obj =
     bindE (dwarf_elf_get_pointer_size m obj) (\<lambda>psize.
     bindE (dwarf_elf_get_byte_order m obj) (\<lambda>order.
       Some (Inr \<lparr>curr_off_dbginfo = 0, dbg_info_offset_elf = 0, dbg_info_size = 0, dbg_order = order,
                  dbg_pointer_size = psize\<rparr>)))"

section \<open>Compilation units\<close>

record Dwarf_CU =
  cu_length :: u64
  version :: u16
  addr_size :: u8
  debug_abbrev_offset :: u64
  cu_length_size :: u8
  cu_dwarf_size :: u8
  cu_next_offset :: u64
  cu_die_offset :: u64
  cu_offset :: u64

text \<open>\<open>length\<close> is a 32-bit variable also when it is read from eight bytes.\<close>

definition get_next_cu :: "bmem \<Rightarrow> Dwarf_Debug \<Rightarrow> Dwarf_CU \<Rightarrow> int \<times> Dwarf_Debug \<times> Dwarf_CU" where
  "get_next_cu m dbg cu =
     (if dbg_info_size dbg < curr_off_dbginfo dbg then (-1, dbg, cu)
      else
        let info = dbg_info_offset_elf dbg;
            offset = curr_off_dbginfo dbg;
            cu = cu\<lparr>cu_offset := offset\<rparr>;
            (r, offset) = dbg_read dbg m info offset 4;
            len = (ucast r :: u32);
            (len, offset, dwarf_size) =
              (if len = 0xFFFFFFFF
               then let (r, offset) = dbg_read dbg m info offset 8 in (ucast r, offset, 8)
               else (len, offset, 4 :: u8));
            dbg = dbg\<lparr>curr_off_dbginfo := offset + ucast len\<rparr>;
            cu = cu\<lparr>cu_dwarf_size := dwarf_size, cu_next_offset := curr_off_dbginfo dbg, cu_length := ucast len,
                    cu_length_size := (if dwarf_size = 4 then 4 else 12)\<rparr>;
            (v, offset) = dbg_read dbg m info offset 2;
            (ab, offset) = dbg_read dbg m info offset (unat dwarf_size);
            (sz, offset) = dbg_read dbg m info offset 1;
            cu = cu\<lparr>version := ucast v, debug_abbrev_offset := ab, addr_size := ucast sz\<rparr>
        in if version cu < 2 \<or> 4 < version cu then (-1, dbg, cu)
           else (0, dbg, cu\<lparr>cu_die_offset := offset\<rparr>))"

section \<open>Abbreviations\<close>

record Dwarf_AttrDef =
  ad_attrib :: u64
  ad_form :: u64
  ad_offset :: u64

record Dwarf_Abbrev =
  ab_entry :: u64
  ab_tag :: u64
  ab_children :: u8
  ab_offset :: u64
  ab_length :: u64
  ab_atnum :: u64
  ab_attrdef :: "nat \<Rightarrow> Dwarf_AttrDef"

definition NATTRDEF :: nat where "NATTRDEF = 32"

definition DW_DLE_NONE :: int where "DW_DLE_NONE = 0"
definition DW_DLE_NO_ENTRY :: int where "DW_DLE_NO_ENTRY = 4"
definition DW_DLE_ATTR_FORM_BAD :: int where "DW_DLE_ATTR_FORM_BAD = 14"
definition DW_DLV_NO_ENTRY :: int where "DW_DLV_NO_ENTRY = -1"
definition DW_DLV_OK :: int where "DW_DLV_OK = 0"
definition DW_DLV_ERROR :: int where "DW_DLV_ERROR = 1"

lemmas dwarf_codes = DW_DLE_NONE_def DW_DLE_NO_ENTRY_def DW_DLE_ATTR_FORM_BAD_def DW_DLV_NO_ENTRY_def DW_DLV_OK_def DW_DLV_ERROR_def

text \<open>The attribute definitions go to an array of 32; nothing checks their number.\<close>

definition add_attrdef :: "u64 \<Rightarrow> u64 \<Rightarrow> u64 \<Rightarrow> Dwarf_Abbrev \<Rightarrow> Dwarf_Abbrev eres" where
  "add_attrdef attr form adoff abp =
     (if NATTRDEF \<le> unat (ab_atnum abp) then Some (Inl ''ab_attrdef'')
      else Some (Inr (abp\<lparr>ab_attrdef := (ab_attrdef abp)(unat (ab_atnum abp) := \<lparr>ad_attrib = attr, ad_form = form, ad_offset = adoff\<rparr>),
                          ab_atnum := ab_atnum abp + 1\<rparr>)))"

partial_function (option) attrdef_loop :: "bmem \<Rightarrow> u64 \<Rightarrow> u64 \<Rightarrow> Dwarf_Abbrev \<Rightarrow> (u64 \<times> Dwarf_Abbrev) eres" where
  "attrdef_loop m data off abp =
     (case dwarf_read_uleb128 m data off of
        None \<Rightarrow> None
      | Some (Inl e) \<Rightarrow> Some (Inl e)
      | Some (Inr (attr, off1)) \<Rightarrow>
          (case dwarf_read_uleb128 m data off1 of
             None \<Rightarrow> None
           | Some (Inl e) \<Rightarrow> Some (Inl e)
           | Some (Inr (form, off2)) \<Rightarrow>
               if attr = 0 then Some (Inr (off2, abp))
               else case add_attrdef attr form off abp of
                      None \<Rightarrow> None
                    | Some (Inl e) \<Rightarrow> Some (Inl e)
                    | Some (Inr abp) \<Rightarrow> attrdef_loop m data off2 abp))"

definition dwarf_abbrev_parse :: "bmem \<Rightarrow> Dwarf_Debug \<Rightarrow> u64 \<Rightarrow> Dwarf_Abbrev \<Rightarrow> Dwarf_Section \<Rightarrow>
    (int \<times> u64 \<times> Dwarf_Abbrev) eres" where
  "dwarf_abbrev_parse m dbg off abp ds =
     (if ds_size ds \<le> off then Some (Inr (DW_DLE_NO_ENTRY, off, abp))
      else
        let aboff = off; addr = ds_data ds
        in bindE (dwarf_read_uleb128 m addr off) (\<lambda>(entry, off).
             if entry = 0 then Some (Inr (DW_DLE_NONE, off, abp\<lparr>ab_entry := 0\<rparr>))
             else
               bindE (dwarf_read_uleb128 m addr off) (\<lambda>(tag, off).
               let (children, off) = dbg_read dbg m addr off 1;
                   abp = abp\<lparr>ab_entry := entry, ab_tag := tag, ab_children := ucast children, ab_offset := aboff,
                             ab_length := 0, ab_atnum := 0\<rparr>
               in bindE (attrdef_loop m addr off abp) (\<lambda>(off, abp).
                    Some (Inr (DW_DLV_OK, off, abp\<lparr>ab_length := off - aboff\<rparr>))))))"

partial_function (option) abbrev_find_loop :: "bmem \<Rightarrow> Dwarf_Debug \<Rightarrow> u64 \<Rightarrow> u64 \<Rightarrow> Dwarf_Abbrev \<Rightarrow> Dwarf_Section \<Rightarrow>
    (int \<times> Dwarf_Abbrev) eres" where
  "abbrev_find_loop m dbg entry off abp ds =
     (if off < ds_size ds then
        case dwarf_abbrev_parse m dbg off abp ds of
          None \<Rightarrow> None
        | Some (Inl e) \<Rightarrow> Some (Inl e)
        | Some (Inr (ret, off, abp)) \<Rightarrow>
            if ret \<noteq> DW_DLE_NONE then Some (Inr (ret, abp))
            else if ab_entry abp = entry then Some (Inr (DW_DLE_NONE, abp))
            else if ab_entry abp = 0 then Some (Inr (DW_DLE_NO_ENTRY, abp))
            else abbrev_find_loop m dbg entry off abp ds
      else Some (Inr (DW_DLE_NO_ENTRY, abp)))"

definition dwarf_abbrev_find :: "bmem \<Rightarrow> Dwarf_Section list \<Rightarrow> Dwarf_Debug \<Rightarrow> Dwarf_CU \<Rightarrow> u64 \<Rightarrow> Dwarf_Abbrev \<Rightarrow>
    (int \<times> Dwarf_Abbrev) eres" where
  "dwarf_abbrev_find m ss dbg cu entry abp =
     (if entry = 0 then Some (Inr (DW_DLE_NO_ENTRY, abp))
      else
        case dwarf_find_section ss ''.debug_abbrev'' of
          None \<Rightarrow> Some (Inl ''ds != NULL'')
        | Some ds \<Rightarrow> abbrev_find_loop m dbg entry (debug_abbrev_offset cu) abp ds)"


section \<open>The LEB128 encoding\<close>

fun uleb128 :: "nat \<Rightarrow> u8 list" where
  "uleb128 n = (if n < 128 then [of_nat n] else of_nat (n mod 128 + 128) # uleb128 (n div 128))"

declare uleb128.simps [simp del]

definition bytes_in :: "bmem \<Rightarrow> u64 \<Rightarrow> u8 list \<Rightarrow> bool" where
  "bytes_in m p bs \<longleftrightarrow> (\<forall>i < length bs. m (p + of_nat i) = bs ! i)"

lemma bytes_in_simps [simp]:
  "bytes_in m p []"
  "bytes_in m p (b # bs) \<longleftrightarrow> m p = b \<and> bytes_in m (p + 1) bs"
proof -
  show "bytes_in m p []" by (simp add: bytes_in_def)
  have "(\<forall>i < Suc (length bs). m (p + of_nat i) = (b # bs) ! i) \<longleftrightarrow>
      m p = b \<and> (\<forall>i < length bs. m (p + of_nat (Suc i)) = bs ! i)"
    unfolding All_less_Suc2 by simp
  then show "bytes_in m p (b # bs) \<longleftrightarrow> m p = b \<and> bytes_in m (p + 1) bs"
    by (simp add: bytes_in_def add_ac)
qed

lemma bytes_in_append [simp]:
  "bytes_in m p (xs @ ys) \<longleftrightarrow> bytes_in m p xs \<and> bytes_in m (p + of_nat (length xs)) ys"
  by (induction xs arbitrary: p) (simp_all add: add_ac)

lemma uleb128_length: "n < 2 ^ (7 * k) \<Longrightarrow> 0 < k \<Longrightarrow> length (uleb128 n) \<le> k"
proof (induction k arbitrary: n)
  case (Suc k)
  show ?case
  proof (cases "n < 128")
    case False
    then have "k \<noteq> 0" using Suc.prems(1) by (cases k) simp_all
    moreover have "n div 128 < 2 ^ (7 * k)"
      using Suc.prems(1) by (simp add: div_less_iff_less_mult power_add mult.commute)
    ultimately show ?thesis using Suc.IH [of "n div 128"] False by (simp add: uleb128.simps [of n])
  qed (simp add: uleb128.simps [of n])
qed simp

lemma uleb128_not_Nil [simp]: "uleb128 n \<noteq> []"
  by (simp add: uleb128.simps [of n])

lemma uleb128_long: "2 ^ (7 * k) \<le> n \<Longrightarrow> k < length (uleb128 n)"
proof (induction k arbitrary: n)
  case (Suc k)
  have "(1 :: nat) \<le> 2 ^ (7 * k)" by simp
  moreover have "128 * 2 ^ (7 * k) \<le> n" using Suc.prems by (simp add: power_add)
  ultimately have "128 \<le> n" by linarith
  moreover have "2 ^ (7 * k) \<le> n div 128" using Suc.prems by (simp add: less_eq_div_iff_mult_less_eq power_add mult.commute)
  ultimately show ?case using Suc.IH [of "n div 128"] by (simp add: uleb128.simps [of n])
qed simp

text \<open>One digit.\<close>

lemma digit_bits:
  "n < 128 \<Longrightarrow> (of_nat n :: u8) AND 0x7F = of_nat n" "n < 128 \<Longrightarrow> (of_nat n :: u8) AND 0x80 = 0"
  "n < 128 \<Longrightarrow> (of_nat (n + 128) :: u8) AND 0x7F = of_nat n" "n < 128 \<Longrightarrow> (of_nat (n + 128) :: u8) AND 0x80 \<noteq> 0"
proof -
  have "w AND 0x7F = take_bit 7 w" for w :: u8 by (simp add: take_bit_eq_mask mask_eq_exp_minus_1)
  then have low: "unat (w AND 0x7F) = unat w mod 128" for w :: u8 by (simp add: unat_take_bit)
  have "w AND 2 ^ 7 = 0 \<longleftrightarrow> \<not> bit w 7" for w :: u8 by (rule and_exp_eq_0_iff_not_bit)
  moreover have "bit w 7 \<longleftrightarrow> odd (unat w div 2 ^ 7)" for w :: u8
    by (simp only: bit_iff_odd [of "unat w" 7, symmetric]) (simp add: bit_unsigned_iff)
  ultimately have top: "w AND 0x80 = 0 \<longleftrightarrow> even (unat w div 128)" for w :: u8 by simp
  show "(of_nat n :: u8) AND 0x7F = of_nat n" "(of_nat n :: u8) AND 0x80 = 0" if "n < 128"
    using that low [of "of_nat n"] top [of "of_nat n"] by (simp_all add: unat_of_nat word_unat_eq_iff [of "of_nat n AND 0x7F"])
  have u: "n < 128 \<Longrightarrow> unat (of_nat (n + 128) :: u8) = n + 128" by (simp only: unat_of_nat) simp
  have q: "n < 128 \<Longrightarrow> (n + 128) div 128 = 1" by simp
  show "(of_nat (n + 128) :: u8) AND 0x7F = of_nat n" "(of_nat (n + 128) :: u8) AND 0x80 \<noteq> 0" if "n < 128"
    using that q [OF that] u [OF that] low [of "of_nat (n + 128)"] top [of "of_nat (n + 128)"]
    by (simp_all add: unat_of_nat word_unat_eq_iff [of "of_nat (n + 128) AND 0x7F"] del: of_nat_add div_add_self2)
qed

lemma join_digit:
  "push_bit s (ucast (of_nat (n mod 128) :: u8) :: u32) OR push_bit (s + 7) (of_nat (n div 128)) = push_bit s (of_nat n)"
proof (rule bit_word_eqI)
  have d: "n mod 128 = take_bit 7 n" "n div 128 = drop_bit 7 n" by (simp_all add: take_bit_eq_mod drop_bit_eq_div)
  fix k assume "k < LENGTH(32)"
  then show "bit (push_bit s (ucast (of_nat (n mod 128) :: u8) :: u32) OR push_bit (s + 7) (of_nat (n div 128))) k =
      bit (push_bit s (of_nat n) :: u32) k"
    unfolding d by (cases "s \<le> k"; cases "k - s < 7") (auto simp: bit_simps)
qed

lemma scast_or: "scast (a OR b :: u32) = (scast a OR scast b :: u64)"
  by (rule bit_word_eqI) (auto simp: bit_simps)

lemma leb_loop_uleb:
  assumes "bytes_in m src (uleb128 n)"
  shows "if s + 7 * (length (uleb128 n) - 1) < 32
     then \<exists>b. leb_loop m src ret s off = Some (Inr (ret OR scast (push_bit s (of_nat n :: u32)), b, s + 7 * length (uleb128 n),
       src + of_nat (length (uleb128 n)), off + of_nat (length (uleb128 n))))
     else leb_loop m src ret s off = Some (Inl ''shift'')"
  using assms
proof (induction n arbitrary: src ret s off rule: uleb128.induct)
  case (1 n)
  show ?case
  proof (cases "n < 128")
    case True
    then show ?thesis
      using 1(2) digit_bits(1,2) [OF True]
      by (simp add: uleb128.simps [of n] leb_loop.simps [of m src] unsigned_of_nat take_bit_nat_eq_self)
  next
    case False
    let ?b = "of_nat (n mod 128 + 128) :: u8"
    have u: "uleb128 n = ?b # uleb128 (n div 128)" using False by (simp add: uleb128.simps [of n])
    have m: "m src = ?b" "bytes_in m (src + 1) (uleb128 (n div 128))" using 1(2) by (simp_all add: u)
    obtain k where l: "length (uleb128 (n div 128)) = Suc k" by (cases "uleb128 (n div 128)") simp_all
    note dg = digit_bits(3,4) [of "n mod 128"]
    let ?r = "ret OR scast (push_bit s (ucast (of_nat (n mod 128) :: u8) :: u32))"
    have j: "?r OR scast (push_bit (s + 7) (of_nat (n div 128) :: u32)) = ret OR scast (push_bit s (of_nat n :: u32))"
      by (simp only: or.assoc scast_or [symmetric] join_digit)
    show ?thesis
      using 1(1) [OF False m(2), of "s + 7" ?r "off + 1"] l dg
      by (simp add: u leb_loop.simps [of m src] m(1) j add_ac Let_def split: if_splits)
  qed
qed


lemma small_digits:
  assumes "n < 2 ^ 35"
  shows "7 * (length (uleb128 n) - 1) < 32"
  using uleb128_length [of n 5] assms by simp

lemma uleb128_read:
  assumes "bytes_in m (data + off) (uleb128 n)" "n < 2 ^ 35"
  shows "dwarf_read_uleb128 m data off = Some (Inr (scast (of_nat n :: u32), off + of_nat (length (uleb128 n))))"
  using leb_loop_uleb [OF assms(1), of 0 0 off] small_digits [OF assms(2)]
  by (auto simp: dwarf_read_uleb128_def)

lemma scast_small: "n < 2 ^ 31 \<Longrightarrow> (scast (of_nat n :: u32) :: u64) = of_nat n"
proof -
  assume n: "n < 2 ^ 31"
  then have "signed_take_bit 31 (int n) = int n" "take_bit 32 n = n"
    by (simp_all add: signed_take_bit_int_eq_self take_bit_nat_eq_self)
  then have "sint (of_nat n :: u32) = int n" by (simp add: sint_uint unsigned_of_nat)
  then show ?thesis by (simp add: scast_eq)
qed

lemma scast_large: "2 ^ 31 \<le> n \<Longrightarrow> n < 2 ^ 35 \<Longrightarrow> (scast (of_nat n :: u32) :: u64) \<noteq> of_nat n"
proof
  assume n: "2 ^ 31 \<le> n" "n < 2 ^ 35" and "(scast (of_nat n :: u32) :: u64) = of_nat n"
  moreover have "uint (scast (of_nat n :: u32) :: u64) = sint (of_nat n :: u32) mod 2 ^ 64"
    by (simp only: scast_eq uint_word_of_int) (simp add: take_bit_eq_mod)
  moreover have "uint (of_nat n :: u64) = int n" using n(2) by (simp only: uint_nat unat_of_nat) simp
  ultimately have e: "int n = sint (of_nat n :: u32) mod 2 ^ 64" by simp
  have b: "sint (of_nat n :: u32) < 2 ^ 31" "- (2 ^ 31) \<le> sint (of_nat n :: u32)"
    using sint_lt [of "of_nat n :: u32"] sint_ge [of "of_nat n :: u32"] by simp_all
  show False
  proof (cases "0 \<le> sint (of_nat n :: u32)")
    case True
    then have "sint (of_nat n :: u32) mod 2 ^ 64 = sint (of_nat n :: u32)" using b by simp
    with e b n show False by simp
  next
    case False
    then have "(sint (of_nat n :: u32) + 2 ^ 64) mod 2 ^ 64 = sint (of_nat n :: u32) + 2 ^ 64" using b by (intro mod_pos_pos_trivial) simp_all
    with e b n show False by simp
  qed
qed

text \<open>C39: LEB128. For the encoding of any number \<open>n\<close> at the place it reads, \<open>_dwarf_read_uleb128\<close> and \<open>_dwarf_decode_uleb128\<close> stop right behind the
  encoding. Below \<open>2\<^sup>3\<^sup>1\<close> they return \<open>n\<close>. The digits are shifted as 32-bit integers: up to \<open>2\<^sup>3\<^sup>5\<close> the result is the low half of
  \<open>n\<close> with its sign, which is not \<open>n\<close> from \<open>2\<^sup>3\<^sup>1\<close> on, and beyond they shift by more than the width.\<close>

theorem uleb128_round_trip:
  assumes "bytes_in m (data + off) (uleb128 n)"
  shows "dwarf_read_uleb128 m data off =
      Some (if n < 2 ^ 31 then Inr (of_nat n, off + of_nat (length (uleb128 n)))
            else if n < 2 ^ 35 then Inr (scast (of_nat n :: u32), off + of_nat (length (uleb128 n)))
            else Inl ''shift'') \<and>
    dwarf_decode_uleb128 m (data + off) =
      Some (if n < 2 ^ 31 then Inr (of_nat n, data + off + of_nat (length (uleb128 n)))
            else if n < 2 ^ 35 then Inr (scast (of_nat n :: u32), data + off + of_nat (length (uleb128 n)))
            else Inl ''shift'') \<and>
    (2 ^ 31 \<le> n \<and> n < 2 ^ 35 \<longrightarrow> (scast (of_nat n :: u32) :: u64) \<noteq> of_nat n)"
proof -
  note l = leb_loop_uleb [OF assms, of 0 0 off] leb_loop_uleb [OF assms, of 0 0 0]
  have "32 \<le> 7 * (length (uleb128 n) - 1)" if "\<not> n < 2 ^ 35" using uleb128_long [of 5 n] that by simp
  with l have "dwarf_read_uleb128 m data off =
      Some (if n < 2 ^ 31 then Inr (of_nat n, off + of_nat (length (uleb128 n)))
            else if n < 2 ^ 35 then Inr (scast (of_nat n :: u32), off + of_nat (length (uleb128 n)))
            else Inl ''shift'')"
    "dwarf_decode_uleb128 m (data + off) =
      Some (if n < 2 ^ 31 then Inr (of_nat n, data + off + of_nat (length (uleb128 n)))
            else if n < 2 ^ 35 then Inr (scast (of_nat n :: u32), data + off + of_nat (length (uleb128 n)))
            else Inl ''shift'')"
    using small_digits [of n] scast_small [of n]
    by (cases "n < 2 ^ 35"; cases "n < 2 ^ 31"; auto simp: dwarf_read_uleb128_def dwarf_decode_uleb128_def)+
  then show ?thesis using scast_large [of n] by blast
qed

theorem uleb128_round_trip_witness:
  "dwarf_read_uleb128 ((\<lambda>_. 0)(0x1000 := 0xE5, 0x1001 := 0x8E, 0x1002 := 0x26)) 0x1000 0 = Some (Inr (624485, 3))"
proof -
  have "uleb128 624485 = [0xE5, 0x8E, 0x26]" by (simp add: uleb128.simps)
  then show ?thesis
    using uleb128_round_trip [of "(\<lambda>_. 0)(0x1000 := 0xE5, 0x1001 := 0x8E, 0x1002 := 0x26)" "0x1000" 0 624485] by simp
qed

section \<open>Abbreviation tables\<close>

text \<open>A declaration: code, tag, whether there are children, and the pairs of attribute and form.\<close>

type_synonym decl = "nat \<times> nat \<times> u8 \<times> (nat \<times> nat) list"

definition enc_attrs :: "(nat \<times> nat) list \<Rightarrow> u8 list" where
  "enc_attrs ats = concat (map (\<lambda>(a, f). uleb128 a @ uleb128 f) ats) @ [0, 0]"

definition enc_decl :: "decl \<Rightarrow> u8 list" where
  "enc_decl d = (case d of (code, tag, ch, ats) \<Rightarrow> uleb128 code @ uleb128 tag @ [ch] @ enc_attrs ats)"

definition enc_table :: "decl list \<Rightarrow> u8 list" where
  "enc_table ds = concat (map enc_decl ds) @ [0]"

definition attrs_ok :: "(nat \<times> nat) list \<Rightarrow> bool" where
  "attrs_ok ats \<longleftrightarrow> (\<forall>(a, f) \<in> set ats. 0 < a \<and> a < 2 ^ 31 \<and> f < 2 ^ 31)"

definition decl_ok :: "decl \<Rightarrow> bool" where
  "decl_ok d = (case d of (code, tag, ch, ats) \<Rightarrow>
     0 < code \<and> code < 2 ^ 31 \<and> tag < 2 ^ 31 \<and> attrs_ok ats \<and> length ats \<le> NATTRDEF)"

definition attrs_of :: "Dwarf_Abbrev \<Rightarrow> (u64 \<times> u64) list" where
  "attrs_of abp = map (\<lambda>i. (ad_attrib (ab_attrdef abp i), ad_form (ab_attrdef abp i))) [0..<unat (ab_atnum abp)]"

text \<open>The abbreviation says what the declaration says.\<close>

definition says :: "Dwarf_Abbrev \<Rightarrow> decl \<Rightarrow> bool" where
  "says abp d = (case d of (code, tag, ch, ats) \<Rightarrow>
     ab_entry abp = of_nat code \<and> ab_tag abp = of_nat tag \<and> ab_children abp = ch \<and>
     attrs_of abp = map (\<lambda>(a, f). (of_nat a, of_nat f)) ats)"

lemma uleb128_read_small:
  "bytes_in m (data + off) (uleb128 n) \<Longrightarrow> n < 2 ^ 31 \<Longrightarrow>
   dwarf_read_uleb128 m data off = Some (Inr (of_nat n, off + of_nat (length (uleb128 n))))"
  by (simp add: uleb128_read scast_small)

lemma of_nat_eq_0_small: "n < 2 ^ 31 \<Longrightarrow> (of_nat n :: u64) = 0 \<longleftrightarrow> n = 0"
  by (simp add: word_unat_eq_iff unat_of_nat)

lemma attrdef_loop_enc:
  assumes "bytes_in m (data + off) (enc_attrs ats)" "attrs_ok ats" "unat (ab_atnum abp) + length ats \<le> NATTRDEF"
  shows "\<exists>abp'. attrdef_loop m data off abp = Some (Inr (off + of_nat (length (enc_attrs ats)), abp')) \<and>
    ab_entry abp' = ab_entry abp \<and> ab_tag abp' = ab_tag abp \<and> ab_children abp' = ab_children abp \<and>
    attrs_of abp' = attrs_of abp @ map (\<lambda>(a, f). (of_nat a, of_nat f)) ats"
  using assms
proof (induction ats arbitrary: off abp)
  case Nil
  have z: "uleb128 0 = [0]" by (simp add: uleb128.simps [of 0])
  have "dwarf_read_uleb128 m data off = Some (Inr (0, off + 1))" "dwarf_read_uleb128 m data (off + 1) = Some (Inr (0, off + 2))"
    using Nil.prems(1) uleb128_read_small [of m data off 0] uleb128_read_small [of m data "off + 1" 0]
    by (simp_all add: enc_attrs_def z add_ac)
  then show ?case by (simp add: attrdef_loop.simps [of m data off] enc_attrs_def)
next
  case (Cons x ats)
  obtain a f where x: "x = (a, f)" by (cases x)
  have a: "0 < a" "a < 2 ^ 31" "f < 2 ^ 31" "attrs_ok ats" using Cons.prems(2) by (auto simp: attrs_ok_def x)
  let ?o1 = "off + of_nat (length (uleb128 a))"
  let ?o2 = "?o1 + of_nat (length (uleb128 f))"
  let ?k = "unat (ab_atnum abp)"
  let ?abp = "abp\<lparr>ab_attrdef := (ab_attrdef abp)(?k := \<lparr>ad_attrib = of_nat a, ad_form = of_nat f, ad_offset = off\<rparr>),
      ab_atnum := ab_atnum abp + 1\<rparr>"
  have b: "bytes_in m (data + off) (uleb128 a)" "bytes_in m (data + ?o1) (uleb128 f)" "bytes_in m (data + ?o2) (enc_attrs ats)"
    using Cons.prems(1) by (simp_all add: enc_attrs_def x add_ac)
  have k: "?k < 32" "?k + length ats < 32" using Cons.prems(3) by (simp_all add: NATTRDEF_def)
  then have k1: "unat (ab_atnum abp + 1) = ?k + 1" by (simp add: unat_word_ariths)
  have "add_attrdef (of_nat a) (of_nat f) off abp = Some (Inr ?abp)"
    using k(1) by (simp add: add_attrdef_def NATTRDEF_def)
  moreover obtain abp' where abp': "attrdef_loop m data ?o2 ?abp = Some (Inr (?o2 + of_nat (length (enc_attrs ats)), abp'))"
      "ab_entry abp' = ab_entry abp" "ab_tag abp' = ab_tag abp" "ab_children abp' = ab_children abp"
      "attrs_of abp' = attrs_of ?abp @ map (\<lambda>(a, f). (of_nat a, of_nat f)) ats"
    using Cons.IH [OF b(3) a(4), of ?abp] k by (auto simp: k1 NATTRDEF_def)
  moreover have "attrs_of ?abp = attrs_of abp @ [(of_nat a, of_nat f)]"
    by (simp add: attrs_of_def k1)
  moreover have "?o2 + of_nat (length (enc_attrs ats)) = off + of_nat (length (enc_attrs (x # ats)))"
    by (simp add: enc_attrs_def x add_ac)
  ultimately show ?case
    using uleb128_read_small [OF b(1) a(2)] uleb128_read_small [OF b(2) a(3)] a(1,2) of_nat_eq_0_small [of a]
    by (intro exI [of _ abp']) (simp add: attrdef_loop.simps [of m data off] x)
qed

lemma ucast_u8 [simp]: "ucast (ucast (b :: u8) :: u64) = b"
  by (rule bit_word_eqI) (simp add: bit_simps)

lemma dbg_read_1: "dbg_read dbg m data off (Suc 0) = (ucast (m (data + off)), off + 1)"
  by (simp add: dbg_read_def dwarf_read_msb_def dwarf_read_lsb_def msb_bytes_def lsb_bytes_def)

lemma dwarf_abbrev_parse_enc:
  assumes "bytes_in m (ds_data ds + off) (enc_decl d)" "decl_ok d" "off < ds_size ds"
  shows "\<exists>abp'. dwarf_abbrev_parse m dbg off abp ds = Some (Inr (DW_DLE_NONE, off + of_nat (length (enc_decl d)), abp')) \<and> says abp' d"
proof -
  obtain code tag ch ats where d: "d = (code, tag, ch, ats)" by (cases d)
  have o: "0 < code" "code < 2 ^ 31" "tag < 2 ^ 31" "attrs_ok ats" "length ats \<le> NATTRDEF"
    using assms(2) by (simp_all add: decl_ok_def d)
  let ?o1 = "off + of_nat (length (uleb128 code))"
  let ?o2 = "?o1 + of_nat (length (uleb128 tag))"
  let ?a = "abp\<lparr>ab_entry := of_nat code, ab_tag := of_nat tag, ab_children := ch, ab_offset := off, ab_length := 0, ab_atnum := 0\<rparr>"
  have b: "bytes_in m (ds_data ds + off) (uleb128 code)" "bytes_in m (ds_data ds + ?o1) (uleb128 tag)" "m (ds_data ds + ?o2) = ch"
    "bytes_in m (ds_data ds + (?o2 + 1)) (enc_attrs ats)"
    using assms(1) by (simp_all add: enc_decl_def d add_ac)
  obtain abp' where abp': "attrdef_loop m (ds_data ds) (?o2 + 1) ?a = Some (Inr (?o2 + 1 + of_nat (length (enc_attrs ats)), abp'))"
      "ab_entry abp' = of_nat code" "ab_tag abp' = of_nat tag" "ab_children abp' = ch"
      "attrs_of abp' = map (\<lambda>(a, f). (of_nat a, of_nat f)) ats"
    using attrdef_loop_enc [OF b(4) o(4), of ?a] o(5) by (auto simp: attrs_of_def)
  let ?stop = "?o2 + 1 + of_nat (length (enc_attrs ats))"
  have "?stop = off + of_nat (length (enc_decl d))" by (simp add: enc_decl_def d add_ac)
  moreover have "dwarf_abbrev_parse m dbg off abp ds = Some (Inr (DW_DLE_NONE, ?stop, abp'\<lparr>ab_length := ?stop - off\<rparr>))"
    using uleb128_read_small [OF b(1) o(2)] uleb128_read_small [OF b(2) o(3)] of_nat_eq_0_small [OF o(2)] o(1) assms(3) abp'(1) b(3)
    by (simp add: dwarf_abbrev_parse_def Let_def dbg_read_1 not_le dwarf_codes)
  moreover have "says (abp'\<lparr>ab_length := ?stop - off\<rparr>) d"
    using abp' by (simp add: says_def d attrs_of_def)
  ultimately show ?thesis by (intro exI [of _ "abp'\<lparr>ab_length := ?stop - off\<rparr>"]) simp
qed

text \<open>C40: Abbreviation tables. In a section that holds the encoding of a list of declarations at the unit's offset,
  \<open>_dwarf_abbrev_find\<close> returns for a code the abbreviation that says what the first declaration with this code says, and no
  entry when there is none; whatever the caller's variable held before, and whatever the byte order.\<close>

theorem abbrev_find_round_trip:
  assumes sec: "dwarf_find_section ss ''.debug_abbrev'' = Some ds"
    and tab: "bytes_in m (ds_data ds + debug_abbrev_offset cu) (enc_table decls)"
    and ok: "\<forall>d \<in> set decls. decl_ok d"
    and fits: "unat (debug_abbrev_offset cu) + length (enc_table decls) \<le> unat (ds_size ds)"
    and code: "0 < code" "code < 2 ^ 31"
  shows "\<exists>abp'. dwarf_abbrev_find m ss dbg cu (of_nat code) abp =
      Some (Inr (case find (\<lambda>d. fst d = code) decls of None \<Rightarrow> DW_DLE_NO_ENTRY | Some _ \<Rightarrow> DW_DLE_NONE, abp')) \<and>
    (case find (\<lambda>d. fst d = code) decls of None \<Rightarrow> True | Some d \<Rightarrow> says abp' d)"
proof -
  have "\<exists>abp'. abbrev_find_loop m dbg (of_nat code) off abp ds =
      Some (Inr (case find (\<lambda>d. fst d = code) decls of None \<Rightarrow> DW_DLE_NO_ENTRY | Some _ \<Rightarrow> DW_DLE_NONE, abp')) \<and>
    (case find (\<lambda>d. fst d = code) decls of None \<Rightarrow> True | Some d \<Rightarrow> says abp' d)"
    if "bytes_in m (ds_data ds + off) (enc_table decls)" "unat off + length (enc_table decls) \<le> unat (ds_size ds)" for off
    using that ok
  proof (induction decls arbitrary: off abp)
    case Nil
    have z: "uleb128 0 = [0]" by (simp add: uleb128.simps [of 0])
    have "off < ds_size ds" using Nil.prems(2) by (simp add: word_less_nat_alt enc_table_def)
    moreover have "dwarf_read_uleb128 m (ds_data ds) off = Some (Inr (0, off + 1))"
      using Nil.prems(1) uleb128_read_small [of m "ds_data ds" off 0] by (simp add: enc_table_def z)
    ultimately show ?case
      using code of_nat_eq_0_small [OF code(2)]
      by (simp add: abbrev_find_loop.simps [of m dbg _ off] dwarf_abbrev_parse_def not_le dwarf_codes)
  next
    case (Cons d decls)
    have e: "enc_table (d # decls) = enc_decl d @ enc_table decls" by (simp add: enc_table_def)
    have lt: "off < ds_size ds"
      using Cons.prems(2) by (simp add: word_less_nat_alt e enc_decl_def split: prod.splits)
    obtain abp1 where a1: "dwarf_abbrev_parse m dbg off abp ds =
        Some (Inr (DW_DLE_NONE, off + of_nat (length (enc_decl d)), abp1))" "says abp1 d"
      using dwarf_abbrev_parse_enc [of m ds off d dbg abp] Cons.prems(1,3) lt by (auto simp: e)
    have d: "fst d < 2 ^ 31" "0 < fst d" "ab_entry abp1 = of_nat (fst d)"
      using Cons.prems(3) a1(2) by (auto simp: decl_ok_def says_def split: prod.splits)
    have eq: "ab_entry abp1 = of_nat code \<longleftrightarrow> fst d = code" "ab_entry abp1 \<noteq> 0"
      using d code of_nat_eq_0_small [OF d(1)] by (auto simp: word_unat_eq_iff unat_of_nat)
    let ?off = "off + of_nat (length (enc_decl d))"
    have u: "unat ?off = unat off + length (enc_decl d)"
    proof -
      have "unat off + length (enc_decl d) < 2 ^ 64"
        using Cons.prems(2) unsigned_less [of "ds_size ds", where 'a = nat] by (simp add: e enc_table_def)
      then show ?thesis by (simp add: unat_word_ariths unat_of_nat)
    qed
    have "bytes_in m (ds_data ds + ?off) (enc_table decls)" "unat ?off + length (enc_table decls) \<le> unat (ds_size ds)"
      using Cons.prems(1,2) by (simp_all add: e u add_ac)
    from Cons.IH [OF this, of abp1] Cons.prems(3) show ?case
      using a1 lt eq by (cases "fst d = code") (simp_all add: abbrev_find_loop.simps [of m dbg _ off] dwarf_codes)
  qed
  from this [OF tab fits] show ?thesis
    using code of_nat_eq_0_small [OF code(2)] sec by (simp add: dwarf_abbrev_find_def)
qed

text \<open>A table with two declarations in 16 bytes at \<open>0x2000\<close>.\<close>

theorem abbrev_find_round_trip_witness:
  "\<forall>dbg cu abp. \<exists>abp'. dwarf_abbrev_find (\<lambda>a. if 0x2000 \<le> a \<and> a < 0x2010 then [1, 0x11, 1, 3, 8, 0, 0, 2, 0x2E, 0, 0x11, 1, 0, 0, 0, 0] ! unat (a - 0x2000) else 0)
      [\<lparr>ds_name = ''.debug_abbrev'', ds_data = 0x2000, ds_addr = 0x2000, ds_size = 16\<rparr>] dbg
      (cu\<lparr>debug_abbrev_offset := 0\<rparr>) 2 abp = Some (Inr (0, abp')) \<and> ab_tag abp' = 0x2E \<and> attrs_of abp' = [(0x11, 1)]"
proof (intro allI)
  fix dbg :: Dwarf_Debug and cu :: Dwarf_CU and abp :: Dwarf_Abbrev
  let ?m = "(\<lambda>a. if 0x2000 \<le> a \<and> a < 0x2010 then [1, 0x11, 1, 3, 8, 0, 0, 2, 0x2E, 0, 0x11, 1, 0, 0, 0, 0] ! unat (a - 0x2000) else 0) :: bmem"
  let ?ds = "[(1, 0x11, 1, [(3, 8)]), (2, 0x2E, 0, [(0x11, 1)])] :: decl list"
  let ?sec = "\<lparr>ds_name = ''.debug_abbrev'', ds_data = 0x2000, ds_addr = 0x2000, ds_size = 16\<rparr>"
  have t: "enc_table ?ds = [1, 0x11, 1, 3, 8, 0, 0, 2, 0x2E, 0, 0x11, 1, 0, 0, 0]"
    by (simp add: enc_table_def enc_decl_def enc_attrs_def uleb128.simps)
  have "bytes_in ?m (ds_data ?sec + debug_abbrev_offset (cu\<lparr>debug_abbrev_offset := 0\<rparr>)) (enc_table ?ds)"
    unfolding t by simp
  moreover have "length (enc_table ?ds) \<le> 16" unfolding t by simp
  moreover have "\<forall>d \<in> set ?ds. decl_ok d" by (simp add: decl_ok_def attrs_ok_def NATTRDEF_def)
  moreover have "dwarf_find_section [?sec] ''.debug_abbrev'' = Some ?sec" by (simp add: dwarf_find_section_def)
  ultimately show "\<exists>abp'. dwarf_abbrev_find ?m [?sec] dbg (cu\<lparr>debug_abbrev_offset := 0\<rparr>) 2 abp = Some (Inr (0, abp')) \<and>
      ab_tag abp' = 0x2E \<and> attrs_of abp' = [(0x11, 1)]"
    using abbrev_find_round_trip [of "[?sec]" ?sec ?m "cu\<lparr>debug_abbrev_offset := 0\<rparr>" ?ds 2 dbg abp]
    by (simp add: says_def dwarf_codes) blast
qed

end
