(* ===== verification/Dwarf_Die.thy ===== *)
theory Dwarf_Die
  imports Dwarf_Rw
begin

text \<open>
  Debugging entries: how their attributes are read, and the search for entries, siblings and children
  (\<open>kern/libdwarf_rw.c\<close>, second half).
\<close>

section \<open>Attributes\<close>

text \<open>\<open>at_u0\<close> and \<open>at_u1\<close> are the two words of the union \<open>u\<close>; the fields that are never set are left out.\<close>

record Dwarf_Attribute =
  at_attrib :: u64
  at_form :: u64
  at_indirect :: bool
  at_u0 :: u64
  at_u1 :: u64
  bl_len :: u64
  bl_data :: u64

record Dwarf_Die =
  die_offset :: u64
  die_next_off :: u64
  die_abnum :: u64
  die_tag :: u64
  die_ab :: Dwarf_Abbrev
  die_name :: u64
  die_attr_count :: u8
  die_attr :: "nat \<Rightarrow> Dwarf_Attribute"

definition NATTRVAL :: nat where "NATTRVAL = 120"

definition DW_AT_sibling :: u64 where "DW_AT_sibling = 0x01"
definition DW_AT_name :: u64 where "DW_AT_name = 0x03"
definition DW_CHILDREN_no :: u8 where "DW_CHILDREN_no = 0"
definition DW_CHILDREN_yes :: u8 where "DW_CHILDREN_yes = 1"
definition DW_FORM_string :: u64 where "DW_FORM_string = 0x08"
definition DW_FORM_strp :: u64 where "DW_FORM_strp = 0x0e"
definition DW_FORM_ref_addr :: u64 where "DW_FORM_ref_addr = 0x10"
definition DW_FORM_indirect :: u64 where "DW_FORM_indirect = 0x16"

text \<open>The values of the forms, but for \<open>DW_FORM_indirect\<close>: the two words and the offset behind, or \<open>None\<close> for a form
  that is not known.\<close>

definition attr_value :: "bmem \<Rightarrow> Dwarf_Section list \<Rightarrow> Dwarf_Debug \<Rightarrow> Dwarf_CU \<Rightarrow> Dwarf_Section \<Rightarrow> u64 \<Rightarrow> u64 \<Rightarrow>
    (u64 \<times> u64 \<times> u64) option eres" where
  "attr_value m ss dbg cu ds form off =
     (let data = ds_data ds;
          fixed = (\<lambda>n. let (v, off) = dbg_read dbg m data off n in Some (Inr (Some (v, 0, off))));
          block = (\<lambda>(v, off). let (p, off) = dwarf_read_block data off v in Some (Inr (Some (v, p, off))))
      in if form = 0x01 then fixed (unat (addr_size cu))
         else if form = 0x09 \<or> form = 0x18 then bindE (dwarf_read_uleb128 m data off) block
         else if form = 0x0a then block (dbg_read dbg m data off 1)
         else if form = 0x03 then block (dbg_read dbg m data off 2)
         else if form = 0x04 then block (dbg_read dbg m data off 4)
         else if form = 0x0b \<or> form = 0x0c \<or> form = 0x11 then fixed 1
         else if form = 0x05 \<or> form = 0x12 then fixed 2
         else if form = 0x06 \<or> form = 0x13 then fixed 4
         else if form = 0x07 \<or> form = 0x14 then fixed 8
         else if form = 0x10 then
           if version cu = 2 then fixed (unat (addr_size cu))
           else if version cu = 3 then fixed (unat (cu_dwarf_size cu))
           else Some (Inr (Some (0, 0, off)))
         else if form = 0x15 \<or> form = 0x0f then
           bindE (dwarf_read_uleb128 m data off) (\<lambda>(v, off). Some (Inr (Some (v, 0, off))))
         else if form = 0x0d then
           bindE (dwarf_read_sleb128 m data off) (\<lambda>(v, off). Some (Inr (Some (v, 0, off))))
         else if form = 0x17 then fixed (unat (cu_dwarf_size cu))
         else if form = 0x08 then
           let (p, off) = dwarf_read_string m data (ds_size ds) off in Some (Inr (Some (p, 0, off)))
         else if form = 0x0e then
           let (v, off) = dbg_read dbg m data off (unat (cu_dwarf_size cu))
           in case dwarf_find_section ss ''.debug_str'' of
                None \<Rightarrow> Some (Inl ''str != NULL'')
              | Some str \<Rightarrow> Some (Inr (Some (v, ds_data str + v, off)))
         else if form = 0x20 then block (8, off)
         else if form = 0x19 then Some (Inr (Some (1, 0, off)))
         else Some (Inr None))"

text \<open>The attribute is appended to the entry; \<open>at_form\<close> is the form of the abbreviation, also after \<open>DW_FORM_indirect\<close>.\<close>

definition add_attr :: "u64 \<Rightarrow> u64 \<Rightarrow> u64 \<Rightarrow> bool \<Rightarrow> u64 \<Rightarrow> u64 \<Rightarrow> Dwarf_Die \<Rightarrow> Dwarf_Die eres" where
  "add_attr attrib dform form indirect u0 u1 die =
     (let blk = form \<in> {0x09, 0x0a, 0x03, 0x04};
          atref = \<lparr>at_attrib = attrib, at_form = dform, at_indirect = indirect, at_u0 = u0, at_u1 = u1,
                   bl_len = (if blk then u0 else 0), bl_data = (if blk then u1 else 0)\<rparr>;
          die = (if attrib = DW_AT_name then
                   if dform = DW_FORM_strp then die\<lparr>die_name := u1\<rparr>
                   else if dform = DW_FORM_string then die\<lparr>die_name := u0\<rparr> else die
                 else die);
          n = unat (die_attr_count die)
      in if NATTRVAL \<le> n then Some (Inl ''die_attr'')
         else Some (Inr (die\<lparr>die_attr := (die_attr die)(n := atref), die_attr_count := die_attr_count die + 1\<rparr>)))"

partial_function (option) dwarf_attr_init :: "bmem \<Rightarrow> Dwarf_Section list \<Rightarrow> Dwarf_Debug \<Rightarrow> u64 \<Rightarrow> Dwarf_CU \<Rightarrow> Dwarf_Die \<Rightarrow>
    Dwarf_AttrDef \<Rightarrow> u64 \<Rightarrow> bool \<Rightarrow> (int \<times> u64 \<times> Dwarf_Die) eres" where
  "dwarf_attr_init m ss dbg off cu die ad form indirect =
     (case dwarf_find_section ss ''.debug_info'' of
        None \<Rightarrow> Some (Inl ''NULL'')
      | Some ds \<Rightarrow>
          if form = DW_FORM_indirect then
            (case dwarf_read_uleb128 m (ds_data ds) off of
               None \<Rightarrow> None
             | Some (Inl e) \<Rightarrow> Some (Inl e)
             | Some (Inr (form, off)) \<Rightarrow> dwarf_attr_init m ss dbg off cu die ad form True)
          else
            (case attr_value m ss dbg cu ds form off of
               None \<Rightarrow> None
             | Some (Inl e) \<Rightarrow> Some (Inl e)
             | Some (Inr None) \<Rightarrow> Some (Inr (DW_DLE_ATTR_FORM_BAD, off, die))
             | Some (Inr (Some (u0, u1, off))) \<Rightarrow>
                 (case add_attr (ad_attrib ad) (ad_form ad) form indirect u0 u1 die of
                    None \<Rightarrow> None
                  | Some (Inl e) \<Rightarrow> Some (Inl e)
                  | Some (Inr die) \<Rightarrow> Some (Inr (DW_DLE_NONE, off, die)))))"

section \<open>Searching\<close>

text \<open>All attributes of an entry; the first error ends the loop.\<close>

fun die_attrs :: "bmem \<Rightarrow> Dwarf_Section list \<Rightarrow> Dwarf_Debug \<Rightarrow> Dwarf_CU \<Rightarrow> Dwarf_AttrDef list \<Rightarrow> u64 \<Rightarrow> Dwarf_Die \<Rightarrow>
    (int \<times> u64 \<times> Dwarf_Die) eres" where
  "die_attrs m ss dbg cu [] off die = Some (Inr (DW_DLE_NONE, off, die))"
| "die_attrs m ss dbg cu (ad # ads) off die =
     bindE (dwarf_attr_init m ss dbg off cu die ad (ad_form ad) False) (\<lambda>(ret, off, die).
       if ret \<noteq> DW_DLE_NONE then Some (Inr (ret, off, die)) else die_attrs m ss dbg cu ads off die)"

definition attrdefs :: "Dwarf_Abbrev \<Rightarrow> Dwarf_AttrDef list" where
  "attrdefs ab = map (ab_attrdef ab) [0..<unat (ab_atnum ab)]"

text \<open>The entry at \<open>die_off\<close> with number \<open>abnum\<close>, its fields filled in and its attributes read from \<open>off\<close> on. The abbreviation
  \<open>ab\<close> is the caller's variable.\<close>

definition read_die :: "bmem \<Rightarrow> Dwarf_Section list \<Rightarrow> Dwarf_Debug \<Rightarrow> Dwarf_CU \<Rightarrow> u64 \<Rightarrow> u64 \<Rightarrow> u64 \<Rightarrow> Dwarf_Abbrev \<Rightarrow> Dwarf_Die \<Rightarrow>
    (int \<times> u64 \<times> Dwarf_Abbrev \<times> Dwarf_Die) eres" where
  "read_die m ss dbg cu die_off abnum off ab die =
     bindE (dwarf_abbrev_find m ss dbg cu abnum ab) (\<lambda>(ret, ab).
       if ret \<noteq> DW_DLE_NONE then Some (Inr (ret, off, ab, die))
       else
         let die = die\<lparr>die_offset := die_off, die_abnum := abnum, die_ab := ab, die_attr_count := 0, die_tag := ab_tag ab\<rparr>
         in bindE (die_attrs m ss dbg cu (attrdefs ab) off die) (\<lambda>(ret, off, die).
              if ret \<noteq> DW_DLE_NONE then Some (Inr (ret, off, ab, die))
              else Some (Inr (ret, off, ab, die\<lparr>die_next_off := off\<rparr>))))"

partial_function (option) search_loop :: "bmem \<Rightarrow> Dwarf_Section list \<Rightarrow> Dwarf_Debug \<Rightarrow> Dwarf_CU \<Rightarrow> bool \<Rightarrow> u64 \<Rightarrow> int \<Rightarrow> Dwarf_Abbrev \<Rightarrow>
    Dwarf_Die \<Rightarrow> (int \<times> Dwarf_Die) eres" where
  "search_loop m ss dbg cu sibling off level ab die =
     (if off < cu_next_offset cu \<and> off < dbg_info_size dbg then
        (case dwarf_read_uleb128 m (dbg_info_offset_elf dbg) off of
           None \<Rightarrow> None
         | Some (Inl e) \<Rightarrow> Some (Inl e)
         | Some (Inr (abnum, off1)) \<Rightarrow>
             if abnum = 0 then
               if level = 0 \<or> \<not> sibling then Some (Inr (DW_DLE_NO_ENTRY, die))
               else search_loop m ss dbg cu sibling off1 (level - 1) ab die
             else
               (case read_die m ss dbg cu off abnum off1 ab die of
                  None \<Rightarrow> None
                | Some (Inl e) \<Rightarrow> Some (Inl e)
                | Some (Inr (ret, off2, ab, die)) \<Rightarrow>
                    if ret \<noteq> DW_DLE_NONE then Some (Inr (ret, die))
                    else if sibling \<and> 0 < level then
                      search_loop m ss dbg cu sibling off2 (if ab_children ab = DW_CHILDREN_yes then level + 1 else level) ab die
                    else Some (Inr (DW_DLE_NONE, die))))
      else Some (Inr (DW_DLE_NO_ENTRY, die)))"

definition dwarf_search_die_within_cu :: "bmem \<Rightarrow> Dwarf_Section list \<Rightarrow> Dwarf_Debug \<Rightarrow> Dwarf_Abbrev \<Rightarrow> Dwarf_CU \<Rightarrow> u64 \<Rightarrow> Dwarf_Die \<Rightarrow> bool \<Rightarrow>
    (int \<times> Dwarf_Die) eres" where
  "dwarf_search_die_within_cu m ss dbg ab cu off die sibling = search_loop m ss dbg cu sibling off 1 ab die"

definition dwarf_offdie :: "bmem \<Rightarrow> Dwarf_Section list \<Rightarrow> Dwarf_Debug \<Rightarrow> Dwarf_Abbrev \<Rightarrow> u64 \<Rightarrow> Dwarf_Die \<Rightarrow> Dwarf_CU \<Rightarrow>
    (int \<times> Dwarf_Die) eres" where
  "dwarf_offdie m ss dbg ab off ret_die cu =
     (if off < cu_next_offset cu then dwarf_search_die_within_cu m ss dbg ab cu off ret_die False
      else Some (Inr (DW_DLV_OK, ret_die)))"

definition dwarf_attr_find :: "Dwarf_Die \<Rightarrow> u16 \<Rightarrow> Dwarf_Attribute option" where
  "dwarf_attr_find die attr =
     find (\<lambda>a. at_attrib a = ucast attr) (map (die_attr die) [0..<unat (die_attr_count die)])"

text \<open>The codes \<open>DW_DLE_\<close> of the search become codes \<open>DW_DLV_\<close>.\<close>

definition dlv_of :: "int \<Rightarrow> int" where
  "dlv_of ret = (if ret = DW_DLE_NO_ENTRY then DW_DLV_NO_ENTRY else if ret \<noteq> DW_DLE_NONE then DW_DLV_ERROR else DW_DLV_OK)"

definition dwarf_siblingof :: "bmem \<Rightarrow> Dwarf_Section list \<Rightarrow> Dwarf_Debug \<Rightarrow> Dwarf_Abbrev \<Rightarrow> Dwarf_Die option \<Rightarrow> Dwarf_Die \<Rightarrow> Dwarf_CU \<Rightarrow>
    (int \<times> Dwarf_Die) eres" where
  "dwarf_siblingof m ss dbg ab die ret_die cu =
     (case die of
        None \<Rightarrow> dwarf_offdie m ss dbg ab (cu_die_offset cu) ret_die cu
      | Some die \<Rightarrow>
          let (off, sibling) =
                (if ab_children (die_ab die) = DW_CHILDREN_no then (die_next_off die, False)
                 else
                   case dwarf_attr_find die (ucast DW_AT_sibling) of
                     Some a \<Rightarrow> (if at_form a \<noteq> DW_FORM_ref_addr then at_u0 a + cu_offset cu else at_u0 a, False)
                   | None \<Rightarrow> (die_next_off die, True))
          in bindE (dwarf_search_die_within_cu m ss dbg ab cu off ret_die sibling) (\<lambda>(ret, ret_die).
               Some (Inr (dlv_of ret, ret_die))))"

definition dwarf_child :: "bmem \<Rightarrow> Dwarf_Section list \<Rightarrow> Dwarf_Debug \<Rightarrow> Dwarf_Abbrev \<Rightarrow> Dwarf_CU \<Rightarrow> Dwarf_Die \<Rightarrow> Dwarf_Die \<Rightarrow>
    (int \<times> Dwarf_Die) eres" where
  "dwarf_child m ss dbg ab cu die ret_die =
     (if ab_children (die_ab die) = DW_CHILDREN_no then Some (Inr (DW_DLE_NO_ENTRY, ret_die))
      else
        bindE (dwarf_search_die_within_cu m ss dbg ab cu (die_next_off die) ret_die False) (\<lambda>(ret, ret_die).
          Some (Inr (dlv_of ret, ret_die))))"

definition dwarf_find_section_enhanced :: "Dwarf_Section list \<Rightarrow> Dwarf_Section \<Rightarrow> Dwarf_Section eres" where
  "dwarf_find_section_enhanced ss ds =
     (case dwarf_find_section ss (ds_name ds) of
        None \<Rightarrow> Some (Inl ''NULL'')
      | Some h \<Rightarrow> Some (Inr (ds\<lparr>ds_data := ds_data h, ds_addr := ds_addr h, ds_size := ds_size h\<rparr>)))"

end
