(* ===== verification/Spec2Isabelle.thy ===== *)
theory Spec2Isabelle
  imports Trap_Setup Syscall_Frame Printfmt_Props Boot_Selftest Monitor Ulib_Fork Dwarf_Die
begin

text \<open>
  \<^bold>\<open>A verification development for the JOS kernel\<close>

  The program is a 64-bit teaching kernel for several processors: a physical page allocator and
  four-level page tables (\<open>kern/pmap.c\<close>), environments, that is, processes (\<open>kern/env.c\<close>), a
  round-robin scheduler (\<open>kern/sched.c\<close>) under one big lock (\<open>kern/spinlock.c\<close>), traps
  (\<open>kern/trap.c\<close>) and system calls (\<open>kern/syscall.c\<close>), a console (\<open>kern/console.c\<close>),
  processor discovery and the local interrupt controller (\<open>kern/mpconfig.c\<close>,
  \<open>kern/lapic.c\<close>), and a C library that the kernel shares with its user programs
  (\<open>lib/string.c\<close>, \<open>lib/printfmt.c\<close>, \<open>lib/readline.c\<close>). Around it: the boot loader
  (\<open>boot/main.c\<close>), a command monitor (\<open>kern/monitor.c\<close>), a reader of debugging information
  (\<open>kern/elf_rw.c\<close>, \<open>kern/libdwarf_rw.c\<close>) and the runtime library of user programs (\<open>lib/fork.c\<close>,
  \<open>lib/ipc.c\<close>, \<open>lib/syscall.c\<close> and smaller files).

  \<^bold>\<open>How the code is rendered.\<close> A C function over the kernel's globals is a function on the record
  \<open>kstate\<close> of theory \<open>Kstate\<close>, which has one field per global variable. Integers are machine
  words of the C width; a signed \<open>int\<close> that the code computes with is read with \<open>sint\<close> and wraps
  around, as the code does compiled without optimization; error codes and character codes, on which
  nothing is computed that could overflow, are integers. Pointers to the elements of \<open>pages\<close>, \<open>envs\<close> and \<open>cpus\<close> are indices and
  \<open>NULL\<close> is \<open>None\<close>; physical memory is an array of frames of 512 words. The result of a function
  that may fail to return is \<open>Inr (value, state)\<close>, or \<open>Inl (why, state)\<close> where \<open>why\<close> says how
  control left: a panic, a null or unmapped pointer, the return to user mode, the idle loop, the
  monitor, a loop that never ends. \<open>bindK\<close> is the semicolon. \<open>cprintf\<close> calls of the kernel are
  recorded as format and integer arguments; what such a call does to the console is the subject
  of \<open>Printfmt\<close>.

  \<^bold>\<open>Constants and state.\<close>
  \<^item> \<open>Jos_Prelude\<close>: word types, proof collections, and the locale \<open>intrusive_list\<close> of a free list
    threaded through an array, which the page allocator and the environment table instantiate.
  \<^item> \<open>Mmu\<close>, \<open>Segments\<close>: \<open>inc/mmu.h\<close>, \<open>inc/memlayout.h\<close>, \<open>inc/types.h\<close>.
  \<^item> \<open>Kstate\<close>: the structs and globals, results and sequencing.

  \<^bold>\<open>Memory.\<close>
  \<^item> \<open>Pmap\<close>: \<open>boot_alloc\<close>, \<open>page_init\<close>, \<open>page_alloc\<close>, \<open>page_free\<close>, \<open>page_decref\<close>, with the
    invariant \<open>alloc_inv\<close> that relates the links to an explicit list of free pages.
  \<^item> \<open>Pmap_Walk\<close>: the walkers \<open>pml4e_walk\<close>, \<open>pdpe_walk\<close>, \<open>pgdir_walk\<close> and every operation built
    on them. \<open>pt_wf\<close> says which frame is the table of which path of indices under which root;
    \<open>mapping s r va\<close> is the leaf entry of \<open>va\<close> under the root \<open>r\<close>. The operations are specified as
    updates of this abstract map.
  \<^item> \<open>Pmap_Insert\<close>: lookup, removal, insertion. \<open>Pmap_Region\<close>: \<open>boot_map_region\<close>,
    \<open>mmio_map_region\<close>, \<open>user_mem_check\<close>.
  \<^item> \<open>Boot_Detect\<close>: the memory map of the boot loader and the page counts (\<open>multiboot_read\<close>,
    \<open>i386_detect_memory\<close>). \<open>Boot_Vm\<close>: the page tables that \<open>x64_vm_init\<close> and \<open>mem_init_mp\<close> build.
  \<^item> \<open>Boot_Check\<close>: the self tests \<open>check_*\<close>, statement by statement, each \<open>assert\<close> an outcome, and
    \<open>x64_vm_init\<close> with them. \<open>Boot_Selftest\<close>: two of them pass on every state with the allocator
    invariant and give back the state they found, and one of them reads address 0.

  \<^bold>\<open>Environments, scheduling, locking.\<close>
  \<^item> \<open>Spinlock\<close>: the lock operations, split at the atomic exchange, and a step relation in which
    all processors interleave; mutual exclusion and progress.
  \<^item> \<open>Sched\<close>: \<open>env_run\<close>, \<open>sched_yield\<close>, \<open>sched_halt\<close>: what one call does, and that along the calls of
    one processor no runnable environment waits for more than \<open>NENV\<close> of them. \<open>Env\<close>, \<open>Env_Life\<close>: ids, the free list,
    creation, program loading and destruction.

  \<^bold>\<open>Entering and leaving the kernel.\<close>
  \<^item> \<open>Syscall\<close>, \<open>Syscall_Ipc\<close>: every system call, the dispatcher, and the contracts of the memory
    calls, of message passing and of \<open>sys_exofork\<close>, error returns included. The code does not refuse
    permission bits outside \<open>PTE_SYSCALL\<close>, nor write access to a read-only page in \<open>sys_page_map\<close>; the
    contracts leave these calls out, and two lemmas show what they do.
  \<^item> \<open>Trap\<close>: the interrupt table, frame printing, \<open>page_fault_handler\<close>, \<open>trap_dispatch\<close>, \<open>trap\<close>.
    \<open>Trap_Exit\<close> proves that every way out of a trap is safe, \<open>Trap_Fault\<close> that a page fault
    reaches the user handler with the right frame, \<open>Trap_Setup\<close> what the table holds.
  \<^item> \<open>Env_Inv\<close>: the environment table stays well formed through every trap. \<open>Syscall_Frame\<close>: a system
    call changes the records of the environments its caller may touch, and no other.

  \<^bold>\<open>Devices.\<close>
  \<^item> \<open>Console\<close>: the text screen refines an abstract terminal, the input ring a queue.
  \<^item> \<open>Lapic\<close>: the tables of the firmware, the processor count, the controller's registers.

  \<^bold>\<open>The C library.\<close>
  \<^item> \<open>Lib_String\<close>: \<open>lib/string.c\<close> on byte-addressed memory.
  \<^item> \<open>Printfmt\<close>, \<open>Printfmt_Props\<close>: \<open>vprintfmt\<close> over an arbitrary output routine. The locale
    \<open>callback\<close> extends what one call of the routine keeps to a whole format; the locale \<open>related\<close>
    does so for two routines side by side, and is interpreted to compare the buffer of \<open>snprintf\<close> and the
    two \<open>cprintf\<close>s with a routine that only collects the characters.
  \<^item> \<open>Readline\<close>: \<open>readline\<close> over an arbitrary terminal; the locale \<open>line_device\<close> states what it needs
    of one, and the kernel's console provides it for any input that its ring has room for.

  \<^bold>\<open>The monitor.\<close>
  \<^item> \<open>Monitor\<close>: the commands of \<open>kern/monitor.c\<close>, the walk along the frame pointers, the command
    interpreter on the byte memory of the line, and the loop that reads and runs lines.

  \<^bold>\<open>User programs\<close> (\<open>lib/*.c\<close>).
  \<^item> \<open>Ulib\<close>: the system call stubs over the instruction \<open>int\<close>, which \<open>int48\<close> instantiates by the
    kernel's \<open>trap\<close>; \<open>fork\<close> with its copy-on-write pages, message passing, page fault handlers.
  \<^item> \<open>Ulib_Calls\<close>: the locale \<open>system_calls\<close> states what the calls on pages promise to the process
    that makes them; its interpretation \<open>trapped\<close> derives the promise from the contracts of
    \<open>Syscall\<close> and \<open>Trap_Exit\<close>. \<open>Ulib_Cow\<close>: the fault handler, \<open>duppage\<close> and the copy of the stack,
    proved once inside the locale. \<open>Ulib_Fork\<close>: the same for \<open>int48\<close>.

  \<^bold>\<open>The disk and the images on it.\<close>
  \<^item> \<open>Boot_Load\<close>: \<open>boot/main.c\<close>, from the ports of the disk controller to the jump into the kernel.
  \<^item> \<open>Elf_Rw\<close>: \<open>kern/elf_rw.c\<close>, which reads or finds the debug sections of an image.
  \<^item> \<open>Dwarf_Rw\<close>, \<open>Dwarf_Die\<close>: \<open>kern/libdwarf_rw.c\<close>, the numbers, tables and entries in these
    sections, proved against an encoder.

  \<^bold>\<open>Loops and fuel.\<close> Loops with a bound are recursive functions whose termination is proved. The
  polling loops of the console and the format interpreter are \<open>partial_function\<close>s whose value
  \<open>None\<close> stands for a loop that never ends; termination is a theorem where it holds. The checks
  of \<open>mp_init\<close> walk as many entries as the table announces. The disk driver and the LEB128 readers
  are \<open>partial_function\<close>s too, and return under the hypotheses of their theorems.

  \<^bold>\<open>Parameters.\<close> What is not C code of the repository is an argument: the addresses of the trap entry
  points and of the tables, the value of the flags register, the stack words that the lock records,
  the monitor session started by a breakpoint, what the debugging information says of an address, the
  addresses of the fault handlers of a user program, and the disk: a stream of status bytes and the
  contents of the sectors.

  \<^bold>\<open>Not modelled.\<close> The assembly entry stubs and the start-up code (their effect is the state a C
  function starts from). \<open>kern/init.c\<close>: \<open>i386_init\<close> calls the modelled set-up routines one after the
  other, and the self test in \<open>x64_vm_init\<close> already reads address 0, where the model stops. The frame
  and line tables of the DWARF reader (\<open>kern/libdwarf_frame.c\<close>, \<open>kern/libdwarf_lineno.c\<close>,
  \<open>kern/kdebug.c\<close>): what they say of an address is a parameter of the monitor. The user programs of
  the course.
\<close>

end
